(* ===== verification/Prelude.thy ===== *)
theory Prelude imports Main "HOL-Library.Word" "HOL-Library.Code_Target_Nat" begin

text \<open>
  Shared vocabulary of the development: names for the machine types of the C sources, a byte
  addressed memory with little-endian loads and stores (the hosts of the library are
  little-endian), the byte-order conversions that both the protocol buffer code and the
  BoringSSL byte-string code use, list splicing (a write into the middle of a buffer), and the
  generic lemmas about them that the component theories rely on.
\<close>

unbundle bit_operations_syntax

section \<open>Collections of facts\<close>

named_theorems byte_simps \<open>facts about byte lists, loads and stores\<close>
named_theorems stream_simps \<open>unfolding rules of stream operations\<close>

section \<open>Machine types\<close>

type_synonym u8 = "8 word"
type_synonym u16 = "16 word"
type_synonym u32 = "32 word"
type_synonym u64 = "64 word"

text \<open>Addresses and values of \<open>size_t\<close> are naturals; where an addition or a product of
  \<open>size_t\<close> values can wrap, the reduction modulo \<open>2 ^ 64\<close> is written out.\<close>

type_synonym addr = nat
type_synonym mem = "addr \<Rightarrow> u8"

abbreviation size_mod :: nat where
  "size_mod \<equiv> 18446744073709551616"

text \<open>The largest \<open>int\<close>.\<close>

abbreviation INT_MAX :: nat where
  "INT_MAX \<equiv> 0x7FFFFFFF"

lemma size_mod_pow: "size_mod = 2 ^ 64"
  by simp

section \<open>Byte order\<close>

fun le_val :: "u8 list \<Rightarrow> nat" where
  "le_val [] = 0"
| "le_val (b # bs) = unat b + 256 * le_val bs"

fun le_bytes :: "nat \<Rightarrow> nat \<Rightarrow> u8 list" where
  "le_bytes 0 v = []"
| "le_bytes (Suc n) v = word_of_nat v # le_bytes n (v div 256)"

lemma le_bytes_map: "le_bytes n v = map (\<lambda>k. word_of_nat (v div 256 ^ k)) [0..<n]"
proof (induction n arbitrary: v)
  case 0
  then show ?case by simp
next
  case (Suc n)
  then show ?case
    by (simp only: le_bytes.simps map_upt_Suc) (simp add: div_mult2_eq)
qed

fun be_val :: "u8 list \<Rightarrow> nat" where
  "be_val [] = 0"
| "be_val (b # bs) = unat b * 256 ^ length bs + be_val bs"

lemma unat_u8_lt [simp]: "unat (b :: u8) < 256"
  using unsigned_less [of b, where ?'a = nat] by simp

lemma unat_u8_le [simp]: "unat (b :: u8) \<le> 255"
  using unat_u8_lt [of b] by linarith

lemma unat_u16_lt [simp]: "unat (w :: u16) < 65536"
  using unsigned_less [of w, where ?'a = nat] by simp

lemma unat_u32_lt [simp]: "unat (w :: u32) < 4294967296"
  using unsigned_less [of w, where ?'a = nat] by simp

lemma unat_u64_lt [simp]: "unat (w :: u64) < 18446744073709551616"
  using unsigned_less [of w, where ?'a = nat] by simp

lemma unat_of_nat_u8: "unat (word_of_nat v :: u8) = v mod 256"
  by (simp add: unat_of_nat take_bit_eq_mod)

lemma length_le_bytes [simp]: "length (le_bytes n v) = n"
  by (induction n arbitrary: v) auto

lemma le_val_le_bytes [simp]: "le_val (le_bytes n v) = v mod 256 ^ n"
proof (induction n arbitrary: v)
  case 0
  then show ?case by simp
next
  case (Suc n)
  have "v mod 256 + 256 * (v div 256 mod 256 ^ n) = v mod (256 * 256 ^ n)"
    by (metis mod_mult2_eq add.commute)
  then show ?case by (simp add: Suc unat_of_nat_u8)
qed

lemma le_val_lt: "le_val bs < 256 ^ length bs"
proof (induction bs)
  case Nil
  then show ?case by simp
next
  case (Cons b bs)
  have "unat b + 256 * le_val bs < 256 + 256 * le_val bs" by simp
  also have "\<dots> = 256 * Suc (le_val bs)" by simp
  also have "\<dots> \<le> 256 * 256 ^ length bs" using Cons by (intro mult_left_mono) auto
  finally show ?case by simp
qed

lemma le_bytes_le_val [simp]: "le_bytes (length bs) (le_val bs) = bs"
proof (induction bs)
  case Nil
  then show ?case by simp
next
  case (Cons b bs)
  have "(unat b + 256 * le_val bs) div 256 = le_val bs" by simp
  moreover have "(word_of_nat (unat b + 256 * le_val bs) :: u8) = b"
    unfolding word_unat_eq_iff unat_of_nat_u8 by simp
  ultimately show ?case using Cons by simp
qed

lemma be_val_append: "be_val (xs @ ys) = be_val xs * 256 ^ length ys + be_val ys"
  by (induction xs) (auto simp: algebra_simps power_add)

lemma be_val_lt: "be_val bs < 256 ^ length bs"
proof (induction bs)
  case Nil
  then show ?case by simp
next
  case (Cons b bs)
  have "unat b * 256 ^ length bs + be_val bs < (unat b + 1) * 256 ^ length bs"
    using Cons by simp
  also have "\<dots> \<le> 256 * 256 ^ length bs"
    using unat_u8_lt [of b] by (intro mult_right_mono) auto
  finally show ?case by simp
qed

lemma be_val_rev: "be_val (rev bs) = le_val bs"
  by (induction bs) (auto simp: be_val_append)

section \<open>Words as naturals\<close>

lemma unat_drop_bit: "unat (drop_bit n (w :: 'a::len word)) = unat w div 2 ^ n"
  by (rule trans [OF unat_drop_bit_eq drop_bit_eq_div])

lemma nat_and_mask: "(a::nat) AND mask n = a mod 2 ^ n"
  by (simp add: take_bit_eq_mod flip: take_bit_eq_mask)

lemma nat_or_push: "a < 2 ^ n \<Longrightarrow> a OR push_bit n b = a + b * 2 ^ n" for a b :: nat
proof -
  assume "a < 2 ^ n"
  then have a: "a = take_bit n a" by (simp add: take_bit_nat_eq_self)
  have "take_bit n a AND push_bit n b = 0"
    by (rule bit_eqI) (auto simp: bit_simps)
  then have "a AND push_bit n b = 0" using a by simp
  then show ?thesis by (simp add: push_bit_eq_mult flip: disjunctive_add_eq_or)
qed

lemma unat_and_mask: "unat (w AND mask n) = unat w mod 2 ^ n" for w :: "'a::len word"
proof -
  have "unat (w AND mask n) = take_bit n (unat w)"
    unfolding take_bit_eq_mask [symmetric] by (rule unsigned_take_bit_eq)
  also have "\<dots> = unat w mod 2 ^ n" by (rule take_bit_eq_mod)
  finally show ?thesis .
qed

lemma unat_or: "unat (a OR b) = unat a OR unat b" for a b :: "'a::len word"
  by (rule unsigned_or_eq)

lemma unat_and: "unat (a AND b) = unat a AND unat b" for a b :: "'a::len word"
  by (rule unsigned_and_eq)

lemma unat_ucast_mod: "unat (ucast (w :: 'a::len word) :: 'b::len word) = unat w mod 2 ^ LENGTH('b)"
  by (simp add: unsigned_ucast_eq take_bit_eq_mod)

lemma unat_push_bit: "unat (push_bit n (w :: 'a::len word)) = unat w * 2 ^ n mod 2 ^ LENGTH('a)"
proof -
  have "unat (push_bit n w) = take_bit LENGTH('a) (push_bit n (unat w))"
    by (rule unsigned_push_bit_eq)
  also have "\<dots> = push_bit n (unat w) mod 2 ^ LENGTH('a)" by (rule take_bit_eq_mod)
  finally show ?thesis by (simp only: push_bit_eq_mult)
qed

lemma unat_or_push:
  fixes c :: "'b::len word"
  assumes "unat r < 2 ^ j" and "unat c < 2 ^ LENGTH('a)" and "unat c * 2 ^ j < 2 ^ LENGTH('a)"
  shows "unat (r OR push_bit j (ucast c) :: 'a::len word) = unat r + unat c * 2 ^ j"
proof -
  have c: "unat (ucast c :: 'a word) = unat c" unfolding unat_ucast_mod using assms(2) by simp
  have "unat (push_bit j (ucast c :: 'a word)) = push_bit j (unat c)"
    unfolding unat_push_bit c using assms(3) by (simp add: push_bit_eq_mult)
  with nat_or_push [OF assms(1)] show ?thesis unfolding unat_or by simp
qed

text \<open>The same when the shifted bits may fall off the top.\<close>

lemma unat_or_push_mod:
  fixes c :: "'b::len word"
  assumes r: "unat r < 2 ^ j" and c: "unat c < 2 ^ LENGTH('a)" and j: "j \<le> LENGTH('a)"
  shows "unat (r OR push_bit j (ucast c) :: 'a::len word) = unat r + unat c * 2 ^ j mod 2 ^ LENGTH('a)"
proof -
  have uc: "unat (ucast c :: 'a word) = unat c" unfolding unat_ucast_mod using c by simp
  have "unat c * 2 ^ j mod 2 ^ LENGTH('a) = unat c mod 2 ^ (LENGTH('a) - j) * 2 ^ j"
    using j by (simp add: mult_mod_left flip: power_add)
  then have "unat (push_bit j (ucast c :: 'a word)) = push_bit j (unat c mod 2 ^ (LENGTH('a) - j))"
    and "unat c * 2 ^ j mod 2 ^ LENGTH('a) = unat c mod 2 ^ (LENGTH('a) - j) * 2 ^ j"
    unfolding unat_push_bit uc by (simp_all add: push_bit_eq_mult)
  with nat_or_push [OF r] show ?thesis unfolding unat_or by simp
qed

lemma add_shift_mod:
  fixes r c :: nat
  assumes r: "r < 2 ^ j" and j: "j \<le> k"
  shows "(r + c * 2 ^ j) mod 2 ^ k = r + c * 2 ^ j mod 2 ^ k"
proof -
  have e: "c * 2 ^ j mod 2 ^ k = c mod 2 ^ (k - j) * 2 ^ j"
    using j by (simp add: mult_mod_left flip: power_add)
  have "r + c mod 2 ^ (k - j) * 2 ^ j < (1 + c mod 2 ^ (k - j)) * 2 ^ j" using r by simp
  also have "\<dots> \<le> 2 ^ (k - j) * 2 ^ j" by (intro mult_right_mono) (simp_all add: Suc_leI)
  also have "\<dots> = 2 ^ k" using j by (simp flip: power_add)
  finally have "(r + c * 2 ^ j mod 2 ^ k) mod 2 ^ k = r + c * 2 ^ j mod 2 ^ k" unfolding e by (rule mod_less)
  then show ?thesis by (simp only: mod_add_right_eq)
qed

lemma unat_of_nat_lt: "n < 2 ^ LENGTH('a) \<Longrightarrow> unat (word_of_nat n :: 'a::len word) = n"
  by (simp add: unat_of_nat take_bit_nat_eq_self)

text \<open>The top bit of a byte and the seven bits below it.\<close>

lemma word_of_unat: "unat w = n \<Longrightarrow> w = word_of_nat n" for w :: "'a::len word"
  by auto

lemma word_bit7: "b AND 0x80 = 0 \<longleftrightarrow> unat b < 128" for b :: u8
proof -
  have "b AND 0x80 = 0 \<longleftrightarrow> \<not> bit b 7"
    using and_exp_eq_0_iff_not_bit [of b 7] by simp
  also have "\<dots> \<longleftrightarrow> even (unat b div 128)"
    using bit_unsigned_iff [where ?'a = nat, of b 7] by (simp add: bit_iff_odd)
  also have "\<dots> \<longleftrightarrow> unat b < 128"
  proof -
    have "unat b div 128 < 2" by (rule less_mult_imp_div_less) simp
    then have "even (unat b div 128) \<longleftrightarrow> unat b div 128 = 0" by (auto dest: less_2_cases)
    then show ?thesis by (simp only: div_eq_0_iff) simp
  qed
  finally show ?thesis .
qed

lemma word_low7: "unat (b AND 0x7F) = unat b mod 128" for b :: u8
proof -
  have m: "(0x7F :: u8) = mask 7" by (simp add: mask_eq_exp_minus_1)
  show ?thesis unfolding m unat_and_mask by simp
qed

section \<open>Memory\<close>

definition mem_read :: "mem \<Rightarrow> addr \<Rightarrow> nat \<Rightarrow> u8 list" where
  "mem_read m a n = map (\<lambda>i. m (a + i)) [0..<n]"

fun mem_write :: "mem \<Rightarrow> addr \<Rightarrow> u8 list \<Rightarrow> mem" where
  "mem_write m a [] = m"
| "mem_write m a (b # bs) = mem_write (m(a := b)) (Suc a) bs"

definition load :: "nat \<Rightarrow> mem \<Rightarrow> addr \<Rightarrow> nat" where
  "load n m a = le_val (mem_read m a n)"

definition store :: "nat \<Rightarrow> mem \<Rightarrow> addr \<Rightarrow> nat \<Rightarrow> mem" where
  "store n m a v = mem_write m a (le_bytes n v)"

lemma length_mem_read [simp]: "length (mem_read m a n) = n"
  by (simp add: mem_read_def)

lemma mem_read_nth [simp]: "i < n \<Longrightarrow> mem_read m a n ! i = m (a + i)"
  by (simp add: mem_read_def)

lemma mem_read_0 [simp]: "mem_read m a 0 = []"
  by (simp add: mem_read_def)

lemma mem_write_apply:
  "mem_write m a bs x = (if a \<le> x \<and> x < a + length bs then bs ! (x - a) else m x)"
proof (induction bs arbitrary: m a)
  case Nil
  then show ?case by auto
next
  case (Cons b bs)
  show ?case
    by (auto simp: Cons.IH nth_Cons split: nat.split) (metis Suc_diff_Suc le_neq_implies_less old.nat.inject order_less_le_trans linorder_not_less less_Suc_eq_le diff_Suc_Suc)+
qed

lemma mem_read_write_same [simp]: "mem_read (mem_write m a bs) a (length bs) = bs"
  by (rule nth_equalityI) (auto simp: mem_write_apply)

lemma mem_read_cong: "(\<And>i. i < n \<Longrightarrow> m (a + i) = m' (a + i)) \<Longrightarrow> mem_read m a n = mem_read m' a n"
  by (simp add: mem_read_def)

lemma mem_read_write_disjoint:
  "a + length bs \<le> b \<or> b + n \<le> a \<Longrightarrow> mem_read (mem_write m a bs) b n = mem_read m b n"
  by (rule mem_read_cong) (auto simp: mem_write_apply)

lemma load_lt: "load n m a < 256 ^ n"
  unfolding load_def using le_val_lt [of "mem_read m a n"] by simp

lemma load_store_same [byte_simps]: "load n (store n m a v) a = v mod 256 ^ n"
  using mem_read_write_same [of m a "le_bytes n v"] by (simp add: load_def store_def)

lemma load_store_disjoint [byte_simps]:
  "a + k \<le> b \<or> b + n \<le> a \<Longrightarrow> load n (store k m a v) b = load n m b"
  by (simp add: load_def store_def mem_read_write_disjoint)

section \<open>Writing into the middle of a buffer\<close>

definition splice :: "'a list \<Rightarrow> nat \<Rightarrow> 'a list \<Rightarrow> 'a list" where
  "splice b pos bs = take pos b @ bs @ drop (pos + length bs) b"

lemma length_splice: "pos + length bs \<le> length b \<Longrightarrow> length (splice b pos bs) = length b"
  by (simp add: splice_def)

lemma take_splice: "pos \<le> length b \<Longrightarrow> take (pos + length bs) (splice b pos bs) = take pos b @ bs"
  by (simp add: splice_def)

lemma drop_splice:
  "pos \<le> length b \<Longrightarrow> drop (pos + length bs) (splice b pos bs) = drop (pos + length bs) b"
  by (simp add: splice_def)

lemma splice_splice:
  assumes "pos + length xs + length ys \<le> length b"
  shows "splice (splice b pos xs) (pos + length xs) ys = splice b pos (xs @ ys)"
  using assms by (simp add: splice_def ac_simps)

lemma splice_Nil [simp]: "splice b pos [] = b"
  by (simp add: splice_def)

section \<open>Results that can fail\<close>

text \<open>
  A C function that returns \<open>bool\<close> and mutates a stream or another object is a function from
  the old state to the boolean and the new state. \<open>chk\<close> is the idiom
  \<open>if (!f(...)) return false;\<close>. Functions that can recurse without a static bound carry
  fuel and return \<open>None\<close> when it is used up; \<open>chkF\<close> is the idiom for them.
\<close>

definition chk :: "bool \<times> 's \<Rightarrow> ('s \<Rightarrow> bool \<times> 's) \<Rightarrow> bool \<times> 's" where
  "chk r f = (case r of (ok, s) \<Rightarrow> if ok then f s else (False, s))"

definition chkF ::
    "(bool \<times> 's) option \<Rightarrow> ('s \<Rightarrow> (bool \<times> 's) option) \<Rightarrow> (bool \<times> 's) option" where
  "chkF r f = (case r of None \<Rightarrow> None | Some (ok, s) \<Rightarrow> if ok then f s else Some (False, s))"

lemma chk_simps [simp]: "chk (True, s) f = f s" "chk (False, s) f = (False, s)"
  by (simp_all add: chk_def)

lemma chkF_simps [simp]:
  "chkF None f = None" "chkF (Some (True, s)) f = f s" "chkF (Some (False, s)) f = Some (False, s)"
  by (simp_all add: chkF_def)

lemma chk_split: "P (chk r f) = (\<forall>ok s. r = (ok, s) \<longrightarrow> P (if ok then f s else (False, s)))"
  by (cases r) (simp add: chk_def)

lemma chk_True: "chk r f = (True, s') \<longleftrightarrow> (\<exists>s. r = (True, s) \<and> f s = (True, s'))"
  by (cases r) (auto simp: chk_def)

lemma chkF_True: "chkF r f = Some (True, s') \<longleftrightarrow> (\<exists>s. r = Some (True, s) \<and> f s = Some (True, s'))"
  by (auto simp: chkF_def split: option.splits prod.splits if_splits)

lemma chkF_cong [fundef_cong]:
  "r = r' \<Longrightarrow> (\<And>s. r' = Some (True, s) \<Longrightarrow> f s = g s) \<Longrightarrow> chkF r f = chkF r' g"
  by (auto simp: chkF_def split: option.splits)

lemma chk_cong [fundef_cong]:
  "r = r' \<Longrightarrow> (\<And>s. r' = (True, s) \<Longrightarrow> f s = g s) \<Longrightarrow> chk r f = chk r' g"
  by (auto simp: chk_def split: prod.splits)


text \<open>A C function with an output parameter returns the value it stores, or \<open>None\<close> when it
  returns false, and the new state.\<close>

definition bnd :: "'a option \<times> 's \<Rightarrow> ('a \<Rightarrow> 's \<Rightarrow> 'b option \<times> 's) \<Rightarrow> 'b option \<times> 's" where
  "bnd r f = (case r of (None, s) \<Rightarrow> (None, s) | (Some a, s) \<Rightarrow> f a s)"

lemma bnd_simps [simp]: "bnd (None, s) f = (None, s)" "bnd (Some a, s) f = f a s"
  by (simp_all add: bnd_def)

lemma bnd_Some: "bnd r f = (Some b, s') \<longleftrightarrow> (\<exists>a s. r = (Some a, s) \<and> f a s = (Some b, s'))"
  by (auto simp: bnd_def split: prod.splits option.splits)

lemma bnd_cong [fundef_cong]:
  "r = r' \<Longrightarrow> (\<And>a s. r' = (Some a, s) \<Longrightarrow> f a s = g a s) \<Longrightarrow> bnd r f = bnd r' g"
  by (auto simp: bnd_def split: option.splits prod.splits)

end
