(* ===== verification/PbCommon.thy ===== *)
theory PbCommon imports Prelude begin

text \<open>
  Message descriptors and the field iterator of nanopb: the constants and the \<open>pb_field_t\<close>
  structure of \<open>pb.h\<close>, and \<open>pb_common.c\<close> (\<open>pb_field_iter_begin\<close>, \<open>pb_field_iter_next\<close>,
  \<open>pb_field_iter_find\<close>). The build defines \<open>PB_FIELD_32BIT\<close>, so \<open>pb_size_t\<close> is a
  32-bit unsigned and \<open>pb_ssize_t\<close> a 32-bit signed integer, and pointers have 8 bytes.
  The lemmas show that the iterator visits the fields of a descriptor in order, wraps around,
  and that a search from any valid position ends and finds a field exactly when there is one.
\<close>

section \<open>Field types\<close>

definition PB_LTYPE :: "u8 \<Rightarrow> u8" where "PB_LTYPE x = x AND 0x0F"
definition PB_HTYPE :: "u8 \<Rightarrow> u8" where "PB_HTYPE x = x AND 0x30"
definition PB_ATYPE :: "u8 \<Rightarrow> u8" where "PB_ATYPE x = x AND 0xC0"

abbreviation PB_LTYPE_VARINT :: u8 where "PB_LTYPE_VARINT \<equiv> 0x00"
abbreviation PB_LTYPE_UVARINT :: u8 where "PB_LTYPE_UVARINT \<equiv> 0x01"
abbreviation PB_LTYPE_SVARINT :: u8 where "PB_LTYPE_SVARINT \<equiv> 0x02"
abbreviation PB_LTYPE_FIXED32 :: u8 where "PB_LTYPE_FIXED32 \<equiv> 0x03"
abbreviation PB_LTYPE_FIXED64 :: u8 where "PB_LTYPE_FIXED64 \<equiv> 0x04"
abbreviation PB_LTYPE_LAST_PACKABLE :: u8 where "PB_LTYPE_LAST_PACKABLE \<equiv> 0x04"
abbreviation PB_LTYPE_BYTES :: u8 where "PB_LTYPE_BYTES \<equiv> 0x05"
abbreviation PB_LTYPE_STRING :: u8 where "PB_LTYPE_STRING \<equiv> 0x06"
abbreviation PB_LTYPE_SUBMESSAGE :: u8 where "PB_LTYPE_SUBMESSAGE \<equiv> 0x07"
abbreviation PB_LTYPE_EXTENSION :: u8 where "PB_LTYPE_EXTENSION \<equiv> 0x08"
abbreviation PB_LTYPE_FIXED_LENGTH_BYTES :: u8 where "PB_LTYPE_FIXED_LENGTH_BYTES \<equiv> 0x09"

abbreviation PB_HTYPE_REQUIRED :: u8 where "PB_HTYPE_REQUIRED \<equiv> 0x00"
abbreviation PB_HTYPE_OPTIONAL :: u8 where "PB_HTYPE_OPTIONAL \<equiv> 0x10"
abbreviation PB_HTYPE_REPEATED :: u8 where "PB_HTYPE_REPEATED \<equiv> 0x20"
abbreviation PB_HTYPE_ONEOF :: u8 where "PB_HTYPE_ONEOF \<equiv> 0x30"

abbreviation PB_ATYPE_STATIC :: u8 where "PB_ATYPE_STATIC \<equiv> 0x00"
abbreviation PB_ATYPE_POINTER :: u8 where "PB_ATYPE_POINTER \<equiv> 0x80"
abbreviation PB_ATYPE_CALLBACK :: u8 where "PB_ATYPE_CALLBACK \<equiv> 0x40"

abbreviation PB_SIZE_MAX :: u32 where "PB_SIZE_MAX \<equiv> 0xFFFFFFFF"

section \<open>Descriptors\<close>

text \<open>
  The member \<open>ptr\<close> of a descriptor entry is null, the descriptor array of a submessage (named
  by a number, which a descriptor environment maps to the array, so that descriptors can be
  cyclic as those of recursive messages are), or the default value of the field.
\<close>

datatype pb_ptr = PtrNull | PtrFields nat | PtrDefault "u8 list"

record pb_field =
  f_tag :: u32
  f_type :: u8
  f_data_offset :: u32
  f_size_offset :: "32 word"
  f_data_size :: u32
  f_array_size :: u32
  f_ptr :: pb_ptr

definition PB_LAST_FIELD :: pb_field where
  "PB_LAST_FIELD = \<lparr>f_tag = 0, f_type = 0, f_data_offset = 0, f_size_offset = 0,
     f_data_size = 0, f_array_size = 0, f_ptr = PtrNull\<rparr>"

type_synonym descr_env = "nat \<Rightarrow> pb_field list"

text \<open>A descriptor array ends with \<open>PB_LAST_FIELD\<close>; the list of a descriptor may leave it out.\<close>

definition field_at :: "pb_field list \<Rightarrow> nat \<Rightarrow> pb_field" where
  "field_at fs i = (if i < length fs then fs ! i else PB_LAST_FIELD)"

text \<open>\<open>(char*)p + off\<close> for a signed offset.\<close>

definition ptr_add :: "addr \<Rightarrow> 32 word \<Rightarrow> addr" where
  "ptr_add p off = nat (int p + sint off)"

section \<open>The field iterator\<close>

text \<open>
  The member \<open>pSize\<close> points into the message, or, while a fixed-count array is decoded, to the
  local variable \<open>fixed_count_size\<close> of the decoder.
\<close>

datatype psize = PMem addr | PFixedCount

record pb_field_iter =
  it_start :: "pb_field list"
  it_pos :: nat
  it_req :: nat
  it_dest :: addr
  it_pData :: addr
  it_pSize :: psize

definition it_field :: "pb_field_iter \<Rightarrow> pb_field" where
  "it_field it = field_at (it_start it) (it_pos it)"

definition pb_field_iter_begin :: "pb_field list \<Rightarrow> addr \<Rightarrow> bool \<times> pb_field_iter" where
  "pb_field_iter_begin flds dest_struct =
     (let pos = field_at flds 0;
          pData = dest_struct + unat (f_data_offset pos);
          pSize = ptr_add pData (f_size_offset pos)
      in (f_tag pos \<noteq> 0,
          \<lparr>it_start = flds, it_pos = 0, it_req = 0, it_dest = dest_struct,
           it_pData = pData, it_pSize = PMem pSize\<rparr>))"

definition pb_field_iter_next :: "pb_field_iter \<Rightarrow> bool \<times> pb_field_iter" where
  "pb_field_iter_next it =
     (let prev_field = it_field it in
      if f_tag prev_field = 0 then (False, it)
      else
        let pos = Suc (it_pos it); cur = field_at (it_start it) pos in
        if f_tag cur = 0 then (False, snd (pb_field_iter_begin (it_start it) (it_dest it)))
        else if PB_HTYPE (f_type prev_field) = PB_HTYPE_ONEOF \<and>
                PB_HTYPE (f_type cur) = PB_HTYPE_ONEOF \<and>
                f_data_offset cur = PB_SIZE_MAX
        then (True, it\<lparr>it_pos := pos\<rparr>)
        else
          let prev_size =
                (if PB_ATYPE (f_type prev_field) = PB_ATYPE_STATIC \<and>
                    PB_HTYPE (f_type prev_field) = PB_HTYPE_REPEATED
                 then unat (f_data_size prev_field) * unat (f_array_size prev_field)
                 else if PB_ATYPE (f_type prev_field) = PB_ATYPE_POINTER then 8
                 else unat (f_data_size prev_field));
              req = (if PB_HTYPE (f_type prev_field) = PB_HTYPE_REQUIRED
                     then Suc (it_req it) else it_req it);
              pData = it_pData it + prev_size + unat (f_data_offset cur);
              pSize = ptr_add pData (f_size_offset cur)
          in (True, it\<lparr>it_pos := pos, it_req := req, it_pData := pData, it_pSize := PMem pSize\<rparr>))"

text \<open>
  The search is a loop that stops when it comes back to where it started; it does not return
  for an iterator that points behind the end of its descriptor, hence the option type.
\<close>

partial_function (option) pb_field_iter_find_loop ::
    "nat \<Rightarrow> u32 \<Rightarrow> pb_field_iter \<Rightarrow> (bool \<times> pb_field_iter) option" where
  "pb_field_iter_find_loop start tag it =
     (if f_tag (it_field it) = tag \<and> PB_LTYPE (f_type (it_field it)) \<noteq> PB_LTYPE_EXTENSION
      then Some (True, it)
      else
        let it' = snd (pb_field_iter_next it) in
        if it_pos it' \<noteq> start then pb_field_iter_find_loop start tag it' else Some (False, it'))"

definition pb_field_iter_find :: "u32 \<Rightarrow> pb_field_iter \<Rightarrow> (bool \<times> pb_field_iter) option" where
  "pb_field_iter_find tag it = pb_field_iter_find_loop (it_pos it) tag it"

text \<open>The loop \<open>do ... while (pb_field_iter_next(&iter))\<close> over a message: the body gets the
  iterator and the state it threads, and ends the loop by returning \<open>False\<close>.\<close>

function do_fields ::
    "(pb_field_iter \<Rightarrow> 'st \<Rightarrow> (bool \<times> 'st) option) \<Rightarrow> pb_field_iter \<Rightarrow> 'st \<Rightarrow> (bool \<times> 'st) option" where
  "do_fields body it s =
     chkF (body it s) (\<lambda>s'.
       case pb_field_iter_next it of
         (True, it') \<Rightarrow> do_fields body it' s'
       | (False, it') \<Rightarrow> Some (True, s'))"
  by pat_completeness auto
termination
proof (relation "measure (\<lambda>(body, it, s). length (it_start it) - it_pos it)", goal_cases)
  case 1
  then show ?case by simp
next
  case (2 body it s s' x it' )
  then show ?case
    by (auto simp: pb_field_iter_next_def Let_def field_at_def PB_LAST_FIELD_def split: if_splits)
qed

declare do_fields.simps [simp del]

section \<open>The fields an iterator visits\<close>

text \<open>The number of entries before the terminator.\<close>

fun nfields :: "pb_field list \<Rightarrow> nat" where
  "nfields [] = 0"
| "nfields (f # fs) = (if f_tag f = 0 then 0 else Suc (nfields fs))"

lemma nfields_le: "nfields fs \<le> length fs"
  by (induction fs) auto

lemma field_at_Cons: "field_at (f # fs) i = (case i of 0 \<Rightarrow> f | Suc j \<Rightarrow> field_at fs j)"
  by (simp add: field_at_def split: nat.split)

lemma field_at_tag_nonzero: "i < nfields fs \<Longrightarrow> f_tag (field_at fs i) \<noteq> 0"
  by (induction fs arbitrary: i) (auto simp: field_at_Cons split: if_splits nat.splits)

lemma field_at_nfields: "f_tag (field_at fs (nfields fs)) = 0"
  by (induction fs) (auto simp: field_at_def PB_LAST_FIELD_def)

text \<open>The iterator after \<open>k\<close> steps from the beginning.\<close>

primrec iter_at :: "pb_field list \<Rightarrow> addr \<Rightarrow> nat \<Rightarrow> pb_field_iter" where
  "iter_at fs dest 0 = snd (pb_field_iter_begin fs dest)"
| "iter_at fs dest (Suc k) = snd (pb_field_iter_next (iter_at fs dest k))"

lemma iter_begin_fields [simp]:
  "it_start (snd (pb_field_iter_begin fs d)) = fs" "it_dest (snd (pb_field_iter_begin fs d)) = d"
  "it_pos (snd (pb_field_iter_begin fs d)) = 0" "it_req (snd (pb_field_iter_begin fs d)) = 0"
  by (simp_all add: pb_field_iter_begin_def Let_def)

lemma iter_begin_ok: "fst (pb_field_iter_begin fs d) \<longleftrightarrow> 0 < nfields fs"
  by (cases fs) (auto simp: pb_field_iter_begin_def Let_def field_at_def PB_LAST_FIELD_def)

lemma iter_next_start [simp]:
  "it_start (snd (pb_field_iter_next it)) = it_start it"
  "it_dest (snd (pb_field_iter_next it)) = it_dest it"
  by (simp_all add: pb_field_iter_next_def Let_def)

lemma iter_next_pos:
  assumes "it_pos it < nfields (it_start it)"
  shows "fst (pb_field_iter_next it) \<longleftrightarrow> Suc (it_pos it) < nfields (it_start it)"
    and "it_pos (snd (pb_field_iter_next it)) =
           (if Suc (it_pos it) < nfields (it_start it) then Suc (it_pos it) else 0)"
proof -
  have nz: "f_tag (it_field it) \<noteq> 0"
    using assms by (simp add: it_field_def field_at_tag_nonzero)
  have cur: "f_tag (field_at (it_start it) (Suc (it_pos it))) = 0 \<longleftrightarrow>
      \<not> Suc (it_pos it) < nfields (it_start it)"
    using assms field_at_tag_nonzero field_at_nfields
    by (metis Suc_lessI)
  show "fst (pb_field_iter_next it) \<longleftrightarrow> Suc (it_pos it) < nfields (it_start it)"
    using nz cur by (auto simp: pb_field_iter_next_def Let_def)
  show "it_pos (snd (pb_field_iter_next it)) =
           (if Suc (it_pos it) < nfields (it_start it) then Suc (it_pos it) else 0)"
    using nz cur by (auto simp: pb_field_iter_next_def Let_def)
qed

lemma iter_next_wrap:
  assumes "it_pos it < nfields (it_start it)" "\<not> fst (pb_field_iter_next it)"
  shows "snd (pb_field_iter_next it) = snd (pb_field_iter_begin (it_start it) (it_dest it))"
proof -
  have "f_tag (it_field it) \<noteq> 0"
    using assms(1) by (simp add: it_field_def field_at_tag_nonzero)
  then show ?thesis using assms(2)
    by (auto simp: pb_field_iter_next_def Let_def split: if_splits)
qed

lemma iter_at_start [simp]: "it_start (iter_at fs d k) = fs" "it_dest (iter_at fs d k) = d"
  by (induction k) auto

lemma iter_at_pos: "k < nfields fs \<Longrightarrow> it_pos (iter_at fs d k) = k"
  by (induction k) (auto simp: iter_next_pos)

lemma iter_at_field: "k < nfields fs \<Longrightarrow> it_field (iter_at fs d k) = fs ! k"
  using nfields_le [of fs] by (simp add: it_field_def iter_at_pos field_at_def)

lemma iter_at_next:
  assumes "k < nfields fs"
  shows "snd (pb_field_iter_next (iter_at fs d k)) =
           (if Suc k < nfields fs then iter_at fs d (Suc k) else iter_at fs d 0)"
  using assms iter_next_wrap [of "iter_at fs d k"]
  by (auto simp: iter_at_pos iter_next_pos)

section \<open>What a search finds\<close>

definition field_matches :: "u32 \<Rightarrow> pb_field \<Rightarrow> bool" where
  "field_matches tag f \<longleftrightarrow> f_tag f = tag \<and> PB_LTYPE (f_type f) \<noteq> PB_LTYPE_EXTENSION"

text \<open>The positions a search started at \<open>s\<close> still looks at when it is at \<open>p\<close>.\<close>

definition cyc_from :: "nat \<Rightarrow> nat \<Rightarrow> nat \<Rightarrow> nat list" where
  "cyc_from n s p = (if p < s then [p..<s] else [p..<n] @ [0..<s])"

lemma cyc_from_step:
  assumes "s < n" "p < n"
  shows "cyc_from n s p =
           p # (let q = (if Suc p < n then Suc p else 0) in if q = s then [] else cyc_from n s q)"
  using assms by (auto simp: cyc_from_def Let_def upt_conv_Cons)

lemma cyc_from_set: "s < n \<Longrightarrow> set (cyc_from n s s) = {0..<n}"
  by (auto simp: cyc_from_def)

definition find_result :: "u32 \<Rightarrow> pb_field list \<Rightarrow> addr \<Rightarrow> nat \<Rightarrow> nat list \<Rightarrow> bool \<times> pb_field_iter" where
  "find_result tag fs d s ps =
     (case find (\<lambda>j. field_matches tag (fs ! j)) ps of
        None \<Rightarrow> (False, iter_at fs d s) | Some j \<Rightarrow> (True, iter_at fs d j))"

lemma find_loop_step:
  "pb_field_iter_find_loop start tag it =
     (if field_matches tag (it_field it) then Some (True, it)
      else let it' = snd (pb_field_iter_next it) in
        if it_pos it' \<noteq> start then pb_field_iter_find_loop start tag it' else Some (False, it'))"
  by (subst pb_field_iter_find_loop.simps) (simp add: field_matches_def)

lemma find_loop_result:
  assumes "s < nfields fs" "p < nfields fs"
  shows "pb_field_iter_find_loop s tag (iter_at fs d p) =
           Some (find_result tag fs d s (cyc_from (nfields fs) s p))"
  using assms(2)
proof (induction "length (cyc_from (nfields fs) s p)" arbitrary: p rule: less_induct)
  case less
  let ?n = "nfields fs"
  define q where "q = (if Suc p < ?n then Suc p else 0)"
  have cyc: "cyc_from ?n s p = p # (if q = s then [] else cyc_from ?n s q)"
    using cyc_from_step [OF assms(1) less.prems] by (simp add: Let_def q_def)
  have nxt: "snd (pb_field_iter_next (iter_at fs d p)) = iter_at fs d q"
    using less.prems by (simp add: iter_at_next q_def del: iter_at.simps)
  have q: "q < ?n" using less.prems by (simp add: q_def)
  have step: "pb_field_iter_find_loop s tag (iter_at fs d p) =
      (if field_matches tag (fs ! p) then Some (True, iter_at fs d p)
       else if q \<noteq> s then pb_field_iter_find_loop s tag (iter_at fs d q)
       else Some (False, iter_at fs d q))"
    by (subst find_loop_step) (simp add: iter_at_field less.prems nxt iter_at_pos q Let_def)
  have rec: "pb_field_iter_find_loop s tag (iter_at fs d q) =
          Some (find_result tag fs d s (cyc_from ?n s q))" if "q \<noteq> s"
    by (rule less.hyps) (use cyc that q in auto)
  show ?case
  proof (cases "field_matches tag (fs ! p) \<or> q = s")
    case True
    then show ?thesis by (auto simp: step find_result_def cyc)
  next
    case False
    then show ?thesis by (simp add: step rec find_result_def cyc)
  qed
qed

text \<open>The decoder redirects \<open>pSize\<close> for fixed-count arrays; the search does not look at it.\<close>

definition iter_valid :: "pb_field list \<Rightarrow> addr \<Rightarrow> pb_field_iter \<Rightarrow> bool" where
  "iter_valid fs d it \<longleftrightarrow> it_pos it < nfields fs \<and>
     it\<lparr>it_pSize := it_pSize (iter_at fs d (it_pos it))\<rparr> = iter_at fs d (it_pos it)"

lemma iter_valid_at: "k < nfields fs \<Longrightarrow> iter_valid fs d (iter_at fs d k)"
  by (simp add: iter_valid_def iter_at_pos)

lemma iter_next_pSize:
  assumes "it_pos it < nfields (it_start it)"
    and "\<not> (PB_HTYPE (f_type (it_field it)) = PB_HTYPE_ONEOF)"
  shows "snd (pb_field_iter_next (it\<lparr>it_pSize := p\<rparr>)) = snd (pb_field_iter_next it)"
  using assms field_at_tag_nonzero [of "it_pos it" "it_start it"]
  by (simp add: pb_field_iter_next_def Let_def it_field_def)

section \<open>Loops over all fields\<close>

lemma do_fields_at:
  assumes "k < nfields fs"
  shows "do_fields body (iter_at fs d k) s =
           chkF (body (iter_at fs d k) s) (\<lambda>s'.
             if Suc k < nfields fs then do_fields body (iter_at fs d (Suc k)) s' else Some (True, s'))"
proof (cases "pb_field_iter_next (iter_at fs d k)")
  case (Pair ok it')
  have "ok \<longleftrightarrow> Suc k < nfields fs"
    using iter_next_pos(1) [of "iter_at fs d k"] assms Pair by (simp add: iter_at_pos)
  with Pair show ?thesis
    by (subst do_fields.simps) (auto intro!: chkF_cong)
qed

text \<open>A fact about a loop state that every body keeps holds when the loop is done.\<close>

lemma do_fields_invariant:
  assumes "k < nfields fs" "I k s"
    and "\<And>j s ok s'. k \<le> j \<Longrightarrow> j < nfields fs \<Longrightarrow> I j s \<Longrightarrow>
           body (iter_at fs d j) s = Some (True, s') \<Longrightarrow> I (Suc j) s'"
    and "do_fields body (iter_at fs d k) s = Some (True, s')"
  shows "I (nfields fs) s'"
  using assms
proof (induction "nfields fs - k" arbitrary: k s)
  case 0
  then show ?case by simp
next
  case (Suc m)
  from Suc.prems(4) obtain s1 where b: "body (iter_at fs d k) s = Some (True, s1)"
    and rest: "(if Suc k < nfields fs then do_fields body (iter_at fs d (Suc k)) s1
                else Some (True, s1)) = Some (True, s')"
    by (auto simp: do_fields_at [OF Suc.prems(1)] chkF_True)
  have I: "I (Suc k) s1" using Suc.prems(1-3) b by blast
  show ?case
  proof (cases "Suc k < nfields fs")
    case True
    have st: "\<And>j s ok s'. Suc k \<le> j \<Longrightarrow> j < nfields fs \<Longrightarrow> I j s \<Longrightarrow>
           body (iter_at fs d j) s = Some (True, s') \<Longrightarrow> I (Suc j) s'"
      using Suc.prems(3) Suc_leD by blast
    from Suc.hyps(1) [OF _ True I st] Suc.hyps(2) rest True show ?thesis by simp
  next
    case False
    then have "Suc k = nfields fs" using Suc.prems(1) by simp
    then show ?thesis using I rest False by auto
  qed
qed

end
