(* ===== verification/PbOstream.thy ===== *)
theory PbOstream imports PbCommon begin

text \<open>
  Output streams and the wire-level encoders of \<open>pb_encode.c\<close>: \<open>pb_ostream_t\<close>,
  \<open>buf_write\<close>, \<open>pb_ostream_from_buffer\<close>, \<open>pb_write\<close>, and the encoders of varints, zig-zag
  varints, fixed-width integers, tags and strings. A stream either has no callback (it only
  counts: \<open>PB_OSTREAM_SIZING\<close>), or writes to a memory buffer through \<open>buf_write\<close>, or calls a
  user function with a state of its own. The lemmas describe what each encoder writes
  (\<open>emits\<close>), on every kind of stream, and the bytes of the varint encoding.
\<close>

section \<open>Output streams\<close>

datatype 's osink = is_NullSink: NullSink | BufSink "u8 list" nat | UserSink "'s \<Rightarrow> u8 list \<Rightarrow> bool \<times> 's" 's

record 's ostream =
  o_sink :: "'s osink"
  max_size :: nat
  bytes_written :: nat
  o_errmsg :: "string option"

text \<open>\<open>PB_SET_ERROR\<close> keeps the first message; \<open>PB_RETURN_ERROR\<close> sets it and returns false.\<close>

definition o_set_error :: "string \<Rightarrow> 's ostream \<Rightarrow> 's ostream" where
  "o_set_error msg s = s\<lparr>o_errmsg := (case o_errmsg s of None \<Rightarrow> Some msg | Some e \<Rightarrow> Some e)\<rparr>"

definition o_error :: "string \<Rightarrow> 's ostream \<Rightarrow> bool \<times> 's ostream" where
  "o_error msg s = (False, o_set_error msg s)"

definition PB_OSTREAM_SIZING :: "'s ostream" where
  "PB_OSTREAM_SIZING = \<lparr>o_sink = NullSink, max_size = 0, bytes_written = 0, o_errmsg = None\<rparr>"

text \<open>The state of a buffer stream is the buffer and the offset of the next byte.\<close>

definition buf_write :: "u8 list \<Rightarrow> nat \<Rightarrow> u8 list \<Rightarrow> bool \<times> u8 list \<times> nat" where
  "buf_write b pos bs = (True, splice b pos bs, pos + length bs)"

definition pb_ostream_from_buffer :: "u8 list \<Rightarrow> nat \<Rightarrow> 's ostream" where
  "pb_ostream_from_buffer buf bufsize =
     \<lparr>o_sink = BufSink buf 0, max_size = bufsize, bytes_written = 0, o_errmsg = None\<rparr>"

text \<open>The call \<open>stream->callback(stream, buf, count)\<close>.\<close>

fun o_callback :: "'s osink \<Rightarrow> u8 list \<Rightarrow> bool \<times> 's osink" where
  "o_callback NullSink bs = (False, NullSink)"
| "o_callback (BufSink b pos) bs =
     (case buf_write b pos bs of (ok, b', pos') \<Rightarrow> (ok, BufSink b' pos'))"
| "o_callback (UserSink f st) bs = (case f st bs of (ok, st') \<Rightarrow> (ok, UserSink f st'))"

text \<open>\<open>buf\<close> is the bytes at the caller's pointer, of which \<open>count\<close> are written; it is not
  looked at when the stream has no callback.\<close>

definition pb_write :: "'s ostream \<Rightarrow> u8 list \<Rightarrow> nat \<Rightarrow> bool \<times> 's ostream" where
  "pb_write s buf count =
     (if \<not> is_NullSink (o_sink s) then
        if (bytes_written s + count) mod size_mod > max_size s then o_error ''stream full'' s
        else
          case o_callback (o_sink s) (take count buf) of (ok, sink) \<Rightarrow>
            let s' = s\<lparr>o_sink := sink\<rparr> in
            if \<not> ok then o_error ''io error'' s'
            else (True, s'\<lparr>bytes_written := (bytes_written s' + count) mod size_mod\<rparr>)
      else (True, s\<lparr>bytes_written := (bytes_written s + count) mod size_mod\<rparr>))"

section \<open>Wire-level encoders\<close>

text \<open>The loop of \<open>pb_encode_varint\<close>; \<open>buffer\<close> is what has been stored so far.\<close>

function enc_varint_loop :: "u64 \<Rightarrow> u8 list \<Rightarrow> u8 list" where
  "enc_varint_loop value buffer =
     (if value = 0 then buffer
      else enc_varint_loop (drop_bit 7 value) (buffer @ [ucast ((value AND 0x7F) OR 0x80)]))"
  by pat_completeness auto
termination
proof (relation "measure (\<lambda>(value, buffer). unat value)", goal_cases)
  case 1
  then show ?case by simp
next
  case (2 v buffer)
  then have "0 < unat v" by (simp add: unat_gt_0)
  then have "unat v div 128 < unat v" by simp
  then show ?case by (simp add: unat_drop_bit)
qed

declare enc_varint_loop.simps [simp del]

definition varint_buffer :: "u64 \<Rightarrow> u8 list" where
  "varint_buffer value =
     (let buffer = enc_varint_loop value [] in butlast buffer @ [last buffer AND 0x7F])"

definition pb_encode_varint :: "'s ostream \<Rightarrow> u64 \<Rightarrow> bool \<times> 's ostream" where
  "pb_encode_varint s value =
     (if value \<le> 0x7F then pb_write s [ucast value] 1
      else let buffer = varint_buffer value in pb_write s buffer (length buffer))"

text \<open>A signed 64-bit value is the word with the same bits.\<close>

definition pb_encode_svarint :: "'s ostream \<Rightarrow> u64 \<Rightarrow> bool \<times> 's ostream" where
  "pb_encode_svarint s value =
     (let zigzagged = (if value <s 0 then NOT (push_bit 1 value) else push_bit 1 value)
      in pb_encode_varint s zigzagged)"

definition pb_encode_fixed32 :: "mem \<Rightarrow> 's ostream \<Rightarrow> addr \<Rightarrow> bool \<times> 's ostream" where
  "pb_encode_fixed32 m s value =
     (let val = (word_of_nat (load 4 m value) :: u32);
          bytes = map (\<lambda>k. ucast (drop_bit (8 * k) val AND 0xFF)) [0..<4]
      in pb_write s bytes 4)"

definition pb_encode_fixed64 :: "mem \<Rightarrow> 's ostream \<Rightarrow> addr \<Rightarrow> bool \<times> 's ostream" where
  "pb_encode_fixed64 m s value =
     (let val = (word_of_nat (load 8 m value) :: u64);
          bytes = map (\<lambda>k. ucast (drop_bit (8 * k) val AND 0xFF)) [0..<8]
      in pb_write s bytes 8)"

abbreviation PB_WT_VARINT :: u32 where "PB_WT_VARINT \<equiv> 0"
abbreviation PB_WT_64BIT :: u32 where "PB_WT_64BIT \<equiv> 1"
abbreviation PB_WT_STRING :: u32 where "PB_WT_STRING \<equiv> 2"
abbreviation PB_WT_32BIT :: u32 where "PB_WT_32BIT \<equiv> 5"

definition pb_encode_tag :: "'s ostream \<Rightarrow> u32 \<Rightarrow> u32 \<Rightarrow> bool \<times> 's ostream" where
  "pb_encode_tag s wiretype field_number =
     (let tag = push_bit 3 (ucast field_number :: u64) OR ucast wiretype
      in pb_encode_varint s tag)"

definition pb_encode_tag_for_field :: "'s ostream \<Rightarrow> pb_field \<Rightarrow> bool \<times> 's ostream" where
  "pb_encode_tag_for_field s field =
     (let lt = PB_LTYPE (f_type field) in
      if lt = PB_LTYPE_VARINT \<or> lt = PB_LTYPE_UVARINT \<or> lt = PB_LTYPE_SVARINT
      then pb_encode_tag s PB_WT_VARINT (f_tag field)
      else if lt = PB_LTYPE_FIXED32 then pb_encode_tag s PB_WT_32BIT (f_tag field)
      else if lt = PB_LTYPE_FIXED64 then pb_encode_tag s PB_WT_64BIT (f_tag field)
      else if lt = PB_LTYPE_BYTES \<or> lt = PB_LTYPE_STRING \<or> lt = PB_LTYPE_SUBMESSAGE \<or>
              lt = PB_LTYPE_FIXED_LENGTH_BYTES
      then pb_encode_tag s PB_WT_STRING (f_tag field)
      else o_error ''invalid field type'' s)"

definition pb_encode_string :: "'s ostream \<Rightarrow> u8 list \<Rightarrow> nat \<Rightarrow> bool \<times> 's ostream" where
  "pb_encode_string s buffer sz =
     chk (pb_encode_varint s (word_of_nat sz)) (\<lambda>s. pb_write s buffer sz)"

section \<open>The bytes of a varint\<close>

text \<open>The base-128 representation: seven bits per byte, low group first, the high bit set on
  every byte but the last.\<close>

fun varint_of :: "nat \<Rightarrow> u8 list" where
  "varint_of n =
     (if n < 128 then [word_of_nat n]
      else word_of_nat (n mod 128 + 128) # varint_of (n div 128))"

declare varint_of.simps [simp del]

lemma ucast_cont: "ucast ((v AND 0x7F) OR 0x80 :: u64) = (word_of_nat (unat v mod 128 + 128) :: u8)"
proof -
  have m: "(0x7F :: u64) = mask 7" by (simp add: mask_eq_exp_minus_1)
  have "unat ((v AND 0x7F) OR 0x80) = (unat v mod 128) OR 128"
    unfolding m unat_or unat_and_mask by simp
  also have "\<dots> = unat v mod 128 + 128"
    using nat_or_push [of "unat v mod 128" 7 1] by (simp add: push_bit_eq_mult)
  finally show ?thesis
    unfolding word_unat_eq_iff unat_ucast_mod unat_of_nat_u8 by simp
qed
lemma enc_varint_loop_eq:
  "0 < unat v \<Longrightarrow>
     \<exists>xs x. enc_varint_loop v buf = buf @ xs @ [x] \<and> varint_of (unat v) = xs @ [x AND 0x7F]"
proof (induction v buf rule: enc_varint_loop.induct)
  case (1 v buf)
  let ?b = "ucast ((v AND 0x7F) OR 0x80) :: u8"
  have v: "v \<noteq> 0" using "1.prems" by auto
  then have unfold: "enc_varint_loop v buf = enc_varint_loop (drop_bit 7 v) (buf @ [?b])"
    by (subst enc_varint_loop.simps) simp
  show ?case
  proof (cases "unat v < 128")
    case True
    then have "drop_bit 7 v = 0" by (simp add: unat_eq_zero [symmetric] unat_drop_bit del: unat_eq_zero)
    then have "enc_varint_loop v buf = buf @ [] @ [?b]"
      unfolding unfold by (subst enc_varint_loop.simps) simp
    moreover have "?b AND 0x7F = word_of_nat (unat v)"
    proof -
      have m: "(0x7F :: u8) = mask 7" by (simp add: mask_eq_exp_minus_1)
      show ?thesis using True
        unfolding word_unat_eq_iff m unat_and_mask ucast_cont unat_of_nat_u8 by simp
    qed
    ultimately show ?thesis using True by (intro exI [of _ "[]"] exI [of _ ?b])
      (simp add: varint_of.simps [of "unat v"])
  next
    case False
    then have "0 < unat (drop_bit 7 v)" by (simp add: unat_drop_bit)
    from "1.IH" [OF v this] obtain xs x where
      "enc_varint_loop (drop_bit 7 v) (buf @ [?b]) = (buf @ [?b]) @ xs @ [x]"
      "varint_of (unat (drop_bit 7 v)) = xs @ [x AND 0x7F]" by blast
    then show ?thesis using False
      by (intro exI [of _ "?b # xs"] exI [of _ x])
        (simp add: unfold varint_of.simps [of "unat v"] unat_drop_bit ucast_cont)
  qed
qed

lemma varint_buffer_eq: "v \<noteq> 0 \<Longrightarrow> varint_buffer v = varint_of (unat v)"
  using enc_varint_loop_eq [of v "[]"]
  by (auto simp: varint_buffer_def Let_def unat_gt_0 butlast_append)

lemma varint_small: "v \<le> 0x7F \<Longrightarrow> [ucast (v :: u64)] = varint_of (unat v)"
  by (simp add: varint_of.simps word_le_nat_alt word_unat_eq_iff unat_ucast_mod unat_of_nat_u8)

lemma pb_encode_varint_eq:
  "pb_encode_varint s v = (let bs = varint_of (unat v) in pb_write s bs (length bs))"
proof (cases "v \<le> 0x7F")
  case True
  have "length (varint_of (unat v)) = 1"
    unfolding varint_small [OF True, symmetric] by simp
  with True show ?thesis by (simp add: pb_encode_varint_def varint_small Let_def)
next
  case False
  then have "v \<noteq> 0" by auto
  with False show ?thesis by (simp add: pb_encode_varint_def varint_buffer_eq Let_def)
qed

lemma length_varint_of: "n < 2 ^ (7 * Suc k) \<Longrightarrow> length (varint_of n) \<le> Suc k"
proof (induction k arbitrary: n)
  case 0
  then show ?case by (simp add: varint_of.simps)
next
  case (Suc k)
  then have "n div 128 < 2 ^ (7 * Suc k)"
    by (simp add: less_mult_imp_div_less power_add)
  with Suc.IH [of "n div 128"] show ?case by (simp add: varint_of.simps [of n])
qed

lemma length_varint_word: "length (varint_of (unat (v :: u64))) \<le> 10"
proof -
  have "unat v < 2 ^ (7 * Suc 9)" using unat_u64_lt [of v] by (simp del: unat_u64_lt)
  from length_varint_of [OF this] show ?thesis by simp
qed

lemma varint_of_nonempty [simp]: "varint_of n \<noteq> []"
  by (simp add: varint_of.simps)

section \<open>What a stream operation writes\<close>

text \<open>
  \<open>put s bs\<close> is the stream after \<open>bs\<close> has been written. A stream is well-formed when no
  error has been recorded, a
  buffer sink really has the room that \<open>max_size\<close> promises, and a user sink accepts every
  write and cannot tell one write from two (the callback contract of \<open>pb_encode.h\<close> without
  I/O errors).
\<close>

fun sink_put :: "'s osink \<Rightarrow> u8 list \<Rightarrow> 's osink" where
  "sink_put NullSink bs = NullSink"
| "sink_put (BufSink b pos) bs = BufSink (splice b pos bs) (pos + length bs)"
| "sink_put (UserSink f st) bs = UserSink f (snd (f st bs))"

definition put :: "'s ostream \<Rightarrow> u8 list \<Rightarrow> 's ostream" where
  "put s bs = s\<lparr>o_sink := sink_put (o_sink s) bs, bytes_written := bytes_written s + length bs\<rparr>"

definition user_contract :: "('s \<Rightarrow> u8 list \<Rightarrow> bool \<times> 's) \<Rightarrow> bool" where
  "user_contract f \<longleftrightarrow>
     (\<forall>st bs. fst (f st bs)) \<and> (\<forall>st. f st [] = (True, st)) \<and>
     (\<forall>st xs ys. f (snd (f st xs)) ys = f st (xs @ ys))"

definition ostream_ok :: "'s ostream \<Rightarrow> bool" where
  "ostream_ok s \<longleftrightarrow> max_size s < size_mod \<and> o_errmsg s = None \<and>
     (case o_sink s of
        NullSink \<Rightarrow> True
      | BufSink b pos \<Rightarrow> bytes_written s \<le> max_size s \<and> pos + (max_size s - bytes_written s) \<le> length b
      | UserSink f st \<Rightarrow> bytes_written s \<le> max_size s \<and> user_contract f)"

definition room :: "'s ostream \<Rightarrow> nat \<Rightarrow> bool" where
  "room s n \<longleftrightarrow> is_NullSink (o_sink s) \<or> bytes_written s + n \<le> max_size s"

definition emits :: "('s ostream \<Rightarrow> (bool \<times> 's ostream) option) \<Rightarrow> u8 list \<Rightarrow> bool" where
  "emits f bs \<longleftrightarrow>
     (\<forall>s. ostream_ok s \<longrightarrow> bytes_written s + length bs < size_mod \<longrightarrow>
        (if room s (length bs) then f s = Some (True, put s bs)
         else \<exists>s'. f s = Some (False, s') \<and> o_errmsg s' \<noteq> None))"

lemma emitsD:
  "emits f bs \<Longrightarrow> ostream_ok s \<Longrightarrow> bytes_written s + length bs < size_mod \<Longrightarrow> room s (length bs) \<Longrightarrow>
     f s = Some (True, put s bs)"
  by (simp add: emits_def)

lemma emitsD_full:
  "emits f bs \<Longrightarrow> ostream_ok s \<Longrightarrow> bytes_written s + length bs < size_mod \<Longrightarrow> \<not> room s (length bs) \<Longrightarrow>
     \<exists>s'. f s = Some (False, s') \<and> o_errmsg s' \<noteq> None"
  unfolding emits_def by presburger

lemma put_fields [simp]:
  "bytes_written (put s bs) = bytes_written s + length bs" "max_size (put s bs) = max_size s"
  "o_sink (put s bs) = sink_put (o_sink s) bs" "o_errmsg (put s bs) = o_errmsg s"
  by (simp_all add: put_def)

lemma is_NullSink_put [simp]: "is_NullSink (sink_put k bs) = is_NullSink k"
  by (cases k) auto

lemma ostream_ok_put: "ostream_ok s \<Longrightarrow> room s (length bs) \<Longrightarrow> ostream_ok (put s bs)"
  by (auto simp: ostream_ok_def room_def length_splice split: osink.splits)

lemma put_append:
  assumes "ostream_ok s" "room s (length (xs @ ys))"
  shows "put (put s xs) ys = put s (xs @ ys)"
  using assms
  by (auto simp: put_def ostream_ok_def room_def splice_splice user_contract_def ac_simps
      split: osink.splits)

lemma put_Nil: "ostream_ok s \<Longrightarrow> put s [] = s"
  by (auto simp: put_def ostream_ok_def user_contract_def split: osink.splits)

lemma emits_seq:
  assumes f: "emits f xs" and g: "emits g ys"
  shows "emits (\<lambda>s. chkF (f s) g) (xs @ ys)"
  unfolding emits_def
proof (intro allI impI)
  fix s :: "'a ostream"
  assume ok: "ostream_ok s" and lt: "bytes_written s + length (xs @ ys) < size_mod"
  show "if room s (length (xs @ ys)) then chkF (f s) g = Some (True, put s (xs @ ys))
        else \<exists>s'. chkF (f s) g = Some (False, s') \<and> o_errmsg s' \<noteq> None"
  proof (cases "room s (length xs)")
    case False
    then have "\<not> room s (length (xs @ ys))" by (auto simp: room_def)
    with emitsD_full [OF f ok _ False] lt show ?thesis by auto
  next
    case True
    then have fs: "f s = Some (True, put s xs)" using emitsD [OF f ok] lt by simp
    have ok': "ostream_ok (put s xs)" using ok True by (rule ostream_ok_put)
    have r: "room (put s xs) (length ys) = room s (length (xs @ ys))"
      by (simp add: room_def add.assoc)
    show ?thesis
    proof (cases "room s (length (xs @ ys))")
      case True
      then show ?thesis
        using emitsD [OF g ok'] lt r put_append [OF ok True] fs by (simp add: add.assoc)
    next
      case False
      then show ?thesis
        using emitsD_full [OF g ok'] lt r fs by (simp add: add.assoc)
    qed
  qed
qed

lemma emits_Nil: "emits (\<lambda>s. Some (True, s)) []"
  by (auto simp: emits_def put_Nil room_def ostream_ok_def split: osink.splits)

lemma user_contractD: "user_contract f \<Longrightarrow> f st bs = (True, snd (f st bs))"
proof -
  assume "user_contract f"
  then have "fst (f st bs)" by (simp add: user_contract_def)
  then show ?thesis by (cases "f st bs") simp
qed

lemma pb_write_put:
  assumes ok: "ostream_ok s" and lt: "bytes_written s + length bs < size_mod"
    and r: "room s (length bs)"
  shows "pb_write s bs (length bs) = (True, put s bs)"
proof -
  have m: "(bytes_written s + length bs) mod size_mod = bytes_written s + length bs"
    using lt by (rule mod_less)
  show ?thesis
  proof (cases "o_sink s")
    case NullSink
    then show ?thesis unfolding pb_write_def put_def by (simp add: m)
  next
    case (BufSink b pos)
    then show ?thesis using r unfolding pb_write_def put_def room_def by (simp add: m buf_write_def)
  next
    case (UserSink f st)
    then have "user_contract f" using ok by (simp add: ostream_ok_def)
    then have "f st bs = (True, snd (f st bs))" by (rule user_contractD)
    then obtain st' where "f st bs = (True, st')" ..
    then show ?thesis using UserSink r unfolding pb_write_def put_def room_def by (simp add: m)
  qed
qed

lemma pb_write_full:
  assumes lt: "bytes_written s + n < size_mod" and r: "\<not> room s n"
  shows "pb_write s bs n = o_error ''stream full'' s"
proof -
  have m: "(bytes_written s + n) mod size_mod = bytes_written s + n"
    using lt by (rule mod_less)
  show ?thesis using r unfolding pb_write_def room_def by (simp add: m)
qed

lemma o_error_errmsg: "o_errmsg (snd (o_error msg s)) \<noteq> None"
  by (simp add: o_error_def o_set_error_def split: option.splits)

lemma emits_write: "emits (\<lambda>s. Some (pb_write s bs (length bs))) bs"
  unfolding emits_def
  by (auto simp: pb_write_put pb_write_full o_error_def o_set_error_def split: option.splits
      simp del: not_None_eq)

end
