(* ===== verification/PbEncode.thy ===== *)
theory PbEncode imports PbOstream begin

text \<open>
  The message encoder of nanopb, \<open>pb_encode.c\<close>: the field encoders \<open>pb_enc_*\<close> and their
  table, arrays, basic, callback and extension fields, submessages (encoded twice, first to
  learn the size), \<open>pb_encode\<close> and its variants. The message lives in a byte-addressed memory
  that encoding only reads. Function pointers of the program (field callbacks, extension
  handlers) are looked up in an environment. Encoding recurses through submessages as deep as
  the message does, and extension lists are as long as the program makes them: both are bounded
  by fuel, and \<open>None\<close> means that it was not enough, or that a null function was called.
\<close>

type_synonym 's encoder = "'s ostream \<Rightarrow> pb_field \<Rightarrow> addr \<Rightarrow> (bool \<times> 's ostream) option"
type_synonym 's msg_encoder = "pb_field list \<Rightarrow> addr \<Rightarrow> 's ostream \<Rightarrow> (bool \<times> 's ostream) option"

text \<open>\<open>pb_extension_type_t\<close>: the encode handler, null for the default one, and the descriptor
  entry the default handlers use.\<close>

record 's ext_enc_type =
  et_encode :: "(mem \<Rightarrow> addr \<Rightarrow> 's ostream \<Rightarrow> (bool \<times> 's ostream) option) option"
  et_arg :: "pb_field list"

text \<open>The environment: descriptor arrays, callback functions and extension types by address.\<close>

record 's enc_env =
  e_descr :: descr_env
  e_callback :: "addr \<Rightarrow> mem \<Rightarrow> 's encoder"
  e_ext_type :: "addr \<Rightarrow> 's ext_enc_type"

text \<open>\<open>(const pb_field_t*)field->ptr\<close>; only used where the pointer is known not to be null.\<close>

definition sub_fields :: "descr_env \<Rightarrow> pb_field \<Rightarrow> pb_field list" where
  "sub_fields D field = (case f_ptr field of PtrFields n \<Rightarrow> D n | _ \<Rightarrow> [])"

section \<open>Field encoders\<close>

text \<open>The sign-extending loads \<open>*(const intN_t*)src\<close>.\<close>

definition load_signed :: "mem \<Rightarrow> u32 \<Rightarrow> addr \<Rightarrow> u64 option" where
  "load_signed m data_size src =
     (if data_size = 1 then Some (scast (word_of_nat (load 1 m src) :: u8))
      else if data_size = 2 then Some (scast (word_of_nat (load 2 m src) :: u16))
      else if data_size = 4 then Some (scast (word_of_nat (load 4 m src) :: u32))
      else if data_size = 8 then Some (word_of_nat (load 8 m src))
      else None)"

definition load_unsigned :: "mem \<Rightarrow> u32 \<Rightarrow> addr \<Rightarrow> u64 option" where
  "load_unsigned m data_size src =
     (if data_size = 1 then Some (word_of_nat (load 1 m src))
      else if data_size = 2 then Some (word_of_nat (load 2 m src))
      else if data_size = 4 then Some (word_of_nat (load 4 m src))
      else if data_size = 8 then Some (word_of_nat (load 8 m src))
      else None)"

definition pb_enc_varint :: "mem \<Rightarrow> 's encoder" where
  "pb_enc_varint m s field src =
     (case load_signed m (f_data_size field) src of
        None \<Rightarrow> Some (o_error ''invalid data_size'' s)
      | Some v \<Rightarrow> Some (pb_encode_varint s v))"

definition pb_enc_uvarint :: "mem \<Rightarrow> 's encoder" where
  "pb_enc_uvarint m s field src =
     (case load_unsigned m (f_data_size field) src of
        None \<Rightarrow> Some (o_error ''invalid data_size'' s)
      | Some v \<Rightarrow> Some (pb_encode_varint s v))"

definition pb_enc_svarint :: "mem \<Rightarrow> 's encoder" where
  "pb_enc_svarint m s field src =
     (case load_signed m (f_data_size field) src of
        None \<Rightarrow> Some (o_error ''invalid data_size'' s)
      | Some v \<Rightarrow> Some (pb_encode_svarint s v))"

definition pb_enc_fixed64 :: "mem \<Rightarrow> 's encoder" where
  "pb_enc_fixed64 m s field src = Some (pb_encode_fixed64 m s src)"

definition pb_enc_fixed32 :: "mem \<Rightarrow> 's encoder" where
  "pb_enc_fixed32 m s field src = Some (pb_encode_fixed32 m s src)"

text \<open>\<open>pb_bytes_array_t\<close> is a 4-byte size followed by the bytes.\<close>

definition pb_enc_bytes :: "mem \<Rightarrow> 's encoder" where
  "pb_enc_bytes m s field src =
     (if src = 0 then Some (pb_encode_string s [] 0)
      else
        let sz = load 4 m src in
        if PB_ATYPE (f_type field) = PB_ATYPE_STATIC \<and> sz + 4 > unat (f_data_size field)
        then Some (o_error ''bytes size exceeded'' s)
        else Some (pb_encode_string s (mem_read m (src + 4) sz) sz))"

function strn_loop :: "mem \<Rightarrow> addr \<Rightarrow> nat \<Rightarrow> nat \<Rightarrow> nat" where
  "strn_loop m p sz max_sz =
     (if sz < max_sz \<and> m p \<noteq> 0 then strn_loop m (Suc p) (Suc sz) max_sz else sz)"
  by pat_completeness auto
termination
  by (relation "measure (\<lambda>(m, p, sz, max_sz). max_sz - sz)") auto

declare strn_loop.simps [simp del]

definition pb_enc_string :: "mem \<Rightarrow> 's encoder" where
  "pb_enc_string m s field src =
     (let max_sz = (if PB_ATYPE (f_type field) = PB_ATYPE_POINTER then size_mod - 1
                    else unat (f_data_size field));
          sz = (if src = 0 then 0 else strn_loop m src 0 max_sz)
      in Some (pb_encode_string s (mem_read m src sz) sz))"

text \<open>The second pass of \<open>pb_encode_submessage\<close>, into a substream of exactly the size the first
  pass has found.\<close>

definition encode_into_substream :: "'s msg_encoder \<Rightarrow> 's ostream \<Rightarrow> pb_field list \<Rightarrow> addr \<Rightarrow> nat \<Rightarrow>
    (bool \<times> 's ostream) option" where
  "encode_into_substream enc s flds src sz =
     (if (bytes_written s + sz) mod size_mod > max_size s then Some (o_error ''stream full'' s)
      else
        case enc flds src \<lparr>o_sink = o_sink s, max_size = sz, bytes_written = 0, o_errmsg = None\<rparr> of
          None \<Rightarrow> None
        | Some (status, sub) \<Rightarrow>
            let s' = s\<lparr>bytes_written := (bytes_written s + bytes_written sub) mod size_mod,
                      o_sink := o_sink sub, o_errmsg := o_errmsg sub\<rparr>
            in if bytes_written sub \<noteq> sz then Some (o_error ''submsg size changed'' s')
               else Some (status, s'))"

definition pb_encode_submessage :: "'s msg_encoder \<Rightarrow> 's ostream \<Rightarrow> pb_field list \<Rightarrow> addr \<Rightarrow>
    (bool \<times> 's ostream) option" where
  "pb_encode_submessage enc s flds src =
     (case enc flds src PB_OSTREAM_SIZING of
        None \<Rightarrow> None
      | Some (False, sub) \<Rightarrow> Some (False, s\<lparr>o_errmsg := o_errmsg sub\<rparr>)
      | Some (True, sub) \<Rightarrow>
          let sz = bytes_written sub in
          chkF (Some (pb_encode_varint s (word_of_nat sz))) (\<lambda>s.
            if is_NullSink (o_sink s) then Some (pb_write s [] sz)
            else encode_into_substream enc s flds src sz))"

definition pb_enc_submessage :: "descr_env \<Rightarrow> 's msg_encoder \<Rightarrow> 's encoder" where
  "pb_enc_submessage D enc s field src =
     (if f_ptr field = PtrNull then Some (o_error ''invalid field descriptor'' s)
      else pb_encode_submessage enc s (sub_fields D field) src)"

definition pb_enc_fixed_length_bytes :: "mem \<Rightarrow> 's encoder" where
  "pb_enc_fixed_length_bytes m s field src =
     Some (pb_encode_string s (mem_read m src (unat (f_data_size field)))
             (unat (f_data_size field)))"

text \<open>The table \<open>PB_ENCODERS\<close>; calling its null entry does not return.\<close>

definition PB_ENCODERS :: "'s enc_env \<Rightarrow> mem \<Rightarrow> 's msg_encoder \<Rightarrow> u8 \<Rightarrow> 's encoder" where
  "PB_ENCODERS env m enc lt =
     (if lt = PB_LTYPE_VARINT then pb_enc_varint m
      else if lt = PB_LTYPE_UVARINT then pb_enc_uvarint m
      else if lt = PB_LTYPE_SVARINT then pb_enc_svarint m
      else if lt = PB_LTYPE_FIXED32 then pb_enc_fixed32 m
      else if lt = PB_LTYPE_FIXED64 then pb_enc_fixed64 m
      else if lt = PB_LTYPE_BYTES then pb_enc_bytes m
      else if lt = PB_LTYPE_STRING then pb_enc_string m
      else if lt = PB_LTYPE_SUBMESSAGE then pb_enc_submessage (e_descr env) enc
      else if lt = PB_LTYPE_FIXED_LENGTH_BYTES then pb_enc_fixed_length_bytes m
      else (\<lambda>s field src. None))"

section \<open>Encoding one field\<close>

text \<open>The loop over the entries of an array: entry \<open>k\<close> is at \<open>p + k * data_size\<close>.\<close>

primrec enc_items :: "('s ostream \<Rightarrow> addr \<Rightarrow> (bool \<times> 's ostream) option) \<Rightarrow> nat \<Rightarrow>
    nat \<Rightarrow> addr \<Rightarrow> 's ostream \<Rightarrow> (bool \<times> 's ostream) option" where
  "enc_items item data_size 0 p s = Some (True, s)"
| "enc_items item data_size (Suc n) p s =
     chkF (item s p) (\<lambda>s. enc_items item data_size n (p + data_size) s)"

definition encode_array :: "mem \<Rightarrow> 's ostream \<Rightarrow> pb_field \<Rightarrow> addr \<Rightarrow> nat \<Rightarrow> 's encoder \<Rightarrow>
    (bool \<times> 's ostream) option" where
  "encode_array m s field pData count func =
     (let lt = PB_LTYPE (f_type field); at = PB_ATYPE (f_type field);
          dsz = unat (f_data_size field)
      in
      if count = 0 then Some (True, s)
      else if at \<noteq> PB_ATYPE_POINTER \<and> count > unat (f_array_size field)
      then Some (o_error ''array max size exceeded'' s)
      else if lt \<le> PB_LTYPE_LAST_PACKABLE then
        chkF (Some (pb_encode_tag s PB_WT_STRING (f_tag field))) (\<lambda>s.
          let sized = (if lt = PB_LTYPE_FIXED32 then Some (True, 4 * count)
                       else if lt = PB_LTYPE_FIXED64 then Some (True, 8 * count)
                       else map_option (\<lambda>(ok, z). (ok, bytes_written z))
                              (enc_items (\<lambda>s p. func s field p) dsz count pData
                                 (PB_OSTREAM_SIZING :: 's ostream)))
          in case sized of
               None \<Rightarrow> None
             | Some (False, _) \<Rightarrow> Some (False, s)
             | Some (True, sz) \<Rightarrow>
                 chkF (Some (pb_encode_varint s (word_of_nat sz))) (\<lambda>s.
                   if is_NullSink (o_sink s) then Some (pb_write s [] sz)
                   else enc_items (\<lambda>s p. func s field p) dsz count pData s))
      else
        enc_items (\<lambda>s p.
          chkF (Some (pb_encode_tag_for_field s field)) (\<lambda>s.
            if at = PB_ATYPE_POINTER \<and> (lt = PB_LTYPE_STRING \<or> lt = PB_LTYPE_BYTES)
            then func s field (load 8 m p) else func s field p))
          dsz count pData s)"

text \<open>One level of \<open>pb_check_proto3_default_value\<close>; \<open>rec\<close> is the call for a submessage field.\<close>

definition check_default_step :: "descr_env \<Rightarrow> mem \<Rightarrow> (pb_field \<Rightarrow> addr \<Rightarrow> bool option) \<Rightarrow>
    pb_field \<Rightarrow> addr \<Rightarrow> bool option" where
  "check_default_step D m rec field pData =
     (let ty = f_type field; pSize = ptr_add pData (f_size_offset field);
          catch_all = Some (list_all (\<lambda>b. b = 0) (mem_read m pData (unat (f_data_size field))))
      in
      if PB_HTYPE ty = PB_HTYPE_REQUIRED then Some False
      else if PB_HTYPE ty = PB_HTYPE_REPEATED then Some (load 4 m pSize = 0)
      else if PB_HTYPE ty = PB_HTYPE_ONEOF then Some (load 4 m pSize = 0)
      else if PB_HTYPE ty = PB_HTYPE_OPTIONAL \<and> f_size_offset field \<noteq> 0
      then Some (load 1 m pSize = 0)
      else if PB_ATYPE ty = PB_ATYPE_STATIC then
        if PB_LTYPE ty = PB_LTYPE_BYTES then Some (load 4 m pData = 0)
        else if PB_LTYPE ty = PB_LTYPE_STRING then Some (m pData = 0)
        else if PB_LTYPE ty = PB_LTYPE_FIXED_LENGTH_BYTES then Some (f_data_size field = 0)
        else if PB_LTYPE ty = PB_LTYPE_SUBMESSAGE then
          (case pb_field_iter_begin (sub_fields D field) pData of
             (False, it) \<Rightarrow> Some True
           | (True, it) \<Rightarrow>
               map_option fst (do_fields
                 (\<lambda>it u. map_option (\<lambda>b. (b, u)) (rec (it_field it) (it_pData it))) it ()))
        else catch_all
      else catch_all)"

primrec pb_check_proto3_default_value :: "descr_env \<Rightarrow> mem \<Rightarrow> nat \<Rightarrow> pb_field \<Rightarrow> addr \<Rightarrow> bool option" where
  "pb_check_proto3_default_value D m 0 = (\<lambda>field pData. None)"
| "pb_check_proto3_default_value D m (Suc n) =
     check_default_step D m (pb_check_proto3_default_value D m n)"

text \<open>
  \<open>pSize\<close> points to the local \<open>implicit_has\<close> when the field has no size member; the two reads
  below are of the member when there is one and of the local otherwise.
\<close>

definition encode_basic_field :: "'s enc_env \<Rightarrow> mem \<Rightarrow> 's msg_encoder \<Rightarrow> nat \<Rightarrow> 's encoder" where
  "encode_basic_field env m enc n s field pData =
     (let ty = f_type field;
          func = PB_ENCODERS env m enc (PB_LTYPE ty);
          pSize = ptr_add pData (f_size_offset field);
          implicit =
            (if f_size_offset field \<noteq> 0 then Some False
             else if PB_HTYPE ty = PB_HTYPE_OPTIONAL
             then map_option Not (pb_check_proto3_default_value (e_descr env) m n field pData)
             else Some True)
      in case implicit of
           None \<Rightarrow> None
         | Some implicit \<Rightarrow>
      (let ptr = (PB_ATYPE ty = PB_ATYPE_POINTER);
           data = (if ptr then load 8 m pData else pData);
           implicit_has = (if ptr then data \<noteq> 0 else implicit);
           has = (if f_size_offset field \<noteq> 0 then load 1 m pSize \<noteq> 0 else implicit_has);
           which = (if f_size_offset field \<noteq> 0 then load 4 m pSize
                    else if implicit_has then 1 else 0);
           one = (\<lambda>s. chkF (Some (pb_encode_tag_for_field s field)) (\<lambda>s. func s field data))
       in
       if PB_HTYPE ty = PB_HTYPE_REQUIRED then
         if data = 0 then Some (o_error ''missing required field'' s) else one s
       else if PB_HTYPE ty = PB_HTYPE_OPTIONAL then
         if has then one s else Some (True, s)
       else if PB_HTYPE ty = PB_HTYPE_REPEATED then
         encode_array m s field data
           (if f_size_offset field \<noteq> 0 then load 4 m pSize else unat (f_array_size field)) func
       else
         if which = unat (f_tag field) then one s else Some (True, s)))"

text \<open>\<open>pb_callback_t\<close> is the function pointer followed by the argument.\<close>

definition encode_callback_field :: "'s enc_env \<Rightarrow> mem \<Rightarrow> 's encoder" where
  "encode_callback_field env m s field pData =
     (if load 8 m pData \<noteq> 0 then
        case e_callback env (load 8 m pData) m s field (pData + 8) of
          None \<Rightarrow> None
        | Some (ok, s) \<Rightarrow> if \<not> ok then Some (o_error ''callback error'' s) else Some (True, s)
      else Some (True, s))"

definition encode_field :: "'s enc_env \<Rightarrow> mem \<Rightarrow> 's msg_encoder \<Rightarrow> nat \<Rightarrow> 's encoder" where
  "encode_field env m enc n s field pData =
     (let at = PB_ATYPE (f_type field) in
      if at = PB_ATYPE_STATIC \<or> at = PB_ATYPE_POINTER
      then encode_basic_field env m enc n s field pData
      else if at = PB_ATYPE_CALLBACK then encode_callback_field env m s field pData
      else Some (o_error ''invalid field type'' s))"

text \<open>\<open>pb_extension_t\<close>: type at 0, dest at 8, next at 16, found at 24.\<close>

definition default_extension_encoder :: "'s enc_env \<Rightarrow> mem \<Rightarrow> 's msg_encoder \<Rightarrow> nat \<Rightarrow>
    's ostream \<Rightarrow> addr \<Rightarrow> (bool \<times> 's ostream) option" where
  "default_extension_encoder env m enc n s extension =
     (let field = field_at (et_arg (e_ext_type env (load 8 m extension))) 0 in
      if PB_ATYPE (f_type field) = PB_ATYPE_POINTER
      then encode_field env m enc n s field (extension + 8)
      else encode_field env m enc n s field (load 8 m (extension + 8)))"

primrec encode_extensions :: "'s enc_env \<Rightarrow> mem \<Rightarrow> 's msg_encoder \<Rightarrow> nat \<Rightarrow> nat \<Rightarrow>
    's ostream \<Rightarrow> addr \<Rightarrow> (bool \<times> 's ostream) option" where
  "encode_extensions env m enc n 0 s extension =
     (if extension = 0 then Some (True, s) else None)"
| "encode_extensions env m enc n (Suc k) s extension =
     (if extension = 0 then Some (True, s)
      else
        chkF (case et_encode (e_ext_type env (load 8 m extension)) of
                Some f \<Rightarrow> f m extension s
              | None \<Rightarrow> default_extension_encoder env m enc n s extension)
          (\<lambda>s. encode_extensions env m enc n k s (load 8 m (extension + 16))))"

definition encode_extension_field :: "'s enc_env \<Rightarrow> mem \<Rightarrow> 's msg_encoder \<Rightarrow> nat \<Rightarrow> 's encoder" where
  "encode_extension_field env m enc n s field pData =
     encode_extensions env m enc n n s (load 8 m pData)"

section \<open>Encoding a message\<close>

primrec pb_encode :: "'s enc_env \<Rightarrow> mem \<Rightarrow> nat \<Rightarrow> 's msg_encoder" where
  "pb_encode env m 0 = (\<lambda>flds src s. None)"
| "pb_encode env m (Suc n) = (\<lambda>flds src s.
     case pb_field_iter_begin flds src of
       (False, it) \<Rightarrow> Some (True, s)
     | (True, it) \<Rightarrow>
         do_fields (\<lambda>it s.
           if PB_LTYPE (f_type (it_field it)) = PB_LTYPE_EXTENSION
           then encode_extension_field env m (pb_encode env m n) n s (it_field it) (it_pData it)
           else encode_field env m (pb_encode env m n) n s (it_field it) (it_pData it)) it s)"

definition pb_encode_delimited :: "'s enc_env \<Rightarrow> mem \<Rightarrow> nat \<Rightarrow> 's ostream \<Rightarrow> pb_field list \<Rightarrow> addr \<Rightarrow>
    (bool \<times> 's ostream) option" where
  "pb_encode_delimited env m n s flds src = pb_encode_submessage (pb_encode env m n) s flds src"

definition pb_encode_nullterminated :: "'s enc_env \<Rightarrow> mem \<Rightarrow> nat \<Rightarrow> 's ostream \<Rightarrow> pb_field list \<Rightarrow>
    addr \<Rightarrow> (bool \<times> 's ostream) option" where
  "pb_encode_nullterminated env m n s flds src =
     chkF (pb_encode env m n flds src s) (\<lambda>s. Some (pb_write s [0] 1))"

definition pb_get_encoded_size :: "'s enc_env \<Rightarrow> mem \<Rightarrow> nat \<Rightarrow> pb_field list \<Rightarrow> addr \<Rightarrow>
    (bool \<times> nat) option" where
  "pb_get_encoded_size env m n flds src =
     (case pb_encode env m n flds src PB_OSTREAM_SIZING of
        None \<Rightarrow> None
      | Some (ok, s) \<Rightarrow> Some (ok, bytes_written s))"

end
