(* ===== verification/PbEncodeSpec.thy ===== *)
theory PbEncodeSpec imports PbEncode begin

text \<open>
  The abstract specification of the nanopb encoder and the refinement that ties \<open>pb_encode\<close>
  to it. The specification reads a message out of memory as a list of wire records (a field
  number and a value of one of the four wire types) and knows nothing of streams; the
  refinement states that \<open>pb_encode\<close> writes exactly the concatenated records on every stream
  that has room for them, and fails with an error message on a stream that has not. Messages
  whose fields all have static, pointer or default-extension storage are covered; a field with
  a user callback has no specification.
\<close>

section \<open>Wire records\<close>

datatype wire = WVarint u64 | W64 u64 | WLen "u8 list" | W32 u32

primrec wire_type_of :: "wire \<Rightarrow> u32" where
  "wire_type_of (WVarint v) = PB_WT_VARINT"
| "wire_type_of (W64 v) = PB_WT_64BIT"
| "wire_type_of (WLen bs) = PB_WT_STRING"
| "wire_type_of (W32 v) = PB_WT_32BIT"

primrec payload :: "wire \<Rightarrow> u8 list" where
  "payload (WVarint v) = varint_of (unat v)"
| "payload (W64 v) = le_bytes 8 (unat v)"
| "payload (WLen bs) = varint_of (length bs) @ bs"
| "payload (W32 v) = le_bytes 4 (unat v)"

type_synonym wrecord = "u32 \<times> wire"

definition record_bytes :: "wrecord \<Rightarrow> u8 list" where
  "record_bytes r = varint_of (unat (fst r) * 8 + unat (wire_type_of (snd r))) @ payload (snd r)"

definition records_bytes :: "wrecord list \<Rightarrow> u8 list" where
  "records_bytes rs = concat (map record_bytes rs)"

lemma records_bytes_simps [simp]:
  "records_bytes [] = []" "records_bytes (rs @ rs') = records_bytes rs @ records_bytes rs'"
  "records_bytes (r # rs) = record_bytes r @ records_bytes rs"
  by (simp_all add: records_bytes_def)

lemma records_bytes_concat: "records_bytes (concat rss) = concat (map records_bytes rss)"
  by (induction rss) simp_all

definition zigzag :: "u64 \<Rightarrow> u64" where
  "zigzag v = (if v <s 0 then NOT (push_bit 1 v) else push_bit 1 v)"

section \<open>The records of a message\<close>

type_synonym msg_spec = "pb_field list \<Rightarrow> addr \<Rightarrow> wrecord list option"

definition bytes_field :: "mem \<Rightarrow> pb_field \<Rightarrow> addr \<Rightarrow> u8 list option" where
  "bytes_field m field src =
     (if src = 0 then Some []
      else if PB_ATYPE (f_type field) = PB_ATYPE_STATIC \<and> load 4 m src + 4 > unat (f_data_size field)
      then None
      else Some (mem_read m (src + 4) (load 4 m src)))"

definition string_field :: "mem \<Rightarrow> pb_field \<Rightarrow> addr \<Rightarrow> u8 list" where
  "string_field m field src =
     (if src = 0 then []
      else mem_read m src (strn_loop m src 0
             (if PB_ATYPE (f_type field) = PB_ATYPE_POINTER then size_mod - 1
              else unat (f_data_size field))))"

definition value_wire :: "descr_env \<Rightarrow> mem \<Rightarrow> msg_spec \<Rightarrow> pb_field \<Rightarrow> addr \<Rightarrow> wire option" where
  "value_wire D m rec field src =
     (let lt = PB_LTYPE (f_type field) in
      if lt = PB_LTYPE_VARINT then map_option WVarint (load_signed m (f_data_size field) src)
      else if lt = PB_LTYPE_UVARINT then map_option WVarint (load_unsigned m (f_data_size field) src)
      else if lt = PB_LTYPE_SVARINT
      then map_option (WVarint \<circ> zigzag) (load_signed m (f_data_size field) src)
      else if lt = PB_LTYPE_FIXED32 then Some (W32 (word_of_nat (load 4 m src)))
      else if lt = PB_LTYPE_FIXED64 then Some (W64 (word_of_nat (load 8 m src)))
      else if lt = PB_LTYPE_BYTES then map_option WLen (bytes_field m field src)
      else if lt = PB_LTYPE_STRING then Some (WLen (string_field m field src))
      else if lt = PB_LTYPE_SUBMESSAGE then
        (if f_ptr field = PtrNull then None
         else map_option (WLen \<circ> records_bytes) (rec (sub_fields D field) src))
      else if lt = PB_LTYPE_FIXED_LENGTH_BYTES
      then Some (WLen (mem_read m src (unat (f_data_size field))))
      else None)"

text \<open>The addresses of the entries of an array, and its records: one packed record, or one
  record per entry.\<close>

definition item_addrs :: "pb_field \<Rightarrow> addr \<Rightarrow> nat \<Rightarrow> addr list" where
  "item_addrs field p count = map (\<lambda>k. p + k * unat (f_data_size field)) [0..<count]"

definition array_records :: "descr_env \<Rightarrow> mem \<Rightarrow> msg_spec \<Rightarrow> pb_field \<Rightarrow> addr \<Rightarrow> nat \<Rightarrow>
    wrecord list option" where
  "array_records D m rec field p count =
     (let ty = f_type field; ptr = (PB_ATYPE ty = PB_ATYPE_POINTER) in
      if count = 0 then Some []
      else if \<not> ptr \<and> count > unat (f_array_size field) then None
      else if PB_LTYPE ty \<le> PB_LTYPE_LAST_PACKABLE then
        map_option (\<lambda>ws. [(f_tag field, WLen (concat (map payload ws)))])
          (those (map (value_wire D m rec field) (item_addrs field p count)))
      else
        map_option (map (Pair (f_tag field)))
          (those (map (\<lambda>a. value_wire D m rec field
                 (if ptr \<and> (PB_LTYPE ty = PB_LTYPE_STRING \<or> PB_LTYPE ty = PB_LTYPE_BYTES)
                  then load 8 m a else a)) (item_addrs field p count))))"

definition basic_records :: "descr_env \<Rightarrow> mem \<Rightarrow> msg_spec \<Rightarrow> nat \<Rightarrow> pb_field \<Rightarrow> addr \<Rightarrow>
    wrecord list option" where
  "basic_records D m rec n field p =
     (let ty = f_type field; ptr = (PB_ATYPE ty = PB_ATYPE_POINTER);
          data = (if ptr then load 8 m p else p);
          pSize = ptr_add p (f_size_offset field);
          sized = (f_size_offset field \<noteq> 0);
          one = map_option (\<lambda>w. [(f_tag field, w)]) (value_wire D m rec field data)
      in
      if PB_HTYPE ty = PB_HTYPE_REQUIRED then if data = 0 then None else one
      else if PB_HTYPE ty = PB_HTYPE_OPTIONAL then
        (case (if sized then Some (load 1 m pSize \<noteq> 0)
               else if ptr then map_option (\<lambda>_. data \<noteq> 0) (pb_check_proto3_default_value D m n field p)
               else map_option Not (pb_check_proto3_default_value D m n field p)) of
           None \<Rightarrow> None
         | Some present \<Rightarrow> if present then one else Some [])
      else if PB_HTYPE ty = PB_HTYPE_REPEATED then
        array_records D m rec field data
          (if sized then load 4 m pSize else unat (f_array_size field))
      else if (if sized then load 4 m pSize else if ptr \<longrightarrow> data \<noteq> 0 then 1 else 0) = unat (f_tag field)
      then one else Some [])"

definition field_records :: "descr_env \<Rightarrow> mem \<Rightarrow> msg_spec \<Rightarrow> nat \<Rightarrow> pb_field \<Rightarrow> addr \<Rightarrow>
    wrecord list option" where
  "field_records D m rec n field p =
     (let at = PB_ATYPE (f_type field) in
      if at = PB_ATYPE_STATIC \<or> at = PB_ATYPE_POINTER then basic_records D m rec n field p
      else if at = PB_ATYPE_CALLBACK then (if load 8 m p = 0 then Some [] else None)
      else None)"

primrec extension_records :: "'s enc_env \<Rightarrow> mem \<Rightarrow> msg_spec \<Rightarrow> nat \<Rightarrow> nat \<Rightarrow> addr \<Rightarrow>
    wrecord list option" where
  "extension_records env m rec n 0 ext = (if ext = 0 then Some [] else None)"
| "extension_records env m rec n (Suc k) ext =
     (if ext = 0 then Some []
      else
        let ty = e_ext_type env (load 8 m ext); field = field_at (et_arg ty) 0;
            p = (if PB_ATYPE (f_type field) = PB_ATYPE_POINTER then ext + 8 else load 8 m (ext + 8))
        in case et_encode ty of
             Some f \<Rightarrow> None
           | None \<Rightarrow>
               (case field_records (e_descr env) m rec n field p of
                  None \<Rightarrow> None
                | Some rs \<Rightarrow>
                    map_option ((@) rs) (extension_records env m rec n k (load 8 m (ext + 16)))))"

definition entry_records :: "'s enc_env \<Rightarrow> mem \<Rightarrow> msg_spec \<Rightarrow> nat \<Rightarrow> pb_field_iter \<Rightarrow>
    wrecord list option" where
  "entry_records env m rec n it =
     (if PB_LTYPE (f_type (it_field it)) = PB_LTYPE_EXTENSION
      then extension_records env m rec n n (load 8 m (it_pData it))
      else field_records (e_descr env) m rec n (it_field it) (it_pData it))"

primrec msg_records :: "'s enc_env \<Rightarrow> mem \<Rightarrow> nat \<Rightarrow> msg_spec" where
  "msg_records env m 0 = (\<lambda>flds src. None)"
| "msg_records env m (Suc n) = (\<lambda>flds src.
     map_option concat (those (map (\<lambda>k. entry_records env m (msg_records env m n) n
        (iter_at flds src k)) [0..<nfields flds])))"

section \<open>Emission of values\<close>

lemma emits_cong: "(\<And>s. f s = g s) \<Longrightarrow> emits f bs = emits g bs"
  by (simp add: emits_def)

lemma emits_varint: "emits (\<lambda>s. Some (pb_encode_varint s v)) (varint_of (unat v))"
  unfolding pb_encode_varint_eq Let_def by (rule emits_write)

lemma emits_svarint: "emits (\<lambda>s. Some (pb_encode_svarint s v)) (varint_of (unat (zigzag v)))"
  unfolding pb_encode_svarint_def zigzag_def Let_def by (rule emits_varint)

lemma unat_tag_word:
  assumes "unat w < 8"
  shows "unat (push_bit 3 (ucast (f :: u32) :: u64) OR ucast (w :: u32)) = unat f * 8 + unat w"
proof -
  have "unat f * 8 < size_mod" using unat_u32_lt [of f] by (simp del: unat_u32_lt)
  then have p: "unat (push_bit 3 (ucast f :: u64)) = push_bit 3 (unat f)"
    unfolding unat_push_bit unat_ucast_mod by (simp add: push_bit_eq_mult)
  have "unat w < 2 ^ 3" using assms by simp
  then have o: "push_bit 3 (unat f) OR unat w = unat f * 8 + unat w"
    using nat_or_push [of "unat w" 3 "unat f"] by (simp add: or.commute)
  have "unat (ucast w :: u64) = unat w"
    using assms by (simp add: unat_ucast_mod)
  with o show ?thesis unfolding unat_or p by simp
qed

lemma emits_tag:
  "unat w < 8 \<Longrightarrow> emits (\<lambda>s. Some (pb_encode_tag s w f)) (varint_of (unat f * 8 + unat w))"
  using emits_varint [of "push_bit 3 (ucast f) OR ucast w"]
  by (simp add: pb_encode_tag_def unat_tag_word)

lemma wire_type_of_lt: "unat (wire_type_of w) < 8"
  by (cases w) auto

lemma emitsI_bound: "(length bs < size_mod \<Longrightarrow> emits f bs) \<Longrightarrow> emits f bs"
  unfolding emits_def by (meson le_add2 le_less_trans)

text \<open>A length prefix followed by that many bytes.\<close>

lemma emits_len:
  assumes g: "emits g bs" and n: "length bs = n"
  shows "emits (\<lambda>s. chkF (Some (pb_encode_varint s (word_of_nat n))) g) (varint_of n @ bs)"
proof (rule emitsI_bound)
  assume "length (varint_of n @ bs) < size_mod"
  then have "unat (word_of_nat n :: u64) = n"
    using n by (simp add: unat_of_nat take_bit_eq_mod)
  with emits_seq [OF emits_varint g, of "word_of_nat n"]
  show "emits (\<lambda>s. chkF (Some (pb_encode_varint s (word_of_nat n))) g) (varint_of n @ bs)" by simp
qed

lemma emits_prefixed:
  assumes "length bs = n"
  shows "emits (\<lambda>s. Some (pb_encode_string s bs n)) (varint_of n @ bs)"
proof -
  have "Some (pb_encode_string s bs n) =
      chkF (Some (pb_encode_varint s (word_of_nat n))) (\<lambda>s. Some (pb_write s bs (length bs)))"
    for s :: "'a ostream"
    by (simp add: pb_encode_string_def chk_def chkF_def assms split: prod.splits)
  then show ?thesis using emits_len [OF emits_write assms] by simp
qed

lemma le_bytes_word32: "map (\<lambda>k. ucast (drop_bit (8 * k) v AND 0xFF)) [0..<4] = le_bytes 4 (unat (v :: u32))"
proof -
  have m: "(0xFF :: u32) = mask 8" by (simp add: mask_eq_exp_minus_1)
  have "(ucast (drop_bit (8 * k) v AND 0xFF) :: u8) = word_of_nat (unat v div 256 ^ k)" for k
    unfolding word_unat_eq_iff unat_ucast_mod m unat_and_mask unat_drop_bit unat_of_nat_u8
    by (simp add: power_mult)
  then show ?thesis by (simp only: le_bytes_map)
qed

lemma le_bytes_word64: "map (\<lambda>k. ucast (drop_bit (8 * k) v AND 0xFF)) [0..<8] = le_bytes 8 (unat (v :: u64))"
proof -
  have m: "(0xFF :: u64) = mask 8" by (simp add: mask_eq_exp_minus_1)
  have "(ucast (drop_bit (8 * k) v AND 0xFF) :: u8) = word_of_nat (unat v div 256 ^ k)" for k
    unfolding word_unat_eq_iff unat_ucast_mod m unat_and_mask unat_drop_bit unat_of_nat_u8
    by (simp add: power_mult)
  then show ?thesis by (simp only: le_bytes_map)
qed

lemma emits_fixed32:
  "emits (\<lambda>s. Some (pb_encode_fixed32 m s p)) (le_bytes 4 (unat (word_of_nat (load 4 m p) :: u32)))"
  using emits_write [of "le_bytes 4 (unat (word_of_nat (load 4 m p) :: u32))"]
  by (simp only: pb_encode_fixed32_def Let_def le_bytes_word32 length_le_bytes)

lemma emits_fixed64:
  "emits (\<lambda>s. Some (pb_encode_fixed64 m s p)) (le_bytes 8 (unat (word_of_nat (load 8 m p) :: u64)))"
  using emits_write [of "le_bytes 8 (unat (word_of_nat (load 8 m p) :: u64))"]
  by (simp only: pb_encode_fixed64_def Let_def le_bytes_word64 length_le_bytes)

section \<open>Emission of fields\<close>

text \<open>What is known of the encoder of submessages when a field is encoded.\<close>

definition rec_ok :: "'s msg_encoder \<Rightarrow> msg_spec \<Rightarrow> bool" where
  "rec_ok enc rec \<longleftrightarrow>
     (\<forall>flds src rs. rec flds src = Some rs \<longrightarrow> emits (enc flds src) (records_bytes rs))"

lemma pb_write_sizing:
  "is_NullSink (o_sink s) \<Longrightarrow> bytes_written s + length bs < size_mod \<Longrightarrow>
     pb_write s [] (length bs) = (True, put s bs)"
proof -
  assume a: "is_NullSink (o_sink s)" "bytes_written s + length bs < size_mod"
  then have m: "(bytes_written s + length bs) mod size_mod = bytes_written s + length bs"
    by (intro mod_less)
  from a(1) show ?thesis
    by (cases "o_sink s") (simp_all add: pb_write_def put_def m)
qed

lemma ostream_ok_sizing [simp]: "ostream_ok PB_OSTREAM_SIZING" "room PB_OSTREAM_SIZING n"
  "bytes_written PB_OSTREAM_SIZING = 0" "is_NullSink (o_sink PB_OSTREAM_SIZING)"
  by (simp_all add: ostream_ok_def room_def PB_OSTREAM_SIZING_def)

text \<open>Only counting on a sizing stream, writing on the others.\<close>

lemma emits_unless_sizing:
  assumes "emits g bs"
  shows "emits (\<lambda>s. if is_NullSink (o_sink s) then Some (pb_write s [] (length bs)) else g s) bs"
  using assms unfolding emits_def by (auto simp: pb_write_sizing room_def)

lemma into_substream_put:
  assumes rec: "emits (enc flds src) bs" and ok: "ostream_ok s"
    and lt: "bytes_written s + length bs < size_mod"
    and fits: "\<not> is_NullSink (o_sink s)" "bytes_written s + length bs \<le> max_size s"
  shows "encode_into_substream enc s flds src (length bs) = Some (True, put s bs)"
proof -
  let ?sub = "\<lparr>o_sink = o_sink s, max_size = length bs, bytes_written = 0, o_errmsg = None\<rparr>"
  have m: "(bytes_written s + length bs) mod size_mod = bytes_written s + length bs"
    using lt by (rule mod_less)
  have "ostream_ok ?sub"
    using ok fits(2) lt by (auto simp: ostream_ok_def split: osink.splits)
  then have "enc flds src ?sub = Some (True, put ?sub bs)"
    by (rule emitsD [OF rec]) (use lt in \<open>auto simp: room_def\<close>)
  moreover have "o_errmsg s = None" using ok by (simp add: ostream_ok_def)
  ultimately show ?thesis using fits(2)
    by (simp add: encode_into_substream_def m Let_def put_def)
qed

lemma emits_submessage:
  assumes rec: "emits (enc flds src) bs"
  shows "emits (\<lambda>s. pb_encode_submessage enc s flds src) (varint_of (length bs) @ bs)"
proof (rule emitsI_bound)
  assume lt: "length (varint_of (length bs) @ bs) < size_mod"
  let ?body = "\<lambda>s. if is_NullSink (o_sink s) then Some (pb_write s [] (length bs))
                     else encode_into_substream enc s flds src (length bs)"
  have "enc flds src PB_OSTREAM_SIZING = Some (True, put PB_OSTREAM_SIZING bs)"
    using emitsD [OF rec] lt by simp
  then have eq: "pb_encode_submessage enc s flds src =
      chkF (Some (pb_encode_varint s (word_of_nat (length bs)))) ?body" for s
    by (simp add: pb_encode_submessage_def Let_def cong: if_cong)
  have "emits ?body bs"
    unfolding emits_def
  proof (intro allI impI)
    fix s :: "'a ostream"
    assume ok: "ostream_ok s" and lt: "bytes_written s + length bs < size_mod"
    have m: "(bytes_written s + length bs) mod size_mod = bytes_written s + length bs"
      using lt by (rule mod_less)
    show "if room s (length bs) then ?body s = Some (True, put s bs)
          else \<exists>s'. ?body s = Some (False, s') \<and> o_errmsg s' \<noteq> None"
      using into_substream_put [where enc = enc and flds = flds and src = src, OF rec ok lt] pb_write_sizing [OF _ lt]
      by (auto simp: room_def encode_into_substream_def m o_error_def o_set_error_def split: option.splits)
  qed
  then show "emits (\<lambda>s. pb_encode_submessage enc s flds src) (varint_of (length bs) @ bs)"
    unfolding eq by (rule emits_len) simp
qed

lemma emits_strings: "emits (\<lambda>s. Some (pb_encode_string s (mem_read m a n) n)) (varint_of n @ mem_read m a n)"
  by (rule emits_prefixed) simp

lemma emits_value:
  assumes rec: "rec_ok enc rec" and w: "value_wire (e_descr env) m rec field src = Some w"
  shows "emits (\<lambda>s. PB_ENCODERS env m enc (PB_LTYPE (f_type field)) s field src) (payload w)"
proof -
  let ?lt = "PB_LTYPE (f_type field)"
  note defs = PB_ENCODERS_def pb_enc_varint_def pb_enc_uvarint_def pb_enc_svarint_def pb_enc_fixed32_def
    pb_enc_fixed64_def pb_enc_fixed_length_bytes_def
  consider (varint) v where "?lt = PB_LTYPE_VARINT" "load_signed m (f_data_size field) src = Some v" "w = WVarint v"
    | (uvarint) v where "?lt = PB_LTYPE_UVARINT" "load_unsigned m (f_data_size field) src = Some v" "w = WVarint v"
    | (svarint) v where "?lt = PB_LTYPE_SVARINT" "load_signed m (f_data_size field) src = Some v"
        "w = WVarint (zigzag v)"
    | (fixed32) "?lt = PB_LTYPE_FIXED32" "w = W32 (word_of_nat (load 4 m src))"
    | (fixed64) "?lt = PB_LTYPE_FIXED64" "w = W64 (word_of_nat (load 8 m src))"
    | (bytes) bs where "?lt = PB_LTYPE_BYTES" "bytes_field m field src = Some bs" "w = WLen bs"
    | (strings) "?lt = PB_LTYPE_STRING" "w = WLen (string_field m field src)"
    | (submsg) rs where "?lt = PB_LTYPE_SUBMESSAGE" "f_ptr field \<noteq> PtrNull"
        "rec (sub_fields (e_descr env) field) src = Some rs" "w = WLen (records_bytes rs)"
    | (fixlen) "?lt = PB_LTYPE_FIXED_LENGTH_BYTES" "w = WLen (mem_read m src (unat (f_data_size field)))"
    using w unfolding value_wire_def Let_def by (auto split: if_splits)
  then show ?thesis
  proof cases
    case (varint v)
    then show ?thesis using emits_varint [of v] by (simp add: defs)
  next
    case (uvarint v)
    then show ?thesis using emits_varint [of v] by (simp add: defs)
  next
    case (svarint v)
    then show ?thesis using emits_svarint [of v] by (simp add: defs)
  next
    case fixed32
    then show ?thesis using emits_fixed32 [of m src] by (simp add: defs)
  next
    case fixed64
    then show ?thesis using emits_fixed64 [of m src] by (simp add: defs)
  next
    case (bytes bs)
    then show ?thesis
      using emits_strings [of m "src + 4" "load 4 m src"] emits_prefixed [of "[]" 0]
      by (auto simp: PB_ENCODERS_def pb_enc_bytes_def bytes_field_def Let_def split: if_splits)
  next
    case strings
    have nil: "emits (\<lambda>s. Some (pb_encode_string s [] 0)) (varint_of 0)"
      using emits_prefixed [of "[]" 0] by simp
    show ?thesis
      unfolding PB_ENCODERS_def pb_enc_string_def Let_def strings string_field_def
      by (cases "src = 0") (simp_all add: emits_strings nil)
  next
    case (submsg rs)
    then have "emits (enc (sub_fields (e_descr env) field) src) (records_bytes rs)"
      using rec by (simp add: rec_ok_def)
    from emits_submessage [where enc = enc, OF this] submsg show ?thesis
      by (simp add: PB_ENCODERS_def pb_enc_submessage_def)
  next
    case fixlen
    then show ?thesis
      using emits_strings [of m src "unat (f_data_size field)"] by (simp add: defs)
  qed
qed

text \<open>The tag written for a field is that of the record its value becomes.\<close>

lemma tag_for_field:
  assumes "value_wire D m rec field src = Some w"
  shows "pb_encode_tag_for_field s field = pb_encode_tag s (wire_type_of w) (f_tag field)"
  using assms unfolding value_wire_def Let_def pb_encode_tag_for_field_def
  by (auto split: if_splits)

lemma emits_record:
  assumes rec: "rec_ok enc rec" and w: "value_wire (e_descr env) m rec field src = Some w"
  shows "emits (\<lambda>s. chkF (Some (pb_encode_tag_for_field s field))
           (\<lambda>s. PB_ENCODERS env m enc (PB_LTYPE (f_type field)) s field src))
         (record_bytes (f_tag field, w))"
  using emits_seq [OF emits_tag [OF wire_type_of_lt] emits_value [OF rec w]]
  by (simp add: tag_for_field [OF w] record_bytes_def)

section \<open>Emission of arrays\<close>

lemma enc_items_map:
  "enc_items item d n p s = (case n of 0 \<Rightarrow> Some (True, s)
     | Suc k \<Rightarrow> chkF (item s p) (\<lambda>s. enc_items item d k (p + d) s))"
  by (cases n) auto

text \<open>A loop over entries writes the concatenation of what the entries write.\<close>

lemma emits_items:
  assumes "length bss = n"
    and "\<And>k. k < n \<Longrightarrow> emits (\<lambda>s. item s (p + k * d)) (bss ! k)"
  shows "emits (enc_items item d n p) (concat bss)"
  using assms
proof (induction n arbitrary: bss p)
  case 0
  then show ?case using emits_Nil by simp
next
  case (Suc n)
  then obtain b bs where bss: "bss = b # bs" "length bs = n" by (cases bss) auto
  have hd: "emits (\<lambda>s. item s p) b" using Suc.prems(2) [of 0] by (simp add: bss)
  have "emits (enc_items item d n (p + d)) (concat bs)"
  proof (rule Suc.IH [OF bss(2)])
    fix k assume "k < n"
    with Suc.prems(2) [of "Suc k"] show "emits (\<lambda>s. item s (p + d + k * d)) (bs ! k)"
      by (simp add: bss add.assoc)
  qed
  from emits_seq [OF hd this] show ?case by (simp add: bss)
qed

lemma those_Some: "those xs = Some ys \<longleftrightarrow> xs = map Some ys"
  by (induction xs arbitrary: ys) (auto split: option.splits simp: Cons_eq_map_conv)

lemma length_those: "those xs = Some ys \<Longrightarrow> length ys = length xs"
  by (simp add: those_Some)

lemma nth_those: "those xs = Some ys \<Longrightarrow> i < length xs \<Longrightarrow> xs ! i = Some (ys ! i)"
  by (simp add: those_Some)

lemma item_addrs_simps [simp]:
  "length (item_addrs field p n) = n"
  "k < n \<Longrightarrow> item_addrs field p n ! k = p + k * unat (f_data_size field)"
  by (simp_all add: item_addrs_def)

lemma concat_le_bytes_length: "(\<And>b. b \<in> set bss \<Longrightarrow> length b = k) \<Longrightarrow> length (concat bss) = k * length bss"
  by (induction bss) auto

text \<open>The size of a packed array as \<open>encode_array\<close> computes it, in its three ways.\<close>

definition packed_size :: "mem \<Rightarrow> 's encoder \<Rightarrow> pb_field \<Rightarrow> nat \<Rightarrow> addr \<Rightarrow> (bool \<times> nat) option" where
  "packed_size m func field count p =
     (if PB_LTYPE (f_type field) = PB_LTYPE_FIXED32 then Some (True, 4 * count)
      else if PB_LTYPE (f_type field) = PB_LTYPE_FIXED64 then Some (True, 8 * count)
      else map_option (\<lambda>(ok, z). (ok, bytes_written z))
             (enc_items (\<lambda>s p. func s field p) (unat (f_data_size field)) count p PB_OSTREAM_SIZING))"

lemma packed_size_eq:
  assumes it: "emits (enc_items (\<lambda>s p. func s field p) (unat (f_data_size field)) count p)
                 (concat (map payload ws))"
    and ws: "those (map (value_wire D m rec field) (item_addrs field p count)) = Some ws"
    and lt: "length (concat (map payload ws)) < size_mod"
  shows "packed_size m func field count p = Some (True, length (concat (map payload ws)))"
proof -
  let ?lt = "PB_LTYPE (f_type field)"
  have len: "length ws = count" using length_those [OF ws] by simp
  have w: "\<exists>a. value_wire D m rec field a = Some w" if "w \<in> set ws" for w
  proof -
    from that obtain k where "k < count" "w = ws ! k" unfolding in_set_conv_nth len by blast
    with nth_those [OF ws, of k] show ?thesis by auto
  qed
  consider "?lt = PB_LTYPE_FIXED32" | "?lt = PB_LTYPE_FIXED64"
    | "?lt \<noteq> PB_LTYPE_FIXED32" "?lt \<noteq> PB_LTYPE_FIXED64" by blast
  then show ?thesis
  proof cases
    case 1
    then have "length (payload w) = 4" if "w \<in> set ws" for w
      using w [OF that] by (auto simp: value_wire_def)
    then have "length (concat (map payload ws)) = 4 * count"
      using concat_le_bytes_length [of "map payload ws" 4] len by auto
    with 1 show ?thesis by (simp add: packed_size_def)
  next
    case 2
    then have "length (payload w) = 8" if "w \<in> set ws" for w
      using w [OF that] by (auto simp: value_wire_def)
    then have "length (concat (map payload ws)) = 8 * count"
      using concat_le_bytes_length [of "map payload ws" 8] len by auto
    with 2 show ?thesis by (simp add: packed_size_def)
  next
    case 3
    with emitsD [OF it ostream_ok_sizing(1)] lt show ?thesis by (simp add: packed_size_def)
  qed
qed

text \<open>A computed size, then the bytes; on a sizing stream the bytes are only counted.\<close>

lemma emits_sized:
  assumes g: "emits g bs" and sz: "length bs < size_mod \<Longrightarrow> sized = Some (True, length bs)"
  shows "emits (\<lambda>s. case sized of None \<Rightarrow> None | Some (False, _) \<Rightarrow> Some (False, s)
       | Some (True, sz) \<Rightarrow> chkF (Some (pb_encode_varint s (word_of_nat sz))) (\<lambda>s.
           if is_NullSink (o_sink s) then Some (pb_write s [] sz) else g s))
     (varint_of (length bs) @ bs)"
proof (rule emitsI_bound)
  assume "length (varint_of (length bs) @ bs) < size_mod"
  then have "sized = Some (True, length bs)" using sz by simp
  with emits_len [OF emits_unless_sizing [OF g] refl]
  show "emits (\<lambda>s. case sized of None \<Rightarrow> None | Some (False, _) \<Rightarrow> Some (False, s)
       | Some (True, sz) \<Rightarrow> chkF (Some (pb_encode_varint s (word_of_nat sz))) (\<lambda>s.
           if is_NullSink (o_sink s) then Some (pb_write s [] sz) else g s))
     (varint_of (length bs) @ bs)" by simp
qed

lemma emits_packed:
  assumes rec: "rec_ok enc rec"
    and ws: "those (map (value_wire (e_descr env) m rec field) (item_addrs field p count)) = Some ws"
    and lt: "PB_LTYPE (f_type field) \<le> PB_LTYPE_LAST_PACKABLE" and pos: "0 < count"
    and fit: "PB_ATYPE (f_type field) = PB_ATYPE_POINTER \<or> count \<le> unat (f_array_size field)"
  shows "emits (\<lambda>s. encode_array m s field p count (PB_ENCODERS env m enc (PB_LTYPE (f_type field))))
           (record_bytes (f_tag field, WLen (concat (map payload ws))))"
proof -
  let ?func = "PB_ENCODERS env m enc (PB_LTYPE (f_type field))"
  let ?bs = "concat (map payload ws)"
  have items: "emits (enc_items (\<lambda>s p. ?func s field p) (unat (f_data_size field)) count p) ?bs"
  proof (rule emits_items)
    show "length (map payload ws) = count" using length_those [OF ws] by simp
    fix k assume "k < count"
    with nth_those [OF ws, of k] length_those [OF ws]
    have "value_wire (e_descr env) m rec field (p + k * unat (f_data_size field)) = Some (ws ! k)"
      "k < length ws" by simp_all
    with emits_value [OF rec this(1)]
    show "emits (\<lambda>s. ?func s field (p + k * unat (f_data_size field))) (map payload ws ! k)" by simp
  qed
  have tag: "emits (\<lambda>s. Some (pb_encode_tag s PB_WT_STRING (f_tag field)))
      (varint_of (unat (f_tag field) * 8 + unat PB_WT_STRING))"
    by (rule emits_tag) simp
  note sized = emits_sized [OF items packed_size_eq [where func = ?func, OF items ws]]
  have eq: "encode_array m s field p count ?func =
    chkF (Some (pb_encode_tag s PB_WT_STRING (f_tag field))) (\<lambda>s.
      case packed_size m ?func field count p of None \<Rightarrow> None | Some (False, _) \<Rightarrow> Some (False, s)
       | Some (True, sz) \<Rightarrow> chkF (Some (pb_encode_varint s (word_of_nat sz))) (\<lambda>s.
           if is_NullSink (o_sink s) then Some (pb_write s [] sz)
           else enc_items (\<lambda>s p. ?func s field p) (unat (f_data_size field)) count p s))" for s
    using fit lt pos unfolding encode_array_def packed_size_def Let_def by auto
  show ?thesis
    unfolding eq using emits_seq [OF tag sized] by (simp add: record_bytes_def)
qed

lemma emits_unpacked:
  assumes rec: "rec_ok enc rec"
    and ws: "those (map (\<lambda>a. value_wire (e_descr env) m rec field
        (if PB_ATYPE (f_type field) = PB_ATYPE_POINTER \<and>
            (PB_LTYPE (f_type field) = PB_LTYPE_STRING \<or> PB_LTYPE (f_type field) = PB_LTYPE_BYTES)
         then load 8 m a else a)) (item_addrs field p count)) = Some ws"
    and lt: "\<not> PB_LTYPE (f_type field) \<le> PB_LTYPE_LAST_PACKABLE" and pos: "0 < count"
    and fit: "PB_ATYPE (f_type field) = PB_ATYPE_POINTER \<or> count \<le> unat (f_array_size field)"
  shows "emits (\<lambda>s. encode_array m s field p count (PB_ENCODERS env m enc (PB_LTYPE (f_type field))))
           (records_bytes (map (Pair (f_tag field)) ws))"
proof -
  let ?func = "PB_ENCODERS env m enc (PB_LTYPE (f_type field))"
  let ?ind = "PB_ATYPE (f_type field) = PB_ATYPE_POINTER \<and>
     (PB_LTYPE (f_type field) = PB_LTYPE_STRING \<or> PB_LTYPE (f_type field) = PB_LTYPE_BYTES)"
  let ?item = "\<lambda>s p. chkF (Some (pb_encode_tag_for_field s field)) (\<lambda>s.
     if ?ind then ?func s field (load 8 m p) else ?func s field p)"
  have items: "emits (enc_items ?item (unat (f_data_size field)) count p)
      (concat (map (\<lambda>w. record_bytes (f_tag field, w)) ws))"
  proof (rule emits_items)
    show "length (map (\<lambda>w. record_bytes (f_tag field, w)) ws) = count"
      using length_those [OF ws] by simp
    fix k assume k: "k < count"
    let ?a = "p + k * unat (f_data_size field)"
    have "k < length ws" using length_those [OF ws] k by simp
    moreover have "value_wire (e_descr env) m rec field (if ?ind then load 8 m ?a else ?a) = Some (ws ! k)"
      using nth_those [OF ws, of k] k by (simp split del: if_split cong: if_cong)
    ultimately show "emits (\<lambda>s. ?item s ?a) (map (\<lambda>w. record_bytes (f_tag field, w)) ws ! k)"
      using emits_record [OF rec] by (cases ?ind) auto
  qed
  have eq: "encode_array m s field p count ?func =
      enc_items ?item (unat (f_data_size field)) count p s" for s
    using fit lt pos unfolding encode_array_def Let_def by auto
  show ?thesis
    unfolding eq using items by (simp add: records_bytes_def comp_def)
qed

lemma emits_array:
  assumes rec: "rec_ok enc rec"
    and rs: "array_records (e_descr env) m rec field p count = Some rs"
  shows "emits (\<lambda>s. encode_array m s field p count (PB_ENCODERS env m enc (PB_LTYPE (f_type field))))
           (records_bytes rs)"
proof (cases "count = 0")
  case True
  then show ?thesis using rs emits_Nil by (simp add: array_records_def encode_array_def)
next
  case False
  then have fit: "PB_ATYPE (f_type field) = PB_ATYPE_POINTER \<or> count \<le> unat (f_array_size field)"
    using rs by (auto simp: array_records_def Let_def split: if_splits)
  show ?thesis
  proof (cases "PB_LTYPE (f_type field) \<le> PB_LTYPE_LAST_PACKABLE")
    case True
    with rs fit False obtain ws where
      "those (map (value_wire (e_descr env) m rec field) (item_addrs field p count)) = Some ws"
      "rs = [(f_tag field, WLen (concat (map payload ws)))]"
      by (auto simp: array_records_def Let_def split: if_splits)
    then show ?thesis using emits_packed [OF rec _ True _ fit] False by simp
  next
    case unp: False
    with rs fit False obtain ws where
      "those (map (\<lambda>a. value_wire (e_descr env) m rec field
        (if PB_ATYPE (f_type field) = PB_ATYPE_POINTER \<and>
            (PB_LTYPE (f_type field) = PB_LTYPE_STRING \<or> PB_LTYPE (f_type field) = PB_LTYPE_BYTES)
         then load 8 m a else a)) (item_addrs field p count)) = Some ws"
      "rs = map (Pair (f_tag field)) ws"
      unfolding array_records_def Let_def by (auto split: if_splits)
    then show ?thesis using emits_unpacked [OF rec _ unp _ fit] False by simp
  qed
qed

section \<open>Emission of messages\<close>

lemma emits_basic:
  assumes rec: "rec_ok enc rec" and rs: "basic_records (e_descr env) m rec n field p = Some rs"
  shows "emits (\<lambda>s. encode_basic_field env m enc n s field p) (records_bytes rs)"
proof -
  let ?ty = "f_type field"
  let ?data = "if PB_ATYPE ?ty = PB_ATYPE_POINTER then load 8 m p else p"
  let ?one = "\<lambda>s. chkF (Some (pb_encode_tag_for_field s field))
      (\<lambda>s. PB_ENCODERS env m enc (PB_LTYPE ?ty) s field ?data)"
  have one: "emits ?one (records_bytes rs)"
    if "map_option (\<lambda>w. [(f_tag field, w)]) (value_wire (e_descr env) m rec field ?data) = Some rs"
    for rs
    using that emits_record [OF rec] by auto
  consider "PB_HTYPE ?ty = PB_HTYPE_REQUIRED" | "PB_HTYPE ?ty = PB_HTYPE_OPTIONAL"
    | "PB_HTYPE ?ty = PB_HTYPE_REPEATED"
    | "PB_HTYPE ?ty \<noteq> PB_HTYPE_REQUIRED" "PB_HTYPE ?ty \<noteq> PB_HTYPE_OPTIONAL"
      "PB_HTYPE ?ty \<noteq> PB_HTYPE_REPEATED" by blast
  then show ?thesis
  proof cases
    case 1
    then show ?thesis using rs one
      by (auto simp: basic_records_def encode_basic_field_def Let_def split: if_splits)
  next
    case 2
    then show ?thesis using rs one emits_Nil
      by (auto simp: basic_records_def encode_basic_field_def Let_def split: if_splits option.splits)
  next
    case 3
    then show ?thesis using rs emits_array [OF rec]
      by (auto simp: basic_records_def encode_basic_field_def Let_def split: if_splits)
  next
    case 4
    then show ?thesis using rs one emits_Nil
      by (auto simp: basic_records_def encode_basic_field_def Let_def split: if_splits)
  qed
qed

lemma emits_field:
  assumes rec: "rec_ok enc rec" and rs: "field_records (e_descr env) m rec n field p = Some rs"
  shows "emits (\<lambda>s. encode_field env m enc n s field p) (records_bytes rs)"
  using rs emits_basic [OF rec] emits_Nil
  by (auto simp: field_records_def encode_field_def encode_callback_field_def Let_def split: if_splits)

lemma emits_extensions:
  assumes rec: "rec_ok enc rec"
  shows "extension_records env m rec n k ext = Some rs \<Longrightarrow>
     emits (\<lambda>s. encode_extensions env m enc n k s ext) (records_bytes rs)"
proof (induction k arbitrary: ext rs)
  case 0
  then show ?case using emits_Nil by (auto split: if_splits)
next
  case (Suc k)
  show ?case
  proof (cases "ext = 0")
    case True
    then show ?thesis using Suc.prems emits_Nil by auto
  next
    case False
    let ?ty = "e_ext_type env (load 8 m ext)"
    let ?field = "field_at (et_arg ?ty) 0"
    let ?p = "if PB_ATYPE (f_type ?field) = PB_ATYPE_POINTER then ext + 8 else load 8 m (ext + 8)"
    from Suc.prems False obtain xs ys where none: "et_encode ?ty = None"
      and xs: "field_records (e_descr env) m rec n ?field ?p = Some xs"
      and ys: "extension_records env m rec n k (load 8 m (ext + 16)) = Some ys" and rs: "rs = xs @ ys"
      by (auto simp: Let_def split: option.splits)
    have "emits (\<lambda>s. default_extension_encoder env m enc n s ext) (records_bytes xs)"
      using emits_field [OF rec xs] by (simp add: default_extension_encoder_def Let_def if_distrib cong: if_cong)
    from emits_seq [OF this Suc.IH [OF ys]] show ?thesis
      using False none by (simp add: rs)
  qed
qed

lemma emits_entry:
  assumes rec: "rec_ok enc rec" and rs: "entry_records env m rec n it = Some rs"
  shows "emits (\<lambda>s. if PB_LTYPE (f_type (it_field it)) = PB_LTYPE_EXTENSION
           then encode_extension_field env m enc n s (it_field it) (it_pData it)
           else encode_field env m enc n s (it_field it) (it_pData it)) (records_bytes rs)"
  using rs emits_extensions [OF rec] emits_field [OF rec]
  by (auto simp: entry_records_def encode_extension_field_def split: if_splits)

text \<open>A loop over the fields writes the concatenation of what the bodies write.\<close>

lemma emits_fields:
  assumes "k < nfields flds" "length bss = nfields flds - k"
    and "\<And>j. j < length bss \<Longrightarrow> emits (body (iter_at flds src (k + j))) (bss ! j)"
  shows "emits (\<lambda>s. do_fields body (iter_at flds src k) s) (concat bss)"
  using assms
proof (induction bss arbitrary: k)
  case Nil
  then show ?case by simp
next
  case (Cons b bs)
  have hd: "emits (body (iter_at flds src k)) b" using Cons.prems(3) [of 0] by simp
  show ?case
  proof (cases "Suc k < nfields flds")
    case False
    then have "length bs = 0" using Cons.prems(1,2) unfolding list.size by linarith
    then have "bs = []" by simp
    with emits_seq [OF hd emits_Nil] False show ?thesis
      by (simp add: do_fields_at [OF Cons.prems(1)])
  next
    case True
    have "emits (\<lambda>s. do_fields body (iter_at flds src (Suc k)) s) (concat bs)"
    proof (rule Cons.IH [OF True])
      show "length bs = nfields flds - Suc k" using Cons.prems(2) by simp
      show "emits (body (iter_at flds src (Suc k + j))) (bs ! j)" if "j < length bs" for j
        using Cons.prems(3) [of "Suc j"] that by simp
    qed
    from emits_seq [OF hd this] True show ?thesis
      by (simp add: do_fields_at [OF Cons.prems(1)])
  qed
qed

lemma emits_message:
  "msg_records env m n flds src = Some rs \<Longrightarrow> emits (pb_encode env m n flds src) (records_bytes rs)"
proof (induction n arbitrary: flds src rs)
  case 0
  then show ?case by simp
next
  case (Suc n)
  have rec: "rec_ok (pb_encode env m n) (msg_records env m n)"
    using Suc.IH by (simp add: rec_ok_def)
  let ?rec = "msg_records env m n"
  let ?body = "\<lambda>it s. if PB_LTYPE (f_type (it_field it)) = PB_LTYPE_EXTENSION
           then encode_extension_field env m (pb_encode env m n) n s (it_field it) (it_pData it)
           else encode_field env m (pb_encode env m n) n s (it_field it) (it_pData it)"
  from Suc.prems obtain rss where
    rss: "those (map (\<lambda>k. entry_records env m ?rec n (iter_at flds src k)) [0..<nfields flds]) = Some rss"
    and rs: "rs = concat rss" by auto
  have it: "snd (pb_field_iter_begin flds src) = iter_at flds src 0" by simp
  show ?case
  proof (cases "0 < nfields flds")
    case False
    then have "rs = []" using rss rs by simp
    moreover have "pb_encode env m (Suc n) flds src = (\<lambda>s. Some (True, s))"
      using False iter_begin_ok [of flds src]
      by (cases "pb_field_iter_begin flds src") (simp add: fun_eq_iff)
    ultimately show ?thesis using emits_Nil by simp
  next
    case True
    have len: "length rss = nfields flds" using length_those [OF rss] by simp
    have "emits (\<lambda>s. do_fields ?body (iter_at flds src 0) s) (concat (map records_bytes rss))"
    proof (rule emits_fields [OF True])
      show "length (map records_bytes rss) = nfields flds - 0" using len by simp
      fix j assume "j < length (map records_bytes rss)"
      then have j: "j < nfields flds" using len by simp
      have "entry_records env m ?rec n (iter_at flds src j) = Some (rss ! j)"
        using nth_those [OF rss, of j] j by simp
      from emits_entry [OF rec this] j len
      show "emits (?body (iter_at flds src (0 + j))) (map records_bytes rss ! j)" by (simp cong: if_cong)
    qed
    moreover have "concat (map records_bytes rss) = records_bytes rs"
      unfolding rs by (rule records_bytes_concat [symmetric])
    moreover have "pb_encode env m (Suc n) flds src = do_fields ?body (iter_at flds src 0)"
      using True iter_begin_ok [of flds src]
      by (cases "pb_field_iter_begin flds src") (simp add: fun_eq_iff)
    ultimately show ?thesis by simp
  qed
qed

section \<open>A worked message\<close>

text \<open>A required \<open>uint32\<close> of value 150 and a repeated string with two entries, in memory at 64.\<close>

definition ex_fields :: "pb_field list" where
  "ex_fields =
     [\<lparr>f_tag = 1, f_type = 0x01, f_data_offset = 0, f_size_offset = 0, f_data_size = 4,
       f_array_size = 0, f_ptr = PtrNull\<rparr>,
      \<lparr>f_tag = 2, f_type = 0x26, f_data_offset = 4, f_size_offset = -4, f_data_size = 4,
       f_array_size = 2, f_ptr = PtrNull\<rparr>]"

definition ex_env :: "unit enc_env" where
  "ex_env = \<lparr>e_descr = (\<lambda>_. []), e_callback = (\<lambda>_ _ _ _ _. None),
     e_ext_type = (\<lambda>_. \<lparr>et_encode = None, et_arg = []\<rparr>)\<rparr>"

definition ex_mem :: mem where
  "ex_mem = mem_write (\<lambda>_. 0) 64 [0x96, 0, 0, 0,  2, 0, 0, 0,  0x61, 0x62, 0, 0,  0x63, 0, 0, 0]"

definition ex_records :: "wrecord list" where
  "ex_records = [(1, WVarint 150), (2, WLen [0x61, 0x62]), (2, WLen [0x63])]"

lemma ex_msg_records: "msg_records ex_env ex_mem 1 ex_fields 64 = Some ex_records"
  unfolding ex_records_def by code_simp

lemma ex_records_bytes: "records_bytes ex_records = [8, 150, 1, 18, 2, 97, 98, 18, 1, 99]"
  unfolding ex_records_def by code_simp

lemma ostream_ok_buffer: "n \<le> length buf \<Longrightarrow> n < size_mod \<Longrightarrow> ostream_ok (pb_ostream_from_buffer buf n)"
  by (simp add: ostream_ok_def pb_ostream_from_buffer_def)

lemma room_buffer: "room (pb_ostream_from_buffer buf n) k \<longleftrightarrow> k \<le> n"
  by (simp add: room_def pb_ostream_from_buffer_def)

lemma pb_ostream_from_buffer_simps [simp]:
  "bytes_written (pb_ostream_from_buffer buf n) = 0" "max_size (pb_ostream_from_buffer buf n) = n"
  "o_sink (pb_ostream_from_buffer buf n) = BufSink buf 0" "o_errmsg (pb_ostream_from_buffer buf n) = None"
  by (simp_all add: pb_ostream_from_buffer_def)

section \<open>Properties\<close>

text \<open>C1: On every kind of output stream, \<open>pb_encode\<close> writes exactly the bytes of the message's wire
  records when the stream has room for them, and otherwise fails with an error message set (the callback
  of a user's stream is one that takes whatever it is given, \<open>user_contract\<close>). The
  sizes that the first pass of a submessage and the sizing of a packed array find are therefore
  the sizes that are written.\<close>

theorem pb_encode_refines:
  assumes "msg_records env m n flds src = Some rs" and "ostream_ok s"
    and "bytes_written s + length (records_bytes rs) < size_mod"
  shows "if room s (length (records_bytes rs))
         then pb_encode env m n flds src s = Some (True, put s (records_bytes rs))
         else \<exists>s'. pb_encode env m n flds src s = Some (False, s') \<and> o_errmsg s' \<noteq> None"
  using emits_message [OF assms(1)] assms(2,3) unfolding emits_def by blast

theorem pb_encode_refines_witness:
  "pb_encode ex_env ex_mem 1 ex_fields 64 PB_OSTREAM_SIZING =
     Some (True, put PB_OSTREAM_SIZING [8, 150, 1, 18, 2, 97, 98, 18, 1, 99])"
  using pb_encode_refines [OF ex_msg_records ostream_ok_sizing(1)]
  by (simp add: ex_records_bytes)

text \<open>C3: Encoding into a memory buffer puts the record bytes at its start, leaves the rest of the
  buffer as it was and returns the number of bytes; a buffer that is too small is an error.\<close>

theorem pb_encode_to_buffer:
  assumes "msg_records env m n flds src = Some rs" and "length (records_bytes rs) < size_mod"
    and "length buf < size_mod"
  shows "if length (records_bytes rs) \<le> length buf
         then \<exists>s'. pb_encode env m n flds src (pb_ostream_from_buffer buf (length buf)) = Some (True, s') \<and>
                bytes_written s' = length (records_bytes rs) \<and>
                o_sink s' = BufSink (records_bytes rs @ drop (length (records_bytes rs)) buf)
                              (length (records_bytes rs))
         else \<exists>s'. pb_encode env m n flds src (pb_ostream_from_buffer buf (length buf)) = Some (False, s') \<and>
                o_errmsg s' \<noteq> None"
  using emits_message [OF assms(1), unfolded emits_def, rule_format, of "pb_ostream_from_buffer buf (length buf)"]
    assms(2,3) by (auto simp: ostream_ok_buffer room_buffer splice_def simp del: not_None_eq)

theorem pb_encode_to_buffer_witness:
  "\<exists>s'. pb_encode ex_env ex_mem 1 ex_fields 64 (pb_ostream_from_buffer (replicate 12 7) 12) = Some (True, s') \<and>
      o_sink s' = BufSink [8, 150, 1, 18, 2, 97, 98, 18, 1, 99, 7, 7] 10"
proof -
  have "drop 10 (replicate 12 7) = [7, 7 :: u8]" by (simp add: numeral_eq_Suc)
  then show ?thesis
    using pb_encode_to_buffer [OF ex_msg_records, of "replicate 12 7"]
    by (auto simp: ex_records_bytes)
qed

text \<open>\<open>pb_encode_delimited\<close> writes the length of the message as a varint and then the message; the
  second pass into the substream of that length never ends with \<open>submsg size changed\<close>.\<close>

theorem pb_encode_delimited_refines:
  assumes "msg_records env m n flds src = Some rs" and "ostream_ok s"
    and "bytes_written s + length (varint_of (length (records_bytes rs)) @ records_bytes rs) < size_mod"
  shows "let bs = varint_of (length (records_bytes rs)) @ records_bytes rs in
         if room s (length bs)
         then pb_encode_delimited env m n s flds src = Some (True, put s bs)
         else \<exists>s'. pb_encode_delimited env m n s flds src = Some (False, s') \<and> o_errmsg s' \<noteq> None"
  using emits_submessage [where enc = "pb_encode env m n", OF emits_message [OF assms(1)]] assms(2,3)
  unfolding emits_def pb_encode_delimited_def Let_def by blast

theorem pb_encode_delimited_refines_witness:
  "pb_encode_delimited ex_env ex_mem 1 PB_OSTREAM_SIZING ex_fields 64 =
     Some (True, put PB_OSTREAM_SIZING (10 # [8, 150, 1, 18, 2, 97, 98, 18, 1, 99]))"
proof -
  have "varint_of (length (records_bytes ex_records)) = [10]"
    unfolding ex_records_bytes by code_simp
  then show ?thesis
    using pb_encode_delimited_refines [OF ex_msg_records ostream_ok_sizing(1)]
    by (simp add: ex_records_bytes)
qed

text \<open>C4: \<open>pb_get_encoded_size\<close> returns the number of bytes \<open>pb_encode\<close> writes.\<close>

theorem pb_get_encoded_size_exact:
  assumes "msg_records env m n flds src = Some rs" and "length (records_bytes rs) < size_mod"
  shows "pb_get_encoded_size env m n flds src = Some (True, length (records_bytes rs))"
  using emitsD [OF emits_message [OF assms(1)] ostream_ok_sizing(1)] assms(2)
  by (simp add: pb_get_encoded_size_def)

theorem pb_get_encoded_size_exact_witness:
  "pb_get_encoded_size ex_env ex_mem 1 ex_fields 64 = Some (True, 10)"
  using pb_get_encoded_size_exact [OF ex_msg_records] by (simp add: ex_records_bytes)

end
