(* ===== verification/PbIstream.thy ===== *)
theory PbIstream imports PbEncodeSpec begin

text \<open>
  Input streams and the wire-level decoders of \<open>pb_decode.c\<close>: \<open>pb_istream_t\<close>, \<open>buf_read\<close>,
  \<open>pb_read\<close>, \<open>pb_readbyte\<close>, the 32-bit and 64-bit varint decoders with their 8-bit shift
  counter (\<open>uint_fast8_t\<close>), tags, skipping, raw values, substreams and fixed-width integers.
  A function with an output parameter returns the stored value or \<open>None\<close>. The lemmas describe
  what a decoder consumes (\<open>reads\<close>), on buffers and on user callbacks that keep the
  documented contract, and show that the decoders invert the encoders of \<open>pb_encode.c\<close>.
\<close>

section \<open>Input streams\<close>

text \<open>
  What a read callback does: it fills the buffer and returns true, or returns false, or
  returns false after setting \<open>bytes_left\<close> to 0 to signal the end of its input. What a callback that
  fails has left in the caller's buffer is not modelled. A buffer stream holds the bytes at its state pointer.
\<close>

datatype read_result = ReadOk "u8 list" | ReadFail | ReadEof

datatype 's isource = is_BufSource: BufSource "u8 list" | UserSource "'s \<Rightarrow> nat \<Rightarrow> read_result \<times> 's" 's

record 's istream =
  i_source :: "'s isource"
  bytes_left :: nat
  i_errmsg :: "string option"

definition i_set_error :: "string \<Rightarrow> 's istream \<Rightarrow> 's istream" where
  "i_set_error msg s = s\<lparr>i_errmsg := (case i_errmsg s of None \<Rightarrow> Some msg | Some e \<Rightarrow> Some e)\<rparr>"

definition i_error :: "string \<Rightarrow> 's istream \<Rightarrow> 'a option \<times> 's istream" where
  "i_error msg s = (None, i_set_error msg s)"

text \<open>The \<open>n\<close> bytes a caller finds in a zeroed buffer of that size after \<open>bs\<close> was stored.\<close>

definition fill :: "nat \<Rightarrow> u8 list \<Rightarrow> u8 list" where
  "fill n bs = take n (bs @ replicate n 0)"

definition buf_read :: "u8 list \<Rightarrow> nat \<Rightarrow> u8 list \<times> u8 list" where
  "buf_read source count = (fill count source, drop count source)"

definition pb_istream_from_buffer :: "u8 list \<Rightarrow> nat \<Rightarrow> 's istream" where
  "pb_istream_from_buffer buf bufsize =
     \<lparr>i_source = BufSource buf, bytes_left = bufsize, i_errmsg = None\<rparr>"

fun i_callback :: "'s isource \<Rightarrow> nat \<Rightarrow> read_result \<times> 's isource" where
  "i_callback (BufSource source) count =
     (case buf_read source count of (bs, source') \<Rightarrow> (ReadOk bs, BufSource source'))"
| "i_callback (UserSource f st) count = (case f st count of (r, st') \<Rightarrow> (r, UserSource f st'))"

text \<open>\<open>pb_read\<close> with a buffer, and \<open>pb_read (stream, NULL, count)\<close>, which reads through a
  16-byte local on a stream that is not a buffer.\<close>

definition pb_read :: "'s istream \<Rightarrow> nat \<Rightarrow> u8 list option \<times> 's istream" where
  "pb_read s count =
     (if bytes_left s < count then i_error ''end-of-stream'' s
      else
        case i_callback (i_source s) count of
          (ReadOk bs, src) \<Rightarrow>
            (Some (fill count bs), s\<lparr>i_source := src, bytes_left := bytes_left s - count\<rparr>)
        | (ReadFail, src) \<Rightarrow> i_error ''io error'' (s\<lparr>i_source := src\<rparr>)
        | (ReadEof, src) \<Rightarrow> i_error ''io error'' (s\<lparr>i_source := src, bytes_left := 0\<rparr>))"

function skip_loop :: "'s istream \<Rightarrow> nat \<Rightarrow> unit option \<times> 's istream" where
  "skip_loop s count =
     (if count > 16 then bnd (pb_read s 16) (\<lambda>_ s. skip_loop s (count - 16))
      else bnd (pb_read s count) (\<lambda>_ s. (Some (), s)))"
  by pat_completeness auto
termination
  by (relation "measure (\<lambda>(s, count). count)") auto

declare skip_loop.simps [simp del]

definition pb_read_null :: "'s istream \<Rightarrow> nat \<Rightarrow> unit option \<times> 's istream" where
  "pb_read_null s count =
     (if \<not> is_BufSource (i_source s) then skip_loop s count
      else bnd (pb_read s count) (\<lambda>_ s. (Some (), s)))"

definition pb_readbyte :: "'s istream \<Rightarrow> u8 option \<times> 's istream" where
  "pb_readbyte s =
     (if bytes_left s = 0 then i_error ''end-of-stream'' s
      else
        case i_callback (i_source s) 1 of
          (ReadOk bs, src) \<Rightarrow>
            (Some (hd (fill 1 bs)), s\<lparr>i_source := src, bytes_left := bytes_left s - 1\<rparr>)
        | (ReadFail, src) \<Rightarrow> i_error ''io error'' (s\<lparr>i_source := src\<rparr>)
        | (ReadEof, src) \<Rightarrow> i_error ''io error'' (s\<lparr>i_source := src, bytes_left := 0\<rparr>))"

lemma readbyte_left: "pb_readbyte s = (Some b, s') \<Longrightarrow> bytes_left s = Suc (bytes_left s')"
  by (auto simp: pb_readbyte_def i_error_def split: if_splits prod.splits read_result.splits)

lemma read_left: "pb_read s n = (Some bs, s') \<Longrightarrow> bytes_left s = bytes_left s' + n"
  by (auto simp: pb_read_def i_error_def split: if_splits prod.splits read_result.splits)

section \<open>Wire-level decoders\<close>

text \<open>The loop over the bytes after the first one.\<close>

function varint32_loop :: "'s istream \<Rightarrow> u8 \<Rightarrow> u32 \<Rightarrow> u32 option \<times> 's istream" where
  "varint32_loop s bitpos result =
     bnd (pb_readbyte s) (\<lambda>byte s.
       if bitpos \<ge> 32 \<and> byte AND 0x7F \<noteq> 0 \<and>
          (drop_bit 31 result = 0 \<or> byte \<noteq> (if bitpos < 63 then 0xFF else 0x01))
       then i_error ''varint overflow'' s
       else
         let result = (if bitpos \<ge> 32 then result
                       else result OR push_bit (unat bitpos) (ucast (byte AND 0x7F)));
             bitpos = bitpos + 7
         in if byte AND 0x80 \<noteq> 0 then varint32_loop s bitpos result
            else if bitpos = 35 \<and> byte AND 0x70 \<noteq> 0 then i_error ''varint overflow'' s
            else (Some result, s))"
  by pat_completeness auto
termination
  by (relation "measure (\<lambda>(s, bitpos, result). bytes_left s)") (auto dest: readbyte_left)

declare varint32_loop.simps [simp del]

text \<open>The second component is the end-of-file flag, set when there is no first byte.\<close>

definition pb_decode_varint32_eof :: "'s istream \<Rightarrow> u32 option \<times> bool \<times> 's istream" where
  "pb_decode_varint32_eof s =
     (case pb_readbyte s of
        (None, s) \<Rightarrow> (None, bytes_left s = 0, s)
      | (Some byte, s) \<Rightarrow>
          if byte AND 0x80 = 0 then (Some (ucast byte), False, s)
          else case varint32_loop s 7 (ucast (byte AND 0x7F)) of (r, s) \<Rightarrow> (r, False, s))"

definition pb_decode_varint32 :: "'s istream \<Rightarrow> u32 option \<times> 's istream" where
  "pb_decode_varint32 s = (case pb_decode_varint32_eof s of (r, eof, s) \<Rightarrow> (r, s))"

function varint_loop :: "'s istream \<Rightarrow> u8 \<Rightarrow> u64 \<Rightarrow> u64 option \<times> 's istream" where
  "varint_loop s bitpos result =
     (if bitpos \<ge> 64 then i_error ''varint overflow'' s
      else
        bnd (pb_readbyte s) (\<lambda>byte s.
          let result = result OR push_bit (unat bitpos) (ucast (byte AND 0x7F));
              bitpos = bitpos + 7
          in if byte AND 0x80 \<noteq> 0 then varint_loop s bitpos result else (Some result, s)))"
  by pat_completeness auto
termination
  by (relation "measure (\<lambda>(s, bitpos, result). bytes_left s)") (auto dest: readbyte_left)

declare varint_loop.simps [simp del]

definition pb_decode_varint :: "'s istream \<Rightarrow> u64 option \<times> 's istream" where
  "pb_decode_varint s = varint_loop s 0 0"

function pb_skip_varint :: "'s istream \<Rightarrow> unit option \<times> 's istream" where
  "pb_skip_varint s =
     bnd (pb_read s 1) (\<lambda>bs s. if hd bs AND 0x80 \<noteq> 0 then pb_skip_varint s else (Some (), s))"
  by pat_completeness auto
termination
  by (relation "measure bytes_left") (auto dest: read_left)

declare pb_skip_varint.simps [simp del]

definition pb_skip_string :: "'s istream \<Rightarrow> unit option \<times> 's istream" where
  "pb_skip_string s =
     bnd (pb_decode_varint32 s) (\<lambda>len s. pb_read_null s (unat len))"

text \<open>The wire type and the tag, and the end-of-file flag.\<close>

definition pb_decode_tag :: "'s istream \<Rightarrow> (u32 \<times> u32) option \<times> bool \<times> 's istream" where
  "pb_decode_tag s =
     (case pb_decode_varint32_eof s of
        (None, eof, s) \<Rightarrow> (None, eof, s)
      | (Some temp, eof, s) \<Rightarrow>
          if temp = 0 then (None, True, s)
          else (Some (temp AND 7, drop_bit 3 temp), eof, s))"

definition pb_skip_field :: "'s istream \<Rightarrow> u32 \<Rightarrow> unit option \<times> 's istream" where
  "pb_skip_field s wire_type =
     (if wire_type = PB_WT_VARINT then pb_skip_varint s
      else if wire_type = PB_WT_64BIT then pb_read_null s 8
      else if wire_type = PB_WT_STRING then pb_skip_string s
      else if wire_type = PB_WT_32BIT then pb_read_null s 4
      else i_error ''invalid wire_type'' s)"

text \<open>\<open>buf\<close> holds what has been read, \<open>max_sz\<close> is the room that is left; the size on return is
  the number of bytes.\<close>

primrec raw_varint_loop :: "nat \<Rightarrow> u8 list \<Rightarrow> 's istream \<Rightarrow> u8 list option \<times> 's istream" where
  "raw_varint_loop 0 buf s = (None, s)"
| "raw_varint_loop (Suc k) buf s =
     bnd (pb_read s 1) (\<lambda>bs s.
       if hd bs AND 0x80 \<noteq> 0 then raw_varint_loop k (buf @ bs) s else (Some (buf @ bs), s))"

definition read_raw_value :: "'s istream \<Rightarrow> u32 \<Rightarrow> nat \<Rightarrow> u8 list option \<times> 's istream" where
  "read_raw_value s wire_type max_sz =
     (if wire_type = PB_WT_VARINT then raw_varint_loop max_sz [] s
      else if wire_type = PB_WT_64BIT then pb_read s 8
      else if wire_type = PB_WT_32BIT then pb_read s 4
      else i_error ''invalid wire_type'' s)"

definition pb_make_string_substream :: "'s istream \<Rightarrow> 's istream option \<times> 's istream" where
  "pb_make_string_substream s =
     bnd (pb_decode_varint32 s) (\<lambda>sz s.
       if bytes_left s < unat sz then i_error ''parent stream too short'' s
       else (Some (s\<lparr>bytes_left := unat sz\<rparr>), s\<lparr>bytes_left := bytes_left s - unat sz\<rparr>))"

text \<open>When the rest of the substream cannot be skipped, the parent keeps its state pointer; the state of a user's
  stream is taken to be this pointer, not what it points to.\<close>

definition pb_close_string_substream :: "'s istream \<Rightarrow> 's istream \<Rightarrow> bool \<times> 's istream" where
  "pb_close_string_substream s sub =
     (case (if bytes_left sub \<noteq> 0 then pb_read_null sub (bytes_left sub) else (Some (), sub)) of
        (None, sub) \<Rightarrow> (False, s)
      | (Some _, sub) \<Rightarrow> (True, s\<lparr>i_source := i_source sub, i_errmsg := i_errmsg sub\<rparr>))"

definition pb_decode_svarint :: "'s istream \<Rightarrow> u64 option \<times> 's istream" where
  "pb_decode_svarint s =
     bnd (pb_decode_varint s) (\<lambda>value s.
       if value AND 1 \<noteq> 0 then (Some (NOT (drop_bit 1 value)), s)
       else (Some (drop_bit 1 value), s))"

text \<open>The value that is stored at the destination.\<close>

definition pb_decode_fixed32 :: "'s istream \<Rightarrow> u32 option \<times> 's istream" where
  "pb_decode_fixed32 s =
     bnd (pb_read s 4) (\<lambda>bytes s.
       (Some (ucast (bytes ! 0) OR push_bit 8 (ucast (bytes ! 1)) OR
              push_bit 16 (ucast (bytes ! 2)) OR push_bit 24 (ucast (bytes ! 3))), s))"

definition pb_decode_fixed64 :: "'s istream \<Rightarrow> u64 option \<times> 's istream" where
  "pb_decode_fixed64 s =
     bnd (pb_read s 8) (\<lambda>bytes s.
       (Some (ucast (bytes ! 0) OR push_bit 8 (ucast (bytes ! 1)) OR
              push_bit 16 (ucast (bytes ! 2)) OR push_bit 24 (ucast (bytes ! 3)) OR
              push_bit 32 (ucast (bytes ! 4)) OR push_bit 40 (ucast (bytes ! 5)) OR
              push_bit 48 (ucast (bytes ! 6)) OR push_bit 56 (ucast (bytes ! 7))), s))"

section \<open>What a decoder consumes\<close>

text \<open>The contract of a user callback: asked for bytes its input still has, it delivers them.\<close>

definition source_contract :: "('s \<Rightarrow> nat \<Rightarrow> read_result \<times> 's) \<Rightarrow> ('s \<Rightarrow> u8 list) \<Rightarrow> bool" where
  "source_contract f C \<longleftrightarrow>
     (\<forall>st n. n \<le> length (C st) \<longrightarrow>
        (\<exists>st'. f st n = (ReadOk (take n (C st)), st') \<and> C st' = drop n (C st)))"

text \<open>The next bytes of a source are \<open>bs\<close>.\<close>

fun src_has :: "'s isource \<Rightarrow> u8 list \<Rightarrow> bool" where
  "src_has (BufSource b) bs \<longleftrightarrow> (\<exists>r. b = bs @ r)"
| "src_has (UserSource f st) bs \<longleftrightarrow> (\<exists>C r. source_contract f C \<and> C st = bs @ r)"

definition consume :: "'s istream \<Rightarrow> 's isource \<Rightarrow> nat \<Rightarrow> 's istream" where
  "consume s src n = s\<lparr>i_source := src, bytes_left := bytes_left s - n\<rparr>"

definition reads :: "('s istream \<Rightarrow> 'v option \<times> 's istream) \<Rightarrow> u8 list \<Rightarrow> 'v \<Rightarrow> bool" where
  "reads p bs v \<longleftrightarrow>
     (\<forall>s rest. src_has (i_source s) (bs @ rest) \<longrightarrow> length bs \<le> bytes_left s \<longrightarrow>
        (\<exists>src. p s = (Some v, consume s src (length bs)) \<and> src_has src rest))"

lemma consume_simps [simp]:
  "i_source (consume s src n) = src" "bytes_left (consume s src n) = bytes_left s - n"
  "i_errmsg (consume s src n) = i_errmsg s"
  "consume (consume s src n) src' k = consume s src' (n + k)"
  "consume s (i_source s) 0 = s"
  by (simp_all add: consume_def)

lemma readsD:
  "reads p bs v \<Longrightarrow> src_has (i_source s) (bs @ rest) \<Longrightarrow> length bs \<le> bytes_left s \<Longrightarrow>
     \<exists>src. p s = (Some v, consume s src (length bs)) \<and> src_has src rest"
  by (simp add: reads_def)

lemma reads_ret: "reads (\<lambda>s. (Some v, s)) [] v"
  unfolding reads_def by (metis append_Nil consume_simps(5) list.size(3))

lemma reads_bnd:
  assumes p: "reads p xs a" and g: "reads (g a) ys v"
  shows "reads (\<lambda>s. bnd (p s) g) (xs @ ys) v"
  unfolding reads_def
proof (intro allI impI)
  fix s :: "'a istream" and rest
  assume has: "src_has (i_source s) ((xs @ ys) @ rest)" and len: "length (xs @ ys) \<le> bytes_left s"
  then obtain src where 1: "p s = (Some a, consume s src (length xs))" "src_has src (ys @ rest)"
    using readsD [OF p, of s "ys @ rest"] by auto
  have "length ys \<le> bytes_left (consume s src (length xs))" using len by auto
  from readsD [OF g _ this, of rest] 1 obtain src' where "g a (consume s src (length xs)) =
      (Some v, consume (consume s src (length xs)) src' (length ys))" "src_has src' rest"
    by auto
  with 1 show "\<exists>src. bnd (p s) g = (Some v, consume s src (length (xs @ ys))) \<and> src_has src rest"
    by auto
qed

lemma fill_exact [simp]: "length bs = n \<Longrightarrow> fill n bs = bs"
  by (simp add: fill_def)

text \<open>One call of the callback for bytes the source has.\<close>

lemma callback_has:
  assumes "src_has src (bs @ rest)"
  shows "\<exists>src'. i_callback src (length bs) = (ReadOk bs, src') \<and> src_has src' rest"
proof (cases src)
  case (BufSource b)
  then obtain r where "b = bs @ rest @ r" using assms by auto
  then show ?thesis using BufSource by (simp add: buf_read_def fill_def)
next
  case (UserSource f st)
  then obtain C r where C: "source_contract f C" "C st = bs @ rest @ r" using assms by auto
  have "length bs \<le> length (C st)" by (simp add: C(2))
  with C(1) obtain st' where "f st (length bs) = (ReadOk (take (length bs) (C st)), st')"
      "C st' = drop (length bs) (C st)" unfolding source_contract_def by blast
  then show ?thesis using UserSource C by auto
qed

lemma reads_read: "length bs = n \<Longrightarrow> reads (\<lambda>s. pb_read s n) bs bs"
  unfolding reads_def
proof (intro allI impI)
  fix s :: "'a istream" and rest
  assume n: "length bs = n" and has: "src_has (i_source s) (bs @ rest)" and "length bs \<le> bytes_left s"
  then show "\<exists>src. pb_read s n = (Some bs, consume s src (length bs)) \<and> src_has src rest"
    using callback_has [OF has] by (auto simp: pb_read_def consume_def)
qed

lemma reads_byte: "reads pb_readbyte [b] b"
  unfolding reads_def
proof (intro allI impI)
  fix s :: "'a istream" and rest
  assume has: "src_has (i_source s) ([b] @ rest)" and "length [b] \<le> bytes_left s"
  then show "\<exists>src. pb_readbyte s = (Some b, consume s src (length [b])) \<and> src_has src rest"
    using callback_has [OF has] by (auto simp: pb_readbyte_def consume_def)
qed

lemma reads_cong: "(\<And>s. p s = q s) \<Longrightarrow> reads p bs v = reads q bs v"
  by (simp add: reads_def)

lemma reads_skip_loop: "length bs = n \<Longrightarrow> reads (\<lambda>s :: 's istream. skip_loop s n) bs ()"
proof (induction n arbitrary: bs rule: less_induct)
  case (less n)
  show ?case
  proof (cases "n > 16")
    case True
    have "reads (\<lambda>s :: 's istream. bnd (pb_read s 16) (\<lambda>_ s. skip_loop s (n - 16))) (take 16 bs @ drop 16 bs) ()"
    proof (rule reads_bnd [OF reads_read])
      show "length (take 16 bs) = 16" using True less.prems by simp
      show "reads (\<lambda>s :: 's istream. skip_loop s (n - 16)) (drop 16 bs) ()"
        by (rule less.IH) (use True less.prems in auto)
    qed
    then show ?thesis using True by (simp add: skip_loop.simps [of _ n])
  next
    case False
    from reads_bnd [OF reads_read [OF less.prems] reads_ret] False
    show ?thesis by (simp add: skip_loop.simps [of _ n])
  qed
qed

lemma reads_null: "length bs = n \<Longrightarrow> reads (\<lambda>s. pb_read_null s n) bs ()"
  using reads_skip_loop [of bs n] reads_bnd [OF reads_read reads_ret, of bs n "\<lambda>_. ()"]
  unfolding reads_def pb_read_null_def by auto

section \<open>Varints\<close>

lemma varint_byte:
  "unat (word_of_nat (n mod 128 + 128) :: u8) = n mod 128 + 128"
  "n < 128 \<Longrightarrow> unat (word_of_nat n :: u8) = n"
  unfolding unat_of_nat_u8 by simp_all

lemma unat_7mul: "k \<le> 36 \<Longrightarrow> unat (word_of_nat (7 * k) :: u8) = 7 * k"
  unfolding unat_of_nat_u8 by simp

lemma bitpos_step: "word_of_nat (7 * k) + 7 = (word_of_nat (7 * Suc k) :: u8)"
  by simp

lemma varint_loop_step:
  assumes "k \<le> 9"
  shows "varint_loop s (word_of_nat (7 * k)) r =
     bnd (pb_readbyte s) (\<lambda>byte s.
       let r' = r OR push_bit (7 * k) (ucast (byte AND 0x7F)) in
       if byte AND 0x80 \<noteq> 0 then varint_loop s (word_of_nat (7 * Suc k)) r' else (Some r', s))"
proof -
  have "unat (word_of_nat (7 * k) :: u8) = 7 * k" using assms by (intro unat_7mul) simp
  then have u: "unat (word_of_nat (7 * k) :: u8) = 7 * k" "\<not> 64 \<le> (word_of_nat (7 * k) :: u8)"
    using assms by (simp_all add: word_le_nat_alt)
  show ?thesis
    by (subst varint_loop.simps) (simp only: u bitpos_step Let_def if_False)
qed

lemma reads_byte_bnd: "reads (g b) ys v \<Longrightarrow> reads (\<lambda>s. bnd (pb_readbyte s) g) (b # ys) v"
  using reads_bnd [OF reads_byte, of g b ys v] by simp

lemma of_nat_eqI: "n = unat w \<Longrightarrow> word_of_nat n = w"
  by simp

lemma reads_varint_loop:
  "k \<le> 9 \<Longrightarrow> n * 2 ^ (7 * k) < 2 ^ 64 \<Longrightarrow> unat r < 2 ^ (7 * k) \<Longrightarrow>
     reads (\<lambda>s :: 's istream. varint_loop s (word_of_nat (7 * k)) r) (varint_of n)
       (word_of_nat (unat r + n * 2 ^ (7 * k)))"
proof (induction n arbitrary: k r rule: varint_of.induct)
  case (1 n)
  define b where "b = (word_of_nat (if n < 128 then n else n mod 128 + 128) :: u8)"
  define r' where "r' = r OR push_bit (7 * k) (ucast (b AND 0x7F))"
  have ub: "unat b = (if n < 128 then n else n mod 128 + 128)"
    unfolding b_def by (cases "n < 128") (simp_all only: varint_byte if_True if_False)
  have low: "unat (b AND 0x7F) = n mod 128" unfolding word_low7 ub by simp
  have "n mod 128 * 2 ^ (7 * k) \<le> n * 2 ^ (7 * k)" by (intro mult_right_mono) auto
  with "1.prems"(2) have "n mod 128 * 2 ^ (7 * k) < 2 ^ 64" by (rule le_less_trans [rotated])
  then have ur: "unat r' = unat r + n mod 128 * 2 ^ (7 * k)"
    using unat_or_push [OF "1.prems"(3), of "b AND 0x7F"] by (simp add: low r'_def)
  have hd: "varint_of n = b # (if n < 128 then [] else varint_of (n div 128))"
    by (simp add: varint_of.simps [of n] b_def)
  show ?case
    unfolding varint_loop_step [OF "1.prems"(1)] hd
  proof (rule reads_byte_bnd, fold r'_def, unfold Let_def)
    show "reads (\<lambda>s :: 's istream. if b AND 0x80 \<noteq> 0 then varint_loop s (word_of_nat (7 * Suc k)) r' else (Some r', s))
       (if n < 128 then [] else varint_of (n div 128)) (word_of_nat (unat r + n * 2 ^ (7 * k)))"
    proof (cases "n < 128")
      case True
      then have "b AND 0x80 = 0" unfolding word_bit7 ub by simp
      moreover have "word_of_nat (unat r + n * 2 ^ (7 * k)) = r'"
        by (rule of_nat_eqI) (use ur True in simp)
      ultimately show ?thesis using True by (simp add: reads_ret)
    next
      case False
      then have cont: "b AND 0x80 \<noteq> 0" unfolding word_bit7 ub by simp
      have "2 ^ (7 * Suc k) \<le> n * 2 ^ (7 * k)"
        using False by (simp add: power_add mult.commute)
      then have "(2::nat) ^ (7 * Suc k) < 2 ^ 64" using "1.prems"(2) by (rule le_less_trans)
      then have "7 * Suc k < 64" by (rule power_less_imp_less_exp [rotated]) simp
      then have k: "Suc k \<le> 9" by simp
      have split: "n div 128 * 2 ^ (7 * Suc k) + n mod 128 * 2 ^ (7 * k) = n * 2 ^ (7 * k)"
      proof -
        have "n div 128 * 2 ^ (7 * Suc k) = (n div 128 * 128) * 2 ^ (7 * k)"
          by (simp add: power_add)
        then show ?thesis by (simp only: add_mult_distrib [symmetric] div_mult_mod_eq)
      qed
      have "unat r + n mod 128 * 2 ^ (7 * k) < (1 + n mod 128) * 2 ^ (7 * k)"
        using "1.prems"(3) by (simp add: algebra_simps)
      also have "\<dots> \<le> 128 * 2 ^ (7 * k)" by (intro mult_right_mono) (simp_all add: Suc_leI)
      finally have "unat r' < 2 ^ (7 * Suc k)" unfolding ur by (simp add: power_add)
      then have r'_lt: "unat r' < 2 ^ (7 * Suc k)" .
      have "n div 128 * 2 ^ (7 * Suc k) < 2 ^ 64"
        by (rule le_less_trans [OF _ "1.prems"(2)]) (simp only: split [symmetric])
      note rec = "1.IH" [OF False k this r'_lt]
      have "unat r' + n div 128 * 2 ^ (7 * Suc k) = unat r + n * 2 ^ (7 * k)"
        unfolding ur using split by simp
      then show ?thesis using rec cont False by (simp only: if_True if_False simp_thms)
    qed
  qed
qed

lemma reads_varint: "reads pb_decode_varint (varint_of (unat v)) v"
  using reads_varint_loop [of 0 "unat v" 0] unat_u64_lt [of v]
  unfolding pb_decode_varint_def by simp

section \<open>The 32-bit varint decoder\<close>

definition rejects :: "('s istream \<Rightarrow> 'v option \<times> 's istream) \<Rightarrow> u8 list \<Rightarrow> bool" where
  "rejects p bs \<longleftrightarrow>
     (\<forall>s rest. src_has (i_source s) (bs @ rest) \<longrightarrow> length bs \<le> bytes_left s \<longrightarrow>
        (\<exists>s'. p s = (None, s') \<and> i_errmsg s' \<noteq> None))"

lemma i_set_error_errmsg [simp]: "i_errmsg (i_set_error msg s) \<noteq> None" "\<exists>m. i_errmsg (i_set_error msg s) = Some m"
  by (simp_all add: i_set_error_def split: option.splits)

lemma rejectsD:
  "rejects p bs \<Longrightarrow> src_has (i_source s) (bs @ rest) \<Longrightarrow> length bs \<le> bytes_left s \<Longrightarrow>
     \<exists>s'. p s = (None, s') \<and> i_errmsg s' \<noteq> None"
  unfolding rejects_def by blast

lemma rejects_byte_bnd:
  assumes "rejects (g b) ys"
  shows "rejects (\<lambda>s. bnd (pb_readbyte s) g) (b # ys)"
  unfolding rejects_def
proof (intro allI impI)
  fix s :: "'a istream" and rest
  assume "src_has (i_source s) ((b # ys) @ rest)" "length (b # ys) \<le> bytes_left s"
  then obtain src where 1: "pb_readbyte s = (Some b, consume s src 1)" "src_has src (ys @ rest)"
    and "length ys \<le> bytes_left (consume s src 1)"
    using readsD [OF reads_byte [of b], of s "ys @ rest"] by auto
  with rejectsD [OF assms, of "consume s src 1" rest]
  show "\<exists>s'. bnd (pb_readbyte s) g = (None, s') \<and> i_errmsg s' \<noteq> None" by simp
qed

lemma varint32_loop_step:
  assumes "k \<le> 9"
  shows "varint32_loop s (word_of_nat (7 * k)) r =
     bnd (pb_readbyte s) (\<lambda>byte s.
       if 5 \<le> k \<and> byte AND 0x7F \<noteq> 0 \<and> (drop_bit 31 r = 0 \<or> byte \<noteq> (if k < 9 then 0xFF else 0x01))
       then i_error ''varint overflow'' s
       else
         let r' = (if 5 \<le> k then r else r OR push_bit (7 * k) (ucast (byte AND 0x7F)))
         in if byte AND 0x80 \<noteq> 0 then varint32_loop s (word_of_nat (7 * Suc k)) r'
            else if k = 4 \<and> byte AND 0x70 \<noteq> 0 then i_error ''varint overflow'' s
            else (Some r', s))"
proof -
  have u: "unat (word_of_nat (7 * k) :: u8) = 7 * k" using assms by (intro unat_7mul) simp
  have "unat (word_of_nat (7 * Suc k) :: u8) = 7 * Suc k" using assms by (intro unat_7mul) simp
  then have b: "32 \<le> (word_of_nat (7 * k) :: u8) \<longleftrightarrow> 5 \<le> k" "(word_of_nat (7 * k) :: u8) < 63 \<longleftrightarrow> k < 9"
    "(word_of_nat (7 * Suc k) :: u8) = 35 \<longleftrightarrow> k = 4"
    using u unfolding word_le_nat_alt word_less_nat_alt word_unat_eq_iff by auto
  show ?thesis
    by (subst varint32_loop.simps) (simp only: u b bitpos_step Let_def)
qed

lemma high_bits: "m < 128 \<Longrightarrow> word_of_nat m AND 0x70 = (0 :: u8) \<longleftrightarrow> m < 16"
proof -
  have "\<forall>m \<in> set [0..<128]. (word_of_nat m AND 0x70 = (0 :: u8)) = (m < 16)" by code_simp
  then show "m < 128 \<Longrightarrow> word_of_nat m AND 0x70 = (0 :: u8) \<longleftrightarrow> m < 16" by simp
qed

definition varint_head :: "nat \<Rightarrow> u8" where
  "varint_head n = word_of_nat (if n < 128 then n else n mod 128 + 128)"

lemma varint_of_head: "varint_of n = varint_head n # (if n < 128 then [] else varint_of (n div 128))"
  by (simp add: varint_of.simps [of n] varint_head_def)

lemma unat_varint_head: "unat (varint_head n) = (if n < 128 then n else n mod 128 + 128)"
  unfolding varint_head_def by (cases "n < 128") (simp_all only: varint_byte if_True if_False)

lemma varint_head_cont: "varint_head n AND 0x80 = 0 \<longleftrightarrow> n < 128"
  unfolding word_bit7 unat_varint_head by simp

lemma varint_head_low: "unat (varint_head n AND 0x7F) = n mod 128"
  unfolding word_low7 unat_varint_head by simp

text \<open>The bytes after bit 35: all ones are the sign extension of a negative number.\<close>

lemma tail_ones:
  "5 \<le> k \<Longrightarrow> k \<le> 9 \<Longrightarrow> drop_bit 31 r \<noteq> 0 \<Longrightarrow>
     reads (\<lambda>s :: 's istream. varint32_loop s (word_of_nat (7 * k)) r) (varint_of (2 ^ (64 - 7 * k) - 1)) r"
proof (induction "9 - k" arbitrary: k)
  case 0
  then have k: "k = 9" by simp
  have v: "varint_of (2 ^ (64 - 7 * k) - 1) = [1]" unfolding k by code_simp
  show ?case
    unfolding v unfolding k varint32_loop_step [OF order_refl]
    by (rule reads_byte_bnd) (use 0 in \<open>simp add: Let_def reads_ret\<close>)
next
  case (Suc d)
  then have k: "k < 9" by simp
  let ?n = "2 ^ (64 - 7 * k) - 1 :: nat"
  have e: "64 - 7 * k = 7 + (64 - 7 * Suc k)" using k by simp
  have n: "?n = 127 + (2 ^ (64 - 7 * Suc k) - 1) * 128"
  proof -
    have "(2::nat) ^ (64 - 7 * k) = 128 * 2 ^ (64 - 7 * Suc k)" unfolding e power_add by simp
    moreover have "1 \<le> (2::nat) ^ (64 - 7 * Suc k)" by simp
    ultimately show ?thesis by linarith
  qed
  have pos: "2 \<le> (2::nat) ^ (64 - 7 * Suc k)"
    using k power_increasing [of 1 "64 - 7 * Suc k" "2::nat"] by simp
  have "\<not> ?n < 128" using pos unfolding n by simp
  moreover have "?n div 128 = 2 ^ (64 - 7 * Suc k) - 1" "?n mod 128 = 127" unfolding n by simp_all
  ultimately have v: "varint_of ?n = 0xFF # varint_of (2 ^ (64 - 7 * Suc k) - 1)"
    by (subst varint_of_head) (simp only: varint_head_def if_False, simp)
  show ?case
    unfolding v varint32_loop_step [OF Suc.prems(2)]
  proof (rule reads_byte_bnd)
    have c: "((0xFF :: u8) AND 0x80 \<noteq> 0) = True" by code_simp
    have "reads (\<lambda>s :: 's istream. varint32_loop s (word_of_nat (7 * Suc k)) r)
        (varint_of (2 ^ (64 - 7 * Suc k) - 1)) r"
      by (rule Suc.hyps(1)) (use Suc.hyps(2) Suc.prems k in auto)
    then show "reads (\<lambda>s :: 's istream. if 5 \<le> k \<and> (0xFF :: u8) AND 0x7F \<noteq> 0 \<and>
         (drop_bit 31 r = 0 \<or> 0xFF \<noteq> (if k < 9 then 0xFF else 0x01 :: u8))
       then i_error ''varint overflow'' s
       else
         let r' = (if 5 \<le> k then r else r OR push_bit (7 * k) (ucast ((0xFF :: u8) AND 0x7F)))
         in if (0xFF :: u8) AND 0x80 \<noteq> 0 then varint32_loop s (word_of_nat (7 * Suc k)) r'
            else if k = 4 \<and> (0xFF :: u8) AND 0x70 \<noteq> 0 then i_error ''varint overflow'' s
            else (Some r', s)) (varint_of (2 ^ (64 - 7 * Suc k) - 1)) r"
      unfolding c using Suc.prems k by (simp only: Let_def simp_thms if_True if_False)
  qed
qed

text \<open>A number below \<open>2 ^ 63\<close> has its last nonzero group before the sign bit, where no byte
  without continuation is accepted.\<close>

lemma tail_rejects:
  "5 \<le> k \<Longrightarrow> k \<le> 9 \<Longrightarrow> 0 < m \<Longrightarrow> m * 2 ^ (7 * k) < 2 ^ 63 \<Longrightarrow>
     rejects (\<lambda>s :: 's istream. varint32_loop s (word_of_nat (7 * k)) r) (varint_of m)"
proof (induction m arbitrary: k rule: varint_of.induct)
  case (1 m)
  have "(2::nat) ^ (7 * k) \<le> m * 2 ^ (7 * k)" using "1.prems"(3) by simp
  then have "(2::nat) ^ (7 * k) < 2 ^ 63" using "1.prems"(4) by (rule le_less_trans)
  then have "7 * k < 63" by (rule power_less_imp_less_exp [rotated]) simp
  then have k9: "k < 9" by simp
  show ?case
    unfolding varint32_loop_step [OF "1.prems"(2)] varint_of_head [of m]
  proof (rule rejects_byte_bnd, cases "m < 128")
    case True
    have "unat (varint_head m AND 0x7F) = m" using True by (simp add: varint_head_low)
    then have nz: "varint_head m AND 0x7F \<noteq> 0" using "1.prems"(3) by auto
    have "unat (varint_head m) < 128" using True by (simp add: unat_varint_head)
    then have "varint_head m \<noteq> 0xFF" by auto
    then show "rejects (\<lambda>s :: 's istream. if 5 \<le> k \<and> varint_head m AND 0x7F \<noteq> 0 \<and>
         (drop_bit 31 r = 0 \<or> varint_head m \<noteq> (if k < 9 then 0xFF else 0x01))
       then i_error ''varint overflow'' s
       else
         let r' = (if 5 \<le> k then r else r OR push_bit (7 * k) (ucast (varint_head m AND 0x7F)))
         in if varint_head m AND 0x80 \<noteq> 0 then varint32_loop s (word_of_nat (7 * Suc k)) r'
            else if k = 4 \<and> varint_head m AND 0x70 \<noteq> 0 then i_error ''varint overflow'' s
            else (Some r', s)) (if m < 128 then [] else varint_of (m div 128))"
      using nz k9 "1.prems"(1) by (auto simp: rejects_def i_error_def)
  next
    case False
    have le: "m div 128 * 2 ^ (7 * Suc k) \<le> m * 2 ^ (7 * k)"
    proof -
      have "m div 128 * 2 ^ (7 * Suc k) = (m div 128 * 128) * 2 ^ (7 * k)" by (simp add: power_add)
      also have "\<dots> \<le> m * 2 ^ (7 * k)" by (intro mult_right_mono) auto
      finally show ?thesis .
    qed
    have rec: "rejects (\<lambda>s :: 's istream. varint32_loop s (word_of_nat (7 * Suc k)) r) (varint_of (m div 128))"
      by (rule "1.IH") (use False "1.prems" k9 le_less_trans [OF le] in \<open>auto simp: div_greater_zero_iff\<close>)
    have "varint_head m AND 0x80 \<noteq> 0" using False varint_head_cont by blast
    with rec show "rejects (\<lambda>s :: 's istream. if 5 \<le> k \<and> varint_head m AND 0x7F \<noteq> 0 \<and>
         (drop_bit 31 r = 0 \<or> varint_head m \<noteq> (if k < 9 then 0xFF else 0x01))
       then i_error ''varint overflow'' s
       else
         let r' = (if 5 \<le> k then r else r OR push_bit (7 * k) (ucast (varint_head m AND 0x7F)))
         in if varint_head m AND 0x80 \<noteq> 0 then varint32_loop s (word_of_nat (7 * Suc k)) r'
            else if k = 4 \<and> varint_head m AND 0x70 \<noteq> 0 then i_error ''varint overflow'' s
            else (Some r', s)) (if m < 128 then [] else varint_of (m div 128))"
      using False "1.prems"(1) by (auto simp: rejects_def i_error_def simp del: mult_Suc_right of_nat_mult)
  qed
qed

text \<open>The loop from any position: small values and sign-extended negative values are read, the
  other values below \<open>2 ^ 63\<close> are refused.\<close>

definition varint32_outcome :: "('s istream \<Rightarrow> u32 option \<times> 's istream) \<Rightarrow> u8 list \<Rightarrow> nat \<Rightarrow> bool" where
  "varint32_outcome p bs n \<longleftrightarrow>
     (n < 2 ^ 32 \<longrightarrow> reads p bs (word_of_nat n)) \<and>
     (2 ^ 64 - 2 ^ 31 \<le> n \<and> n < 2 ^ 64 \<longrightarrow> reads p bs (word_of_nat (n mod 2 ^ 32))) \<and>
     (2 ^ 32 \<le> n \<and> n < 2 ^ 63 \<longrightarrow> rejects p bs)"

lemma outcome_byte_bnd:
  assumes "varint32_outcome (g b) ys n"
  shows "varint32_outcome (\<lambda>s. bnd (pb_readbyte s) g) (b # ys) n"
  using assms reads_byte_bnd [of g b ys] rejects_byte_bnd [of g b ys]
  unfolding varint32_outcome_def by blast

lemma outcome_tail:
  assumes r: "unat r = N mod 2 ^ 32" and N: "2 ^ 35 \<le> N"
  shows "varint32_outcome (\<lambda>s :: 's istream. varint32_loop s (word_of_nat (7 * 5)) r) (varint_of (N div 2 ^ 35)) N"
  unfolding varint32_outcome_def
proof (intro conjI impI)
  assume "N < 2 ^ 32"
  with N show "reads (\<lambda>s :: 's istream. varint32_loop s (word_of_nat (7 * 5)) r) (varint_of (N div 2 ^ 35)) (word_of_nat N)"
    by simp
next
  assume a: "2 ^ 64 - 2 ^ 31 \<le> N \<and> N < 2 ^ 64"
  have d: "N div 2 ^ 35 = 2 ^ (64 - 7 * 5) - 1" using a by (simp add: div_nat_eqI)
  have "2 ^ 31 \<le> N mod 2 ^ 32"
  proof -
    have "N div 2 ^ 32 = 2 ^ 32 - 1" using a by (simp add: div_nat_eqI)
    then have "N mod 2 ^ 32 = N - (2 ^ 32 - 1) * 2 ^ 32" using minus_div_mult_eq_mod [of N "2 ^ 32"] by simp
    then show ?thesis using a [THEN conjunct1] by simp
  qed
  then have "unat (drop_bit 31 r) \<noteq> 0" unfolding unat_drop_bit r by (simp add: div_eq_0_iff)
  then have "drop_bit 31 r \<noteq> 0" by auto
  moreover have "word_of_nat (N mod 2 ^ 32) = r" by (rule of_nat_eqI) (simp only: r)
  ultimately show "reads (\<lambda>s :: 's istream. varint32_loop s (word_of_nat (7 * 5)) r) (varint_of (N div 2 ^ 35))
      (word_of_nat (N mod 2 ^ 32))"
    unfolding d using tail_ones [of 5 r] by simp
next
  assume a: "2 ^ 32 \<le> N \<and> N < 2 ^ 63"
  have "0 < N div 2 ^ 35" using N by (simp add: div_greater_zero_iff)
  moreover have "N div 2 ^ 35 * 2 ^ (7 * 5) < 2 ^ 63"
    by (rule le_less_trans [OF _ a [THEN conjunct2]]) simp
  ultimately show "rejects (\<lambda>s :: 's istream. varint32_loop s (word_of_nat (7 * 5)) r) (varint_of (N div 2 ^ 35))"
    using tail_rejects [of 5] by simp
qed

lemma outcome_loop:
  "k \<le> 4 \<Longrightarrow> unat r < 2 ^ (7 * k) \<Longrightarrow> N = unat r + m * 2 ^ (7 * k) \<Longrightarrow>
     varint32_outcome (\<lambda>s :: 's istream. varint32_loop s (word_of_nat (7 * k)) r) (varint_of m) N"
proof (induction m arbitrary: k r rule: varint_of.induct)
  case (1 m)
  define b where "b = varint_head m"
  define r' where "r' = r OR push_bit (7 * k) (ucast (b AND 0x7F))"
  have low: "unat (b AND 0x7F) = m mod 128" unfolding b_def by (rule varint_head_low)
  have ur: "unat r' = unat r + m mod 128 * 2 ^ (7 * k) mod 2 ^ 32"
    using unat_or_push_mod [OF "1.prems"(2), of "b AND 0x7F"] "1.prems"(1)
      less_trans [OF mod_less_divisor, of 128 "2 ^ 32" m] by (simp add: low r'_def)
  have k9: "k \<le> 9" using "1.prems"(1) by simp
  have cont: "b AND 0x80 = 0 \<longleftrightarrow> m < 128" unfolding b_def by (rule varint_head_cont)
  show ?case
    unfolding varint32_loop_step [OF k9] varint_of_head [of m] b_def [symmetric]
  proof (rule outcome_byte_bnd)
    have k5: "(5 \<le> k) = False" using "1.prems"(1) by simp
    show "varint32_outcome (\<lambda>s :: 's istream. if 5 \<le> k \<and> b AND 0x7F \<noteq> 0 \<and>
         (drop_bit 31 r = 0 \<or> b \<noteq> (if k < 9 then 0xFF else 0x01))
       then i_error ''varint overflow'' s
       else
         let r' = (if 5 \<le> k then r else r OR push_bit (7 * k) (ucast (b AND 0x7F)))
         in if b AND 0x80 \<noteq> 0 then varint32_loop s (word_of_nat (7 * Suc k)) r'
            else if k = 4 \<and> b AND 0x70 \<noteq> 0 then i_error ''varint overflow'' s
            else (Some r', s)) (if m < 128 then [] else varint_of (m div 128)) N"
      unfolding k5 simp_thms if_False Let_def r'_def [symmetric]
    proof (cases "m < 128")
      case last: True
      show "varint32_outcome (\<lambda>s :: 's istream. if b AND 0x80 \<noteq> 0
          then varint32_loop s (word_of_nat (7 * Suc k)) r'
          else if k = 4 \<and> b AND 0x70 \<noteq> 0 then i_error ''varint overflow'' s
          else (Some r', s)) (if m < 128 then [] else varint_of (m div 128)) N"
      proof (cases "k = 4 \<and> 16 \<le> m")
        case True
        then have "b AND 0x70 \<noteq> 0" using last high_bits [of m] by (simp add: b_def varint_head_def)
        moreover have "\<not> N < 2 ^ 32" "N < 2 ^ 35" using True last "1.prems"(2,3) by auto
        ultimately show ?thesis
          using True last cont by (simp add: varint32_outcome_def rejects_def i_error_def)
      next
        case False
        have N: "N < 2 ^ 32"
        proof (cases "k = 4")
          case True
          then show ?thesis using False "1.prems"(2,3) by auto
        next
          case k: False
          have "N < (1 + m) * 2 ^ (7 * k)" using "1.prems"(2,3) by simp
          also have "\<dots> \<le> 128 * 2 ^ (7 * 3)"
            by (intro mult_mono power_increasing) (use last k "1.prems"(1) in auto)
          finally show ?thesis by simp
        qed
        then have "unat r' = N" using ur last "1.prems"(3) by simp
        then have "word_of_nat N = r'" by (intro of_nat_eqI) simp
        moreover have "(k = 4 \<and> b AND 0x70 \<noteq> 0) = False"
          using False last high_bits [of m] by (auto simp: b_def varint_head_def)
        ultimately show ?thesis
          using last cont N by (auto simp: varint32_outcome_def reads_ret)
      qed
    next
      case more: False
      have m: "m = m div 128 * 128 + m mod 128" by simp
      show "varint32_outcome (\<lambda>s :: 's istream. if b AND 0x80 \<noteq> 0
          then varint32_loop s (word_of_nat (7 * Suc k)) r'
          else if k = 4 \<and> b AND 0x70 \<noteq> 0 then i_error ''varint overflow'' s
          else (Some r', s)) (if m < 128 then [] else varint_of (m div 128)) N"
      proof (cases "k = 4")
        case True
        have N: "N = (unat r + m mod 128 * 2 ^ 28) + m div 128 * 2 ^ 35"
        proof -
          have "N = unat r + (m div 128 * 128 + m mod 128) * 2 ^ 28" using "1.prems"(3) True by simp
          then show ?thesis by (simp only: add_mult_distrib) simp
        qed
        have lt: "unat r + m mod 128 * 2 ^ 28 < 2 ^ 35"
        proof -
          have "m mod 128 \<le> 127" by simp
          then have "m mod 128 * 2 ^ 28 \<le> 127 * 2 ^ 28" by (rule mult_right_mono) simp
          then show ?thesis using "1.prems"(2) True by simp
        qed
        have q: "N div 2 ^ 35 = m div 128" unfolding N using lt by simp
        have "N mod 2 ^ 32 = (unat r + m mod 128 * 2 ^ 28) mod 2 ^ 32"
        proof -
          have "m div 128 * 2 ^ 35 = (m div 128 * 8) * 2 ^ 32" by simp
          then show ?thesis unfolding N by (simp only: mod_mult_self3 mod_mult_self1)
        qed
        also have "\<dots> = unat r'" unfolding ur True using "1.prems"(2) True by (subst add_shift_mod) simp_all
        finally have "unat r' = N mod 2 ^ 32" by simp
        moreover have "2 ^ 35 \<le> N"
        proof -
          have "1 \<le> m div 128" using more by (simp add: div_greater_zero_iff Suc_le_eq)
          then have "1 * 2 ^ 35 \<le> m div 128 * 2 ^ 35" by (rule mult_right_mono) simp
          then show ?thesis unfolding N by simp
        qed
        ultimately have "varint32_outcome (\<lambda>s :: 's istream. varint32_loop s (word_of_nat (7 * 5)) r')
            (varint_of (N div 2 ^ 35)) N" by (rule outcome_tail)
        then show ?thesis using more cont True unfolding q by simp
      next
        case False
        then have k: "Suc k \<le> 4" using "1.prems"(1) by simp
        have "m mod 128 * 2 ^ (7 * k) \<le> 127 * 2 ^ (7 * 3)"
          by (intro mult_mono power_increasing) (use k in auto)
        then have ur': "unat r' = unat r + m mod 128 * 2 ^ (7 * k)" unfolding ur by simp
        have "unat r' < (1 + m mod 128) * 2 ^ (7 * k)" unfolding ur' using "1.prems"(2) by simp
        also have "\<dots> \<le> 128 * 2 ^ (7 * k)" by (intro mult_right_mono) (simp_all add: Suc_leI)
        finally have r'_lt: "unat r' < 2 ^ (7 * Suc k)" by (simp add: power_add)
        have "m div 128 * 2 ^ (7 * Suc k) = (m div 128 * 128) * 2 ^ (7 * k)"
          by (simp add: power_add)
        then have "N = unat r' + m div 128 * 2 ^ (7 * Suc k)"
          unfolding ur' "1.prems"(3)
          by (simp only: add.assoc add_mult_distrib [symmetric] mod_div_mult_eq)
        from "1.IH" [OF more k r'_lt this] show ?thesis using more cont False
          by (simp only: if_False if_True simp_thms)
      qed
    qed
  qed
qed

lemma pb_decode_varint32_eq:
  "pb_decode_varint32 s = bnd (pb_readbyte s) (\<lambda>b s.
     if b AND 0x80 = 0 then (Some (ucast b), s) else varint32_loop s 7 (ucast (b AND 0x7F)))"
  by (auto simp: pb_decode_varint32_def pb_decode_varint32_eof_def bnd_def split: prod.splits option.splits)

lemma varint32_on_varint: "varint32_outcome pb_decode_varint32 (varint_of n) n"
proof -
  define b where "b = varint_head n"
  have cont: "b AND 0x80 = 0 \<longleftrightarrow> n < 128" unfolding b_def by (rule varint_head_cont)
  have low: "unat (ucast (b AND 0x7F) :: u32) = n mod 128"
    unfolding unat_ucast_mod b_def varint_head_low by simp
  show ?thesis
    unfolding pb_decode_varint32_eq varint_of_head [of n] b_def [symmetric]
  proof (rule outcome_byte_bnd, cases "n < 128")
    case True
    have "unat (ucast b :: u32) = n"
      unfolding unat_ucast_mod b_def unat_varint_head using True by simp
    then have "word_of_nat n = (ucast b :: u32)" by (intro of_nat_eqI) simp
    then show "varint32_outcome (\<lambda>s :: 'a istream. if b AND 0x80 = 0 then (Some (ucast b), s)
        else varint32_loop s 7 (ucast (b AND 0x7F))) (if n < 128 then [] else varint_of (n div 128)) n"
      using True cont by (simp add: varint32_outcome_def reads_ret)
  next
    case False
    have "varint32_outcome (\<lambda>s :: 'a istream. varint32_loop s (word_of_nat (7 * 1)) (ucast (b AND 0x7F)))
        (varint_of (n div 128)) n"
      by (rule outcome_loop) (simp_all add: low)
    then show "varint32_outcome (\<lambda>s :: 'a istream. if b AND 0x80 = 0 then (Some (ucast b), s)
        else varint32_loop s 7 (ucast (b AND 0x7F))) (if n < 128 then [] else varint_of (n div 128)) n"
      using False cont by simp
  qed
qed

section \<open>The other decoders\<close>

lemma reads_varint32: "n < 2 ^ 32 \<Longrightarrow> reads pb_decode_varint32 (varint_of n) (word_of_nat n)"
  using varint32_on_varint [of n] by (simp add: varint32_outcome_def)

text \<open>Bytes shifted into place, one after the other.\<close>

lemma or_byte:
  fixes r :: "'a::len word" and c :: u8
  assumes "unat r < 2 ^ j" and "j + 8 \<le> LENGTH('a)"
  shows "unat (r OR push_bit j (ucast c)) = unat r + unat c * 2 ^ j"
    and "unat r + unat c * 2 ^ j < 2 ^ (j + 8)"
proof -
  have "unat r + unat c * 2 ^ j < (1 + unat c) * 2 ^ j" using assms(1) by simp
  also have "\<dots> \<le> 256 * 2 ^ j"
    using unat_u8_lt [of c] by (intro mult_right_mono) simp_all
  finally show lt: "unat r + unat c * 2 ^ j < 2 ^ (j + 8)" by (simp add: power_add)
  have le: "(2::nat) ^ (j + 8) \<le> 2 ^ LENGTH('a)" using assms(2) by (intro power_increasing) simp_all
  have "unat c * 2 ^ j < 2 ^ LENGTH('a)" using lt le by linarith
  moreover have "unat c < 2 ^ LENGTH('a)"
  proof -
    have "(2::nat) ^ 8 \<le> 2 ^ LENGTH('a)" using assms(2) by (intro power_increasing) simp_all
    then show ?thesis using less_le_trans [OF unat_u8_lt [of c], of "2 ^ LENGTH('a)"] by simp
  qed
  ultimately show "unat (r OR push_bit j (ucast c)) = unat r + unat c * 2 ^ j"
    using assms(1) by (intro unat_or_push)
qed

lemma unat_ucast_u8: "8 \<le> LENGTH('a) \<Longrightarrow> unat (ucast (b :: u8) :: 'a::len word) = unat b"
proof -
  assume "8 \<le> LENGTH('a)"
  then have "(2::nat) ^ 8 \<le> 2 ^ LENGTH('a)" by (intro power_increasing) simp_all
  then have "unat b < 2 ^ LENGTH('a)" using less_le_trans [OF unat_u8_lt [of b], of "2 ^ LENGTH('a)"] by simp
  then show ?thesis unfolding unat_ucast_mod by simp
qed

lemma or_bytes4:
  fixes b0 b1 b2 b3 :: u8
  shows "unat (ucast b0 OR push_bit 8 (ucast b1) OR push_bit 16 (ucast b2) OR push_bit 24 (ucast b3) :: u32)
    = le_val [b0, b1, b2, b3]"
proof -
  have u0: "unat (ucast b0 :: u32) = unat b0" by (rule unat_ucast_u8) simp
  have l0: "unat (ucast b0 :: u32) < 2 ^ 8" unfolding u0 by simp
  note s1 = or_byte [OF l0, of b1, simplified u0]
  note s2 = or_byte [where r = "ucast b0 OR push_bit 8 (ucast b1) :: u32" and j = 16 and c = b2]
  note s3 = or_byte [where r = "(ucast b0 OR push_bit 8 (ucast b1)) OR push_bit 16 (ucast b2) :: u32" and j = 24 and c = b3]
  show ?thesis
    unfolding or.assoc [symmetric] using s1 s2 s3 by simp
qed

lemma or_bytes8:
  fixes b0 b1 b2 b3 b4 b5 b6 b7 :: u8
  shows "unat (ucast b0 OR push_bit 8 (ucast b1) OR push_bit 16 (ucast b2) OR push_bit 24 (ucast b3) OR
    push_bit 32 (ucast b4) OR push_bit 40 (ucast b5) OR push_bit 48 (ucast b6) OR push_bit 56 (ucast b7) :: u64)
    = le_val [b0, b1, b2, b3, b4, b5, b6, b7]"
proof -
  let ?w = "\<lambda>b. ucast b :: u64"
  define r1 where "r1 = ?w b0 OR push_bit 8 (?w b1)"
  define r2 where "r2 = r1 OR push_bit 16 (?w b2)"
  define r3 where "r3 = r2 OR push_bit 24 (?w b3)"
  define r4 where "r4 = r3 OR push_bit 32 (?w b4)"
  define r5 where "r5 = r4 OR push_bit 40 (?w b5)"
  define r6 where "r6 = r5 OR push_bit 48 (?w b6)"
  note defs = r1_def r2_def r3_def r4_def r5_def r6_def
  have u0: "unat (?w b0) = unat b0" by (rule unat_ucast_u8) simp
  have l0: "unat (?w b0) < 2 ^ 8" unfolding u0 by simp
  note s1 = or_byte [OF l0, of b1, simplified u0, folded r1_def]
  note s2 = or_byte [where r = r1 and j = 16 and c = b2, folded r2_def]
  note s3 = or_byte [where r = r2 and j = 24 and c = b3, folded r3_def]
  note s4 = or_byte [where r = r3 and j = 32 and c = b4, folded r4_def]
  note s5 = or_byte [where r = r4 and j = 40 and c = b5, folded r5_def]
  note s6 = or_byte [where r = r5 and j = 48 and c = b6, folded r6_def]
  note s7 = or_byte [where r = r6 and j = 56 and c = b7]
  have "unat (r6 OR push_bit 56 (?w b7)) = le_val [b0, b1, b2, b3, b4, b5, b6, b7]"
    using s1 s2 s3 s4 s5 s6 s7 by simp
  then show ?thesis unfolding or.assoc [symmetric] defs .
qed

lemma length_4E: "length bs = 4 \<Longrightarrow> bs = [bs ! 0, bs ! 1, bs ! 2, bs ! 3]"
  by (rule nth_equalityI) (auto simp: nth_Cons eval_nat_numeral less_Suc_eq)

lemma length_8E:
  "length bs = 8 \<Longrightarrow> bs = [bs ! 0, bs ! 1, bs ! 2, bs ! 3, bs ! 4, bs ! 5, bs ! 6, bs ! 7]"
  by (rule nth_equalityI) (auto simp: nth_Cons eval_nat_numeral less_Suc_eq)

lemma reads_map:
  assumes "reads p bs a" and "f a = v"
  shows "reads (\<lambda>s. bnd (p s) (\<lambda>a s. (Some (f a), s))) bs v"
proof -
  have "reads (\<lambda>s :: 'a istream. (Some (f a), s)) [] v" unfolding assms(2) by (rule reads_ret)
  from reads_bnd [OF assms(1), of "\<lambda>a s. (Some (f a), s)", OF this] show ?thesis by simp
qed

lemma reads_fixed32: "length bs = 4 \<Longrightarrow> reads pb_decode_fixed32 bs (word_of_nat (le_val bs))"
proof -
  assume len: "length bs = 4"
  have "unat (ucast (bs ! 0) OR push_bit 8 (ucast (bs ! 1)) OR push_bit 16 (ucast (bs ! 2)) OR
      push_bit 24 (ucast (bs ! 3)) :: u32) = le_val bs"
    unfolding or_bytes4 using length_4E [OF len] by (rule arg_cong [OF sym])
  then have "ucast (bs ! 0) OR push_bit 8 (ucast (bs ! 1)) OR push_bit 16 (ucast (bs ! 2)) OR
      push_bit 24 (ucast (bs ! 3)) = (word_of_nat (le_val bs) :: u32)"
    by (rule of_nat_eqI [OF sym, symmetric])
  then show ?thesis unfolding pb_decode_fixed32_def by (rule reads_map [OF reads_read [OF len]])
qed

lemma reads_fixed64: "length bs = 8 \<Longrightarrow> reads pb_decode_fixed64 bs (word_of_nat (le_val bs))"
proof -
  assume len: "length bs = 8"
  have "unat (ucast (bs ! 0) OR push_bit 8 (ucast (bs ! 1)) OR push_bit 16 (ucast (bs ! 2)) OR
      push_bit 24 (ucast (bs ! 3)) OR push_bit 32 (ucast (bs ! 4)) OR push_bit 40 (ucast (bs ! 5)) OR
      push_bit 48 (ucast (bs ! 6)) OR push_bit 56 (ucast (bs ! 7)) :: u64) = le_val bs"
    unfolding or_bytes8 using length_8E [OF len] by (rule arg_cong [OF sym])
  then have "ucast (bs ! 0) OR push_bit 8 (ucast (bs ! 1)) OR push_bit 16 (ucast (bs ! 2)) OR
      push_bit 24 (ucast (bs ! 3)) OR push_bit 32 (ucast (bs ! 4)) OR push_bit 40 (ucast (bs ! 5)) OR
      push_bit 48 (ucast (bs ! 6)) OR push_bit 56 (ucast (bs ! 7)) = (word_of_nat (le_val bs) :: u64)"
    by (rule of_nat_eqI [OF sym, symmetric])
  then show ?thesis unfolding pb_decode_fixed64_def by (rule reads_map [OF reads_read [OF len]])
qed

text \<open>Zig-zag decoding inverts zig-zag encoding.\<close>

definition unzigzag :: "u64 \<Rightarrow> u64" where
  "unzigzag value = (if value AND 1 \<noteq> 0 then NOT (drop_bit 1 value) else drop_bit 1 value)"

lemma unzigzag_zigzag: "unzigzag (zigzag v) = v"
proof -
  have neg: "v <s 0 \<longleftrightarrow> bit v 63"
    using bit_last_iff [of v] by (simp add: word_sless_alt)
  have one: "x AND 1 \<noteq> 0 \<longleftrightarrow> bit x 0" for x :: u64
    using and_exp_eq_0_iff_not_bit [of x 0] by simp
  show ?thesis
  proof (cases "bit v 63")
    case True
    have "NOT (drop_bit 1 (NOT (push_bit 1 v))) = v"
    proof (rule bit_word_eqI)
      fix n assume "n < LENGTH(64)"
      then show "bit (NOT (drop_bit 1 (NOT (push_bit 1 v)))) n = bit v n"
        unfolding bit_not_iff bit_drop_bit_eq comp_def bit_push_bit_iff
        using True by (cases "n = 63") auto
    qed
    moreover have "bit (NOT (push_bit 1 v)) 0" unfolding bit_not_iff bit_push_bit_iff by simp
    ultimately show ?thesis using True by (simp only: unzigzag_def zigzag_def neg one if_True if_False)
  next
    case False
    have "drop_bit 1 (push_bit 1 v) = v"
    proof (rule bit_word_eqI)
      fix n assume "n < LENGTH(64)"
      then show "bit (drop_bit 1 (push_bit 1 v)) n = bit v n"
        unfolding bit_drop_bit_eq comp_def bit_push_bit_iff
        using False by (cases "n = 63") auto
    qed
    moreover have "\<not> bit (push_bit 1 v) 0" unfolding bit_push_bit_iff by simp
    ultimately show ?thesis using False by (simp only: unzigzag_def zigzag_def neg one if_True if_False)
  qed
qed

lemma reads_svarint: "reads pb_decode_svarint (varint_of (unat (zigzag v))) v"
proof -
  have "pb_decode_svarint s = bnd (pb_decode_varint s) (\<lambda>a s. (Some (unzigzag a), s))" for s :: "'a istream"
    by (auto simp: pb_decode_svarint_def unzigzag_def intro!: arg_cong [of _ _ "bnd (pb_decode_varint s)"])
  then show ?thesis
    using reads_map [where f = unzigzag, OF reads_varint unzigzag_zigzag] by (simp only: reads_def)
qed

section \<open>Skipping\<close>

lemma reads_read1_bnd: "reads (g [b]) ys v \<Longrightarrow> reads (\<lambda>s. bnd (pb_read s 1) g) (b # ys) v"
  using reads_bnd [OF reads_read [of "[b]" 1], of g ys v] by simp

lemma reads_skip_varint: "reads pb_skip_varint (varint_of n) ()"
proof (induction n rule: varint_of.induct)
  case (1 n)
  let ?b = "varint_head n"
  have step: "reads (\<lambda>s :: 'a istream. if hd [?b] AND 0x80 \<noteq> 0 then pb_skip_varint s else (Some (), s))
      (if n < 128 then [] else varint_of (n div 128)) ()"
    using "1.IH" varint_head_cont [of n] reads_ret by (cases "n < 128") (auto simp: reads_ret)
  have "reads (\<lambda>s :: 'a istream. bnd (pb_read s 1) (\<lambda>bs s.
      if hd bs AND 0x80 \<noteq> 0 then pb_skip_varint s else (Some (), s))) (varint_of n) ()"
    unfolding varint_of_head [of n] by (rule reads_read1_bnd) (rule step)
  moreover have "(\<lambda>s :: 'a istream. bnd (pb_read s 1) (\<lambda>bs s.
      if hd bs AND 0x80 \<noteq> 0 then pb_skip_varint s else (Some (), s))) = pb_skip_varint"
    by (rule ext) (rule pb_skip_varint.simps [symmetric])
  ultimately show ?case by simp
qed

lemma reads_skip_string: "length bs < 2 ^ 32 \<Longrightarrow> reads pb_skip_string (varint_of (length bs) @ bs) ()"
proof -
  assume len: "length bs < 2 ^ 32"
  have "reads (\<lambda>s :: 'a istream. pb_read_null s (unat (word_of_nat (length bs) :: u32))) bs ()"
    by (rule reads_null) (use len in \<open>simp add: unat_of_nat_lt\<close>)
  from reads_bnd [where g = "\<lambda>len s. pb_read_null s (unat len)", OF reads_varint32 [OF len] this]
  show ?thesis unfolding pb_skip_string_def [abs_def] .
qed

definition wire_ok :: "wire \<Rightarrow> bool" where
  "wire_ok w = (case w of WLen bs \<Rightarrow> length bs < 2 ^ 32 | _ \<Rightarrow> True)"

lemma reads_skip_field:
  assumes "wire_ok w"
  shows "reads (\<lambda>s. pb_skip_field s (wire_type_of w)) (payload w) ()"
proof (cases w)
  case (WVarint v)
  then show ?thesis using reads_skip_varint by (simp add: pb_skip_field_def)
next
  case (W64 v)
  then show ?thesis using reads_null [of "le_bytes 8 (unat v)" 8] by (simp add: pb_skip_field_def)
next
  case (WLen bs)
  then show ?thesis using reads_skip_string assms by (simp add: pb_skip_field_def wire_ok_def)
next
  case (W32 v)
  then show ?thesis using reads_null [of "le_bytes 4 (unat v)" 4] by (simp add: pb_skip_field_def)
qed

section \<open>Raw values\<close>

lemma reads_raw_varint:
  "length (varint_of n) \<le> k \<Longrightarrow> reads (raw_varint_loop k buf) (varint_of n) (buf @ varint_of n)"
proof (induction n arbitrary: k buf rule: varint_of.induct)
  case (1 n)
  let ?b = "varint_head n"
  let ?t = "if n < 128 then [] else varint_of (n div 128)"
  have hd: "varint_of n = [?b] @ ?t" by (subst varint_of_head) simp
  from "1.prems" obtain k' where k: "k = Suc k'" by (cases k) (auto simp: hd)
  have step: "reads (\<lambda>s :: 'a istream. if hd [?b] AND 0x80 \<noteq> 0 then raw_varint_loop k' (buf @ [?b]) s
      else (Some (buf @ [?b]), s)) ?t (buf @ varint_of n)"
  proof (cases "n < 128")
    case True
    then show ?thesis using varint_head_cont [of n] by (simp add: hd reads_ret)
  next
    case False
    with "1.IH" [of k' "buf @ [?b]"] "1.prems" varint_head_cont [of n] show ?thesis by (simp add: hd k)
  qed
  have "reads (\<lambda>s :: 'a istream. bnd (pb_read s 1) (\<lambda>bs s. if hd bs AND 0x80 \<noteq> 0
      then raw_varint_loop k' (buf @ bs) s else (Some (buf @ bs), s))) (?b # ?t) (buf @ varint_of n)"
    by (rule reads_read1_bnd) (rule step)
  then show ?case by (simp add: k reads_def hd)
qed

lemma reads_raw_value:
  assumes "length (payload w) \<le> n" and "wire_type_of w \<noteq> PB_WT_STRING"
  shows "reads (\<lambda>s. read_raw_value s (wire_type_of w) n) (payload w) (payload w)"
proof (cases w)
  case (WVarint v)
  then show ?thesis
    using reads_raw_varint [of "unat v" n "[]"] assms(1) by (simp add: read_raw_value_def)
next
  case (W64 v)
  then show ?thesis using reads_read [of "le_bytes 8 (unat v)" 8] by (simp add: read_raw_value_def)
next
  case (WLen bs)
  then show ?thesis using assms(2) by simp
next
  case (W32 v)
  then show ?thesis using reads_read [of "le_bytes 4 (unat v)" 4] by (simp add: read_raw_value_def)
qed

section \<open>Tags\<close>

definition dec_tag :: "'s istream \<Rightarrow> (u32 \<times> u32) option \<times> 's istream" where
  "dec_tag s = (case pb_decode_tag s of (r, eof, s) \<Rightarrow> (r, s))"

lemma dec_tag_eq:
  "dec_tag s = bnd (pb_decode_varint32 s) (\<lambda>temp s.
     if temp = 0 then (None, s) else (Some (temp AND 7, drop_bit 3 temp), s))"
  by (auto simp: dec_tag_def pb_decode_tag_def pb_decode_varint32_def bnd_def
      split: prod.splits option.splits)

lemma reads_tag:
  assumes "unat wt < 8" and "unat f < 2 ^ 29" and "0 < unat f"
  shows "reads dec_tag (varint_of (unat f * 8 + unat wt)) (wt, f)"
proof -
  let ?n = "unat f * 8 + unat wt"
  have lt: "?n < 2 ^ 32" using assms by simp
  let ?t = "word_of_nat ?n :: u32"
  have ut: "unat ?t = ?n" by (rule unat_of_nat_lt) (use lt in simp)
  have nz: "?t \<noteq> 0" unfolding word_unat_eq_iff ut using assms(3) by simp
  have m: "(7 :: u32) = mask 3" by (simp add: mask_eq_exp_minus_1)
  have "?t AND 7 = wt"
    unfolding word_unat_eq_iff m unat_and_mask ut using assms(1) by simp
  moreover have "drop_bit 3 ?t = f"
    unfolding word_unat_eq_iff unat_drop_bit ut using assms(1) by simp
  ultimately have "reads (\<lambda>s :: 'a istream. if ?t = 0 then (None, s)
      else (Some (?t AND 7, drop_bit 3 ?t), s)) [] (wt, f)"
    using nz by (simp add: reads_ret)
  from reads_bnd [where g = "\<lambda>temp s. if temp = 0 then (None, s) else (Some (temp AND 7, drop_bit 3 temp), s)",
      OF reads_varint32 [OF lt] this]
  show ?thesis unfolding dec_tag_eq [abs_def] by simp
qed

end
