(* ===== verification/PbWire.thy ===== *)
theory PbWire imports PbIstream begin

text \<open>
  The two directions of the wire format meet here. The locale \<open>wire_codec\<close> is the contract of
  a writer of \<open>pb_encode.c\<close> and the reader of \<open>pb_decode.c\<close> that belongs to it: what is
  written is what \<open>enc\<close> says, and the reader consumes exactly that and returns the value. It
  is interpreted on varints, zig-zag varints, fixed-width integers and tags. The properties of
  the wire level follow, with the behaviours of the 32-bit varint decoder that are not what
  its comments promise.
\<close>

section \<open>The contract of a writer and its reader\<close>

locale wire_codec =
  fixes enc :: "'v \<Rightarrow> u8 list"
    and wr :: "'a ostream \<Rightarrow> 'v \<Rightarrow> bool \<times> 'a ostream"
    and rd :: "'b istream \<Rightarrow> 'v option \<times> 'b istream"
    and dom :: "'v \<Rightarrow> bool"
  assumes wr_enc: "dom v \<Longrightarrow> emits (\<lambda>s. Some (wr s v)) (enc v)"
    and rd_enc: "dom v \<Longrightarrow> reads rd (enc v) v"
    and enc_nonempty: "dom v \<Longrightarrow> enc v \<noteq> []"
begin

lemma read_back:
  assumes "dom v" and "length (enc v) \<le> n"
  shows "\<exists>s'. rd (pb_istream_from_buffer (enc v @ r) n) = (Some v, s') \<and>
     bytes_left s' = n - length (enc v) \<and> src_has (i_source s') r \<and> i_errmsg s' = None"
proof -
  let ?s = "pb_istream_from_buffer (enc v @ r) n"
  have "src_has (i_source ?s) (enc v @ r)" "length (enc v) \<le> bytes_left ?s"
    using assms(2) by (auto simp: pb_istream_from_buffer_def)
  from readsD [OF rd_enc [OF assms(1)] this]
  show ?thesis by (auto simp: consume_def pb_istream_from_buffer_def)
qed

text \<open>No encoding is a prefix of another one, so a value ends where its bytes say.\<close>

lemma prefix_free:
  assumes v: "dom v" and w: "dom w" and eq: "enc v @ xs = enc w @ ys"
  shows "v = w \<and> xs = ys"
proof -
  let ?n = "max (length (enc v)) (length (enc w))"
  have "rd (pb_istream_from_buffer (enc v @ xs) ?n) = rd (pb_istream_from_buffer (enc w @ ys) ?n)"
    using eq by simp
  then have "v = w" using read_back [OF v, of ?n xs] read_back [OF w, of ?n ys] by auto
  then show ?thesis using eq by simp
qed

lemma enc_inj: "inj_on enc {v. dom v}"
  using prefix_free [where xs = "[]" and ys = "[]"] by (auto intro: inj_onI)

text \<open>Through a buffer: write, then read what was written.\<close>

lemma write_read:
  assumes v: "dom v" and room: "length (enc v) \<le> length buf" and lt: "length buf < size_mod"
  shows "\<exists>s b n t. wr (pb_ostream_from_buffer buf (length buf)) v = (True, s) \<and>
     o_sink s = BufSink b n \<and> bytes_written s = n \<and> n = length (enc v) \<and> length b = length buf \<and>
     rd (pb_istream_from_buffer b n) = (Some v, t) \<and> bytes_left t = 0 \<and> i_errmsg t = None"
proof -
  let ?s = "pb_ostream_from_buffer buf (length buf) :: 'a ostream"
  have "Some (wr ?s v) = Some (True, put ?s (enc v))"
    by (rule emitsD [OF wr_enc [OF v]])
      (use room lt in \<open>simp_all add: ostream_ok_buffer room_buffer\<close>)
  moreover have "o_sink (put ?s (enc v)) = BufSink (enc v @ drop (length (enc v)) buf) (length (enc v))"
    by (simp add: splice_def)
  moreover have "length (enc v @ drop (length (enc v)) buf) = length buf" using room by simp
  ultimately show ?thesis
    using read_back [OF v order_refl, of "drop (length (enc v)) buf"] by auto
qed

text \<open>A sequence of values.\<close>

lemma read_back_first:
  assumes v: "list_all dom (v # vs)" and n: "length (concat (map enc (v # vs))) \<le> n"
  shows "\<exists>s'. rd (pb_istream_from_buffer (concat (map enc (v # vs))) n) = (Some v, s') \<and>
     src_has (i_source s') (concat (map enc vs))"
  using read_back [of v n "concat (map enc vs)"] v n by auto

end

lemma le_bytes_nonempty: "0 < n \<Longrightarrow> le_bytes n v \<noteq> []"
  by (cases n) auto

section \<open>The codecs of the wire format\<close>

interpretation varint: wire_codec "\<lambda>v. varint_of (unat v)" pb_encode_varint pb_decode_varint "\<lambda>v. True"
  by unfold_locales (simp_all add: emits_varint reads_varint varint_of_nonempty)

interpretation varint32: wire_codec "\<lambda>v. varint_of (unat v)" "\<lambda>s v. pb_encode_varint s (ucast (v :: u32))"
    pb_decode_varint32 "\<lambda>v. True"
proof
  fix v :: u32
  show "emits (\<lambda>s :: 'a ostream. Some (pb_encode_varint s (ucast v))) (varint_of (unat v))"
    using emits_varint [of "ucast v"] unat_u32_lt [of v] by (simp add: unat_ucast_mod)
  show "reads pb_decode_varint32 (varint_of (unat v)) v"
    using reads_varint32 [of "unat v"] unat_u32_lt [of v] by simp
  show "varint_of (unat v) \<noteq> []" by (rule varint_of_nonempty)
qed

interpretation svarint: wire_codec "\<lambda>v. varint_of (unat (zigzag v))" pb_encode_svarint pb_decode_svarint "\<lambda>v. True"
  by unfold_locales (simp_all add: emits_svarint reads_svarint varint_of_nonempty)

interpretation fixed32: wire_codec "\<lambda>v. le_bytes 4 (unat (v :: u32))"
    "\<lambda>s v. pb_encode_fixed32 (store 4 m p (unat v)) s p" pb_decode_fixed32 "\<lambda>v. True" for m p
proof
  fix v :: u32
  have "load 4 (store 4 m p (unat v)) p = unat v" by (simp add: byte_simps)
  then show "emits (\<lambda>s :: 'a ostream. Some (pb_encode_fixed32 (store 4 m p (unat v)) s p)) (le_bytes 4 (unat v))"
    using emits_fixed32 [of "store 4 m p (unat v)" p] by simp
  show "reads pb_decode_fixed32 (le_bytes 4 (unat v)) v"
    using reads_fixed32 [of "le_bytes 4 (unat v)"] by simp
  show "le_bytes 4 (unat v) \<noteq> []" by (simp add: le_bytes_nonempty)
qed

interpretation fixed64: wire_codec "\<lambda>v. le_bytes 8 (unat (v :: u64))"
    "\<lambda>s v. pb_encode_fixed64 (store 8 m p (unat v)) s p" pb_decode_fixed64 "\<lambda>v. True" for m p
proof
  fix v :: u64
  have "load 8 (store 8 m p (unat v)) p = unat v" by (simp add: byte_simps)
  then show "emits (\<lambda>s :: 'a ostream. Some (pb_encode_fixed64 (store 8 m p (unat v)) s p)) (le_bytes 8 (unat v))"
    using emits_fixed64 [of "store 8 m p (unat v)" p] by simp
  show "reads pb_decode_fixed64 (le_bytes 8 (unat v)) v"
    using reads_fixed64 [of "le_bytes 8 (unat v)"] by simp
  show "le_bytes 8 (unat v) \<noteq> []" by (simp add: le_bytes_nonempty)
qed

text \<open>A tag is a wire type and a field number; number 0 is not a field.\<close>

interpretation tag: wire_codec "\<lambda>(wt, f). varint_of (unat f * 8 + unat wt)"
    "\<lambda>s (wt, f). pb_encode_tag s wt f" dec_tag "\<lambda>(wt, f). unat wt < 8 \<and> 0 < unat f \<and> unat f < 2 ^ 29"
  by unfold_locales (auto simp: emits_tag reads_tag varint_of_nonempty simp del: unat_gt_0)

section \<open>Substreams\<close>

lemma make_substream:
  assumes n: "length body < 2 ^ 32" and has: "src_has (i_source s) (varint_of (length body) @ body @ rest)"
    and left: "length (varint_of (length body)) + length body \<le> bytes_left s"
  shows "\<exists>src. src_has src (body @ rest) \<and>
     pb_make_string_substream s =
       (Some (s\<lparr>i_source := src, bytes_left := length body\<rparr>),
        s\<lparr>i_source := src, bytes_left := bytes_left s - length (varint_of (length body)) - length body\<rparr>)"
proof -
  obtain src where src: "pb_decode_varint32 s =
      (Some (word_of_nat (length body)), consume s src (length (varint_of (length body))))"
    "src_has src (body @ rest)"
    using readsD [OF reads_varint32 [OF n] has] left by auto
  moreover have "unat (word_of_nat (length body) :: u32) = length body"
    by (rule unat_of_nat_lt) (use n in simp)
  moreover have "\<not> bytes_left s - length (varint_of (length body)) < length body"
    using left by linarith
  ultimately show ?thesis
    by (intro exI [of _ src]) (simp add: pb_make_string_substream_def consume_def)
qed

lemma close_substream:
  assumes "src_has (i_source sub) (drop k body @ rest)" and "bytes_left sub = length body - k"
  shows "\<exists>src. src_has src rest \<and>
     pb_close_string_substream s sub = (True, s\<lparr>i_source := src, i_errmsg := i_errmsg sub\<rparr>)"
proof (cases "bytes_left sub = 0")
  case True
  then show ?thesis using assms by (intro exI [of _ "i_source sub"]) (simp add: pb_close_string_substream_def)
next
  case False
  obtain src where "pb_read_null sub (length body - k) = (Some (), consume sub src (length body - k))"
    "src_has src rest"
    using readsD [OF reads_null [of "drop k body" "length body - k"], of sub rest] assms by auto
  then show ?thesis using False assms(2) by (intro exI [of _ src]) (simp add: pb_close_string_substream_def)
qed

section \<open>Properties\<close>

text \<open>C7: Every 64-bit value that \<open>pb_encode_varint\<close> writes takes at most ten bytes and is read back by
  \<open>pb_decode_varint\<close>, which consumes exactly those bytes.\<close>

theorem varint_roundtrip:
  assumes "10 \<le> length buf" and "length buf < size_mod"
  shows "\<exists>s b n t. pb_encode_varint (pb_ostream_from_buffer buf (length buf)) v = (True, s) \<and>
     o_sink s = BufSink b n \<and> bytes_written s = n \<and> n \<le> 10 \<and> length b = length buf \<and>
     pb_decode_varint (pb_istream_from_buffer b n) = (Some v, t) \<and> bytes_left t = 0"
proof -
  have "length (varint_of (unat v)) \<le> 10" by (rule length_varint_word)
  with varint.write_read [of v buf] assms show ?thesis by fastforce
qed

text \<open>Every signed 64-bit value survives zig-zag encoding and decoding.\<close>

theorem svarint_roundtrip:
  assumes "10 \<le> length buf" and "length buf < size_mod"
  shows "\<exists>s b n t. pb_encode_svarint (pb_ostream_from_buffer buf (length buf)) v = (True, s) \<and>
     o_sink s = BufSink b n \<and> bytes_written s = n \<and> n \<le> 10 \<and> length b = length buf \<and>
     pb_decode_svarint (pb_istream_from_buffer b n) = (Some v, t) \<and> bytes_left t = 0"
proof -
  have "length (varint_of (unat (zigzag v))) \<le> 10" by (rule length_varint_word)
  with svarint.write_read [of v buf] assms show ?thesis by fastforce
qed

theorem svarint_roundtrip_witness:
  "\<exists>s b n t. pb_encode_svarint (pb_ostream_from_buffer (replicate 10 0) 10) (-1) = (True, s) \<and>
     o_sink s = BufSink b n \<and> pb_decode_svarint (pb_istream_from_buffer b n) = (Some (-1), t)"
  using svarint_roundtrip [of "replicate 10 0" "-1"] by auto

theorem varint_roundtrip_witness:
  "\<exists>s b n t. pb_encode_varint (pb_ostream_from_buffer (replicate 10 0) 10) 300 = (True, s) \<and>
     o_sink s = BufSink b n \<and> pb_decode_varint (pb_istream_from_buffer b n) = (Some 300, t)"
  using varint_roundtrip [of "replicate 10 0" 300] by auto

text \<open>A fixed-width 64-bit value in memory is written as eight bytes and read back.\<close>

theorem fixed64_roundtrip:
  assumes "8 \<le> length buf" and "length buf < size_mod"
  shows "\<exists>s b t. pb_encode_fixed64 (store 8 m p (unat v)) (pb_ostream_from_buffer buf (length buf)) p = (True, s) \<and>
     o_sink s = BufSink b 8 \<and> length b = length buf \<and>
     pb_decode_fixed64 (pb_istream_from_buffer b 8) = (Some v, t) \<and> bytes_left t = 0"
  using fixed64.write_read [of v buf m p] assms by fastforce

theorem fixed64_roundtrip_witness:
  "\<exists>s b t. pb_encode_fixed64 (store 8 (\<lambda>_. 0) 16 1000) (pb_ostream_from_buffer (replicate 8 0) 8) 16 = (True, s) \<and>
     o_sink s = BufSink b 8 \<and> pb_decode_fixed64 (pb_istream_from_buffer b 8) = (Some 1000, t)"
  using fixed64_roundtrip [of "replicate 8 0" "\<lambda>_. 0" 16 1000] by auto

text \<open>A tag that \<open>pb_encode_tag\<close> writes is split by \<open>pb_decode_tag\<close> into the wire type and the field
  number it was made of, with no end of file.\<close>

theorem tag_roundtrip:
  assumes "unat wt < 8" and "0 < unat f" and "unat f < 2 ^ 29"
    and "10 \<le> length buf" and "length buf < size_mod"
  shows "\<exists>s b n t. pb_encode_tag (pb_ostream_from_buffer buf (length buf) :: 'a ostream) wt f = (True, s) \<and>
     o_sink s = BufSink b n \<and> bytes_written s = n \<and>
     pb_decode_tag (pb_istream_from_buffer b n :: 'b istream) = (Some (wt, f), False, t) \<and> bytes_left t = 0"
proof -
  let ?t = "unat f * 8 + unat wt"
  have "?t < 2 ^ 64" using assms(1,3) by simp
  then have "unat (word_of_nat ?t :: u64) = ?t" by (intro unat_of_nat_lt) simp
  then have "length (varint_of ?t) \<le> 10" using length_varint_word [of "word_of_nat ?t"] by simp
  then have len: "length (varint_of ?t) \<le> length buf" using assms(4) by simp
  from tag.write_read [of "(wt, f)" buf, simplified, OF _ len assms(5)] assms obtain s b n t where
    1: "pb_encode_tag (pb_ostream_from_buffer buf (length buf) :: 'a ostream) wt f = (True, s)"
      "o_sink s = BufSink b n" "bytes_written s = n" "bytes_left t = 0"
    and 2: "dec_tag (pb_istream_from_buffer b n :: 'b istream) = (Some (wt, f), t)" by auto
  have "pb_decode_tag (pb_istream_from_buffer b n :: 'b istream) = (Some (wt, f), False, t)"
    using 2 by (auto simp: dec_tag_def pb_decode_tag_def pb_decode_varint32_eof_def
        split: prod.splits option.splits if_splits)
  with 1 show ?thesis by blast
qed

theorem tag_roundtrip_witness:
  "\<exists>s b n t. pb_encode_tag (pb_ostream_from_buffer (replicate 10 0) 10) PB_WT_STRING 1000 = (True, s) \<and>
     o_sink s = BufSink b n \<and> pb_decode_tag (pb_istream_from_buffer b n) = (Some (PB_WT_STRING, 1000), False, t)"
  using tag_roundtrip [of PB_WT_STRING 1000 "replicate 10 0"] by auto

text \<open>On the varint of a 64-bit number, the 32-bit decoder returns the number when it fits, the low
  half of a sign-extended negative 32-bit number, and refuses every other number below \<open>2 ^ 63\<close>.\<close>

theorem varint32_reads_varint64:
  "(n < 2 ^ 32 \<longrightarrow> reads (pb_decode_varint32 :: 's istream \<Rightarrow> _) (varint_of n) (word_of_nat n)) \<and>
   (2 ^ 64 - 2 ^ 31 \<le> n \<and> n < 2 ^ 64 \<longrightarrow> reads (pb_decode_varint32 :: 's istream \<Rightarrow> _) (varint_of n) (word_of_nat (n mod 2 ^ 32))) \<and>
   (2 ^ 32 \<le> n \<and> n < 2 ^ 63 \<longrightarrow> rejects (pb_decode_varint32 :: 's istream \<Rightarrow> _) (varint_of n))"
  using varint32_on_varint [of n] unfolding varint32_outcome_def .

theorem varint32_reads_varint64_witness:
  "reads pb_decode_varint32 (varint_of 18446744073709551611) 4294967291"
  using varint32_reads_varint64 [of 18446744073709551611] by simp

text \<open>C15: Skipping a field of unknown meaning consumes exactly its payload, on buffers and on user
  streams that keep their contract.\<close>

theorem pb_skip_field_exact:
  assumes "wire_ok w" and "src_has (i_source s) (payload w @ rest)" and "length (payload w) \<le> bytes_left s"
  shows "\<exists>src. pb_skip_field s (wire_type_of w) =
       (Some (), s\<lparr>i_source := src, bytes_left := bytes_left s - length (payload w)\<rparr>) \<and> src_has src rest"
  using readsD [OF reads_skip_field [OF assms(1)] assms(2,3)] by (simp add: consume_def)

theorem pb_skip_field_exact_witness:
  "\<exists>src. pb_skip_field (pb_istream_from_buffer [2, 65, 66, 7] 4) PB_WT_STRING =
       (Some (), \<lparr>i_source = src, bytes_left = 1, i_errmsg = None\<rparr>) \<and> src_has src [7]"
proof -
  have "varint_of (length [65, 66 :: u8]) = [2]" by code_simp
  then show ?thesis
    using pb_skip_field_exact [of "WLen [65, 66]" "pb_istream_from_buffer [2, 65, 66, 7] 4" "[7]"]
    by (simp add: wire_ok_def pb_istream_from_buffer_def)
qed

text \<open>A substream holds exactly the bytes of the string; however much of it has been read when it is
  closed, the parent stream goes on behind the string.\<close>

theorem substream_delimits:
  assumes "length body < 2 ^ 32" and "src_has (i_source s) (varint_of (length body) @ body @ rest)"
    and "length (varint_of (length body)) + length body \<le> bytes_left s"
  shows "\<exists>sub s'. pb_make_string_substream s = (Some sub, s') \<and> bytes_left sub = length body \<and>
     src_has (i_source sub) body \<and>
     bytes_left s' = bytes_left s - length (varint_of (length body)) - length body \<and>
     (\<forall>k src. k \<le> length body \<and> src_has src (drop k body @ rest) \<longrightarrow>
        (\<exists>src'. pb_close_string_substream s' (consume sub src k) = (True, s'\<lparr>i_source := src'\<rparr>) \<and> src_has src' rest))"
proof -
  obtain src where src: "src_has src (body @ rest)" and
    mk: "pb_make_string_substream s =
       (Some (s\<lparr>i_source := src, bytes_left := length body\<rparr>),
        s\<lparr>i_source := src, bytes_left := bytes_left s - length (varint_of (length body)) - length body\<rparr>)"
    using make_substream [OF assms] by blast
  let ?sub = "s\<lparr>i_source := src, bytes_left := length body\<rparr>"
  let ?s' = "s\<lparr>i_source := src, bytes_left := bytes_left s - length (varint_of (length body)) - length body\<rparr>"
  have "\<exists>src'. pb_close_string_substream ?s' (consume ?sub r k) = (True, ?s'\<lparr>i_source := src'\<rparr>) \<and> src_has src' rest"
    if "k \<le> length body" "src_has r (drop k body @ rest)" for k r
    using close_substream [of "consume ?sub r k" k body rest ?s'] that by (auto simp: consume_def)
  moreover have "src_has src body" using src by (cases src) auto
  ultimately show ?thesis unfolding mk by auto
qed

theorem substream_delimits_witness:
  "\<exists>sub s'. pb_make_string_substream (pb_istream_from_buffer [2, 65, 66, 7] 4) = (Some sub, s') \<and>
     bytes_left sub = length [65, 66 :: u8] \<and> bytes_left s' = 1"
proof -
  have "varint_of (length [65, 66 :: u8]) = [2]" by code_simp
  then show ?thesis
    using substream_delimits [of "[65, 66]" "pb_istream_from_buffer [2, 65, 66, 7] 4" "[7]"]
    by (auto simp: pb_istream_from_buffer_def)
qed

section \<open>Overlong varints\<close>

text \<open>One step on a byte that is there, to evaluate the loops on concrete input.\<close>

lemma varint32_loop_Some:
  "pb_readbyte s = (Some byte, s') \<Longrightarrow> varint32_loop s bitpos result =
    (if bitpos \<ge> 32 \<and> byte AND 0x7F \<noteq> 0 \<and>
          (drop_bit 31 result = 0 \<or> byte \<noteq> (if bitpos < 63 then 0xFF else 0x01))
       then i_error ''varint overflow'' s'
       else if byte AND 0x80 \<noteq> 0
       then varint32_loop s' (bitpos + 7)
              (if bitpos \<ge> 32 then result else result OR push_bit (unat bitpos) (ucast (byte AND 0x7F)))
       else if bitpos + 7 = 35 \<and> byte AND 0x70 \<noteq> 0 then i_error ''varint overflow'' s'
       else (Some (if bitpos \<ge> 32 then result
                   else result OR push_bit (unat bitpos) (ucast (byte AND 0x7F))), s'))"
  by (subst varint32_loop.simps) (auto simp only: Let_def bnd_simps split: if_splits)
lemma varint_loop_Some:
  "pb_readbyte s = (Some byte, s') \<Longrightarrow> bitpos < 64 \<Longrightarrow> varint_loop s bitpos result =
    (if byte AND 0x80 \<noteq> 0
       then varint_loop s' (bitpos + 7) (result OR push_bit (unat bitpos) (ucast (byte AND 0x7F)))
       else (Some (result OR push_bit (unat bitpos) (ucast (byte AND 0x7F))), s'))"
  by (subst varint_loop.simps) (auto simp: Let_def split: if_splits)
lemmas istream_eval = pb_istream_from_buffer_def pb_readbyte_def buf_read_def fill_def

lemma low_bits_u8:
  fixes c :: u8
  assumes "c < 0x80"
  shows "c AND 0x80 = 0" and "c AND 0x7F = c"
  using assms word_bit7 [of c] word_low7 [of c] by (simp_all add: word_less_nat_alt word_unat_eq_iff)

text \<open>C12: The shift counter of the 32-bit decoder has eight bits, so it wraps on an overlong varint and
  the bytes that follow are or-ed into the result again: 37 padding bytes and a byte \<open>c\<close>, which is the
  number \<open>c * 2 ^ 259\<close>, are read as \<open>8 * c\<close> and not refused.\<close>

theorem varint32_counter_wraps:
  assumes "c < 0x80"
  shows "fst (pb_decode_varint32 (pb_istream_from_buffer (replicate 37 0x80 @ [c]) 38 :: unit istream)) =
    Some (push_bit 3 (ucast c))"
  using low_bits_u8 [OF assms] by (simp add: pb_decode_varint32_eq varint32_loop_Some istream_eval)

theorem varint32_counter_wraps_witness:
  "fst (pb_decode_varint32 (pb_istream_from_buffer (replicate 37 0x80 @ [1]) 38 :: unit istream)) = Some 8"
  using varint32_counter_wraps [of 1] by simp

lemma cont_u8:
  fixes b :: u8
  assumes "0x80 \<le> b"
  shows "b AND 0x80 \<noteq> 0"
  using assms word_bit7 [of b] by (simp add: word_le_nat_alt)

text \<open>The number of a padded varint, its low seven bits first.\<close>

definition sevens :: "u8 list \<Rightarrow> nat" where
  "sevens bs = foldr (\<lambda>b n. unat b mod 128 + 128 * n) bs 0"

lemma or_sevens:
  assumes "32 \<le> LENGTH('a)"
  shows "(((ucast (a AND 0x7F) OR push_bit 7 (ucast (b AND 0x7F))) OR push_bit 14 (ucast (c AND 0x7F))) OR
    push_bit 21 (ucast (d AND 0x7F))) OR push_bit 28 (ucast (e AND 0x7F)) = (word_of_nat (sevens [a, b, c, d, e]) :: 'a::len word)"
    (is "?r = _")
proof -
  let ?u = "\<lambda>x :: u8. unat (x AND 0x7F)"
  have u: "?u x \<le> 127" for x using word_low7 [of x] by simp
  have big: "2 ^ 32 \<le> (2 :: nat) ^ LENGTH('a)" by (rule power_increasing [OF assms]) simp
  then have l: "?u x < 2 ^ LENGTH('a)" "?u x * 2 ^ j < 2 ^ LENGTH('a)" if "j \<le> 21" for x j
    using u [of x] mult_mono [OF u [of x] power_increasing [OF that, of "2 :: nat"]] by simp_all
  define r1 where "r1 = (ucast (a AND 0x7F) :: 'a word)"
  define r2 where "r2 = r1 OR push_bit 7 (ucast (b AND 0x7F))"
  define r3 where "r3 = r2 OR push_bit 14 (ucast (c AND 0x7F))"
  define r4 where "r4 = r3 OR push_bit 21 (ucast (d AND 0x7F))"
  have r1: "unat r1 = ?u a" using l(1) [of 0 a] by (simp add: r1_def unat_ucast_mod)
  have r2: "unat r2 = ?u a + ?u b * 2 ^ 7"
    unfolding r2_def by (subst unat_or_push) (use r1 u [of a] l [of 7 b] in simp_all)
  have r3: "unat r3 = unat r2 + ?u c * 2 ^ 14"
    unfolding r3_def by (subst unat_or_push) (use r2 u [of a] u [of b] l [of 14 c] in simp_all)
  have r4: "unat r4 = unat r3 + ?u d * 2 ^ 21"
    unfolding r4_def by (subst unat_or_push) (use r2 r3 u [of a] u [of b] u [of c] l [of 21 d] in simp_all)
  have lt: "unat r4 < 2 ^ 28" using r2 r3 r4 u [of a] u [of b] u [of c] u [of d] by simp
  have "unat ?r = unat r4 + ?u e * 2 ^ 28 mod 2 ^ LENGTH('a)"
    using unat_or_push_mod [OF lt, of "e AND 0x7F"] l(1) [of 0 e] assms unfolding r4_def r3_def r2_def r1_def by simp
  also have "\<dots> = (unat r4 + ?u e * 2 ^ 28) mod 2 ^ LENGTH('a)"
    using add_shift_mod [OF lt, of "LENGTH('a)"] assms by simp
  also have "unat r4 + ?u e * 2 ^ 28 = sevens [a, b, c, d, e]"
    using r2 r3 r4 by (simp add: sevens_def word_low7 algebra_simps)
  finally show ?thesis by (simp add: word_unat_eq_iff unat_of_nat)
qed

text \<open>C13: Bits 32 to 34 of a value are only looked at when its fifth byte is the last one. Five bytes with the
  continuation bit and a byte 0 behind them are a number below \<open>2 ^ 35\<close>: the 64-bit decoder reads it,
  the 32-bit decoder returns it modulo \<open>2 ^ 32\<close> and does not report an overflow.\<close>

theorem varint32_drops_bits:
  assumes "length bs = 5" and "\<forall>b \<in> set bs. 0x80 \<le> b"
  shows "fst (pb_decode_varint (pb_istream_from_buffer (bs @ [0x00]) 6 :: unit istream)) = Some (word_of_nat (sevens bs)) \<and>
    fst (pb_decode_varint32 (pb_istream_from_buffer (bs @ [0x00]) 6 :: unit istream)) = Some (word_of_nat (sevens bs)) \<and>
    sevens bs < 2 ^ 35"
proof -
  obtain a b c d e where bs: "bs = [a, b, c, d, e]" using assms(1) by (auto simp: length_Suc_conv eval_nat_numeral)
  have cont: "a AND 0x80 \<noteq> 0" "b AND 0x80 \<noteq> 0" "c AND 0x80 \<noteq> 0" "d AND 0x80 \<noteq> 0" "e AND 0x80 \<noteq> 0"
    using assms(2) bs cont_u8 by simp_all
  have "fst (pb_decode_varint (pb_istream_from_buffer (bs @ [0x00]) 6 :: unit istream)) = Some (word_of_nat (sevens bs))"
    using cont or_sevens [where ?'a = 64, of a b c d e] unfolding bs
    by (simp add: pb_decode_varint_def varint_loop_Some istream_eval)
  moreover have "fst (pb_decode_varint32 (pb_istream_from_buffer (bs @ [0x00]) 6 :: unit istream)) = Some (word_of_nat (sevens bs))"
    using cont or_sevens [where ?'a = 32, of a b c d e] unfolding bs
    by (simp add: pb_decode_varint32_eq varint32_loop_Some istream_eval)
  moreover have "unat x mod 128 \<le> 127" for x :: u8 using mod_less_divisor [of 128 "unat x"] by simp
  from this [of a] this [of b] this [of c] this [of d] this [of e] have "sevens bs < 2 ^ 35"
    unfolding sevens_def bs by simp
  ultimately show ?thesis by blast
qed

theorem varint32_drops_bits_witness:
  "fst (pb_decode_varint (pb_istream_from_buffer ([0x80, 0x80, 0x80, 0x80, 0xF0] @ [0x00]) 6 :: unit istream)) = Some 0x700000000 \<and>
   fst (pb_decode_varint32 (pb_istream_from_buffer ([0x80, 0x80, 0x80, 0x80, 0xF0] @ [0x00]) 6 :: unit istream)) = Some 0"
  using varint32_drops_bits [of "[0x80, 0x80, 0x80, 0x80, 0xF0]"] by (simp add: sevens_def)

end
