(* ===== verification/PbHeap.thy ===== *)
theory PbHeap imports PbIstream begin

text \<open>
  The state of a decoding call and the heap: the stream, the memory the message lives in, and
  the C library's allocator. \<open>pb_realloc\<close> and \<open>pb_free\<close> are \<open>realloc\<close> and \<open>free\<close>: the model
  keeps the list of live blocks, hands out fresh addresses, fails when its limit is reached,
  and raises the fault flag when a pointer that is not live is freed or reallocated (undefined
  behaviour in C). \<open>allocate_field\<close> of \<open>pb_decode.c\<close> is here; the lemmas state the allocator's
  contract and that the product of sizes it is asked for has not wrapped.
\<close>

section \<open>State\<close>

record 's dstate =
  d_in :: "'s istream"
  d_mem :: mem
  d_live :: "(addr \<times> nat) list"
  d_brk :: addr
  d_limit :: nat
  d_fault :: bool
  d_fcount :: nat

definition d_error :: "string \<Rightarrow> 's dstate \<Rightarrow> bool \<times> 's dstate" where
  "d_error msg st = (False, st\<lparr>d_in := i_set_error msg (d_in st)\<rparr>)"

text \<open>A wire-level read on the stream of the state.\<close>

definition on_stream :: "('s istream \<Rightarrow> 'a option \<times> 's istream) \<Rightarrow> 's dstate \<Rightarrow> 'a option \<times> 's dstate" where
  "on_stream f st = (case f (d_in st) of (r, s) \<Rightarrow> (r, st\<lparr>d_in := s\<rparr>))"

text \<open>\<open>pb_read (stream, dest, count)\<close> into the memory.\<close>

definition read_mem :: "nat \<Rightarrow> addr \<Rightarrow> 's dstate \<Rightarrow> bool \<times> 's dstate" where
  "read_mem count dest st =
     (case on_stream (\<lambda>s. pb_read s count) st of
        (None, st) \<Rightarrow> (False, st)
      | (Some bs, st) \<Rightarrow> (True, st\<lparr>d_mem := mem_write (d_mem st) dest bs\<rparr>))"

definition d_store :: "nat \<Rightarrow> addr \<Rightarrow> nat \<Rightarrow> 's dstate \<Rightarrow> 's dstate" where
  "d_store n a v st = st\<lparr>d_mem := store n (d_mem st) a v\<rparr>"

definition d_memset0 :: "addr \<Rightarrow> nat \<Rightarrow> 's dstate \<Rightarrow> 's dstate" where
  "d_memset0 a n st = st\<lparr>d_mem := mem_write (d_mem st) a (replicate n 0)\<rparr>"

text \<open>\<open>*(pb_size_t* )iter->pSize\<close>.\<close>

definition psize_read :: "psize \<Rightarrow> 's dstate \<Rightarrow> nat" where
  "psize_read p st = (case p of PMem a \<Rightarrow> load 4 (d_mem st) a | PFixedCount \<Rightarrow> d_fcount st)"

definition psize_write :: "psize \<Rightarrow> nat \<Rightarrow> 's dstate \<Rightarrow> 's dstate" where
  "psize_write p v st =
     (case p of PMem a \<Rightarrow> d_store 4 a v st | PFixedCount \<Rightarrow> st\<lparr>d_fcount := v mod 2 ^ 32\<rparr>)"

section \<open>The allocator\<close>

definition pb_free :: "addr \<Rightarrow> 's dstate \<Rightarrow> 's dstate" where
  "pb_free p st =
     (if p = 0 then st
      else if map_of (d_live st) p = None then st\<lparr>d_fault := True\<rparr>
      else st\<lparr>d_live := filter (\<lambda>b. fst b \<noteq> p) (d_live st)\<rparr>)"

definition pb_realloc :: "addr \<Rightarrow> nat \<Rightarrow> 's dstate \<Rightarrow> addr \<times> 's dstate" where
  "pb_realloc p sz st =
     (if p \<noteq> 0 \<and> map_of (d_live st) p = None then (0, st\<lparr>d_fault := True\<rparr>)
      else if sz > d_limit st \<or> d_brk st + sz \<ge> size_mod then (0, st)
      else
        let q = d_brk st;
            old = (case map_of (d_live st) p of None \<Rightarrow> 0 | Some n \<Rightarrow> n)
        in (q, st\<lparr>d_mem := mem_write (d_mem st) q (mem_read (d_mem st) p (min old sz)),
                 d_live := (q, sz) # filter (\<lambda>b. fst b \<noteq> p) (d_live st),
                 d_brk := q + sz, d_limit := d_limit st - sz\<rparr>))"

definition allocate_field :: "addr \<Rightarrow> nat \<Rightarrow> nat \<Rightarrow> 's dstate \<Rightarrow> bool \<times> 's dstate" where
  "allocate_field pData data_size array_size st =
     (let ptr = load 8 (d_mem st) pData; check_limit = 2 ^ 32 in
      if data_size = 0 \<or> array_size = 0 then d_error ''invalid size'' st
      else if (data_size \<ge> check_limit \<or> array_size \<ge> check_limit) \<and>
              (size_mod - 1) div array_size < data_size
      then d_error ''size too large'' st
      else
        case pb_realloc ptr (array_size * data_size mod size_mod) st of (ptr, st) \<Rightarrow>
          if ptr = 0 then d_error ''realloc failed'' st
          else (True, d_store 8 pData ptr st))"

section \<open>The contract of the allocator\<close>

text \<open>
  A heap is well formed when its live blocks lie between a base address and the break, are
  pairwise disjoint, and no two start at the same address.
\<close>

definition blocks_disjoint :: "(addr \<times> nat) list \<Rightarrow> bool" where
  "blocks_disjoint bs \<longleftrightarrow>
     distinct (map fst bs) \<and>
     (\<forall>(a, n) \<in> set bs. \<forall>(b, k) \<in> set bs. a \<noteq> b \<longrightarrow> a + n \<le> b \<or> b + k \<le> a)"

definition heap_ok :: "addr \<Rightarrow> 's dstate \<Rightarrow> bool" where
  "heap_ok base st \<longleftrightarrow>
     0 < base \<and> base \<le> d_brk st \<and> d_brk st < size_mod \<and> blocks_disjoint (d_live st) \<and>
     (\<forall>(a, n) \<in> set (d_live st). base \<le> a \<and> a + n \<le> d_brk st \<and> 0 < n)"

lemma blocks_disjoint_filter: "blocks_disjoint bs \<Longrightarrow> blocks_disjoint (filter P bs)"
  by (auto simp: blocks_disjoint_def distinct_map_filter)

lemma blocks_disjoint_Cons:
  assumes "blocks_disjoint bs" and "\<And>a n. (a, n) \<in> set bs \<Longrightarrow> a + n \<le> q \<and> a \<noteq> q"
  shows "blocks_disjoint ((q, sz) # bs)"
proof -
  have "q \<notin> fst ` set bs" using assms(2) by force
  then show ?thesis using assms unfolding blocks_disjoint_def by auto
qed

lemma heap_ok_free: "heap_ok base st \<Longrightarrow> heap_ok base (pb_free p st)"
  by (auto simp: heap_ok_def pb_free_def blocks_disjoint_filter)

lemma pb_free_live:
  "heap_ok base st \<Longrightarrow> (p, n) \<in> set (d_live st) \<Longrightarrow>
     d_fault (pb_free p st) = d_fault st \<and> set (d_live (pb_free p st)) = set (d_live st) - {(p, n)}"
proof -
  assume ok: "heap_ok base st" and p: "(p, n) \<in> set (d_live st)"
  then have "p \<noteq> 0" and dist: "distinct (map fst (d_live st))"
    by (auto simp: heap_ok_def blocks_disjoint_def)
  have "map_of (d_live st) p = Some n" using dist p by (simp add: map_of_eq_Some_iff)
  moreover have "set (filter (\<lambda>b. fst b \<noteq> p) (d_live st)) = set (d_live st) - {(p, n)}"
    using p by (auto dest: eq_key_imp_eq_value [OF dist])
  ultimately show ?thesis using \<open>p \<noteq> 0\<close> by (simp add: pb_free_def)
qed

lemma heap_ok_realloc:
  assumes ok: "heap_ok base st" and r: "pb_realloc p sz st = (q, st')" and sz: "0 < sz"
  shows "heap_ok base st'"
proof (cases "q = 0 \<and> (st' = st \<or> st' = st\<lparr>d_fault := True\<rparr>)")
  case True
  then show ?thesis using ok by (auto simp: heap_ok_def)
next
  case False
  let ?live = "filter (\<lambda>b. fst b \<noteq> p) (d_live st)"
  have st': "d_live st' = (d_brk st, sz) # ?live" "d_brk st' = d_brk st + sz" "d_brk st + sz < size_mod"
    using r False by (auto simp: pb_realloc_def Let_def split: if_splits)
  have "blocks_disjoint ((d_brk st, sz) # ?live)"
    by (rule blocks_disjoint_Cons) (use ok in \<open>auto simp: heap_ok_def blocks_disjoint_filter\<close>)
  then show ?thesis using ok st' sz by (auto simp: heap_ok_def)
qed

text \<open>
  What the decoder relies on: freeing or reallocating a live block does not fault, changes no
  other block, and a block that is handed out is new. The client lemmas are about releasing a
  list of pointers, as the loop over a repeated string field does.
\<close>

locale allocator =
  fixes inv :: "'h \<Rightarrow> bool" and blocks :: "'h \<Rightarrow> (addr \<times> nat) set" and fault :: "'h \<Rightarrow> bool"
    and realloc :: "addr \<Rightarrow> nat \<Rightarrow> 'h \<Rightarrow> addr \<times> 'h" and free :: "addr \<Rightarrow> 'h \<Rightarrow> 'h"
  assumes free_null: "free 0 h = h"
    and free_live: "inv h \<Longrightarrow> (p, n) \<in> blocks h \<Longrightarrow>
      inv (free p h) \<and> fault (free p h) = fault h \<and> blocks (free p h) = blocks h - {(p, n)}"
    and block_unique: "inv h \<Longrightarrow> (p, n) \<in> blocks h \<Longrightarrow> (p, k) \<in> blocks h \<Longrightarrow> n = k"
    and block_nonnull: "inv h \<Longrightarrow> (p, n) \<in> blocks h \<Longrightarrow> p \<noteq> 0"
    and realloc_live: "inv h \<Longrightarrow> p = 0 \<or> p \<in> fst ` blocks h \<Longrightarrow> 0 < n \<Longrightarrow> realloc p n h = (q, h') \<Longrightarrow>
      inv h' \<and> fault h' = fault h \<and>
      (if q = 0 then blocks h' = blocks h
       else q \<notin> fst ` blocks h \<and> blocks h' = insert (q, n) {b \<in> blocks h. fst b \<noteq> p})"
begin

lemma free_all_live:
  assumes "inv h" and "distinct ps" and "set ps \<subseteq> fst ` blocks h"
  shows "inv (fold free ps h) \<and> fault (fold free ps h) = fault h \<and>
    blocks (fold free ps h) = {b \<in> blocks h. fst b \<notin> set ps}"
  using assms
proof (induction ps arbitrary: h)
  case Nil
  then show ?case by simp
next
  case (Cons p ps)
  from Cons.prems(3) obtain n where p: "(p, n) \<in> blocks h" by auto
  note f = free_live [OF Cons.prems(1) p]
  have "set ps \<subseteq> fst ` blocks (free p h)"
  proof
    fix x assume x: "x \<in> set ps"
    then obtain k where "(x, k) \<in> blocks h" using Cons.prems(3) by auto
    moreover have "x \<noteq> p" using x Cons.prems(2) by auto
    ultimately have "(x, k) \<in> blocks (free p h)" using f by auto
    then show "x \<in> fst ` blocks (free p h)" by force
  qed
  with Cons.IH [of "free p h"] f Cons.prems(2)
  have "inv (fold free ps (free p h)) \<and> fault (fold free ps (free p h)) = fault h \<and>
    blocks (fold free ps (free p h)) = {b \<in> blocks h - {(p, n)}. fst b \<notin> set ps}" by simp
  moreover have "{b \<in> blocks h - {(p, n)}. fst b \<notin> set ps} = {b \<in> blocks h. fst b \<notin> set (p # ps)}"
    by (auto dest: block_unique [OF Cons.prems(1) p])
  ultimately show ?case by simp
qed

text \<open>Null pointers in the list are skipped.\<close>

lemma free_all:
  assumes "inv h" and "distinct (filter (\<lambda>p. p \<noteq> 0) ps)" and "set ps - {0} \<subseteq> fst ` blocks h"
  shows "inv (fold free ps h) \<and> fault (fold free ps h) = fault h \<and>
    blocks (fold free ps h) = {b \<in> blocks h. fst b \<notin> set ps}"
proof -
  have "fold free ps h = fold free (filter (\<lambda>p. p \<noteq> 0) ps) h" for h
    by (induction ps arbitrary: h) (auto simp: free_null)
  moreover have "set (filter (\<lambda>p. p \<noteq> 0) ps) \<subseteq> fst ` blocks h" using assms(3) by auto
  moreover have "{b \<in> blocks h. fst b \<notin> set (filter (\<lambda>p. p \<noteq> 0) ps)} = {b \<in> blocks h. fst b \<notin> set ps}"
    by (auto dest: block_nonnull [OF assms(1)])
  ultimately show ?thesis using free_all_live [OF assms(1,2)] by simp
qed

end

interpretation heap: allocator "heap_ok base" "\<lambda>st. set (d_live st)" d_fault pb_realloc pb_free for base
proof
  fix st :: "'a dstate" and p n k q st'
  show "pb_free 0 st = st" by (simp add: pb_free_def)
  {
    assume ok: "heap_ok base st" and p: "(p, n) \<in> set (d_live st)"
    then show "heap_ok base (pb_free p st) \<and> d_fault (pb_free p st) = d_fault st \<and>
        set (d_live (pb_free p st)) = set (d_live st) - {(p, n)}"
      using heap_ok_free pb_free_live by blast
    show "p \<noteq> 0" using ok p by (auto simp: heap_ok_def)
    assume "(p, k) \<in> set (d_live st)"
    with ok p show "n = k" by (auto simp: heap_ok_def blocks_disjoint_def dest: eq_key_imp_eq_value)
  }
  assume ok: "heap_ok base st" and p: "p = 0 \<or> p \<in> fst ` set (d_live st)" and n: "0 < n"
    and r: "pb_realloc p n st = (q, st')"
  have live: "p \<noteq> 0 \<Longrightarrow> map_of (d_live st) p \<noteq> None" using p by (auto simp: map_of_eq_None_iff)
  have new: "d_brk st \<notin> fst ` set (d_live st)" and nz: "0 < d_brk st"
    using ok by (auto simp: heap_ok_def)
  show "heap_ok base st' \<and> d_fault st' = d_fault st \<and>
      (if q = 0 then set (d_live st') = set (d_live st)
       else q \<notin> fst ` set (d_live st) \<and>
            set (d_live st') = insert (q, n) {b \<in> set (d_live st). fst b \<noteq> p})"
    using heap_ok_realloc [OF ok r n] r live new nz
    by (auto simp: pb_realloc_def Let_def split: if_splits)
qed

text \<open>The size asked for is the product, and the pointer member points to a block of that size.\<close>

lemma allocate_no_wrap:
  assumes "allocate_field p d k st = (True, st')" and "d < size_mod" "k < size_mod"
  shows "d * k < size_mod"
proof (cases "2 ^ 32 \<le> d \<or> 2 ^ 32 \<le> k")
  case False
  then have "d \<le> 2 ^ 32 - 1" "k \<le> 2 ^ 32 - 1" by auto
  then have "d * k \<le> (2 ^ 32 - 1) * (2 ^ 32 - 1)" by (intro mult_le_mono)
  then show ?thesis by simp
next
  case True
  then have k: "0 < k" and "\<not> (size_mod - 1) div k < d"
    using assms(1) by (auto simp: allocate_field_def d_error_def Let_def split: if_splits)
  then have "d * k \<le> (size_mod - 1) div k * k" by (intro mult_right_mono) simp_all
  also have "\<dots> \<le> size_mod - 1" by (rule div_times_less_eq_dividend)
  finally show ?thesis by simp
qed

end
