(* ===== verification/PbRelease.thy ===== *)
theory PbRelease imports PbHeap begin

text \<open>
  The part of \<open>pb_decode.c\<close> that walks over a message without a stream: the iterator faked for
  an extension, initialisation to default values (\<open>pb_field_set_to_default\<close>,
  \<open>pb_message_set_to_defaults\<close>) and the release of everything a message owns
  (\<open>pb_release_single_field\<close>, \<open>pb_release\<close>, \<open>pb_release_union_field\<close>). Descriptors may be
  cyclic, so the recursion into submessages and extension lists carries fuel; \<open>None\<close> is fuel
  used up or a call that does not return.
\<close>

record 's dext_type =
  xt_decode :: "('s dstate \<Rightarrow> addr \<Rightarrow> u32 \<Rightarrow> u32 \<Rightarrow> bool \<times> 's dstate) option"
  xt_arg :: "pb_field list"

record 's dec_env =
  v_descr :: descr_env
  v_callback :: "addr \<Rightarrow> 's dstate \<Rightarrow> pb_field \<Rightarrow> addr \<Rightarrow> bool \<times> 's dstate"
  v_ext_type :: "addr \<Rightarrow> 's dext_type"

text \<open>\<open>pb_extension_t\<close> at \<open>ext\<close>: type at 0, dest at 8, next at 16, found at 24.\<close>

definition iter_from_extension :: "'s dec_env \<Rightarrow> 's dstate \<Rightarrow> addr \<Rightarrow> pb_field_iter" where
  "iter_from_extension env st ext =
     (let fld = xt_arg (v_ext_type env (load 8 (d_mem st) ext));
          dest = load 8 (d_mem st) (ext + 8);
          it = (snd (pb_field_iter_begin fld dest))\<lparr>it_pData := dest, it_pSize := PMem (ext + 24)\<rparr>
      in if PB_ATYPE (f_type (field_at fld 0)) = PB_ATYPE_POINTER
         then it\<lparr>it_pData := ext + 8\<rparr> else it)"

section \<open>Default values\<close>

type_synonym 's field_op = "pb_field_iter \<Rightarrow> 's dstate \<Rightarrow> 's dstate option"

text \<open>Run an operation on every field of a message.\<close>

definition for_fields :: "'s field_op \<Rightarrow> pb_field list \<Rightarrow> addr \<Rightarrow> 's dstate \<Rightarrow> 's dstate option" where
  "for_fields f flds dest st =
     (case pb_field_iter_begin flds dest of
        (False, it) \<Rightarrow> Some st
      | (True, it) \<Rightarrow> map_option snd (do_fields (\<lambda>it st. map_option (Pair True) (f it st)) it st))"

text \<open>The loop over an extension list.\<close>

primrec default_exts :: "'s dec_env \<Rightarrow> 's field_op \<Rightarrow> nat \<Rightarrow> addr \<Rightarrow> 's dstate \<Rightarrow> 's dstate option" where
  "default_exts env f 0 ext st = (if ext = 0 then Some st else None)"
| "default_exts env f (Suc k) ext st =
     (if ext = 0 then Some st
      else
        let st = d_store 1 (ext + 24) 0 st in
        case f (iter_from_extension env st ext) st of
          None \<Rightarrow> None
        | Some st \<Rightarrow> default_exts env f k (load 8 (d_mem st) (ext + 16)) st)"

definition set_default_step :: "'s dec_env \<Rightarrow> nat \<Rightarrow> 's field_op \<Rightarrow> 's field_op" where
  "set_default_step env n f it st =
     (let field = it_field it; ty = f_type field in
      if PB_LTYPE ty = PB_LTYPE_EXTENSION
      then default_exts env f n (load 8 (d_mem st) (it_pData it)) st
      else if PB_ATYPE ty = PB_ATYPE_STATIC then
        let has = (PB_HTYPE ty = PB_HTYPE_OPTIONAL \<and> it_pSize it \<noteq> PMem (it_pData it));
            counted = (\<not> has \<and> (PB_HTYPE ty = PB_HTYPE_REPEATED \<or> PB_HTYPE ty = PB_HTYPE_ONEOF));
            st = (if has
                  then (case it_pSize it of PMem a \<Rightarrow> d_store 1 a 0 st | PFixedCount \<Rightarrow> psize_write PFixedCount 0 st)
                  else if counted then psize_write (it_pSize it) 0 st
                  else st)
        in
        if \<not> counted then
          if PB_LTYPE ty = PB_LTYPE_SUBMESSAGE then
            (case f_ptr field of
               PtrFields d \<Rightarrow> for_fields f (v_descr env d) (it_pData it) st
             | _ \<Rightarrow> None)
          else
            (case f_ptr field of
               PtrDefault bs \<Rightarrow>
                 Some (st\<lparr>d_mem := mem_write (d_mem st) (it_pData it) (fill (unat (f_data_size field)) bs)\<rparr>)
             | PtrFields d \<Rightarrow> None
             | PtrNull \<Rightarrow> Some (d_memset0 (it_pData it) (unat (f_data_size field)) st))
        else Some st
      else if PB_ATYPE ty = PB_ATYPE_POINTER then
        let st = d_store 8 (it_pData it) 0 st in
        if PB_HTYPE ty = PB_HTYPE_REPEATED \<or> PB_HTYPE ty = PB_HTYPE_ONEOF
        then Some (psize_write (it_pSize it) 0 st)
        else Some st
      else Some st)"

primrec pb_field_set_to_default :: "'s dec_env \<Rightarrow> nat \<Rightarrow> 's field_op" where
  "pb_field_set_to_default env 0 = (\<lambda>it st. None)"
| "pb_field_set_to_default env (Suc n) = set_default_step env n (pb_field_set_to_default env n)"

definition pb_message_set_to_defaults :: "'s dec_env \<Rightarrow> nat \<Rightarrow> pb_field list \<Rightarrow> addr \<Rightarrow> 's dstate \<Rightarrow>
    's dstate option" where
  "pb_message_set_to_defaults env n = for_fields (pb_field_set_to_default env n)"

section \<open>Release\<close>

text \<open>The loop over the entries of a submessage array; \<open>rel\<close> releases the fields of one.\<close>

primrec release_items :: "(addr \<Rightarrow> 's dstate \<Rightarrow> 's dstate option) \<Rightarrow> nat \<Rightarrow> nat \<Rightarrow> addr \<Rightarrow> 's dstate \<Rightarrow>
    's dstate option" where
  "release_items rel data_size 0 p st = Some st"
| "release_items rel data_size (Suc count) p st =
     (case rel p st of None \<Rightarrow> None | Some st \<Rightarrow> release_items rel data_size count (p + data_size) st)"

text \<open>The loop over the pointers of a repeated string or bytes field.\<close>

primrec release_strings :: "nat \<Rightarrow> addr \<Rightarrow> 's dstate \<Rightarrow> 's dstate" where
  "release_strings 0 p st = st"
| "release_strings (Suc count) p st =
     release_strings count (p + 8) (d_store 8 p 0 (pb_free (load 8 (d_mem st) p) st))"

primrec release_exts :: "'s dec_env \<Rightarrow> 's field_op \<Rightarrow> nat \<Rightarrow> addr \<Rightarrow> 's dstate \<Rightarrow> 's dstate option" where
  "release_exts env f 0 ext st = (if ext = 0 then Some st else None)"
| "release_exts env f (Suc k) ext st =
     (if ext = 0 then Some st
      else case f (iter_from_extension env st ext) st of
             None \<Rightarrow> None
           | Some st \<Rightarrow> release_exts env f k (load 8 (d_mem st) (ext + 16)) st)"

text \<open>\<open>pb_release\<close> for a given release of single fields.\<close>

definition release_message :: "'s field_op \<Rightarrow> pb_field list \<Rightarrow> addr \<Rightarrow> 's dstate \<Rightarrow> 's dstate option" where
  "release_message f flds dest st = (if dest = 0 then Some st else for_fields f flds dest st)"

definition release_submessages :: "'s dec_env \<Rightarrow> 's field_op \<Rightarrow> 's field_op" where
  "release_submessages env f it st =
     (let field = it_field it; ty = f_type field;
          pItem = (if PB_ATYPE ty = PB_ATYPE_POINTER then load 8 (d_mem st) (it_pData it) else it_pData it);
          count =
            (if PB_HTYPE ty = PB_HTYPE_REPEATED then
               let c = (if PB_ATYPE ty = PB_ATYPE_STATIC \<and> it_pSize it = PMem (it_pData it)
                        then unat (f_array_size field)
                        else psize_read (it_pSize it) st)
               in if PB_ATYPE ty = PB_ATYPE_STATIC \<and> c > unat (f_array_size field)
                  then unat (f_array_size field) else c
             else 1)
      in if pItem \<noteq> 0 then
           (case f_ptr field of
              PtrFields d \<Rightarrow>
                release_items (release_message f (v_descr env d)) (unat (f_data_size field)) count pItem st
            | _ \<Rightarrow> if count = 0 then Some st else None)
         else Some st)"

definition release_pointer :: "pb_field_iter \<Rightarrow> 's dstate \<Rightarrow> 's dstate" where
  "release_pointer it st =
     (let ty = f_type (it_field it);
          st = (if PB_HTYPE ty = PB_HTYPE_REPEATED \<and>
                   (PB_LTYPE ty = PB_LTYPE_STRING \<or> PB_LTYPE ty = PB_LTYPE_BYTES)
                then release_strings (psize_read (it_pSize it) st) (load 8 (d_mem st) (it_pData it)) st
                else st);
          st = (if PB_HTYPE ty = PB_HTYPE_REPEATED then psize_write (it_pSize it) 0 st else st)
      in d_store 8 (it_pData it) 0 (pb_free (load 8 (d_mem st) (it_pData it)) st))"

definition release_step :: "'s dec_env \<Rightarrow> nat \<Rightarrow> 's field_op \<Rightarrow> 's field_op" where
  "release_step env n f it st =
     (let ty = f_type (it_field it) in
      if PB_HTYPE ty = PB_HTYPE_ONEOF \<and> psize_read (it_pSize it) st \<noteq> unat (f_tag (it_field it))
      then Some st
      else
        case (if PB_LTYPE ty = PB_LTYPE_EXTENSION
              then release_exts env f n (load 8 (d_mem st) (it_pData it)) st
              else if PB_LTYPE ty = PB_LTYPE_SUBMESSAGE then release_submessages env f it st
              else Some st) of
          None \<Rightarrow> None
        | Some st \<Rightarrow> Some (if PB_ATYPE ty = PB_ATYPE_POINTER then release_pointer it st else st))"

primrec pb_release_single_field :: "'s dec_env \<Rightarrow> nat \<Rightarrow> 's field_op" where
  "pb_release_single_field env 0 = (\<lambda>it st. None)"
| "pb_release_single_field env (Suc n) = release_step env n (pb_release_single_field env n)"

definition pb_release :: "'s dec_env \<Rightarrow> nat \<Rightarrow> pb_field list \<Rightarrow> addr \<Rightarrow> 's dstate \<Rightarrow> 's dstate option" where
  "pb_release env n = release_message (pb_release_single_field env n)"

text \<open>The iterator moves to the old member of the union and back.\<close>

definition pb_release_union_field :: "'s dec_env \<Rightarrow> nat \<Rightarrow> pb_field_iter \<Rightarrow> 's dstate \<Rightarrow>
    (bool \<times> pb_field_iter \<times> 's dstate) option" where
  "pb_release_union_field env n it st =
     (let old_tag = psize_read (it_pSize it) st; new_tag = f_tag (it_field it) in
      if old_tag = 0 then Some (True, it, st)
      else if old_tag = unat new_tag then Some (True, it, st)
      else
        case pb_field_iter_find (word_of_nat old_tag) it of
          None \<Rightarrow> None
        | Some (False, it) \<Rightarrow> (case d_error ''invalid union tag'' st of (ok, st) \<Rightarrow> Some (ok, it, st))
        | Some (True, it) \<Rightarrow>
            (case pb_release_single_field env n it st of
               None \<Rightarrow> None
             | Some st \<Rightarrow>
                 (case pb_field_iter_find new_tag it of
                    None \<Rightarrow> None
                  | Some (False, it) \<Rightarrow> (case d_error ''iterator error'' st of (ok, st) \<Rightarrow> Some (ok, it, st))
                  | Some (True, it) \<Rightarrow> Some (True, it, st))))"

end
