(* ===== verification/PbDecode.thy ===== *)
theory PbDecode imports PbRelease begin

text \<open>
  The message decoder of nanopb, \<open>pb_decode.c\<close>: the field decoders \<open>pb_dec_*\<close>, static, pointer,
  callback and extension fields, \<open>pb_decode_noinit\<close> with its bookkeeping of required and
  fixed-count fields, \<open>pb_decode\<close> and its variants. Submessages are bounded by fuel; the loops
  over the bytes of a stream carry as many rounds as there are bytes left, which is enough
  because every round consumes at least one.
\<close>

type_synonym 's ddecoder = "'s dstate \<Rightarrow> pb_field \<Rightarrow> addr \<Rightarrow> (bool \<times> 's dstate) option"
type_synonym 's msg_decoder = "pb_field list \<Rightarrow> addr \<Rightarrow> 's dstate \<Rightarrow> (bool \<times> 's dstate) option"

text \<open>The calls \<open>decode\<close>, \<open>decode_noinit\<close> and \<open>set_to_defaults\<close> for submessages.\<close>

record 's sub_calls =
  c_noinit :: "'s msg_decoder"
  c_decode :: "'s msg_decoder"

section \<open>Field decoders\<close>

text \<open>The value that is stored through a pointer to an integer of \<open>data_size\<close> bytes, widened.\<close>

definition narrow_signed :: "u32 \<Rightarrow> u64 \<Rightarrow> u64 option" where
  "narrow_signed data_size v =
     (if data_size = 8 then Some v
      else if data_size = 4 then Some (scast (ucast v :: u32))
      else if data_size = 2 then Some (scast (ucast v :: u16))
      else if data_size = 1 then Some (scast (ucast v :: u8))
      else None)"

definition narrow_unsigned :: "u32 \<Rightarrow> u64 \<Rightarrow> u64 option" where
  "narrow_unsigned data_size v =
     (if data_size = 8 then Some v
      else if data_size = 4 then Some (ucast (ucast v :: u32))
      else if data_size = 2 then Some (ucast (ucast v :: u16))
      else if data_size = 1 then Some (ucast (ucast v :: u8))
      else None)"

text \<open>Store the narrowed value, then compare it with the original one.\<close>

definition store_clamped :: "(u32 \<Rightarrow> u64 \<Rightarrow> u64 option) \<Rightarrow> pb_field \<Rightarrow> addr \<Rightarrow> u64 \<Rightarrow> 's dstate \<Rightarrow>
    bool \<times> 's dstate" where
  "store_clamped narrow field dest v st =
     (case narrow (f_data_size field) v of
        None \<Rightarrow> d_error ''invalid data_size'' st
      | Some clamped \<Rightarrow>
          let st = d_store (unat (f_data_size field)) dest (unat clamped) st in
          if clamped \<noteq> v then d_error ''integer too large'' st else (True, st))"

definition pb_dec_varint :: "'s ddecoder" where
  "pb_dec_varint st field dest =
     (case on_stream pb_decode_varint st of
        (None, st) \<Rightarrow> Some (False, st)
      | (Some v, st) \<Rightarrow>
          let svalue = (if f_data_size field = 8 then v else scast (ucast v :: u32))
          in Some (store_clamped narrow_signed field dest svalue st))"

definition pb_dec_uvarint :: "'s ddecoder" where
  "pb_dec_uvarint st field dest =
     (case on_stream pb_decode_varint st of
        (None, st) \<Rightarrow> Some (False, st)
      | (Some v, st) \<Rightarrow> Some (store_clamped narrow_unsigned field dest v st))"

definition pb_dec_svarint :: "'s ddecoder" where
  "pb_dec_svarint st field dest =
     (case on_stream pb_decode_svarint st of
        (None, st) \<Rightarrow> Some (False, st)
      | (Some v, st) \<Rightarrow> Some (store_clamped narrow_signed field dest v st))"

definition pb_dec_fixed32 :: "'s ddecoder" where
  "pb_dec_fixed32 st field dest =
     (case on_stream pb_decode_fixed32 st of
        (None, st) \<Rightarrow> Some (False, st)
      | (Some v, st) \<Rightarrow> Some (True, d_store 4 dest (unat v) st))"

definition pb_dec_fixed64 :: "'s ddecoder" where
  "pb_dec_fixed64 st field dest =
     (case on_stream pb_decode_fixed64 st of
        (None, st) \<Rightarrow> Some (False, st)
      | (Some v, st) \<Rightarrow> Some (True, d_store 8 dest (unat v) st))"

text \<open>\<open>PB_BYTES_ARRAY_T_ALLOCSIZE\<close> adds the four bytes of the size member.\<close>

definition pb_dec_bytes :: "'s ddecoder" where
  "pb_dec_bytes st field dest =
     (case on_stream pb_decode_varint32 st of
        (None, st) \<Rightarrow> Some (False, st)
      | (Some sz, st) \<Rightarrow>
          let alloc_size = unat sz + 4;
              into = (\<lambda>bdest st. read_mem (unat sz) (bdest + 4) (d_store 4 bdest (unat sz) st))
          in
          if sz > PB_SIZE_MAX then Some (d_error ''bytes overflow'' st)
          else if unat sz > alloc_size then Some (d_error ''size too large'' st)
          else if PB_ATYPE (f_type field) = PB_ATYPE_POINTER then
            Some (chk (allocate_field dest alloc_size 1 st) (\<lambda>st. into (load 8 (d_mem st) dest) st))
          else if alloc_size > unat (f_data_size field) then Some (d_error ''bytes overflow'' st)
          else Some (into dest st))"

text \<open>\<open>size + 1\<close> is computed in 32 bits.\<close>

definition pb_dec_string :: "'s ddecoder" where
  "pb_dec_string st field dest =
     (case on_stream pb_decode_varint32 st of
        (None, st) \<Rightarrow> Some (False, st)
      | (Some sz, st) \<Rightarrow>
          let alloc_size = unat (sz + 1);
              into = (\<lambda>dest st. case read_mem (unat sz) dest st of (status, st) \<Rightarrow>
                        (status, d_store 1 (dest + unat sz) 0 st))
          in
          if alloc_size < unat sz then Some (d_error ''size too large'' st)
          else if PB_ATYPE (f_type field) = PB_ATYPE_POINTER then
            Some (chk (allocate_field dest alloc_size 1 st) (\<lambda>st. into (load 8 (d_mem st) dest) st))
          else if alloc_size > unat (f_data_size field) then Some (d_error ''string overflow'' st)
          else Some (into dest st))"

text \<open>Run a decoder on a substream and close it; \<open>stream\<close> is the parent.\<close>

definition close_sub :: "'s istream \<Rightarrow> bool \<times> 's dstate \<Rightarrow> bool \<times> 's dstate" where
  "close_sub parent r =
     (case r of (status, st) \<Rightarrow>
        case pb_close_string_substream parent (d_in st) of
          (False, s) \<Rightarrow> (False, st\<lparr>d_in := s\<rparr>)
        | (True, s) \<Rightarrow> (status, st\<lparr>d_in := s\<rparr>))"

definition pb_dec_submessage :: "'s dec_env \<Rightarrow> 's sub_calls \<Rightarrow> 's ddecoder" where
  "pb_dec_submessage env calls st field dest =
     (case on_stream pb_make_string_substream st of
        (None, st) \<Rightarrow> Some (False, st)
      | (Some sub, st) \<Rightarrow>
          (case f_ptr field of
             PtrNull \<Rightarrow> Some (d_error ''invalid field descriptor'' st)
           | PtrDefault bs \<Rightarrow> None
           | PtrFields d \<Rightarrow>
               let call = (if PB_HTYPE (f_type field) = PB_HTYPE_REPEATED then c_decode calls
                           else c_noinit calls)
               in map_option (close_sub (d_in st)) (call (v_descr env d) dest (st\<lparr>d_in := sub\<rparr>))))"

definition pb_dec_fixed_length_bytes :: "'s ddecoder" where
  "pb_dec_fixed_length_bytes st field dest =
     (case on_stream pb_decode_varint32 st of
        (None, st) \<Rightarrow> Some (False, st)
      | (Some sz, st) \<Rightarrow>
          if sz > PB_SIZE_MAX then Some (d_error ''bytes overflow'' st)
          else if sz = 0 then Some (True, d_memset0 dest (unat (f_data_size field)) st)
          else if sz \<noteq> f_data_size field
          then Some (d_error ''incorrect fixed length bytes size'' st)
          else Some (read_mem (unat (f_data_size field)) dest st))"

definition PB_DECODERS :: "'s dec_env \<Rightarrow> 's sub_calls \<Rightarrow> u8 \<Rightarrow> 's ddecoder" where
  "PB_DECODERS env calls lt =
     (if lt = PB_LTYPE_VARINT then pb_dec_varint
      else if lt = PB_LTYPE_UVARINT then pb_dec_uvarint
      else if lt = PB_LTYPE_SVARINT then pb_dec_svarint
      else if lt = PB_LTYPE_FIXED32 then pb_dec_fixed32
      else if lt = PB_LTYPE_FIXED64 then pb_dec_fixed64
      else if lt = PB_LTYPE_BYTES then pb_dec_bytes
      else if lt = PB_LTYPE_STRING then pb_dec_string
      else if lt = PB_LTYPE_SUBMESSAGE then pb_dec_submessage env calls
      else if lt = PB_LTYPE_FIXED_LENGTH_BYTES then pb_dec_fixed_length_bytes
      else (\<lambda>st field dest. None))"

section \<open>Static fields\<close>

text \<open>\<open>data_size * (*size)\<close> is a product of two 32-bit integers.\<close>

definition item_offset :: "pb_field \<Rightarrow> nat \<Rightarrow> nat" where
  "item_offset field sz = unat (f_data_size field * word_of_nat sz)"

text \<open>The loop over a packed array: the state is on the substream, and the result is the status.\<close>

primrec packed_loop :: "'s ddecoder \<Rightarrow> pb_field_iter \<Rightarrow> nat \<Rightarrow> 's dstate \<Rightarrow> (bool \<times> 's dstate) option" where
  "packed_loop func it 0 st =
     (if bytes_left (d_in st) > 0 \<and> psize_read (it_pSize it) st < unat (f_array_size (it_field it))
      then None else Some (True, st))"
| "packed_loop func it (Suc k) st =
     (let sz = psize_read (it_pSize it) st; field = it_field it in
      if bytes_left (d_in st) > 0 \<and> sz < unat (f_array_size field) then
        chkF (func st field (it_pData it + item_offset field sz)) (\<lambda>st.
          packed_loop func it k (psize_write (it_pSize it) (psize_read (it_pSize it) st + 1) st))
      else Some (True, st))"

definition decode_static_packed :: "'s ddecoder \<Rightarrow> pb_field_iter \<Rightarrow> 's dstate \<Rightarrow> (bool \<times> 's dstate) option" where
  "decode_static_packed func it st =
     (case on_stream pb_make_string_substream st of
        (None, st) \<Rightarrow> Some (False, st)
      | (Some sub, st) \<Rightarrow>
          (case packed_loop func it (bytes_left sub) (st\<lparr>d_in := sub\<rparr>) of
             None \<Rightarrow> None
           | Some (status, st') \<Rightarrow>
               if bytes_left (d_in st') \<noteq> 0
               then Some (d_error ''array overflow'' (st'\<lparr>d_in := d_in st\<rparr>))
               else Some (close_sub (d_in st) (status, st'))))"

definition decode_static_field :: "'s dec_env \<Rightarrow> 's sub_calls \<Rightarrow> nat \<Rightarrow> u32 \<Rightarrow> pb_field_iter \<Rightarrow> 's dstate \<Rightarrow>
    (bool \<times> 's dstate) option" where
  "decode_static_field env calls n wire_type it st =
     (let field = it_field it; ty = f_type field; func = PB_DECODERS env calls (PB_LTYPE ty) in
      if PB_HTYPE ty = PB_HTYPE_REQUIRED then func st field (it_pData it)
      else if PB_HTYPE ty = PB_HTYPE_OPTIONAL then
        func (if it_pSize it \<noteq> PMem (it_pData it)
              then (case it_pSize it of PMem a \<Rightarrow> d_store 1 a 1 st | PFixedCount \<Rightarrow> psize_write PFixedCount 1 st)
              else st) field (it_pData it)
      else if PB_HTYPE ty = PB_HTYPE_REPEATED then
        if wire_type = PB_WT_STRING \<and> PB_LTYPE ty \<le> PB_LTYPE_LAST_PACKABLE
        then decode_static_packed func it st
        else
          let sz = psize_read (it_pSize it) st; pItem = it_pData it + item_offset field sz;
              st = psize_write (it_pSize it) (sz + 1) st
          in if sz \<ge> unat (f_array_size field) then Some (d_error ''array overflow'' st)
             else func st field pItem
      else
        let st = psize_write (it_pSize it) (unat (f_tag field)) st in
        if PB_LTYPE ty = PB_LTYPE_SUBMESSAGE then
          (case f_ptr field of
             PtrFields d \<Rightarrow>
               (case pb_message_set_to_defaults env n (v_descr env d) (it_pData it)
                       (d_memset0 (it_pData it) (unat (f_data_size field)) st) of
                  None \<Rightarrow> None
                | Some st \<Rightarrow> func st field (it_pData it))
           | _ \<Rightarrow> None)
        else func st field (it_pData it))"

section \<open>Pointer fields\<close>

definition initialize_pointer_field :: "'s dec_env \<Rightarrow> nat \<Rightarrow> addr \<Rightarrow> pb_field_iter \<Rightarrow> 's dstate \<Rightarrow> 's dstate option" where
  "initialize_pointer_field env n pItem it st =
     (let field = it_field it; lt = PB_LTYPE (f_type field) in
      if lt = PB_LTYPE_STRING \<or> lt = PB_LTYPE_BYTES then Some (d_store 8 pItem 0 st)
      else if lt = PB_LTYPE_SUBMESSAGE then
        (case f_ptr field of
           PtrFields d \<Rightarrow> pb_message_set_to_defaults env n (v_descr env d) pItem
                            (d_memset0 pItem (unat (f_data_size field)) st)
         | _ \<Rightarrow> None)
      else Some st)"

text \<open>One round of the packed loop decodes an entry; the array grows when it is full. The
  division is by the size of an entry, which must not be 0.\<close>

primrec pointer_packed_loop :: "'s dec_env \<Rightarrow> nat \<Rightarrow> 's ddecoder \<Rightarrow> pb_field_iter \<Rightarrow> nat \<Rightarrow> nat \<Rightarrow> 's dstate \<Rightarrow>
    (bool \<times> bool \<times> 's dstate) option" where
  "pointer_packed_loop env n func it 0 allocated st =
     (if bytes_left (d_in st) > 0 then None else Some (True, False, st))"
| "pointer_packed_loop env n func it (Suc k) allocated st =
     (let field = it_field it; sz = psize_read (it_pSize it) st; dsz = unat (f_data_size field) in
      if bytes_left (d_in st) = 0 then Some (True, False, st)
      else if sz + 1 > allocated \<and> dsz = 0 then None
      else
        let allocated' = (if sz + 1 > allocated
                          then allocated + (bytes_left (d_in st) - 1) div dsz + 1 else allocated)
        in
        case (if sz + 1 > allocated then allocate_field (it_pData it) dsz allocated' st else (True, st)) of
          (False, st) \<Rightarrow> Some (False, False, st)
        | (True, st) \<Rightarrow>
            let pItem = load 8 (d_mem st) (it_pData it) + item_offset field sz in
            (case initialize_pointer_field env n pItem it st of
               None \<Rightarrow> None
             | Some st \<Rightarrow>
                 (case func st field pItem of
                    None \<Rightarrow> None
                  | Some (False, st) \<Rightarrow> Some (False, False, st)
                  | Some (True, st) \<Rightarrow>
                      let sz = psize_read (it_pSize it) st in
                      if sz = unat PB_SIZE_MAX then Some (False, True, st)
                      else pointer_packed_loop env n func it k allocated'
                             (psize_write (it_pSize it) (sz + 1) st))))"

text \<open>The second component of the loop's result is \<open>too many array entries\<close>, which is set on
  the parent stream.\<close>

definition decode_pointer_packed :: "'s dec_env \<Rightarrow> nat \<Rightarrow> 's ddecoder \<Rightarrow> pb_field_iter \<Rightarrow> 's dstate \<Rightarrow>
    (bool \<times> 's dstate) option" where
  "decode_pointer_packed env n func it st =
     (let allocated = psize_read (it_pSize it) st in
      case on_stream pb_make_string_substream st of
        (None, st) \<Rightarrow> Some (False, st)
      | (Some sub, st) \<Rightarrow>
          (case pointer_packed_loop env n func it (bytes_left sub) allocated (st\<lparr>d_in := sub\<rparr>) of
             None \<Rightarrow> None
           | Some (status, many, st') \<Rightarrow>
               Some (close_sub (if many then (d_in st)\<lparr>i_errmsg := Some ''too many array entries''\<rparr> else d_in st)
                       (status, st'))))"

definition decode_pointer_single :: "'s dec_env \<Rightarrow> nat \<Rightarrow> 's ddecoder \<Rightarrow> pb_field_iter \<Rightarrow> 's dstate \<Rightarrow>
    (bool \<times> 's dstate) option" where
  "decode_pointer_single env n func it st =
     (let field = it_field it; ty = f_type field in
      case (if PB_LTYPE ty = PB_LTYPE_SUBMESSAGE \<and> load 8 (d_mem st) (it_pData it) \<noteq> 0
            then pb_release_single_field env n it st else Some st) of
        None \<Rightarrow> None
      | Some st \<Rightarrow>
          let st = (if PB_HTYPE ty = PB_HTYPE_ONEOF then psize_write (it_pSize it) (unat (f_tag field)) st else st) in
          if PB_LTYPE ty = PB_LTYPE_STRING \<or> PB_LTYPE ty = PB_LTYPE_BYTES
          then func st field (it_pData it)
          else
            chkF (Some (allocate_field (it_pData it) (unat (f_data_size field)) 1 st)) (\<lambda>st.
              case initialize_pointer_field env n (load 8 (d_mem st) (it_pData it)) it st of
                None \<Rightarrow> None
              | Some st \<Rightarrow> func st field (load 8 (d_mem st) (it_pData it))))"

definition decode_pointer_field :: "'s dec_env \<Rightarrow> 's sub_calls \<Rightarrow> nat \<Rightarrow> u32 \<Rightarrow> pb_field_iter \<Rightarrow> 's dstate \<Rightarrow>
    (bool \<times> 's dstate) option" where
  "decode_pointer_field env calls n wire_type it st =
     (let field = it_field it; ty = f_type field; func = PB_DECODERS env calls (PB_LTYPE ty) in
      if PB_HTYPE ty = PB_HTYPE_REQUIRED \<or> PB_HTYPE ty = PB_HTYPE_OPTIONAL \<or> PB_HTYPE ty = PB_HTYPE_ONEOF
      then decode_pointer_single env n func it st
      else if wire_type = PB_WT_STRING \<and> PB_LTYPE ty \<le> PB_LTYPE_LAST_PACKABLE
      then decode_pointer_packed env n func it st
      else
        let sz = psize_read (it_pSize it) st in
        if sz = unat PB_SIZE_MAX then Some (d_error ''too many array entries'' st)
        else
          let st = psize_write (it_pSize it) (sz + 1) st in
          chkF (Some (allocate_field (it_pData it) (unat (f_data_size field)) (psize_read (it_pSize it) st) st)) (\<lambda>st.
            let pItem = load 8 (d_mem st) (it_pData it) +
                          item_offset field (psize_read (it_pSize it) st - 1)
            in case initialize_pointer_field env n pItem it st of
                 None \<Rightarrow> None
               | Some st \<Rightarrow> func st field pItem))"

section \<open>Callback fields\<close>

text \<open>The callback is called until the substream is used up.\<close>

primrec callback_loop :: "('s dstate \<Rightarrow> bool \<times> 's dstate) \<Rightarrow> nat \<Rightarrow> 's dstate \<Rightarrow> (bool \<times> 's dstate) option" where
  "callback_loop f 0 st = None"
| "callback_loop f (Suc k) st =
     chkF (Some (f st)) (\<lambda>st. if bytes_left (d_in st) \<noteq> 0 then callback_loop f k st else Some (True, st))"

definition decode_callback_field :: "'s dec_env \<Rightarrow> nat \<Rightarrow> u32 \<Rightarrow> pb_field_iter \<Rightarrow> 's dstate \<Rightarrow>
    (bool \<times> 's dstate) option" where
  "decode_callback_field env n wire_type it st =
     (let pCallback = it_pData it; func = load 8 (d_mem st) pCallback; field = it_field it in
      if pCallback = 0 \<or> func = 0 then
        (case on_stream (\<lambda>s. pb_skip_field s wire_type) st of (r, st) \<Rightarrow> Some (r \<noteq> None, st))
      else if wire_type = PB_WT_STRING then
        (case on_stream pb_make_string_substream st of
           (None, st) \<Rightarrow> Some (False, st)
         | (Some sub, st) \<Rightarrow>
             (case callback_loop (\<lambda>st. v_callback env func st field (pCallback + 8)) n (st\<lparr>d_in := sub\<rparr>) of
                None \<Rightarrow> None
              | Some (False, st') \<Rightarrow> Some (d_error ''callback failed'' (st'\<lparr>d_in := d_in st\<rparr>))
              | Some (True, st') \<Rightarrow> Some (close_sub (d_in st) (True, st'))))
      else
        (case on_stream (\<lambda>s. read_raw_value s wire_type 10) st of
           (None, st) \<Rightarrow> Some (False, st)
         | (Some buffer, st) \<Rightarrow>
             (case v_callback env func (st\<lparr>d_in := pb_istream_from_buffer buffer (length buffer)\<rparr>) field
                     (pCallback + 8) of
                (ok, st') \<Rightarrow> Some (ok, st'\<lparr>d_in := d_in st\<rparr>))))"

section \<open>One field\<close>

definition decode_field :: "'s dec_env \<Rightarrow> 's sub_calls \<Rightarrow> nat \<Rightarrow> u32 \<Rightarrow> pb_field_iter \<Rightarrow> 's dstate \<Rightarrow>
    (bool \<times> pb_field_iter \<times> 's dstate) option" where
  "decode_field env calls n wire_type it st =
     (case (if PB_HTYPE (f_type (it_field it)) = PB_HTYPE_ONEOF
            then pb_release_union_field env n it st else Some (True, it, st)) of
        None \<Rightarrow> None
      | Some (False, it, st) \<Rightarrow> Some (False, it, st)
      | Some (True, it, st) \<Rightarrow>
          let at = PB_ATYPE (f_type (it_field it)) in
          map_option (\<lambda>(ok, st). (ok, it, st))
            (if at = PB_ATYPE_STATIC then decode_static_field env calls n wire_type it st
             else if at = PB_ATYPE_POINTER then decode_pointer_field env calls n wire_type it st
             else if at = PB_ATYPE_CALLBACK then decode_callback_field env n wire_type it st
             else Some (d_error ''invalid field type'' st)))"

section \<open>Extensions\<close>

definition default_extension_decoder :: "'s dec_env \<Rightarrow> 's sub_calls \<Rightarrow> nat \<Rightarrow> addr \<Rightarrow> u32 \<Rightarrow> u32 \<Rightarrow> 's dstate \<Rightarrow>
    (bool \<times> 's dstate) option" where
  "default_extension_decoder env calls n ext tag wire_type st =
     (let field = field_at (xt_arg (v_ext_type env (load 8 (d_mem st) ext))) 0 in
      if f_tag field \<noteq> tag then Some (True, st)
      else
        let it = iter_from_extension env st ext; st = d_store 1 (ext + 24) 1 st
        in map_option (\<lambda>(ok, it, st). (ok, st)) (decode_field env calls n wire_type it st))"

text \<open>The list is searched while the stream is where it was at the start.\<close>

primrec decode_extension_loop :: "'s dec_env \<Rightarrow> 's sub_calls \<Rightarrow> nat \<Rightarrow> u32 \<Rightarrow> u32 \<Rightarrow> nat \<Rightarrow> nat \<Rightarrow> addr \<Rightarrow> 's dstate \<Rightarrow>
    (bool \<times> 's dstate) option" where
  "decode_extension_loop env calls n tag wire_type pos 0 ext st =
     (if ext \<noteq> 0 \<and> pos = bytes_left (d_in st) then None else Some (True, st))"
| "decode_extension_loop env calls n tag wire_type pos (Suc k) ext st =
     (if ext \<noteq> 0 \<and> pos = bytes_left (d_in st) then
        chkF (case xt_decode (v_ext_type env (load 8 (d_mem st) ext)) of
                Some f \<Rightarrow> Some (f st ext tag wire_type)
              | None \<Rightarrow> default_extension_decoder env calls n ext tag wire_type st)
          (\<lambda>st. decode_extension_loop env calls n tag wire_type pos k (load 8 (d_mem st) (ext + 16)) st)
      else Some (True, st))"

definition decode_extension :: "'s dec_env \<Rightarrow> 's sub_calls \<Rightarrow> nat \<Rightarrow> u32 \<Rightarrow> u32 \<Rightarrow> pb_field_iter \<Rightarrow> 's dstate \<Rightarrow>
    (bool \<times> 's dstate) option" where
  "decode_extension env calls n tag wire_type it st =
     decode_extension_loop env calls n tag wire_type (bytes_left (d_in st)) n
       (load 8 (d_mem st) (it_pData it)) st"

partial_function (option) find_extension_loop :: "nat \<Rightarrow> pb_field_iter \<Rightarrow> (bool \<times> pb_field_iter) option" where
  "find_extension_loop start it =
     (if PB_LTYPE (f_type (it_field it)) = PB_LTYPE_EXTENSION then Some (True, it)
      else
        let it' = snd (pb_field_iter_next it) in
        if it_pos it' \<noteq> start then find_extension_loop start it' else Some (False, it'))"

definition find_extension_field :: "pb_field_iter \<Rightarrow> (bool \<times> pb_field_iter) option" where
  "find_extension_field it = find_extension_loop (it_pos it) it"

section \<open>All fields of a message\<close>

text \<open>The locals of \<open>pb_decode_noinit\<close>; \<open>fixed_count_size\<close> is the \<open>d_fcount\<close> of the state.\<close>

record noinit_locals =
  n_iter :: pb_field_iter
  n_seen :: "u32 list"
  n_ext_start :: u32
  n_fixed :: "nat option"

text \<open>What a field without a match in the descriptor does: extensions first, then skipping.\<close>

definition decode_unknown :: "'s dec_env \<Rightarrow> 's sub_calls \<Rightarrow> nat \<Rightarrow> u32 \<Rightarrow> u32 \<Rightarrow> noinit_locals \<Rightarrow> 's dstate \<Rightarrow>
    (bool \<times> noinit_locals \<times> 's dstate) option" where
  "decode_unknown env calls n tag wire_type lo st =
     (let skip = (\<lambda>lo st. case on_stream (\<lambda>s. pb_skip_field s wire_type) st of (r, st) \<Rightarrow>
                    Some (r \<noteq> None, lo, st))
      in
      if tag \<ge> n_ext_start lo then
        case find_extension_field (n_iter lo) of
          None \<Rightarrow> None
        | Some (found, it) \<Rightarrow>
            let start = (if found then f_tag (it_field it) else 0xFFFFFFFF);
                lo = lo\<lparr>n_iter := it, n_ext_start := start\<rparr>
            in
            if tag \<ge> start then
              case decode_extension env calls n tag wire_type it st of
                None \<Rightarrow> None
              | Some (False, st) \<Rightarrow> Some (False, lo, st)
              | Some (True, st') \<Rightarrow>
                  if bytes_left (d_in st) \<noteq> bytes_left (d_in st') then Some (True, lo, st')
                  else skip lo st'
            else skip lo st
      else skip lo st)"

definition fixed_incomplete :: "noinit_locals \<Rightarrow> 's dstate \<Rightarrow> bool" where
  "fixed_incomplete lo st =
     (case n_fixed lo of
        None \<Rightarrow> False
      | Some p \<Rightarrow> d_fcount st \<noteq> unat (f_array_size (field_at (it_start (n_iter lo)) p)))"

definition decode_known :: "'s dec_env \<Rightarrow> 's sub_calls \<Rightarrow> nat \<Rightarrow> u32 \<Rightarrow> noinit_locals \<Rightarrow> 's dstate \<Rightarrow>
    (bool \<times> noinit_locals \<times> 's dstate) option" where
  "decode_known env calls n wire_type lo st =
     (let it = n_iter lo; ty = f_type (it_field it);
          fixed = (PB_HTYPE ty = PB_HTYPE_REPEATED \<and> it_pSize it = PMem (it_pData it));
          new_fixed = (fixed \<and> n_fixed lo \<noteq> Some (it_pos it))
      in
      if new_fixed \<and> fixed_incomplete lo st
      then (case d_error ''wrong size for fixed count field'' st of (ok, st) \<Rightarrow> Some (ok, lo, st))
      else
        let st = (if new_fixed then st\<lparr>d_fcount := 0\<rparr> else st);
            lo = (if new_fixed then lo\<lparr>n_fixed := Some (it_pos it)\<rparr> else lo);
            it = (if fixed then it\<lparr>it_pSize := PFixedCount\<rparr> else it);
            req = it_req it;
            lo = (if PB_HTYPE ty = PB_HTYPE_REQUIRED \<and> req < 64
                  then lo\<lparr>n_seen := (n_seen lo)[req div 32 := n_seen lo ! (req div 32) OR push_bit (req mod 32) 1]\<rparr>
                  else lo)
        in map_option (\<lambda>(ok, it, st). (ok, lo\<lparr>n_iter := it\<rparr>, st)) (decode_field env calls n wire_type it st))"

text \<open>The loop \<open>while (stream->bytes_left)\<close>; it ends the message early on a zero tag.\<close>

primrec noinit_loop :: "'s dec_env \<Rightarrow> 's sub_calls \<Rightarrow> nat \<Rightarrow> nat \<Rightarrow> noinit_locals \<Rightarrow> 's dstate \<Rightarrow>
    (bool \<times> noinit_locals \<times> 's dstate) option" where
  "noinit_loop env calls n 0 lo st = (if bytes_left (d_in st) \<noteq> 0 then None else Some (True, lo, st))"
| "noinit_loop env calls n (Suc k) lo st =
     (if bytes_left (d_in st) = 0 then Some (True, lo, st)
      else
        case pb_decode_tag (d_in st) of
          (None, eof, s) \<Rightarrow> Some (eof, lo, st\<lparr>d_in := s\<rparr>)
        | (Some (wire_type, tag), eof, s) \<Rightarrow>
            let st = st\<lparr>d_in := s\<rparr> in
            case pb_field_iter_find tag (n_iter lo) of
              None \<Rightarrow> None
            | Some (found, it) \<Rightarrow>
                let lo = lo\<lparr>n_iter := it\<rparr> in
                case (if found then decode_known env calls n wire_type lo st
                      else decode_unknown env calls n tag wire_type lo st) of
                  None \<Rightarrow> None
                | Some (False, lo, st) \<Rightarrow> Some (False, lo, st)
                | Some (True, lo, st) \<Rightarrow> noinit_loop env calls n k lo st)"

text \<open>The iterator on the last field, and what \<open>pb_field_iter_next\<close> makes of it.\<close>

definition seek_end :: "pb_field_iter \<Rightarrow> (nat \<times> u8 \<times> pb_field_iter) option" where
  "seek_end it =
     (case do_fields (\<lambda>it _. Some (True, it)) it it of
        None \<Rightarrow> None
      | Some (_, end_it) \<Rightarrow>
          Some (it_req end_it, f_type (it_field end_it), snd (pb_field_iter_next end_it)))"

definition required_seen :: "nat \<Rightarrow> u32 list \<Rightarrow> bool" where
  "required_seen req_field_count seen =
     (list_all (\<lambda>i. seen ! i = 0xFFFFFFFF) [0..<req_field_count div 32] \<and>
      (req_field_count mod 32 \<noteq> 0 \<longrightarrow>
         seen ! (req_field_count div 32) = drop_bit (32 - req_field_count mod 32) 0xFFFFFFFF))"

definition check_required :: "noinit_locals \<Rightarrow> 's dstate \<Rightarrow> (bool \<times> 's dstate) option" where
  "check_required lo st =
     (case seek_end (n_iter lo) of
        None \<Rightarrow> None
      | Some (req, last_type, it) \<Rightarrow>
          let req = (if PB_HTYPE last_type = PB_HTYPE_REQUIRED \<and> f_tag (it_field it) \<noteq> 0 then req + 1 else req);
              req = (if req > 64 then 64 else req)
          in if req > 0 \<and> \<not> required_seen req (n_seen lo)
             then Some (d_error ''missing required field'' st) else Some (True, st))"

definition noinit_body :: "'s dec_env \<Rightarrow> 's sub_calls \<Rightarrow> nat \<Rightarrow> 's msg_decoder" where
  "noinit_body env calls n flds dest st =
     (let lo = \<lparr>n_iter = snd (pb_field_iter_begin flds dest), n_seen = [0, 0], n_ext_start = 0, n_fixed = None\<rparr>
      in case noinit_loop env calls n (bytes_left (d_in st)) lo (st\<lparr>d_fcount := 0\<rparr>) of
           None \<Rightarrow> None
         | Some (False, lo, st) \<Rightarrow> Some (False, st)
         | Some (True, lo, st) \<Rightarrow>
             if fixed_incomplete lo st then Some (d_error ''wrong size for fixed count field'' st)
             else check_required lo st)"

text \<open>The local counter of the caller is what it was when the call returns.\<close>

definition frame_noinit :: "'s msg_decoder \<Rightarrow> 's msg_decoder" where
  "frame_noinit body flds dest st =
     map_option (\<lambda>(ok, st'). (ok, st'\<lparr>d_fcount := d_fcount st\<rparr>)) (body flds dest st)"

definition decode_body :: "'s dec_env \<Rightarrow> nat \<Rightarrow> 's msg_decoder \<Rightarrow> 's msg_decoder" where
  "decode_body env n noinit flds dest st =
     (case pb_message_set_to_defaults env n flds dest st of
        None \<Rightarrow> None
      | Some st \<Rightarrow>
          (case noinit flds dest st of
             None \<Rightarrow> None
           | Some (True, st) \<Rightarrow> Some (True, st)
           | Some (False, st) \<Rightarrow> map_option (Pair False) (pb_release env n flds dest st)))"

primrec pb_decode_noinit :: "'s dec_env \<Rightarrow> nat \<Rightarrow> 's msg_decoder" where
  "pb_decode_noinit env 0 = (\<lambda>flds dest st. None)"
| "pb_decode_noinit env (Suc n) = frame_noinit (noinit_body env
     \<lparr>c_noinit = pb_decode_noinit env n, c_decode = decode_body env n (pb_decode_noinit env n)\<rparr> n)"

definition pb_decode :: "'s dec_env \<Rightarrow> nat \<Rightarrow> 's msg_decoder" where
  "pb_decode env n = decode_body env n (pb_decode_noinit env n)"

definition delimited :: "'s msg_decoder \<Rightarrow> 's msg_decoder" where
  "delimited call flds dest st =
     (case on_stream pb_make_string_substream st of
        (None, st) \<Rightarrow> Some (False, st)
      | (Some sub, st) \<Rightarrow> map_option (close_sub (d_in st)) (call flds dest (st\<lparr>d_in := sub\<rparr>)))"

definition pb_decode_delimited_noinit :: "'s dec_env \<Rightarrow> nat \<Rightarrow> 's msg_decoder" where
  "pb_decode_delimited_noinit env n = delimited (pb_decode_noinit env n)"

definition pb_decode_delimited :: "'s dec_env \<Rightarrow> nat \<Rightarrow> 's msg_decoder" where
  "pb_decode_delimited env n = delimited (pb_decode env n)"

definition pb_decode_nullterminated :: "'s dec_env \<Rightarrow> nat \<Rightarrow> 's msg_decoder" where
  "pb_decode_nullterminated = pb_decode"

end
