(* ===== verification/PbRegion.thy ===== *)
theory PbRegion imports PbDecode begin

text \<open>
  Two facts every operation of the decoder has: it only consumes its stream (\<open>frugal\<close>, and
  \<open>eats\<close> when success uses up a byte), and it writes inside a region of the memory only (\<open>inside\<close>,
  with the stream \<open>safe\<close>, and \<open>runs\<close> when the call also returns). Here they are proved of the
  wire-level decoders and of the decoders of single values.
\<close>

section \<open>Streams are only consumed\<close>

text \<open>
  \<open>within src b src' b'\<close>: a stream with source \<open>src\<close> and \<open>b\<close> bytes left gets to \<open>src'\<close> with \<open>b'\<close> bytes
  left by calls of the read callback, none of which asks for more than the bytes that are left at that moment,
  and every call that delivers uses up the bytes it was asked for. Bytes may also be given up unread.
\<close>

inductive within :: "'s isource \<Rightarrow> nat \<Rightarrow> 's isource \<Rightarrow> nat \<Rightarrow> bool" where
  within_same: "b' \<le> b \<Longrightarrow> within src b src b'"
| within_call: "\<lbrakk>k \<le> b; i_callback src k = (r, mid); left + (case r of ReadOk bs \<Rightarrow> k | _ \<Rightarrow> 0) \<le> b;
    within mid left src' b'\<rbrakk> \<Longrightarrow> within src b src' b'"

definition consumes :: "'s istream \<Rightarrow> 's istream \<Rightarrow> bool" where
  "consumes s s' \<longleftrightarrow> within (i_source s) (bytes_left s) (i_source s') (bytes_left s')"

lemma within_left: "within src b src' b' \<Longrightarrow> b' \<le> b"
  by (induction rule: within.induct) auto

lemma within_more: "within src b src' b' \<Longrightarrow> b \<le> c \<Longrightarrow> within src c src' b'"
proof (induction rule: within.induct)
  case (within_same b' b src)
  then show ?case by (simp add: within.within_same)
next
  case (within_call k b src r mid left src' b')
  then show ?case using within.within_call [of k c src r mid left src' b'] by auto
qed

lemma within_trans: "within src b src' b' \<Longrightarrow> within src' b' src'' b'' \<Longrightarrow> within src b src'' b''"
proof (induction rule: within.induct)
  case (within_same b' b src)
  then show ?case by (blast intro: within_more)
next
  case (within_call k b src r mid left src' b')
  then show ?case by (blast intro: within.within_call)
qed

text \<open>With \<open>c\<close> more bytes behind the end, they stay unread.\<close>

lemma within_plus: "within src b src' b' \<Longrightarrow> within src (b + c) src' (b' + c)"
proof (induction rule: within.induct)
  case (within_same b' b src)
  then show ?case by (simp add: within.within_same)
next
  case (within_call k b src r mid left src' b')
  then show ?case using within.within_call [of k "b + c" src r mid "left + c" src' "b' + c"] by auto
qed

text \<open>On a buffer the position has moved by at most the bytes that were used up.\<close>

lemma within_buffer: "within src b src' b' \<Longrightarrow> src = BufSource bs \<Longrightarrow> \<exists>k. src' = BufSource (drop k bs) \<and> k + b' \<le> b"
proof (induction arbitrary: bs rule: within.induct)
  case (within_same b' b src)
  then show ?case by (intro exI [of _ 0]) simp
next
  case (within_call k b src r mid left src' b')
  then have "r = ReadOk (fill k bs)" "mid = BufSource (drop k bs)" by (auto simp: buf_read_def)
  with within_call.IH [of "drop k bs"] obtain j where "src' = BufSource (drop (j + k) bs)" "j + b' \<le> left" by auto
  then show ?case using \<open>r = _\<close> within_call.hyps(3) by (intro exI [of _ "j + k"]) auto
qed

lemma consumes_refl [simp, intro]: "consumes s s"
  by (simp add: consumes_def within_same)

lemma consumes_trans: "consumes s s' \<Longrightarrow> consumes s' s'' \<Longrightarrow> consumes s s''"
  unfolding consumes_def by (rule within_trans)

lemma consumes_left: "consumes s s' \<Longrightarrow> bytes_left s' \<le> bytes_left s"
  unfolding consumes_def by (rule within_left)

lemma consumes_error [simp]: "consumes s (i_set_error m s') = consumes s s'" "consumes (i_set_error m s) s' = consumes s s'"
  by (simp_all add: consumes_def i_set_error_def)

lemma consumes_errmsg [simp]: "consumes s (s'\<lparr>i_errmsg := e\<rparr>) = consumes s s'"
  by (simp add: consumes_def)

text \<open>One call of the callback, as \<open>pb_read\<close> and \<open>pb_readbyte\<close> make it.\<close>

lemma consumes_call:
  assumes "n \<le> bytes_left s" and "i_callback (i_source s) n = (r, src)"
    and "b + (case r of ReadOk bs \<Rightarrow> n | _ \<Rightarrow> 0) \<le> bytes_left s"
  shows "consumes s (s\<lparr>i_source := src, bytes_left := b\<rparr>)"
  unfolding consumes_def using within_call [OF assms within_same [OF order_refl]] by simp

lemma consumes_failed:
  assumes "n \<le> bytes_left s" and "i_callback (i_source s) n = (ReadFail, src)"
  shows "consumes s (s\<lparr>i_source := src\<rparr>)"
  using consumes_call [OF assms, of "bytes_left s"] by (simp add: consumes_def)

definition frugal :: "('s istream \<Rightarrow> 'a option \<times> 's istream) \<Rightarrow> bool" where
  "frugal f \<longleftrightarrow> (\<forall>s r s'. f s = (r, s') \<longrightarrow> consumes s s')"

definition eats :: "('s istream \<Rightarrow> 'a option \<times> 's istream) \<Rightarrow> bool" where
  "eats f \<longleftrightarrow> (\<forall>s v s'. f s = (Some v, s') \<longrightarrow> bytes_left s' < bytes_left s)"

named_theorems frugal_intros \<open>operations that only consume their stream\<close>

lemma frugal_consumes: "frugal f \<Longrightarrow> f s = (r, s') \<Longrightarrow> consumes s s'"
  by (auto simp: frugal_def)

lemma frugalD: "frugal f \<Longrightarrow> f s = (r, s') \<Longrightarrow> bytes_left s' \<le> bytes_left s"
  by (blast dest: frugal_consumes consumes_left)

lemma eatsD: "eats f \<Longrightarrow> f s = (Some v, s') \<Longrightarrow> bytes_left s' < bytes_left s"
  by (auto simp: eats_def)

lemma frugal_bnd [frugal_intros]: "frugal f \<Longrightarrow> (\<And>a. frugal (g a)) \<Longrightarrow> frugal (\<lambda>s. bnd (f s) g)"
  unfolding frugal_def bnd_def by (fastforce split: prod.splits option.splits intro: consumes_trans)

lemma eats_bnd:
  assumes "eats f" and "\<And>a. frugal (g a)"
  shows "eats (\<lambda>s. bnd (f s) g)"
proof -
  have "bytes_left s2 < bytes_left s" if "f s = (Some a, s1)" "g a s1 = (Some v, s2)" for s a s1 v s2
    using eatsD [OF assms(1) that(1)] frugalD [OF assms(2) that(2)] by simp
  then show ?thesis unfolding eats_def bnd_def by (fastforce split: prod.splits option.splits)
qed

lemma frugal_ret [frugal_intros]: "frugal (\<lambda>s. (r, s))"
  by (simp add: frugal_def)

lemma frugal_error [frugal_intros]: "frugal (i_error msg)" "frugal (\<lambda>s. i_error msg s)"
  by (simp_all add: frugal_def i_error_def)

lemma frugal_if [frugal_intros]: "(b \<Longrightarrow> frugal f) \<Longrightarrow> (\<not> b \<Longrightarrow> frugal g) \<Longrightarrow> frugal (\<lambda>s. if b then f s else g s)"
  by (cases b) simp_all

lemma frugal_read [frugal_intros]: "frugal (\<lambda>s. pb_read s n)"
  by (auto simp: frugal_def pb_read_def i_error_def split: if_splits prod.splits read_result.splits
      intro!: consumes_call [where n = n] consumes_failed [where n = n])

lemma frugal_readbyte [frugal_intros]: "frugal pb_readbyte"
  by (auto simp: frugal_def pb_readbyte_def i_error_def split: if_splits prod.splits read_result.splits
      intro!: consumes_call [where n = 1] consumes_failed [where n = 1])

lemma eats_readbyte: "eats pb_readbyte"
  by (auto simp: eats_def dest: readbyte_left)

lemma eats_read: "0 < n \<Longrightarrow> eats (\<lambda>s. pb_read s n)"
  by (auto simp: eats_def dest: read_left)

text \<open>A loop is frugal when its body is, by induction on its recursion.\<close>

lemma bnd_frugal_step:
  assumes "frugal f" and "\<And>a s1. f s = (Some a, s1) \<Longrightarrow> consumes s1 (snd (g a s1))"
  shows "consumes s (snd (bnd (f s) g))"
  using assms frugal_consumes [OF assms(1), of s]
  by (fastforce simp: bnd_def split: prod.splits option.splits intro: consumes_trans)

lemma error_left [simp]: "bytes_left (i_set_error m s) = bytes_left s" "bytes_left (snd (i_error m s)) = bytes_left s"
  by (simp_all add: i_error_def i_set_error_def)

lemma consumes_i_error [simp]: "consumes s (snd (i_error m s'))  = consumes s s'"
  by (simp add: i_error_def)

lemma frugal_snd: "frugal f \<longleftrightarrow> (\<forall>s. consumes s (snd (f s)))"
  unfolding frugal_def by (metis prod.collapse snd_conv)

lemma frugal_varint_loop [frugal_intros]: "frugal (\<lambda>s :: 's istream. varint_loop s p r)"
proof -
  have "consumes s (snd (varint_loop s p r))" for s :: "'s istream" and p r
  proof (induction s p r rule: varint_loop.induct)
    case (1 s p r)
    show ?case
      by (subst varint_loop.simps) (auto simp: Let_def intro!: bnd_frugal_step frugal_intros 1)
  qed
  then show ?thesis by (simp add: frugal_snd)
qed

lemma frugal_varint32_loop [frugal_intros]: "frugal (\<lambda>s :: 's istream. varint32_loop s p r)"
proof -
  have "consumes s (snd (varint32_loop s p r))" for s :: "'s istream" and p r
  proof (induction s p r rule: varint32_loop.induct)
    case (1 s p r)
    show ?case
      by (subst varint32_loop.simps) (intro bnd_frugal_step frugal_intros, auto simp: Let_def intro!: 1)
  qed
  then show ?thesis by (simp add: frugal_snd)
qed

lemma frugal_skip_varint [frugal_intros]: "frugal (pb_skip_varint :: 's istream \<Rightarrow> _)"
proof -
  have "consumes s (snd (pb_skip_varint s))" for s :: "'s istream"
  proof (induction s rule: pb_skip_varint.induct)
    case (1 s)
    show ?case by (subst pb_skip_varint.simps) (intro bnd_frugal_step frugal_intros, auto intro!: 1)
  qed
  then show ?thesis by (simp add: frugal_snd)
qed

lemma frugal_skip_loop [frugal_intros]: "frugal (\<lambda>s :: 's istream. skip_loop s n)"
proof -
  have "consumes s (snd (skip_loop s n))" for s :: "'s istream" and n
  proof (induction s n rule: skip_loop.induct)
    case (1 s n)
    show ?case
      by (subst skip_loop.simps) (auto intro!: bnd_frugal_step frugal_intros 1)
  qed
  then show ?thesis by (simp add: frugal_snd)
qed

lemma frugal_varint [frugal_intros]: "frugal pb_decode_varint"
  unfolding pb_decode_varint_def by (rule frugal_varint_loop)

lemma eats_varint: "eats pb_decode_varint"
proof -
  have "eats (\<lambda>s :: 's istream. bnd (pb_readbyte s) (\<lambda>byte s.
     let result = 0 OR push_bit (unat (0 :: u8)) (ucast (byte AND 0x7F)); bitpos = 0 + 7
     in if byte AND 0x80 \<noteq> 0 then varint_loop s bitpos result else (Some result, s)))"
    by (rule eats_bnd [OF eats_readbyte]) (auto simp: Let_def intro!: frugal_intros)
  then show ?thesis by (simp add: eats_def pb_decode_varint_def varint_loop.simps [of _ 0 0])
qed

lemma varint32_eof_bnd:
  "pb_decode_varint32 s = bnd (pb_readbyte s) (\<lambda>byte s.
     if byte AND 0x80 = 0 then (Some (ucast byte), s) else varint32_loop s 7 (ucast (byte AND 0x7F)))"
  by (auto simp: pb_decode_varint32_def pb_decode_varint32_eof_def bnd_def split: prod.splits option.splits)

lemma frugal_varint32 [frugal_intros]: "frugal pb_decode_varint32"
  unfolding varint32_eof_bnd [abs_def] by (intro frugal_intros)

lemma eats_varint32: "eats pb_decode_varint32"
  unfolding varint32_eof_bnd [abs_def] by (intro eats_bnd eats_readbyte frugal_intros)

lemma frugal_svarint [frugal_intros]: "frugal pb_decode_svarint"
  unfolding pb_decode_svarint_def [abs_def] by (intro frugal_intros)

lemma eats_svarint: "eats pb_decode_svarint"
  unfolding pb_decode_svarint_def [abs_def] by (intro eats_bnd eats_varint frugal_intros)

lemma frugal_fixed [frugal_intros]: "frugal pb_decode_fixed32" "frugal pb_decode_fixed64"
  unfolding pb_decode_fixed32_def [abs_def] pb_decode_fixed64_def [abs_def] by (intro frugal_intros)+

lemma eats_fixed: "eats pb_decode_fixed32" "eats pb_decode_fixed64"
  unfolding pb_decode_fixed32_def [abs_def] pb_decode_fixed64_def [abs_def]
  by (intro eats_bnd eats_read frugal_intros; simp)+

lemma frugal_read_null [frugal_intros]: "frugal (\<lambda>s :: 's istream. pb_read_null s n)"
proof -
  have "frugal (\<lambda>s :: 's istream. bnd (pb_read s n) (\<lambda>_ s. (Some (), s)))" by (intro frugal_intros)
  then show ?thesis using frugal_skip_loop [of n] by (auto simp: pb_read_null_def frugal_snd)
qed

lemma frugal_skip_field [frugal_intros]: "frugal (\<lambda>s. pb_skip_field s wt)"
  unfolding pb_skip_field_def pb_skip_string_def [abs_def] by (intro frugal_intros)

text \<open>Tags: the stream is used and the number is a field number.\<close>

lemma decode_tag_left:
  assumes "pb_decode_tag s = (r, eof, s')"
  shows "consumes s s'" and "r = Some (wt, tag) \<Longrightarrow> bytes_left s' < bytes_left s \<and> unat tag < 2 ^ 29"
proof -
  obtain r32 e s1 where d: "pb_decode_varint32_eof s = (r32, e, s1)" by (metis prod_cases3)
  then have v: "pb_decode_varint32 s = (r32, s1)" by (simp add: pb_decode_varint32_def)
  have s': "s' = s1" using assms d by (auto simp: pb_decode_tag_def split: option.splits if_splits)
  show "consumes s s'" using frugal_consumes [OF frugal_varint32 v] s' by simp
  assume "r = Some (wt, tag)"
  with assms d obtain temp where "r32 = Some temp" and t: "tag = drop_bit 3 temp"
    by (auto simp: pb_decode_tag_def split: option.splits if_splits)
  moreover have "unat temp < 2 ^ 32" by (rule less_le_trans [OF unat_u32_lt]) simp
  then have "unat tag < 2 ^ 29" unfolding t unat_drop_bit by (simp add: div_less_iff_less_mult)
  ultimately show "bytes_left s' < bytes_left s \<and> unat tag < 2 ^ 29"
    using eatsD [OF eats_varint32] v s' by simp
qed

section \<open>Writing inside a region\<close>

abbreviation span :: "addr \<Rightarrow> nat \<Rightarrow> addr set" where
  "span a n \<equiv> {a..<a + n}"

text \<open>Nothing outside of \<open>S\<close> has changed, and the heap is the same.\<close>

definition inside :: "addr set \<Rightarrow> 's dstate \<Rightarrow> 's dstate \<Rightarrow> bool" where
  "inside S st st' \<longleftrightarrow> (\<forall>a. a \<notin> S \<longrightarrow> d_mem st' a = d_mem st a) \<and> d_live st' = d_live st \<and>
     d_brk st' = d_brk st \<and> d_limit st' = d_limit st \<and> d_fault st' = d_fault st"

definition safe :: "addr set \<Rightarrow> 's dstate \<Rightarrow> 's dstate \<Rightarrow> bool" where
  "safe S st st' \<longleftrightarrow> inside S st st' \<and> consumes (d_in st) (d_in st')"

definition runs :: "addr set \<Rightarrow> 's dstate \<Rightarrow> (bool \<times> 's dstate) option \<Rightarrow> bool" where
  "runs S st r \<longleftrightarrow> (\<exists>ok st'. r = Some (ok, st') \<and> safe S st st')"

named_theorems safe_intros \<open>operations that stay inside a region\<close>

lemma inside_refl [simp, intro]: "inside S st st"
  by (simp add: inside_def)

lemma inside_trans: "inside S st st' \<Longrightarrow> inside S st' st'' \<Longrightarrow> inside S st st''"
  by (simp add: inside_def)

lemma safe_refl [simp, intro]: "safe S st st"
  by (simp add: safe_def)

lemma safe_trans: "safe S st st' \<Longrightarrow> safe S st' st'' \<Longrightarrow> safe S st st''"
  by (auto simp: safe_def intro: inside_trans consumes_trans)

lemma inside_mono: "inside S st st' \<Longrightarrow> S \<subseteq> T \<Longrightarrow> inside T st st'"
  by (auto simp: inside_def)

lemma safe_left: "safe S st st' \<Longrightarrow> bytes_left (d_in st') \<le> bytes_left (d_in st)"
  by (simp add: safe_def consumes_left)

lemma safe_mono: "safe S st st' \<Longrightarrow> S \<subseteq> T \<Longrightarrow> safe T st st'"
  by (auto simp: safe_def inside_def)

lemma runs_mono: "runs S st r \<Longrightarrow> S \<subseteq> T \<Longrightarrow> runs T st r"
  by (auto simp: runs_def intro: safe_mono)

lemma runs_Some: "runs S st (Some (ok, st')) \<longleftrightarrow> safe S st st'"
  by (simp add: runs_def)

lemma runsD: "runs S st r \<Longrightarrow> \<exists>ok st'. r = Some (ok, st') \<and> safe S st st'"
  by (simp add: runs_def)

text \<open>Changes of the stream do not matter for the memory.\<close>

lemma inside_in [simp]: "inside S st (st'\<lparr>d_in := s\<rparr>) \<longleftrightarrow> inside S st st'" "inside S (st\<lparr>d_in := s\<rparr>) st' \<longleftrightarrow> inside S st st'"
  "inside S st (st'\<lparr>d_fcount := n\<rparr>) \<longleftrightarrow> inside S st st'" "inside S (st\<lparr>d_fcount := n\<rparr>) st' \<longleftrightarrow> inside S st st'"
  by (simp_all add: inside_def)

lemma safe_fcount [simp]: "safe S st (st'\<lparr>d_fcount := n\<rparr>) \<longleftrightarrow> safe S st st'" "safe S (st\<lparr>d_fcount := n\<rparr>) st' \<longleftrightarrow> safe S st st'"
  by (simp_all add: safe_def)

lemma inside_mem_write: "span a (length bs) \<subseteq> S \<Longrightarrow> inside S st (st\<lparr>d_mem := mem_write (d_mem st) a bs\<rparr>)"
  by (auto simp: inside_def mem_write_apply subset_iff)

lemma d_in_writes [simp]: "d_in (d_store n a v st) = d_in st" "d_in (d_memset0 a n st) = d_in st"
  "d_in (psize_write p v st) = d_in st"
  by (simp_all add: d_store_def d_memset0_def psize_write_def split: psize.split)

lemma safe_store: "span a n \<subseteq> S \<Longrightarrow> safe S st (d_store n a v st)"
  unfolding safe_def d_store_def store_def by (simp add: inside_mem_write)

lemma safe_memset: "span a n \<subseteq> S \<Longrightarrow> safe S st (d_memset0 a n st)"
  unfolding safe_def d_memset0_def by (simp add: inside_mem_write)

definition psize_in :: "psize \<Rightarrow> nat \<Rightarrow> addr set \<Rightarrow> bool" where
  "psize_in p n S = (case p of PMem a \<Rightarrow> span a n \<subseteq> S | PFixedCount \<Rightarrow> True)"

lemma safe_psize: "psize_in p 4 S \<Longrightarrow> safe S st (psize_write p v st)"
  by (auto simp: psize_in_def psize_write_def safe_store split: psize.splits)

lemma safe_d_error: "d_error msg st = (ok, st') \<Longrightarrow> safe S st st'"
  by (auto simp: d_error_def safe_def)

lemma runs_d_error [safe_intros]: "runs S st (Some (d_error msg st))"
  by (simp add: d_error_def runs_Some safe_def)

lemma runs_ret [safe_intros]: "runs S st (Some (ok, st))"
  by (simp add: runs_Some)

lemma runs_after: "safe S st st1 \<Longrightarrow> runs S st1 r \<Longrightarrow> runs S st r"
  by (auto simp: runs_def intro: safe_trans)

lemma runs_chkF: "runs S st r \<Longrightarrow> (\<And>st1. r = Some (True, st1) \<Longrightarrow> safe S st st1 \<Longrightarrow> runs S st1 (f st1)) \<Longrightarrow> runs S st (chkF r f)"
  by (auto simp: runs_def chkF_def intro: safe_trans split: option.splits) (blast intro: safe_trans)

text \<open>Reading from the stream of the state.\<close>

lemma on_stream_safe:
  assumes "frugal f" and "on_stream f st = (r, st')"
  shows "safe S st st'"
  using assms(2) frugal_consumes [OF assms(1), of "d_in st"]
  by (auto simp: on_stream_def safe_def split: prod.splits)

lemma on_stream_eats:
  assumes "eats f" and "on_stream f st = (Some v, st')"
  shows "bytes_left (d_in st') < bytes_left (d_in st)"
  using assms(2) eatsD [OF assms(1), of "d_in st"] by (auto simp: on_stream_def split: prod.splits)

lemma runs_on_stream:
  assumes "frugal f" and "\<And>v st1. on_stream f st = (Some v, st1) \<Longrightarrow> runs S st1 (g v st1)"
  shows "runs S st (case on_stream f st of (None, st) \<Rightarrow> Some (False, st) | (Some v, st) \<Rightarrow> g v st)"
proof (cases "on_stream f st")
  case (Pair r st1)
  note s = on_stream_safe [OF assms(1) Pair, of S]
  show ?thesis
  proof (cases r)
    case None
    then show ?thesis using s Pair by (simp add: runs_Some)
  next
    case (Some v)
    then show ?thesis using runs_after [OF s] assms(2) Pair by simp
  qed
qed

lemma read_mem_safe:
  assumes "span dest n \<subseteq> S"
  shows "runs S st (Some (read_mem n dest st))"
proof (cases "pb_read (d_in st) n")
  case (Pair r s)
  have l: "length bs = n" if "r = Some bs" for bs
    using Pair that by (auto simp: pb_read_def fill_def i_error_def split: if_splits prod.splits read_result.splits)
  have "inside S st (st\<lparr>d_in := s, d_mem := mem_write (d_mem st) dest bs\<rparr>)" if "r = Some bs" for bs
    using inside_mem_write [of dest bs S st] assms l [OF that] by (simp add: inside_def)
  then show ?thesis using Pair frugal_consumes [OF frugal_read Pair]
    by (cases r) (auto simp: read_mem_def on_stream_def runs_def safe_def)
qed

section \<open>Field decoders\<close>

text \<open>An entry of a field: the types with a size of their own fit into \<open>data_size\<close>.\<close>

definition entry_ok :: "pb_field \<Rightarrow> bool" where
  "entry_ok f \<longleftrightarrow> (let lt = PB_LTYPE (f_type f) in
     lt \<le> PB_LTYPE_FIXED_LENGTH_BYTES \<and> lt \<noteq> PB_LTYPE_EXTENSION \<and>
     (lt = PB_LTYPE_FIXED32 \<longrightarrow> 4 \<le> f_data_size f) \<and> (lt = PB_LTYPE_FIXED64 \<longrightarrow> 8 \<le> f_data_size f) \<and>
     PB_ATYPE (f_type f) = PB_ATYPE_STATIC)"

lemma store_clamped_safe:
  assumes "span dest (unat (f_data_size field)) \<subseteq> S"
  shows "runs S st (Some (store_clamped narrow field dest v st))"
proof -
  have "safe S st (d_store (unat (f_data_size field)) dest w st)" for w by (rule safe_store [OF assms])
  then show ?thesis
    by (auto simp: store_clamped_def Let_def runs_Some runs_d_error intro!: runs_after [OF _ runs_d_error]
        split: option.split)
qed

lemma scalar_safe:
  assumes "span dest (unat (f_data_size field)) \<subseteq> S"
  shows "runs S st (pb_dec_varint st field dest)" "runs S st (pb_dec_uvarint st field dest)"
    "runs S st (pb_dec_svarint st field dest)"
  unfolding pb_dec_varint_def pb_dec_uvarint_def pb_dec_svarint_def Let_def
  by (intro runs_on_stream frugal_intros store_clamped_safe assms)+

lemma fixed_safe:
  "span dest 4 \<subseteq> S \<Longrightarrow> runs S st (pb_dec_fixed32 st field dest)"
  "span dest 8 \<subseteq> S \<Longrightarrow> runs S st (pb_dec_fixed64 st field dest)"
  unfolding pb_dec_fixed32_def pb_dec_fixed64_def
  by (intro runs_on_stream frugal_intros; simp add: runs_Some safe_store)+

lemma bytes_safe:
  assumes "span dest (unat (f_data_size field)) \<subseteq> S" and "PB_ATYPE (f_type field) = PB_ATYPE_STATIC"
  shows "runs S st (pb_dec_bytes st field dest)"
  unfolding pb_dec_bytes_def Let_def
proof (intro runs_on_stream frugal_intros, goal_cases)
  case (1 sz st1)
  have "runs S st1 (Some (read_mem (unat sz) (dest + 4) (d_store 4 dest (unat sz) st1)))"
    if "unat sz + 4 \<le> unat (f_data_size field)"
    by (rule runs_after [OF safe_store read_mem_safe]) (use assms(1) that in auto)
  then show ?case using assms(2) by (simp add: runs_d_error)
qed

lemma string_safe:
  assumes "span dest (unat (f_data_size field)) \<subseteq> S" and "PB_ATYPE (f_type field) = PB_ATYPE_STATIC"
  shows "runs S st (pb_dec_string st field dest)"
  unfolding pb_dec_string_def Let_def
proof (intro runs_on_stream frugal_intros, goal_cases)
  case (1 sz st1)
  have "runs S st1 (Some (case read_mem (unat sz) dest st1 of (status, st) \<Rightarrow>
      (status, d_store 1 (dest + unat sz) 0 st)))"
    if "unat (sz + 1) \<le> unat (f_data_size field)" "\<not> unat (sz + 1) < unat sz"
  proof -
    have "sz + 1 \<noteq> 0"
    proof
      assume z: "sz + 1 = 0"
      then have "unat (sz + 1) = 0" by simp
      then have "unat sz = 0" using that(2) by simp
      then have "sz = 0" by (simp add: unat_eq_0)
      then show False using z by simp
    qed
    then have "unat (sz + 1) = Suc (unat sz)" using unatSuc [of sz] by (simp add: add.commute)
    then have sz: "Suc (unat sz) \<le> unat (f_data_size field)" using that(1) by simp
    have "span dest (unat sz) \<subseteq> S" using assms(1) sz by auto
    from runsD [OF read_mem_safe [OF this, of st1]] obtain ok st2
      where r: "read_mem (unat sz) dest st1 = (ok, st2)" "safe S st1 st2" by auto
    have "safe S st2 (d_store 1 (dest + unat sz) 0 st2)" by (rule safe_store) (use assms(1) sz in auto)
    then show ?thesis using r by (auto simp: runs_Some intro: safe_trans)
  qed
  then show ?case using assms(2) by (simp add: runs_d_error)
qed

lemma fixed_bytes_safe:
  assumes "span dest (unat (f_data_size field)) \<subseteq> S"
  shows "runs S st (pb_dec_fixed_length_bytes st field dest)"
  unfolding pb_dec_fixed_length_bytes_def
  by (intro runs_on_stream frugal_intros) (auto intro: safe_intros read_mem_safe [OF assms] simp: runs_Some safe_memset [OF assms])

end
