(* ===== verification/PbSafe.thy ===== *)
theory PbSafe imports PbRegion begin

text \<open>
  Memory safety and termination of the message decoder on messages with statically allocated
  fields. \<open>fits\<close> says that a descriptor describes a structure of a given size at a given address:
  every field with all its entries, its counter or \<open>has_\<close> flag, and recursively every submessage
  lie inside. Then \<open>pb_decode\<close> returns on every input, whatever the stream's callback does, and
  changes no byte outside the structure; the heap is left alone. A fixed-count array of less than
  four bytes does not fit: its default initialisation writes a counter over it.
\<close>

section \<open>Structures\<close>

definition lies :: "addr \<Rightarrow> nat \<Rightarrow> addr \<Rightarrow> nat \<Rightarrow> bool" where
  "lies a n dest sz \<longleftrightarrow> dest \<le> a \<and> a + n \<le> dest + sz"

lemma lies_span: "lies a n dest sz \<Longrightarrow> span a n \<subseteq> span dest sz"
  by (auto simp: lies_def)

definition entries :: "pb_field \<Rightarrow> nat" where
  "entries f = (if PB_HTYPE (f_type f) = PB_HTYPE_REPEATED then unat (f_array_size f) else 1)"

definition psize_lies :: "psize \<Rightarrow> nat \<Rightarrow> addr \<Rightarrow> nat \<Rightarrow> bool" where
  "psize_lies p n dest sz = (case p of PMem a \<Rightarrow> lies a n dest sz | PFixedCount \<Rightarrow> True)"

text \<open>The entries of the field, its counter or flag, and every submessage lie inside.\<close>

definition field_fits :: "(nat \<Rightarrow> addr \<Rightarrow> nat \<Rightarrow> bool) \<Rightarrow> pb_field_iter \<Rightarrow> addr \<Rightarrow> nat \<Rightarrow> bool" where
  "field_fits sub it dest sz \<longleftrightarrow>
     (let f = it_field it; ht = PB_HTYPE (f_type f); ds = unat (f_data_size f) in
      entry_ok f \<and> ds * entries f < 2 ^ 32 \<and> lies (it_pData it) (ds * entries f) dest sz \<and>
      (ht = PB_HTYPE_REPEATED \<or> ht = PB_HTYPE_ONEOF \<longrightarrow> psize_lies (it_pSize it) 4 dest sz) \<and>
      (ht = PB_HTYPE_OPTIONAL \<and> it_pSize it \<noteq> PMem (it_pData it) \<longrightarrow> psize_lies (it_pSize it) 1 dest sz) \<and>
      (case f_ptr f of
         PtrFields d \<Rightarrow> PB_LTYPE (f_type f) = PB_LTYPE_SUBMESSAGE \<and>
           (\<forall>i < entries f. sub d (it_pData it + ds * i) ds)
       | _ \<Rightarrow> PB_LTYPE (f_type f) \<noteq> PB_LTYPE_SUBMESSAGE))"

text \<open>\<open>n\<close> bounds the depth of the submessages. An empty descriptor has its terminator only.\<close>

primrec fits :: "descr_env \<Rightarrow> nat \<Rightarrow> pb_field list \<Rightarrow> addr \<Rightarrow> nat \<Rightarrow> bool" where
  "fits descr 0 flds dest sz = False"
| "fits descr (Suc n) flds dest sz =
     (\<forall>k < max 1 (nfields flds). field_fits (\<lambda>d. fits descr n (descr d)) (iter_at flds dest k) dest sz)"

lemma fits_field:
  "fits descr (Suc n) flds dest sz \<Longrightarrow> k < max 1 (nfields flds) \<Longrightarrow>
   field_fits (\<lambda>d. fits descr n (descr d)) (iter_at flds dest k) dest sz"
  by simp

lemma fits_mono: "fits descr n flds dest sz \<Longrightarrow> n \<le> m \<Longrightarrow> fits descr m flds dest sz"
proof (induction n arbitrary: m flds dest sz)
  case 0
  then show ?case by simp
next
  case (Suc n)
  then obtain m' where m: "m = Suc m'" "n \<le> m'" by (cases m) auto
  have "field_fits (\<lambda>d. fits descr m' (descr d)) it dest sz"
    if "field_fits (\<lambda>d. fits descr n (descr d)) it dest sz" for it
    using that Suc.IH [OF _ m(2)] by (auto simp: field_fits_def Let_def split: pb_ptr.splits)
  then show ?case using Suc.prems(1) by (simp add: m)
qed

section \<open>Submessages and entries\<close>

definition calls_safe :: "descr_env \<Rightarrow> nat \<Rightarrow> 's sub_calls \<Rightarrow> bool" where
  "calls_safe descr n calls \<longleftrightarrow> (\<forall>flds dest sz st. fits descr n flds dest sz \<longrightarrow>
     runs (span dest sz) st (c_noinit calls flds dest st) \<and> runs (span dest sz) st (c_decode calls flds dest st))"

text \<open>A substream: its bytes are part of those of the parent, which are behind it when it is closed.\<close>

definition sub_closed :: "addr set \<Rightarrow> 's istream \<Rightarrow> 's istream \<Rightarrow> 's dstate \<Rightarrow> (bool \<times> 's dstate) option \<Rightarrow> bool" where
  "sub_closed S sub parent st r \<longleftrightarrow> (\<exists>ok st'. r = Some (ok, st') \<and> inside S st st' \<and>
     within (i_source sub) (bytes_left sub) (i_source (d_in st')) 0 \<and> bytes_left (d_in st') = bytes_left parent)"

lemma sub_closed_Some [simp]:
  "sub_closed S sub parent st (Some r) \<longleftrightarrow> inside S st (snd r) \<and>
     within (i_source sub) (bytes_left sub) (i_source (d_in (snd r))) 0 \<and> bytes_left (d_in (snd r)) = bytes_left parent"
  by (cases r) (simp add: sub_closed_def)

lemma close_sub_safe:
  assumes "inside S st st'" and "consumes sub (d_in st')" and "i_source parent = i_source sub"
  shows "sub_closed S sub parent st (Some (close_sub parent (ok, st')))"
proof -
  have null: "within (i_source sub) (bytes_left sub) (i_source s1) 0"
    if "pb_read_null (d_in st') n = (r, s1)" for n r s1
  proof -
    have "consumes sub s1" using assms(2) frugal_consumes [OF frugal_read_null that] by (rule consumes_trans)
    then show ?thesis unfolding consumes_def by (rule within_trans) (simp add: within_same)
  qed
  have "within (i_source sub) (bytes_left sub) (i_source (d_in st')) 0" if "bytes_left (d_in st') = 0"
    using assms(2) that by (simp add: consumes_def)
  moreover obtain ok' s where c: "pb_close_string_substream parent (d_in st') = (ok', s)"
    by (cases "pb_close_string_substream parent (d_in st')")
  ultimately have "within (i_source sub) (bytes_left sub) (i_source s) 0 \<and> bytes_left s = bytes_left parent"
    using assms(3) null
    by (auto simp: pb_close_string_substream_def within_same split: prod.splits option.splits if_splits)
  then show ?thesis using assms(1) c by (cases ok') (simp_all add: close_sub_def)
qed

lemma overflow_closed:
  assumes "inside S st st'" and "i_source parent = i_source sub"
  shows "sub_closed S sub parent st (Some (d_error msg (st'\<lparr>d_in := parent\<rparr>)))"
  using assms by (simp add: d_error_def i_set_error_def within_same)

lemma substream_spec:
  assumes "pb_make_string_substream s = (Some sub, s')"
  shows "\<exists>s0. consumes s s0 \<and> i_source sub = i_source s0 \<and> i_source s' = i_source s0 \<and>
    bytes_left s0 = bytes_left sub + bytes_left s'"
proof -
  obtain sz s0 where v: "pb_decode_varint32 s = (Some sz, s0)" and "\<not> bytes_left s0 < unat sz"
    "sub = s0\<lparr>bytes_left := unat sz\<rparr>" "s' = s0\<lparr>bytes_left := bytes_left s0 - unat sz\<rparr>"
    using assms by (auto simp: pb_make_string_substream_def bnd_def i_error_def split: prod.splits option.splits if_splits)
  then show ?thesis using frugal_consumes [OF frugal_varint32 v] by (intro exI [of _ s0]) simp
qed

lemma frugal_make_substream [frugal_intros]: "frugal pb_make_string_substream"
proof -
  have "consumes s (s\<lparr>bytes_left := bytes_left s - n\<rparr>)" for s :: "'s istream" and n
    by (simp add: consumes_def within_same)
  then have "frugal (\<lambda>s :: 's istream. if bytes_left s < unat sz then i_error ''parent stream too short'' s
       else (Some (s\<lparr>bytes_left := unat sz\<rparr>), s\<lparr>bytes_left := bytes_left s - unat sz\<rparr>))" for sz :: u32
    by (auto simp: frugal_def i_error_def split: if_splits)
  then show ?thesis unfolding pb_make_string_substream_def [abs_def] by (intro frugal_intros)
qed

lemma runs_substream:
  assumes "\<And>sub st1. on_stream pb_make_string_substream st = (Some sub, st1) \<Longrightarrow>
      i_source (d_in st1) = i_source sub \<Longrightarrow> sub_closed S sub (d_in st1) st1 (g sub st1)"
  shows "runs S st (case on_stream pb_make_string_substream st of (None, st) \<Rightarrow> Some (False, st) | (Some sub, st) \<Rightarrow> g sub st)"
proof (cases "on_stream pb_make_string_substream st")
  case (Pair r st1)
  show ?thesis
  proof (cases r)
    case None
    then show ?thesis using on_stream_safe [OF frugal_make_substream Pair, of S] Pair by (simp add: runs_Some)
  next
    case (Some sub)
    then obtain s' where m: "pb_make_string_substream (d_in st) = (Some sub, s')" and st1: "st1 = st\<lparr>d_in := s'\<rparr>"
      using Pair by (auto simp: on_stream_def split: prod.splits)
    obtain s0 where s0: "consumes (d_in st) s0" "i_source sub = i_source s0" "i_source s' = i_source s0"
      "bytes_left s0 = bytes_left sub + bytes_left s'"
      using substream_spec [OF m] by blast
    obtain ok st2 where g: "g sub st1 = Some (ok, st2)" and i: "inside S st1 st2"
      and w: "within (i_source sub) (bytes_left sub) (i_source (d_in st2)) 0" "bytes_left (d_in st2) = bytes_left s'"
      using assms [OF Pair [unfolded Some]] s0 st1 by (auto simp: sub_closed_def)
    have "consumes s0 (d_in st2)" using within_plus [OF w(1), of "bytes_left s'"] s0 w(2) by (simp add: consumes_def)
    then have "safe S st st2" using i st1 consumes_trans [OF s0(1)] by (simp add: safe_def)
    then show ?thesis using Pair Some g by (simp add: runs_Some)
  qed
qed

lemma submessage_safe:
  assumes calls: "calls_safe descr n calls" and "f_ptr field = PtrFields d"
    and "fits descr n (descr d) dest sz" and "v_descr env = descr"
  shows "runs (span dest sz) st (pb_dec_submessage env calls st field dest)"
  unfolding pb_dec_submessage_def
proof (rule runs_substream, goal_cases)
  case (1 sub st1)
  let ?call = "if PB_HTYPE (f_type field) = PB_HTYPE_REPEATED then c_decode calls else c_noinit calls"
  have "runs (span dest sz) (st1\<lparr>d_in := sub\<rparr>) (?call (descr d) dest (st1\<lparr>d_in := sub\<rparr>))"
    using calls assms(3) by (simp add: calls_safe_def)
  from runsD [OF this] obtain ok st2 where c: "?call (descr d) dest (st1\<lparr>d_in := sub\<rparr>) = Some (ok, st2)"
    and "inside (span dest sz) st1 st2" "consumes sub (d_in st2)" by (auto simp: safe_def)
  then have "sub_closed (span dest sz) sub (d_in st1) st1 (Some (close_sub (d_in st1) (ok, st2)))"
    using 1(2) by (intro close_sub_safe)
  then show ?case using c by (simp add: assms(2,4) Let_def)
qed

lemma ltype_cases:
  fixes lt :: u8
  assumes "lt \<le> PB_LTYPE_FIXED_LENGTH_BYTES" "lt \<noteq> PB_LTYPE_EXTENSION"
  shows "lt \<in> {PB_LTYPE_VARINT, PB_LTYPE_UVARINT, PB_LTYPE_SVARINT, PB_LTYPE_FIXED32, PB_LTYPE_FIXED64,
    PB_LTYPE_BYTES, PB_LTYPE_STRING, PB_LTYPE_SUBMESSAGE, PB_LTYPE_FIXED_LENGTH_BYTES}"
proof -
  have "unat lt \<le> 9" using assms(1) by (simp add: word_le_nat_alt)
  moreover have "unat lt \<noteq> 8"
  proof
    assume "unat lt = 8"
    then have "unat lt = unat (8 :: u8)" by simp
    then show False using assms(2) by (simp only: word_unat_eq_iff)
  qed
  ultimately have "unat lt \<in> {0, 1, 2, 3, 4, 5, 6, 7, 9}" by auto
  then show ?thesis by (auto dest!: word_of_unat)
qed

lemma entry_safe:
  assumes "calls_safe descr n calls" "v_descr env = descr" and e: "entry_ok field"
    and "case f_ptr field of PtrFields d \<Rightarrow> fits descr n (descr d) dest (unat (f_data_size field))
         | _ \<Rightarrow> PB_LTYPE (f_type field) \<noteq> PB_LTYPE_SUBMESSAGE"
  shows "runs (span dest (unat (f_data_size field))) st (PB_DECODERS env calls (PB_LTYPE (f_type field)) st field dest)"
proof -
  let ?S = "span dest (unat (f_data_size field))" and ?lt = "PB_LTYPE (f_type field)"
  have st: "PB_ATYPE (f_type field) = PB_ATYPE_STATIC" using e by (simp add: entry_ok_def Let_def)
  have "4 \<le> unat (f_data_size field)" if "?lt = PB_LTYPE_FIXED32"
    using e that by (simp add: entry_ok_def word_le_nat_alt)
  then have f32: "runs ?S st (pb_dec_fixed32 st field dest)" if "?lt = PB_LTYPE_FIXED32"
    using that by (intro fixed_safe) auto
  have "8 \<le> unat (f_data_size field)" if "?lt = PB_LTYPE_FIXED64"
    using e that by (simp add: entry_ok_def word_le_nat_alt)
  then have f64: "runs ?S st (pb_dec_fixed64 st field dest)" if "?lt = PB_LTYPE_FIXED64"
    using that by (intro fixed_safe) auto
  have sub: "runs ?S st (pb_dec_submessage env calls st field dest)" if "?lt = PB_LTYPE_SUBMESSAGE"
    using assms(4) that submessage_safe [OF assms(1) _ _ assms(2)] by (auto split: pb_ptr.splits)
  show ?thesis
    using ltype_cases [of ?lt] e
    by (auto simp: entry_ok_def Let_def PB_DECODERS_def intro: scalar_safe f32 f64 sub
        bytes_safe [OF subset_refl st] string_safe [OF subset_refl st] fixed_bytes_safe)
qed

text \<open>The packable types consume at least a byte.\<close>

lemma packable_eats:
  assumes "PB_LTYPE (f_type field) \<le> PB_LTYPE_LAST_PACKABLE"
    and "PB_DECODERS env calls (PB_LTYPE (f_type field)) st field dest = Some (True, st')"
  shows "bytes_left (d_in st') < bytes_left (d_in st)"
proof -
  let ?lt = "PB_LTYPE (f_type field)"
  have clamp: "d_in st' = d_in st1" if "store_clamped nw field dest v st1 = (True, st')" for nw v st1
    using that by (auto simp: store_clamped_def d_error_def Let_def split: option.splits if_splits)
  have "?lt \<in> {PB_LTYPE_VARINT, PB_LTYPE_UVARINT, PB_LTYPE_SVARINT, PB_LTYPE_FIXED32, PB_LTYPE_FIXED64}"
  proof -
    have "unat ?lt \<le> 4" using assms(1) by (simp add: word_le_nat_alt)
    then have "?lt \<in> {PB_LTYPE_VARINT, PB_LTYPE_UVARINT, PB_LTYPE_SVARINT, PB_LTYPE_FIXED32, PB_LTYPE_FIXED64,
      PB_LTYPE_BYTES, PB_LTYPE_STRING, PB_LTYPE_SUBMESSAGE, PB_LTYPE_FIXED_LENGTH_BYTES}"
      by (intro ltype_cases) (auto simp: word_le_nat_alt)
    with \<open>unat ?lt \<le> 4\<close> show ?thesis by auto
  qed
  then show ?thesis using assms(2) on_stream_eats [OF eats_fixed(1), of st] on_stream_eats [OF eats_fixed(2), of st]
    by (auto simp: PB_DECODERS_def pb_dec_varint_def pb_dec_uvarint_def pb_dec_svarint_def pb_dec_fixed32_def
        pb_dec_fixed64_def Let_def clamp split: prod.splits option.splits
        dest!: clamp dest: on_stream_eats [OF eats_varint] on_stream_eats [OF eats_svarint])
qed

section \<open>Loops over the fields\<close>

lemma do_fields_rel:
  assumes "\<And>j s. k \<le> j \<Longrightarrow> j < nfields flds \<Longrightarrow> \<exists>s'. body (iter_at flds dest j) s = Some (True, s') \<and> R s s'"
    and "transp R" and "k < nfields flds"
  shows "\<exists>s'. do_fields body (iter_at flds dest k) s = Some (True, s') \<and> R s s'"
  using assms(1,3)
proof (induction "nfields flds - k" arbitrary: k s)
  case 0
  then show ?case by simp
next
  case (Suc m)
  from Suc.prems obtain s1 where s1: "body (iter_at flds dest k) s = Some (True, s1)" "R s s1" by blast
  show ?case
  proof (cases "Suc k < nfields flds")
    case True
    have "\<exists>s'. do_fields body (iter_at flds dest (Suc k)) s1 = Some (True, s') \<and> R s1 s'"
      by (rule Suc.hyps(1)) (use Suc.hyps(2) Suc.prems True in auto)
    then obtain s2 where s2: "do_fields body (iter_at flds dest (Suc k)) s1 = Some (True, s2)" "R s1 s2" by blast
    have "R s s2" by (rule transpD [OF assms(2) s1(2) s2(2)])
    then show ?thesis using s1 s2 True by (subst do_fields_at [OF Suc.prems(2)]) simp
  next
    case False
    then show ?thesis using s1 by (subst do_fields_at [OF Suc.prems(2)]) simp
  qed
qed

lemma for_fields_rel:
  assumes "\<And>j st. j < nfields flds \<Longrightarrow> \<exists>st'. f (iter_at flds dest j) st = Some st' \<and> R st st'"
    and "transp R" and "\<And>st. R st st"
  shows "\<exists>st'. for_fields f flds dest st = Some st' \<and> R st st'"
proof (cases "0 < nfields flds")
  case False
  then show ?thesis using assms(3) iter_begin_ok [of flds dest] by (auto simp: for_fields_def split: prod.splits bool.splits)
next
  case True
  have "\<exists>st'. do_fields (\<lambda>it st. map_option (Pair True) (f it st)) (iter_at flds dest 0) st = Some (True, st') \<and> R st st'"
  proof (rule do_fields_rel [OF _ assms(2) True])
    fix j s assume "j < nfields flds"
    from assms(1) [OF this, of s] show "\<exists>s'. map_option (Pair True) (f (iter_at flds dest j) s) = Some (True, s') \<and> R s s'"
      by auto
  qed
  moreover have "pb_field_iter_begin flds dest = (True, iter_at flds dest 0)"
    using True iter_begin_ok [of flds dest] by (simp add: prod_eq_iff)
  ultimately show ?thesis by (auto simp: for_fields_def simp del: iter_at.simps)
qed

lemma transp_safe: "transp (safe S)"
  by (rule transpI) (rule safe_trans)

section \<open>Default values and release\<close>

lemma entry_span: "i < entries f \<Longrightarrow> lies a (unat (f_data_size f) * entries f) dest sz \<Longrightarrow>
  lies (a + unat (f_data_size f) * i) (unat (f_data_size f)) dest sz"
proof -
  assume i: "i < entries f" and l: "lies a (unat (f_data_size f) * entries f) dest sz"
  have "unat (f_data_size f) * Suc i \<le> unat (f_data_size f) * entries f" using i by (intro mult_le_mono) auto
  then show ?thesis using l by (simp add: lies_def)
qed

lemma psize_lies_in: "psize_lies p n dest sz \<Longrightarrow> psize_in p n (span dest sz)"
  by (auto simp: psize_lies_def psize_in_def lies_def split: psize.splits)

lemma set_default_field:
  assumes fit: "field_fits (\<lambda>d. fits descr n (descr d)) it dest sz" and env: "v_descr env = descr"
    and sub: "\<And>flds dest sz st. fits descr n flds dest sz \<Longrightarrow>
      \<exists>st'. for_fields (pb_field_set_to_default env n) flds dest st = Some st' \<and> safe (span dest sz) st st'"
  shows "\<exists>st'. pb_field_set_to_default env (Suc n) it st = Some st' \<and> safe (span dest sz) st st'"
proof -
  let ?f = "it_field it" and ?S = "span dest sz"
  let ?ht = "PB_HTYPE (f_type ?f)" and ?lt = "PB_LTYPE (f_type ?f)" and ?ds = "unat (f_data_size (it_field it))"
  note fits = fit [unfolded field_fits_def Let_def]
  have ent: "entry_ok ?f" using fits by blast
  have ty: "?lt \<noteq> PB_LTYPE_EXTENSION" "PB_ATYPE (f_type ?f) = PB_ATYPE_STATIC"
    using ent by (simp_all add: entry_ok_def Let_def)
  define has where "has \<longleftrightarrow> ?ht = PB_HTYPE_OPTIONAL \<and> it_pSize it \<noteq> PMem (it_pData it)"
  define counted where "counted \<longleftrightarrow> \<not> has \<and> (?ht = PB_HTYPE_REPEATED \<or> ?ht = PB_HTYPE_ONEOF)"
  define st1 where "st1 = (if has then (case it_pSize it of PMem a \<Rightarrow> d_store 1 a 0 st | PFixedCount \<Rightarrow> psize_write PFixedCount 0 st)
                  else if counted then psize_write (it_pSize it) 0 st else st)"
  have st1: "safe ?S st st1"
  proof -
    have "psize_lies (it_pSize it) 1 dest sz" if has using fits that by (simp add: has_def)
    moreover have "psize_lies (it_pSize it) 4 dest sz" if counted using fits that by (auto simp: counted_def)
    ultimately show ?thesis
      using safe_psize [OF psize_lies_in, of "it_pSize it" dest sz st 0] safe_store [OF lies_span, of _ 1 dest sz st 0]
      by (auto simp: st1_def psize_lies_def split: psize.splits)
  qed
  show ?thesis
  proof (cases counted)
    case True
    then have "pb_field_set_to_default env (Suc n) it st = Some st1"
      using ty by (simp add: set_default_step_def Let_def st1_def has_def [symmetric] counted_def)
    then show ?thesis using st1 by blast
  next
    case False
    then have one: "entries ?f = 1" by (auto simp: entries_def counted_def has_def)
    then have reg: "span (it_pData it) ?ds \<subseteq> ?S" using fits by (intro lies_span) simp
    have step: "pb_field_set_to_default env (Suc n) it st =
      (if ?lt = PB_LTYPE_SUBMESSAGE then
         (case f_ptr ?f of
            PtrFields d \<Rightarrow> for_fields (pb_field_set_to_default env n) (v_descr env d) (it_pData it) st1
          | _ \<Rightarrow> None)
       else
         (case f_ptr ?f of
            PtrDefault bs \<Rightarrow> Some (st1\<lparr>d_mem := mem_write (d_mem st1) (it_pData it) (fill ?ds bs)\<rparr>)
          | PtrFields d \<Rightarrow> None
          | PtrNull \<Rightarrow> Some (d_memset0 (it_pData it) ?ds st1)))"
      using ty False unfolding st1_def counted_def has_def
      by (cases "PB_HTYPE (f_type (it_field it)) = PB_HTYPE_OPTIONAL \<and> it_pSize it \<noteq> PMem (it_pData it)")
        (auto simp add: set_default_step_def Let_def)
    show ?thesis
    proof (cases "f_ptr ?f")
      case PtrNull
      then show ?thesis using fits step safe_memset [OF reg] safe_trans [OF st1] by auto
    next
      case (PtrDefault bs)
      have "safe ?S st1 (st1\<lparr>d_mem := mem_write (d_mem st1) (it_pData it) (fill ?ds bs)\<rparr>)"
      proof -
        have "length (fill ?ds bs) = ?ds" by (simp add: fill_def)
        then have "inside ?S st1 (st1\<lparr>d_mem := mem_write (d_mem st1) (it_pData it) (fill ?ds bs)\<rparr>)"
          using reg by (intro inside_mem_write) (simp only:)
        then show ?thesis by (simp add: safe_def)
      qed
      then show ?thesis using PtrDefault fits step safe_trans [OF st1] by auto
    next
      case (PtrFields d)
      with fits one have "fits descr n (descr d) (it_pData it) ?ds" by auto
      from sub [OF this, of st1] obtain st2 where
        "for_fields (pb_field_set_to_default env n) (descr d) (it_pData it) st1 = Some st2"
        "safe (span (it_pData it) ?ds) st1 st2" by blast
      then show ?thesis using PtrFields fits step safe_trans [OF st1] safe_mono [OF _ reg] env by auto
    qed
  qed
qed

lemma set_defaults_safe:
  assumes "fits descr n flds dest sz" and "v_descr env = descr"
  shows "\<exists>st'. for_fields (pb_field_set_to_default env n) flds dest st = Some st' \<and> safe (span dest sz) st st'"
  using assms(1)
proof (induction n arbitrary: flds dest sz st)
  case 0
  then show ?case by simp
next
  case (Suc n)
  show ?case
  proof (rule for_fields_rel [OF _ transp_safe safe_refl])
    fix j st assume "j < nfields flds"
    then have "field_fits (\<lambda>d. fits descr n (descr d)) (iter_at flds dest j) dest sz"
      by (intro fits_field [OF Suc.prems]) simp
    from set_default_field [OF this assms(2) Suc.IH]
    show "\<exists>st'. pb_field_set_to_default env (Suc n) (iter_at flds dest j) st = Some st' \<and> safe (span dest sz) st st'" .
  qed
qed

text \<open>There is nothing to release.\<close>

lemma release_items_none:
  "(\<And>i st. i < count \<Longrightarrow> rel (p + ds * i) st = Some st) \<Longrightarrow> release_items rel ds count p st = Some st"
proof (induction count arbitrary: p)
  case 0
  then show ?case by simp
next
  case (Suc count)
  have "release_items rel ds count (p + ds) st = Some st"
  proof (rule Suc.IH)
    fix i st assume "i < count"
    then show "rel (p + ds + ds * i) st = Some st" using Suc.prems [of "Suc i" st] by (simp add: add.assoc)
  qed
  then show ?case using Suc.prems [of 0 st] by simp
qed

lemma release_field_none:
  assumes fit: "field_fits (\<lambda>d. fits descr n (descr d)) it dest sz" and env: "v_descr env = descr"
    and sub: "\<And>flds dest sz st. fits descr n flds dest sz \<Longrightarrow>
      release_message (pb_release_single_field env n) flds dest st = Some st"
  shows "pb_release_single_field env (Suc n) it st = Some st"
proof -
  let ?f = "it_field it"
  note fits = fit [unfolded field_fits_def Let_def]
  have ty: "PB_LTYPE (f_type ?f) \<noteq> PB_LTYPE_EXTENSION" "PB_ATYPE (f_type ?f) = PB_ATYPE_STATIC"
    using fits by (simp_all add: entry_ok_def Let_def)
  have "release_submessages env (pb_release_single_field env n) it st = Some st"
    if l: "PB_LTYPE (f_type ?f) = PB_LTYPE_SUBMESSAGE"
  proof -
    obtain d where d: "f_ptr ?f = PtrFields d" using fits l by (cases "f_ptr ?f") auto
    define count where "count = (if PB_HTYPE (f_type ?f) = PB_HTYPE_REPEATED then
        let c = (if it_pSize it = PMem (it_pData it) then unat (f_array_size ?f) else psize_read (it_pSize it) st)
        in if c > unat (f_array_size ?f) then unat (f_array_size ?f) else c else 1)"
    have "count \<le> entries ?f" by (auto simp: count_def entries_def Let_def)
    then have "release_items (release_message (pb_release_single_field env n) (descr d))
        (unat (f_data_size ?f)) count (it_pData it) st = Some st"
    proof (intro release_items_none)
      fix i st assume "i < count"
      with \<open>count \<le> entries ?f\<close> have i: "i < entries ?f" by simp
      have "\<forall>i < entries ?f. fits descr n (descr d) (it_pData it + unat (f_data_size ?f) * i) (unat (f_data_size ?f))"
        using fits d by simp
      then show "release_message (pb_release_single_field env n) (descr d) (it_pData it + unat (f_data_size ?f) * i) st = Some st"
        using i by (intro sub) blast
    qed
    then show ?thesis using ty d env
      by (cases "PB_HTYPE (f_type ?f) = PB_HTYPE_REPEATED"; cases "it_pSize it = PMem (it_pData it)")
        (simp_all add: release_submessages_def Let_def count_def del: release_items.simps)
  qed
  then show ?thesis using ty by (simp add: release_step_def Let_def)
qed

lemma release_none:
  assumes "fits descr n flds dest sz" and "v_descr env = descr"
  shows "release_message (pb_release_single_field env n) flds dest st = Some st"
  using assms(1)
proof (induction n arbitrary: flds dest sz st)
  case 0
  then show ?case by simp
next
  case (Suc n)
  have "\<exists>st'. for_fields (pb_release_single_field env (Suc n)) flds dest st = Some st' \<and> st = st'"
  proof (rule for_fields_rel)
    fix j st assume "j < nfields flds"
    then have "field_fits (\<lambda>d. fits descr n (descr d)) (iter_at flds dest j) dest sz"
      by (intro fits_field [OF Suc.prems]) simp
    from release_field_none [OF this assms(2) Suc.IH]
    show "\<exists>st'. pb_release_single_field env (Suc n) (iter_at flds dest j) st = Some st' \<and> st = st'" by auto
  qed (auto simp: transp_def)
  then show ?case by (simp add: release_message_def)
qed

section \<open>The iterator of the decoder\<close>

text \<open>An iterator over a descriptor; on a fixed-count array its counter may have been redirected.\<close>

definition on_field :: "pb_field list \<Rightarrow> addr \<Rightarrow> pb_field_iter \<Rightarrow> bool" where
  "on_field flds dest it \<longleftrightarrow> (\<exists>k < max 1 (nfields flds). it = iter_at flds dest k \<or>
     PB_HTYPE (f_type (it_field (iter_at flds dest k))) = PB_HTYPE_REPEATED \<and>
     it = (iter_at flds dest k)\<lparr>it_pSize := PFixedCount\<rparr>)"

lemma it_field_pSize [simp]: "it_field (it\<lparr>it_pSize := p\<rparr>) = it_field it"
  by (simp add: it_field_def)

lemma on_field_at: "k < max 1 (nfields flds) \<Longrightarrow> on_field flds dest (iter_at flds dest k)"
  by (auto simp: on_field_def)

lemma on_field_fits:
  assumes "fits descr (Suc n) flds dest sz" and "on_field flds dest it"
  shows "field_fits (\<lambda>d. fits descr n (descr d)) it dest sz"
proof -
  obtain k where k: "k < max 1 (nfields flds)" and it: "it = iter_at flds dest k \<or>
     PB_HTYPE (f_type (it_field (iter_at flds dest k))) = PB_HTYPE_REPEATED \<and>
     it = (iter_at flds dest k)\<lparr>it_pSize := PFixedCount\<rparr>" using assms(2) by (auto simp: on_field_def)
  from it show ?thesis
  proof
    assume "it = iter_at flds dest k"
    then show ?thesis using fits_field [OF assms(1) k] by simp
  next
    assume r: "PB_HTYPE (f_type (it_field (iter_at flds dest k))) = PB_HTYPE_REPEATED \<and>
      it = (iter_at flds dest k)\<lparr>it_pSize := PFixedCount\<rparr>"
    have "field_fits sub (j\<lparr>it_pSize := PFixedCount\<rparr>) dest sz"
      if "field_fits sub j dest sz" "PB_HTYPE (f_type (it_field j)) = PB_HTYPE_REPEATED" for sub j
      using that by (cases "f_ptr (it_field j)") (simp_all add: field_fits_def psize_lies_def Let_def)
    then show ?thesis using fits_field [OF assms(1) k] r by simp
  qed
qed

text \<open>A search loop with any condition, so that the two of the decoder share their proof.\<close>

lemma next_empty: "nfields flds = 0 \<Longrightarrow> snd (pb_field_iter_next (iter_at flds dest 0)) = iter_at flds dest 0"
  using field_at_nfields [of flds] by (simp add: pb_field_iter_next_def it_field_def)

lemma next_cyclic:
  assumes "on_field flds dest it" and "0 < nfields flds"
  shows "it_pos it < nfields flds \<and>
    snd (pb_field_iter_next it) = iter_at flds dest (if Suc (it_pos it) < nfields flds then Suc (it_pos it) else 0)"
proof -
  obtain k where k: "k < nfields flds" and it: "it = iter_at flds dest k \<or>
     PB_HTYPE (f_type (it_field (iter_at flds dest k))) = PB_HTYPE_REPEATED \<and>
     it = (iter_at flds dest k)\<lparr>it_pSize := PFixedCount\<rparr>" using assms by (auto simp: on_field_def)
  have "snd (pb_field_iter_next ((iter_at flds dest k)\<lparr>it_pSize := PFixedCount\<rparr>)) = snd (pb_field_iter_next (iter_at flds dest k))"
    if "PB_HTYPE (f_type (it_field (iter_at flds dest k))) = PB_HTYPE_REPEATED"
    by (rule iter_next_pSize) (use k that in \<open>simp_all add: iter_at_pos\<close>)
  then have "snd (pb_field_iter_next it) = snd (pb_field_iter_next (iter_at flds dest k))" using it by auto
  moreover have "it_pos it = k" using it k by (auto simp: iter_at_pos)
  ultimately show ?thesis using k by (simp add: iter_at_next del: iter_at.simps)
qed

lemma find_on_field:
  assumes "on_field flds dest it"
  shows "\<exists>found it'. pb_field_iter_find tag it = Some (found, it') \<and> on_field flds dest it'"
proof (cases "nfields flds = 0")
  case True
  then have "it = iter_at flds dest 0 \<or> it = (iter_at flds dest 0)\<lparr>it_pSize := PFixedCount\<rparr>"
    and "pb_field_iter_next it = (False, it)"
    using assms field_at_nfields [of flds] by (auto simp: on_field_def pb_field_iter_next_def it_field_def)
  then show ?thesis using assms
    unfolding pb_field_iter_find_def by (subst find_loop_step) auto
next
  case False
  then have n: "0 < nfields flds" by simp
  define q where "q = (if Suc (it_pos it) < nfields flds then Suc (it_pos it) else 0)"
  note nx = next_cyclic [OF assms n, folded q_def]
  have q: "q < nfields flds" using n by (simp add: q_def)
  have res: "on_field flds dest (snd (find_result tag flds dest (it_pos it) ps))" if "set ps \<subseteq> {..<nfields flds}" for ps
    using that nx by (auto simp: find_result_def find_Some_iff subset_iff intro!: on_field_at split: option.splits)
  have "set (cyc_from (nfields flds) (it_pos it) q) \<subseteq> {..<nfields flds}"
    using nx by (auto simp: cyc_from_def split: if_splits)
  note r = res [OF this]
  have "pb_field_iter_find_loop (it_pos it) tag (iter_at flds dest q) =
      Some (find_result tag flds dest (it_pos it) (cyc_from (nfields flds) (it_pos it) q))"
    using nx q by (intro find_loop_result) auto
  then show ?thesis using assms nx q r
    unfolding pb_field_iter_find_def
    by (subst find_loop_step) (auto simp: Let_def iter_at_pos on_field_at intro: prod.collapse [symmetric]
        simp del: iter_at.simps)
qed

lemma extension_loop_none:
  assumes "\<And>k. k < nfields flds \<Longrightarrow> PB_LTYPE (f_type (flds ! k)) \<noteq> PB_LTYPE_EXTENSION"
    and "s < nfields flds" "p < nfields flds"
  shows "find_extension_loop s (iter_at flds dest p) = Some (False, iter_at flds dest s)"
  using assms(3)
proof (induction "length (cyc_from (nfields flds) s p)" arbitrary: p rule: less_induct)
  case less
  define q where "q = (if Suc p < nfields flds then Suc p else 0)"
  have cyc: "cyc_from (nfields flds) s p = p # (if q = s then [] else cyc_from (nfields flds) s q)"
    using cyc_from_step [OF assms(2) less.prems] by (simp add: Let_def q_def)
  have nx: "snd (pb_field_iter_next (iter_at flds dest p)) = iter_at flds dest q"
    using less.prems by (simp add: iter_at_next q_def del: iter_at.simps)
  have q: "q < nfields flds" using less.prems by (simp add: q_def)
  have "find_extension_loop s (iter_at flds dest q) = Some (False, iter_at flds dest s)" if "q \<noteq> s"
    by (rule less.hyps) (use cyc that q in auto)
  then show ?case
    by (subst find_extension_loop.simps)
      (use assms(1) [OF less.prems] in \<open>simp add: iter_at_field less.prems nx iter_at_pos q Let_def del: iter_at.simps\<close>)
qed

lemma no_extension_field:
  assumes "fits descr (Suc n) flds dest sz" and on: "on_field flds dest it"
  shows "\<exists>it'. find_extension_field it = Some (False, it') \<and> on_field flds dest it'"
proof -
  have here: "PB_LTYPE (f_type (it_field it)) \<noteq> PB_LTYPE_EXTENSION" if "on_field flds dest it" for it
    using on_field_fits [OF assms(1) that] by (simp add: field_fits_def entry_ok_def Let_def)
  have all: "PB_LTYPE (f_type (flds ! k)) \<noteq> PB_LTYPE_EXTENSION" if "k < nfields flds" for k
    using here [OF on_field_at [of k flds dest]] that by (simp add: iter_at_field)
  show ?thesis
  proof (cases "nfields flds = 0")
    case True
    then have "pb_field_iter_next it = (False, it)"
      using on field_at_nfields [of flds] by (auto simp: on_field_def pb_field_iter_next_def it_field_def)
    then show ?thesis using on here [OF on] unfolding find_extension_field_def
      by (subst find_extension_loop.simps) simp
  next
    case False
    then have n: "0 < nfields flds" by simp
    define q where "q = (if Suc (it_pos it) < nfields flds then Suc (it_pos it) else 0)"
    note nx = next_cyclic [OF on n, folded q_def]
    have q: "q < nfields flds" using n by (simp add: q_def)
    have "find_extension_loop (it_pos it) (iter_at flds dest q) = Some (False, iter_at flds dest (it_pos it))"
      using nx q all by (intro extension_loop_none) auto
    then show ?thesis using here [OF on] nx q n unfolding find_extension_field_def
      by (subst find_extension_loop.simps) (auto simp: Let_def iter_at_pos on_field_at simp del: iter_at.simps)
  qed
qed

text \<open>The loop to the end of the descriptor, with a body that only goes on.\<close>

lemma do_fields_total:
  "(\<And>it s. \<exists>s'. body it s = Some (True, s')) \<Longrightarrow> \<exists>s'. do_fields body it s = Some (True, s')"
proof (induction body it s rule: do_fields.induct)
  case (1 body it s)
  obtain s1 where b: "body it s = Some (True, s1)" using "1.prems" by blast
  show ?case
  proof (cases "pb_field_iter_next it")
    case (Pair more it')
    show ?thesis
    proof (cases more)
      case True
      from "1.IH" [OF b _ _ "1.prems", of more it'] Pair True
      show ?thesis by (subst do_fields.simps) (auto simp: b)
    next
      case False
      then show ?thesis by (subst do_fields.simps) (simp add: b Pair)
    qed
  qed
qed

lemma seek_end_total: "\<exists>r. seek_end it = Some r"
proof -
  have "\<exists>s'. do_fields (\<lambda>it (_ :: pb_field_iter). Some (True, it)) it it = Some (True, s')"
    by (rule do_fields_total) simp
  then show ?thesis by (auto simp: seek_end_def)
qed

section \<open>Static fields\<close>

text \<open>What the decoder of a field needs: the submessage calls are safe, and the field fits.\<close>

lemma field_entry_safe:
  assumes "calls_safe descr n calls" "v_descr env = descr"
    and fit: "field_fits (\<lambda>d. fits descr n (descr d)) it dest sz" and i: "i < entries (it_field it)"
  shows "runs (span dest sz) st (PB_DECODERS env calls (PB_LTYPE (f_type (it_field it))) st (it_field it)
    (it_pData it + unat (f_data_size (it_field it)) * i))"
proof -
  let ?f = "it_field it"
  note fits = fit [unfolded field_fits_def Let_def]
  have "runs (span (it_pData it + unat (f_data_size ?f) * i) (unat (f_data_size ?f))) st
      (PB_DECODERS env calls (PB_LTYPE (f_type ?f)) st ?f (it_pData it + unat (f_data_size ?f) * i))"
    by (rule entry_safe [OF assms(1,2)]) (use fits i in \<open>auto split: pb_ptr.splits\<close>)
  then show ?thesis by (rule runs_mono) (rule lies_span [OF entry_span [OF i]], use fits in blast)
qed

lemma item_offset_eq:
  assumes "field_fits sub it dest sz" and "PB_HTYPE (f_type (it_field it)) = PB_HTYPE_REPEATED"
    and "i < unat (f_array_size (it_field it))"
  shows "item_offset (it_field it) i = unat (f_data_size (it_field it)) * i" "i < entries (it_field it)"
proof -
  let ?ds = "unat (f_data_size (it_field it))"
  have e: "entries (it_field it) = unat (f_array_size (it_field it))" using assms(2) by (simp add: entries_def)
  have "unat (f_array_size (it_field it)) < 2 ^ LENGTH(32)" using unat_u32_lt [of "f_array_size (it_field it)"] by (simp del: unat_u32_lt)
  with assms(3) have "i < 2 ^ LENGTH(32)" by (rule less_trans)
  then have u: "unat (word_of_nat i :: u32) = i" by (rule unat_of_nat_lt)
  have "?ds * i \<le> ?ds * unat (f_array_size (it_field it))" using assms(3) by (intro mult_le_mono) auto
  moreover have "?ds * unat (f_array_size (it_field it)) < 2 ^ 32"
    using assms(1) e by (simp add: field_fits_def Let_def)
  ultimately have "?ds * i < 2 ^ 32" by (rule le_less_trans)
  then have "?ds * i < 2 ^ LENGTH(32)" by simp
  then show "item_offset (it_field it) i = ?ds * i" by (simp add: item_offset_def unat_word_ariths u)
  show "i < entries (it_field it)" using assms(3) e by simp
qed

lemma counter_lies:
  assumes "field_fits sub it dest sz"
    and "PB_HTYPE (f_type (it_field it)) = PB_HTYPE_REPEATED \<or> PB_HTYPE (f_type (it_field it)) = PB_HTYPE_ONEOF"
  shows "safe (span dest sz) st (psize_write (it_pSize it) v st)"
  by (rule safe_psize [OF psize_lies_in]) (use assms in \<open>auto simp: field_fits_def Let_def\<close>)

lemma packed_loop_safe:
  assumes calls: "calls_safe descr n calls" "v_descr env = descr"
    and fit: "field_fits (\<lambda>d. fits descr n (descr d)) it dest sz"
    and ty: "PB_HTYPE (f_type (it_field it)) = PB_HTYPE_REPEATED" "PB_LTYPE (f_type (it_field it)) \<le> PB_LTYPE_LAST_PACKABLE"
    and "bytes_left (d_in st) \<le> k"
  shows "runs (span dest sz) st (packed_loop (PB_DECODERS env calls (PB_LTYPE (f_type (it_field it)))) it k st)"
  using assms(6)
proof (induction k arbitrary: st)
  case 0
  then show ?case by (simp add: runs_ret)
next
  case (Suc k)
  let ?f = "it_field it"
  let ?func = "PB_DECODERS env calls (PB_LTYPE (f_type ?f))"
  let ?sz = "psize_read (it_pSize it) st"
  show ?case
  proof (cases "bytes_left (d_in st) > 0 \<and> ?sz < unat (f_array_size ?f)")
    case False
    then show ?thesis by (auto simp: Let_def runs_ret)
  next
    case True
    note off = item_offset_eq [OF fit ty(1), of ?sz]
    have r: "runs (span dest sz) st (?func st ?f (it_pData it + item_offset ?f ?sz))"
      using field_entry_safe [OF calls fit, of ?sz st] off True by simp
    have "runs (span dest sz) st (chkF (?func st ?f (it_pData it + item_offset ?f ?sz)) (\<lambda>st.
        packed_loop ?func it k (psize_write (it_pSize it) (psize_read (it_pSize it) st + 1) st)))"
    proof (rule runs_chkF [OF r])
      fix st1 assume f: "?func st ?f (it_pData it + item_offset ?f ?sz) = Some (True, st1)"
      have "bytes_left (d_in st1) < bytes_left (d_in st)" by (rule packable_eats [OF ty(2) f])
      then have "runs (span dest sz) (psize_write (it_pSize it) (psize_read (it_pSize it) st1 + 1) st1)
          (packed_loop ?func it k (psize_write (it_pSize it) (psize_read (it_pSize it) st1 + 1) st1))"
        using Suc.prems by (intro Suc.IH) simp
      then show "runs (span dest sz) st1
          (packed_loop ?func it k (psize_write (it_pSize it) (psize_read (it_pSize it) st1 + 1) st1))"
        by (rule runs_after [OF counter_lies [OF fit disjI1 [OF ty(1)]]])
    qed
    then show ?thesis using True by (simp add: Let_def)
  qed
qed

lemma static_packed_safe:
  assumes calls: "calls_safe descr n calls" "v_descr env = descr"
    and fit: "field_fits (\<lambda>d. fits descr n (descr d)) it dest sz"
    and ty: "PB_HTYPE (f_type (it_field it)) = PB_HTYPE_REPEATED" "PB_LTYPE (f_type (it_field it)) \<le> PB_LTYPE_LAST_PACKABLE"
  shows "runs (span dest sz) st (decode_static_packed (PB_DECODERS env calls (PB_LTYPE (f_type (it_field it)))) it st)"
  unfolding decode_static_packed_def
proof (rule runs_substream, goal_cases)
  case (1 sub st1)
  let ?loop = "packed_loop (PB_DECODERS env calls (PB_LTYPE (f_type (it_field it)))) it (bytes_left sub) (st1\<lparr>d_in := sub\<rparr>)"
  have "runs (span dest sz) (st1\<lparr>d_in := sub\<rparr>) ?loop" by (rule packed_loop_safe [OF assms]) simp
  from runsD [OF this] obtain ok st2 where l: "?loop = Some (ok, st2)" and i: "inside (span dest sz) st1 st2"
    "consumes sub (d_in st2)" by (auto simp: safe_def)
  then show ?case using close_sub_safe [OF i 1(2), of ok] overflow_closed [OF i(1) 1(2)] by simp
qed

lemma htype_cases: "PB_HTYPE t \<in> {PB_HTYPE_REQUIRED, PB_HTYPE_OPTIONAL, PB_HTYPE_REPEATED, PB_HTYPE_ONEOF}" for t :: u8
proof -
  have "unat (PB_HTYPE t) = 16 * (unat (drop_bit 4 t) mod 4)"
  proof -
    have "(0x30 :: u8) = push_bit 4 (mask 2)" by (simp add: mask_eq_exp_minus_1 push_bit_eq_mult)
    then have "PB_HTYPE t = t AND push_bit 4 (mask 2)" by (simp only: PB_HTYPE_def)
    also have "\<dots> = push_bit 4 (drop_bit 4 t AND mask 2)" by (rule bit_word_eqI) (auto simp: bit_simps)
    finally have "PB_HTYPE t = push_bit 4 (drop_bit 4 t AND mask 2)" .
    then have "unat (PB_HTYPE t) = unat (drop_bit 4 t AND mask 2) * 2 ^ 4 mod 2 ^ LENGTH(8)" by (simp only: unat_push_bit)
    then show ?thesis by (simp add: unat_and_mask)
  qed
  moreover have "unat (drop_bit 4 t) mod 4 \<in> {0, 1, 2, 3}" by auto
  ultimately have "unat (PB_HTYPE t) \<in> {0, 16, 32, 48}" by auto
  then show ?thesis by (auto dest!: word_of_unat)
qed

lemma static_field_safe:
  assumes calls: "calls_safe descr n calls" "v_descr env = descr"
    and fit: "field_fits (\<lambda>d. fits descr n (descr d)) it dest sz" and m: "n \<le> m"
  shows "runs (span dest sz) st (decode_static_field env calls m wt it st)"
proof -
  let ?f = "it_field it" and ?S = "span dest sz"
  let ?func = "PB_DECODERS env calls (PB_LTYPE (f_type ?f))" and ?ht = "PB_HTYPE (f_type ?f)"
  note fits = fit [unfolded field_fits_def Let_def]
  have single: "runs ?S st (?func st ?f (it_pData it))" if "?ht \<noteq> PB_HTYPE_REPEATED" for st
    using field_entry_safe [OF calls fit, of 0 st] that by (simp add: entries_def)
  show ?thesis
  proof (rule htype_cases [of "f_type ?f", THEN insertE], goal_cases)
    case 1
    then show ?case using single by (simp add: decode_static_field_def Let_def)
  next
    case 2
    then consider (opt) "?ht = PB_HTYPE_OPTIONAL" | (rep) "?ht = PB_HTYPE_REPEATED" | (one) "?ht = PB_HTYPE_ONEOF" by auto
    then show ?case
    proof cases
      case opt
      have "safe ?S st (if it_pSize it \<noteq> PMem (it_pData it)
              then (case it_pSize it of PMem a \<Rightarrow> d_store 1 a 1 st | PFixedCount \<Rightarrow> psize_write PFixedCount 1 st)
              else st)"
        using fits opt safe_store [OF lies_span, of _ 1 dest sz st 1] safe_psize [of PFixedCount ?S st 1]
        by (auto simp: psize_lies_def psize_in_def split: psize.split)
      then show ?thesis using runs_after [OF _ single] opt by (simp add: decode_static_field_def Let_def)
    next
      case rep
      note c = counter_lies [OF fit disjI1 [OF rep]]
      show ?thesis
      proof (cases "wt = PB_WT_STRING \<and> PB_LTYPE (f_type ?f) \<le> PB_LTYPE_LAST_PACKABLE")
        case True
        then show ?thesis using static_packed_safe [OF calls fit rep] rep
          by (simp add: decode_static_field_def Let_def)
      next
        case False
        define sz' st1 where "sz' = psize_read (it_pSize it) st" and "st1 = psize_write (it_pSize it) (sz' + 1) st"
        have "runs ?S st1 (?func st1 ?f (it_pData it + item_offset ?f sz'))" if "sz' < unat (f_array_size ?f)"
          using field_entry_safe [OF calls fit, of sz'] item_offset_eq [OF fit rep that] by simp
        then have "runs ?S st1 (if sz' \<ge> unat (f_array_size ?f) then Some (d_error ''array overflow'' st1)
            else ?func st1 ?f (it_pData it + item_offset ?f sz'))" by (simp add: runs_d_error)
        moreover have "safe ?S st st1" unfolding st1_def by (rule c)
        ultimately have "runs ?S st (if sz' \<ge> unat (f_array_size ?f) then Some (d_error ''array overflow'' st1)
            else ?func st1 ?f (it_pData it + item_offset ?f sz'))" by (rule runs_after [rotated])
        then show ?thesis using rep False by (auto simp add: decode_static_field_def Let_def sz'_def st1_def)
      qed
    next
      case one
      define st1 where "st1 = psize_write (it_pSize it) (unat (f_tag ?f)) st"
      have c: "safe ?S st st1" unfolding st1_def by (rule counter_lies [OF fit disjI2 [OF one]])
      have f: "runs ?S st2 (?func st2 ?f (it_pData it))" for st2 using single one by simp
      show ?thesis
      proof (cases "PB_LTYPE (f_type ?f) = PB_LTYPE_SUBMESSAGE")
        case False
        then show ?thesis using runs_after [OF c f] one by (simp add: decode_static_field_def Let_def st1_def)
      next
        case True
        obtain d where d: "f_ptr ?f = PtrFields d" using fits True by (cases "f_ptr ?f") auto
        have e: "entries ?f = 1" using one by (simp add: entries_def)
        have reg: "span (it_pData it) (unat (f_data_size ?f)) \<subseteq> ?S" using fits e by (intro lies_span) simp
        define st2 where "st2 = d_memset0 (it_pData it) (unat (f_data_size ?f)) st1"
        have s2: "safe ?S st1 st2" unfolding st2_def by (rule safe_memset [OF reg])
        have "fits descr m (descr d) (it_pData it) (unat (f_data_size ?f))"
          by (rule fits_mono [OF _ m]) (use fits d e in simp)
        from set_defaults_safe [OF this calls(2), of st2] obtain st3
          where s3: "pb_message_set_to_defaults env m (descr d) (it_pData it) st2 = Some st3"
            and "safe (span (it_pData it) (unat (f_data_size ?f))) st2 st3" by (auto simp: pb_message_set_to_defaults_def)
        then have "safe ?S st2 st3" using safe_mono [OF _ reg] by blast
        with c s2 have "safe ?S st st3" by (blast intro: safe_trans)
        then show ?thesis using runs_after [OF _ f, of st st3] one True s3 calls(2)
          by (simp add: decode_static_field_def Let_def st1_def [symmetric] st2_def [symmetric] d)
      qed
    qed
  qed
qed

section \<open>One field of a message\<close>

lemma union_safe:
  assumes fit: "fits descr (Suc n) flds dest sz" and env: "v_descr env = descr" and m: "Suc n \<le> m"
    and on: "on_field flds dest it"
  shows "\<exists>ok it' st'. pb_release_union_field env m it st = Some (ok, it', st') \<and> on_field flds dest it' \<and>
    safe S st st'"
proof -
  obtain m' where m': "m = Suc m'" "n \<le> m'" using m by (cases m) auto
  have rel: "pb_release_single_field env m it st = Some st" if "on_field flds dest it" for it st
  proof -
    have "field_fits (\<lambda>d. fits descr m' (descr d)) it dest sz"
      using fits_mono [OF fit, of "Suc m'"] m' that by (intro on_field_fits) auto
    then show ?thesis unfolding m'(1) by (rule release_field_none [OF _ env release_none [OF _ env]])
  qed
  define old where "old = psize_read (it_pSize it) st"
  show ?thesis
  proof (cases "old = 0 \<or> old = unat (f_tag (it_field it))")
    case True
    then show ?thesis using on by (auto simp: pb_release_union_field_def old_def Let_def)
  next
    case False
    obtain f1 it1 where f1: "pb_field_iter_find (word_of_nat old) it = Some (f1, it1)" and on1: "on_field flds dest it1"
      using find_on_field [OF on] by blast
    obtain f2 it2 where f2: "pb_field_iter_find (f_tag (it_field it)) it1 = Some (f2, it2)" and on2: "on_field flds dest it2"
      using find_on_field [OF on1] by blast
    have err: "safe S st (snd (d_error msg st))" for msg by (simp add: d_error_def safe_def)
    show ?thesis
      using False f1 f2 on1 on2 rel [OF on1] err
      by (cases f1; cases f2) (auto simp: pb_release_union_field_def old_def Let_def d_error_def)
  qed
qed

lemma decode_field_safe:
  assumes fit: "fits descr (Suc n) flds dest sz" and calls: "calls_safe descr n calls" "v_descr env = descr"
    and m: "Suc n \<le> m" and on: "on_field flds dest it"
  shows "\<exists>ok it' st'. decode_field env calls m wt it st = Some (ok, it', st') \<and> on_field flds dest it' \<and>
    safe (span dest sz) st st'"
proof -
  have "\<exists>ok it1 st1. (if PB_HTYPE (f_type (it_field it)) = PB_HTYPE_ONEOF
      then pb_release_union_field env m it st else Some (True, it, st)) = Some (ok, it1, st1) \<and>
      on_field flds dest it1 \<and> safe (span dest sz) st st1"
    using union_safe [OF fit calls(2) m on] on by auto
  then obtain ok it1 st1 where u: "(if PB_HTYPE (f_type (it_field it)) = PB_HTYPE_ONEOF
      then pb_release_union_field env m it st else Some (True, it, st)) = Some (ok, it1, st1)"
    and on1: "on_field flds dest it1" and s1: "safe (span dest sz) st st1" by blast
  have f1: "field_fits (\<lambda>d. fits descr n (descr d)) it1 dest sz" by (rule on_field_fits [OF fit on1])
  then have st: "PB_ATYPE (f_type (it_field it1)) = PB_ATYPE_STATIC" by (simp add: field_fits_def entry_ok_def Let_def)
  from runsD [OF static_field_safe [OF calls f1, of m st1 wt]] m obtain ok2 st2
    where "decode_static_field env calls m wt it1 st1 = Some (ok2, st2)" "safe (span dest sz) st1 st2" by auto
  then show ?thesis using u on1 s1 st safe_trans [OF s1]
    by (cases ok) (auto simp: decode_field_def Let_def)
qed

text \<open>The shape of a step of the loop: a new state of the locals and of the decoder.\<close>

definition steps :: "pb_field list \<Rightarrow> addr \<Rightarrow> nat \<Rightarrow> 's dstate \<Rightarrow> (bool \<times> noinit_locals \<times> 's dstate) option \<Rightarrow> bool" where
  "steps flds dest sz st r \<longleftrightarrow> (\<exists>ok lo st'. r = Some (ok, lo, st') \<and> on_field flds dest (n_iter lo) \<and>
     safe (span dest sz) st st')"

lemma steps_ret: "on_field flds dest (n_iter lo) \<Longrightarrow> safe (span dest sz) st st' \<Longrightarrow> steps flds dest sz st (Some (ok, lo, st'))"
  by (simp add: steps_def)

lemma decode_unknown_safe:
  assumes fit: "fits descr (Suc n) flds dest sz" and on: "on_field flds dest (n_iter lo)"
    and tag: "unat tag < 2 ^ 29"
  shows "steps flds dest sz st (decode_unknown env calls m tag wt lo st)"
proof -
  have skip: "steps flds dest sz st (case on_stream (\<lambda>s. pb_skip_field s wt) st of (r, st) \<Rightarrow> Some (r \<noteq> None, lo, st))"
    if "on_field flds dest (n_iter lo)" for lo
    using that on_stream_safe [OF frugal_skip_field, of wt st _ _ "span dest sz"]
    by (auto simp: steps_def split: prod.split)
  have big: "\<not> tag \<ge> 0xFFFFFFFF"
  proof
    assume "tag \<ge> 0xFFFFFFFF"
    then have "unat (0xFFFFFFFF :: u32) \<le> unat tag" by (simp add: word_le_nat_alt)
    then show False using tag by simp
  qed
  obtain it where it: "find_extension_field (n_iter lo) = Some (False, it)" "on_field flds dest it"
    using no_extension_field [OF fit on] by blast
  show ?thesis
    using skip [OF on] skip [of "lo\<lparr>n_iter := it, n_ext_start := 0xFFFFFFFF\<rparr>"] it big
    by (simp add: decode_unknown_def Let_def)
qed

lemma decode_known_safe:
  assumes fit: "fits descr (Suc n) flds dest sz" and calls: "calls_safe descr n calls" "v_descr env = descr"
    and m: "Suc n \<le> m" and on: "on_field flds dest (n_iter lo)"
  shows "steps flds dest sz st (decode_known env calls m wt lo st)"
proof -
  define it ty where "it = n_iter lo" and "ty = f_type (it_field it)"
  define fixed where "fixed \<longleftrightarrow> PB_HTYPE ty = PB_HTYPE_REPEATED \<and> it_pSize it = PMem (it_pData it)"
  define new where "new \<longleftrightarrow> fixed \<and> n_fixed lo \<noteq> Some (it_pos it)"
  show ?thesis
  proof (cases "new \<and> fixed_incomplete lo st")
    case True
    then show ?thesis using on
      by (auto simp: decode_known_def Let_def it_def ty_def fixed_def new_def steps_def d_error_def safe_def)
  next
    case False
    define st1 where "st1 = (if new then st\<lparr>d_fcount := 0\<rparr> else st)"
    define lo1 where "lo1 = (if new then lo\<lparr>n_fixed := Some (it_pos it)\<rparr> else lo)"
    define it1 where "it1 = (if fixed then it\<lparr>it_pSize := PFixedCount\<rparr> else it)"
    define lo2 where "lo2 = (if PB_HTYPE ty = PB_HTYPE_REQUIRED \<and> it_req it1 < 64
        then lo1\<lparr>n_seen := (n_seen lo1)[it_req it1 div 32 := n_seen lo1 ! (it_req it1 div 32) OR push_bit (it_req it1 mod 32) 1]\<rparr>
        else lo1)"
    have e: "decode_known env calls m wt lo st =
        map_option (\<lambda>(ok, it, st). (ok, lo2\<lparr>n_iter := it\<rparr>, st)) (decode_field env calls m wt it1 st1)"
      using False unfolding st1_def lo1_def it1_def lo2_def new_def fixed_def ty_def it_def
      by (simp only: decode_known_def Let_def if_False)
    have "on_field flds dest it1"
    proof (cases fixed)
      case False
      then show ?thesis using on by (simp add: it1_def it_def)
    next
      case True
      have "on_field flds dest (it\<lparr>it_pSize := PFixedCount\<rparr>)"
        using on True by (auto simp: on_field_def it_def [symmetric] fixed_def ty_def simp del: iter_at.simps)
      then show ?thesis using True by (simp add: it1_def)
    qed
    from decode_field_safe [OF fit calls m this, of wt st1] show ?thesis
      by (auto simp: e steps_def st1_def split: if_splits)
  qed
qed

lemma noinit_loop_safe:
  assumes fit: "fits descr (Suc n) flds dest sz" and calls: "calls_safe descr n calls" "v_descr env = descr"
    and m: "Suc n \<le> m"
  shows "on_field flds dest (n_iter lo) \<Longrightarrow> bytes_left (d_in st) \<le> k \<Longrightarrow>
    steps flds dest sz st (noinit_loop env calls m k lo st)"
proof (induction k arbitrary: lo st)
  case 0
  then show ?case by (simp add: steps_ret)
next
  case (Suc k)
  show ?case
  proof (cases "bytes_left (d_in st) = 0")
    case True
    then show ?thesis using Suc.prems by (simp add: steps_ret)
  next
    case False
    obtain r eof s where t: "pb_decode_tag (d_in st) = (r, eof, s)" by (metis prod_cases3)
    note left = decode_tag_left [OF t]
    have s1: "safe (span dest sz) st (st\<lparr>d_in := s\<rparr>)" using left(1) by (simp add: safe_def)
    show ?thesis
    proof (cases r)
      case None
      then show ?thesis using False t s1 Suc.prems(1) by (simp add: steps_ret)
    next
      case (Some p)
      obtain wt tag where p: "p = (wt, tag)" by (cases p)
      have l: "bytes_left s < bytes_left (d_in st)" "unat tag < 2 ^ 29" using left(2) Some p by auto
      obtain found it where f: "pb_field_iter_find tag (n_iter lo) = Some (found, it)" and on: "on_field flds dest it"
        using find_on_field [OF Suc.prems(1)] by blast
      let ?lo = "lo\<lparr>n_iter := it\<rparr>" and ?st = "st\<lparr>d_in := s\<rparr>"
      let ?step = "if found then decode_known env calls m wt ?lo ?st else decode_unknown env calls m tag wt ?lo ?st"
      have "steps flds dest sz ?st ?step"
        using decode_known_safe [OF fit calls m, of ?lo ?st wt] decode_unknown_safe [OF fit _ l(2), of ?lo ?st] on by simp
      then obtain ok lo' st' where step: "?step = Some (ok, lo', st')" and on': "on_field flds dest (n_iter lo')"
        and s2: "safe (span dest sz) ?st st'" by (auto simp: steps_def)
      have loop: "noinit_loop env calls m (Suc k) lo st =
          (if ok then noinit_loop env calls m k lo' st' else Some (False, lo', st'))"
        using False t Some p f step by (simp only: noinit_loop.simps) simp
      have "steps flds dest sz st' (noinit_loop env calls m k lo' st')"
        by (rule Suc.IH [OF on']) (use safe_left [OF s2] l(1) Suc.prems(2) in simp)
      then show ?thesis using safe_trans [OF s1 s2] on' unfolding loop steps_def
        by (auto intro: safe_trans [OF safe_trans [OF s1 s2]])
    qed
  qed
qed

section \<open>Messages\<close>

lemma noinit_body_safe:
  assumes fit: "fits descr (Suc n) flds dest sz" and calls: "calls_safe descr n calls" "v_descr env = descr"
    and m: "Suc n \<le> m"
  shows "runs (span dest sz) st (noinit_body env calls m flds dest st)"
proof -
  define lo where "lo = \<lparr>n_iter = snd (pb_field_iter_begin flds dest), n_seen = [0, 0], n_ext_start = 0, n_fixed = None\<rparr>"
  have "on_field flds dest (n_iter lo)" using on_field_at [of 0 flds dest] by (simp add: lo_def)
  from noinit_loop_safe [OF fit calls m this, of "st\<lparr>d_fcount := 0\<rparr>" "bytes_left (d_in st)"]
  obtain ok lo' st' where l: "noinit_loop env calls m (bytes_left (d_in st)) lo (st\<lparr>d_fcount := 0\<rparr>) = Some (ok, lo', st')"
    and s: "safe (span dest sz) st st'" by (auto simp: steps_def)
  have err: "runs (span dest sz) st (Some (d_error msg st'))" for msg by (rule runs_after [OF s runs_d_error])
  obtain req ty it where e: "seek_end (n_iter lo') = Some (req, ty, it)" using seek_end_total [of "n_iter lo'"] by auto
  have "runs (span dest sz) st (check_required lo' st')"
    using err s by (auto simp: check_required_def e Let_def runs_Some)
  then show ?thesis using l s err
    by (cases ok) (simp_all add: noinit_body_def Let_def lo_def [symmetric] runs_Some)
qed

lemma decode_body_safe:
  assumes fit: "fits descr n flds dest sz" and env: "v_descr env = descr" and m: "n \<le> m"
    and noinit: "\<And>st. runs (span dest sz) st (noinit flds dest st)"
  shows "runs (span dest sz) st (decode_body env m noinit flds dest st)"
proof -
  note fit' = fits_mono [OF fit m]
  obtain st1 where d: "pb_message_set_to_defaults env m flds dest st = Some st1" and s1: "safe (span dest sz) st st1"
    using set_defaults_safe [OF fit' env, of st] by (auto simp: pb_message_set_to_defaults_def)
  obtain ok st2 where n: "noinit flds dest st1 = Some (ok, st2)" and s2: "safe (span dest sz) st1 st2"
    using runsD [OF noinit] by blast
  have "pb_release env m flds dest st2 = Some st2" unfolding pb_release_def by (rule release_none [OF fit' env])
  then show ?thesis using d n safe_trans [OF s1 s2] by (cases ok) (simp_all add: decode_body_def runs_Some)
qed

lemma noinit_safe:
  assumes env: "v_descr env = descr"
  shows "fits descr n flds dest sz \<Longrightarrow> n \<le> m \<Longrightarrow> runs (span dest sz) st (pb_decode_noinit env (Suc m) flds dest st)"
proof (induction n arbitrary: m flds dest sz st)
  case 0
  then show ?case by simp
next
  case (Suc n)
  then obtain m' where m: "m = Suc m'" "n \<le> m'" by (cases m) auto
  have calls: "calls_safe descr n \<lparr>c_noinit = pb_decode_noinit env m, c_decode = decode_body env m (pb_decode_noinit env m)\<rparr>"
    unfolding calls_safe_def m(1) sub_calls.simps
    by (intro allI impI conjI decode_body_safe [OF _ env] Suc.IH [OF _ m(2)]) (use m(2) in auto)
  from runsD [OF noinit_body_safe [OF Suc.prems(1) calls env Suc.prems(2), of st]] show ?case
    by (auto simp: frame_noinit_def runs_Some)
qed

lemma pb_decode_safe:
  assumes "fits (v_descr env) n flds dest sz" and "n < m"
  shows "runs (span dest sz) st (pb_decode env m flds dest st)"
proof -
  obtain m' where m: "m = Suc m'" using assms(2) by (cases m) auto
  show ?thesis unfolding pb_decode_def
    by (rule decode_body_safe [OF assms(1) refl]) (use assms m noinit_safe [OF refl assms(1), of m'] in auto)
qed

section \<open>Properties\<close>

text \<open>C6: Decoding terminates inside its stream: for a message of statically allocated fields that fits into
  its structure and whose submessages nest less than \<open>m\<close> deep, \<open>pb_decode\<close> returns on every input,
  from every stream and whatever the read callback does, and leaves the stream where a sequence of calls of the
  callback takes it, none of which asks for more than the bytes that are left at that moment, while every
  call that delivers uses up the bytes it was asked for. The position in a buffer therefore moves by at most
  the number of bytes by which \<open>bytes_left\<close> has shrunk. (Like the code, this speaks of the stream that
  is returned: after a failure inside of a substream that is the parent's, without the reads of the substream.)\<close>

theorem pb_decode_terminates:
  assumes "fits (v_descr env) n flds dest sz" and "n < m"
  shows "\<exists>ok st'. pb_decode env m flds dest st = Some (ok, st') \<and>
    within (i_source (d_in st)) (bytes_left (d_in st)) (i_source (d_in st')) (bytes_left (d_in st')) \<and>
    (\<forall>bs. i_source (d_in st) = BufSource bs \<longrightarrow>
       (\<exists>k. i_source (d_in st') = BufSource (drop k bs) \<and> k + bytes_left (d_in st') \<le> bytes_left (d_in st)))"
proof -
  obtain ok st' where "pb_decode env m flds dest st = Some (ok, st')" and
    w: "within (i_source (d_in st)) (bytes_left (d_in st)) (i_source (d_in st')) (bytes_left (d_in st'))"
    using pb_decode_safe [OF assms, of st] by (auto simp: runs_def safe_def consumes_def)
  then show ?thesis using within_buffer [OF w] by blast
qed

text \<open>C5: Decoding stays inside the message structure: under the same condition, on every input, accepted or
  not, \<open>pb_decode\<close> changes no byte outside of the \<open>sz\<close> bytes at \<open>dest\<close>, neither for entries and
  counters of arrays nor for the last byte of strings, and it allocates and frees nothing.\<close>

theorem pb_decode_stays_inside:
  assumes "fits (v_descr env) n flds dest sz" and "n < m" and "a < dest \<or> dest + sz \<le> a"
  shows "d_mem (snd (the (pb_decode env m flds dest st))) a = d_mem st a \<and>
    d_live (snd (the (pb_decode env m flds dest st))) = d_live st \<and>
    d_fault (snd (the (pb_decode env m flds dest st))) = d_fault st"
  using pb_decode_safe [OF assms(1,2), of st] assms(3) by (auto simp: runs_def safe_def inside_def)

text \<open>A structure of 12 bytes: a required \<open>uint32\<close>, a string of 4 bytes and a counted array of three bytes in a
  submessage.\<close>

definition ex_static :: "pb_field list" where
  "ex_static =
     [\<lparr>f_tag = 1, f_type = 0x01, f_data_offset = 0, f_size_offset = 0, f_data_size = 4, f_array_size = 0, f_ptr = PtrNull\<rparr>,
      \<lparr>f_tag = 2, f_type = 0x06, f_data_offset = 0, f_size_offset = 0, f_data_size = 4, f_array_size = 0, f_ptr = PtrNull\<rparr>,
      \<lparr>f_tag = 3, f_type = 0x07, f_data_offset = 0, f_size_offset = 0, f_data_size = 8, f_array_size = 0, f_ptr = PtrFields 1\<rparr>]"

definition ex_static_sub :: "pb_field list" where
  "ex_static_sub =
     [\<lparr>f_tag = 1, f_type = 0x20, f_data_offset = 4, f_size_offset = -4, f_data_size = 1, f_array_size = 3, f_ptr = PtrNull\<rparr>]"

definition ex_denv :: "unit dec_env" where
  "ex_denv = \<lparr>v_descr = (\<lambda>d. if d = 1 then ex_static_sub else ex_static),
     v_callback = (\<lambda>f st field a. (False, st)),
     v_ext_type = (\<lambda>a. \<lparr>xt_decode = None, xt_arg = []\<rparr>)\<rparr>"

definition ex_dstate :: "u8 list \<Rightarrow> unit dstate" where
  "ex_dstate bs = \<lparr>d_in = pb_istream_from_buffer bs (length bs), d_mem = (\<lambda>_. 0xAA), d_live = [], d_brk = 4096,
     d_limit = 0, d_fault = False, d_fcount = 0\<rparr>"

lemmas ptype_defs = PB_LTYPE_def PB_HTYPE_def PB_ATYPE_def

lemma ex_static_sub_fits: "fits (v_descr ex_denv) (Suc 0) ex_static_sub 72 8"
  by (simp add: ex_static_sub_def field_fits_def entry_ok_def entries_def Let_def ptype_defs lies_def psize_lies_def
      pb_field_iter_begin_def it_field_def field_at_def ptr_add_def)

lemmas iter_eval = pb_field_iter_begin_def pb_field_iter_next_def it_field_def field_at_def ptr_add_def ptype_defs Let_def

lemma ex_static_iter0: "iter_at ex_static 64 0 = \<lparr>it_start = ex_static, it_pos = 0, it_req = 0, it_dest = 64, it_pData = 64, it_pSize = PMem 64\<rparr>"
  by (simp add: iter_eval ex_static_def)

lemma ex_static_iter1: "iter_at ex_static 64 (Suc 0) = \<lparr>it_start = ex_static, it_pos = 1, it_req = 1, it_dest = 64, it_pData = 68, it_pSize = PMem 68\<rparr>"
  unfolding iter_at.simps(2) ex_static_iter0 by (simp add: iter_eval ex_static_def)

lemma ex_static_iter2: "iter_at ex_static 64 2 = \<lparr>it_start = ex_static, it_pos = 2, it_req = 2, it_dest = 64, it_pData = 72, it_pSize = PMem 72\<rparr>"
  unfolding numeral_2_eq_2 iter_at.simps(2) [of _ _ "Suc 0"] ex_static_iter1 by (simp add: iter_eval ex_static_def)

lemmas ex_static_iters = ex_static_iter0 ex_static_iter1 ex_static_iter2

lemmas ex_static_eval = field_fits_def entry_ok_def entries_def Let_def ptype_defs lies_def psize_lies_def it_field_def
  field_at_def ex_static_def

lemma ex_static_fits: "fits (v_descr ex_denv) 2 ex_static 64 16"
proof -
  let ?ok = "\<lambda>k. field_fits (\<lambda>d. fits (v_descr ex_denv) (Suc 0) (v_descr ex_denv d)) (iter_at ex_static 64 k) 64 16"
  have n: "max 1 (nfields ex_static) = 3" by (simp add: ex_static_def)
  have f: "?ok 0" "?ok (Suc 0)" unfolding ex_static_iters by (simp_all add: ex_static_eval del: fits.simps)
  have "?ok 2" using ex_static_sub_fits unfolding ex_static_iters
    by (simp add: ex_static_eval ex_denv_def del: fits.simps)
  moreover have "k = 0 \<or> k = Suc 0 \<or> k = 2" if "k < 3" for k :: nat using that by linarith
  ultimately show ?thesis using f unfolding numeral_2_eq_2 fits.simps n by blast
qed

theorem pb_decode_terminates_witness:
  "\<exists>ok st' k. pb_decode ex_denv 3 ex_static 64 (ex_dstate [8, 1, 18, 255]) = Some (ok, st') \<and>
     within (BufSource [8, 1, 18, 255]) 4 (i_source (d_in st')) (bytes_left (d_in st')) \<and>
     i_source (d_in st') = BufSource (drop k [8, 1, 18, 255]) \<and> k + bytes_left (d_in st') \<le> 4"
proof -
  have i: "d_in (ex_dstate [8, 1, 18, 255]) = pb_istream_from_buffer [8, 1, 18, 255] 4" by (simp add: ex_dstate_def eval_nat_numeral)
  show ?thesis using pb_decode_terminates [OF ex_static_fits, of 3 "ex_dstate [8, 1, 18, 255]"]
    unfolding i pb_istream_from_buffer_def by fastforce
qed

theorem pb_decode_stays_inside_witness:
  "d_mem (snd (the (pb_decode ex_denv 3 ex_static 64 (ex_dstate [8, 1, 18, 255])))) 80 = 0xAA \<and>
   d_live (snd (the (pb_decode ex_denv 3 ex_static 64 (ex_dstate [8, 1, 18, 255])))) = [] \<and>
   d_fault (snd (the (pb_decode ex_denv 3 ex_static 64 (ex_dstate [8, 1, 18, 255])))) = False"
  using pb_decode_stays_inside [OF ex_static_fits, of 3 80 "ex_dstate [8, 1, 18, 255]"] by (simp add: ex_dstate_def)

text \<open>C14: The default of a fixed-count array overruns it: such a field has no counter, its \<open>pSize\<close> is the
  array, and \<open>pb_field_set_to_default\<close> stores a counter of four bytes there; in an array of fewer
  bytes the bytes behind the array are set to 0.\<close>

theorem fixed_count_default_overruns:
  assumes "PB_ATYPE (f_type (it_field it)) = PB_ATYPE_STATIC" and "PB_HTYPE (f_type (it_field it)) = PB_HTYPE_REPEATED"
    and "PB_LTYPE (f_type (it_field it)) \<noteq> PB_LTYPE_EXTENSION" and "it_pSize it = PMem (it_pData it)"
    and "unat (f_data_size (it_field it)) * unat (f_array_size (it_field it)) \<le> i" and "i < 4"
  shows "\<exists>st'. pb_field_set_to_default env (Suc n) it st = Some st' \<and> d_mem st' (it_pData it + i) = 0"
proof -
  have "le_bytes 4 0 ! i = 0" using assms(6) by (simp add: le_bytes_map)
  then show ?thesis using assms
    by (auto simp: set_default_step_def Let_def psize_write_def d_store_def store_def mem_write_apply)
qed

theorem fixed_count_default_overruns_witness:
  "let f = \<lparr>f_tag = 1, f_type = 0x20, f_data_offset = 0, f_size_offset = 0, f_data_size = 1, f_array_size = 2, f_ptr = PtrNull\<rparr>;
       st = ex_dstate []
   in d_mem st 66 = 0xAA \<and>
      (\<exists>st'. pb_field_set_to_default ex_denv (Suc 0) (iter_at [f] 64 0) st = Some st' \<and> d_mem st' 66 = 0)"
proof -
  let ?f = "\<lparr>f_tag = 1, f_type = 0x20, f_data_offset = 0, f_size_offset = 0, f_data_size = 1, f_array_size = 2, f_ptr = PtrNull\<rparr>"
  have t: "PB_ATYPE 0x20 = PB_ATYPE_STATIC" "PB_HTYPE 0x20 = PB_HTYPE_REPEATED" "PB_LTYPE 0x20 = 0" by code_simp+
  have f: "it_field (iter_at [?f] 64 0) = ?f" by (simp add: it_field_def field_at_def)
  have p: "it_pData (iter_at [?f] 64 0) = 64" "it_pSize (iter_at [?f] 64 0) = PMem 64"
    by (simp_all add: pb_field_iter_begin_def field_at_def ptr_add_def)
  show ?thesis
    using fixed_count_default_overruns [of "iter_at [?f] 64 0" 2 ex_denv 0 "ex_dstate []"]
    by (simp add: f p t Let_def ex_dstate_def del: iter_at.simps pb_field_set_to_default.simps)
qed

end
