(* ===== verification/PbValue.thy ===== *)
theory PbValue imports PbWire PbSafe begin

text \<open>
  One value, encoded and decoded. \<open>gives\<close> is the shape of the facts: a call succeeds, consumes exactly
  the bytes it is given, changes the memory inside a region only, and leaves the memory in a state
  with a property. Each field decoder gives back what the encoder of its type has read; \<open>entry_gives\<close>
  collects them, with the decoder of submessages as an assumption.
\<close>

section \<open>Copies of values\<close>

lemma le_bytes_mod: "le_bytes n (v mod 256 ^ n) = le_bytes n v"
proof -
  have "le_bytes (length (le_bytes n v)) (le_val (le_bytes n v)) = le_bytes n v" by (rule le_bytes_le_val)
  then show ?thesis by simp
qed

lemma mem_read_load: "mem_read m a n = le_bytes n (load n m a)"
  using le_bytes_le_val [of "mem_read m a n"] by (simp add: load_def)

lemma store_copy:
  assumes "v mod 256 ^ n = load n m src"
  shows "mem_read (store n m' a v) a n = mem_read m src n"
  using assms mem_read_write_same [of m' a "le_bytes n v"] le_bytes_mod [of n v]
  by (simp add: store_def mem_read_load [of m])

lemma signed_low: "(ucast (scast w :: u64) :: 'b word) = w" if "LENGTH('b) \<le> 64" for w :: "'b::len word"
  using that by (intro bit_word_eqI) (auto simp: bit_simps)

lemma signed_mid: "(scast (ucast (scast w :: u64) :: u32) :: u64) = scast w" if "LENGTH('b) \<le> 32" for w :: "'b::len word"
  using that by (intro bit_word_eqI) (auto simp: bit_simps min_def)

lemma unat_scast_mod: "unat (scast w :: u64) mod 2 ^ LENGTH('b) = unat w" if "LENGTH('b) \<le> 64" for w :: "'b::len word"
  using signed_low [OF that, of w] unat_ucast_mod [where 'b = 'b, of "scast w :: u64"] by simp

lemma load_word:
  assumes "256 ^ n = (2 :: nat) ^ LENGTH('a)"
  shows "unat (word_of_nat (load n m a) :: 'a::len word) = load n m a"
  by (rule unat_of_nat_lt) (use load_lt [of n m a] assms in simp)

lemma signed_copy:
  assumes "load_signed m ds src = Some v"
  shows "(if ds = 8 then v else scast (ucast v :: u32)) = v" and "narrow_signed ds v = Some v"
    and "unat v mod 256 ^ unat ds = load (unat ds) m src"
proof -
  have l: "load 1 m src < 256" "load 2 m src < 65536" "load 4 m src < 4294967296" "load 8 m src < 18446744073709551616"
    using load_lt [of 1 m src] load_lt [of 2 m src] load_lt [of 4 m src] load_lt [of 8 m src] by simp_all
  have c: "unat (scast (w :: u8) :: u64) mod 256 = unat w" "unat (scast (x :: u16) :: u64) mod 65536 = unat x"
    "unat (scast (y :: u32) :: u64) mod 4294967296 = unat y" for w x y
    using unat_scast_mod [of w] unat_scast_mod [of x] unat_scast_mod [of y] by simp_all
  consider (1) "ds = 1" "v = scast (word_of_nat (load 1 m src) :: u8)" | (2) "ds = 2" "v = scast (word_of_nat (load 2 m src) :: u16)"
    | (4) "ds = 4" "v = scast (word_of_nat (load 4 m src) :: u32)" | (8) "ds = 8" "v = word_of_nat (load 8 m src)"
    using assms by (auto simp: load_signed_def split: if_splits)
  note cs = this
  show "(if ds = 8 then v else scast (ucast v :: u32)) = v"
    by (rule cs) (simp_all add: signed_mid signed_low)
  show "narrow_signed ds v = Some v"
    by (rule cs) (simp_all add: narrow_signed_def signed_low)
  show "unat v mod 256 ^ unat ds = load (unat ds) m src"
    by (rule cs) (use l in \<open>simp_all add: c unat_of_nat take_bit_eq_mod\<close>)
qed

lemma unsigned_copy:
  assumes "load_unsigned m ds src = Some v"
  shows "narrow_unsigned ds v = Some v" and "unat v mod 256 ^ unat ds = load (unat ds) m src"
proof -
  have l: "load 1 m src < 256" "load 2 m src < 65536" "load 4 m src < 4294967296" "load 8 m src < 18446744073709551616"
    using load_lt [of 1 m src] load_lt [of 2 m src] load_lt [of 4 m src] load_lt [of 8 m src] by simp_all
  consider (1) "ds = 1" "v = word_of_nat (load 1 m src)" | (2) "ds = 2" "v = word_of_nat (load 2 m src)"
    | (4) "ds = 4" "v = word_of_nat (load 4 m src)" | (8) "ds = 8" "v = word_of_nat (load 8 m src)"
    using assms by (auto simp: load_unsigned_def split: if_splits)
  note cs = this
  show "narrow_unsigned ds v = Some v"
    by (rule cs) (use l in \<open>simp_all add: narrow_unsigned_def word_unat_eq_iff unat_ucast_mod unat_of_nat take_bit_eq_mod\<close>)
  show "unat v mod 256 ^ unat ds = load (unat ds) m src"
    by (rule cs) (use l in \<open>simp_all add: unat_of_nat take_bit_eq_mod\<close>)
qed

section \<open>Calls that consume their input\<close>

definition fed :: "'s dstate \<Rightarrow> u8 list \<Rightarrow> u8 list \<Rightarrow> bool" where
  "fed st bs rest \<longleftrightarrow> src_has (i_source (d_in st)) (bs @ rest) \<and> length bs \<le> bytes_left (d_in st)"

definition moved :: "addr set \<Rightarrow> 's dstate \<Rightarrow> u8 list \<Rightarrow> u8 list \<Rightarrow> 's dstate \<Rightarrow> bool" where
  "moved S st bs rest st' \<longleftrightarrow> inside S st st' \<and> src_has (i_source (d_in st')) rest \<and>
     bytes_left (d_in st') = bytes_left (d_in st) - length bs"

definition gives :: "(bool \<times> 's dstate) option \<Rightarrow> addr set \<Rightarrow> 's dstate \<Rightarrow> u8 list \<Rightarrow> u8 list \<Rightarrow> (mem \<Rightarrow> bool) \<Rightarrow> bool" where
  "gives r S st bs rest Q \<longleftrightarrow> (\<exists>st'. r = Some (True, st') \<and> moved S st bs rest st' \<and> Q (d_mem st'))"

lemma moved_trans: "moved S st xs (ys @ rest) st1 \<Longrightarrow> moved S st1 ys rest st2 \<Longrightarrow> moved S st (xs @ ys) rest st2"
  by (auto simp: moved_def intro: inside_trans)

lemma moved_mono: "moved S st bs rest st' \<Longrightarrow> S \<subseteq> T \<Longrightarrow> moved T st bs rest st'"
  by (auto simp: moved_def intro: inside_mono)

lemma moved_fed: "fed st (xs @ ys) rest \<Longrightarrow> moved S st xs (ys @ rest) st1 \<Longrightarrow> fed st1 ys rest"
  unfolding fed_def moved_def by auto

lemma gives_mono: "gives r S st bs rest Q \<Longrightarrow> S \<subseteq> T \<Longrightarrow> (\<And>m. Q m \<Longrightarrow> R m) \<Longrightarrow> gives r T st bs rest R"
  by (auto simp: gives_def intro: moved_mono)

lemma givesI: "r = Some (True, st') \<Longrightarrow> moved S st bs rest st' \<Longrightarrow> Q (d_mem st') \<Longrightarrow> gives r S st bs rest Q"
  by (auto simp: gives_def)

text \<open>Writes before the call do not touch the stream.\<close>

lemma gives_after: "inside S st st1 \<Longrightarrow> d_in st1 = d_in st \<Longrightarrow> gives r S st1 bs rest Q \<Longrightarrow> gives r S st bs rest Q"
  by (auto simp: gives_def moved_def intro: inside_trans)

lemma on_stream_reads:
  assumes "reads f bs v" and "fed st (bs @ post) rest"
  shows "\<exists>st1. on_stream f st = (Some v, st1) \<and> fed st1 post rest \<and> d_mem st1 = d_mem st \<and> moved {} st bs (post @ rest) st1"
proof -
  obtain src where "f (d_in st) = (Some v, consume (d_in st) src (length bs))" "src_has src (post @ rest)"
    using readsD [OF assms(1), of "d_in st" "post @ rest"] assms(2) by (auto simp: fed_def)
  moreover have "length post \<le> bytes_left (d_in st) - length bs" using assms(2) unfolding fed_def by auto
  ultimately show ?thesis
    by (intro exI [of _ "st\<lparr>d_in := consume (d_in st) src (length bs)\<rparr>"])
      (auto simp: on_stream_def fed_def moved_def consume_def)
qed

lemma gives_on_stream:
  assumes "reads f bs v" and "fed st (bs @ post) rest"
    and "\<And>st1. fed st1 post rest \<Longrightarrow> d_mem st1 = d_mem st \<Longrightarrow> gives (g v st1) S st1 post rest Q"
  shows "gives (case on_stream f st of (None, st) \<Rightarrow> Some (False, st) | (Some v, st) \<Rightarrow> g v st) S st (bs @ post) rest Q"
proof -
  obtain st1 where s: "on_stream f st = (Some v, st1)" "fed st1 post rest" "d_mem st1 = d_mem st"
    "moved {} st bs (post @ rest) st1" using on_stream_reads [OF assms(1,2)] by blast
  show ?thesis using assms(3) [OF s(2,3)] s(1) moved_trans [OF moved_mono [OF s(4)]]
    by (auto simp: gives_def)
qed

lemma gives_ret: "inside S st st' \<Longrightarrow> d_in st' = d_in st \<Longrightarrow> fed st [] rest \<Longrightarrow> Q (d_mem st') \<Longrightarrow>
  gives (Some (True, st')) S st [] rest Q"
  by (simp add: gives_def moved_def fed_def)

lemma gives_on_stream1:
  assumes "reads f bs v" and "fed st bs rest"
    and "\<And>st1. fed st1 [] rest \<Longrightarrow> d_mem st1 = d_mem st \<Longrightarrow> gives (g v st1) S st1 [] rest Q"
  shows "gives (case on_stream f st of (None, st) \<Rightarrow> Some (False, st) | (Some v, st) \<Rightarrow> g v st) S st bs rest Q"
  using gives_on_stream [where f = f and bs = bs and post = "[]" and g = g] assms by simp

lemma d_mem_store [simp]: "d_mem (d_store n a v st) = store n (d_mem st) a v"
  by (simp add: d_store_def)

lemma inside_store: "span a n \<subseteq> S \<Longrightarrow> inside S st (d_store n a v st)"
  using safe_store [of a n S st v] by (simp add: safe_def)

lemma read_mem_gives:
  assumes "fed st bs rest"
  shows "gives (Some (read_mem (length bs) dest st)) (span dest (length bs)) st bs rest (\<lambda>m. m = mem_write (d_mem st) dest bs)"
proof -
  obtain st1 where s: "on_stream (\<lambda>s. pb_read s (length bs)) st = (Some bs, st1)" "d_mem st1 = d_mem st" "moved {} st bs rest st1"
    using on_stream_reads [OF reads_read [OF refl], of st bs "[]" rest] assms by auto
  have "inside (span dest (length bs)) st1 (st1\<lparr>d_mem := mem_write (d_mem st1) dest bs\<rparr>)" by (rule inside_mem_write) simp
  then have "moved (span dest (length bs)) st bs rest (st1\<lparr>d_mem := mem_write (d_mem st1) dest bs\<rparr>)"
    using moved_mono [OF s(3), of "span dest (length bs)"] by (auto simp: moved_def intro: inside_trans)
  then show ?thesis using s(1,2) by (simp add: read_mem_def gives_def)
qed

section \<open>Numbers\<close>

lemma clamped_gives:
  assumes "narrow (f_data_size field) v = Some v" and "fed st [] rest"
    and "unat v mod 256 ^ unat (f_data_size field) = load (unat (f_data_size field)) m src"
  shows "gives (Some (store_clamped narrow field dest v st)) (span dest (unat (f_data_size field))) st [] rest
    (\<lambda>m'. mem_read m' dest (unat (f_data_size field)) = mem_read m src (unat (f_data_size field)))"
  using assms(1,2) store_copy [OF assms(3)]
  by (auto simp: store_clamped_def Let_def intro!: gives_ret inside_store)

lemma varint_gives:
  assumes "load_signed m (f_data_size field) src = Some v" and "fed st (varint_of (unat v)) rest"
  shows "gives (pb_dec_varint st field dest) (span dest (unat (f_data_size field))) st (varint_of (unat v)) rest
    (\<lambda>m'. mem_read m' dest (unat (f_data_size field)) = mem_read m src (unat (f_data_size field)))"
  unfolding pb_dec_varint_def Let_def
  by (rule gives_on_stream1 [OF reads_varint assms(2)], subst signed_copy(1) [OF assms(1)])
    (rule clamped_gives [where narrow = narrow_signed and field = field, OF signed_copy(2) [OF assms(1)] _ signed_copy(3) [OF assms(1)]])

lemma uvarint_gives:
  assumes "load_unsigned m (f_data_size field) src = Some v" and "fed st (varint_of (unat v)) rest"
  shows "gives (pb_dec_uvarint st field dest) (span dest (unat (f_data_size field))) st (varint_of (unat v)) rest
    (\<lambda>m'. mem_read m' dest (unat (f_data_size field)) = mem_read m src (unat (f_data_size field)))"
  unfolding pb_dec_uvarint_def Let_def
  by (rule gives_on_stream1 [OF reads_varint assms(2)])
    (rule clamped_gives [where narrow = narrow_unsigned and field = field, OF unsigned_copy(1) [OF assms(1)] _ unsigned_copy(2) [OF assms(1)]])

lemma svarint_gives:
  assumes "load_signed m (f_data_size field) src = Some v" and "fed st (varint_of (unat (zigzag v))) rest"
  shows "gives (pb_dec_svarint st field dest) (span dest (unat (f_data_size field))) st (varint_of (unat (zigzag v))) rest
    (\<lambda>m'. mem_read m' dest (unat (f_data_size field)) = mem_read m src (unat (f_data_size field)))"
  unfolding pb_dec_svarint_def Let_def
  by (rule gives_on_stream1 [OF reads_svarint assms(2)])
    (rule clamped_gives [where narrow = narrow_signed and field = field, OF signed_copy(2) [OF assms(1)] _ signed_copy(3) [OF assms(1)]])

lemma fixed_gives:
  "fed st (le_bytes 4 (unat (word_of_nat (load 4 m src) :: u32))) rest \<Longrightarrow>
    gives (pb_dec_fixed32 st field dest) (span dest 4) st (le_bytes 4 (unat (word_of_nat (load 4 m src) :: u32))) rest
      (\<lambda>m'. mem_read m' dest 4 = mem_read m src 4)"
  "fed st (le_bytes 8 (unat (word_of_nat (load 8 m src) :: u64))) rest \<Longrightarrow>
    gives (pb_dec_fixed64 st field dest) (span dest 8) st (le_bytes 8 (unat (word_of_nat (load 8 m src) :: u64))) rest
      (\<lambda>m'. mem_read m' dest 8 = mem_read m src 8)"
proof -
  have u: "unat (word_of_nat (load 4 m src) :: u32) = load 4 m src" "unat (word_of_nat (load 8 m src) :: u64) = load 8 m src"
    by (rule load_word, simp)+
  have v: "load 4 m src mod 256 ^ 4 = load 4 m src" "load 8 m src mod 256 ^ 8 = load 8 m src"
    using load_lt [of 4 m src] load_lt [of 8 m src] by (simp_all del: power_numeral)
  note r32 = reads_fixed32 [of "le_bytes 4 (load 4 m src)", simplified] and r64 = reads_fixed64 [of "le_bytes 8 (load 8 m src)", simplified]
  {
    assume "fed st (le_bytes 4 (unat (word_of_nat (load 4 m src) :: u32))) rest"
    then show "gives (pb_dec_fixed32 st field dest) (span dest 4) st (le_bytes 4 (unat (word_of_nat (load 4 m src) :: u32))) rest
      (\<lambda>m'. mem_read m' dest 4 = mem_read m src 4)"
      unfolding pb_dec_fixed32_def u using v(1) store_copy [of "load 4 m src" 4 m src _ dest] r32
      by (intro gives_on_stream1 [where v = "word_of_nat (load 4 m src)"])
        (auto simp: u intro!: gives_ret inside_store)
  next
    assume "fed st (le_bytes 8 (unat (word_of_nat (load 8 m src) :: u64))) rest"
    then show "gives (pb_dec_fixed64 st field dest) (span dest 8) st (le_bytes 8 (unat (word_of_nat (load 8 m src) :: u64))) rest
      (\<lambda>m'. mem_read m' dest 8 = mem_read m src 8)"
      unfolding pb_dec_fixed64_def u using v(2) store_copy [of "load 8 m src" 8 m src _ dest] r64
      by (intro gives_on_stream1 [where v = "word_of_nat (load 8 m src)"])
        (auto simp: u intro!: gives_ret inside_store)
  }
qed

section \<open>Strings\<close>

lemma strn_loop_spec:
  "k \<le> mx \<Longrightarrow> k \<le> strn_loop m p k mx \<and> strn_loop m p k mx \<le> mx \<and>
     (\<forall>i < strn_loop m p k mx - k. m (p + i) \<noteq> 0) \<and>
     (strn_loop m p k mx < mx \<longrightarrow> m (p + (strn_loop m p k mx - k)) = 0)"
proof (induction m p k mx rule: strn_loop.induct)
  case (1 m p k mx)
  show ?case
  proof (cases "k < mx \<and> m p \<noteq> 0")
    case False
    then have "strn_loop m p k mx = k" by (subst strn_loop.simps) auto
    then show ?thesis using "1.prems" False by auto
  next
    case True
    let ?n = "strn_loop m (Suc p) (Suc k) mx"
    have n: "strn_loop m p k mx = ?n" using True by (subst strn_loop.simps) simp
    have ih: "Suc k \<le> ?n" "?n \<le> mx" "\<And>i. i < ?n - Suc k \<Longrightarrow> m (Suc p + i) \<noteq> 0"
      "?n < mx \<Longrightarrow> m (Suc p + (?n - Suc k)) = 0" using "1.IH" True by auto
    have "m (p + i) \<noteq> 0" if "i < ?n - k" for i
      using that True ih(3) [of "i - 1"] by (cases i) auto
    moreover have "Suc p + (?n - Suc k) = p + (?n - k)" using ih(1) by simp
    ultimately show ?thesis using ih unfolding n by auto
  qed
qed

lemma strn_loop_eq:
  "(\<And>i. i < j \<Longrightarrow> m (p + i) \<noteq> 0) \<Longrightarrow> m (p + j) = 0 \<Longrightarrow> k + j < mx \<Longrightarrow> strn_loop m p k mx = k + j"
proof (induction j arbitrary: p k)
  case 0
  then show ?case by (subst strn_loop.simps) simp
next
  case (Suc j)
  have "strn_loop m (Suc p) (Suc k) mx = Suc k + j"
  proof (rule Suc.IH)
    fix i assume "i < j"
    then show "m (Suc p + i) \<noteq> 0" using Suc.prems(1) [of "Suc i"] by simp
  qed (use Suc.prems in auto)
  then show ?case using Suc.prems(1) [of 0] Suc.prems(3) by (subst strn_loop.simps) simp
qed

lemma unat_length32: "length bs < 2 ^ 32 \<Longrightarrow> unat (word_of_nat (length bs) :: u32) = length bs"
  by (rule unat_of_nat_lt) simp

lemma not_size_max: "\<not> PB_SIZE_MAX < w"
  using unat_u32_lt [of w] by (simp add: word_less_nat_alt not_less del: unat_u32_lt)

lemma bytes_gives:
  assumes len: "length bs < 2 ^ 32" and fed: "fed st (varint_of (length bs) @ bs) rest"
    and ty: "PB_ATYPE (f_type field) = PB_ATYPE_STATIC" "length bs + 4 \<le> unat (f_data_size field)"
  shows "gives (pb_dec_bytes st field dest) (span dest (unat (f_data_size field))) st (varint_of (length bs) @ bs) rest
    (\<lambda>m. load 4 m dest = length bs \<and> mem_read m (dest + 4) (length bs) = bs)"
  unfolding pb_dec_bytes_def Let_def
proof (rule gives_on_stream [OF reads_varint32 [OF len] fed], goal_cases)
  case (1 st1)
  let ?st = "d_store 4 dest (length bs) st1"
  have "fed ?st bs rest" using 1 by (simp add: fed_def)
  note r = read_mem_gives [OF this, of "dest + 4"]
  have "load 4 (mem_write (store 4 m dest (length bs)) (dest + 4) bs) dest = length bs" for m
    using load_store_same [of 4 m dest "length bs"] len
    by (simp add: load_def mem_read_write_disjoint)
  then have "gives (Some (read_mem (length bs) (dest + 4) ?st)) (span dest (unat (f_data_size field))) ?st bs rest
      (\<lambda>m. load 4 m dest = length bs \<and> mem_read m (dest + 4) (length bs) = bs)"
    by (intro gives_mono [OF r]) (use ty(2) in auto)
  moreover have "inside (span dest (unat (f_data_size field))) st1 ?st" by (rule inside_store) (use ty(2) in auto)
  ultimately show ?case using ty by (simp add: not_size_max unat_length32 [OF len] gives_after)
qed

lemma string_gives:
  assumes fed: "fed st (varint_of (length bs) @ bs) rest"
    and ty: "PB_ATYPE (f_type field) = PB_ATYPE_STATIC" "length bs < unat (f_data_size field)"
  shows "gives (pb_dec_string st field dest) (span dest (unat (f_data_size field))) st (varint_of (length bs) @ bs) rest
    (\<lambda>m. mem_read m dest (length bs) = bs \<and> m (dest + length bs) = 0)"
  unfolding pb_dec_string_def Let_def
proof -
  have b: "unat (f_data_size field) < 4294967296" by (rule unat_u32_lt)
  then have "length bs < 4294967295" using ty(2) by linarith
  then have len: "length bs < 2 ^ 32" and len1: "Suc (length bs) < 2 ^ LENGTH(32)" by simp_all
  have suc: "unat ((word_of_nat (length bs) :: u32) + 1) = Suc (length bs)"
    using unat_of_nat_lt [OF len1] by (simp only: of_nat_Suc add.commute [of _ 1])
  show "gives (case on_stream pb_decode_varint32 st of (None, st) \<Rightarrow> Some (False, st)
     | (Some sz, st) \<Rightarrow> if unat (sz + 1) < unat sz then Some (d_error ''size too large'' st)
         else if PB_ATYPE (f_type field) = PB_ATYPE_POINTER
              then Some (chk (allocate_field dest (unat (sz + 1)) 1 st)
                   (\<lambda>st. case read_mem (unat sz) (load 8 (d_mem st) dest) st of
                      (status, st') \<Rightarrow> (status, d_store 1 (load 8 (d_mem st) dest + unat sz) 0 st')))
              else if unat (f_data_size field) < unat (sz + 1) then Some (d_error ''string overflow'' st)
                   else Some (case read_mem (unat sz) dest st of (status, st) \<Rightarrow> (status, d_store 1 (dest + unat sz) 0 st)))
     (span dest (unat (f_data_size field))) st (varint_of (length bs) @ bs) rest
     (\<lambda>m. mem_read m dest (length bs) = bs \<and> m (dest + length bs) = 0)"
  proof (rule gives_on_stream [OF reads_varint32 [OF len] fed], goal_cases)
    case (1 st1)
    obtain st2 where r: "read_mem (length bs) dest st1 = (True, st2)" and mv: "moved (span dest (length bs)) st1 bs rest st2"
      and m2: "d_mem st2 = mem_write (d_mem st1) dest bs"
      using read_mem_gives [OF 1(1), of dest] by (auto simp: gives_def)
    let ?st = "d_store 1 (dest + length bs) 0 st2"
    have "moved (span dest (unat (f_data_size field))) st1 bs rest ?st"
      using moved_mono [OF mv, of "span dest (unat (f_data_size field))"] ty(2)
        inside_store [of "dest + length bs" 1 "span dest (unat (f_data_size field))" st2 0]
      by (auto simp: moved_def intro: inside_trans)
    moreover have "mem_read (d_mem ?st) dest (length bs) = mem_read (mem_write (d_mem st1) dest bs) dest (length bs)"
      unfolding m2 d_mem_store store_def by (rule mem_read_write_disjoint) simp
    moreover have "d_mem ?st (dest + length bs) = 0" by (simp add: store_def)
    ultimately show ?case using r ty unfolding unat_length32 [OF len] suc by (auto intro: givesI)
  qed
qed

lemma fixed_bytes_gives:
  assumes fed: "fed st (varint_of (length bs) @ bs) rest" and len: "length bs = unat (f_data_size field)"
  shows "gives (pb_dec_fixed_length_bytes st field dest) (span dest (unat (f_data_size field))) st (varint_of (length bs) @ bs) rest
    (\<lambda>m. mem_read m dest (length bs) = bs)"
proof -
  have l: "length bs < 2 ^ 32" using len unat_u32_lt [of "f_data_size field"] by (simp del: unat_u32_lt)
  have w: "word_of_nat (length bs) = f_data_size field" by (simp add: len)
  show ?thesis
    unfolding pb_dec_fixed_length_bytes_def
  proof (rule gives_on_stream [OF reads_varint32 [OF l] fed], goal_cases)
    case (1 st1)
    show ?case
    proof (cases "f_data_size field = 0")
      case True
      then have "bs = []" using len by simp
      then show ?thesis using 1 True by (auto simp: d_memset0_def inside_def intro!: gives_ret)
    next
      case False
      have "gives (Some (read_mem (length bs) dest st1)) (span dest (unat (f_data_size field))) st1 bs rest
          (\<lambda>m. mem_read m dest (length bs) = bs)"
        by (rule gives_mono [OF read_mem_gives [OF 1(1), of dest]]) (simp_all add: mem_read_write_same [of _ dest bs, unfolded len] len)
      then show ?thesis using False by (simp add: w not_size_max) (simp add: len)
    qed
  qed
qed

section \<open>One entry\<close>

text \<open>The test of \<open>pb_check_proto3_default_value\<close> on a static entry.\<close>

definition zero_value :: "mem \<Rightarrow> pb_field \<Rightarrow> addr \<Rightarrow> bool" where
  "zero_value m field p =
     (let lt = PB_LTYPE (f_type field) in
      if lt = PB_LTYPE_BYTES then load 4 m p = 0
      else if lt = PB_LTYPE_STRING then m p = 0
      else if lt = PB_LTYPE_FIXED_LENGTH_BYTES then f_data_size field = 0
      else list_all (\<lambda>b. b = 0) (mem_read m p (unat (f_data_size field))))"

text \<open>A string has its terminator inside the field; numbers of fixed width have fields of that
  width, byte arrays have room for their size and strings for their terminator.\<close>

definition terminated :: "mem \<Rightarrow> pb_field \<Rightarrow> addr \<Rightarrow> bool" where
  "terminated m field src \<longleftrightarrow> (PB_LTYPE (f_type field) = PB_LTYPE_STRING \<longrightarrow>
     strn_loop m src 0 (unat (f_data_size field)) < unat (f_data_size field))"

definition exact_size :: "pb_field \<Rightarrow> bool" where
  "exact_size field \<longleftrightarrow> (PB_LTYPE (f_type field) = PB_LTYPE_FIXED32 \<longrightarrow> f_data_size field = 4) \<and>
     (PB_LTYPE (f_type field) = PB_LTYPE_FIXED64 \<longrightarrow> f_data_size field = 8) \<and>
     (PB_LTYPE (f_type field) = PB_LTYPE_BYTES \<longrightarrow> 4 \<le> unat (f_data_size field)) \<and>
     (PB_LTYPE (f_type field) = PB_LTYPE_STRING \<longrightarrow> 0 < unat (f_data_size field))"

lemma value_wire_numeric:
  assumes "mem_read m' dest (unat (f_data_size field)) = mem_read m src (unat (f_data_size field))"
    and "PB_LTYPE (f_type field) \<in> {PB_LTYPE_VARINT, PB_LTYPE_UVARINT, PB_LTYPE_SVARINT, PB_LTYPE_FIXED32,
      PB_LTYPE_FIXED64, PB_LTYPE_FIXED_LENGTH_BYTES}" and "exact_size field"
  shows "value_wire D m' rec' field dest = value_wire D m rec field src \<and> zero_value m' field dest = zero_value m field src"
proof -
  have "load (unat (f_data_size field)) m' dest = load (unat (f_data_size field)) m src" using assms(1) by (simp add: load_def)
  then have "load_signed m' (f_data_size field) dest = load_signed m (f_data_size field) src"
    "load_unsigned m' (f_data_size field) dest = load_unsigned m (f_data_size field) src"
    by (auto simp: load_signed_def load_unsigned_def)
  then show ?thesis using assms by (auto simp: value_wire_def zero_value_def exact_size_def load_def Let_def)
qed

lemma submessage_gives:
  assumes ptr: "f_ptr field = PtrFields d" and len: "length body < 2 ^ 32"
    and fed: "fed st (varint_of (length body) @ body) rest"
    and call: "\<And>st1. fed st1 body rest \<Longrightarrow> bytes_left (d_in st1) = length body \<Longrightarrow> d_mem st1 = d_mem st \<Longrightarrow>
      gives ((if PB_HTYPE (f_type field) = PB_HTYPE_REPEATED then c_decode calls else c_noinit calls) (v_descr denv d) dest st1)
        S st1 body rest Q"
  shows "gives (pb_dec_submessage denv calls st field dest) S st (varint_of (length body) @ body) rest Q"
proof -
  have left: "length (varint_of (length body)) + length body \<le> bytes_left (d_in st)"
    and has: "src_has (i_source (d_in st)) (varint_of (length body) @ body @ rest)" using fed by (simp_all add: fed_def)
  obtain src where src: "src_has src (body @ rest)" and mk: "pb_make_string_substream (d_in st) =
       (Some ((d_in st)\<lparr>i_source := src, bytes_left := length body\<rparr>),
        (d_in st)\<lparr>i_source := src, bytes_left := bytes_left (d_in st) - length (varint_of (length body)) - length body\<rparr>)"
    using make_substream [OF len has left] by blast
  let ?sub = "(d_in st)\<lparr>i_source := src, bytes_left := length body\<rparr>"
  let ?par = "(d_in st)\<lparr>i_source := src, bytes_left := bytes_left (d_in st) - length (varint_of (length body)) - length body\<rparr>"
  have "fed (st\<lparr>d_in := ?sub\<rparr>) body rest" using src by (simp add: fed_def)
  from call [OF this] obtain st2 where
    c: "(if PB_HTYPE (f_type field) = PB_HTYPE_REPEATED then c_decode calls else c_noinit calls) (v_descr denv d) dest (st\<lparr>d_in := ?sub\<rparr>)
        = Some (True, st2)"
    and mv: "moved S (st\<lparr>d_in := ?sub\<rparr>) body rest st2" and q: "Q (d_mem st2)" by (auto simp: gives_def)
  then have "close_sub ?par (True, st2) = (True, st2\<lparr>d_in := ?par\<lparr>i_source := i_source (d_in st2), i_errmsg := i_errmsg (d_in st2)\<rparr>\<rparr>)"
    by (simp add: close_sub_def pb_close_string_substream_def moved_def)
  moreover have "pb_dec_submessage denv calls st field dest = Some (close_sub ?par (True, st2))"
    using ptr c by (simp add: pb_dec_submessage_def on_stream_def mk Let_def)
  ultimately show ?thesis using mv q by (auto simp: gives_def moved_def)
qed

lemma entry_gives:
  assumes w: "value_wire D m (msg_records env m n) field src = Some w"
    and ok: "entry_ok field" "exact_size field" "terminated m field src" and pos: "0 < src" "0 < dest"
    and fed: "fed st (payload w) rest" and len: "length (payload w) < 2 ^ 32" and D: "v_descr denv = D"
    and sub: "\<And>d rs st1. f_ptr field = PtrFields d \<Longrightarrow> msg_records env m n (D d) src = Some rs \<Longrightarrow>
      length (records_bytes rs) < 2 ^ 32 \<Longrightarrow> fed st1 (records_bytes rs) rest \<Longrightarrow>
      bytes_left (d_in st1) = length (records_bytes rs) \<Longrightarrow> d_mem st1 = d_mem st \<Longrightarrow>
      gives ((if PB_HTYPE (f_type field) = PB_HTYPE_REPEATED then c_decode calls else c_noinit calls) (D d) dest st1)
        (span dest (unat (f_data_size field))) st1 (records_bytes rs) rest (\<lambda>m'. msg_records env m' n (D d) dest = Some rs)"
    and ptr: "PB_LTYPE (f_type field) = PB_LTYPE_SUBMESSAGE \<Longrightarrow> \<exists>d. f_ptr field = PtrFields d"
  shows "gives (PB_DECODERS denv calls (PB_LTYPE (f_type field)) st field dest) (span dest (unat (f_data_size field)))
    st (payload w) rest (\<lambda>m'. value_wire D m' (msg_records env m' n) field dest = Some w \<and>
      (PB_LTYPE (f_type field) \<noteq> PB_LTYPE_SUBMESSAGE \<longrightarrow> zero_value m' field dest = zero_value m field src))"
proof -
  let ?lt = "PB_LTYPE (f_type field)" and ?ds = "unat (f_data_size field)"
  let ?Q = "\<lambda>m'. value_wire D m' (msg_records env m' n) field dest = Some w \<and>
      (?lt \<noteq> PB_LTYPE_SUBMESSAGE \<longrightarrow> zero_value m' field dest = zero_value m field src)"
  have st: "PB_ATYPE (f_type field) = PB_ATYPE_STATIC" using ok(1) by (simp add: entry_ok_def Let_def)
  have num: "?Q m'" if "mem_read m' dest ?ds = mem_read m src ?ds" "?lt \<in> {PB_LTYPE_VARINT, PB_LTYPE_UVARINT, PB_LTYPE_SVARINT,
      PB_LTYPE_FIXED32, PB_LTYPE_FIXED64, PB_LTYPE_FIXED_LENGTH_BYTES}" for m'
    using value_wire_numeric [where D = D and rec = "msg_records env m n" and rec' = "msg_records env m' n", OF that ok(2)] w by simp
  consider (varint) v where "?lt = PB_LTYPE_VARINT" "load_signed m (f_data_size field) src = Some v" "w = WVarint v"
    | (uvarint) v where "?lt = PB_LTYPE_UVARINT" "load_unsigned m (f_data_size field) src = Some v" "w = WVarint v"
    | (svarint) v where "?lt = PB_LTYPE_SVARINT" "load_signed m (f_data_size field) src = Some v" "w = WVarint (zigzag v)"
    | (fixed32) "?lt = PB_LTYPE_FIXED32" "w = W32 (word_of_nat (load 4 m src))"
    | (fixed64) "?lt = PB_LTYPE_FIXED64" "w = W64 (word_of_nat (load 8 m src))"
    | (bytes) bs where "?lt = PB_LTYPE_BYTES" "bytes_field m field src = Some bs" "w = WLen bs"
    | (strings) "?lt = PB_LTYPE_STRING" "w = WLen (string_field m field src)"
    | (submsg) rs where "?lt = PB_LTYPE_SUBMESSAGE" "f_ptr field \<noteq> PtrNull"
        "msg_records env m n (sub_fields D field) src = Some rs" "w = WLen (records_bytes rs)"
    | (fixlen) "?lt = PB_LTYPE_FIXED_LENGTH_BYTES" "w = WLen (mem_read m src ?ds)"
    using w unfolding value_wire_def Let_def by (auto split: if_splits)
  then show ?thesis
  proof cases
    case varint
    then show ?thesis using gives_mono [OF varint_gives [OF varint(2)] subset_refl num] fed by (simp add: PB_DECODERS_def)
  next
    case uvarint
    then show ?thesis using gives_mono [OF uvarint_gives [OF uvarint(2)] subset_refl num] fed by (simp add: PB_DECODERS_def)
  next
    case svarint
    then show ?thesis using gives_mono [OF svarint_gives [OF svarint(2)] subset_refl num] fed by (simp add: PB_DECODERS_def)
  next
    case fixed32
    then have "?ds = 4" using ok(2) by (simp add: exact_size_def)
    then show ?thesis using gives_mono [OF fixed_gives(1) subset_refl, of st m src rest dest ?Q] fed num fixed32
      by (simp add: PB_DECODERS_def)
  next
    case fixed64
    then have "?ds = 8" using ok(2) by (simp add: exact_size_def)
    then show ?thesis using gives_mono [OF fixed_gives(2) subset_refl, of st m src rest dest ?Q] fed num fixed64
      by (simp add: PB_DECODERS_def)
  next
    case bytes
    then have l: "load 4 m src + 4 \<le> ?ds" and bs: "bs = mem_read m (src + 4) (load 4 m src)"
      using st pos by (auto simp: bytes_field_def Let_def split: if_splits)
    have lb: "length bs = load 4 m src" by (simp add: bs)
    have q: "?Q m'" if "load 4 m' dest = length bs \<and> mem_read m' (dest + 4) (length bs) = bs" for m'
      using that bytes pos l st lb by (simp add: value_wire_def bytes_field_def zero_value_def Let_def)
    have fed': "fed st (varint_of (length bs) @ bs) rest" using fed bytes by simp
    have "length bs < 2 ^ 32" using len bytes by simp
    from gives_mono [OF bytes_gives [OF this fed' st] subset_refl q] l lb show ?thesis using bytes by (simp add: PB_DECODERS_def)
  next
    case strings
    let ?k = "strn_loop m src 0 ?ds"
    let ?bs = "mem_read m src ?k"
    have k: "?k < ?ds" using ok(3) strings by (simp add: terminated_def)
    have spec: "\<And>i. i < ?k \<Longrightarrow> m (src + i) \<noteq> 0" "m (src + ?k) = 0" using strn_loop_spec [of 0 ?ds m src] k by auto
    have w': "w = WLen ?bs" using strings pos st by (simp add: string_field_def)
    have q: "?Q m'" if h: "mem_read m' dest (length ?bs) = ?bs \<and> m' (dest + length ?bs) = 0" for m'
    proof -
      have c: "m' (dest + i) = m (src + i)" if "i < ?k" for i
        using arg_cong [OF conjunct1 [OF h], of "\<lambda>xs. xs ! i"] that by simp
      have "strn_loop m' dest 0 ?ds = 0 + ?k" by (rule strn_loop_eq) (use c spec k h in auto)
      then have "value_wire D m' (msg_records env m' n) field dest = Some w"
        using strings(1) pos st h w' by (simp add: value_wire_def string_field_def)
      moreover have "m' dest = m src" using c [of 0] spec(2) h by (cases ?k) auto
      ultimately show ?thesis using strings(1) by (simp add: zero_value_def)
    qed
    have fed': "fed st (varint_of (length ?bs) @ ?bs) rest" using fed w' by simp
    from gives_mono [OF string_gives [OF fed' st] subset_refl q] k show ?thesis using strings(1) w' by (simp add: PB_DECODERS_def)
  next
    case submsg
    obtain d where d: "f_ptr field = PtrFields d" using ptr submsg(1) by blast
    then have rs: "msg_records env m n (D d) src = Some rs" using submsg(3) by (simp add: sub_fields_def)
    have l: "length (records_bytes rs) < 2 ^ 32" using len submsg(4) by simp
    have q: "?Q m'" if "msg_records env m' n (D d) dest = Some rs" for m'
      using that submsg d by (simp add: value_wire_def sub_fields_def)
    have fed': "fed st (varint_of (length (records_bytes rs)) @ records_bytes rs) rest" using fed submsg(4) by simp
    have "gives (pb_dec_submessage denv calls st field dest) (span dest ?ds) st
        (varint_of (length (records_bytes rs)) @ records_bytes rs) rest (\<lambda>m'. msg_records env m' n (D d) dest = Some rs)"
      by (rule submessage_gives [OF d l fed']) (unfold D, rule sub [OF d rs l])
    from gives_mono [OF this subset_refl q] show ?thesis using submsg(1,4) by (simp add: PB_DECODERS_def)
  next
    case fixlen
    have fed': "fed st (varint_of (length (mem_read m src ?ds)) @ mem_read m src ?ds) rest" using fed fixlen by simp
    have q: "?Q m'" if "mem_read m' dest (length (mem_read m src ?ds)) = mem_read m src ?ds" for m'
      using num [of m'] that fixlen(1) by simp
    from gives_mono [OF fixed_bytes_gives [OF fed'] subset_refl q] show ?thesis using fixlen by (simp add: PB_DECODERS_def)
  qed
qed

end
