(* ===== verification/PbPlain.thy ===== *)
theory PbPlain imports PbValue begin

text \<open>
  Messages of plain fields: \<open>plain\<close> says that the fields of a descriptor have static storage, distinct tags and
  bytes of their own, that arrays have a counter, and that an optional field without a flag is no submessage and no
  fixed-length bytes; there are no pointers, callbacks, extensions and unions. The wire records of a message depend on its own bytes only.
  \<open>fresh\<close> describes the messages that \<open>pb_message_set_to_defaults\<close> leaves, \<open>good\<close> the messages whose
  strings are terminated inside their fields (the encoder sends other strings too, the decoder
  refuses them).
\<close>

section \<open>Descriptors without unions\<close>

abbreviation htype :: "pb_field_iter \<Rightarrow> u8" where "htype it \<equiv> PB_HTYPE (f_type (it_field it))"
abbreviation ltype :: "pb_field_iter \<Rightarrow> u8" where "ltype it \<equiv> PB_LTYPE (f_type (it_field it))"
abbreviation dsize :: "pb_field_iter \<Rightarrow> nat" where "dsize it \<equiv> unat (f_data_size (it_field it))"

definition size_addr :: "pb_field_iter \<Rightarrow> addr" where
  "size_addr it = ptr_add (it_pData it) (f_size_offset (it_field it))"

definition sized :: "pb_field_iter \<Rightarrow> bool" where
  "sized it \<longleftrightarrow> f_size_offset (it_field it) \<noteq> 0"

text \<open>The bytes a field owns: its entries, and its flag or counter.\<close>

definition flag_span :: "pb_field_iter \<Rightarrow> addr set" where
  "flag_span it = (if htype it = PB_HTYPE_OPTIONAL \<and> sized it then span (size_addr it) 1
     else if htype it = PB_HTYPE_REPEATED then span (size_addr it) 4 else {})"

definition data_span :: "pb_field_iter \<Rightarrow> addr set" where
  "data_span it = span (it_pData it) (dsize it * entries (it_field it))"

definition foot :: "pb_field_iter \<Rightarrow> addr set" where
  "foot it = data_span it \<union> flag_span it"

text \<open>A field that is no union member, with a counter when it is an array; an optional field without a flag is
  present when it is not zero, and then it is no submessage, no fixed-length bytes and has no default.\<close>

definition plain_type :: "pb_field \<Rightarrow> bool" where
  "plain_type f \<longleftrightarrow> entry_ok f \<and> exact_size f \<and> unat (f_tag f) < 2 ^ 29 \<and> PB_HTYPE (f_type f) \<noteq> PB_HTYPE_ONEOF \<and>
     (PB_HTYPE (f_type f) = PB_HTYPE_REPEATED \<longrightarrow> f_size_offset f \<noteq> 0) \<and>
     (PB_HTYPE (f_type f) = PB_HTYPE_OPTIONAL \<and> f_size_offset f = 0 \<longrightarrow>
        PB_LTYPE (f_type f) \<noteq> PB_LTYPE_SUBMESSAGE \<and> PB_LTYPE (f_type f) \<noteq> PB_LTYPE_FIXED_LENGTH_BYTES \<and> f_ptr f = PtrNull)"

definition plain_field :: "(nat \<Rightarrow> addr \<Rightarrow> nat \<Rightarrow> bool) \<Rightarrow> pb_field_iter \<Rightarrow> addr \<Rightarrow> nat \<Rightarrow> bool" where
  "plain_field sub it dest sz \<longleftrightarrow>
     plain_type (it_field it) \<and> field_fits sub it dest sz \<and> flag_span it \<inter> data_span it = {} \<and>
     (sized it \<longrightarrow> size_addr it \<noteq> it_pData it)"

lemma plain_type_it:
  "plain_type (it_field it) \<longleftrightarrow> entry_ok (it_field it) \<and> exact_size (it_field it) \<and> unat (f_tag (it_field it)) < 2 ^ 29 \<and>
     htype it \<noteq> PB_HTYPE_ONEOF \<and> (htype it = PB_HTYPE_REPEATED \<longrightarrow> sized it) \<and>
     (htype it = PB_HTYPE_OPTIONAL \<and> \<not> sized it \<longrightarrow> ltype it \<noteq> PB_LTYPE_SUBMESSAGE \<and> ltype it \<noteq> PB_LTYPE_FIXED_LENGTH_BYTES \<and>
        f_ptr (it_field it) = PtrNull)"
  by (simp add: plain_type_def sized_def)

lemmas plain_field_unfold = plain_field_def plain_type_it

text \<open>A message of such fields: tags are distinct, and no two fields share a byte.\<close>

primrec plain :: "descr_env \<Rightarrow> nat \<Rightarrow> pb_field list \<Rightarrow> addr \<Rightarrow> nat \<Rightarrow> bool" where
  "plain D 0 flds dest sz = False"
| "plain D (Suc n) flds dest sz \<longleftrightarrow>
     (\<forall>k < max 1 (nfields flds). plain_field (\<lambda>d. plain D n (D d)) (iter_at flds dest k) dest sz) \<and>
     (\<forall>j < nfields flds. \<forall>k < nfields flds. j \<noteq> k \<longrightarrow>
        f_tag (flds ! j) \<noteq> f_tag (flds ! k) \<and> foot (iter_at flds dest j) \<inter> foot (iter_at flds dest k) = {})"

lemma plain_fieldD:
  "plain D (Suc n) flds dest sz \<Longrightarrow> k < nfields flds \<Longrightarrow> plain_field (\<lambda>d. plain D n (D d)) (iter_at flds dest k) dest sz"
  by simp

lemma plain_apart:
  "plain D (Suc n) flds dest sz \<Longrightarrow> j < nfields flds \<Longrightarrow> k < nfields flds \<Longrightarrow> j \<noteq> k \<Longrightarrow>
     f_tag (flds ! j) \<noteq> f_tag (flds ! k) \<and> foot (iter_at flds dest j) \<inter> foot (iter_at flds dest k) = {}"
  by (auto simp del: iter_at.simps)

lemma field_fits_mono:
  "field_fits sub it dest sz \<Longrightarrow> (\<And>d a b. sub d a b \<Longrightarrow> sub' d a b) \<Longrightarrow> field_fits sub' it dest sz"
  by (auto simp: field_fits_def Let_def split: pb_ptr.splits)

lemma plain_fits: "plain D n flds dest sz \<Longrightarrow> fits D n flds dest sz"
proof (induction n arbitrary: flds dest sz)
  case 0
  then show ?case by simp
next
  case (Suc n)
  have "field_fits (\<lambda>d. fits D n (D d)) (iter_at flds dest k) dest sz" if "k < max 1 (nfields flds)" for k
  proof (rule field_fits_mono)
    show "field_fits (\<lambda>d. plain D n (D d)) (iter_at flds dest k) dest sz"
      using Suc.prems that by (simp add: plain_field_unfold)
  qed (rule Suc.IH)
  then show ?case by simp
qed

section \<open>What the iterator points to\<close>

lemma iter_pData_ge: "dest \<le> it_pData (iter_at flds dest k)"
proof (induction k)
  case 0
  then show ?case by (simp add: pb_field_iter_begin_def Let_def)
next
  case (Suc k)
  have "dest \<le> it_pData (snd (pb_field_iter_next it))" if "it_dest it = dest" "dest \<le> it_pData it" for it
    using that by (auto simp: pb_field_iter_next_def pb_field_iter_begin_def Let_def)
  then show ?case using Suc by simp
qed

lemma iter_pSize:
  assumes "\<And>j. j \<le> k \<Longrightarrow> htype (iter_at flds dest j) \<noteq> PB_HTYPE_ONEOF" and "k < nfields flds"
  shows "it_pSize (iter_at flds dest k) = PMem (size_addr (iter_at flds dest k)) \<and>
    it_req (iter_at flds dest k) = length (filter (\<lambda>f. PB_HTYPE (f_type f) = PB_HTYPE_REQUIRED) (take k flds))"
  using assms
proof (induction k)
  case 0
  then show ?case by (simp add: pb_field_iter_begin_def size_addr_def it_field_def Let_def)
next
  case (Suc k)
  have k: "k < nfields flds" using Suc.prems by simp
  then have kl: "k < length flds" using nfields_le [of flds] by simp
  have nx: "fst (pb_field_iter_next (iter_at flds dest k))" using k Suc.prems by (simp add: iter_next_pos iter_at_pos)
  have f: "it_field (iter_at flds dest k) = flds ! k" by (rule iter_at_field [OF k])
  have "it_pSize (snd (pb_field_iter_next it)) = PMem (size_addr (snd (pb_field_iter_next it))) \<and>
      it_req (snd (pb_field_iter_next it)) = (if htype it = PB_HTYPE_REQUIRED then Suc (it_req it) else it_req it)"
    if "fst (pb_field_iter_next it)" "htype it \<noteq> PB_HTYPE_ONEOF" for it
    using that by (auto simp: pb_field_iter_next_def size_addr_def it_field_def Let_def split: if_splits)
  from this [OF nx] Suc.prems(1) [of k] Suc.IH [OF _ k] Suc.prems(1) show ?case
    using kl f by (simp add: take_Suc_conv_app_nth)
qed

definition reqs :: "pb_field list \<Rightarrow> nat \<Rightarrow> nat" where
  "reqs flds k = length (filter (\<lambda>f. PB_HTYPE (f_type f) = PB_HTYPE_REQUIRED) (take k flds))"

lemma plain_iter:
  assumes "plain D (Suc n) flds dest sz" and "k < nfields flds"
  shows "it_pSize (iter_at flds dest k) = PMem (size_addr (iter_at flds dest k))"
    and "it_req (iter_at flds dest k) = reqs flds k"
proof -
  have "htype (iter_at flds dest j) \<noteq> PB_HTYPE_ONEOF" if "j \<le> k" for j
    using plain_fieldD [OF assms(1), of j] that assms(2) by (simp add: plain_field_unfold)
  from iter_pSize [OF this assms(2)] show "it_pSize (iter_at flds dest k) = PMem (size_addr (iter_at flds dest k))"
    "it_req (iter_at flds dest k) = reqs flds k" by (auto simp: reqs_def)
qed

lemma reqs_Suc:
  "k < nfields flds \<Longrightarrow> reqs flds (Suc k) = (if PB_HTYPE (f_type (flds ! k)) = PB_HTYPE_REQUIRED then Suc (reqs flds k) else reqs flds k)"
  using nfields_le [of flds] by (simp add: reqs_def take_Suc_conv_app_nth)

lemma foot_lies:
  assumes "plain D (Suc n) flds dest sz" and "k < nfields flds"
  shows "foot (iter_at flds dest k) \<subseteq> span dest sz"
proof -
  let ?it = "iter_at flds dest k"
  note p = plain_fieldD [OF assms, unfolded plain_field_unfold field_fits_def Let_def]
  note q = plain_iter(1) [OF assms]
  have "data_span ?it \<subseteq> span dest sz" unfolding data_span_def by (rule lies_span) (use p in blast)
  moreover have "flag_span ?it \<subseteq> span dest sz"
  proof -
    have "lies (size_addr ?it) 4 dest sz" if "htype ?it = PB_HTYPE_REPEATED" using p that q by (simp add: psize_lies_def del: iter_at.simps)
    moreover have "lies (size_addr ?it) 1 dest sz" if "htype ?it = PB_HTYPE_OPTIONAL" "sized ?it"
      using p that q by (simp add: psize_lies_def del: iter_at.simps)
    ultimately show ?thesis by (auto simp: flag_span_def lies_def)
  qed
  ultimately show ?thesis by (simp add: foot_def)
qed

section \<open>A value depends on its bytes only\<close>

abbreviation agree :: "addr set \<Rightarrow> mem \<Rightarrow> mem \<Rightarrow> bool" where
  "agree S m m' \<equiv> (\<forall>a \<in> S. m' a = m a)"

lemma agree_read: "agree S m m' \<Longrightarrow> span a n \<subseteq> S \<Longrightarrow> mem_read m' a n = mem_read m a n"
  by (rule mem_read_cong) (auto simp: subset_iff)

lemma agree_load: "agree S m m' \<Longrightarrow> span a n \<subseteq> S \<Longrightarrow> load n m' a = load n m a"
  unfolding load_def using agree_read by metis

lemma strn_loop_cong: "(\<And>i. i < mx - k \<Longrightarrow> m' (p + i) = m (p + i)) \<Longrightarrow> strn_loop m' p k mx = strn_loop m p k mx"
proof (induction m p k mx rule: strn_loop.induct)
  case (1 m p k mx)
  show ?case
  proof (cases "k < mx \<and> m p \<noteq> 0")
    case True
    have "strn_loop m' (Suc p) (Suc k) mx = strn_loop m (Suc p) (Suc k) mx"
    proof (rule "1.IH" [OF True])
      fix i assume "i < mx - Suc k"
      then show "m' (Suc p + i) = m (Suc p + i)" using "1.prems" [of "Suc i"] by simp
    qed
    then show ?thesis using True "1.prems" [of 0] by (subst (1 2) strn_loop.simps) simp
  next
    case False
    then show ?thesis using "1.prems" [of 0] by (subst (1 2) strn_loop.simps) auto
  qed
qed

lemma value_wire_frame:
  assumes ag: "agree (span p (unat (f_data_size field))) m m'" and ok: "entry_ok field" "exact_size field"
    and rec: "\<And>d. f_ptr field = PtrFields d \<Longrightarrow> rec' (D d) p = rec (D d) p"
    and ptr: "PB_LTYPE (f_type field) = PB_LTYPE_SUBMESSAGE \<Longrightarrow> \<exists>d. f_ptr field = PtrFields d"
  shows "value_wire D m' rec' field p = value_wire D m rec field p"
proof -
  let ?ds = "unat (f_data_size field)" and ?lt = "PB_LTYPE (f_type field)"
  have st: "PB_ATYPE (f_type field) = PB_ATYPE_STATIC" using ok(1) by (simp add: entry_ok_def Let_def)
  have rd: "mem_read m' p n = mem_read m p n" if "n \<le> ?ds" for n by (rule agree_read [OF ag]) (use that in auto)
  have num: "mem_read m' p ?ds = mem_read m p ?ds" by (rule rd) simp
  consider (num) "?lt \<in> {PB_LTYPE_VARINT, PB_LTYPE_UVARINT, PB_LTYPE_SVARINT, PB_LTYPE_FIXED32,
      PB_LTYPE_FIXED64, PB_LTYPE_FIXED_LENGTH_BYTES}" | (b) "?lt = PB_LTYPE_BYTES" | (s) "?lt = PB_LTYPE_STRING" | (m) "?lt = PB_LTYPE_SUBMESSAGE"
    using ltype_cases [of ?lt] ok(1) by (auto simp: entry_ok_def Let_def)
  then show ?thesis
  proof cases
    case num
    from value_wire_numeric [where rec = rec and rec' = rec' and D = D, OF \<open>mem_read m' p ?ds = mem_read m p ?ds\<close> num ok(2)]
    show ?thesis by simp
  next
    case b
    have "load 4 m' p = load 4 m p" if "4 \<le> ?ds" using rd [OF that] by (simp add: load_def)
    moreover have "mem_read m' (p + 4) n = mem_read m (p + 4) n" if "n + 4 \<le> ?ds" for n
      by (rule agree_read [OF ag]) (use that in auto)
    ultimately have "bytes_field m' field p = bytes_field m field p"
      by (cases "4 \<le> ?ds") (auto simp: bytes_field_def st Let_def)
    then show ?thesis using b by (simp add: value_wire_def)
  next
    case s
    have "strn_loop m' p 0 ?ds = strn_loop m p 0 ?ds" by (rule strn_loop_cong) (use ag in auto)
    moreover have "strn_loop m p 0 ?ds \<le> ?ds" using strn_loop_spec [of 0 ?ds m p] by simp
    ultimately show ?thesis using s rd st by (simp add: value_wire_def string_field_def)
  next
    case m
    with ptr obtain d where "f_ptr field = PtrFields d" by blast
    then show ?thesis using m rec by (simp add: value_wire_def sub_fields_def)
  qed
qed

lemma zero_value_frame:
  assumes "agree (span p (unat (f_data_size field))) m m'" and "exact_size field"
  shows "zero_value m' field p = zero_value m field p"
proof -
  have "mem_read m' p (unat (f_data_size field)) = mem_read m p (unat (f_data_size field))" by (rule agree_read [OF assms(1)]) simp
  moreover have "load 4 m' p = load 4 m p" if "PB_LTYPE (f_type field) = PB_LTYPE_BYTES"
    by (rule agree_load [OF assms(1)]) (use assms(2) that in \<open>auto simp: exact_size_def\<close>)
  ultimately show ?thesis using assms by (auto simp: zero_value_def exact_size_def Let_def)
qed

section \<open>Records of a plain field\<close>

text \<open>The test of the encoder for fields without a flag.\<close>

lemma check_default_plain:
  assumes "htype it = PB_HTYPE_OPTIONAL" "\<not> sized it" "ltype it \<noteq> PB_LTYPE_SUBMESSAGE" "entry_ok (it_field it)"
  shows "pb_check_proto3_default_value D m (Suc n) (it_field it) (it_pData it) = Some (zero_value m (it_field it) (it_pData it))"
  using assms by (simp add: check_default_step_def zero_value_def sized_def entry_ok_def Let_def)

text \<open>How many entries are in use, and the records of a plain field by cases.\<close>

definition in_use :: "mem \<Rightarrow> pb_field_iter \<Rightarrow> nat" where
  "in_use m it = (if htype it = PB_HTYPE_REQUIRED then 1
     else if htype it = PB_HTYPE_OPTIONAL
     then (if sized it \<and> load 1 m (size_addr it) = 0 \<or> \<not> sized it \<and> zero_value m (it_field it) (it_pData it) then 0 else 1)
     else load 4 m (size_addr it))"

lemma entry_records_plain:
  assumes p: "plain_type (it_field it)" and pos: "0 < it_pData it"
  shows "entry_records env m rec n it =
    (if htype it = PB_HTYPE_OPTIONAL \<and> \<not> sized it \<and> n = 0 then None
     else if htype it = PB_HTYPE_REPEATED then array_records (e_descr env) m rec (it_field it) (it_pData it) (in_use m it)
     else if in_use m it = 0 then Some []
     else map_option (\<lambda>w. [(f_tag (it_field it), w)]) (value_wire (e_descr env) m rec (it_field it) (it_pData it)))"
proof -
  note q = p [unfolded plain_type_it]
  have e: "entry_ok (it_field it)" using q by blast
  then have st: "PB_ATYPE (f_type (it_field it)) = PB_ATYPE_STATIC" "ltype it \<noteq> PB_LTYPE_EXTENSION" by (simp_all add: entry_ok_def Let_def)
  have ht: "htype it = PB_HTYPE_REQUIRED \<or> htype it = PB_HTYPE_OPTIONAL \<or> htype it = PB_HTYPE_REPEATED"
    using htype_cases [of "f_type (it_field it)"] q by auto
  have cd: "pb_check_proto3_default_value (e_descr env) m (Suc k) (it_field it) (it_pData it) = Some (zero_value m (it_field it) (it_pData it))"
    if "htype it = PB_HTYPE_OPTIONAL" "\<not> sized it" for k using check_default_plain [OF that _ e] q that by blast
  have rep: "htype it = PB_HTYPE_REPEATED \<Longrightarrow> sized it" using q by blast
  have "entry_records env m rec n it = basic_records (e_descr env) m rec n (it_field it) (it_pData it)"
    using st by (simp add: entry_records_def field_records_def)
  also have "\<dots> = (if htype it = PB_HTYPE_OPTIONAL \<and> \<not> sized it \<and> n = 0 then None
     else if htype it = PB_HTYPE_REPEATED then array_records (e_descr env) m rec (it_field it) (it_pData it) (in_use m it)
     else if in_use m it = 0 then Some []
     else map_option (\<lambda>w. [(f_tag (it_field it), w)]) (value_wire (e_descr env) m rec (it_field it) (it_pData it)))"
  proof (cases "htype it = PB_HTYPE_OPTIONAL")
    case True
    then show ?thesis using cd [OF True] pos st
      by (cases "sized it"; cases n) (auto simp add: basic_records_def in_use_def sized_def [symmetric] size_addr_def [symmetric] Let_def
        simp del: pb_check_proto3_default_value.simps(2))
  next
    case False
    then show ?thesis using ht rep pos st
      by (auto simp add: basic_records_def in_use_def sized_def [symmetric] size_addr_def [symmetric] Let_def
        simp del: pb_check_proto3_default_value.simps)
  qed
  finally show ?thesis .
qed

lemma entry_addr: "i < entries (it_field it) \<Longrightarrow> span (it_pData it + i * dsize it) (dsize it) \<subseteq> data_span it"
  using entry_span [of i "it_field it" "it_pData it" "it_pData it" "dsize it * entries (it_field it)"]
  by (auto simp: data_span_def lies_def mult.commute)

lemma plain_field_type: "plain_field sub it dest sz \<Longrightarrow> plain_type (it_field it)"
  by (simp add: plain_field_def)

lemma plain_ptr:
  assumes "plain_field sub it dest sz" and "ltype it = PB_LTYPE_SUBMESSAGE"
  shows "\<exists>d. f_ptr (it_field it) = PtrFields d"
  using assms by (auto simp: plain_field_unfold field_fits_def Let_def split: pb_ptr.splits)

lemma in_use_frame:
  assumes p: "plain_field sub it dest sz" and ag: "agree (foot it) m m'"
  shows "in_use m' it = in_use m it"
proof -
  have "load 4 m' (size_addr it) = load 4 m (size_addr it)" if "htype it = PB_HTYPE_REPEATED"
    by (rule agree_load [OF ag]) (use that in \<open>auto simp: foot_def flag_span_def\<close>)
  moreover have "load 1 m' (size_addr it) = load 1 m (size_addr it)" if "htype it = PB_HTYPE_OPTIONAL" "sized it"
    by (rule agree_load [OF ag]) (use that in \<open>auto simp: foot_def flag_span_def\<close>)
  moreover have "zero_value m' (it_field it) (it_pData it) = zero_value m (it_field it) (it_pData it)"
    if "htype it = PB_HTYPE_OPTIONAL"
    by (rule zero_value_frame)
      (use ag p that in \<open>auto simp: foot_def data_span_def entries_def plain_field_unfold\<close>)
  moreover have "htype it = PB_HTYPE_REQUIRED \<or> htype it = PB_HTYPE_OPTIONAL \<or> htype it = PB_HTYPE_REPEATED"
    using htype_cases [of "f_type (it_field it)"] p by (auto simp: plain_field_unfold)
  ultimately show ?thesis by (auto simp: in_use_def)
qed

lemma array_records_static:
  assumes "PB_ATYPE (f_type field) = PB_ATYPE_STATIC"
  shows "array_records D m rec field p count =
    (if count = 0 then Some [] else if unat (f_array_size field) < count then None
     else map_option (\<lambda>ws. if PB_LTYPE (f_type field) \<le> PB_LTYPE_LAST_PACKABLE
            then [(f_tag field, WLen (concat (map payload ws)))] else map (Pair (f_tag field)) ws)
       (those (map (value_wire D m rec field) (item_addrs field p count))))"
  using assms by (simp add: array_records_def Let_def cong: if_cong)

lemma entry_frame:
  assumes p: "plain_field sub it dest sz" and pos: "0 < it_pData it" and ag: "agree (foot it) m m'"
    and rec: "\<And>d i. f_ptr (it_field it) = PtrFields d \<Longrightarrow> i < entries (it_field it) \<Longrightarrow>
      rec' (e_descr env d) (it_pData it + i * dsize it) = rec (e_descr env d) (it_pData it + i * dsize it)"
  shows "entry_records env m' rec' n it = entry_records env m rec n it"
proof -
  note q = p [unfolded plain_field_unfold field_fits_def Let_def]
  have e: "entry_ok (it_field it)" "exact_size (it_field it)" using q by blast+
  have st: "PB_ATYPE (f_type (it_field it)) = PB_ATYPE_STATIC" using e(1) by (simp add: entry_ok_def Let_def)
  have vw: "value_wire (e_descr env) m' rec' (it_field it) (it_pData it + i * dsize it) =
      value_wire (e_descr env) m rec (it_field it) (it_pData it + i * dsize it)" if "i < entries (it_field it)" for i
  proof (rule value_wire_frame [OF _ e])
    show "agree (span (it_pData it + i * dsize it) (dsize it)) m m'"
      using ag entry_addr [OF that] by (auto simp: foot_def subset_iff)
  qed (use rec that plain_ptr [OF p] in auto)
  have u: "in_use m' it = in_use m it" by (rule in_use_frame [OF p ag])
  have arr: "array_records (e_descr env) m' rec' (it_field it) (it_pData it) (in_use m it) =
      array_records (e_descr env) m rec (it_field it) (it_pData it) (in_use m it)" if "htype it = PB_HTYPE_REPEATED"
  proof (cases "in_use m it \<le> unat (f_array_size (it_field it))")
    case False
    then show ?thesis using st by (simp add: array_records_def Let_def)
  next
    case True
    then have "in_use m it \<le> entries (it_field it)" using that by (simp add: entries_def)
    then have "map (value_wire (e_descr env) m' rec' (it_field it)) (item_addrs (it_field it) (it_pData it) (in_use m it)) =
        map (value_wire (e_descr env) m rec (it_field it)) (item_addrs (it_field it) (it_pData it) (in_use m it))"
      using vw by (simp add: item_addrs_def)
    then show ?thesis by (simp only: array_records_static [OF st])
  qed
  show ?thesis
    unfolding entry_records_plain [OF plain_field_type [OF p] pos] u
    using arr vw [of 0] by (auto simp: entries_def)
qed

lemma message_frame:
  "plain (e_descr env) n flds dest sz \<Longrightarrow> 0 < dest \<Longrightarrow> agree (span dest sz) m m' \<Longrightarrow>
     msg_records env m' n flds dest = msg_records env m n flds dest"
proof (induction n arbitrary: flds dest sz)
  case 0
  then show ?case by simp
next
  case (Suc n)
  have "entry_records env m' (msg_records env m' n) n (iter_at flds dest k) =
      entry_records env m (msg_records env m n) n (iter_at flds dest k)" if k: "k < nfields flds" for k
  proof (rule entry_frame [OF plain_fieldD [OF Suc.prems(1) k]])
    let ?it = "iter_at flds dest k"
    show pos: "0 < it_pData ?it" using iter_pData_ge [of dest flds k] Suc.prems(2) by simp
    show "agree (foot ?it) m m'" using foot_lies [OF Suc.prems(1) k] Suc.prems(3) by blast
    fix d i assume d: "f_ptr (it_field ?it) = PtrFields d" and i: "i < entries (it_field ?it)"
    have pl: "plain (e_descr env) n (e_descr env d) (it_pData ?it + i * dsize ?it) (dsize ?it)"
      using plain_fieldD [OF Suc.prems(1) k] d i
      by (simp add: plain_field_unfold field_fits_def Let_def mult.commute del: iter_at.simps)
    have "span (it_pData ?it + i * dsize ?it) (dsize ?it) \<subseteq> span dest sz"
      using entry_addr [OF i] foot_lies [OF Suc.prems(1) k] unfolding foot_def by blast
    then show "msg_records env m' n (e_descr env d) (it_pData ?it + i * dsize ?it) =
        msg_records env m n (e_descr env d) (it_pData ?it + i * dsize ?it)"
      using Suc.prems(3) pos by (intro Suc.IH [OF pl]) auto
  qed
  then have "map (\<lambda>k. entry_records env m' (msg_records env m' n) n (iter_at flds dest k)) [0..<nfields flds] =
      map (\<lambda>k. entry_records env m (msg_records env m n) n (iter_at flds dest k)) [0..<nfields flds]" by simp
  then show ?case by (simp only: msg_records.simps)
qed

section \<open>Fresh messages and good sources\<close>

text \<open>A message that has been set to its defaults: no flags, no entries, zero where there is no flag.\<close>

definition fresh_field :: "(nat \<Rightarrow> addr \<Rightarrow> bool) \<Rightarrow> mem \<Rightarrow> pb_field_iter \<Rightarrow> bool" where
  "fresh_field sub m it \<longleftrightarrow> (htype it = PB_HTYPE_REQUIRED \<or> in_use m it = 0) \<and>
     (case f_ptr (it_field it) of PtrFields d \<Rightarrow> htype it \<noteq> PB_HTYPE_REPEATED \<longrightarrow> sub d (it_pData it) | _ \<Rightarrow> True)"

primrec fresh :: "descr_env \<Rightarrow> mem \<Rightarrow> nat \<Rightarrow> pb_field list \<Rightarrow> addr \<Rightarrow> bool" where
  "fresh D m 0 flds dest = True"
| "fresh D m (Suc n) flds dest \<longleftrightarrow> (\<forall>k < nfields flds. fresh_field (\<lambda>d. fresh D m n (D d)) m (iter_at flds dest k))"

text \<open>A message whose strings end inside their fields.\<close>

definition good_field :: "(nat \<Rightarrow> addr \<Rightarrow> bool) \<Rightarrow> mem \<Rightarrow> pb_field_iter \<Rightarrow> bool" where
  "good_field sub m it \<longleftrightarrow> (\<forall>i < in_use m it. terminated m (it_field it) (it_pData it + i * dsize it) \<and>
     (case f_ptr (it_field it) of PtrFields d \<Rightarrow> sub d (it_pData it + i * dsize it) | _ \<Rightarrow> True))"

primrec good :: "descr_env \<Rightarrow> mem \<Rightarrow> nat \<Rightarrow> pb_field list \<Rightarrow> addr \<Rightarrow> bool" where
  "good D m 0 flds src = True"
| "good D m (Suc n) flds src \<longleftrightarrow> (\<forall>k < nfields flds. good_field (\<lambda>d. good D m n (D d)) m (iter_at flds src k))"

lemma fresh_field_frame:
  assumes p: "plain_field (\<lambda>d. plain D n (D d)) it dest sz" and ag: "agree (foot it) m m'"
    and sub: "\<And>flds dest sz. plain D n flds dest sz \<Longrightarrow> agree (span dest sz) m m' \<Longrightarrow> fresh D m n flds dest \<Longrightarrow> fresh D m' n flds dest"
    and f: "fresh_field (\<lambda>d. fresh D m n (D d)) m it"
  shows "fresh_field (\<lambda>d. fresh D m' n (D d)) m' it"
proof -
  have "fresh D m' n (D d) (it_pData it)" if d: "f_ptr (it_field it) = PtrFields d" and h: "htype it \<noteq> PB_HTYPE_REPEATED" for d
  proof (rule sub)
    have e: "entries (it_field it) = 1" using h by (simp add: entries_def)
    show "plain D n (D d) (it_pData it) (dsize it)"
      using p d e by (simp add: plain_field_unfold field_fits_def Let_def)
    show "agree (span (it_pData it) (dsize it)) m m'" using ag e by (auto simp: foot_def data_span_def)
    show "fresh D m n (D d) (it_pData it)" using f d h by (simp add: fresh_field_def)
  qed
  then show ?thesis using f in_use_frame [OF p ag] by (auto simp: fresh_field_def split: pb_ptr.splits)
qed

lemma fresh_frame:
  "plain D n flds dest sz \<Longrightarrow> agree (span dest sz) m m' \<Longrightarrow> fresh D m n flds dest \<Longrightarrow> fresh D m' n flds dest"
proof (induction n arbitrary: flds dest sz)
  case 0
  then show ?case by simp
next
  case (Suc n)
  have "fresh_field (\<lambda>d. fresh D m' n (D d)) m' (iter_at flds dest k)" if k: "k < nfields flds" for k
  proof (rule fresh_field_frame [OF plain_fieldD [OF Suc.prems(1) k] _ Suc.IH])
    show "agree (foot (iter_at flds dest k)) m m'" using foot_lies [OF Suc.prems(1) k] Suc.prems(2) by blast
    show "fresh_field (\<lambda>d. fresh D m n (D d)) m (iter_at flds dest k)" using Suc.prems(3) k by simp
  qed
  then show ?case by simp
qed

end
