(* ===== verification/PbFields.thy ===== *)
theory PbFields imports PbPlain begin

text \<open>
  One field of a plain message: what the decoder does with the records of a required or optional field,
  with a packed array and with an array of records, and how the loop of \<open>pb_decode_noinit\<close> gets from
  one record to the next.
\<close>

section \<open>One field, once\<close>

text \<open>The contract of the calls for submessages.\<close>

definition restores :: "'e enc_env \<Rightarrow> mem \<Rightarrow> nat \<Rightarrow> (mem \<Rightarrow> pb_field list \<Rightarrow> addr \<Rightarrow> bool) \<Rightarrow> 's msg_decoder \<Rightarrow> bool" where
  "restores env m n ready call \<longleftrightarrow>
     (\<forall>flds src dest sz rs st rest. plain (e_descr env) n flds dest sz \<longrightarrow> good (e_descr env) m n flds src \<longrightarrow>
        msg_records env m n flds src = Some rs \<longrightarrow> length (records_bytes rs) < 2 ^ 32 \<longrightarrow> 0 < src \<longrightarrow> 0 < dest \<longrightarrow>
        ready (d_mem st) flds dest \<longrightarrow> fed st (records_bytes rs) rest \<longrightarrow> bytes_left (d_in st) = length (records_bytes rs) \<longrightarrow>
        gives (call flds dest st) (span dest sz) st (records_bytes rs) rest (\<lambda>m'. msg_records env m' n flds dest = Some rs))"

definition calls_restore :: "'e enc_env \<Rightarrow> mem \<Rightarrow> nat \<Rightarrow> 's sub_calls \<Rightarrow> bool" where
  "calls_restore env m n calls \<longleftrightarrow>
     restores env m n (\<lambda>m' flds dest. fresh (e_descr env) m' n flds dest) (c_noinit calls) \<and>
     restores env m n (\<lambda>m' flds dest. True) (c_decode calls)"

abbreviation entry_val :: "'e enc_env \<Rightarrow> nat \<Rightarrow> mem \<Rightarrow> pb_field_iter \<Rightarrow> nat \<Rightarrow> wire option" where
  "entry_val env n m it i \<equiv> value_wire (e_descr env) m (msg_records env m n) (it_field it) (it_pData it + i * dsize it)"

abbreviation entry_good :: "'e enc_env \<Rightarrow> nat \<Rightarrow> mem \<Rightarrow> pb_field \<Rightarrow> addr \<Rightarrow> bool" where
  "entry_good env n m f a \<equiv> terminated m f a \<and>
     (case f_ptr f of PtrFields d \<Rightarrow> good (e_descr env) m n (e_descr env d) a | _ \<Rightarrow> True)"

lemma item_gives:
  assumes p: "plain_field (\<lambda>d. plain (e_descr env) n (e_descr env d)) it dest sz" and calls: "calls_restore env m n calls"
    and D: "v_descr denv = e_descr env" and i: "i < entries (it_field it)" and pos: "0 < a" "0 < it_pData it"
    and w: "value_wire (e_descr env) m (msg_records env m n) (it_field it) a = Some w"
    and g: "entry_good env n m (it_field it) a"
    and ready: "\<And>d. f_ptr (it_field it) = PtrFields d \<Longrightarrow> htype it \<noteq> PB_HTYPE_REPEATED \<Longrightarrow>
      fresh (e_descr env) (d_mem st) n (e_descr env d) (it_pData it + i * dsize it)"
    and fed: "fed st (payload w) rest" and len: "length (payload w) < 2 ^ 32"
  shows "gives (PB_DECODERS denv calls (ltype it) st (it_field it) (it_pData it + i * dsize it))
    (span (it_pData it + i * dsize it) (dsize it)) st (payload w) rest
    (\<lambda>m'. entry_val env n m' it i = Some w \<and>
       (ltype it \<noteq> PB_LTYPE_SUBMESSAGE \<longrightarrow> zero_value m' (it_field it) (it_pData it + i * dsize it) = zero_value m (it_field it) a))"
proof (rule entry_gives [OF w _ _ _ pos(1) _ fed len D], goal_cases)
  case (5 d rs st1)
  have pl: "plain (e_descr env) n (e_descr env d) (it_pData it + i * dsize it) (dsize it)"
    using p i 5(1) by (simp add: plain_field_unfold field_fits_def Let_def mult.commute)
  have gd: "good (e_descr env) m n (e_descr env d) a" using g 5(1) by simp
  show ?case
  proof (cases "htype it = PB_HTYPE_REPEATED")
    case True
    then show ?thesis using calls pl gd 5 pos by (simp add: calls_restore_def restores_def)
  next
    case False
    then show ?thesis using calls pl gd 5 pos ready [OF 5(1) False] by (simp add: calls_restore_def restores_def)
  qed
qed (use p g pos plain_ptr [OF p] in \<open>auto simp: plain_field_unfold field_fits_def Let_def\<close>)

text \<open>The bookkeeping of required fields.\<close>

definition see :: "noinit_locals \<Rightarrow> noinit_locals" where
  "see lo = (let req = it_req (n_iter lo) in
     if htype (n_iter lo) = PB_HTYPE_REQUIRED \<and> req < 64
     then lo\<lparr>n_seen := (n_seen lo)[req div 32 := n_seen lo ! (req div 32) OR push_bit (req mod 32) 1]\<rparr> else lo)"

lemma known_static:
  assumes p: "plain_field sub (n_iter lo) dest sz" and ps: "it_pSize (n_iter lo) = PMem (size_addr (n_iter lo))"
  shows "decode_known denv calls N wt lo st =
    map_option (\<lambda>(ok, st). (ok, see lo, st)) (decode_static_field denv calls N wt (n_iter lo) st)"
proof -
  note q = p [unfolded plain_field_unfold field_fits_def Let_def]
  have st: "PB_ATYPE (f_type (it_field (n_iter lo))) = PB_ATYPE_STATIC" using q by (simp add: entry_ok_def Let_def)
  have nf: "\<not> (htype (n_iter lo) = PB_HTYPE_REPEATED \<and> it_pSize (n_iter lo) = PMem (it_pData (n_iter lo)))"
    using q ps by auto
  have df: "decode_field denv calls N wt it st = map_option (\<lambda>(ok, st). (ok, it, st)) (decode_static_field denv calls N wt it st)"
    if "it = n_iter lo" for it using q st that by (simp add: decode_field_def)
  show ?thesis
    using nf by (auto simp add: decode_known_def df Let_def see_def option.map_comp comp_def split_def)
qed

text \<open>Fields that are not arrays.\<close>

lemma single_gives:
  assumes p: "plain_field (\<lambda>d. plain (e_descr env) n (e_descr env d)) it dest sz" and calls: "calls_restore env m n calls"
    and D: "v_descr denv = e_descr env" and pos: "0 < a" "0 < it_pData it"
    and ps: "it_pSize it = PMem (size_addr it)" and ht: "htype it \<noteq> PB_HTYPE_REPEATED"
    and w: "value_wire (e_descr env) m (msg_records env m n) (it_field it) a = Some w"
    and g: "entry_good env n m (it_field it) a" and nz: "htype it = PB_HTYPE_OPTIONAL \<and> \<not> sized it \<Longrightarrow> \<not> zero_value m (it_field it) a"
    and fr: "fresh_field (\<lambda>d. fresh (e_descr env) (d_mem st) n (e_descr env d)) (d_mem st) it"
    and fed: "fed st (payload w) rest" and len: "length (payload w) < 2 ^ 32"
  shows "gives (decode_static_field denv calls N wt it st) (foot it) st (payload w) rest
    (\<lambda>m'. entry_val env n m' it 0 = Some w \<and> in_use m' it \<noteq> 0)"
proof -
  note q = p [unfolded plain_field_unfold field_fits_def Let_def]
  have one: "entries (it_field it) = 1" using ht by (simp add: entries_def)
  have dspan: "data_span it = span (it_pData it) (dsize it)" by (simp add: data_span_def one)
  define opt where "opt \<longleftrightarrow> htype it = PB_HTYPE_OPTIONAL \<and> sized it"
  define st1 where "st1 = (if opt then d_store 1 (size_addr it) 1 st else st)"
  have i1: "inside (flag_span it) st st1" using inside_store [of "size_addr it" 1 "flag_span it" st 1]
    by (auto simp: st1_def opt_def flag_span_def)
  have in1: "d_in st1 = d_in st" by (simp add: st1_def)
  have step: "decode_static_field denv calls N wt it st = PB_DECODERS denv calls (ltype it) st1 (it_field it) (it_pData it)"
  proof -
    have "sized it \<longleftrightarrow> size_addr it \<noteq> it_pData it" using q by (auto simp: sized_def size_addr_def ptr_add_def)
    then show ?thesis using htype_cases [of "f_type (it_field it)"] q ht ps
      by (auto simp: decode_static_field_def st1_def opt_def Let_def)
  qed
  have ready: "fresh (e_descr env) (d_mem st1) n (e_descr env d) (it_pData it + 0 * dsize it)"
    if d: "f_ptr (it_field it) = PtrFields d" for d
  proof -
    have pl: "plain (e_descr env) n (e_descr env d) (it_pData it) (dsize it)" using q d one by simp
    have "agree (span (it_pData it) (dsize it)) (d_mem st) (d_mem st1)" using i1 q dspan by (auto simp: inside_def)
    from fresh_frame [OF pl this] show ?thesis using fr d ht by (simp add: fresh_field_def)
  qed
  have "fed st1 (payload w) rest" using fed in1 by (simp add: fed_def)
  from item_gives [where i = 0, OF p calls D _ pos w g ready this len] one
  have call: "gives (PB_DECODERS denv calls (ltype it) st1 (it_field it) (it_pData it)) (data_span it) st1 (payload w) rest
    (\<lambda>m'. entry_val env n m' it 0 = Some w \<and>
       (ltype it \<noteq> PB_LTYPE_SUBMESSAGE \<longrightarrow> zero_value m' (it_field it) (it_pData it) = zero_value m (it_field it) a))"
    by (simp add: dspan)
  then obtain st2 where c: "PB_DECODERS denv calls (ltype it) st1 (it_field it) (it_pData it) = Some (True, st2)"
    and mv: "moved (data_span it) st1 (payload w) rest st2" and v: "entry_val env n (d_mem st2) it 0 = Some w"
    and z: "ltype it \<noteq> PB_LTYPE_SUBMESSAGE \<Longrightarrow> zero_value (d_mem st2) (it_field it) (it_pData it) = zero_value m (it_field it) a"
    by (auto simp: gives_def)
  have flag: "load 1 (d_mem st2) (size_addr it) = 1" if opt
  proof -
    have "agree (flag_span it) (d_mem st1) (d_mem st2)" using mv q by (auto simp: moved_def inside_def)
    then have "load 1 (d_mem st2) (size_addr it) = load 1 (d_mem st1) (size_addr it)"
      by (rule agree_load) (use that in \<open>auto simp: flag_span_def opt_def\<close>)
    then show ?thesis using that load_store_same [of 1 "d_mem st" "size_addr it" 1] by (simp add: st1_def)
  qed
  have "in_use (d_mem st2) it \<noteq> 0"
    using flag z nz q htype_cases [of "f_type (it_field it)"] ht by (auto simp: in_use_def opt_def)
  moreover have "moved (foot it) st (payload w) rest st2"
    using mv i1 in1 by (auto simp: moved_def foot_def intro: inside_trans inside_mono)
  ultimately show ?thesis using step c v by (auto intro: givesI)
qed

section \<open>Arrays\<close>

definition arr_ok :: "'e enc_env \<Rightarrow> nat \<Rightarrow> pb_field_iter \<Rightarrow> wire list \<Rightarrow> nat \<Rightarrow> mem \<Rightarrow> bool" where
  "arr_ok env n it ws k m \<longleftrightarrow> load 4 m (size_addr it) = k \<and> (\<forall>j < k. entry_val env n m it j = Some (ws ! j))"

lemma vals_frame:
  assumes p: "plain_field (\<lambda>d. plain (e_descr env) n (e_descr env d)) it dest sz" and pos: "0 < it_pData it"
    and k: "k \<le> entries (it_field it)" and ag: "agree (span (it_pData it) (k * dsize it)) m m'" and j: "j < k"
  shows "entry_val env n m' it j = entry_val env n m it j"
proof (rule value_wire_frame)
  have "j * dsize it + dsize it \<le> k * dsize it"
    using mult_le_mono1 [of "Suc j" k "dsize it"] j by simp
  then show ag': "agree (span (it_pData it + j * dsize it) (dsize it)) m m'" using ag by auto
  fix d assume d: "f_ptr (it_field it) = PtrFields d"
  have "plain (e_descr env) n (e_descr env d) (it_pData it + j * dsize it) (dsize it)"
    using p d j k by (simp add: plain_field_unfold field_fits_def Let_def mult.commute)
  from message_frame [OF this _ ag'] show
    "msg_records env m' n (e_descr env d) (it_pData it + j * dsize it) = msg_records env m n (e_descr env d) (it_pData it + j * dsize it)"
    using pos by simp
qed (use p plain_ptr [OF p] in \<open>auto simp: plain_field_unfold field_fits_def Let_def\<close>)

text \<open>What is known when an entry is decoded.\<close>

definition entries_given :: "'e enc_env \<Rightarrow> mem \<Rightarrow> nat \<Rightarrow> pb_field_iter \<Rightarrow> addr \<Rightarrow> wire list \<Rightarrow> bool" where
  "entries_given env m n it src ws \<longleftrightarrow> length ws \<le> unat (f_array_size (it_field it)) \<and> 0 < src \<and> 0 < it_pData it \<and>
     (\<forall>i < length ws. value_wire (e_descr env) m (msg_records env m n) (it_field it) (src + i * dsize it) = Some (ws ! i) \<and>
        entry_good env n m (it_field it) (src + i * dsize it))"

lemma array_item:
  assumes p: "plain_field (\<lambda>d. plain (e_descr env) n (e_descr env d)) it dest sz" and calls: "calls_restore env m n calls"
    and D: "v_descr denv = e_descr env" and ht: "htype it = PB_HTYPE_REPEATED"
    and given: "entries_given env m n it src ws" and i: "i < length ws"
    and fed: "fed st (payload (ws ! i)) rest" and len: "length (payload (ws ! i)) < 2 ^ 32"
    and vals: "\<forall>j < i. entry_val env n (d_mem st) it j = Some (ws ! j)"
  shows "gives (PB_DECODERS denv calls (ltype it) st (it_field it) (it_pData it + item_offset (it_field it) i))
    (data_span it) st (payload (ws ! i)) rest
    (\<lambda>m'. (\<forall>j < Suc i. entry_val env n m' it j = Some (ws ! j)) \<and> load 4 m' (size_addr it) = load 4 (d_mem st) (size_addr it))"
proof -
  note q = p [unfolded plain_field_unfold]
  have ie: "i < unat (f_array_size (it_field it))" using given i by (simp add: entries_given_def)
  have off: "item_offset (it_field it) i = dsize it * i" and en: "i < entries (it_field it)"
    using item_offset_eq [OF _ ht ie] q by blast+
  have "gives (PB_DECODERS denv calls (ltype it) st (it_field it) (it_pData it + i * dsize it))
    (span (it_pData it + i * dsize it) (dsize it)) st (payload (ws ! i)) rest
    (\<lambda>m'. entry_val env n m' it i = Some (ws ! i) \<and>
       (ltype it \<noteq> PB_LTYPE_SUBMESSAGE \<longrightarrow> zero_value m' (it_field it) (it_pData it + i * dsize it) = zero_value m (it_field it) (src + i * dsize it)))"
    by (rule item_gives [OF p calls D en]) (use given i fed len ht in \<open>auto simp: entries_given_def\<close>)
  then obtain st' where c: "PB_DECODERS denv calls (ltype it) st (it_field it) (it_pData it + i * dsize it) = Some (True, st')"
    and mv: "moved (span (it_pData it + i * dsize it) (dsize it)) st (payload (ws ! i)) rest st'"
    and v: "entry_val env n (d_mem st') it i = Some (ws ! i)" by (auto simp: gives_def)
  have old: "entry_val env n (d_mem st') it j = Some (ws ! j)" if "j < i" for j
  proof -
    have "agree (span (it_pData it) (i * dsize it)) (d_mem st) (d_mem st')" using mv by (auto simp: moved_def inside_def)
    from vals_frame [OF p _ less_imp_le [OF en] this that] show ?thesis using vals that given by (simp add: entries_given_def)
  qed
  have mvd: "moved (data_span it) st (payload (ws ! i)) rest st'" by (rule moved_mono [OF mv entry_addr [OF en]])
  then have "agree (flag_span it) (d_mem st) (d_mem st')" using q by (auto simp: moved_def inside_def)
  then have "load 4 (d_mem st') (size_addr it) = load 4 (d_mem st) (size_addr it)"
    by (rule agree_load) (simp add: flag_span_def ht)
  then show ?thesis using c mvd v old by (auto simp: off mult.commute less_Suc_eq intro: givesI)
qed

lemma set_counter:
  assumes "htype it = PB_HTYPE_REPEATED" and "it_pSize it = PMem (size_addr it)" and "k < 2 ^ 32"
  shows "inside (flag_span it) st (psize_write (it_pSize it) k st)" and "load 4 (d_mem (psize_write (it_pSize it) k st)) (size_addr it) = k"
    and "d_in (psize_write (it_pSize it) k st) = d_in st"
  using assms inside_store [of "size_addr it" 4 "flag_span it" st k] load_store_same [of 4 "d_mem st" "size_addr it" k]
  by (simp_all add: psize_write_def flag_span_def)

lemma counter_vals:
  assumes p: "plain_field (\<lambda>d. plain (e_descr env) n (e_descr env d)) it dest sz" and pos: "0 < it_pData it"
    and i: "inside (flag_span it) st st1" and k: "k \<le> entries (it_field it)" and j: "j < k"
  shows "entry_val env n (d_mem st1) it j = entry_val env n (d_mem st) it j"
proof (rule vals_frame [OF p pos k _ j])
  have "span (it_pData it) (k * dsize it) \<subseteq> data_span it" using k by (simp add: data_span_def mult.commute)
  moreover have "flag_span it \<inter> data_span it = {}" using p by (simp add: plain_field_unfold)
  ultimately show "agree (span (it_pData it) (k * dsize it)) (d_mem st) (d_mem st1)" using i unfolding inside_def by blast
qed

text \<open>An entry with a record of its own.\<close>

lemma unpacked_gives:
  assumes p: "plain_field (\<lambda>d. plain (e_descr env) n (e_descr env d)) it dest sz" and calls: "calls_restore env m n calls"
    and D: "v_descr denv = e_descr env" and ht: "htype it = PB_HTYPE_REPEATED" and ps: "it_pSize it = PMem (size_addr it)"
    and given: "entries_given env m n it src ws" and i: "i < length ws" and lt: "\<not> ltype it \<le> PB_LTYPE_LAST_PACKABLE"
    and fed: "fed st (payload (ws ! i)) rest" and len: "length (payload (ws ! i)) < 2 ^ 32"
    and arr: "arr_ok env n it ws i (d_mem st)"
  shows "gives (decode_static_field denv calls N wt it st) (foot it) st (payload (ws ! i)) rest (arr_ok env n it ws (Suc i))"
proof -
  have sz: "psize_read (it_pSize it) st = i" using arr ps by (simp add: psize_read_def arr_ok_def)
  have ia: "i < unat (f_array_size (it_field it))" using given i by (simp add: entries_given_def)
  have "unat (f_array_size (it_field it)) < 2 ^ 32" using unat_u32_lt [of "f_array_size (it_field it)"] by (simp del: unat_u32_lt)
  with ia have b: "Suc i < 2 ^ 32" by linarith
  have ie: "Suc i \<le> entries (it_field it)" using ia ht by (simp add: entries_def)
  let ?st1 = "psize_write (it_pSize it) (Suc i) st"
  note sc = set_counter [OF ht ps b, of st]
  have pos: "0 < it_pData it" using given by (simp add: entries_given_def)
  have "fed ?st1 (payload (ws ! i)) rest" using fed sc(3) by (simp add: fed_def)
  moreover have "\<forall>j < i. entry_val env n (d_mem ?st1) it j = Some (ws ! j)"
    using counter_vals [OF p pos sc(1), of i] arr ie by (simp add: arr_ok_def)
  ultimately have "gives (PB_DECODERS denv calls (ltype it) ?st1 (it_field it) (it_pData it + item_offset (it_field it) i))
    (data_span it) ?st1 (payload (ws ! i)) rest
    (\<lambda>m'. (\<forall>j < Suc i. entry_val env n m' it j = Some (ws ! j)) \<and> load 4 m' (size_addr it) = load 4 (d_mem ?st1) (size_addr it))"
    by (intro array_item [OF p calls D ht given i _ len])
  from gives_mono [OF this, of "foot it" "arr_ok env n it ws (Suc i)"] have
    "gives (PB_DECODERS denv calls (ltype it) ?st1 (it_field it) (it_pData it + item_offset (it_field it) i))
      (foot it) ?st1 (payload (ws ! i)) rest (arr_ok env n it ws (Suc i))" using sc(2) by (simp add: foot_def arr_ok_def)
  moreover have "decode_static_field denv calls N wt it st =
      PB_DECODERS denv calls (ltype it) ?st1 (it_field it) (it_pData it + item_offset (it_field it) i)"
    using lt ht ia sz by (simp add: decode_static_field_def Let_def)
  moreover have "inside (foot it) st ?st1" by (rule inside_mono [OF sc(1)]) (simp add: foot_def)
  ultimately show ?thesis using gives_after [OF _ sc(3)] by (simp only:)
qed

text \<open>All entries in one record.\<close>

lemma payload_nonempty: "payload w \<noteq> []"
  using le_bytes_nonempty [of 4] le_bytes_nonempty [of 8] by (cases w) (simp_all add: varint_of_nonempty)

lemma packed_loop_gives:
  assumes p: "plain_field (\<lambda>d. plain (e_descr env) n (e_descr env d)) it dest sz" and calls: "calls_restore env m n calls"
    and D: "v_descr denv = e_descr env" and ht: "htype it = PB_HTYPE_REPEATED" and ps: "it_pSize it = PMem (size_addr it)"
    and given: "entries_given env m n it src ws" and len: "length (concat (map payload ws)) < 2 ^ 32"
  shows "i \<le> length ws \<Longrightarrow> fed st (concat (map payload (drop i ws))) rest \<Longrightarrow>
    bytes_left (d_in st) = length (concat (map payload (drop i ws))) \<Longrightarrow> bytes_left (d_in st) \<le> k \<Longrightarrow>
    arr_ok env n it ws i (d_mem st) \<Longrightarrow>
    gives (packed_loop (PB_DECODERS denv calls (ltype it)) it k st) (foot it) st (concat (map payload (drop i ws))) rest
      (arr_ok env n it ws (length ws))"
proof (induction "length ws - i" arbitrary: i st k)
  case 0
  then have i: "i = length ws" by simp
  then have "packed_loop (PB_DECODERS denv calls (ltype it)) it k st = Some (True, st)"
    using 0 by (cases k) simp_all
  then show ?case using 0 i by (auto intro!: gives_ret)
next
  case (Suc l)
  then have i: "i < length ws" by simp
  then have dr: "drop i ws = ws ! i # drop (Suc i) ws" by (simp add: Cons_nth_drop_Suc)
  let ?rest = "concat (map payload (drop (Suc i) ws))"
  have ne: "payload (ws ! i) \<noteq> []" by (rule payload_nonempty)
  obtain k' where k: "k = Suc k'" using Suc.prems(3,4) ne by (cases k) (auto simp: dr)
  have pi: "length (payload (ws ! i)) < 2 ^ 32"
  proof -
    have "length (payload (ws ! i)) \<in> set (map (length \<circ> payload) ws)" using i by simp
    then have "length (payload (ws ! i)) \<le> length (concat (map payload ws))"
      unfolding length_concat map_map by (rule member_le_sum_list) simp
    then show ?thesis using len by simp
  qed
  have sz: "psize_read (it_pSize it) st = i" using Suc.prems(5) ps by (simp add: psize_read_def arr_ok_def)
  have ia: "i < unat (f_array_size (it_field it))" using given i by (simp add: entries_given_def)
  have "unat (f_array_size (it_field it)) < 2 ^ 32" using unat_u32_lt [of "f_array_size (it_field it)"] by (simp del: unat_u32_lt)
  with ia have b: "Suc i < 2 ^ 32" by linarith
  have ie: "Suc i \<le> entries (it_field it)" using ia ht by (simp add: entries_def)
  have pos: "0 < it_pData it" using given by (simp add: entries_given_def)
  have fedi: "fed st (payload (ws ! i)) (?rest @ rest)" and fed2: "fed st (payload (ws ! i) @ ?rest) rest"
    using Suc.prems(2) by (simp_all add: dr fed_def)
  have vals: "\<forall>j < i. entry_val env n (d_mem st) it j = Some (ws ! j)" using Suc.prems(5) by (simp add: arr_ok_def)
  from array_item [OF p calls D ht given i fedi pi vals] obtain st1 where
    c: "PB_DECODERS denv calls (ltype it) st (it_field it) (it_pData it + item_offset (it_field it) i) = Some (True, st1)"
    and mv: "moved (data_span it) st (payload (ws ! i)) (?rest @ rest) st1"
    and v: "\<forall>j < Suc i. entry_val env n (d_mem st1) it j = Some (ws ! j)"
    and sz1: "load 4 (d_mem st1) (size_addr it) = load 4 (d_mem st) (size_addr it)" by (auto simp: gives_def)
  let ?st2 = "psize_write (it_pSize it) (Suc i) st1"
  note sc = set_counter [OF ht ps b, of st1]
  have psz1: "psize_read (it_pSize it) st1 = i" using sz sz1 ps by (simp add: psize_read_def)
  have mv2: "moved (foot it) st (payload (ws ! i)) (?rest @ rest) ?st2"
    using moved_mono [OF mv, of "foot it"] sc(3) inside_mono [OF sc(1), of "foot it"]
    by (auto simp: moved_def foot_def intro: inside_trans)
  have arr2: "arr_ok env n it ws (Suc i) (d_mem ?st2)"
    using counter_vals [OF p pos sc(1) ie] v sc(2) by (simp add: arr_ok_def)
  have left: "bytes_left (d_in ?st2) = length ?rest"
    using mv2 Suc.prems(3) by (simp add: moved_def dr)
  have "gives (packed_loop (PB_DECODERS denv calls (ltype it)) it k' ?st2) (foot it) ?st2 ?rest rest (arr_ok env n it ws (length ws))"
  proof (rule Suc.hyps(1) [OF _ _ moved_fed [OF fed2 mv2] left _ arr2])
    show "bytes_left (d_in ?st2) \<le> k'" using left Suc.prems(3,4) k ne by (cases "payload (ws ! i)") (auto simp: dr)
  qed (use Suc.hyps(2) i in auto)
  moreover have "packed_loop (PB_DECODERS denv calls (ltype it)) it k st = packed_loop (PB_DECODERS denv calls (ltype it)) it k' ?st2"
    using c sz ia psz1 Suc.prems(3) ne by (simp add: k Let_def dr)
  ultimately show ?case using moved_trans [OF mv2] by (auto simp: gives_def dr)
qed

lemma packed_gives:
  assumes p: "plain_field (\<lambda>d. plain (e_descr env) n (e_descr env d)) it dest sz" and calls: "calls_restore env m n calls"
    and D: "v_descr denv = e_descr env" and ht: "htype it = PB_HTYPE_REPEATED" and ps: "it_pSize it = PMem (size_addr it)"
    and given: "entries_given env m n it src ws" and len: "length (concat (map payload ws)) < 2 ^ 32"
    and lt: "ltype it \<le> PB_LTYPE_LAST_PACKABLE" and arr: "arr_ok env n it ws 0 (d_mem st)"
    and fed: "fed st (payload (WLen (concat (map payload ws)))) rest"
  shows "gives (decode_static_field denv calls N PB_WT_STRING it st) (foot it) st (payload (WLen (concat (map payload ws)))) rest
    (arr_ok env n it ws (length ws))"
proof -
  let ?body = "concat (map payload ws)"
  have left: "length (varint_of (length ?body)) + length ?body \<le> bytes_left (d_in st)"
    and has: "src_has (i_source (d_in st)) (varint_of (length ?body) @ ?body @ rest)" using fed by (simp_all add: fed_def)
  obtain s where s: "src_has s (?body @ rest)" and mk: "pb_make_string_substream (d_in st) =
       (Some ((d_in st)\<lparr>i_source := s, bytes_left := length ?body\<rparr>),
        (d_in st)\<lparr>i_source := s, bytes_left := bytes_left (d_in st) - length (varint_of (length ?body)) - length ?body\<rparr>)"
    using make_substream [OF len has left] by blast
  let ?sub = "(d_in st)\<lparr>i_source := s, bytes_left := length ?body\<rparr>"
  let ?par = "(d_in st)\<lparr>i_source := s, bytes_left := bytes_left (d_in st) - length (varint_of (length ?body)) - length ?body\<rparr>"
  have fed': "fed (st\<lparr>d_in := ?sub\<rparr>) (concat (map payload (drop 0 ws))) rest" using s by (simp add: fed_def)
  have "gives (packed_loop (PB_DECODERS denv calls (ltype it)) it (length ?body) (st\<lparr>d_in := ?sub\<rparr>)) (foot it) (st\<lparr>d_in := ?sub\<rparr>)
      (concat (map payload (drop 0 ws))) rest (arr_ok env n it ws (length ws))"
    by (rule packed_loop_gives [OF p calls D ht ps given len _ fed']) (use arr in simp_all)
  then obtain st2 where
    c: "packed_loop (PB_DECODERS denv calls (ltype it)) it (length ?body) (st\<lparr>d_in := ?sub\<rparr>) = Some (True, st2)"
    and mv: "moved (foot it) (st\<lparr>d_in := ?sub\<rparr>) ?body rest st2" and q: "arr_ok env n it ws (length ws) (d_mem st2)"
    by (auto simp: gives_def)
  then have "close_sub ?par (True, st2) = (True, st2\<lparr>d_in := ?par\<lparr>i_source := i_source (d_in st2), i_errmsg := i_errmsg (d_in st2)\<rparr>\<rparr>)"
    by (simp add: close_sub_def pb_close_string_substream_def moved_def)
  moreover have "decode_static_field denv calls N PB_WT_STRING it st = Some (close_sub ?par (True, st2))"
    using c lt ht mv by (simp add: decode_static_field_def decode_static_packed_def on_stream_def mk moved_def Let_def)
  ultimately show ?thesis using mv q by (auto simp: gives_def moved_def)
qed

section \<open>The loop over the records\<close>

text \<open>The loop gets from one state to another, and its fuel still covers the bytes that are left.\<close>

definition leads :: "'s dec_env \<Rightarrow> 's sub_calls \<Rightarrow> nat \<Rightarrow> noinit_locals \<Rightarrow> 's dstate \<Rightarrow> noinit_locals \<Rightarrow> 's dstate \<Rightarrow> bool" where
  "leads denv calls N lo st lo' st' \<longleftrightarrow> (\<forall>k \<ge> bytes_left (d_in st). \<exists>k' \<ge> bytes_left (d_in st').
     noinit_loop denv calls N k lo st = noinit_loop denv calls N k' lo' st')"

lemma leads_refl: "leads denv calls N lo st lo st"
  by (auto simp: leads_def)

lemma leads_trans: "leads denv calls N lo st lo' st' \<Longrightarrow> leads denv calls N lo' st' lo'' st'' \<Longrightarrow> leads denv calls N lo st lo'' st''"
  unfolding leads_def
proof (intro allI impI)
  fix k assume 1: "\<forall>k \<ge> bytes_left (d_in st). \<exists>k' \<ge> bytes_left (d_in st'). noinit_loop denv calls N k lo st = noinit_loop denv calls N k' lo' st'"
    and 2: "\<forall>k \<ge> bytes_left (d_in st'). \<exists>k' \<ge> bytes_left (d_in st''). noinit_loop denv calls N k lo' st' = noinit_loop denv calls N k' lo'' st''"
    and k: "bytes_left (d_in st) \<le> k"
  from 1 k obtain k1 where k1: "bytes_left (d_in st') \<le> k1" "noinit_loop denv calls N k lo st = noinit_loop denv calls N k1 lo' st'" by blast
  with 2 show "\<exists>k' \<ge> bytes_left (d_in st''). noinit_loop denv calls N k lo st = noinit_loop denv calls N k' lo'' st''" by auto
qed

lemma find_unique: "j \<in> set xs \<Longrightarrow> P j \<Longrightarrow> (\<And>i. i \<in> set xs \<Longrightarrow> P i \<Longrightarrow> i = j) \<Longrightarrow> find P xs = Some j"
proof (induction xs)
  case Nil
  then show ?case by simp
next
  case (Cons x xs)
  show ?case
  proof (cases "P x")
    case True
    from Cons.prems(3) [OF _ this] have "x = j" by simp
    with True show ?thesis by simp
  next
    case False
    then have "j \<in> set xs" using Cons.prems(1,2) by auto
    from Cons.IH [OF this Cons.prems(2)] Cons.prems(3) have "find P xs = Some j" by (meson list.set_intros(2))
    with False show ?thesis by simp
  qed
qed

lemma find_field:
  assumes "plain D (Suc n) flds dest sz" and "j < nfields flds" and "p < nfields flds"
  shows "pb_field_iter_find (f_tag (flds ! j)) (iter_at flds dest p) = Some (True, iter_at flds dest j)"
proof -
  let ?P = "\<lambda>i. field_matches (f_tag (flds ! j)) (flds ! i)"
  have ext: "PB_LTYPE (f_type (flds ! j)) \<noteq> PB_LTYPE_EXTENSION"
    using plain_fieldD [OF assms(1,2)] assms(2) by (simp add: plain_field_def plain_type_def entry_ok_def Let_def iter_at_field del: iter_at.simps)
  have "find ?P (cyc_from (nfields flds) p p) = Some j"
  proof (rule find_unique)
    fix i assume i: "i \<in> set (cyc_from (nfields flds) p p)" "?P i"
    have "i < nfields flds" using i(1) unfolding cyc_from_set [OF assms(3)] by simp
    moreover have "f_tag (flds ! i) = f_tag (flds ! j)" using i(2) by (simp add: field_matches_def)
    ultimately show "i = j" using plain_apart [OF assms(1) _ assms(2), of i] by blast
  next
    show "j \<in> set (cyc_from (nfields flds) p p)" unfolding cyc_from_set [OF assms(3)] using assms(2) by simp
  qed (simp add: field_matches_def ext)
  then show ?thesis
    using find_loop_result [OF assms(3,3)] by (simp add: pb_field_iter_find_def iter_at_pos assms(3) find_result_def)
qed

text \<open>One record of field \<open>j\<close>.\<close>

lemma loop_record:
  assumes plain: "plain D (Suc n) flds dest sz" and j: "j < nfields flds" and p: "n_iter lo = iter_at flds dest p" "p < nfields flds"
    and fed: "fed st (record_bytes (f_tag (flds ! j), w)) rest"
    and call: "\<And>st1. fed st1 (payload w) rest \<Longrightarrow> d_mem st1 = d_mem st \<Longrightarrow>
      gives (decode_static_field denv calls N (wire_type_of w) (iter_at flds dest j) st1) (foot (iter_at flds dest j)) st1 (payload w) rest Q"
  shows "\<exists>st'. leads denv calls N lo st (see (lo\<lparr>n_iter := iter_at flds dest j\<rparr>)) st' \<and>
    moved (foot (iter_at flds dest j)) st (record_bytes (f_tag (flds ! j), w)) rest st' \<and> Q (d_mem st')"
proof -
  let ?tag = "f_tag (flds ! j)" and ?it = "iter_at flds dest j"
  let ?tb = "varint_of (unat ?tag * 8 + unat (wire_type_of w))"
  have itf: "it_field ?it = flds ! j" by (rule iter_at_field [OF j])
  note pf = plain_fieldD [OF plain j]
  have t29: "unat ?tag < 2 ^ 29" using pf itf by (simp add: plain_field_def plain_type_def del: iter_at.simps)
  have "f_tag (field_at flds j) \<noteq> 0" by (rule field_at_tag_nonzero [OF j])
  then have "0 < unat ?tag" using nfields_le [of flds] j by (simp add: field_at_def unat_gt_0)
  note rt = reads_tag [OF wire_type_of_lt t29 this, of w]
  have fed': "fed st (?tb @ payload w) rest" using fed by (simp add: record_bytes_def)
  have has: "src_has (i_source (d_in st)) (?tb @ payload w @ rest)" and l: "length ?tb \<le> bytes_left (d_in st)"
    using fed' by (simp_all add: fed_def)
  obtain src where d: "dec_tag (d_in st) = (Some (wire_type_of w, ?tag), consume (d_in st) src (length ?tb))" "src_has src (payload w @ rest)"
    using readsD [OF rt has l] by blast
  then obtain eof where t: "pb_decode_tag (d_in st) = (Some (wire_type_of w, ?tag), eof, consume (d_in st) src (length ?tb))"
    by (auto simp: dec_tag_def split: prod.splits)
  let ?st1 = "st\<lparr>d_in := consume (d_in st) src (length ?tb)\<rparr>"
  have mv1: "moved {} st ?tb (payload w @ rest) ?st1" using d(2) by (simp add: moved_def)
  have "fed ?st1 (payload w) rest" by (rule moved_fed [OF fed' mv1])
  from call [OF this] obtain st' where c: "decode_static_field denv calls N (wire_type_of w) ?it ?st1 = Some (True, st')"
    and mv: "moved (foot ?it) ?st1 (payload w) rest st'" and q: "Q (d_mem st')" by (auto simp: gives_def)
  let ?lo = "lo\<lparr>n_iter := ?it\<rparr>"
  have k: "decode_known denv calls N (wire_type_of w) ?lo ?st1 = Some (True, see ?lo, st')"
    by (subst known_static [where sub = "\<lambda>d. plain D n (D d)" and dest = dest and sz = sz])
      (use pf plain_iter(1) [OF plain j] c in \<open>simp_all del: iter_at.simps\<close>)
  have ne: "0 < length ?tb" using varint_of_nonempty by simp
  have nz: "bytes_left (d_in st) \<noteq> 0" using l ne by linarith
  have "moved (foot ?it) st (?tb @ payload w) rest st'" by (rule moved_trans [OF moved_mono [OF mv1] mv]) simp
  then have mvr: "moved (foot ?it) st (record_bytes (?tag, w)) rest st'" by (simp add: record_bytes_def)
  have "leads denv calls N lo st (see ?lo) st'"
    unfolding leads_def
  proof (intro allI impI)
    fix m assume m: "bytes_left (d_in st) \<le> m"
    then obtain k' where k': "m = Suc k'" using l ne by (cases m) auto
    have "noinit_loop denv calls N m lo st = noinit_loop denv calls N k' (see ?lo) st'"
      using nz t find_field [OF plain j p(2)] k by (simp add: k' p(1) Let_def)
    moreover have "bytes_left (d_in st') = bytes_left (d_in st) - length ?tb - length (payload w)" using mv by (simp add: moved_def)
    then have "bytes_left (d_in st') \<le> k'" using m k' ne l by linarith
    ultimately show "\<exists>k' \<ge> bytes_left (d_in st'). noinit_loop denv calls N m lo st = noinit_loop denv calls N k' (see ?lo) st'"
      by blast
  qed
  then show ?thesis using mvr q by blast
qed

text \<open>All records of an array whose entries have records of their own.\<close>

lemma loop_entries:
  assumes plain: "plain (e_descr env) (Suc n) flds dest sz" and j: "j < nfields flds"
    and calls: "calls_restore env m n calls" and D: "v_descr denv = e_descr env"
    and ht: "htype (iter_at flds dest j) = PB_HTYPE_REPEATED" and lt: "\<not> ltype (iter_at flds dest j) \<le> PB_LTYPE_LAST_PACKABLE"
    and given: "entries_given env m n (iter_at flds dest j) src ws"
    and len: "length (records_bytes (map (Pair (f_tag (flds ! j))) ws)) < 2 ^ 32"
  shows "i \<le> length ws \<Longrightarrow> n_iter lo = iter_at flds dest p \<Longrightarrow> p < nfields flds \<Longrightarrow>
    fed st (records_bytes (map (Pair (f_tag (flds ! j))) (drop i ws))) rest \<Longrightarrow> arr_ok env n (iter_at flds dest j) ws i (d_mem st) \<Longrightarrow>
    \<exists>p' < nfields flds. \<exists>st'. leads denv calls N lo st (lo\<lparr>n_iter := iter_at flds dest p'\<rparr>) st' \<and>
      moved (foot (iter_at flds dest j)) st (records_bytes (map (Pair (f_tag (flds ! j))) (drop i ws))) rest st' \<and>
      arr_ok env n (iter_at flds dest j) ws (length ws) (d_mem st')"
proof (induction "length ws - i" arbitrary: i lo st p)
  case 0
  then have "i = length ws" by simp
  moreover have "lo\<lparr>n_iter := iter_at flds dest p\<rparr> = lo" using "0.prems"(2) by (cases lo) simp
  then have "leads denv calls N lo st (lo\<lparr>n_iter := iter_at flds dest p\<rparr>) st" by (simp only: leads_refl)
  ultimately show ?case using 0 by (intro exI [of _ p] conjI exI [of _ st]) (auto simp: moved_def fed_def)
next
  case (Suc l)
  let ?it = "iter_at flds dest j" and ?tag = "f_tag (flds ! j)"
  have i: "i < length ws" using Suc.hyps(2) by simp
  then have dr: "drop i ws = ws ! i # drop (Suc i) ws" by (simp add: Cons_nth_drop_Suc)
  let ?rest = "records_bytes (map (Pair ?tag) (drop (Suc i) ws))"
  have fed2: "fed st (record_bytes (?tag, ws ! i) @ ?rest) rest" and fed1: "fed st (record_bytes (?tag, ws ! i)) (?rest @ rest)"
    using Suc.prems(4) by (simp_all add: dr fed_def)
  have pi: "length (payload (ws ! i)) < 2 ^ 32"
  proof -
    have "length (record_bytes (?tag, ws ! i)) \<in> set (map length (map record_bytes (map (Pair ?tag) ws)))" using i by simp
    then have "length (record_bytes (?tag, ws ! i)) \<le> length (records_bytes (map (Pair ?tag) ws))"
      unfolding records_bytes_def length_concat by (rule member_le_sum_list) simp
    then show ?thesis using len by (simp add: record_bytes_def)
  qed
  note pf = plain_fieldD [OF plain j] and ps = plain_iter(1) [OF plain j]
  have "\<exists>st'. leads denv calls N lo st (see (lo\<lparr>n_iter := ?it\<rparr>)) st' \<and>
      moved (foot ?it) st (record_bytes (?tag, ws ! i)) (?rest @ rest) st' \<and> arr_ok env n ?it ws (Suc i) (d_mem st')"
  proof (rule loop_record [OF plain j Suc.prems(2,3) fed1], goal_cases)
    case (1 st1)
    then show ?case
      using Suc.prems(5) by (intro unpacked_gives [OF pf calls D ht ps given i lt _ pi]) simp_all
  qed
  then obtain st1 where l1: "leads denv calls N lo st (see (lo\<lparr>n_iter := ?it\<rparr>)) st1"
    and m1: "moved (foot ?it) st (record_bytes (?tag, ws ! i)) (?rest @ rest) st1" and a1: "arr_ok env n ?it ws (Suc i) (d_mem st1)" by blast
  have see: "see (lo\<lparr>n_iter := ?it\<rparr>) = lo\<lparr>n_iter := ?it\<rparr>" using ht by (simp add: see_def)
  have l: "l = length ws - Suc i" using Suc.hyps(2) i by simp
  obtain p' st2 where p': "p' < nfields flds" "leads denv calls N (lo\<lparr>n_iter := ?it\<rparr>) st1 (lo\<lparr>n_iter := iter_at flds dest p'\<rparr>) st2"
    "moved (foot ?it) st1 ?rest rest st2" "arr_ok env n ?it ws (length ws) (d_mem st2)"
    using Suc.hyps(1) [of "Suc i" "lo\<lparr>n_iter := ?it\<rparr>" j st1] l i j moved_fed [OF fed2 m1] a1 by auto
  have "moved (foot ?it) st (records_bytes (map (Pair ?tag) (drop i ws))) rest st2"
    using moved_trans [OF m1 p'(3)] by (simp add: dr)
  then show ?case using leads_trans [OF l1 [unfolded see] p'(2)] p'(1,4) by blast
qed

end
