(* ===== verification/PbRoundtrip.thy ===== *)
theory PbRoundtrip imports PbFields begin

text \<open>
  Messages survive: \<open>pb_decode\<close> on what \<open>pb_encode\<close> has written gives a message with the same wire
  records, hence with the same fields. The bookkeeping of required fields, the loop over all fields,
  the default values and the recursion into submessages are put together here.
\<close>

section \<open>The bookkeeping of required fields\<close>

text \<open>What has been seen when the first \<open>r\<close> required fields have.\<close>

definition seen_mask :: "nat \<Rightarrow> u32 list" where
  "seen_mask r = [mask (min 32 r), mask (min 32 (r - 32))]"

lemma mask_step: "mask r OR 2 ^ r = (mask (Suc r) :: u32)"
  by (simp add: mask_Suc_exp or.commute)

lemma see_required:
  assumes "htype (n_iter lo) = PB_HTYPE_REQUIRED" and "it_req (n_iter lo) = r" and "n_seen lo = seen_mask r"
  shows "n_seen (see lo) = seen_mask (Suc r)"
proof -
  consider "r < 32" | "32 \<le> r" "r < 64" | "64 \<le> r" by linarith
  then show ?thesis
  proof cases
    case 1
    then have "min 32 r = r" "min 32 (Suc r) = Suc r" by simp_all
    then show ?thesis using assms 1 by (simp add: see_def seen_mask_def mask_step Let_def)
  next
    case 2
    then have "r div 32 = 1" "r mod 32 = r - 32" by (auto simp: le_mod_geq le_div_geq)
    moreover have "Suc r - 32 = Suc (r - 32)" "min 32 (r - 32) = r - 32" "min 32 (Suc (r - 32)) = Suc (r - 32)" using 2 by auto
    ultimately show ?thesis using assms 2 by (simp add: see_def seen_mask_def mask_step Let_def)
  next
    case 3
    then show ?thesis using assms by (simp add: see_def seen_mask_def min_def Let_def)
  qed
qed

lemma see_other: "htype (n_iter lo) \<noteq> PB_HTYPE_REQUIRED \<Longrightarrow> see lo = lo"
  by (simp add: see_def Let_def)

lemma see_simps [simp]: "n_iter (see lo) = n_iter lo" "n_fixed (see lo) = n_fixed lo"
  by (simp_all add: see_def Let_def)

lemma drop_ones: "r \<le> 32 \<Longrightarrow> drop_bit (32 - r) (0xFFFFFFFF :: u32) = mask r"
proof -
  assume r: "r \<le> 32"
  have m: "(0xFFFFFFFF :: u32) = mask 32" by (simp add: mask_eq_exp_minus_1)
  show ?thesis unfolding m by (rule bit_word_eqI) (use r in \<open>auto simp: bit_simps\<close>)
qed

lemma required_seen_mask:
  assumes "q = (if r > 64 then 64 else r)"
  shows "required_seen q (seen_mask r)"
proof -
  have m: "(mask 32 :: u32) = 0xFFFFFFFF" by (simp add: mask_eq_exp_minus_1)
  consider "r < 32" | "32 \<le> r" "r < 64" | "64 \<le> r" by linarith
  then show ?thesis
  proof cases
    case 1
    then show ?thesis using assms by (simp add: required_seen_def seen_mask_def drop_ones min_def)
  next
    case 2
    then have "q div 32 = 1" "q mod 32 = r - 32" using assms by (auto simp: le_mod_geq le_div_geq)
    then show ?thesis using 2 drop_ones [of "r - 32"] by (auto simp: required_seen_def seen_mask_def m min_def)
  next
    case 3
    then have "q = 64" using assms by simp
    moreover have "[0..<2] = [0, 1 :: nat]" by (simp add: numeral_2_eq_2)
    ultimately show ?thesis using 3 by (simp add: required_seen_def seen_mask_def m min_def)
  qed
qed

lemma seek_end_at:
  assumes "p < nfields flds"
  shows "seek_end (iter_at flds dest p) = Some (it_req (iter_at flds dest (nfields flds - 1)),
    f_type (flds ! (nfields flds - 1)), iter_at flds dest 0)"
proof -
  let ?l = "nfields flds - 1"
  have l: "?l < nfields flds" "Suc ?l = nfields flds" using assms by simp_all
  have "do_fields (\<lambda>it _. Some (True, it)) (iter_at flds dest k) s = Some (True, iter_at flds dest ?l)" if "k < nfields flds" for k s
    using that
  proof (induction "nfields flds - k" arbitrary: k s)
    case 0
    then show ?case by simp
  next
    case (Suc d)
    show ?case
    proof (cases "Suc k < nfields flds")
      case True
      then have "do_fields (\<lambda>it _. Some (True, it)) (iter_at flds dest (Suc k)) (iter_at flds dest k) = Some (True, iter_at flds dest ?l)"
        using Suc.hyps(2) by (intro Suc.hyps(1)) simp_all
      then show ?thesis using True by (subst do_fields_at [OF Suc.prems]) (simp del: iter_at.simps)
    next
      case False
      then have "k = ?l" using Suc.prems by simp
      then show ?thesis using False by (subst do_fields_at [OF Suc.prems]) (simp del: iter_at.simps)
    qed
  qed
  moreover have "snd (pb_field_iter_next (iter_at flds dest ?l)) = iter_at flds dest 0"
    using iter_at_next [OF l(1)] l(2) by simp
  ultimately show ?thesis using assms l by (simp add: seek_end_def iter_at_field del: iter_at.simps)
qed

lemma check_required_ok:
  assumes plain: "plain D (Suc n) flds dest sz" and p: "p < nfields flds" "n_iter lo = iter_at flds dest p"
    and seen: "n_seen lo = seen_mask (reqs flds (nfields flds))"
  shows "check_required lo st = Some (True, st)"
proof -
  let ?l = "nfields flds - 1"
  have l: "?l < nfields flds" "Suc ?l = nfields flds" using p by simp_all
  have t: "f_tag (it_field (iter_at flds dest 0)) \<noteq> 0"
    using field_at_tag_nonzero [of 0 flds] p by (simp add: it_field_def iter_at_pos)
  have r: "reqs flds (nfields flds) = (if PB_HTYPE (f_type (flds ! ?l)) = PB_HTYPE_REQUIRED then it_req (iter_at flds dest ?l) + 1
      else it_req (iter_at flds dest ?l))"
    using reqs_Suc [OF l(1)] plain_iter(2) [OF plain l(1)] unfolding l(2) by simp
  show ?thesis
    using required_seen_mask [OF refl, of "reqs flds (nfields flds)"] t
    unfolding check_required_def p(2) seek_end_at [OF p(1)] seen r
    by (auto simp: Let_def simp del: iter_at.simps)
qed

section \<open>A message\<close>

lemma field_frame:
  assumes plain: "plain (e_descr env) (Suc n) flds dest sz" and k: "k < nfields flds" and pos: "0 < dest"
    and ag: "agree (foot (iter_at flds dest k)) m m'"
  shows "entry_records env m' (msg_records env m' n) n (iter_at flds dest k) =
    entry_records env m (msg_records env m n) n (iter_at flds dest k)"
proof -
  let ?it = "iter_at flds dest k"
  note p = plain_fieldD [OF plain k]
  have pos': "0 < it_pData ?it" using iter_pData_ge [of dest flds k] pos by simp
  show ?thesis
  proof (rule entry_frame [OF p pos' ag])
    fix d i assume d: "f_ptr (it_field ?it) = PtrFields d" and i: "i < entries (it_field ?it)"
    have pl: "plain (e_descr env) n (e_descr env d) (it_pData ?it + i * dsize ?it) (dsize ?it)"
      using p d i by (simp add: plain_field_unfold field_fits_def Let_def mult.commute del: iter_at.simps)
    have "span (it_pData ?it + i * dsize ?it) (dsize ?it) \<subseteq> foot ?it" using entry_addr [OF i] unfolding foot_def by blast
    then have "agree (span (it_pData ?it + i * dsize ?it) (dsize ?it)) m m'" using ag by blast
    from message_frame [OF pl _ this] pos' show
      "msg_records env m' n (e_descr env d) (it_pData ?it + i * dsize ?it) = msg_records env m n (e_descr env d) (it_pData ?it + i * dsize ?it)"
      by simp
  qed
qed

lemma given_of_good:
  assumes ht: "htype it = PB_HTYPE_REPEATED" and g: "good_field (\<lambda>d. good (e_descr env) m n (e_descr env d)) m sit"
    and f: "it_field sit = it_field it" and st: "PB_ATYPE (f_type (it_field it)) = PB_ATYPE_STATIC"
    and ws: "those (map (value_wire (e_descr env) m (msg_records env m n) (it_field it)) (item_addrs (it_field it) (it_pData sit) (in_use m sit))) = Some ws"
    and c: "in_use m sit \<le> unat (f_array_size (it_field it))" and pos: "0 < it_pData sit" "0 < it_pData it"
  shows "entries_given env m n it (it_pData sit) ws \<and> length ws = in_use m sit"
proof -
  have l: "length ws = in_use m sit" using length_those [OF ws] by simp
  have "value_wire (e_descr env) m (msg_records env m n) (it_field it) (it_pData sit + i * dsize it) = Some (ws ! i)" if "i < length ws" for i
    using nth_those [OF ws, of i] that l by simp
  moreover have "entry_good env n m (it_field it) (it_pData sit + i * dsize it)" if "i < length ws" for i
    using g that unfolding good_field_def f l by blast
  ultimately show ?thesis using l c pos by (simp add: entries_given_def)
qed

lemma arr_records:
  assumes st: "PB_ATYPE (f_type (it_field it)) = PB_ATYPE_STATIC" and arr: "arr_ok env n it ws (length ws) m"
    and ht: "htype it = PB_HTYPE_REPEATED" and len: "length ws \<le> unat (f_array_size (it_field it))" and ne: "ws \<noteq> []"
  shows "array_records (e_descr env) m (msg_records env m n) (it_field it) (it_pData it) (in_use m it) =
    Some (if ltype it \<le> PB_LTYPE_LAST_PACKABLE then [(f_tag (it_field it), WLen (concat (map payload ws)))]
      else map (Pair (f_tag (it_field it))) ws)"
proof -
  have u: "in_use m it = length ws" using arr ht by (simp add: in_use_def arr_ok_def)
  have "map (value_wire (e_descr env) m (msg_records env m n) (it_field it)) (item_addrs (it_field it) (it_pData it) (length ws)) = map Some ws"
    using arr by (intro nth_equalityI) (simp_all add: arr_ok_def)
  then have "those (map (value_wire (e_descr env) m (msg_records env m n) (it_field it)) (item_addrs (it_field it) (it_pData it) (length ws))) = Some ws"
    by (simp only: those_Some)
  then show ?thesis using len ne by (simp add: array_records_static [OF st] u)
qed

text \<open>The state of the loop when the fields before \<open>j\<close> are done.\<close>

definition loop_inv :: "pb_field list \<Rightarrow> addr \<Rightarrow> nat \<Rightarrow> noinit_locals \<Rightarrow> bool" where
  "loop_inv flds dest j lo \<longleftrightarrow> (\<exists>p < nfields flds. n_iter lo = iter_at flds dest p) \<and> n_fixed lo = None \<and>
     n_seen lo = seen_mask (reqs flds j)"

lemma loop_inv_see:
  assumes plain: "plain D (Suc n) flds dest sz" and j: "j < nfields flds" and inv: "loop_inv flds dest j lo"
  shows "loop_inv flds dest (Suc j) (see (lo\<lparr>n_iter := iter_at flds dest j\<rparr>))"
proof (cases "htype (iter_at flds dest j) = PB_HTYPE_REQUIRED")
  case True
  have "n_seen (see (lo\<lparr>n_iter := iter_at flds dest j\<rparr>)) = seen_mask (Suc (reqs flds j))"
    by (rule see_required) (use True inv plain_iter(2) [OF plain j] in \<open>simp_all add: loop_inv_def del: iter_at.simps\<close>)
  then show ?thesis using True inv j reqs_Suc [OF j] by (auto simp: loop_inv_def iter_at_field simp del: iter_at.simps)
next
  case False
  then show ?thesis using inv j reqs_Suc [OF j] see_other [of "lo\<lparr>n_iter := iter_at flds dest j\<rparr>"]
    by (auto simp: loop_inv_def iter_at_field simp del: iter_at.simps)
qed

lemma loop_inv_skip:
  "j < nfields flds \<Longrightarrow> PB_HTYPE (f_type (flds ! j)) \<noteq> PB_HTYPE_REQUIRED \<Longrightarrow> loop_inv flds dest j lo \<Longrightarrow> p < nfields flds \<Longrightarrow>
    loop_inv flds dest (Suc j) (lo\<lparr>n_iter := iter_at flds dest p\<rparr>)"
  by (auto simp: loop_inv_def reqs_Suc)

lemma record_len: "length (payload w) \<le> length (record_bytes (t, w))"
  by (simp add: record_bytes_def)

lemma field_restores:
  assumes plain: "plain (e_descr env) (Suc n) flds dest sz" and j: "j < nfields flds"
    and calls: "calls_restore env m n calls" and D: "v_descr denv = e_descr env"
    and rs: "entry_records env m (msg_records env m n) n (iter_at flds src j) = Some rs"
    and g: "good_field (\<lambda>d. good (e_descr env) m n (e_descr env d)) m (iter_at flds src j)"
    and fr: "fresh_field (\<lambda>d. fresh (e_descr env) (d_mem st) n (e_descr env d)) (d_mem st) (iter_at flds dest j)"
    and pos: "0 < src" "0 < dest" and len: "length (records_bytes rs) < 2 ^ 32"
    and inv: "loop_inv flds dest j lo" and fed: "fed st (records_bytes rs) rest"
  shows "\<exists>lo' st'. leads denv calls N lo st lo' st' \<and> loop_inv flds dest (Suc j) lo' \<and>
    moved (foot (iter_at flds dest j)) st (records_bytes rs) rest st' \<and>
    entry_records env (d_mem st') (msg_records env (d_mem st') n) n (iter_at flds dest j) = Some rs"
proof -
  let ?it = "iter_at flds dest j" and ?sit = "iter_at flds src j"
  note p = plain_fieldD [OF plain j] and ps = plain_iter(1) [OF plain j]
  have f: "it_field ?sit = flds ! j" "it_field ?it = flds ! j" using j by (simp_all add: iter_at_field)
  have pt: "plain_type (it_field ?it)" using p by (simp add: plain_field_def del: iter_at.simps)
  then have pts: "plain_type (it_field ?sit)" by (simp add: f)
  have st: "PB_ATYPE (f_type (it_field ?it)) = PB_ATYPE_STATIC" using pt by (simp add: plain_type_def entry_ok_def Let_def)
  have posd: "0 < it_pData ?it" and poss: "0 < it_pData ?sit"
    using iter_pData_ge [of dest flds j] iter_pData_ge [of src flds j] pos by simp_all
  obtain q where q: "n_iter lo = iter_at flds dest q" "q < nfields flds" using inv by (auto simp: loop_inv_def)
  have sd: "sized ?sit = sized ?it" by (simp add: sized_def f)
  note er = entry_records_plain [OF pts poss] and ed = entry_records_plain [OF pt posd]
  have n: "\<not> (htype ?it = PB_HTYPE_OPTIONAL \<and> \<not> sized ?it \<and> n = 0)"
    using rs sd unfolding er by (auto simp add: f simp del: iter_at.simps)
  show ?thesis
  proof (cases "in_use m ?sit = 0")
    case True
    then have nreq: "PB_HTYPE (f_type (flds ! j)) \<noteq> PB_HTYPE_REQUIRED" by (auto simp add: in_use_def f simp del: iter_at.simps)
    have e: "rs = []" using rs True st unfolding er by (auto simp: f array_records_static split: if_splits)
    have "in_use (d_mem st) ?it = 0" using fr nreq by (simp add: fresh_field_def f del: iter_at.simps)
    then have "entry_records env (d_mem st) (msg_records env (d_mem st) n) n ?it = Some rs"
      using n st unfolding ed by (auto simp: e array_records_static)
    moreover have "moved (foot ?it) st (records_bytes rs) rest st" using fed by (simp add: e moved_def fed_def)
    moreover have "loop_inv flds dest (Suc j) lo" using loop_inv_skip [OF j nreq inv q(2)] q(1) by (cases lo) simp
    ultimately show ?thesis using leads_refl by blast
  next
    case used: False
    show ?thesis
    proof (cases "htype ?it = PB_HTYPE_REPEATED")
      case False
      then obtain w where w: "value_wire (e_descr env) m (msg_records env m n) (it_field ?it) (it_pData ?sit) = Some w"
        and rsw: "rs = [(f_tag (flds ! j), w)]"
        using rs used n sd unfolding er by (auto simp: f simp del: iter_at.simps)
      have ge: "entry_good env n m (it_field ?it) (it_pData ?sit)"
      proof -
        have "entry_good env n m (flds ! j) (it_pData ?sit + 0 * unat (f_data_size (flds ! j)))"
          using g used unfolding good_field_def f by blast
        then show ?thesis unfolding f mult_0 add_0_right .
      qed
      have nz: "\<not> zero_value m (it_field ?it) (it_pData ?sit)" if "htype ?it = PB_HTYPE_OPTIONAL \<and> \<not> sized ?it"
        using used that sd by (auto simp add: in_use_def f simp del: iter_at.simps split: if_splits)
      have fw: "fed st (record_bytes (f_tag (flds ! j), w)) rest" using fed by (simp add: rsw)
      have lw: "length (payload w) < 2 ^ 32" using len record_len [of w "f_tag (flds ! j)"] by (simp add: rsw)
      have "\<exists>st'. leads denv calls N lo st (see (lo\<lparr>n_iter := ?it\<rparr>)) st' \<and>
          moved (foot ?it) st (record_bytes (f_tag (flds ! j), w)) rest st' \<and>
          (entry_val env n (d_mem st') ?it 0 = Some w \<and> in_use (d_mem st') ?it \<noteq> 0)"
      proof (rule loop_record [OF plain j q fw], goal_cases)
        case (1 st1)
        show ?case
          by (rule single_gives [OF p calls D poss posd ps False w ge nz _ 1(1) lw]) (use fr 1(2) in simp_all)
      qed
      then obtain st' where l: "leads denv calls N lo st (see (lo\<lparr>n_iter := ?it\<rparr>)) st'"
        and mv: "moved (foot ?it) st (record_bytes (f_tag (flds ! j), w)) rest st'"
        and v: "entry_val env n (d_mem st') ?it 0 = Some w" "in_use (d_mem st') ?it \<noteq> 0" by blast
      have "entry_records env (d_mem st') (msg_records env (d_mem st') n) n ?it = Some rs"
        using v False n unfolding ed by (auto simp: rsw f simp del: iter_at.simps)
      then show ?thesis using l mv loop_inv_see [OF plain j inv] by (auto simp: rsw)
    next
      case ht: True
      let ?c = "in_use m ?sit"
      have nreq: "PB_HTYPE (f_type (flds ! j)) \<noteq> PB_HTYPE_REQUIRED" using ht by (simp add: f)
      have c: "?c \<le> unat (f_array_size (flds ! j))"
        using rs ht used st unfolding er by (auto simp: f array_records_static split: if_splits)
      obtain ws where ws: "those (map (value_wire (e_descr env) m (msg_records env m n) (it_field ?it)) (item_addrs (it_field ?it) (it_pData ?sit) ?c)) = Some ws"
        and rsw: "rs = (if ltype ?it \<le> PB_LTYPE_LAST_PACKABLE then [(f_tag (flds ! j), WLen (concat (map payload ws)))]
            else map (Pair (f_tag (flds ! j))) ws)"
        using rs ht used st c unfolding er by (auto simp: f array_records_static split: if_splits)
      have c': "?c \<le> unat (f_array_size (it_field ?it))" using c by (simp only: f)
      have "it_field ?sit = it_field ?it" by (simp only: f)
      note gv = given_of_good [OF ht g this st ws c' poss posd]
      have given: "entries_given env m n ?it (it_pData ?sit) ws" and lw: "length ws = ?c" using gv by blast+
      have ne: "ws \<noteq> []" using lw used by auto
      have wsl: "length ws \<le> unat (f_array_size (it_field ?it))" using lw c' by simp
      have arr0: "arr_ok env n ?it ws 0 (d_mem st)" using fr ht nreq by (simp add: fresh_field_def arr_ok_def in_use_def f)
      note fin = arr_records [OF st _ ht wsl ne]
      show ?thesis
      proof (cases "ltype ?it \<le> PB_LTYPE_LAST_PACKABLE")
        case True
        let ?w = "WLen (concat (map payload ws))"
        have rsp: "rs = [(f_tag (flds ! j), ?w)]" using rsw True by simp
        have fw: "fed st (record_bytes (f_tag (flds ! j), ?w)) rest" using fed by (simp add: rsp)
        have lp: "length (concat (map payload ws)) < 2 ^ 32"
          using len record_len [of ?w "f_tag (flds ! j)"] by (simp add: rsp)
        have "\<exists>st'. leads denv calls N lo st (see (lo\<lparr>n_iter := ?it\<rparr>)) st' \<and>
            moved (foot ?it) st (record_bytes (f_tag (flds ! j), ?w)) rest st' \<and> arr_ok env n ?it ws (length ws) (d_mem st')"
        proof (rule loop_record [OF plain j q fw], goal_cases)
          case (1 st1)
          have "arr_ok env n ?it ws 0 (d_mem st1)" using arr0 1(2) by simp
          from packed_gives [OF p calls D ht ps given lp True this 1(1)] show ?case by simp
        qed
        then obtain st' where l: "leads denv calls N lo st (see (lo\<lparr>n_iter := ?it\<rparr>)) st'"
          and mv: "moved (foot ?it) st (record_bytes (f_tag (flds ! j), ?w)) rest st'"
          and a: "arr_ok env n ?it ws (length ws) (d_mem st')" by blast
        have "entry_records env (d_mem st') (msg_records env (d_mem st') n) n ?it = Some rs"
          using fin [OF a] True ht n unfolding ed by (simp add: rsp f del: iter_at.simps)
        then show ?thesis using l mv loop_inv_see [OF plain j inv] by (auto simp: rsp)
      next
        case False
        have rsu: "rs = map (Pair (f_tag (flds ! j))) ws" using rsw False by simp
        have fw: "fed st (records_bytes (map (Pair (f_tag (flds ! j))) (drop 0 ws))) rest" using fed by (simp add: rsu)
        obtain p' st' where p': "p' < nfields flds" and l: "leads denv calls N lo st (lo\<lparr>n_iter := iter_at flds dest p'\<rparr>) st'"
          and mv: "moved (foot ?it) st (records_bytes rs) rest st'" and a: "arr_ok env n ?it ws (length ws) (d_mem st')"
          using loop_entries [where N = N, OF plain j calls D ht False given len [unfolded rsu] _ q fw arr0] unfolding rsu drop_0 by blast
        have "entry_records env (d_mem st') (msg_records env (d_mem st') n) n ?it = Some rs"
          using fin [OF a] False ht n unfolding ed by (simp add: rsu f del: iter_at.simps)
        then show ?thesis using l mv loop_inv_skip [OF j nreq inv p'] by blast
      qed
    qed
  qed
qed

lemma fields_restore:
  assumes plain: "plain (e_descr env) (Suc n) flds dest sz" and calls: "calls_restore env m n calls" and D: "v_descr denv = e_descr env"
    and rss: "those (map (\<lambda>k. entry_records env m (msg_records env m n) n (iter_at flds src k)) [0..<nfields flds]) = Some rss"
    and good: "good (e_descr env) m (Suc n) flds src" and pos: "0 < src" "0 < dest"
    and len: "length (records_bytes (concat rss)) < 2 ^ 32"
  shows "j \<le> nfields flds \<Longrightarrow> loop_inv flds dest j lo \<Longrightarrow> fed st (records_bytes (concat (drop j rss))) rest \<Longrightarrow>
    \<forall>k < j. entry_records env (d_mem st) (msg_records env (d_mem st) n) n (iter_at flds dest k) = Some (rss ! k) \<Longrightarrow>
    \<forall>k < nfields flds. j \<le> k \<longrightarrow> fresh_field (\<lambda>d. fresh (e_descr env) (d_mem st) n (e_descr env d)) (d_mem st) (iter_at flds dest k) \<Longrightarrow>
    \<exists>lo' st'. leads denv calls N lo st lo' st' \<and> loop_inv flds dest (nfields flds) lo' \<and>
      moved (span dest sz) st (records_bytes (concat (drop j rss))) rest st' \<and>
      (\<forall>k < nfields flds. entry_records env (d_mem st') (msg_records env (d_mem st') n) n (iter_at flds dest k) = Some (rss ! k))"
proof (induction "nfields flds - j" arbitrary: j lo st)
  case 0
  then have j: "j = nfields flds" by simp
  have "length rss = nfields flds" using length_those [OF rss] by simp
  then have "moved (span dest sz) st (records_bytes (concat (drop j rss))) rest st" using 0 j by (simp add: moved_def fed_def)
  then show ?case using 0 j leads_refl by blast
next
  case (Suc l)
  let ?it = "iter_at flds dest j"
  have j: "j < nfields flds" using Suc.hyps(2) by simp
  have lr: "length rss = nfields flds" using length_those [OF rss] by simp
  have dr: "drop j rss = rss ! j # drop (Suc j) rss" using j lr by (simp add: Cons_nth_drop_Suc)
  let ?rest = "records_bytes (concat (drop (Suc j) rss))"
  have fed1: "fed st (records_bytes (rss ! j)) (?rest @ rest)" and fed2: "fed st (records_bytes (rss ! j) @ ?rest) rest"
    using Suc.prems(3) by (simp_all add: dr fed_def)
  have rs: "entry_records env m (msg_records env m n) n (iter_at flds src j) = Some (rss ! j)"
    using nth_those [OF rss, of j] j by simp
  have g: "good_field (\<lambda>d. good (e_descr env) m n (e_descr env d)) m (iter_at flds src j)" using good j by simp
  have fr: "fresh_field (\<lambda>d. fresh (e_descr env) (d_mem st) n (e_descr env d)) (d_mem st) ?it" using Suc.prems(5) j by blast
  have lj: "length (records_bytes (rss ! j)) < 2 ^ 32"
  proof -
    have "length (records_bytes (rss ! j)) \<in> set (map (length \<circ> records_bytes) rss)" using j lr by simp
    then have "length (records_bytes (rss ! j)) \<le> length (records_bytes (concat rss))"
      unfolding records_bytes_concat length_concat map_map by (rule member_le_sum_list) simp
    then show ?thesis using len by simp
  qed
  obtain lo1 st1 where l1: "leads denv calls N lo st lo1 st1" and i1: "loop_inv flds dest (Suc j) lo1"
    and m1: "moved (foot ?it) st (records_bytes (rss ! j)) (?rest @ rest) st1"
    and e1: "entry_records env (d_mem st1) (msg_records env (d_mem st1) n) n ?it = Some (rss ! j)"
    using field_restores [OF plain j calls D rs g fr pos lj Suc.prems(2) fed1] by blast
  have ag: "agree (foot (iter_at flds dest k)) (d_mem st) (d_mem st1)" if "k < nfields flds" "k \<noteq> j" for k
    using plain_apart [OF plain that(1) j that(2)] m1 by (auto simp: moved_def inside_def)
  have old: "\<forall>k < Suc j. entry_records env (d_mem st1) (msg_records env (d_mem st1) n) n (iter_at flds dest k) = Some (rss ! k)"
  proof (intro allI impI)
    fix k assume k: "k < Suc j"
    show "entry_records env (d_mem st1) (msg_records env (d_mem st1) n) n (iter_at flds dest k) = Some (rss ! k)"
    proof (cases "k = j")
      case False
      then have kn: "k < nfields flds" "k < j" using k j by simp_all
      from field_frame [OF plain kn(1) pos(2) ag [OF kn(1) False]] Suc.prems(4) kn(2) show ?thesis by simp
    qed (use e1 in simp)
  qed
  have new: "\<forall>k < nfields flds. Suc j \<le> k \<longrightarrow>
      fresh_field (\<lambda>d. fresh (e_descr env) (d_mem st1) n (e_descr env d)) (d_mem st1) (iter_at flds dest k)"
  proof (intro allI impI)
    fix k assume k: "k < nfields flds" "Suc j \<le> k"
    have a: "agree (foot (iter_at flds dest k)) (d_mem st) (d_mem st1)" using k by (intro ag) simp_all
    have f: "fresh_field (\<lambda>d. fresh (e_descr env) (d_mem st) n (e_descr env d)) (d_mem st) (iter_at flds dest k)"
      using Suc.prems(5) k Suc_leD by blast
    show "fresh_field (\<lambda>d. fresh (e_descr env) (d_mem st1) n (e_descr env d)) (d_mem st1) (iter_at flds dest k)"
      by (rule fresh_field_frame [OF plain_fieldD [OF plain k(1)] a _ f]) (rule fresh_frame)
  qed
  have "\<exists>lo' st'. leads denv calls N lo1 st1 lo' st' \<and> loop_inv flds dest (nfields flds) lo' \<and>
      moved (span dest sz) st1 ?rest rest st' \<and>
      (\<forall>k < nfields flds. entry_records env (d_mem st') (msg_records env (d_mem st') n) n (iter_at flds dest k) = Some (rss ! k))"
    by (rule Suc.hyps(1) [OF _ _ i1 moved_fed [OF fed2 m1] old new]) (use Suc.hyps(2) j in simp_all)
  then obtain lo2 st2 where l2: "leads denv calls N lo1 st1 lo2 st2" "loop_inv flds dest (nfields flds) lo2"
      and m2: "moved (span dest sz) st1 ?rest rest st2"
      and e2: "\<forall>k < nfields flds. entry_records env (d_mem st2) (msg_records env (d_mem st2) n) n (iter_at flds dest k) = Some (rss ! k)"
    by blast
  have "moved (span dest sz) st (records_bytes (concat (drop j rss))) rest st2"
    using moved_trans [OF moved_mono [OF m1 foot_lies [OF plain j]] m2] by (simp add: dr)
  then show ?case using leads_trans [OF l1 l2(1)] l2(2) e2 by blast
qed

text \<open>A message without fields.\<close>

lemma check_required_empty:
  assumes "nfields flds = 0" and "n_iter lo = iter_at flds dest 0"
  shows "check_required lo st = Some (True, st)"
proof -
  let ?it = "iter_at flds dest 0"
  have t: "f_tag (it_field ?it) = 0" using field_at_nfields [of flds] assms(1) by (simp add: it_field_def)
  then have nx: "pb_field_iter_next ?it = (False, ?it)" by (simp add: pb_field_iter_next_def)
  have "do_fields (\<lambda>it (_ :: pb_field_iter). Some (True, it)) ?it ?it = Some (True, ?it)"
    by (subst do_fields.simps) (simp add: nx del: iter_at.simps)
  moreover have "it_req ?it = 0" by simp
  ultimately show ?thesis using t by (simp add: check_required_def seek_end_def assms(2) nx Let_def del: iter_at.simps)
qed

lemma noinit_body_restores:
  assumes plain: "plain (e_descr env) (Suc n) flds dest sz" and calls: "calls_restore env m n calls" and D: "v_descr denv = e_descr env"
    and rs: "msg_records env m (Suc n) flds src = Some rs" and good: "good (e_descr env) m (Suc n) flds src" and pos: "0 < src" "0 < dest"
    and len: "length (records_bytes rs) < 2 ^ 32" and fr: "fresh (e_descr env) (d_mem st) (Suc n) flds dest"
    and fed: "fed st (records_bytes rs) rest" and left: "bytes_left (d_in st) = length (records_bytes rs)"
  shows "gives (noinit_body denv calls N flds dest st) (span dest sz) st (records_bytes rs) rest
    (\<lambda>m'. msg_records env m' (Suc n) flds dest = Some rs)"
proof -
  obtain rss where rss: "those (map (\<lambda>k. entry_records env m (msg_records env m n) n (iter_at flds src k)) [0..<nfields flds]) = Some rss"
    and rsc: "rs = concat rss" using rs by auto
  have lr: "length rss = nfields flds" using length_those [OF rss] by simp
  define lo where "lo = \<lparr>n_iter = snd (pb_field_iter_begin flds dest), n_seen = [0, 0], n_ext_start = 0, n_fixed = None\<rparr>"
  let ?st = "st\<lparr>d_fcount := 0\<rparr>"
  have fin: "msg_records env m' (Suc n) flds dest = Some rs"
    if "\<forall>k < nfields flds. entry_records env m' (msg_records env m' n) n (iter_at flds dest k) = Some (rss ! k)" for m'
  proof -
    have "map (\<lambda>k. entry_records env m' (msg_records env m' n) n (iter_at flds dest k)) [0..<nfields flds] = map Some rss"
      using that lr by (intro nth_equalityI) simp_all
    then show ?thesis by (simp add: those_Some rsc)
  qed
  show ?thesis
  proof (cases "nfields flds = 0")
    case True
    then have "rs = []" using lr rsc by simp
    then have b0: "bytes_left (d_in st) = 0" "src_has (i_source (d_in st)) rest" using left fed by (simp_all add: fed_def)
    have "noinit_body denv calls N flds dest st = Some (True, ?st)"
      using b0 check_required_empty [OF True, of lo dest ?st]
      by (simp add: noinit_body_def lo_def fixed_incomplete_def Let_def)
    then show ?thesis using b0 True fin \<open>rs = []\<close> by (auto simp: gives_def moved_def)
  next
    case False
    have inv: "loop_inv flds dest 0 lo" using False
      by (auto simp: loop_inv_def lo_def seen_mask_def reqs_def intro!: exI [of _ 0])
    have fed': "fed ?st (records_bytes (concat (drop 0 rss))) rest" using fed by (simp add: fed_def rsc)
    have lr32: "length (records_bytes (concat rss)) < 2 ^ 32" using len by (simp add: rsc)
    have "\<exists>lo' st'. leads denv calls N lo ?st lo' st' \<and> loop_inv flds dest (nfields flds) lo' \<and>
      moved (span dest sz) ?st (records_bytes (concat (drop 0 rss))) rest st' \<and>
      (\<forall>k < nfields flds. entry_records env (d_mem st') (msg_records env (d_mem st') n) n (iter_at flds dest k) = Some (rss ! k))"
      by (rule fields_restore [OF plain calls D rss good pos lr32 _ inv fed']) (use fr in simp_all)
    then obtain lo' st' where l: "leads denv calls N lo ?st lo' st'" and i: "loop_inv flds dest (nfields flds) lo'"
      and mv: "moved (span dest sz) ?st (records_bytes rs) rest st'"
      and e: "\<forall>k < nfields flds. entry_records env (d_mem st') (msg_records env (d_mem st') n) n (iter_at flds dest k) = Some (rss ! k)"
      by (auto simp: rsc)
    have b0: "bytes_left (d_in st') = 0" using mv left by (simp add: moved_def)
    obtain k' where "noinit_loop denv calls N (bytes_left (d_in st)) lo ?st = noinit_loop denv calls N k' lo' st'"
      using l unfolding leads_def by auto
    then have "noinit_loop denv calls N (bytes_left (d_in st)) lo ?st = Some (True, lo', st')" using b0 by (cases k') simp_all
    moreover obtain p where "p < nfields flds" "n_iter lo' = iter_at flds dest p" using i by (auto simp: loop_inv_def)
    then have "check_required lo' st' = Some (True, st')" using i by (intro check_required_ok [OF plain]) (simp_all add: loop_inv_def)
    moreover have "\<not> fixed_incomplete lo' st'" using i by (simp add: loop_inv_def fixed_incomplete_def)
    ultimately have "noinit_body denv calls N flds dest st = Some (True, st')" by (simp add: noinit_body_def lo_def Let_def)
    then show ?thesis using mv fin [OF e] by (auto simp: gives_def moved_def)
  qed
qed

section \<open>Default values\<close>

lemma le_val_zero: "\<forall>b \<in> set bs. b = 0 \<Longrightarrow> le_val bs = 0"
  by (induction bs) auto

lemma zero_value_zero:
  assumes "\<forall>a \<in> span p (unat (f_data_size f)). m a = 0" and "exact_size f" and "PB_LTYPE (f_type f) \<noteq> PB_LTYPE_FIXED_LENGTH_BYTES"
  shows "zero_value m f p"
proof -
  have "load 4 m p = 0" if "4 \<le> unat (f_data_size f)"
    unfolding load_def by (rule le_val_zero) (use assms(1) that in \<open>auto simp: mem_read_def\<close>)
  moreover have "list_all (\<lambda>b. b = 0) (mem_read m p (unat (f_data_size f)))" using assms(1) by (auto simp: list_all_iff mem_read_def)
  ultimately show ?thesis using assms by (auto simp: zero_value_def exact_size_def Let_def)
qed

lemma do_fields_ind:
  assumes "\<And>j s. j < nfields flds \<Longrightarrow> I j s \<Longrightarrow> \<exists>s'. body (iter_at flds dest j) s = Some (True, s') \<and> I (Suc j) s'"
  shows "k < nfields flds \<Longrightarrow> I k s \<Longrightarrow> \<exists>s'. do_fields body (iter_at flds dest k) s = Some (True, s') \<and> I (nfields flds) s'"
proof (induction "nfields flds - k" arbitrary: k s)
  case 0
  then show ?case by simp
next
  case (Suc d)
  obtain s1 where s1: "body (iter_at flds dest k) s = Some (True, s1)" "I (Suc k) s1" using assms Suc.prems by blast
  show ?case
  proof (cases "Suc k < nfields flds")
    case True
    with Suc.hyps(1) [OF _ True s1(2)] Suc.hyps(2) s1(1) show ?thesis
      by (subst do_fields_at [OF Suc.prems(1)]) (simp del: iter_at.simps)
  next
    case False
    then have "Suc k = nfields flds" using Suc.prems(1) by simp
    with s1 show ?thesis by (subst do_fields_at [OF Suc.prems(1)]) (auto simp del: iter_at.simps)
  qed
qed

lemma for_fields_ind:
  assumes "\<And>j st. j < nfields flds \<Longrightarrow> I j st \<Longrightarrow> \<exists>st'. f (iter_at flds dest j) st = Some st' \<and> I (Suc j) st'" and "I 0 st"
  shows "\<exists>st'. for_fields f flds dest st = Some st' \<and> I (nfields flds) st'"
proof (cases "0 < nfields flds")
  case False
  then show ?thesis using assms(2) iter_begin_ok [of flds dest] by (auto simp: for_fields_def split: prod.splits bool.splits)
next
  case True
  have "\<exists>st'. do_fields (\<lambda>it st. map_option (Pair True) (f it st)) (iter_at flds dest 0) st = Some (True, st') \<and> I (nfields flds) st'"
  proof (rule do_fields_ind [OF _ True])
    fix j s assume "j < nfields flds" "I j s"
    from assms(1) [OF this] show "\<exists>s'. map_option (Pair True) (f (iter_at flds dest j) s) = Some (True, s') \<and> I (Suc j) s'" by auto
  qed (rule assms(2))
  moreover have "pb_field_iter_begin flds dest = (True, iter_at flds dest 0)"
    using True iter_begin_ok [of flds dest] by (simp add: prod_eq_iff)
  ultimately show ?thesis by (auto simp: for_fields_def simp del: iter_at.simps)
qed

lemma default_field:
  assumes p: "plain_field (\<lambda>d. plain D n (D d)) it dest sz" and ps: "it_pSize it = PMem (size_addr it)" and D: "v_descr denv = D"
    and sub: "\<And>flds dest sz st. plain D n flds dest sz \<Longrightarrow> \<exists>st'. for_fields (pb_field_set_to_default denv N) flds dest st = Some st' \<and>
      inside (span dest sz) st st' \<and> d_in st' = d_in st \<and> fresh D (d_mem st') n flds dest"
  shows "\<exists>st'. pb_field_set_to_default denv (Suc N) it st = Some st' \<and> inside (foot it) st st' \<and> d_in st' = d_in st \<and>
    fresh_field (\<lambda>d. fresh D (d_mem st') n (D d)) (d_mem st') it"
proof -
  let ?f = "it_field it"
  note q = p [unfolded plain_field_unfold field_fits_def Let_def]
  have e: "entry_ok ?f" "exact_size ?f" using q by blast+
  have ty: "ltype it \<noteq> PB_LTYPE_EXTENSION" "PB_ATYPE (f_type ?f) = PB_ATYPE_STATIC" using e(1) by (simp_all add: entry_ok_def Let_def)
  have ht: "htype it = PB_HTYPE_REQUIRED \<or> htype it = PB_HTYPE_OPTIONAL \<or> htype it = PB_HTYPE_REPEATED"
    using htype_cases [of "f_type ?f"] q by auto
  have sa: "sized it \<longleftrightarrow> size_addr it \<noteq> it_pData it" using q by (auto simp: sized_def size_addr_def ptr_add_def)
  show ?thesis
  proof (cases "htype it = PB_HTYPE_REPEATED")
    case True
    note sc = set_counter [OF True ps, of 0 st]
    have "pb_field_set_to_default denv (Suc N) it st = Some (psize_write (it_pSize it) 0 st)"
      using ty True by (simp add: set_default_step_def Let_def)
    moreover have "fresh_field (\<lambda>d. fresh D (d_mem (psize_write (it_pSize it) 0 st)) n (D d)) (d_mem (psize_write (it_pSize it) 0 st)) it"
      using sc(2) True by (simp add: fresh_field_def in_use_def split: pb_ptr.split)
    moreover have "inside (foot it) st (psize_write (it_pSize it) 0 st)"
      by (rule inside_mono [OF sc(1)]) (simp_all add: foot_def)
    ultimately show ?thesis using sc(3) by auto
  next
    case False
    have one: "entries ?f = 1" using False by (simp add: entries_def)
    have dspan: "data_span it = span (it_pData it) (dsize it)" by (simp add: data_span_def one)
    define opt where "opt \<longleftrightarrow> htype it = PB_HTYPE_OPTIONAL \<and> sized it"
    define st1 where "st1 = (if opt then d_store 1 (size_addr it) 0 st else st)"
    have i1: "inside (flag_span it) st st1" using inside_store [of "size_addr it" 1 "flag_span it" st 0]
      by (auto simp: st1_def opt_def flag_span_def)
    have in1: "d_in st1 = d_in st" by (simp add: st1_def)
    have flag1: "load 1 (d_mem st1) (size_addr it) = 0" if opt
      using that load_store_same [of 1 "d_mem st" "size_addr it" 0] by (simp add: st1_def)
    have step: "pb_field_set_to_default denv (Suc N) it st =
      (if ltype it = PB_LTYPE_SUBMESSAGE then
         (case f_ptr ?f of
            PtrFields d \<Rightarrow> for_fields (pb_field_set_to_default denv N) (v_descr denv d) (it_pData it) st1
          | _ \<Rightarrow> None)
       else
         (case f_ptr ?f of
            PtrDefault bs \<Rightarrow> Some (st1\<lparr>d_mem := mem_write (d_mem st1) (it_pData it) (fill (dsize it) bs)\<rparr>)
          | PtrFields d \<Rightarrow> None
          | PtrNull \<Rightarrow> Some (d_memset0 (it_pData it) (dsize it) st1)))"
      using ty False ht sa ps unfolding st1_def opt_def
      by (cases "htype it = PB_HTYPE_OPTIONAL \<and> sized it") (auto simp: set_default_step_def Let_def split: pb_ptr.split)
    have fin: "inside (foot it) st st2 \<and> d_in st2 = d_in st \<and> fresh_field (\<lambda>d. fresh D (d_mem st2) n (D d)) (d_mem st2) it"
      if i2: "inside (data_span it) st1 st2" and in2: "d_in st2 = d_in st1"
        and z: "htype it = PB_HTYPE_OPTIONAL \<Longrightarrow> \<not> sized it \<Longrightarrow> zero_value (d_mem st2) ?f (it_pData it)"
        and s: "\<And>d. f_ptr ?f = PtrFields d \<Longrightarrow> fresh D (d_mem st2) n (D d) (it_pData it)" for st2
    proof -
      have "load 1 (d_mem st2) (size_addr it) = 0" if opt
      proof -
        have "agree (flag_span it) (d_mem st1) (d_mem st2)" using i2 q by (auto simp: inside_def)
        then have "load 1 (d_mem st2) (size_addr it) = load 1 (d_mem st1) (size_addr it)"
          by (rule agree_load) (use that in \<open>auto simp: flag_span_def opt_def\<close>)
        then show ?thesis using flag1 [OF that] by simp
      qed
      then have "htype it = PB_HTYPE_REQUIRED \<or> in_use (d_mem st2) it = 0" using ht False z by (cases "sized it") (auto simp: in_use_def opt_def)
      then have "fresh_field (\<lambda>d. fresh D (d_mem st2) n (D d)) (d_mem st2) it"
        using s by (auto simp: fresh_field_def split: pb_ptr.split)
      moreover have "inside (foot it) st st2"
        using inside_mono [OF i1, of "foot it"] inside_mono [OF i2, of "foot it"] by (auto simp: foot_def intro: inside_trans)
      ultimately show ?thesis using in1 in2 by simp
    qed
    show ?thesis
    proof (cases "f_ptr ?f")
      case PtrNull
      let ?st2 = "d_memset0 (it_pData it) (dsize it) st1"
      have "inside (data_span it) st1 ?st2" using safe_memset [of "it_pData it" "dsize it" "data_span it" st1] by (simp add: safe_def dspan)
      moreover have "zero_value (d_mem ?st2) ?f (it_pData it)" if "htype it = PB_HTYPE_OPTIONAL" "\<not> sized it"
        by (rule zero_value_zero) (use q that in \<open>auto simp: d_memset0_def mem_write_apply\<close>)
      moreover have "pb_field_set_to_default denv (Suc N) it st = Some ?st2"
        using step PtrNull q by auto
      ultimately show ?thesis using fin [of ?st2] PtrNull by simp
    next
      case (PtrDefault bs)
      let ?st2 = "st1\<lparr>d_mem := mem_write (d_mem st1) (it_pData it) (fill (dsize it) bs)\<rparr>"
      have "inside (data_span it) st1 ?st2" by (rule inside_mem_write) (auto simp: dspan fill_def)
      moreover have "pb_field_set_to_default denv (Suc N) it st = Some ?st2" using step PtrDefault q by auto
      moreover have "\<not> (htype it = PB_HTYPE_OPTIONAL \<and> \<not> sized it)" using q PtrDefault by auto
      ultimately show ?thesis using fin [of ?st2] PtrDefault by auto
    next
      case (PtrFields d)
      with q one have "plain D n (D d) (it_pData it) (dsize it)" by auto
      from sub [OF this, of st1] obtain st2 where
        s2: "for_fields (pb_field_set_to_default denv N) (D d) (it_pData it) st1 = Some st2"
        "inside (data_span it) st1 st2" "d_in st2 = d_in st1" "fresh D (d_mem st2) n (D d) (it_pData it)" by (auto simp: dspan)
      have "pb_field_set_to_default denv (Suc N) it st = Some st2" using step PtrFields q s2(1) D by auto
      moreover have "\<not> (htype it = PB_HTYPE_OPTIONAL \<and> \<not> sized it)" using q PtrFields by auto
      ultimately show ?thesis using fin [OF s2(2,3)] s2(4) PtrFields by auto
    qed
  qed
qed

lemma defaults_fresh:
  assumes D: "v_descr denv = D"
  shows "plain D n flds dest sz \<Longrightarrow> n \<le> N \<Longrightarrow> \<exists>st'. for_fields (pb_field_set_to_default denv N) flds dest st = Some st' \<and>
    inside (span dest sz) st st' \<and> d_in st' = d_in st \<and> fresh D (d_mem st') n flds dest"
proof (induction n arbitrary: N flds dest sz st)
  case 0
  then show ?case by simp
next
  case (Suc n)
  then obtain N' where N: "N = Suc N'" "n \<le> N'" by (cases N) auto
  note plain = Suc.prems(1)
  let ?I = "\<lambda>j st'. inside (span dest sz) st st' \<and> d_in st' = d_in st \<and>
    (\<forall>k < j. fresh_field (\<lambda>d. fresh D (d_mem st') n (D d)) (d_mem st') (iter_at flds dest k))"
  have "\<exists>st'. for_fields (pb_field_set_to_default denv (Suc N')) flds dest st = Some st' \<and> ?I (nfields flds) st'"
  proof (rule for_fields_ind [where I = ?I])
    fix j st1 assume j: "j < nfields flds" and I: "?I j st1"
    from default_field [OF plain_fieldD [OF plain j] plain_iter(1) [OF plain j] D Suc.IH [OF _ N(2)], of st1]
    obtain st2 where s2: "pb_field_set_to_default denv (Suc N') (iter_at flds dest j) st1 = Some st2"
      "inside (foot (iter_at flds dest j)) st1 st2" "d_in st2 = d_in st1"
      "fresh_field (\<lambda>d. fresh D (d_mem st2) n (D d)) (d_mem st2) (iter_at flds dest j)" by blast
    have "fresh_field (\<lambda>d. fresh D (d_mem st2) n (D d)) (d_mem st2) (iter_at flds dest k)" if k: "k < Suc j" for k
    proof (cases "k = j")
      case False
      then have kn: "k < nfields flds" "k < j" using k j by simp_all
      have a: "agree (foot (iter_at flds dest k)) (d_mem st1) (d_mem st2)"
        using plain_apart [OF plain kn(1) j False] s2(2) by (auto simp: inside_def)
      have f: "fresh_field (\<lambda>d. fresh D (d_mem st1) n (D d)) (d_mem st1) (iter_at flds dest k)" using I kn(2) by blast
      show ?thesis by (rule fresh_field_frame [OF plain_fieldD [OF plain kn(1)] a _ f]) (rule fresh_frame)
    qed (use s2(4) in simp)
    moreover have "inside (span dest sz) st st2"
      using I inside_mono [OF s2(2) foot_lies [OF plain j]] by (blast intro: inside_trans)
    ultimately show "\<exists>st'. pb_field_set_to_default denv (Suc N') (iter_at flds dest j) st1 = Some st' \<and> ?I (Suc j) st'"
      using s2(1,3) I by auto
  qed simp
  then show ?case unfolding N(1) by auto
qed

section \<open>Decoding\<close>

lemma decode_body_restores:
  assumes D: "v_descr denv = e_descr env" and n: "n \<le> N"
    and noinit: "restores env m n (\<lambda>m' flds dest. fresh (e_descr env) m' n flds dest) noinit"
  shows "restores env m n (\<lambda>m' flds dest. True) (decode_body denv N noinit)"
  unfolding restores_def
proof (intro allI impI, goal_cases)
  case (1 flds src dest sz rs st rest)
  note a = 1(1-6) and fed = 1(8) and left = 1(9)
  from defaults_fresh [OF D a(1) n, of st] obtain st1 where
    s1: "pb_message_set_to_defaults denv N flds dest st = Some st1" "inside (span dest sz) st st1" "d_in st1 = d_in st"
    "fresh (e_descr env) (d_mem st1) n flds dest" by (auto simp: pb_message_set_to_defaults_def)
  have "gives (noinit flds dest st1) (span dest sz) st1 (records_bytes rs) rest (\<lambda>m'. msg_records env m' n flds dest = Some rs)"
    using noinit a s1(3,4) fed left by (simp add: restores_def fed_def)
  from gives_after [OF s1(2,3) this] show ?case
    using s1(1) by (auto simp: decode_body_def gives_def split: option.splits)
qed

lemma noinit_restores:
  assumes D: "v_descr denv = e_descr env"
  shows "n \<le> N \<Longrightarrow> restores env m n (\<lambda>m' flds dest. fresh (e_descr env) m' n flds dest) (pb_decode_noinit denv N)"
proof (induction n arbitrary: N)
  case 0
  then show ?case by (simp add: restores_def)
next
  case (Suc n)
  then obtain N' where N: "N = Suc N'" "n \<le> N'" by (cases N) auto
  let ?calls = "\<lparr>c_noinit = pb_decode_noinit denv N', c_decode = decode_body denv N' (pb_decode_noinit denv N')\<rparr>"
  have calls: "calls_restore env m n ?calls"
    using Suc.IH [OF N(2)] decode_body_restores [OF D N(2) Suc.IH [OF N(2)]] by (simp add: calls_restore_def)
  show ?case
    unfolding restores_def N(1)
  proof (intro allI impI, goal_cases)
    case (1 flds src dest sz rs st rest)
    from noinit_body_restores [OF 1(1) calls D 1(3,2,5,6,4,7,8,9)] obtain st' where
      "noinit_body denv ?calls N' flds dest st = Some (True, st')" "moved (span dest sz) st (records_bytes rs) rest st'"
      "msg_records env (d_mem st') (Suc n) flds dest = Some rs" by (auto simp only: gives_def)
    then show ?case
      by (auto simp: frame_noinit_def gives_def moved_def simp del: msg_records.simps)
  qed
qed

lemma pb_decode_restores:
  assumes "v_descr denv = e_descr env" and "n \<le> N"
  shows "restores env m n (\<lambda>m' flds dest. True) (pb_decode denv N)"
  unfolding pb_decode_def by (rule decode_body_restores [OF assms noinit_restores [OF assms]])

section \<open>A worked message\<close>

definition ex_env2 :: "unit enc_env" where
  "ex_env2 = \<lparr>e_descr = v_descr ex_denv, e_callback = (\<lambda>_ _ _ _ _. None), e_ext_type = (\<lambda>_. \<lparr>et_encode = None, et_arg = []\<rparr>)\<rparr>"

definition ex_msg :: mem where
  "ex_msg = mem_write (\<lambda>_. 0) 64 [0x2C, 1, 0, 0, 104, 105, 0, 7, 2, 0, 0, 0, 5, 0xFA, 9, 0]"

lemma ex_sub_iter: "iter_at ex_static_sub 72 0 = \<lparr>it_start = ex_static_sub, it_pos = 0, it_req = 0, it_dest = 72, it_pData = 76, it_pSize = PMem 72\<rparr>"
  by (simp add: iter_eval ex_static_sub_def)

lemmas plain_eval = plain_field_def plain_type_def exact_size_def sized_def size_addr_def flag_span_def data_span_def ptr_add_def

lemma ex_sub_plain: "plain (v_descr ex_denv) (Suc 0) ex_static_sub 72 8"
  using ex_static_sub_fits ex_sub_iter
  by (simp add: plain_eval ex_static_sub_def field_fits_def entry_ok_def entries_def Let_def ptype_defs lies_def psize_lies_def
      it_field_def field_at_def)

lemma ex_plain: "plain (v_descr ex_denv) 2 ex_static 64 16"
proof -
  let ?ok = "\<lambda>k. plain_field (\<lambda>d. plain (v_descr ex_denv) (Suc 0) (v_descr ex_denv d)) (iter_at ex_static 64 k) 64 16"
  have n: "max 1 (nfields ex_static) = 3" "nfields ex_static = 3" by (simp_all add: ex_static_def)
  have f: "?ok 0" "?ok (Suc 0)" unfolding ex_static_iters by (simp_all add: ex_static_eval plain_eval del: plain.simps)
  have "?ok 2" using ex_sub_plain unfolding ex_static_iters
    by (simp add: ex_static_eval plain_eval ex_denv_def del: plain.simps)
  note ok = f this
  have feet: "foot (iter_at ex_static 64 0) = {64..<68}" "foot (iter_at ex_static 64 (Suc 0)) = {68..<72}" "foot (iter_at ex_static 64 2) = {72..<80}"
    unfolding ex_static_iters by (simp_all add: foot_def plain_eval ex_static_eval)
  have cs: "k = 0 \<or> k = Suc 0 \<or> k = 2" if "k < 3" for k :: nat using that by linarith
  have tags: "f_tag (ex_static ! 0) = 1" "f_tag (ex_static ! Suc 0) = 2" "f_tag (ex_static ! 2) = 3" by (simp_all add: ex_static_def)
  have apart: "f_tag (ex_static ! j) \<noteq> f_tag (ex_static ! k) \<and> foot (iter_at ex_static 64 j) \<inter> foot (iter_at ex_static 64 k) = {}"
    if "j < 3" "k < 3" "j \<noteq> k" for j k
    using cs [OF that(1)] cs [OF that(2)] that(3) by (elim disjE) (simp_all add: feet tags del: iter_at.simps)
  have "\<forall>k < 3. ?ok k" using ok cs by blast
  moreover have "max 1 3 = (3 :: nat)" by simp
  ultimately show ?thesis using apart unfolding numeral_2_eq_2 plain.simps n(2) by simp
qed

lemma ex_sub_good: "good (v_descr ex_denv) m (Suc 0) ex_static_sub 72"
proof -
  have n: "nfields ex_static_sub = 1" by (simp add: ex_static_sub_def)
  have "good_field sub m (iter_at ex_static_sub 72 0)" for sub
    unfolding ex_sub_iter by (simp add: good_field_def terminated_def it_field_def field_at_def ex_static_sub_def ptype_defs)
  then show ?thesis unfolding good.simps n less_one by (simp del: iter_at.simps)
qed

lemma ex_good: "good (v_descr ex_denv) ex_msg 2 ex_static 64"
proof -
  let ?ok = "\<lambda>k. good_field (\<lambda>d. good (v_descr ex_denv) ex_msg (Suc 0) (v_descr ex_denv d)) ex_msg (iter_at ex_static 64 k)"
  have n: "nfields ex_static = 3" by (simp add: ex_static_def)
  have f: "?ok 0" "?ok 2" unfolding ex_static_iters using ex_sub_good [of ex_msg]
    by (simp_all add: good_field_def terminated_def in_use_def it_field_def field_at_def ex_static_def ptype_defs ex_denv_def
       del: good.simps)
  have "strn_loop ex_msg 68 0 4 = 2" by code_simp
  then have "?ok (Suc 0)" unfolding ex_static_iters
    by (simp add: good_field_def terminated_def in_use_def it_field_def field_at_def ex_static_def ptype_defs)
  moreover have "k = 0 \<or> k = Suc 0 \<or> k = 2" if "k < 3" for k :: nat using that by linarith
  ultimately show ?thesis using f unfolding numeral_2_eq_2 good.simps n by blast
qed

lemma ex_records2: "msg_records ex_env2 ex_msg 2 ex_static 64 = Some
   [(1, WVarint 300), (2, WLen [104, 105]), (3, WLen [10, 11, 5, 0xFA, 255, 255, 255, 255, 255, 255, 255, 255, 1])]"
  by code_simp

lemma ex_records2_length: "length (records_bytes [(1, WVarint 300), (2, WLen [104, 105]),
    (3, WLen [10, 11, 5, 0xFA, 255, 255, 255, 255, 255, 255, 255, 255, 1])]) = 22"
  by code_simp

section \<open>Properties\<close>

text \<open>C2: Messages survive. The messages are those of \<open>plain\<close> and \<open>good\<close>, of any depth: every field is
  statically allocated, and no field is a pointer, a callback, an extension or a union member; the fields are
  required, optional with a flag, repeated with a counter (no fixed-count arrays), or optional without
  a flag (the SINGULAR fields of proto3), the last with no default and no submessage or fixed-length bytes; tags are
  distinct and below \<open>2 ^ 29\<close>, no two fields share a byte, and strings are terminated. What
  \<open>pb_encode\<close> writes for such a message into a buffer with room for it, below \<open>2 ^ 32\<close> bytes, is accepted by
  \<open>pb_decode\<close>, which consumes it and, whatever the target held before, leaves there a message with the
  same wire records, changing nothing outside of it.\<close>

theorem message_roundtrip:
  assumes "plain (e_descr env) n flds dest sz" and "good (e_descr env) m n flds src" and "msg_records env m n flds src = Some rs"
    and "length (records_bytes rs) < 2 ^ 32" and "length (records_bytes rs) \<le> length buf" and "length buf < size_mod"
    and "0 < src" and "0 < dest" and "v_descr denv = e_descr env" and "n \<le> N"
  shows "\<exists>s b k st'. pb_encode env m n flds src (pb_ostream_from_buffer buf (length buf)) = Some (True, s) \<and>
     o_sink s = BufSink b k \<and> bytes_written s = k \<and>
     pb_decode denv N flds dest (st\<lparr>d_in := pb_istream_from_buffer b k\<rparr>) = Some (True, st') \<and>
     msg_records env (d_mem st') n flds dest = msg_records env m n flds src \<and> bytes_left (d_in st') = 0 \<and>
     (\<forall>a. a \<notin> {dest..<dest + sz} \<longrightarrow> d_mem st' a = d_mem st a)"
proof -
  let ?bs = "records_bytes rs"
  have lt: "length ?bs < size_mod" using assms(4) by simp
  obtain s where s: "pb_encode env m n flds src (pb_ostream_from_buffer buf (length buf)) = Some (True, s)"
    "bytes_written s = length ?bs" "o_sink s = BufSink (?bs @ drop (length ?bs) buf) (length ?bs)"
    using emitsD [OF emits_message [OF assms(3)] ostream_ok_buffer [OF order_refl assms(6)]] assms(5) lt
    by (auto simp: room_buffer splice_def)
  let ?st = "st\<lparr>d_in := pb_istream_from_buffer (?bs @ drop (length ?bs) buf) (length ?bs)\<rparr>"
  have "fed ?st ?bs []" by (simp add: fed_def pb_istream_from_buffer_def)
  then have "gives (pb_decode denv N flds dest ?st) (span dest sz) ?st ?bs [] (\<lambda>m'. msg_records env m' n flds dest = Some rs)"
    using pb_decode_restores [OF assms(9,10)] assms by (simp add: restores_def pb_istream_from_buffer_def)
  then show ?thesis using s assms(3) by (auto simp: gives_def moved_def inside_def pb_istream_from_buffer_def)
qed

theorem message_roundtrip_witness:
  "\<exists>s b k st'. pb_encode ex_env2 ex_msg 2 ex_static 64 (pb_ostream_from_buffer (replicate 40 0) 40) = Some (True, s) \<and>
     o_sink s = BufSink b k \<and>
     pb_decode ex_denv 2 ex_static 64 ((ex_dstate [])\<lparr>d_in := pb_istream_from_buffer b k\<rparr>) = Some (True, st') \<and>
     msg_records ex_env2 (d_mem st') 2 ex_static 64 = Some
       [(1, WVarint 300), (2, WLen [104, 105]), (3, WLen [10, 11, 5, 0xFA, 255, 255, 255, 255, 255, 255, 255, 255, 1])]"
proof -
  have e: "e_descr ex_env2 = v_descr ex_denv" by (simp add: ex_env2_def)
  show ?thesis
    using message_roundtrip [OF _ _ ex_records2, of 64 16 "replicate 40 0" ex_denv 2 "ex_dstate []"]
    unfolding e ex_records2_length ex_records2 using ex_plain ex_good by fastforce
qed

end
