(* ===== verification/PbPointer.thy ===== *)
theory PbPointer imports PbSafe begin

text \<open>
  Fields behind pointers: what \<open>allocate_field\<close> does to the heap and the message on success and on
  failure, that releasing a repeated string frees the array and every string exactly once, and two
  cases in which the decoder hands the allocator a pointer it has not got from it or leaves a count
  that is ahead of the array.
\<close>

section \<open>Allocation\<close>

lemma d_error_state [simp]: "d_error msg st = (False, st') \<longleftrightarrow> st' = st\<lparr>d_in := i_set_error msg (d_in st)\<rparr>"
  "d_error msg st \<noteq> (True, st')"
  by (auto simp: d_error_def)

text \<open>A size that was checked is the product, not the product modulo the size of \<open>size_t\<close>.\<close>

lemma allocate_size:
  assumes "allocate_field p d k st = (True, st')" and "d < size_mod" "k < size_mod"
  shows "k * d mod size_mod = k * d" "0 < k * d"
proof -
  show "k * d mod size_mod = k * d" using allocate_no_wrap [OF assms] by (simp add: mult.commute)
  show "0 < k * d" using assms(1) by (auto simp: allocate_field_def d_error_def Let_def split: if_splits)
qed

lemma allocate_run:
  assumes "allocate_field p d k st = (True, st')" and "d < size_mod" "k < size_mod"
  obtains q st1 where "pb_realloc (load 8 (d_mem st) p) (k * d) st = (q, st1)" "q \<noteq> 0" "st' = d_store 8 p q st1"
proof -
  obtain q st1 where r: "pb_realloc (load 8 (d_mem st) p) (k * d mod size_mod) st = (q, st1)" by (metis prod.collapse)
  with assms(1) have "q \<noteq> 0" "st' = d_store 8 p q st1"
    by (auto simp: allocate_field_def Let_def split: if_splits)
  then show ?thesis using r that allocate_size(1) [OF assms] by simp
qed

text \<open>C8: Allocation of a field: when \<open>allocate_field\<close> succeeds on a null or live pointer, the pointer member
  holds a new block of exactly \<open>array_size * data_size\<close> bytes, the old block is gone and its contents
  are at the start of the new one; no other block changes, and the allocator is not misused.\<close>

theorem allocate_field_exact:
  assumes ok: "heap_ok base st" and ptr: "load 8 (d_mem st) p = 0 \<or> load 8 (d_mem st) p \<in> fst ` set (d_live st)"
    and sizes: "d < size_mod" "k < size_mod" and below: "p + 8 \<le> d_brk st"
    and run: "allocate_field p d k st = (True, st')"
  shows "heap_ok base st' \<and> d_fault st' = d_fault st \<and>
    load 8 (d_mem st') p \<notin> fst ` set (d_live st) \<and>
    set (d_live st') = insert (load 8 (d_mem st') p, k * d) {b \<in> set (d_live st). fst b \<noteq> load 8 (d_mem st) p} \<and>
    (\<forall>n. (load 8 (d_mem st) p, n) \<in> set (d_live st) \<longrightarrow>
      mem_read (d_mem st') (load 8 (d_mem st') p) (min n (k * d)) = mem_read (d_mem st) (load 8 (d_mem st) p) (min n (k * d)))"
proof -
  let ?old = "load 8 (d_mem st) p"
  obtain q st1 where r: "pb_realloc ?old (k * d) st = (q, st1)" and q: "q \<noteq> 0" and st': "st' = d_store 8 p q st1"
    using allocate_run [OF run sizes] .
  have pos: "0 < k * d" by (rule allocate_size(2) [OF run sizes])
  note h = heap.realloc_live [OF ok ptr pos r]
  have qb: "q = d_brk st" "q < size_mod"
    and m1: "d_mem st1 = mem_write (d_mem st) q (mem_read (d_mem st) ?old
      (min (case map_of (d_live st) ?old of None \<Rightarrow> 0 | Some n \<Rightarrow> n) (k * d)))"
    using r q by (auto simp: pb_realloc_def Let_def split: if_splits)
  have l: "load 8 (d_mem st') p = q" unfolding st' d_store_def using qb(2) by (simp add: load_store_same)
  have live: "d_live st' = d_live st1" "d_fault st' = d_fault st1" "d_brk st' = d_brk st1"
    by (simp_all add: st' d_store_def)
  have "mem_read (d_mem st') q (min n (k * d)) = mem_read (d_mem st) ?old (min n (k * d))"
    if n: "(?old, n) \<in> set (d_live st)" for n
  proof -
    have "map_of (d_live st) ?old = Some n" using ok n by (auto simp: heap_ok_def blocks_disjoint_def)
    then have m: "d_mem st1 = mem_write (d_mem st) q (mem_read (d_mem st) ?old (min n (k * d)))" using m1 by simp
    have "mem_read (d_mem st') q (min n (k * d)) = mem_read (d_mem st1) q (min n (k * d))"
      unfolding st' d_store_def store_def using below qb(1) by (simp add: mem_read_write_disjoint)
    then show ?thesis
      using mem_read_write_same [of "d_mem st" q "mem_read (d_mem st) ?old (min n (k * d))"] by (simp add: m)
  qed
  moreover have "heap_ok base st'" using h live by (simp add: heap_ok_def)
  ultimately show ?thesis using h q l live by simp
qed

text \<open>A failed allocation changes nothing but the error message: the pointer, the memory and the heap are
  what they were.\<close>

theorem allocate_field_failed:
  assumes ok: "heap_ok base st" and ptr: "load 8 (d_mem st) p = 0 \<or> load 8 (d_mem st) p \<in> fst ` set (d_live st)"
    and "allocate_field p d k st = (False, st')"
  shows "d_mem st' = d_mem st \<and> d_live st' = d_live st \<and> d_fault st' = d_fault st \<and> d_limit st' = d_limit st \<and>
    i_errmsg (d_in st') \<noteq> None"
proof -
  obtain q st1 where r: "pb_realloc (load 8 (d_mem st) p) (k * d mod size_mod) st = (q, st1)" by (metis prod.collapse)
  have "map_of (d_live st) (load 8 (d_mem st) p) \<noteq> None" if "load 8 (d_mem st) p \<noteq> 0"
    using ptr that by (auto simp: map_of_eq_None_iff)
  then have "st1 = st" if "q = 0" using r that ok
    by (auto simp: pb_realloc_def heap_ok_def Let_def split: if_splits)
  then show ?thesis using assms(3) r by (auto simp: allocate_field_def Let_def split: if_splits)
qed

text \<open>A message whose pointer at 64 points to a block of 8 bytes, and a heap with room for 32 bytes.\<close>

definition ex_heap :: "unit dstate" where
  "ex_heap = (ex_dstate [])\<lparr>d_mem := mem_write (\<lambda>_. 0) 64 [0x00, 0x10], d_live := [(4096, 8)], d_brk := 8192, d_limit := 32\<rparr>"

lemma ex_heap_ok: "heap_ok 4096 ex_heap" "load 8 (d_mem ex_heap) 64 = 4096"
proof -
  show "heap_ok 4096 ex_heap" by (simp add: heap_ok_def ex_heap_def blocks_disjoint_def)
  show "load 8 (d_mem ex_heap) 64 = 4096" by code_simp
qed

theorem allocate_field_exact_witness:
  "allocate_field 64 8 2 ex_heap = (True, snd (allocate_field 64 8 2 ex_heap)) \<and>
   set (d_live (snd (allocate_field 64 8 2 ex_heap))) = {(load 8 (d_mem (snd (allocate_field 64 8 2 ex_heap))) 64, 16)}"
proof -
  have "fst (allocate_field 64 8 2 ex_heap)"
    by (simp add: allocate_field_def Let_def ex_heap_ok(2) pb_realloc_def) (simp add: ex_heap_def)
  then have r: "allocate_field 64 8 2 ex_heap = (True, snd (allocate_field 64 8 2 ex_heap))" by (simp add: prod_eq_iff)
  from allocate_field_exact [OF ex_heap_ok(1) _ _ _ _ r] r ex_heap_ok(2) show ?thesis by (auto simp: ex_heap_def)
qed

theorem allocate_field_failed_witness:
  "d_live (snd (allocate_field 64 8 8 ex_heap)) = [(4096, 8)] \<and> d_mem (snd (allocate_field 64 8 8 ex_heap)) = d_mem ex_heap"
proof -
  have "\<not> fst (allocate_field 64 8 8 ex_heap)"
    by (simp add: allocate_field_def Let_def ex_heap_ok(2) pb_realloc_def d_error_def) (simp add: ex_heap_def)
  then have r: "allocate_field 64 8 8 ex_heap = (False, snd (allocate_field 64 8 8 ex_heap))" by (simp add: prod_eq_iff)
  from allocate_field_failed [OF ex_heap_ok(1) _ r] ex_heap_ok(2) show ?thesis by (auto simp: ex_heap_def)
qed

section \<open>Releasing a repeated string\<close>

lemma pb_free_mem [simp]: "d_mem (pb_free p st) = d_mem st" "d_in (pb_free p st) = d_in st"
  by (simp_all add: pb_free_def)

lemma pb_free_store: "pb_free p (d_store n a v st) = d_store n a v (pb_free p st)"
  by (simp add: pb_free_def d_store_def)

lemma fold_free_store: "fold pb_free ps (d_store n a v st) = d_store n a v (fold pb_free ps st)"
  by (induction ps arbitrary: st) (simp_all add: pb_free_store)

definition pointers :: "mem \<Rightarrow> addr \<Rightarrow> nat \<Rightarrow> addr list" where
  "pointers m p n = map (\<lambda>i. load 8 m (p + 8 * i)) [0..<n]"

lemma pointers_Suc: "pointers m p (Suc n) = load 8 m p # pointers m (p + 8) n"
  by (simp add: pointers_def upt_conv_Cons map_Suc_upt [symmetric] add.assoc del: upt_Suc)

lemma pointers_store: "a + 8 \<le> p \<Longrightarrow> pointers (store 8 m a v) p n = pointers m p n"
  by (simp add: pointers_def load_store_disjoint)

text \<open>The array's pointers are freed in order, and only the array is written.\<close>

lemma release_strings_fold:
  "\<exists>m. release_strings n p st = (fold pb_free (pointers (d_mem st) p n) st)\<lparr>d_mem := m\<rparr> \<and>
     (\<forall>a. a \<notin> span p (8 * n) \<longrightarrow> m a = d_mem st a)"
proof (induction n arbitrary: p st)
  case 0
  then show ?case by (intro exI [of _ "d_mem st"]) (simp add: pointers_def)
next
  case (Suc n)
  define st1 where "st1 = pb_free (load 8 (d_mem st) p) st"
  have mem: "d_mem (d_store 8 p 0 st1) = store 8 (d_mem st) p 0" by (simp add: d_store_def st1_def)
  obtain m where m: "release_strings n (p + 8) (d_store 8 p 0 st1) =
      (fold pb_free (pointers (d_mem (d_store 8 p 0 st1)) (p + 8) n) (d_store 8 p 0 st1))\<lparr>d_mem := m\<rparr>"
    and same: "\<forall>a. a \<notin> span (p + 8) (8 * n) \<longrightarrow> m a = d_mem (d_store 8 p 0 st1) a" using Suc by blast
  have "release_strings (Suc n) p st = (fold pb_free (pointers (d_mem st) p (Suc n)) st)\<lparr>d_mem := m\<rparr>"
    using m unfolding mem pointers_store [OF order_refl] fold_free_store
    by (simp add: pointers_Suc st1_def d_store_def)
  moreover have "m a = d_mem st a" if "a \<notin> span p (8 * Suc n)" for a
    using same that unfolding mem by (auto simp: store_def mem_write_apply)
  ultimately show ?case by blast
qed

lemma fold_free_mem [simp]: "d_mem (fold pb_free ps st) = d_mem st"
  by (induction ps arbitrary: st) simp_all

text \<open>C9: A repeated string or bytes field is released completely and once: when its strings are distinct live
  blocks (or null) and the array is another one, releasing the field frees exactly these blocks,
  raises no fault, and leaves a null pointer and a count of 0.\<close>

theorem release_strings_once:
  assumes ty: "PB_ATYPE (f_type (it_field it)) = PB_ATYPE_POINTER" "PB_HTYPE (f_type (it_field it)) = PB_HTYPE_REPEATED"
      "PB_LTYPE (f_type (it_field it)) = PB_LTYPE_STRING \<or> PB_LTYPE (f_type (it_field it)) = PB_LTYPE_BYTES"
    and cnt: "it_pSize it = PMem c" "n = load 4 (d_mem st) c" and arr: "p = load 8 (d_mem st) (it_pData it)"
    and ok: "heap_ok base st" and strings: "distinct (filter (\<lambda>q. q \<noteq> 0) (p # pointers (d_mem st) p n))"
      "set (p # pointers (d_mem st) p n) - {0} \<subseteq> fst ` set (d_live st)"
    and apart: "it_pData it + 8 \<le> p \<or> p + 8 * n \<le> it_pData it" "c + 4 \<le> it_pData it \<or> it_pData it + 8 \<le> c"
  shows "\<exists>st'. pb_release_single_field env (Suc k) it st = Some st' \<and> d_fault st' = d_fault st \<and> heap_ok base st' \<and>
    set (d_live st') = {b \<in> set (d_live st). fst b \<notin> set (p # pointers (d_mem st) p n)} \<and>
    load 8 (d_mem st') (it_pData it) = 0 \<and> load 4 (d_mem st') c = 0"
proof -
  let ?ps = "pointers (d_mem st) p n"
  obtain m where m: "release_strings n p st = (fold pb_free ?ps st)\<lparr>d_mem := m\<rparr>"
    and same: "\<And>a. a \<notin> span p (8 * n) \<Longrightarrow> m a = d_mem st a" using release_strings_fold by metis
  have pd: "load 8 m (it_pData it) = p"
    unfolding arr load_def by (intro arg_cong [of _ _ le_val] mem_read_cong same) (use apart(1) arr in auto)
  define st1 where "st1 = d_store 4 c 0 ((fold pb_free ?ps st)\<lparr>d_mem := m\<rparr>)"
  have p1: "load 8 (d_mem st1) (it_pData it) = p"
    using apart(2) pd by (simp add: st1_def d_store_def load_store_disjoint)
  have s1: "d_store 4 c 0 (release_strings (load 4 (d_mem st) c) p st) = st1"
    unfolding cnt(2) [symmetric] m st1_def ..
  define st' where "st' = d_store 8 (it_pData it) 0 (pb_free p st1)"
  have run: "pb_release_single_field env (Suc k) it st = Some st'"
    using ty cnt(1) s1 by (auto simp: release_step_def release_pointer_def Let_def psize_read_def psize_write_def
        arr [symmetric] st'_def p1)
  have live: "d_live st' = d_live (fold pb_free (?ps @ [p]) st)" "d_fault st' = d_fault (fold pb_free (?ps @ [p]) st)"
    "d_brk st' = d_brk (fold pb_free (?ps @ [p]) st)"
    by (simp_all add: st'_def st1_def pb_free_store pb_free_def d_store_def)
  have "distinct (filter (\<lambda>q. q \<noteq> 0) (?ps @ [p]))" "set (?ps @ [p]) - {0} \<subseteq> fst ` set (d_live st)"
    using strings by (auto split: if_splits)
  from heap.free_all [OF ok this] have "heap_ok base st'" "d_fault st' = d_fault st"
    "set (d_live st') = {b \<in> set (d_live st). fst b \<notin> set (p # ?ps)}"
    using live by (auto simp: heap_ok_def)
  moreover have "load 8 (d_mem st') (it_pData it) = 0" by (simp add: st'_def d_store_def load_store_same)
  moreover have "load 4 (d_mem st') c = 0"
    using apart(2) by (auto simp: st'_def st1_def d_store_def load_store_disjoint load_store_same)
  ultimately show ?thesis using run by blast
qed

definition ex_names :: pb_field where
  "ex_names = \<lparr>f_tag = 4, f_type = 0xA6, f_data_offset = 0, f_size_offset = 8, f_data_size = 8, f_array_size = 0, f_ptr = PtrNull\<rparr>"

definition ex_names_state :: "unit dstate" where
  "ex_names_state = (ex_dstate [])\<lparr>
     d_mem := mem_write (mem_write (\<lambda>_. 0) 64 [0x00, 0x10, 0, 0, 0, 0, 0, 0, 2]) 4096 [0x10, 0x10, 0, 0, 0, 0, 0, 0, 0x18, 0x10],
     d_live := [(4096, 16), (4112, 8), (4120, 8)], d_brk := 8192, d_limit := 16\<rparr>"

lemma ex_names_eval:
  "load 4 (d_mem ex_names_state) 72 = 2" "load 8 (d_mem ex_names_state) 64 = 4096"
  "pointers (d_mem ex_names_state) 4096 2 = [4112, 4120]"
  "it_field (iter_at [ex_names] 64 0) = ex_names" "it_pData (iter_at [ex_names] 64 0) = 64"
  "it_pSize (iter_at [ex_names] 64 0) = PMem 72"
  "heap_ok 4096 ex_names_state"
  by (code_simp, code_simp, code_simp, simp_all add: iter_eval ex_names_def)
    (simp add: heap_ok_def ex_names_state_def blocks_disjoint_def)

lemma ex_names_type: "PB_ATYPE (f_type ex_names) = PB_ATYPE_POINTER" "PB_HTYPE (f_type ex_names) = PB_HTYPE_REPEATED"
  "PB_LTYPE (f_type ex_names) = PB_LTYPE_STRING"
  by (simp_all add: ex_names_def ptype_defs)

theorem release_strings_once_witness:
  "\<exists>st'. pb_release_single_field ex_denv (Suc 0) (iter_at [ex_names] 64 0) ex_names_state = Some st' \<and>
     d_fault st' = False \<and> set (d_live st') = {}"
proof -
  have "set (d_live ex_names_state) = {(4096, 16), (4112, 8), (4120, 8)}" "d_fault ex_names_state = False"
    by (simp_all add: ex_names_state_def ex_dstate_def)
  moreover have "\<exists>st'. pb_release_single_field ex_denv (Suc 0) (iter_at [ex_names] 64 0) ex_names_state = Some st' \<and>
      d_fault st' = d_fault ex_names_state \<and> heap_ok 4096 st' \<and>
      set (d_live st') = {b \<in> set (d_live ex_names_state). fst b \<notin> set (4096 # pointers (d_mem ex_names_state) 4096 2)} \<and>
      load 8 (d_mem st') (it_pData (iter_at [ex_names] 64 0)) = 0 \<and> load 4 (d_mem st') 72 = 0"
    by (rule release_strings_once) (simp_all only: ex_names_eval ex_names_type calculation, simp_all)
  then obtain st' where st': "pb_release_single_field ex_denv (Suc 0) (iter_at [ex_names] 64 0) ex_names_state = Some st'"
    "d_fault st' = d_fault ex_names_state"
    "set (d_live st') = {b \<in> set (d_live ex_names_state). fst b \<notin> set (4096 # pointers (d_mem ex_names_state) 4096 2)}" by blast
  have "set (d_live st') = {}" unfolding st'(3) calculation(1) ex_names_eval by auto
  with st' show ?thesis using calculation(2) by blast
qed

section \<open>A pointer that is not one\<close>

text \<open>C10: Switching a union from a static member to a pointer member of a numeric or fixed-length type (no string, bytes or
  submessage), where the old member is no submessage or extension: releasing the old member does nothing, and the
  decoder then passes the eight bytes at the start of the union to \<open>realloc\<close> as if they were a pointer. Whenever
  they are not null and no live block, this is a call of \<open>realloc\<close> on a wild pointer.\<close>

theorem union_switch_faults:
  assumes new: "PB_HTYPE (f_type (it_field it)) = PB_HTYPE_ONEOF" "PB_ATYPE (f_type (it_field it)) = PB_ATYPE_POINTER"
      "PB_LTYPE (f_type (it_field it)) \<notin> {PB_LTYPE_STRING, PB_LTYPE_BYTES, PB_LTYPE_SUBMESSAGE}"
      "0 < f_data_size (it_field it)"
    and which: "it_pSize it = PMem c" "old = load 4 (d_mem st) c" "old \<noteq> 0" "old \<noteq> unat (f_tag (it_field it))"
      "c + 4 \<le> it_pData it \<or> it_pData it + 8 \<le> c"
    and search: "pb_field_iter_find (word_of_nat old) it = Some (True, it1)" "pb_field_iter_find (f_tag (it_field it)) it1 = Some (True, it)"
    and static: "PB_ATYPE (f_type (it_field it1)) = PB_ATYPE_STATIC"
      "PB_LTYPE (f_type (it_field it1)) \<notin> {PB_LTYPE_SUBMESSAGE, PB_LTYPE_EXTENSION}"
    and wild: "load 8 (d_mem st) (it_pData it) \<noteq> 0" "load 8 (d_mem st) (it_pData it) \<notin> fst ` set (d_live st)"
  shows "\<exists>it' st'. decode_field env calls (Suc n) wt it st = Some (False, it', st') \<and> d_fault st'"
proof -
  have "pb_release_single_field env (Suc n) it1 st = Some st"
    using static by (auto simp: release_step_def Let_def)
  then have u: "pb_release_union_field env (Suc n) it st = Some (True, it, st)"
    using which search by (simp add: pb_release_union_field_def Let_def psize_read_def del: pb_release_single_field.simps)
  let ?st = "d_store 4 c (unat (f_tag (it_field it))) st"
  have l: "load 8 (d_mem ?st) (it_pData it) = load 8 (d_mem st) (it_pData it)" "d_live ?st = d_live st"
    using which(5) by (simp_all add: d_store_def load_store_disjoint)
  have ds: "unat (f_data_size (it_field it)) \<noteq> 0" using new(4) by (simp add: unat_eq_0)
  have le: "\<not> 18446744073709551615 < unat (f_data_size (it_field it))"
    using unat_u32_lt [of "f_data_size (it_field it)"] by linarith
  have "\<exists>st'. allocate_field (it_pData it) (unat (f_data_size (it_field it))) 1 ?st = (False, st') \<and> d_fault st'"
    using wild ds l unfolding allocate_field_def pb_realloc_def
    by (auto simp: Let_def map_of_eq_None_iff l d_error_def le)
  then obtain st' where st': "allocate_field (it_pData it) (unat (f_data_size (it_field it))) 1 ?st = (False, st')"
    and fault: "d_fault st'" by blast
  have "decode_field env calls (Suc n) wt it st = Some (False, it, st')" using new which(1) u st'
    by (simp add: decode_field_def decode_pointer_field_def decode_pointer_single_def psize_write_def Let_def)
  then show ?thesis using fault by blast
qed

definition ex_union :: "pb_field list" where
  "ex_union =
     [\<lparr>f_tag = 1, f_type = 0x33, f_data_offset = 8, f_size_offset = -8, f_data_size = 4, f_array_size = 0, f_ptr = PtrNull\<rparr>,
      \<lparr>f_tag = 2, f_type = 0xB4, f_data_offset = 0xFFFFFFFF, f_size_offset = -8, f_data_size = 8, f_array_size = 0, f_ptr = PtrNull\<rparr>]"

definition ex_union_state :: "unit dstate" where
  "ex_union_state = (ex_dstate [1, 2, 3, 4, 5, 6, 7, 8])\<lparr>d_mem := mem_write (\<lambda>_. 0) 64 [1, 0, 0, 0, 0, 0, 0, 0, 0x78, 0x56, 0x34, 0x12], d_limit := 64\<rparr>"

theorem union_switch_faults_witness:
  "\<exists>it' st'. decode_field ex_denv \<lparr>c_noinit = \<lambda>_ _ _. None, c_decode = \<lambda>_ _ _. None\<rparr> (Suc 0) 1 (iter_at ex_union 64 1) ex_union_state
     = Some (False, it', st') \<and> d_fault st'"
proof -
  have it0: "iter_at ex_union 64 0 = \<lparr>it_start = ex_union, it_pos = 0, it_req = 0, it_dest = 64, it_pData = 72, it_pSize = PMem 64\<rparr>"
    by (simp add: iter_eval ex_union_def)
  have it1: "iter_at ex_union 64 (Suc 0) = \<lparr>it_start = ex_union, it_pos = 1, it_req = 0, it_dest = 64, it_pData = 72, it_pSize = PMem 64\<rparr>"
    unfolding iter_at.simps(2) it0 by (simp add: iter_eval ex_union_def)
  have n: "nfields ex_union = 2" by (simp add: ex_union_def)
  have f: "it_field (iter_at ex_union 64 0) = ex_union ! 0" "it_field (iter_at ex_union 64 (Suc 0)) = ex_union ! 1"
    unfolding it_field_def it0 it1 by (simp_all add: field_at_def ex_union_def)
  have m: "load 4 (d_mem ex_union_state) 64 = 1" "load 8 (d_mem ex_union_state) 72 = 0x12345678" by code_simp+
  have p: "it_pos (iter_at ex_union 64 0) = 0" "it_pos (iter_at ex_union 64 (Suc 0)) = 1" unfolding it0 it1 by simp_all
  have fm: "\<not> field_matches 1 (ex_union ! 1)" "field_matches 1 (ex_union ! 0)"
    "\<not> field_matches 2 (ex_union ! 0)" "field_matches 2 (ex_union ! 1)"
    by (simp_all add: field_matches_def ex_union_def ptype_defs)
  have s: "pb_field_iter_find 1 (iter_at ex_union 64 (Suc 0)) = Some (True, iter_at ex_union 64 0)"
    "pb_field_iter_find 2 (iter_at ex_union 64 0) = Some (True, iter_at ex_union 64 (Suc 0))"
    using find_loop_result [of 1 ex_union 1 1 64] find_loop_result [of 0 ex_union 0 2 64]
    by (simp_all add: pb_field_iter_find_def p n find_result_def cyc_from_def fm [unfolded One_nat_def] upt_rec del: iter_at.simps)
  have q: "it_pData (iter_at ex_union 64 (Suc 0)) = 72" "it_pSize (iter_at ex_union 64 (Suc 0)) = PMem 64"
    unfolding it1 by simp_all
  have u: "ex_union ! 0 = \<lparr>f_tag = 1, f_type = 0x33, f_data_offset = 8, f_size_offset = -8, f_data_size = 4, f_array_size = 0, f_ptr = PtrNull\<rparr>"
    "ex_union ! 1 = \<lparr>f_tag = 2, f_type = 0xB4, f_data_offset = 0xFFFFFFFF, f_size_offset = -8, f_data_size = 8, f_array_size = 0, f_ptr = PtrNull\<rparr>"
    by (simp_all add: ex_union_def)
  have live: "d_live ex_union_state = []" by (simp add: ex_union_state_def ex_dstate_def)
  show ?thesis unfolding One_nat_def
    by (rule union_switch_faults [where c = 64 and old = 1 and ?it1.0 = "iter_at ex_union 64 0"])
      (simp_all only: f m s q u live, simp_all add: ptype_defs s del: iter_at.simps)
qed

section \<open>A count that is ahead of its array\<close>

lemma fold_free_fault: "d_fault st \<Longrightarrow> d_fault (fold pb_free ps st)"
  by (induction ps arbitrary: st) (simp_all add: pb_free_def)

lemma fold_free_wild:
  "q \<in> set ps \<Longrightarrow> q \<noteq> 0 \<Longrightarrow> q \<notin> fst ` set (d_live st) \<Longrightarrow> d_fault (fold pb_free ps st)"
proof (induction ps arbitrary: st)
  case Nil
  then show ?case by simp
next
  case (Cons p ps)
  show ?case
  proof (cases "p = q")
    case True
    then have "d_fault (pb_free p st)" using Cons.prems by (simp add: pb_free_def map_of_eq_None_iff)
    then show ?thesis by (simp add: fold_free_fault)
  next
    case False
    have "q \<notin> fst ` set (d_live (pb_free p st))" using Cons.prems(3) by (auto simp: pb_free_def)
    then show ?thesis using Cons False by simp
  qed
qed

text \<open>C11: A failed growth of an array of strings: the count of a repeated pointer field of strings is incremented before the
  array is reallocated, so when the allocator refuses, the count is one more than the array holds, and
  \<open>pb_release_single_field\<close> on this field then frees the word behind the array; when that is neither null nor a
  live block, this is a call of \<open>free\<close> on a wild pointer.\<close>

theorem failed_growth_frees_wild:
  assumes ty: "PB_ATYPE (f_type (it_field it)) = PB_ATYPE_POINTER" "PB_HTYPE (f_type (it_field it)) = PB_HTYPE_REPEATED"
      "PB_LTYPE (f_type (it_field it)) = PB_LTYPE_STRING"
    and cnt: "it_pSize it = PMem c" "n = load 4 (d_mem st) c" "n < 0xFFFFFFFF" "c + 4 \<le> it_pData it \<or> it_pData it + 8 \<le> c"
    and arr: "p = load 8 (d_mem st) (it_pData it)" "c + 4 \<le> p \<or> p + 8 * (n + 1) \<le> c"
    and full: "d_limit st < (n + 1) * unat (f_data_size (it_field it))" "p = 0 \<or> p \<in> fst ` set (d_live st)"
    and wild: "load 8 (d_mem st) (p + 8 * n) \<noteq> 0" "load 8 (d_mem st) (p + 8 * n) \<notin> fst ` set (d_live st)"
  shows "\<exists>st' st''. decode_pointer_field env calls m wt it st = Some (False, st') \<and>
    load 4 (d_mem st') c = n + 1 \<and> d_live st' = d_live st \<and>
    pb_release_single_field env (Suc k) it st' = Some st'' \<and> d_fault st''"
proof -
  let ?ds = "unat (f_data_size (it_field it))"
  let ?st = "d_store 4 c (n + 1) st"
  have c1: "load 4 (d_mem ?st) c = n + 1" using cnt(3) by (simp add: d_store_def load_store_same)
  have p1: "load 8 (d_mem ?st) (it_pData it) = p" using cnt(4) arr(1) by (simp add: d_store_def load_store_disjoint)
  have ds: "0 < ?ds" using full(1) by (cases "?ds = 0") auto
  have "(n + 1) * ?ds < 2 ^ 32 * 2 ^ 32"
    using cnt(3) unat_u32_lt [of "f_data_size (it_field it)"] by (intro mult_strict_mono) auto
  then have mod: "(n + 1) * ?ds mod size_mod = (n + 1) * ?ds" by simp
  have small: "?ds < 2 ^ 32" by (rule less_le_trans [OF unat_u32_lt]) simp
  have "\<exists>st'. allocate_field (it_pData it) ?ds (n + 1) ?st = (False, st') \<and> d_mem st' = d_mem ?st \<and> d_live st' = d_live st"
  proof -
    have "pb_realloc p ((n + 1) * ?ds) ?st = (0, ?st)"
    proof -
      have "p \<noteq> 0 \<Longrightarrow> map_of (d_live ?st) p \<noteq> None" using full(2) by (auto simp: map_of_eq_None_iff d_store_def)
      then show ?thesis using full(1) by (auto simp: pb_realloc_def d_store_def)
    qed
    then show ?thesis using ds cnt(3) small unfolding allocate_field_def Let_def p1 mod
      by (auto simp: d_error_def d_store_def)
  qed
  then obtain st' where a: "allocate_field (it_pData it) ?ds (n + 1) ?st = (False, st')"
    and m: "d_mem st' = d_mem ?st" and live: "d_live st' = d_live st" by blast
  have d: "decode_pointer_field env calls m wt it st = Some (False, st')"
    using ty cnt a c1 by (simp add: decode_pointer_field_def Let_def psize_read_def psize_write_def)
  have c': "load 4 (d_mem st') c = n + 1" and p': "load 8 (d_mem st') (it_pData it) = p" using c1 p1 m by simp_all
  obtain mm where rel: "release_strings (n + 1) p st' = (fold pb_free (pointers (d_mem st') p (n + 1)) st')\<lparr>d_mem := mm\<rparr>"
    using release_strings_fold by blast
  have "load 8 (d_mem st') (p + 8 * n) = load 8 (d_mem st) (p + 8 * n)"
    unfolding m d_store_def using arr(2) by (auto simp: load_store_disjoint)
  then have "load 8 (d_mem st) (p + 8 * n) \<in> set (pointers (d_mem st') p (n + 1))"
    by (force simp: pointers_def)
  then have f: "d_fault (release_strings (n + 1) p st')"
  proof -
    have "d_fault (fold pb_free (pointers (d_mem st') p (n + 1)) st')"
      by (rule fold_free_wild) (use \<open>load 8 (d_mem st) (p + 8 * n) \<in> _\<close> wild live in simp_all)
    then show ?thesis unfolding rel by simp
  qed
  define st2 where "st2 = d_store 4 c 0 (release_strings (n + 1) p st')"
  define st'' where "st'' = d_store 8 (it_pData it) 0 (pb_free (load 8 (d_mem st2) (it_pData it)) st2)"
  have "pb_release_single_field env (Suc k) it st' = Some st''"
    using ty cnt(1) by (simp add: release_step_def release_pointer_def Let_def psize_read_def psize_write_def c' p' st''_def st2_def)
  moreover have "d_fault st''" using f by (simp add: st''_def st2_def d_store_def pb_free_def)
  ultimately show ?thesis using d c' live by blast
qed

definition ex_grow_state :: "unit dstate" where
  "ex_grow_state = (ex_dstate [])\<lparr>
     d_mem := mem_write (mem_write (\<lambda>_. 0) 64 [0x00, 0x10, 0, 0, 0, 0, 0, 0, 1]) 4096 [0x10, 0x10, 0, 0, 0, 0, 0, 0, 0x55],
     d_live := [(4096, 8), (4112, 8)], d_brk := 8192, d_limit := 8\<rparr>"

theorem failed_growth_frees_wild_witness:
  "\<exists>st' st''. decode_pointer_field ex_denv \<lparr>c_noinit = \<lambda>_ _ _. None, c_decode = \<lambda>_ _ _. None\<rparr> 1 2 (iter_at [ex_names] 64 0) ex_grow_state
     = Some (False, st') \<and> load 4 (d_mem st') 72 = 1 + 1 \<and> d_live st' = d_live ex_grow_state \<and>
     pb_release_single_field ex_denv (Suc 0) (iter_at [ex_names] 64 0) st' = Some st'' \<and> d_fault st''"
proof -
  have m: "load 4 (d_mem ex_grow_state) 72 = 1" "load 8 (d_mem ex_grow_state) 64 = 4096" "load 8 (d_mem ex_grow_state) 4104 = 0x55"
    by code_simp+
  have h: "d_live ex_grow_state = [(4096, 8), (4112, 8)]" "d_limit ex_grow_state = 8" by (simp_all add: ex_grow_state_def)
  have ds: "f_data_size ex_names = 8" by (simp add: ex_names_def)
  show ?thesis
    by (rule failed_growth_frees_wild [where c = 72 and p = 4096])
      (simp_all only: ex_names_eval ex_names_type m h ds, simp_all add: m)
qed

end
