(* ===== verification/Cbs.thy ===== *)
theory Cbs imports Prelude begin

text \<open>
  The byte-string parser of BoringSSL, \<open>crypto/bytestring/cbs.c\<close>, with the copying helpers of
  \<open>crypto/buf/buf.c\<close> and the comparison of \<open>crypto/mem.c\<close> it calls. A \<open>CBS\<close> is the list of its
  unread bytes. A parser returns its output, or \<open>None\<close> for the return value 0, and the \<open>CBS\<close> as
  the call leaves it, which some failing calls have already advanced. Output and input are
  distinct objects. Allocation is a predicate that says which sizes \<open>OPENSSL_malloc\<close> grants.
\<close>

type_synonym cbs = "u8 list"
type_synonym 'a parser = "cbs \<Rightarrow> 'a option \<times> cbs"
type_synonym alloc = "nat \<Rightarrow> bool"

section \<open>Bytes and integers\<close>

definition CBS_init :: "u8 list \<Rightarrow> nat \<Rightarrow> cbs" where
  "CBS_init data len = take len data"

definition cbs_get :: "nat \<Rightarrow> u8 list parser" where
  "cbs_get n cbs = (if length cbs < n then (None, cbs) else (Some (take n cbs), drop n cbs))"

definition CBS_skip :: "nat \<Rightarrow> unit parser" where
  "CBS_skip n cbs = bnd (cbs_get n cbs) (\<lambda>_ cbs. (Some (), cbs))"

definition CBS_len :: "cbs \<Rightarrow> nat" where
  "CBS_len cbs = length cbs"

definition BUF_memdup :: "alloc \<Rightarrow> u8 list \<Rightarrow> nat \<Rightarrow> u8 list option" where
  "BUF_memdup alloc data sz =
     (if sz = 0 then None else if \<not> alloc sz then None else Some (take sz data))"

text \<open>The return value, the pointer (\<open>None\<close> is null) and the length.\<close>

definition CBS_stow :: "alloc \<Rightarrow> cbs \<Rightarrow> bool \<times> u8 list option \<times> nat" where
  "CBS_stow alloc cbs =
     (if length cbs = 0 then (True, None, 0)
      else case BUF_memdup alloc cbs (length cbs) of
             None \<Rightarrow> (False, None, 0)
           | Some p \<Rightarrow> (True, Some p, length cbs))"

fun BUF_strnlen :: "u8 list \<Rightarrow> nat \<Rightarrow> nat" where
  "BUF_strnlen s 0 = 0"
| "BUF_strnlen [] (Suc n) = 0"
| "BUF_strnlen (c # s) (Suc n) = (if c = 0 then 0 else Suc (BUF_strnlen s n))"

text \<open>The pointer of a \<open>CBS\<close> is not NULL here; for NULL, which an empty \<open>CBS\<close> may hold, the code returns NULL and
  not an empty string.\<close>

definition BUF_strndup :: "alloc \<Rightarrow> u8 list \<Rightarrow> nat \<Rightarrow> u8 list option" where
  "BUF_strndup alloc str sz =
     (let sz = BUF_strnlen str sz; alloc_size = (sz + 1) mod size_mod in
      if alloc_size < sz then None
      else if \<not> alloc alloc_size then None
      else Some (take sz str @ [0]))"

definition CBS_strdup :: "alloc \<Rightarrow> cbs \<Rightarrow> u8 list option" where
  "CBS_strdup alloc cbs = BUF_strndup alloc cbs (length cbs)"

definition CBS_contains_zero_byte :: "cbs \<Rightarrow> bool" where
  "CBS_contains_zero_byte cbs = list_ex (\<lambda>b. b = 0) cbs"

text \<open>The differences are or-ed together, whatever the bytes are.\<close>

definition CRYPTO_memcmp :: "u8 list \<Rightarrow> u8 list \<Rightarrow> nat \<Rightarrow> u8" where
  "CRYPTO_memcmp a b len = fold (\<lambda>i x. x OR ((a ! i) XOR (b ! i))) [0..<len] 0"

definition CBS_mem_equal :: "cbs \<Rightarrow> u8 list \<Rightarrow> nat \<Rightarrow> bool" where
  "CBS_mem_equal cbs data len =
     (if len \<noteq> length cbs then False else CRYPTO_memcmp cbs data len = 0)"

definition cbs_get_u :: "nat \<Rightarrow> u32 parser" where
  "cbs_get_u n cbs =
     bnd (cbs_get n cbs) (\<lambda>data cbs.
       (Some (fold (\<lambda>b result. push_bit 8 result OR ucast b) data 0), cbs))"

definition CBS_get_u8 :: "u8 parser" where
  "CBS_get_u8 cbs = bnd (cbs_get 1 cbs) (\<lambda>v cbs. (Some (hd v), cbs))"

definition CBS_get_u16 :: "u16 parser" where
  "CBS_get_u16 cbs = bnd (cbs_get_u 2 cbs) (\<lambda>v cbs. (Some (ucast v), cbs))"

definition CBS_get_u24 :: "u32 parser" where
  "CBS_get_u24 = cbs_get_u 3"

definition CBS_get_u32 :: "u32 parser" where
  "CBS_get_u32 = cbs_get_u 4"

definition CBS_get_last_u8 :: "u8 parser" where
  "CBS_get_last_u8 cbs =
     (if length cbs = 0 then (None, cbs) else (Some (cbs ! (length cbs - 1)), take (length cbs - 1) cbs))"

definition CBS_get_bytes :: "nat \<Rightarrow> cbs parser" where
  "CBS_get_bytes n cbs = bnd (cbs_get n cbs) (\<lambda>v cbs. (Some (CBS_init v n), cbs))"

text \<open>The bytes that are stored at \<open>out\<close>.\<close>

definition CBS_copy_bytes :: "nat \<Rightarrow> u8 list parser" where
  "CBS_copy_bytes n cbs = bnd (cbs_get n cbs) (\<lambda>v cbs. (Some v, cbs))"

definition cbs_get_length_prefixed :: "nat \<Rightarrow> cbs parser" where
  "cbs_get_length_prefixed len_len cbs =
     bnd (cbs_get_u len_len cbs) (\<lambda>len cbs. CBS_get_bytes (unat len) cbs)"

definition CBS_get_u8_length_prefixed :: "cbs parser" where
  "CBS_get_u8_length_prefixed = cbs_get_length_prefixed 1"

definition CBS_get_u16_length_prefixed :: "cbs parser" where
  "CBS_get_u16_length_prefixed = cbs_get_length_prefixed 2"

definition CBS_get_u24_length_prefixed :: "cbs parser" where
  "CBS_get_u24_length_prefixed = cbs_get_length_prefixed 3"

section \<open>ASN.1 elements\<close>

abbreviation CBS_ASN1_TAG_SHIFT :: nat where "CBS_ASN1_TAG_SHIFT \<equiv> 24"
abbreviation CBS_ASN1_CONSTRUCTED :: u32 where "CBS_ASN1_CONSTRUCTED \<equiv> 0x20000000"
abbreviation CBS_ASN1_TAG_NUMBER_MASK :: u32 where "CBS_ASN1_TAG_NUMBER_MASK \<equiv> 0x1FFFFFFF"
abbreviation CBS_ASN1_BOOLEAN :: u32 where "CBS_ASN1_BOOLEAN \<equiv> 0x1"
abbreviation CBS_ASN1_INTEGER :: u32 where "CBS_ASN1_INTEGER \<equiv> 0x2"
abbreviation CBS_ASN1_OCTETSTRING :: u32 where "CBS_ASN1_OCTETSTRING \<equiv> 0x4"

text \<open>The loop of \<open>parse_base128_integer\<close>, one byte at a time.\<close>

fun base128_loop :: "u64 \<Rightarrow> u64 parser" where
  "base128_loop v [] = (None, [])"
| "base128_loop v (b # cbs) =
     (if drop_bit (64 - 7) v \<noteq> 0 then (None, cbs)
      else if v = 0 \<and> b = 0x80 then (None, cbs)
      else
        let v = push_bit 7 v OR ucast (b AND 0x7F) in
        if b AND 0x80 \<noteq> 0 then base128_loop v cbs else (Some v, cbs))"

definition parse_base128_integer :: "u64 parser" where
  "parse_base128_integer = base128_loop 0"

definition parse_asn1_tag :: "u32 parser" where
  "parse_asn1_tag cbs =
     bnd (CBS_get_u8 cbs) (\<lambda>tag_byte cbs.
       let tag = push_bit CBS_ASN1_TAG_SHIFT (ucast tag_byte AND 0xE0 :: u32);
           tag_number = (ucast tag_byte AND 0x1F :: u32)
       in
       if tag_number = 0x1F then
         bnd (parse_base128_integer cbs) (\<lambda>v cbs.
           if v > ucast CBS_ASN1_TAG_NUMBER_MASK \<or> v < 0x1F then (None, cbs)
           else (Some (tag OR ucast v), cbs))
       else (Some (tag OR tag_number), cbs))"

text \<open>The element with its header, its tag and the length of its header.\<close>

type_synonym element = "cbs \<times> u32 \<times> nat"

definition cbs_get_any_asn1_element :: "bool \<Rightarrow> element parser" where
  "cbs_get_any_asn1_element ber_ok cbs =
     (case parse_asn1_tag cbs of
        (None, header) \<Rightarrow> (None, cbs)
      | (Some tag, header) \<Rightarrow>
     (case CBS_get_u8 header of
        (None, header) \<Rightarrow> (None, cbs)
      | (Some length_byte, header) \<Rightarrow>
          let header_len = length cbs - length header;
              get = (\<lambda>len header_len. bnd (CBS_get_bytes len cbs) (\<lambda>out cbs. (Some (out, tag, header_len), cbs)))
          in
          if length_byte AND 0x80 = 0 then get (unat length_byte + header_len) header_len
          else
            let num_bytes = unat (length_byte AND 0x7F) in
            if ber_ok \<and> tag AND CBS_ASN1_CONSTRUCTED \<noteq> 0 \<and> num_bytes = 0 then get header_len header_len
            else if num_bytes = 0 \<or> num_bytes > 4 then (None, cbs)
            else
              (case cbs_get_u num_bytes header of
                 (None, header) \<Rightarrow> (None, cbs)
               | (Some len32, header) \<Rightarrow>
                   if len32 < 128 then (None, cbs)
                   else if drop_bit ((num_bytes - 1) * 8) len32 = 0 then (None, cbs)
                   else if (unat len32 + header_len + num_bytes) mod size_mod < unat len32 then (None, cbs)
                   else get (unat len32 + header_len + num_bytes) (header_len + num_bytes))))"

definition CBS_get_any_asn1_element :: "element parser" where
  "CBS_get_any_asn1_element = cbs_get_any_asn1_element False"

definition CBS_get_any_ber_asn1_element :: "element parser" where
  "CBS_get_any_ber_asn1_element = cbs_get_any_asn1_element True"

definition CBS_get_any_asn1 :: "(cbs \<times> u32) parser" where
  "CBS_get_any_asn1 cbs =
     bnd (CBS_get_any_asn1_element cbs) (\<lambda>(out, tag, header_len) cbs.
       case CBS_skip header_len out of
         (None, out) \<Rightarrow> (None, cbs) | (Some _, out) \<Rightarrow> (Some (out, tag), cbs))"

definition cbs_get_asn1 :: "u32 \<Rightarrow> bool \<Rightarrow> cbs parser" where
  "cbs_get_asn1 tag_value skip_header cbs =
     bnd (CBS_get_any_asn1_element cbs) (\<lambda>(out, tag, header_len) cbs.
       if tag \<noteq> tag_value then (None, cbs)
       else if skip_header then
         (case CBS_skip header_len out of (None, out) \<Rightarrow> (None, cbs) | (Some _, out) \<Rightarrow> (Some out, cbs))
       else (Some out, cbs))"

definition CBS_get_asn1 :: "u32 \<Rightarrow> cbs parser" where
  "CBS_get_asn1 tag_value = cbs_get_asn1 tag_value True"

definition CBS_get_asn1_element :: "u32 \<Rightarrow> cbs parser" where
  "CBS_get_asn1_element tag_value = cbs_get_asn1 tag_value False"

definition CBS_peek_asn1_tag :: "u32 \<Rightarrow> cbs \<Rightarrow> bool" where
  "CBS_peek_asn1_tag tag_value cbs =
     (if length cbs < 1 then False
      else case parse_asn1_tag cbs of (None, _) \<Rightarrow> False | (Some actual, _) \<Rightarrow> tag_value = actual)"

section \<open>Values\<close>

text \<open>The loop over the content bytes of an INTEGER.\<close>

fun uint64_loop :: "u64 \<Rightarrow> u8 list \<Rightarrow> u64 option" where
  "uint64_loop out [] = Some out"
| "uint64_loop out (b # data) =
     (if drop_bit 56 out \<noteq> 0 then None else uint64_loop (push_bit 8 out OR ucast b) data)"

definition CBS_get_asn1_uint64 :: "u64 parser" where
  "CBS_get_asn1_uint64 cbs =
     bnd (CBS_get_asn1 CBS_ASN1_INTEGER cbs) (\<lambda>data cbs.
       if length data = 0 then (None, cbs)
       else if data ! 0 AND 0x80 \<noteq> 0 then (None, cbs)
       else if data ! 0 = 0 \<and> length data > 1 \<and> data ! 1 AND 0x80 = 0 then (None, cbs)
       else (uint64_loop 0 data, cbs))"

definition CBS_get_asn1_bool :: "bool parser" where
  "CBS_get_asn1_bool cbs =
     bnd (CBS_get_asn1 CBS_ASN1_BOOLEAN cbs) (\<lambda>bytes cbs.
       if length bytes \<noteq> 1 then (None, cbs)
       else let value = hd bytes in
         if value \<noteq> 0 \<and> value \<noteq> 0xFF then (None, cbs) else (Some (value \<noteq> 0), cbs))"

text \<open>\<open>Some None\<close> is the return value 1 with \<open>present\<close> set to 0.\<close>

definition CBS_get_optional_asn1 :: "u32 \<Rightarrow> cbs option parser" where
  "CBS_get_optional_asn1 tag cbs =
     (if CBS_peek_asn1_tag tag cbs then bnd (CBS_get_asn1 tag cbs) (\<lambda>out cbs. (Some (Some out), cbs))
      else (Some None, cbs))"

text \<open>The output and whether it was present; an absent string is empty.\<close>

definition CBS_get_optional_asn1_octet_string :: "u32 \<Rightarrow> (cbs \<times> bool) parser" where
  "CBS_get_optional_asn1_octet_string tag cbs =
     bnd (CBS_get_optional_asn1 tag cbs) (\<lambda>child cbs.
       case child of
         None \<Rightarrow> (Some ([], False), cbs)
       | Some child \<Rightarrow>
           (case CBS_get_asn1 CBS_ASN1_OCTETSTRING child of
              (None, child) \<Rightarrow> (None, cbs)
            | (Some out, child) \<Rightarrow> if length child \<noteq> 0 then (None, cbs) else (Some (out, True), cbs)))"

definition CBS_get_optional_asn1_uint64 :: "u32 \<Rightarrow> u64 \<Rightarrow> u64 parser" where
  "CBS_get_optional_asn1_uint64 tag default_value cbs =
     bnd (CBS_get_optional_asn1 tag cbs) (\<lambda>child cbs.
       case child of
         None \<Rightarrow> (Some default_value, cbs)
       | Some child \<Rightarrow>
           (case CBS_get_asn1_uint64 child of
              (None, child) \<Rightarrow> (None, cbs)
            | (Some out, child) \<Rightarrow> if length child \<noteq> 0 then (None, cbs) else (Some out, cbs)))"

definition CBS_get_optional_asn1_bool :: "u32 \<Rightarrow> bool \<Rightarrow> bool parser" where
  "CBS_get_optional_asn1_bool tag default_value cbs =
     bnd (CBS_get_optional_asn1 tag cbs) (\<lambda>child cbs.
       case child of
         None \<Rightarrow> (Some default_value, cbs)
       | Some child \<Rightarrow>
           (case CBS_get_asn1 CBS_ASN1_BOOLEAN child of
              (None, child) \<Rightarrow> (None, cbs)
            | (Some child2, child) \<Rightarrow>
                if length child2 \<noteq> 1 \<or> length child \<noteq> 0 then (None, cbs)
                else let boolean = child2 ! 0 in
                  if boolean = 0 then (Some False, cbs)
                  else if boolean = 0xFF then (Some True, cbs)
                  else (None, cbs)))"

definition CBS_is_valid_asn1_bitstring :: "cbs \<Rightarrow> bool" where
  "CBS_is_valid_asn1_bitstring cbs =
     (case CBS_get_u8 cbs of
        (None, _) \<Rightarrow> False
      | (Some num_unused_bits, inp) \<Rightarrow>
          if num_unused_bits > 7 then False
          else if num_unused_bits = 0 then True
          else
            (case CBS_get_last_u8 inp of
               (None, _) \<Rightarrow> False
             | (Some last_byte, _) \<Rightarrow> last_byte AND (push_bit (unat num_unused_bits) 1 - 1) = 0))"

definition CBS_asn1_bitstring_has_bit :: "cbs \<Rightarrow> u32 \<Rightarrow> bool" where
  "CBS_asn1_bitstring_has_bit cbs n =
     (if \<not> CBS_is_valid_asn1_bitstring cbs then False
      else
        let byte_num = unat (drop_bit 3 n + 1); bit_num = 7 - unat (n AND 7)
        in byte_num < length cbs \<and> (cbs ! byte_num) AND push_bit bit_num 1 \<noteq> 0)"

section \<open>Parsers consume\<close>

lemma cbs_get_Some [simp]:
  "cbs_get n cbs = (Some v, r) \<longleftrightarrow> n \<le> length cbs \<and> v = take n cbs \<and> r = drop n cbs"
  by (auto simp: cbs_get_def)

lemma CBS_get_u8_Some [simp]: "CBS_get_u8 cbs = (Some b, r) \<longleftrightarrow> cbs = b # r"
  by (cases cbs) (auto simp: CBS_get_u8_def bnd_Some)

lemma CBS_get_bytes_Some [simp]:
  "CBS_get_bytes n cbs = (Some v, r) \<longleftrightarrow> n \<le> length cbs \<and> v = take n cbs \<and> r = drop n cbs"
  by (auto simp: CBS_get_bytes_def CBS_init_def bnd_Some)

lemma base128_shorter: "base128_loop v cbs = (Some x, cbs') \<Longrightarrow> length cbs' < length cbs"
  by (induction v cbs arbitrary: x rule: base128_loop.induct) (fastforce simp: Let_def split: if_splits)+

lemma parse_asn1_tag_shorter: "parse_asn1_tag cbs = (Some t, r) \<Longrightarrow> length r < length cbs"
  by (auto simp: parse_asn1_tag_def parse_base128_integer_def bnd_Some Let_def
      dest!: base128_shorter split: if_splits)

text \<open>An element is a prefix of the input of at least the header's length.\<close>

lemma element_Some:
  assumes "cbs_get_any_asn1_element ber cbs = (Some (out, tag, h), r)"
  shows "out = take (length out) cbs \<and> r = drop (length out) cbs \<and> 2 \<le> h \<and> h \<le> length out \<and>
    length out \<le> length cbs"
proof -
  from assms obtain header b header' where t: "parse_asn1_tag cbs = (Some tag, header)"
    and b: "header = b # header'"
    by (auto simp: cbs_get_any_asn1_element_def bnd_Some Let_def split: option.splits prod.splits if_splits)
  have "2 \<le> length cbs - length header'" using parse_asn1_tag_shorter [OF t] b by simp
  with assms t b show ?thesis
    by (auto simp: cbs_get_any_asn1_element_def bnd_Some Let_def min_def
        split: option.splits prod.splits if_splits)
qed

lemma element_shorter:
  "cbs_get_any_asn1_element ber cbs = (Some (out, tag, h), r) \<Longrightarrow> length r < length cbs"
  using element_Some [of ber cbs out tag h r] by (auto dest: arg_cong [where f = length])

lemma get_asn1_shorter: "CBS_get_asn1 tag cbs = (Some out, r) \<Longrightarrow> length r < length cbs"
  by (auto simp: CBS_get_asn1_def cbs_get_asn1_def CBS_get_any_asn1_element_def bnd_Some
      dest: element_shorter split: if_splits option.splits prod.splits)

end
