(* ===== verification/Cbb.thy ===== *)
theory Cbb imports Cbs begin

text \<open>
  The byte-string builder of BoringSSL, \<open>crypto/bytestring/cbb.c\<close> and \<open>asn1_compat.c\<close>. A
  \<open>CBB\<close> and its chain of open children share one base buffer, so the state is one record: the
  base, and the children from the outermost to the innermost, each with the offset and the
  kind of its pending length prefix. A handle is a depth: 0 is the top-level object and \<open>d\<close> the
  \<open>d\<close>-th child. A handle below the end of the chain is a child that was flushed, whose base
  pointer is null.
\<close>

record cbb_child =
  k_offset :: nat
  k_len_len :: nat
  k_asn1 :: bool

text \<open>\<open>c_data\<close> is the valid part of the base buffer, \<open>c_open\<close> that the base pointer is set, and
  \<open>c_alloc\<close> which sizes the allocator grants.\<close>

record cbb =
  c_open :: bool
  c_data :: "u8 list"
  c_cap :: nat
  c_resize :: bool
  c_error :: bool
  c_kids :: "cbb_child list"
  c_alloc :: alloc

section \<open>The base buffer\<close>

definition CBB_zero :: "alloc \<Rightarrow> cbb" where
  "CBB_zero alloc = \<lparr>c_open = False, c_data = [], c_cap = 0, c_resize = False, c_error = False,
     c_kids = [], c_alloc = alloc\<rparr>"

text \<open>The base structure has 32 bytes.\<close>

definition cbb_init :: "nat \<Rightarrow> cbb \<Rightarrow> bool \<times> cbb" where
  "cbb_init cap c =
     (if \<not> c_alloc c 32 then (False, c)
      else (True, c\<lparr>c_open := True, c_data := [], c_cap := cap, c_resize := True, c_error := False\<rparr>))"

definition CBB_init :: "alloc \<Rightarrow> nat \<Rightarrow> bool \<times> cbb" where
  "CBB_init alloc initial_capacity =
     (let c = CBB_zero alloc in
      if initial_capacity > 0 \<and> \<not> alloc initial_capacity then (False, c)
      else cbb_init initial_capacity c)"

definition CBB_init_fixed :: "alloc \<Rightarrow> nat \<Rightarrow> bool \<times> cbb" where
  "CBB_init_fixed alloc len =
     chk (cbb_init len (CBB_zero alloc)) (\<lambda>c. (True, c\<lparr>c_resize := False\<rparr>))"

definition CBB_cleanup :: "cbb \<Rightarrow> cbb" where
  "CBB_cleanup c = c\<lparr>c_open := False\<rparr>"

definition cbb_err :: "cbb \<Rightarrow> bool \<times> cbb" where
  "cbb_err c = (False, c\<lparr>c_error := True\<rparr>)"

definition cbb_buffer_reserve :: "nat \<Rightarrow> cbb \<Rightarrow> bool \<times> cbb" where
  "cbb_buffer_reserve len c =
     (if \<not> c_open c then (False, c)
      else
        let newlen = (length (c_data c) + len) mod size_mod in
        if newlen < length (c_data c) then cbb_err c
        else if newlen > c_cap c then
          let newcap = c_cap c * 2 mod size_mod;
              newcap = (if newcap < c_cap c \<or> newcap < newlen then newlen else newcap)
          in if \<not> c_resize c then cbb_err c
             else if \<not> c_alloc c newcap then cbb_err c
             else (True, c\<lparr>c_cap := newcap\<rparr>)
        else (True, c))"

text \<open>The caller stores \<open>bs\<close> in the space it gets.\<close>

definition cbb_buffer_add :: "u8 list \<Rightarrow> cbb \<Rightarrow> bool \<times> cbb" where
  "cbb_buffer_add bs c =
     chk (cbb_buffer_reserve (length bs) c) (\<lambda>c. (True, c\<lparr>c_data := c_data c @ bs\<rparr>))"

text \<open>The bytes are stored from the last to the first one; what is left of \<open>v\<close> did not fit.\<close>

primrec be_loop :: "nat \<Rightarrow> u32 \<Rightarrow> u8 list \<Rightarrow> u8 list \<times> u32" where
  "be_loop 0 v buf = (buf, v)"
| "be_loop (Suc n) v buf = be_loop n (drop_bit 8 v) (ucast v # buf)"

definition cbb_buffer_add_u :: "u32 \<Rightarrow> nat \<Rightarrow> cbb \<Rightarrow> bool \<times> cbb" where
  "cbb_buffer_add_u v len_len c =
     (if len_len = 0 then (True, c)
      else case be_loop len_len v [] of (buf, v) \<Rightarrow>
        chk (cbb_buffer_add buf c) (\<lambda>c. if v \<noteq> 0 then cbb_err c else (True, c)))"

section \<open>Flushing\<close>

text \<open>The length of a length prefix and its first byte.\<close>

definition asn1_len_form :: "nat \<Rightarrow> (nat \<times> u8) option" where
  "asn1_len_form len =
     (if len > 0xFFFFFFFE then None
      else if len > 0xFFFFFF then Some (5, 0x80 OR 4)
      else if len > 0xFFFF then Some (4, 0x80 OR 3)
      else if len > 0xFF then Some (3, 0x80 OR 2)
      else if len > 0x7F then Some (2, 0x80 OR 1)
      else Some (1, word_of_nat len))"

text \<open>The loop that writes the prefix: \<open>n\<close> bytes that end before \<open>pos\<close>.\<close>

primrec write_len :: "nat \<Rightarrow> nat \<Rightarrow> nat \<Rightarrow> u8 list \<Rightarrow> u8 list \<times> nat" where
  "write_len 0 pos len data = (data, len)"
| "write_len (Suc n) pos len data = write_len n pos (len div 256) (data[pos + n := word_of_nat len])"

definition flush_prefix :: "nat \<Rightarrow> cbb_child \<Rightarrow> nat \<Rightarrow> cbb \<Rightarrow> bool \<times> cbb" where
  "flush_prefix d k child_start c =
     (let len = length (c_data c) - child_start in
      case (if k_asn1 k then
              (case asn1_len_form len of
                 None \<Rightarrow> (None, c)
               | Some (len_len, initial) \<Rightarrow>
                   let extra = len_len - 1;
                       grow = (if len_len \<noteq> 1 then
                                 chk (cbb_buffer_add (replicate extra 0) c) (\<lambda>c.
                                   (True, c\<lparr>c_data := splice (c_data c) (child_start + extra)
                                              (take len (drop child_start (c_data c)))\<rparr>))
                               else (True, c))
                   in case grow of
                        (False, c) \<Rightarrow> (None, c)
                      | (True, c) \<Rightarrow>
                          (Some (k_offset k + 1, len_len - 1, if len_len = 1 then 0 else len),
                           c\<lparr>c_data := (c_data c)[k_offset k := initial]\<rparr>))
            else (Some (k_offset k, k_len_len k, len), c)) of
        (None, c) \<Rightarrow> cbb_err c
      | (Some (offset, pending, len), c) \<Rightarrow>
          (case write_len pending offset len (c_data c) of (data, rest) \<Rightarrow>
             let c = c\<lparr>c_data := data\<rparr> in
             if rest \<noteq> 0 then cbb_err c else (True, c\<lparr>c_kids := take d (c_kids c)\<rparr>)))"

function CBB_flush :: "nat \<Rightarrow> cbb \<Rightarrow> bool \<times> cbb" where
  "CBB_flush d c =
     (if \<not> c_open c \<or> length (c_kids c) < d \<or> c_error c then (False, c)
      else if length (c_kids c) = d then (True, c)
      else if k_len_len (c_kids c ! d) = 0 then (True, c)
      else
        let k = c_kids c ! d; child_start = (k_offset k + k_len_len k) mod size_mod in
        case CBB_flush (Suc d) c of
          (ok, c) \<Rightarrow>
            if \<not> ok \<or> child_start < k_offset k \<or> length (c_data c) < child_start then cbb_err c
            else flush_prefix d k child_start c)"
  by pat_completeness auto
termination
  by (relation "measure (\<lambda>(d, c). length (c_kids c) - d)") auto

declare CBB_flush.simps [simp del]

text \<open>The data and length of a handle start behind its pending prefix.\<close>

definition cbb_start :: "nat \<Rightarrow> cbb \<Rightarrow> nat" where
  "cbb_start d c = (if d = 0 then 0 else k_offset (c_kids c ! (d - 1)) + k_len_len (c_kids c ! (d - 1)))"

definition CBB_data :: "nat \<Rightarrow> cbb \<Rightarrow> u8 list" where
  "CBB_data d c = drop (cbb_start d c) (c_data c)"

definition CBB_len :: "nat \<Rightarrow> cbb \<Rightarrow> nat" where
  "CBB_len d c = length (c_data c) - cbb_start d c"

text \<open>The buffer and its length; the output pointers may be null.\<close>

definition CBB_finish :: "nat \<Rightarrow> bool \<Rightarrow> cbb \<Rightarrow> (u8 list \<times> nat) option \<times> cbb" where
  "CBB_finish d outputs c =
     (if d \<noteq> 0 then (None, c)
      else case CBB_flush 0 c of
             (False, c) \<Rightarrow> (None, c)
           | (True, c) \<Rightarrow>
               if c_resize c \<and> \<not> outputs then (None, c)
               else (Some (c_data c, length (c_data c)), CBB_cleanup c))"

section \<open>Adding data\<close>

definition cbb_add_length_prefixed :: "nat \<Rightarrow> nat \<Rightarrow> cbb \<Rightarrow> bool \<times> cbb" where
  "cbb_add_length_prefixed len_len d c =
     chk (CBB_flush d c) (\<lambda>c.
       let offset = length (c_data c) in
       chk (cbb_buffer_add (replicate len_len 0) c) (\<lambda>c.
         (True, c\<lparr>c_kids := take d (c_kids c) @ [\<lparr>k_offset = offset, k_len_len = len_len, k_asn1 = False\<rparr>]\<rparr>)))"

definition CBB_add_u8_length_prefixed :: "nat \<Rightarrow> cbb \<Rightarrow> bool \<times> cbb" where
  "CBB_add_u8_length_prefixed = cbb_add_length_prefixed 1"

definition CBB_add_u16_length_prefixed :: "nat \<Rightarrow> cbb \<Rightarrow> bool \<times> cbb" where
  "CBB_add_u16_length_prefixed = cbb_add_length_prefixed 2"

definition CBB_add_u24_length_prefixed :: "nat \<Rightarrow> cbb \<Rightarrow> bool \<times> cbb" where
  "CBB_add_u24_length_prefixed = cbb_add_length_prefixed 3"

definition CBB_add_bytes :: "u8 list \<Rightarrow> nat \<Rightarrow> cbb \<Rightarrow> bool \<times> cbb" where
  "CBB_add_bytes data d c = chk (CBB_flush d c) (cbb_buffer_add data)"

text \<open>The caller of \<open>CBB_add_space\<close> fills the space with \<open>bs\<close>, and the caller of
  \<open>CBB_did_write\<close> has put \<open>bs\<close> into the space it reserved.\<close>

definition CBB_add_space :: "u8 list \<Rightarrow> nat \<Rightarrow> cbb \<Rightarrow> bool \<times> cbb" where
  "CBB_add_space bs d c = chk (CBB_flush d c) (cbb_buffer_add bs)"

definition CBB_reserve :: "nat \<Rightarrow> nat \<Rightarrow> cbb \<Rightarrow> bool \<times> cbb" where
  "CBB_reserve len d c = chk (CBB_flush d c) (cbb_buffer_reserve len)"

definition CBB_did_write :: "u8 list \<Rightarrow> nat \<Rightarrow> cbb \<Rightarrow> bool \<times> cbb" where
  "CBB_did_write bs d c =
     (let newlen = (length (c_data c) + length bs) mod size_mod in
      if length (c_kids c) \<noteq> d \<or> newlen < length (c_data c) \<or> newlen > c_cap c then (False, c)
      else (True, c\<lparr>c_data := c_data c @ bs\<rparr>))"

definition CBB_add_u8 :: "u8 \<Rightarrow> nat \<Rightarrow> cbb \<Rightarrow> bool \<times> cbb" where
  "CBB_add_u8 v d c = chk (CBB_flush d c) (cbb_buffer_add_u (ucast v) 1)"

definition CBB_add_u16 :: "u16 \<Rightarrow> nat \<Rightarrow> cbb \<Rightarrow> bool \<times> cbb" where
  "CBB_add_u16 v d c = chk (CBB_flush d c) (cbb_buffer_add_u (ucast v) 2)"

definition CBB_add_u24 :: "u32 \<Rightarrow> nat \<Rightarrow> cbb \<Rightarrow> bool \<times> cbb" where
  "CBB_add_u24 v d c = chk (CBB_flush d c) (cbb_buffer_add_u v 3)"

definition CBB_add_u32 :: "u32 \<Rightarrow> nat \<Rightarrow> cbb \<Rightarrow> bool \<times> cbb" where
  "CBB_add_u32 v d c = chk (CBB_flush d c) (cbb_buffer_add_u v 4)"

definition CBB_discard_child :: "nat \<Rightarrow> cbb \<Rightarrow> cbb" where
  "CBB_discard_child d c =
     (if length (c_kids c) \<le> d then c
      else c\<lparr>c_data := take (k_offset (c_kids c ! d)) (c_data c), c_kids := take d (c_kids c)\<rparr>)"

section \<open>ASN.1\<close>

primrec count7 :: "nat \<Rightarrow> u64 \<Rightarrow> nat" where
  "count7 0 copy = 0"
| "count7 (Suc n) copy = (if copy > 0 then Suc (count7 n (drop_bit 7 copy)) else 0)"

primrec base128_bytes :: "nat \<Rightarrow> u64 \<Rightarrow> nat \<Rightarrow> cbb \<Rightarrow> bool \<times> cbb" where
  "base128_bytes 0 v d c = (True, c)"
| "base128_bytes (Suc i) v d c =
     (let byte = ucast (drop_bit (7 * i) v) AND 0x7F :: u8;
          byte = (if i \<noteq> 0 then byte OR 0x80 else byte)
      in chk (CBB_add_u8 byte d c) (base128_bytes i v d))"

text \<open>Ten groups of seven bits are enough for 64 bits.\<close>

definition add_base128_integer :: "u64 \<Rightarrow> nat \<Rightarrow> cbb \<Rightarrow> bool \<times> cbb" where
  "add_base128_integer v d c =
     (let len_len = count7 10 v; len_len = (if len_len = 0 then 1 else len_len)
      in base128_bytes len_len v d c)"

definition CBB_add_asn1 :: "u32 \<Rightarrow> nat \<Rightarrow> cbb \<Rightarrow> bool \<times> cbb" where
  "CBB_add_asn1 tag d c =
     chk (CBB_flush d c) (\<lambda>c.
       let tag_bits = ucast (drop_bit CBS_ASN1_TAG_SHIFT tag) AND 0xE0 :: u8;
           tag_number = tag AND CBS_ASN1_TAG_NUMBER_MASK
       in
       chk (if tag_number \<ge> 0x1F then
              chk (CBB_add_u8 (tag_bits OR 0x1F) d c) (add_base128_integer (ucast tag_number) d)
            else CBB_add_u8 (tag_bits OR ucast tag_number) d c) (\<lambda>c.
         let offset = length (c_data c) in
         chk (CBB_add_u8 0 d c) (\<lambda>c.
           (True, c\<lparr>c_kids := take d (c_kids c) @ [\<lparr>k_offset = offset, k_len_len = 1, k_asn1 = True\<rparr>]\<rparr>))))"

text \<open>The loop over the bytes of a 64-bit integer, from the most significant one; the first
  component says that a byte has been written.\<close>

primrec uint64_bytes :: "nat \<Rightarrow> u64 \<Rightarrow> nat \<Rightarrow> bool \<Rightarrow> cbb \<Rightarrow> (bool \<times> bool) \<times> cbb" where
  "uint64_bytes 0 v d started c = ((True, started), c)"
| "uint64_bytes (Suc i) v d started c =
     (let byte = ucast (drop_bit (8 * i) v AND 0xFF) :: u8 in
      if \<not> started \<and> byte = 0 then uint64_bytes i v d False c
      else
        case (if \<not> started \<and> byte AND 0x80 \<noteq> 0 then CBB_add_u8 0 d c else (True, c)) of
          (False, c) \<Rightarrow> ((False, started), c)
        | (True, c) \<Rightarrow>
            (case CBB_add_u8 byte d c of
               (False, c) \<Rightarrow> ((False, True), c)
             | (True, c) \<Rightarrow> uint64_bytes i v d True c))"

definition CBB_add_asn1_uint64 :: "u64 \<Rightarrow> nat \<Rightarrow> cbb \<Rightarrow> bool \<times> cbb" where
  "CBB_add_asn1_uint64 v d c =
     chk (CBB_add_asn1 CBS_ASN1_INTEGER d c) (\<lambda>c.
       case uint64_bytes 8 v (Suc d) False c of
         ((False, started), c) \<Rightarrow> (False, c)
       | ((True, started), c) \<Rightarrow>
           chk (if \<not> started then CBB_add_u8 0 (Suc d) c else (True, c)) (CBB_flush d))"

definition CBB_add_asn1_octet_string :: "u8 list \<Rightarrow> nat \<Rightarrow> cbb \<Rightarrow> bool \<times> cbb" where
  "CBB_add_asn1_octet_string data d c =
     chk (CBB_add_asn1 CBS_ASN1_OCTETSTRING d c) (\<lambda>c.
       chk (CBB_add_bytes data (Suc d) c) (CBB_flush d))"

definition CBB_add_asn1_bool :: "bool \<Rightarrow> nat \<Rightarrow> cbb \<Rightarrow> bool \<times> cbb" where
  "CBB_add_asn1_bool value d c =
     chk (CBB_add_asn1 CBS_ASN1_BOOLEAN d c) (\<lambda>c.
       chk (CBB_add_u8 (if value then 0xFF else 0) (Suc d) c) (CBB_flush d))"

section \<open>Object identifiers\<close>

text \<open>One component of the dotted form; it ends at the end of the string or at a dot that is not
  its last character.\<close>

fun dotted_loop :: "u64 \<Rightarrow> bool \<Rightarrow> u64 parser" where
  "dotted_loop out seen [] = (if seen then Some out else None, [])"
| "dotted_loop out seen (u # cbs) =
     (if u = 0x2E \<and> length cbs > 0 then (if seen then Some out else None, cbs)
      else if u < 0x30 \<or> u > 0x39 \<or> (seen \<and> out = 0) \<or>
              out > 0xFFFFFFFFFFFFFFFF div 10 \<or> out * 10 > 0xFFFFFFFFFFFFFFFF - (ucast u - 0x30)
      then (None, cbs)
      else dotted_loop (out * 10 + (ucast u - 0x30)) True cbs)"

definition parse_dotted_decimal :: "u64 parser" where
  "parse_dotted_decimal = dotted_loop 0 False"

lemma dotted_shorter: "dotted_loop out seen cbs = (r, cbs') \<Longrightarrow> cbs \<noteq> [] \<Longrightarrow> length cbs' < length cbs"
proof (induction out seen cbs rule: dotted_loop.induct)
  case (1 out seen)
  then show ?case by simp
next
  case (2 out seen u cbs)
  then show ?case by (cases cbs) (auto split: if_splits)
qed

function oid_rest :: "cbs \<Rightarrow> nat \<Rightarrow> cbb \<Rightarrow> bool \<times> cbb" where
  "oid_rest cbs d c =
     (if length cbs = 0 then (True, c)
      else case parse_dotted_decimal cbs of
             (None, _) \<Rightarrow> (False, c)
           | (Some a, cbs') \<Rightarrow> chk (add_base128_integer a d c) (oid_rest cbs' d))"
  by pat_completeness auto
termination
  by (relation "measure (\<lambda>(cbs, d, c). length cbs)") (auto simp: parse_dotted_decimal_def dest: dotted_shorter [OF sym])

declare oid_rest.simps [simp del]

definition CBB_add_asn1_oid_from_text :: "u8 list \<Rightarrow> nat \<Rightarrow> nat \<Rightarrow> cbb \<Rightarrow> bool \<times> cbb" where
  "CBB_add_asn1_oid_from_text text len d c =
     chk (CBB_flush d c) (\<lambda>c.
       case parse_dotted_decimal (CBS_init text len) of
         (None, _) \<Rightarrow> (False, c)
       | (Some a, cbs) \<Rightarrow>
           (case parse_dotted_decimal cbs of
              (None, _) \<Rightarrow> (False, c)
            | (Some b, cbs) \<Rightarrow>
                if a > 2 \<or> (a < 2 \<and> b > 39) \<or> b > 0xFFFFFFFFFFFFFFFF - 80 then (False, c)
                else chk (add_base128_integer (40 * a + b) d c) (oid_rest cbs d)))"

text \<open>\<open>BIO_snprintf\<close> with the format of an unsigned 64-bit integer.\<close>

fun decimal :: "nat \<Rightarrow> u8 list" where
  "decimal n = (if n < 10 then [] else decimal (n div 10)) @ [word_of_nat (n mod 10 + 0x30)]"

declare decimal.simps [simp del]

definition add_decimal :: "u64 \<Rightarrow> cbb \<Rightarrow> bool \<times> cbb" where
  "add_decimal v c = CBB_add_bytes (decimal (unat v)) 0 c"

function text_rest :: "cbs \<Rightarrow> cbb \<Rightarrow> bool \<times> cbb" where
  "text_rest copy c =
     (if length copy = 0 then (True, c)
      else case parse_base128_integer copy of
             (None, _) \<Rightarrow> (False, c)
           | (Some v, copy) \<Rightarrow> chk (chk (CBB_add_u8 0x2E 0 c) (add_decimal v)) (text_rest copy))"
  by pat_completeness auto
termination
  by (relation "measure (\<lambda>(copy, c). length copy)") (auto simp: parse_base128_integer_def dest: base128_shorter [OF sym])

declare text_rest.simps [simp del]

definition CBS_asn1_oid_to_text :: "alloc \<Rightarrow> cbs \<Rightarrow> u8 list option" where
  "CBS_asn1_oid_to_text alloc cbs =
     (case chk (CBB_init alloc 32) (\<lambda>c.
             case parse_base128_integer cbs of
               (None, _) \<Rightarrow> (False, c)
             | (Some v, copy) \<Rightarrow>
                 chk (if v \<ge> 80 then chk (CBB_add_bytes [0x32, 0x2E] 0 c) (add_decimal (v - 80))
                      else chk (add_decimal (v div 40) c) (\<lambda>c.
                             chk (CBB_add_u8 0x2E 0 c) (add_decimal (v mod 40)))) (\<lambda>c.
                 chk (text_rest copy c) (CBB_add_u8 0 0))) of
        (False, c) \<Rightarrow> None
      | (True, c) \<Rightarrow> map_option fst (fst (CBB_finish 0 True c)))"

section \<open>SET OF\<close>

text \<open>Negative, zero or positive, as \<open>memcmp\<close> on the common length.\<close>

fun OPENSSL_memcmp :: "u8 list \<Rightarrow> u8 list \<Rightarrow> nat \<Rightarrow> int" where
  "OPENSSL_memcmp (a # as) (b # bs) (Suc n) = (if a < b then -1 else if b < a then 1 else OPENSSL_memcmp as bs n)"
| "OPENSSL_memcmp as bs n = 0"

definition compare_set_of_element :: "cbs \<Rightarrow> cbs \<Rightarrow> int" where
  "compare_set_of_element a b =
     (let a_len = length a; b_len = length b; min_len = (if a_len < b_len then a_len else b_len);
          ret = OPENSSL_memcmp a b min_len
      in if ret \<noteq> 0 then ret else if a_len = b_len then 0 else if a_len < b_len then -1 else 1)"

text \<open>\<open>qsort\<close> sorts by a comparison function.\<close>

fun insert_by :: "('a \<Rightarrow> 'a \<Rightarrow> int) \<Rightarrow> 'a \<Rightarrow> 'a list \<Rightarrow> 'a list" where
  "insert_by cmp x [] = [x]"
| "insert_by cmp x (y # ys) = (if cmp x y \<le> 0 then x # y # ys else y # insert_by cmp x ys)"

definition qsort :: "('a \<Rightarrow> 'a \<Rightarrow> int) \<Rightarrow> 'a list \<Rightarrow> 'a list" where
  "qsort cmp xs = foldr (insert_by cmp) xs []"

text \<open>The elements of a SET OF, as both passes over them find them.\<close>

function parse_elements :: "cbs \<Rightarrow> cbs list option" where
  "parse_elements cbs =
     (if length cbs = 0 then Some []
      else case CBS_get_any_asn1_element cbs of
             (None, _) \<Rightarrow> None
           | (Some (out, tag, h), cbs') \<Rightarrow> map_option ((#) out) (parse_elements cbs'))"
  by pat_completeness auto
termination
  by (relation "measure length") (auto simp: CBS_get_any_asn1_element_def dest: element_shorter [OF sym])

declare parse_elements.simps [simp del]

primrec add_all :: "u8 list list \<Rightarrow> nat \<Rightarrow> cbb \<Rightarrow> bool \<times> cbb" where
  "add_all [] d c = (True, c)"
| "add_all (x # xs) d c = chk (CBB_add_bytes x d c) (add_all xs d)"

text \<open>A \<open>CBS\<close> has 16 bytes.\<close>

definition CBB_flush_asn1_set_of :: "nat \<Rightarrow> cbb \<Rightarrow> bool \<times> cbb" where
  "CBB_flush_asn1_set_of d c =
     chk (CBB_flush d c) (\<lambda>c.
       case parse_elements (CBB_data d c) of
         None \<Rightarrow> (False, c)
       | Some children \<Rightarrow>
           let num_children = length children in
           if num_children < 2 then (True, c)
           else if num_children > (size_mod - 1) div 16 then (False, c)
           else if BUF_memdup (c_alloc c) (CBB_data d c) (CBB_len d c) = None \<or> \<not> c_alloc c (num_children * 16)
           then (False, c)
           else add_all (qsort compare_set_of_element children) d
                  (c\<lparr>c_data := take (cbb_start d c) (c_data c)\<rparr>))"

section \<open>The legacy interface\<close>

text \<open>The return value, and the bytes that are stored through \<open>outp\<close> when it is not null; with
  a null \<open>*outp\<close> the buffer itself is handed over.\<close>

definition CBB_finish_i2d :: "nat \<Rightarrow> cbb \<Rightarrow> int \<times> u8 list \<times> cbb" where
  "CBB_finish_i2d d c =
     (case CBB_finish d True c of
        (None, c) \<Rightarrow> (-1, [], CBB_cleanup c)
      | (Some (der, der_len), c) \<Rightarrow>
          if der_len > 2147483647 then (-1, [], c) else (int der_len, der, c))"

end
