(* ===== verification/Ber.thy ===== *)
theory Ber imports Cbb begin

text \<open>
  BER to DER conversion of BoringSSL, \<open>crypto/bytestring/ber.c\<close>: \<open>cbs_find_ber\<close>,
  \<open>cbs_convert_ber\<close>, \<open>CBS_asn1_ber_to_der\<close> and \<open>CBS_get_asn1_implicit_string\<close>. The recursion
  is bounded by \<open>kMaxDepth\<close>, which is the fuel of the model: a call with no fuel left is one
  that finds \<open>depth > kMaxDepth\<close>.
\<close>

definition kMaxDepth :: nat where "kMaxDepth = 2048"

definition is_string_type :: "u32 \<Rightarrow> bool" where
  "is_string_type tag =
     (tag AND NOT CBS_ASN1_CONSTRUCTED \<in>
        {0x3, 0x4, 0xC, 0x12, 0x13, 0x14, 0x15, 0x16, 0x19, 0x1A, 0x1B, 0x1C, 0x1E})"

text \<open>An element that is its header only, which ends with the indefinite length.\<close>

definition is_indefinite :: "nat \<Rightarrow> cbs \<Rightarrow> bool" where
  "is_indefinite header_len contents =
     (length contents = header_len \<and> header_len > 0 \<and> contents ! (header_len - 1) = 0x80)"

text \<open>The loop of \<open>cbs_find_ber\<close>: \<open>found\<close> is \<open>*ber_found\<close>, \<open>None\<close> an error, and \<open>rec\<close> the call one
  level deeper, which sets \<open>*ber_found\<close> anew.\<close>

function find_ber_loop :: "(cbs \<Rightarrow> bool option) \<Rightarrow> bool \<Rightarrow> cbs \<Rightarrow> bool option" where
  "find_ber_loop rec found inp =
     (if length inp = 0 then Some found
      else case CBS_get_any_ber_asn1_element inp of
             (None, _) \<Rightarrow> None
           | (Some (contents, tag, header_len), inp') \<Rightarrow>
               if is_indefinite header_len contents then Some True
               else if tag AND CBS_ASN1_CONSTRUCTED \<noteq> 0 then
                 if is_string_type tag then Some True
                 else
                   (case CBS_skip header_len contents of
                      (None, _) \<Rightarrow> None
                    | (Some _, contents) \<Rightarrow>
                        (case rec contents of
                           None \<Rightarrow> None
                         | Some found \<Rightarrow> find_ber_loop rec found inp'))
               else find_ber_loop rec found inp')"
  by pat_completeness auto
termination
  by (relation "measure (\<lambda>(rec, found, inp). length inp)")
    (auto simp: CBS_get_any_ber_asn1_element_def dest: element_shorter [OF sym])

declare find_ber_loop.simps [simp del]

primrec find_ber :: "nat \<Rightarrow> cbs \<Rightarrow> bool option" where
  "find_ber 0 = (\<lambda>inp. None)"
| "find_ber (Suc n) = find_ber_loop (find_ber n) False"

text \<open>The call at depth 0.\<close>

definition cbs_find_ber :: "cbs \<Rightarrow> bool option" where
  "cbs_find_ber = find_ber (Suc kMaxDepth)"

definition is_eoc :: "nat \<Rightarrow> cbs \<Rightarrow> bool" where
  "is_eoc header_len contents = (header_len = 2 \<and> length contents = 2 \<and> contents = [0, 0])"

section \<open>Conversion\<close>

type_synonym converter = "cbs \<Rightarrow> nat \<Rightarrow> u32 \<Rightarrow> bool \<Rightarrow> cbb \<Rightarrow> bool \<times> cbs \<times> cbb"

text \<open>The builder for the contents of an element, as a handle, and the string tag of its children.\<close>

definition open_contents :: "u32 \<Rightarrow> u32 \<Rightarrow> nat \<Rightarrow> cbb \<Rightarrow> (nat \<times> u32) option \<times> cbb" where
  "open_contents tag string_tag d c =
     (if string_tag \<noteq> 0 then
        if tag AND NOT CBS_ASN1_CONSTRUCTED \<noteq> string_tag then (None, c) else (Some (d, string_tag), c)
      else
        let str = (tag AND CBS_ASN1_CONSTRUCTED \<noteq> 0 \<and> is_string_type tag);
            out_tag = (if str then tag AND NOT CBS_ASN1_CONSTRUCTED else tag)
        in case CBB_add_asn1 out_tag d c of
             (False, c) \<Rightarrow> (None, c)
           | (True, c) \<Rightarrow> (Some (Suc d, if str then out_tag else string_tag), c))"

text \<open>Every round of the loop consumes an element, so as many rounds as there are bytes do.\<close>

primrec convert_loop :: "converter \<Rightarrow> nat \<Rightarrow> converter" where
  "convert_loop rec 0 inp d string_tag looking_for_eoc c = (inp = [] \<and> \<not> looking_for_eoc, inp, c)"
| "convert_loop rec (Suc k) inp d string_tag looking_for_eoc c =
     (if length inp = 0 then (\<not> looking_for_eoc, inp, c)
      else case CBS_get_any_ber_asn1_element inp of
             (None, inp) \<Rightarrow> (False, inp, c)
           | (Some (contents, tag, header_len), inp) \<Rightarrow>
               if is_eoc header_len contents then (looking_for_eoc, inp, c)
               else
                 (case open_contents tag string_tag d c of
                    (None, c) \<Rightarrow> (False, inp, c)
                  | (Some (out_contents, child_string_tag), c) \<Rightarrow>
                      (case (if is_indefinite header_len contents
                             then rec inp out_contents child_string_tag True c
                             else
                               (case CBS_skip header_len contents of
                                  (None, _) \<Rightarrow> (False, inp, c)
                                | (Some _, contents) \<Rightarrow>
                                    if tag AND CBS_ASN1_CONSTRUCTED \<noteq> 0 then
                                      (case rec contents out_contents child_string_tag False c of
                                         (ok, _, c) \<Rightarrow> (ok, inp, c))
                                    else
                                      (case CBB_add_bytes contents out_contents c of
                                         (ok, c) \<Rightarrow> (ok, inp, c)))) of
                         (False, inp, c) \<Rightarrow> (False, inp, c)
                       | (True, inp, c) \<Rightarrow>
                           (case CBB_flush d c of
                              (False, c) \<Rightarrow> (False, inp, c)
                            | (True, c) \<Rightarrow> convert_loop rec k inp d string_tag looking_for_eoc c))))"

primrec convert_ber :: "nat \<Rightarrow> converter" where
  "convert_ber 0 = (\<lambda>inp d string_tag looking_for_eoc c. (False, inp, c))"
| "convert_ber (Suc n) = (\<lambda>inp. convert_loop (convert_ber n) (length inp) inp)"

definition cbs_convert_ber :: converter where
  "cbs_convert_ber = convert_ber (Suc kMaxDepth)"

text \<open>\<open>Some None\<close> is success with a null output.\<close>

definition CBS_asn1_ber_to_der :: "alloc \<Rightarrow> u8 list option parser" where
  "CBS_asn1_ber_to_der alloc inp =
     (case cbs_find_ber inp of
        None \<Rightarrow> (None, inp)
      | Some False \<Rightarrow> (Some None, inp)
      | Some True \<Rightarrow>
          (case CBB_init alloc (length inp) of
             (False, c) \<Rightarrow> (None, inp)
           | (True, c) \<Rightarrow>
               (case cbs_convert_ber inp 0 0 False c of
                  (False, inp, c) \<Rightarrow> (None, inp)
                | (True, inp, c) \<Rightarrow>
                    (case CBB_finish 0 True c of
                       (None, c) \<Rightarrow> (None, inp)
                     | (Some (der, len), c) \<Rightarrow> (Some (Some der), inp)))))"

section \<open>Implicitly tagged strings\<close>

function implicit_chunks :: "u32 \<Rightarrow> cbs \<Rightarrow> cbb \<Rightarrow> bool \<times> cbb" where
  "implicit_chunks inner_tag child c =
     (if length child = 0 then (True, c)
      else case CBS_get_asn1 inner_tag child of
             (None, _) \<Rightarrow> (False, c)
           | (Some chunk, child) \<Rightarrow> chk (CBB_add_bytes chunk 0 c) (implicit_chunks inner_tag child))"
  by pat_completeness auto
termination
  by (relation "measure (\<lambda>(tag, child, c). length child)") (auto dest: get_asn1_shorter [OF sym])

declare implicit_chunks.simps [simp del]

text \<open>The contents, and the storage when they had to be concatenated.\<close>

definition CBS_get_asn1_implicit_string :: "alloc \<Rightarrow> u32 \<Rightarrow> u32 \<Rightarrow> (cbs \<times> u8 list option) parser" where
  "CBS_get_asn1_implicit_string alloc outer_tag inner_tag inp =
     (if CBS_peek_asn1_tag outer_tag inp then
        bnd (CBS_get_asn1 outer_tag inp) (\<lambda>out inp. (Some (out, None), inp))
      else
        case CBB_init alloc (length inp) of
          (False, c) \<Rightarrow> (None, inp)
        | (True, c) \<Rightarrow>
            (case CBS_get_asn1 (outer_tag OR CBS_ASN1_CONSTRUCTED) inp of
               (None, inp) \<Rightarrow> (None, inp)
             | (Some child, inp) \<Rightarrow>
                 (case implicit_chunks inner_tag child c of
                    (False, c) \<Rightarrow> (None, inp)
                  | (True, c) \<Rightarrow>
                      (case CBB_finish 0 True c of
                         (None, c) \<Rightarrow> (None, inp)
                       | (Some (data, len), c) \<Rightarrow> (Some (CBS_init data len, Some data), inp)))))"

end
