(* ===== verification/Der.thy ===== *)
theory Der imports Cbs begin

text \<open>
  The distinguished encoding rules of ASN.1 as functions from values to bytes, and the proof that
  the parser of \<open>cbs.c\<close> accepts exactly these bytes: big-endian integers, base-128 integers, tags,
  lengths, elements and the integer and boolean types.
\<close>

section \<open>Big-endian integers\<close>

definition be_bytes :: "nat \<Rightarrow> nat \<Rightarrow> u8 list" where
  "be_bytes n v = rev (le_bytes n v)"

lemma length_be_bytes [simp]: "length (be_bytes n v) = n"
  by (simp add: be_bytes_def)

lemma be_bytes_Suc: "be_bytes (Suc n) v = be_bytes n (v div 256) @ [word_of_nat v]"
  by (simp add: be_bytes_def)

lemma be_bytes_0 [simp]: "be_bytes 0 v = []"
  by (simp add: be_bytes_def)

lemma be_val_be_bytes [simp]: "be_val (be_bytes n v) = v mod 256 ^ n"
  by (simp add: be_bytes_def be_val_rev)

lemma be_bytes_be_val [simp]: "be_bytes (length bs) (be_val bs) = bs"
  using le_bytes_le_val [of "rev bs"] be_val_rev [of "rev bs"] by (simp add: be_bytes_def)

lemma be_fold:
  fixes r :: "'a::len word"
  assumes "unat r * 256 ^ length bs + be_val bs < 2 ^ LENGTH('a)" and "8 \<le> LENGTH('a)"
  shows "unat (fold (\<lambda>b result. push_bit 8 result OR ucast (b :: u8)) bs r) =
    unat r * 256 ^ length bs + be_val bs"
  using assms(1)
proof (induction bs arbitrary: r)
  case Nil
  then show ?case by simp
next
  case (Cons b bs)
  let ?r = "push_bit 8 r OR ucast b :: 'a word"
  have e: "(unat r * 256 + unat b) * 256 ^ length bs + be_val bs =
      unat r * 256 ^ length (b # bs) + be_val (b # bs)" by (simp add: algebra_simps)
  then have lt: "(unat r * 256 + unat b) * 256 ^ length bs + be_val bs < 2 ^ LENGTH('a)"
    using Cons.prems by simp
  have "unat r * 256 + unat b \<le> (unat r * 256 + unat b) * 256 ^ length bs" by simp
  then have small: "unat r * 256 + unat b < 2 ^ LENGTH('a)" using lt by linarith
  have "unat b < 2 ^ 8" using unat_u8_lt [of b] by simp
  also have "\<dots> \<le> (2::nat) ^ LENGTH('a)" using assms(2) by (intro power_increasing) simp_all
  finally have "unat b < 2 ^ LENGTH('a)" .
  then have b: "unat (ucast b :: 'a word) = unat b" unfolding unat_ucast_mod by simp
  have r: "unat (push_bit 8 r) = push_bit 8 (unat r)"
    unfolding unat_push_bit using small by (simp add: push_bit_eq_mult)
  have "unat b < 2 ^ 8" using unat_u8_lt [of b] by simp
  from nat_or_push [OF this, of "unat r"]
  have "unat ?r = unat r * 256 + unat b" unfolding unat_or b r by (simp add: or.commute add.commute)
  with Cons.IH [of ?r] lt e show ?case by simp
qed

lemma cbs_get_u_Some:
  assumes "n \<le> 4"
  shows "cbs_get_u n cbs = (Some v, r) \<longleftrightarrow>
    n \<le> length cbs \<and> unat v = be_val (take n cbs) \<and> r = drop n cbs"
proof -
  have "be_val (take n cbs) < 2 ^ 32" if "n \<le> length cbs"
  proof -
    have "be_val (take n cbs) < 256 ^ n" using be_val_lt [of "take n cbs"] that by simp
    also have "\<dots> \<le> (256::nat) ^ 4" using assms by (intro power_increasing) simp_all
    finally show ?thesis by simp
  qed
  then have "unat (fold (\<lambda>b result. push_bit 8 result OR ucast (b :: u8)) (take n cbs) (0 :: u32)) = be_val (take n cbs)"
    if "n \<le> length cbs" using be_fold [where 'a = 32, of 0 "take n cbs"] that by simp
  then show ?thesis by (auto simp: cbs_get_u_def bnd_Some word_unat_eq_iff)
qed

lemma cbs_get_u_be_bytes:
  assumes "n \<le> 4" and "unat v < 256 ^ n"
  shows "cbs_get_u n (be_bytes n (unat v) @ rest) = (Some v, rest)"
  using assms by (simp add: cbs_get_u_Some)

section \<open>Base-128 integers\<close>

fun base128_hi :: "nat \<Rightarrow> u8 list" where
  "base128_hi n = (if n = 0 then [] else base128_hi (n div 128) @ [word_of_nat (n mod 128 + 128)])"

declare base128_hi.simps [simp del]

definition base128_of :: "nat \<Rightarrow> u8 list" where
  "base128_of n = base128_hi (n div 128) @ [word_of_nat (n mod 128)]"

lemma base128_hi_0 [simp]: "base128_hi 0 = []"
  by (simp add: base128_hi.simps)

lemma base128_hi_step: "n \<noteq> 0 \<Longrightarrow> base128_hi n = base128_hi (n div 128) @ [word_of_nat (n mod 128 + 128)]"
  by (subst base128_hi.simps) simp

lemma base128_step:
  assumes "m < 2 ^ 57"
  shows "push_bit 7 (word_of_nat m :: u64) OR ucast (b AND 0x7F :: u8) = word_of_nat (m * 128 + unat b mod 128)"
proof -
  have m: "unat (word_of_nat m :: u64) = m" using assms by (intro unat_of_nat_lt) simp
  have "unat (push_bit 7 (word_of_nat m :: u64)) = push_bit 7 m"
    unfolding unat_push_bit m using assms by (simp add: push_bit_eq_mult)
  moreover have "unat (ucast (b AND 0x7F :: u8) :: u64) = unat b mod 128"
    unfolding unat_ucast_mod word_low7 by simp
  moreover have "unat b mod 128 < 2 ^ 7" by simp
  note nat_or_push [OF this, of m]
  moreover have "unat (word_of_nat (m * 128 + unat b mod 128) :: u64) = m * 128 + unat b mod 128"
    using assms by (intro unat_of_nat_lt) simp
  ultimately show ?thesis unfolding word_unat_eq_iff unat_or by (simp add: or.commute add.commute)
qed

lemma base128_loop_Cons:
  assumes "m < 2 ^ 64"
  shows "base128_loop (word_of_nat m) (b # cbs) =
     (if 2 ^ 57 \<le> m \<or> m = 0 \<and> b = 0x80 then (None, cbs)
      else if unat b < 128 then (Some (word_of_nat (m * 128 + unat b)), cbs)
      else base128_loop (word_of_nat (m * 128 + unat b mod 128)) cbs)"
proof -
  have m: "unat (word_of_nat m :: u64) = m" using assms by (intro unat_of_nat_lt) simp
  have d: "drop_bit 57 (word_of_nat m :: u64) \<noteq> 0 \<longleftrightarrow> 2 ^ 57 \<le> m"
    unfolding word_unat_eq_iff unat_drop_bit m by (simp add: div_eq_0_iff not_less)
  have z: "(word_of_nat m :: u64) = 0 \<longleftrightarrow> m = 0" unfolding word_unat_eq_iff m by simp
  show ?thesis
    using d z base128_step [of m b] by (auto simp: word_bit7 Let_def)
qed

declare base128_loop.simps(2) [simp del]

lemma base128_hi_loop:
  "n < 2 ^ 64 \<Longrightarrow> base128_loop 0 (base128_hi n @ xs) = base128_loop (word_of_nat n) xs"
proof (induction n arbitrary: xs rule: base128_hi.induct)
  case (1 n)
  show ?case
  proof (cases "n = 0")
    case True
    then show ?thesis by simp
  next
    case False
    let ?b = "word_of_nat (n mod 128 + 128) :: u8"
    have b: "unat ?b = n mod 128 + 128" unfolding unat_of_nat_u8 by simp
    have q: "n div 128 < 2 ^ 57" using "1.prems" by (simp add: div_less_iff_less_mult)
    have nz: "\<not> (n div 128 = 0 \<and> ?b = 0x80)"
    proof
      assume h: "n div 128 = 0 \<and> ?b = 0x80"
      then have "n mod 128 = 0" using b by simp
      with h False show False by (simp add: div_eq_0_iff)
    qed
    have "base128_loop 0 (base128_hi n @ xs) = base128_loop (word_of_nat (n div 128)) (?b # xs)"
      unfolding base128_hi_step [OF False] using "1.IH" [OF False] q by simp
    also have "\<dots> = base128_loop (word_of_nat (n div 128 * 128 + unat ?b mod 128)) xs"
      using base128_loop_Cons [of "n div 128" ?b xs] q nz b by auto
    also have "n div 128 * 128 + unat ?b mod 128 = n" unfolding b by simp
    finally show ?thesis .
  qed
qed

lemma parse_base128_of:
  assumes "n < 2 ^ 64"
  shows "parse_base128_integer (base128_of n @ rest) = (Some (word_of_nat n), rest)"
proof -
  let ?b = "word_of_nat (n mod 128) :: u8"
  have b: "unat ?b = n mod 128" unfolding unat_of_nat_u8 by simp
  have q: "n div 128 < 2 ^ 57" using assms by (simp add: div_less_iff_less_mult)
  have "parse_base128_integer (base128_of n @ rest) = base128_loop (word_of_nat (n div 128)) (?b # rest)"
    using base128_hi_loop [of "n div 128" "?b # rest"] q by (simp add: base128_of_def parse_base128_integer_def)
  also have "\<dots> = (Some (word_of_nat (n div 128 * 128 + unat ?b)), rest)"
    using base128_loop_Cons [of "n div 128" ?b rest] q b by (auto simp: word_unat_eq_iff)
  also have "n div 128 * 128 + unat ?b = n" unfolding b by simp
  finally show ?thesis .
qed

lemma base128_loop_inv:
  "m < 2 ^ 64 \<Longrightarrow> base128_loop (word_of_nat m) cbs = (Some v, rest) \<Longrightarrow>
     \<exists>ys. cbs = ys @ rest \<and> base128_of (unat v) = base128_hi m @ ys"
proof (induction cbs arbitrary: m)
  case Nil
  then show ?case by simp
next
  case (Cons b cbs)
  from Cons.prems have m: "m < 2 ^ 57" and nz: "\<not> (m = 0 \<and> b = 0x80)"
    by (auto simp: base128_loop_Cons split: if_splits)
  show ?case
  proof (cases "unat b < 128")
    case True
    with Cons.prems have v: "v = word_of_nat (m * 128 + unat b)" and r: "rest = cbs"
      by (auto simp: base128_loop_Cons split: if_splits)
    have "unat v = m * 128 + unat b" unfolding v using m True by (intro unat_of_nat_lt) simp
    then have "base128_of (unat v) = base128_hi m @ [b]" using True by (simp add: base128_of_def)
    then show ?thesis using r by auto
  next
    case False
    let ?n = "m * 128 + unat b mod 128"
    have n: "?n < 2 ^ 64" using m by simp
    have "unat b - 128 < 128" using unat_u8_lt [of b] by linarith
    then have low: "unat b mod 128 + 128 = unat b" using False by (simp add: le_mod_geq)
    then have b: "word_of_nat (?n mod 128 + 128) = b"
      unfolding word_unat_eq_iff unat_of_nat_u8 by simp
    have n0: "?n \<noteq> 0"
    proof
      assume "?n = 0"
      then have "m = 0" and "unat b = 128" using low by auto
      then have "b = 0x80" unfolding word_unat_eq_iff by simp
      then show False using nz \<open>m = 0\<close> by simp
    qed
    have hi: "base128_hi ?n = base128_hi m @ [b]" unfolding base128_hi_step [OF n0] b by simp
    from Cons.prems False have "base128_loop (word_of_nat ?n) cbs = (Some v, rest)"
      by (auto simp: base128_loop_Cons split: if_splits)
    from Cons.IH [OF n this] hi show ?thesis by auto
  qed
qed

lemma parse_base128_Some:
  "parse_base128_integer cbs = (Some v, rest) \<longleftrightarrow> cbs = base128_of (unat v) @ rest"
proof
  assume "parse_base128_integer cbs = (Some v, rest)"
  then show "cbs = base128_of (unat v) @ rest"
    using base128_loop_inv [of 0 cbs v rest] by (auto simp: parse_base128_integer_def)
next
  assume "cbs = base128_of (unat v) @ rest"
  then show "parse_base128_integer cbs = (Some v, rest)"
    using parse_base128_of [of "unat v" rest] unat_u64_lt [of v] by simp
qed

section \<open>Tags\<close>

text \<open>The class and constructed bits are the top three bits of a \<open>CBS_ASN1\<close> tag, the number the others.\<close>

definition der_tag :: "u32 \<Rightarrow> u8 list" where
  "der_tag tag =
     (let bits = unat tag div 2 ^ 29; number = unat tag mod 2 ^ 29
      in if number < 31 then [word_of_nat (bits * 32 + number)]
         else word_of_nat (bits * 32 + 31) # base128_of number)"

lemma nat_and_field: "(n::nat) AND push_bit k (mask j) = n div 2 ^ k mod 2 ^ j * 2 ^ k"
proof -
  have "n AND push_bit k (mask j) = push_bit k (drop_bit k n AND mask j)"
    by (rule bit_eqI) (auto simp: bit_simps)
  then show ?thesis by (simp only: nat_and_mask push_bit_eq_mult drop_bit_eq_div)
qed

lemma unat_byte_u32: "unat (ucast (b :: u8) :: u32) = unat b"
  unfolding unat_ucast_mod by (rule mod_less, rule less_trans [OF unat_u8_lt]) simp

lemma tag_class_bits: "unat (push_bit 24 (ucast b AND 0xE0 :: u32)) = unat b div 32 * 2 ^ 29" for b :: u8
proof -
  have e: "(224::nat) = push_bit 5 (mask 3)" by (simp add: mask_eq_exp_minus_1 push_bit_eq_mult)
  have b: "unat b div 32 < 8" using unat_u8_lt [of b] by (simp add: div_less_iff_less_mult)
  have "unat (ucast b AND 0xE0 :: u32) = unat b AND 224"
    unfolding unat_and unat_byte_u32 by simp
  also have "\<dots> = unat b div 32 * 32" unfolding e nat_and_field using b by simp
  finally have "unat (push_bit 24 (ucast b AND 0xE0 :: u32)) = unat b div 32 * 32 * 2 ^ 24 mod 2 ^ 32"
    unfolding unat_push_bit by simp
  with b show ?thesis by simp
qed

lemma tag_low_bits: "unat (ucast b AND 0x1F :: u32) = unat b mod 32" for b :: u8
proof -
  have m: "(0x1F :: u32) = mask 5" by (simp add: mask_eq_exp_minus_1)
  show ?thesis unfolding m unat_and_mask unat_byte_u32 by simp
qed

lemma tag_join:
  assumes "unat n < 2 ^ 29"
  shows "unat (push_bit 24 (ucast (b :: u8) AND 0xE0 :: u32) OR n) = unat b div 32 * 2 ^ 29 + unat n"
proof -
  have c: "unat (push_bit 24 (ucast b AND 0xE0 :: u32)) = push_bit 29 (unat b div 32)"
    unfolding tag_class_bits by (simp add: push_bit_eq_mult)
  show ?thesis using nat_or_push [OF assms, of "unat b div 32"] unfolding unat_or c
    by (simp add: or.commute add.commute)
qed

lemma parse_tag_Cons:
  "parse_asn1_tag (b # r) =
     (if unat b mod 32 = 31 then
        (case parse_base128_integer r of
           (None, r) \<Rightarrow> (None, r)
         | (Some v, r) \<Rightarrow> if 2 ^ 29 \<le> unat v \<or> unat v < 31 then (None, r)
                         else (Some (word_of_nat (unat b div 32 * 2 ^ 29 + unat v)), r))
      else (Some (word_of_nat (unat b div 32 * 2 ^ 29 + unat b mod 32)), r))"
proof -
  have lo: "(ucast b AND 0x1F :: u32) = 0x1F \<longleftrightarrow> unat b mod 32 = 31"
    unfolding word_unat_eq_iff tag_low_bits by simp
  have "unat b mod 32 < 2 ^ 29" by (rule less_trans [of _ 32]) simp_all
  then have short: "push_bit 24 (ucast b AND 0xE0 :: u32) OR (ucast b AND 0x1F)
      = word_of_nat (unat b div 32 * 2 ^ 29 + unat b mod 32)"
    using tag_join [of "ucast b AND 0x1F" b] unfolding tag_low_bits by (intro word_of_unat) simp
  have long: "push_bit 24 (ucast b AND 0xE0 :: u32) OR ucast v
      = word_of_nat (unat b div 32 * 2 ^ 29 + unat v)" if "unat v < 2 ^ 29" for v :: u64
  proof -
    have v: "unat (ucast v :: u32) = unat v" unfolding unat_ucast_mod using that by simp
    show ?thesis using tag_join [of "ucast v" b] that unfolding v by (intro word_of_unat) simp
  qed
  have gt: "v > ucast CBS_ASN1_TAG_NUMBER_MASK \<longleftrightarrow> 2 ^ 29 \<le> unat v" and
    ls: "v < 0x1F \<longleftrightarrow> unat v < 31" for v :: u64
    unfolding word_less_nat_alt by auto
  have u8: "CBS_get_u8 (b # r) = (Some b, r)" by simp
  obtain w r' where p: "parse_base128_integer r = (w, r')" by fastforce
  show ?thesis
    unfolding parse_asn1_tag_def u8 bnd_simps Let_def lo short gt ls p
    by (cases w) (auto simp only: bnd_simps option.case prod.case long not_le de_Morgan_disj split: if_split)
qed

lemma word_of_nat_field:
  assumes "h < 2 ^ 3" "n < 2 ^ 29"
  shows "unat (word_of_nat (h * 2 ^ 29 + n) :: u32) = h * 2 ^ 29 + n"
  using assms by (intro unat_of_nat_lt) simp

lemma der_tag_field:
  assumes "unat tag = h * 2 ^ 29 + n" and "n < 2 ^ 29"
  shows "der_tag tag =
    (if n < 31 then [word_of_nat (h * 32 + n)] else word_of_nat (h * 32 + 31) # base128_of n)"
proof -
  have "unat tag div 2 ^ 29 = h" "unat tag mod 2 ^ 29 = n" using assms by simp_all
  then show ?thesis unfolding der_tag_def Let_def by (simp only:)
qed

lemma parse_asn1_tag_Some:
  "parse_asn1_tag cbs = (Some tag, rest) \<longleftrightarrow> cbs = der_tag tag @ rest"
proof (cases cbs)
  case Nil
  then show ?thesis by (simp add: parse_asn1_tag_def CBS_get_u8_def cbs_get_def der_tag_def Let_def)
next
  case (Cons b r)
  have h: "unat b div 32 < 2 ^ 3" using unat_u8_lt [of b] by (simp add: div_less_iff_less_mult)
  have b: "unat b = unat b div 32 * 32 + unat b mod 32" by simp
  have hd_b: "word_of_nat (unat b div 32 * 32 + unat b mod 32) = b" by simp
  show ?thesis
  proof
    assume p: "parse_asn1_tag cbs = (Some tag, rest)"
    show "cbs = der_tag tag @ rest"
    proof (cases "unat b mod 32 = 31")
      case True
      from p obtain v where v: "parse_base128_integer r = (Some v, rest)" "unat v < 2 ^ 29" "31 \<le> unat v"
        and t: "tag = word_of_nat (unat b div 32 * 2 ^ 29 + unat v)"
        unfolding Cons parse_tag_Cons using True
        by (auto simp only: if_True not_less not_le de_Morgan_disj split: prod.splits option.splits if_splits)
      have "unat tag = unat b div 32 * 2 ^ 29 + unat v" unfolding t by (rule word_of_nat_field [OF h v(2)])
      from der_tag_field [OF this v(2)]
      have "der_tag tag = word_of_nat (unat b div 32 * 32 + 31) # base128_of (unat v)"
        using v(3) by (simp only: not_less [symmetric] if_False)
      then show ?thesis using v(1) unfolding hd_b [unfolded True] Cons parse_base128_Some by simp
    next
      case False
      then have lt: "unat b mod 32 < 31" using mod_less_divisor [of 32 "unat b"] by linarith
      from p False have t: "tag = word_of_nat (unat b div 32 * 2 ^ 29 + unat b mod 32)" and r: "rest = r"
        unfolding Cons parse_tag_Cons by (simp_all only: if_False prod.inject option.inject)
      have n: "unat b mod 32 < 2 ^ 29" using lt by simp
      have "unat tag = unat b div 32 * 2 ^ 29 + unat b mod 32" unfolding t
        by (rule word_of_nat_field [OF h n])
      from der_tag_field [OF this n]
      have "der_tag tag = [word_of_nat (unat b div 32 * 32 + unat b mod 32)]"
        using lt by (simp only: if_True)
      then show ?thesis using r unfolding hd_b Cons by simp
    qed
  next
    assume c: "cbs = der_tag tag @ rest"
    define hi n where "hi = unat tag div 2 ^ 29" and "n = unat tag mod 2 ^ 29"
    have hi: "hi < 8" unfolding hi_def using unat_u32_lt [of tag] by (simp add: div_less_iff_less_mult)
    have tag: "word_of_nat (hi * 2 ^ 29 + n) = tag" unfolding hi_def n_def by simp
    have n: "n < 2 ^ 29" by (simp add: n_def)
    show "parse_asn1_tag cbs = (Some tag, rest)"
    proof (cases "n < 31")
      case True
      then have b': "b = word_of_nat (hi * 32 + n)" and r: "r = rest"
        using c unfolding Cons der_tag_def Let_def by (simp_all add: hi_def n_def)
      have ub: "unat b = hi * 32 + n" unfolding b' by (rule unat_of_nat_lt) (use hi True in simp)
      then show ?thesis using True tag unfolding Cons parse_tag_Cons r by simp
    next
      case False
      then have b': "b = word_of_nat (hi * 32 + 31)" and r: "r = base128_of n @ rest"
        using c unfolding Cons der_tag_def Let_def by (simp_all add: hi_def n_def)
      have ub: "unat b = hi * 32 + 31" unfolding b' by (rule unat_of_nat_lt) (use hi in simp)
      have un: "unat (word_of_nat n :: u64) = n" using n by (intro unat_of_nat_lt) simp
      have "parse_base128_integer r = (Some (word_of_nat n), rest)"
        unfolding r using n by (intro parse_base128_of) simp
      then show ?thesis using False n tag ub unfolding Cons parse_tag_Cons by (simp add: un)
    qed
  qed
qed

section \<open>Lengths and elements\<close>

definition len_size :: "nat \<Rightarrow> nat" where
  "len_size n = (if n < 256 then 1 else if n < 65536 then 2 else if n < 16777216 then 3 else 4)"

definition der_len :: "nat \<Rightarrow> u8 list" where
  "der_len n = (if n < 128 then [word_of_nat n]
                else word_of_nat (128 + len_size n) # be_bytes (len_size n) n)"

definition der_header :: "u32 \<Rightarrow> nat \<Rightarrow> u8 list" where
  "der_header tag n = der_tag tag @ der_len n"

definition der_element :: "u32 \<Rightarrow> u8 list \<Rightarrow> u8 list" where
  "der_element tag body = der_header tag (length body) @ body"

lemma len_size_range: "1 \<le> len_size n" "len_size n \<le> 4"
  by (simp_all add: len_size_def)

lemma len_size_bounds:
  assumes "n < 2 ^ 32" and "128 \<le> n"
  shows "n < 256 ^ len_size n" and "256 ^ (len_size n - 1) \<le> n"
  using assms by (simp_all add: len_size_def)

lemma len_size_unique:
  assumes "1 \<le> k" "k \<le> 4" and "n < 256 ^ k" and "256 ^ (k - 1) \<le> n"
  shows "len_size n = k"
proof -
  have "k = 1 \<or> k = 2 \<or> k = 3 \<or> k = 4" using assms(1,2) by linarith
  then show ?thesis using assms(3,4) by (elim disjE) (simp_all add: len_size_def)
qed

text \<open>The length of a header as \<open>cbs_get_any_asn1_element\<close> reads it: the byte after the tag and what follows.\<close>

lemma long_len_iff:
  fixes len32 :: u32
  assumes "1 \<le> k" "k \<le> 4"
  shows "128 \<le> unat len32 \<and> drop_bit ((k - 1) * 8) len32 \<noteq> 0 \<and> unat len32 < 256 ^ k \<longleftrightarrow>
    128 \<le> unat len32 \<and> k = len_size (unat len32)"
proof -
  have "drop_bit ((k - 1) * 8) len32 \<noteq> 0 \<longleftrightarrow> unat len32 div 2 ^ ((k - 1) * 8) \<noteq> 0"
    unfolding word_unat_eq_iff unat_drop_bit by simp
  also have "(2::nat) ^ ((k - 1) * 8) = (2 ^ 8) ^ (k - 1)"
    by (simp only: mult.commute [of "k - 1"] power_mult)
  finally have d: "drop_bit ((k - 1) * 8) len32 \<noteq> 0 \<longleftrightarrow> 256 ^ (k - 1) \<le> unat len32"
    by (simp add: div_eq_0_iff not_less)
  have "unat len32 < 2 ^ 32" using unat_u32_lt [of len32] by simp
  then show ?thesis
    unfolding d using len_size_bounds [of "unat len32"] len_size_unique [OF assms, of "unat len32"] by auto
qed

text \<open>The part of the parser behind the tag, on the length bytes and the bytes after them.\<close>

definition get_len :: "cbs \<Rightarrow> (nat \<times> nat) option" where
  "get_len header =
     (case CBS_get_u8 header of
        (None, _) \<Rightarrow> None
      | (Some length_byte, header) \<Rightarrow>
          if length_byte AND 0x80 = 0 then Some (unat length_byte, 1)
          else let num_bytes = unat (length_byte AND 0x7F) in
            if num_bytes = 0 \<or> num_bytes > 4 then None
            else case cbs_get_u num_bytes header of
              (None, _) \<Rightarrow> None
            | (Some len32, _) \<Rightarrow>
                if len32 < 128 \<or> drop_bit ((num_bytes - 1) * 8) len32 = 0 then None
                else Some (unat len32, 1 + num_bytes))"

lemma length_der_len: "length (der_len n) = (if n < 128 then 1 else 1 + len_size n)"
  by (simp add: der_len_def)

lemma get_len_Some:
  "get_len header = Some (n, k) \<longleftrightarrow>
     n < 2 ^ 32 \<and> k = length (der_len n) \<and> take k header = der_len n \<and> k \<le> length header"
proof (cases header)
  case Nil
  then show ?thesis by (auto simp: get_len_def CBS_get_u8_def cbs_get_def length_der_len)
next
  case (Cons b r)
  have u8: "CBS_get_u8 (b # r) = (Some b, r)" by simp
  show ?thesis
  proof (cases "unat b < 128")
    case True
    have "take k (b # r) = der_len n \<longleftrightarrow> n = unat b" if "k = length (der_len n)" "n < 2 ^ 32"
    proof (cases "n < 128")
      case n: True
      then have "unat (word_of_nat n :: u8) = n" by (intro unat_of_nat_lt) simp
      then show ?thesis using that n by (auto simp: der_len_def)
    next
      case False
      have "128 + len_size n < 256" using len_size_range [of n] by linarith
      then have "unat (word_of_nat (128 + len_size n) :: u8) = 128 + len_size n" by (intro unat_of_nat_lt) simp
      then show ?thesis using that False True by (auto simp: der_len_def)
    qed
    then show ?thesis using True unfolding Cons get_len_def u8
      by (auto simp: word_bit7 der_len_def length_der_len)
  next
    case False
    define j where "j = unat b mod 128"
    have bj: "unat b = 128 + j"
    proof -
      have "unat b - 128 < 128" using unat_u8_lt [of b] by linarith
      then show ?thesis using False by (simp add: j_def le_mod_geq)
    qed
    have wb: "word_of_nat (128 + j) = b" using word_of_unat [OF bj] by simp
    have low: "unat (b AND 0x7F) = j" unfolding word_low7 j_def ..
    show ?thesis
    proof
      assume g: "get_len header = Some (n, k)"
      then have j: "1 \<le> j" "j \<le> 4" using False
        unfolding Cons get_len_def u8 by (auto simp: word_bit7 low Let_def split: if_splits)
      from g obtain v r' where v: "cbs_get_u j r = (Some v, r')" and n: "n = unat v" and k: "k = 1 + j"
        and chk: "\<not> v < 128" "drop_bit ((j - 1) * 8) v \<noteq> 0"
        using False unfolding Cons get_len_def u8
        by (auto simp: word_bit7 low Let_def split: if_splits prod.splits option.splits)
      from v j have vv: "j \<le> length r" "n = be_val (take j r)" by (auto simp: cbs_get_u_Some n)
      have "128 \<le> n" using chk(1) by (simp add: n word_less_nat_alt)
      moreover have "n < 256 ^ j" using be_val_lt [of "take j r"] vv by simp
      ultimately have js: "j = len_size n" and "128 \<le> n" using long_len_iff [OF j, of v] chk(2) n by auto
      have "be_bytes j n = take j r" using be_bytes_be_val [of "take j r"] vv by simp
      then have "der_len n = b # take j r" using \<open>128 \<le> n\<close> wb by (simp add: der_len_def flip: js)
      then show "n < 2 ^ 32 \<and> k = length (der_len n) \<and> take k header = der_len n \<and> k \<le> length header"
        using vv k n unat_u32_lt [of v] by (simp add: Cons)
    next
      assume h: "n < 2 ^ 32 \<and> k = length (der_len n) \<and> take k header = der_len n \<and> k \<le> length header"
      have n: "128 \<le> n"
      proof (rule ccontr)
        assume "\<not> 128 \<le> n"
        then have "b = word_of_nat n" using h by (auto simp: der_len_def Cons)
        moreover have "unat (word_of_nat n :: u8) = n" using \<open>\<not> 128 \<le> n\<close> by (intro unat_of_nat_lt) simp
        ultimately show False using False \<open>\<not> 128 \<le> n\<close> by simp
      qed
      then have dl: "der_len n = word_of_nat (128 + len_size n) # be_bytes (len_size n) n"
        by (simp add: der_len_def)
      have k: "k = 1 + len_size n" using h n by (simp add: length_der_len)
      have "word_of_nat (128 + len_size n) = b" using h unfolding dl Cons k by simp
      moreover have "unat (word_of_nat (128 + len_size n) :: u8) = 128 + len_size n"
        using len_size_range [of n] by (intro unat_of_nat_lt) simp
      ultimately have js: "j = len_size n" using bj by simp
      have take: "take j r = be_bytes j n" and le: "j \<le> length r"
        using h unfolding dl Cons k js by simp_all
      have j: "1 \<le> j" "j \<le> 4" using len_size_range [of n] js by auto
      have un: "unat (word_of_nat n :: u32) = n" using h by (intro unat_of_nat_lt) simp
      have nj: "n < 256 ^ j" using len_size_bounds [of n] h n js by simp
      then have v: "cbs_get_u j r = (Some (word_of_nat n), drop j r)"
        using j le un by (simp add: cbs_get_u_Some take)
      have "\<not> (word_of_nat n :: u32) < 128" using n un by (simp add: word_less_nat_alt)
      moreover have "drop_bit ((j - 1) * 8) (word_of_nat n :: u32) \<noteq> 0"
        using long_len_iff [OF j, of "word_of_nat n"] n js un by simp
      ultimately show "get_len header = Some (n, k)"
        using False j v un k js unfolding Cons get_len_def u8
        by (auto simp: word_bit7 low Let_def)
    qed
  qed
qed

lemma length_base128_hi: "n < 128 ^ k \<Longrightarrow> length (base128_hi n) \<le> k"
proof (induction k arbitrary: n)
  case 0
  then show ?case by simp
next
  case (Suc k)
  then have "length (base128_hi (n div 128)) \<le> k" by (intro Suc.IH) (simp add: div_less_iff_less_mult)
  then show ?case by (cases "n = 0") (simp_all add: base128_hi_step)
qed

lemma length_der_tag: "length (der_tag tag) \<le> 6"
proof -
  have "unat tag mod 2 ^ 29 div 128 < 128 ^ 4" by (simp add: div_less_iff_less_mult)
  from length_base128_hi [OF this] show ?thesis by (simp add: der_tag_def base128_of_def Let_def)
qed

lemma element_get_len:
  "CBS_get_any_asn1_element cbs =
     (case parse_asn1_tag cbs of
        (None, _) \<Rightarrow> (None, cbs)
      | (Some tag, header) \<Rightarrow>
          (case get_len header of
             None \<Rightarrow> (None, cbs)
           | Some (n, k) \<Rightarrow>
               let h = length cbs - length header + k in
               bnd (CBS_get_bytes (n + h) cbs) (\<lambda>out cbs. (Some (out, tag, h), cbs))))"
proof (cases "parse_asn1_tag cbs")
  case (Pair t header)
  show ?thesis
  proof (cases t)
    case None
    then show ?thesis
      by (simp add: CBS_get_any_asn1_element_def cbs_get_any_asn1_element_def Pair)
  next
    case (Some tag)
    then have c: "cbs = der_tag tag @ header" using Pair by (simp add: parse_asn1_tag_Some)
    have nw: "(unat (v :: u32) + (length cbs - length r) + j) mod size_mod < unat v \<longleftrightarrow> False"
      if "header = b # r" "j \<le> 4" for v r b j
    proof -
      have "length cbs - length r \<le> 7" using length_der_tag [of tag] that by (simp add: c)
      moreover have "unat v < 4294967296" by (rule unat_u32_lt)
      ultimately have "unat v + (length cbs - length r) + j < size_mod" using that(2) by linarith
      then show ?thesis by simp
    qed
    show ?thesis
    proof (cases header)
      case Nil
      then show ?thesis
        by (simp add: CBS_get_any_asn1_element_def cbs_get_any_asn1_element_def Pair Some get_len_def
            CBS_get_u8_def cbs_get_def)
    next
      case (Cons b r)
      have u8: "CBS_get_u8 (b # r) = (Some b, r)" by simp
      define hl where "hl = length cbs - length header"
      have len: "length cbs - length r = hl + 1" "length cbs - length (b # r) = hl"
        using Cons c by (simp_all add: hl_def)
      have nw': "\<not> Suc (hl + (unat (v :: u32) + j)) mod size_mod < unat v" if "j \<le> 4" for v j
        using nw [OF Cons that, of v] unfolding len by (simp add: ac_simps)
      show ?thesis
        unfolding CBS_get_any_asn1_element_def cbs_get_any_asn1_element_def Pair Some get_len_def
          Cons Let_def prod.case option.case u8 len
        by (auto simp: nw' ac_simps split: prod.splits option.splits)
    qed
  qed
qed

text \<open>The parser accepts exactly the distinguished encoding of an element.\<close>

lemma CBS_get_any_asn1_element_Some:
  "CBS_get_any_asn1_element cbs = (Some (out, tag, h), rest) \<longleftrightarrow>
     (\<exists>body. length body < 2 ^ 32 \<and> out = der_element tag body \<and> cbs = out @ rest \<and>
        h = length (der_header tag (length body)))"
  (is "?get \<longleftrightarrow> ?enc")
proof
  assume ?get
  then obtain header n k where t: "parse_asn1_tag cbs = (Some tag, header)" and l: "get_len header = Some (n, k)"
    and h: "h = length cbs - length header + k" and out: "n + h \<le> length cbs" "out = take (n + h) cbs"
      "rest = drop (n + h) cbs"
    unfolding element_get_len by (auto simp: bnd_Some Let_def split: prod.splits option.splits)
  from t have c: "cbs = der_tag tag @ header" by (simp add: parse_asn1_tag_Some)
  from l have n: "n < 2 ^ 32" and k: "k = length (der_len n)" and tk: "take k header = der_len n"
    and kl: "k \<le> length header" unfolding get_len_Some by blast+
  have hh: "h = length (der_header tag n)" using h by (simp add: c k der_header_def)
  have hd: "header = der_len n @ drop k header" using tk by (metis append_take_drop_id)
  define body where "body = take n (drop k header)"
  have lb: "length body = n" using out(1) kl by (simp add: body_def c h)
  have "cbs = der_header tag n @ drop k header" using c hd by (simp add: der_header_def)
  then have "out = der_element tag body" using out(2) unfolding der_element_def lb by (simp add: hh body_def)
  moreover have "cbs = out @ rest" unfolding out(2,3) by simp
  ultimately show ?enc using n lb hh by (intro exI [of _ body]) simp
next
  assume ?enc
  then obtain body where b: "length body < 2 ^ 32" and out: "out = der_element tag body"
    and c: "cbs = out @ rest" and h: "h = length (der_header tag (length body))" by blast
  let ?n = "length body"
  have t: "parse_asn1_tag cbs = (Some tag, der_len ?n @ body @ rest)"
    by (simp add: parse_asn1_tag_Some c out der_element_def der_header_def)
  have l: "get_len (der_len ?n @ body @ rest) = Some (?n, length (der_len ?n))"
    using b by (simp add: get_len_Some)
  have e: "length cbs - length (der_len ?n @ body @ rest) + length (der_len ?n) = h"
    by (simp add: c out h der_element_def der_header_def)
  have e2: "?n + h = length out" by (simp add: out h der_element_def)
  have g: "CBS_get_bytes (length out) cbs = (Some out, rest)" by (simp add: c)
  show ?get
    unfolding element_get_len t option.case prod.case l Let_def e e2 g by simp
qed

lemma CBS_skip_Some [simp]:
  "CBS_skip n cbs = (Some u, r) \<longleftrightarrow> n \<le> length cbs \<and> r = drop n cbs"
  by (auto simp: CBS_skip_def bnd_Some)

lemma skip_header: "CBS_skip (length (der_header tag (length body))) (der_element tag body) = (Some (), body)"
  by (simp add: der_element_def)

lemma CBS_get_asn1_Some:
  "CBS_get_asn1 tag cbs = (Some body, rest) \<longleftrightarrow> length body < 2 ^ 32 \<and> cbs = der_element tag body @ rest"
proof
  assume "CBS_get_asn1 tag cbs = (Some body, rest)"
  then obtain out h r where e: "CBS_get_any_asn1_element cbs = (Some (out, tag, h), rest)"
    and s: "CBS_skip h out = (Some r, body)"
    by (auto simp: CBS_get_asn1_def cbs_get_asn1_def bnd_Some split: if_splits prod.splits option.splits)
  from e obtain b where b: "length b < 2 ^ 32" "out = der_element tag b" "cbs = out @ rest"
    "h = length (der_header tag (length b))" unfolding CBS_get_any_asn1_element_Some by blast
  have "body = b" using s skip_header [of tag b] unfolding b(2,4) by simp
  then show "length body < 2 ^ 32 \<and> cbs = der_element tag body @ rest" using b by simp
next
  assume "length body < 2 ^ 32 \<and> cbs = der_element tag body @ rest"
  then have e: "CBS_get_any_asn1_element cbs =
      (Some (der_element tag body, tag, length (der_header tag (length body))), rest)"
    unfolding CBS_get_any_asn1_element_Some by blast
  show "CBS_get_asn1 tag cbs = (Some body, rest)"
    unfolding CBS_get_asn1_def cbs_get_asn1_def e bnd_simps prod.case skip_header by simp
qed

lemma CBS_get_asn1_element_Some:
  "CBS_get_asn1_element tag cbs = (Some out, rest) \<longleftrightarrow>
     (\<exists>body. length body < 2 ^ 32 \<and> out = der_element tag body \<and> cbs = out @ rest)"
proof -
  have "CBS_get_asn1_element tag cbs = (Some out, rest) \<longleftrightarrow>
      (\<exists>h. CBS_get_any_asn1_element cbs = (Some (out, tag, h), rest))"
    by (auto simp: CBS_get_asn1_element_def cbs_get_asn1_def bnd_Some split: if_splits)
  then show ?thesis unfolding CBS_get_any_asn1_element_Some by blast
qed

section \<open>Unsigned integers\<close>

fun nat_be :: "nat \<Rightarrow> u8 list" where
  "nat_be n = (if n = 0 then [] else nat_be (n div 256) @ [word_of_nat n])"

declare nat_be.simps [simp del]

definition der_uint :: "nat \<Rightarrow> u8 list" where
  "der_uint n = (let bs = nat_be n in if bs = [] \<or> 128 \<le> unat (hd bs) then 0 # bs else bs)"

lemma nat_be_0 [simp]: "nat_be 0 = []"
  by (simp add: nat_be.simps)

lemma nat_be_step: "n \<noteq> 0 \<Longrightarrow> nat_be n = nat_be (n div 256) @ [word_of_nat n]"
  by (subst nat_be.simps) simp

lemma nat_be_eq_Nil [simp]: "nat_be n = [] \<longleftrightarrow> n = 0"
  by (cases "n = 0") (simp_all add: nat_be_step)

lemma be_val_nat_be [simp]: "be_val (nat_be n) = n"
proof (induction n rule: nat_be.induct)
  case (1 n)
  then show ?case by (cases "n = 0") (simp_all add: nat_be_step be_val_append unat_of_nat_u8)
qed

lemma hd_nat_be: "n \<noteq> 0 \<Longrightarrow> hd (nat_be n) \<noteq> 0"
proof (induction n rule: nat_be.induct)
  case (1 n)
  show ?case
  proof (cases "n div 256 = 0")
    case True
    then have "n < 256" by (simp add: div_eq_0_iff)
    then have "unat (word_of_nat n :: u8) = n" by (intro unat_of_nat_lt) simp
    then show ?thesis using "1.prems" True by (auto simp: nat_be_step)
  next
    case False
    then have "hd (nat_be (n div 256)) \<noteq> 0" using "1.IH" "1.prems" by blast
    then show ?thesis unfolding nat_be_step [OF "1.prems"] using False by (simp add: hd_append)
  qed
qed

lemma nat_be_be_val: "bs = [] \<or> hd bs \<noteq> 0 \<Longrightarrow> nat_be (be_val bs) = bs"
proof (induction bs rule: rev_induct)
  case Nil
  then show ?case by simp
next
  case (snoc b bs)
  have v: "be_val (bs @ [b]) = be_val bs * 256 + unat b" by (simp add: be_val_append)
  have q: "(be_val bs * 256 + unat b) div 256 = be_val bs" by simp
  have w: "(word_of_nat (be_val bs * 256 + unat b) :: u8) = b"
    unfolding word_unat_eq_iff unat_of_nat_u8 by simp
  have ih: "nat_be (be_val bs) = bs" using snoc by (cases bs) auto
  have "be_val bs * 256 + unat b \<noteq> 0"
  proof (cases "bs = []")
    case True
    then show ?thesis using snoc.prems by (simp add: word_unat_eq_iff)
  next
    case False
    then have "be_val bs \<noteq> 0" using ih by (metis nat_be_0)
    then show ?thesis by simp
  qed
  then show ?case unfolding v nat_be_step q w ih by (simp only: nat_be_step q w ih not_False_eq_True)
qed

text \<open>The content bytes the parser accepts: no sign bit, no superfluous zero.\<close>

lemma der_uint_iff:
  "data \<noteq> [] \<and> unat (data ! 0) < 128 \<and> \<not> (data ! 0 = 0 \<and> 1 < length data \<and> unat (data ! 1) < 128)
   \<longleftrightarrow> data = der_uint (be_val data)"
proof (cases data)
  case Nil
  then show ?thesis by (simp add: der_uint_def Let_def)
next
  case (Cons b r)
  show ?thesis
  proof (cases "b = 0")
    case False
    then have "nat_be (be_val data) = data" by (intro nat_be_be_val) (simp add: Cons)
    then show ?thesis using Cons False by (auto simp: der_uint_def Let_def)
  next
    case True
    then have v: "be_val data = be_val r" by (simp add: Cons)
    show ?thesis
    proof (cases "r = [] \<or> hd r \<noteq> 0")
      case True
      then have "nat_be (be_val r) = r" by (rule nat_be_be_val)
      then show ?thesis using \<open>b = 0\<close> by (cases r) (auto simp: Cons der_uint_def Let_def)
    next
      case z: False
      then have "1 < length data" "data ! 1 = 0" by (cases r; auto simp: Cons)+
      moreover have "data \<noteq> der_uint (be_val data)"
      proof
        assume d: "data = der_uint (be_val data)"
        show False
        proof (cases "be_val r = 0")
          case True
          then show False using d z unfolding v by (simp add: der_uint_def Cons)
        next
          case False
          then have "hd (nat_be (be_val r)) \<noteq> 0" by (rule hd_nat_be)
          moreover have "nat_be (be_val r) = r \<or> nat_be (be_val r) = b # r"
            using d unfolding v by (auto simp: Cons der_uint_def Let_def split: if_splits)
          ultimately show False using z \<open>b = 0\<close> by auto
        qed
      qed
      ultimately show ?thesis using \<open>b = 0\<close> by (simp add: Cons)
    qed
  qed
qed

lemma uint64_step:
  fixes out :: u64
  assumes "unat out < 2 ^ 56"
  shows "unat (push_bit 8 out OR ucast (b :: u8)) = unat out * 256 + unat b"
proof -
  have "unat out < 72057594037927936" using assms by simp
  moreover have "unat b < 256" by (rule unat_u8_lt)
  ultimately have "unat out * 256 + unat b < size_mod" by linarith
  then show ?thesis using be_fold [where 'a = 64, of out "[b]"] by simp
qed

lemma uint64_loop_Some:
  "uint64_loop out data = Some v \<longleftrightarrow> unat v = unat out * 256 ^ length data + be_val data"
proof (induction data arbitrary: out)
  case Nil
  then show ?case by (auto simp: word_unat_eq_iff)
next
  case (Cons b data)
  have d: "drop_bit 56 out = 0 \<longleftrightarrow> unat out < 2 ^ 56"
    unfolding word_unat_eq_iff unat_drop_bit by (simp add: div_eq_0_iff)
  show ?case
  proof (cases "unat out < 2 ^ 56")
    case True
    have "uint64_loop out (b # data) = Some v \<longleftrightarrow>
        unat v = (unat out * 256 + unat b) * 256 ^ length data + be_val data"
      using d True Cons.IH [of "push_bit 8 out OR ucast b"] unfolding uint64_step [OF True] by simp
    then show ?thesis by (simp add: algebra_simps)
  next
    case False
    have "size_mod \<le> unat out * 256" using False by simp
    also have "\<dots> \<le> unat out * 256 * 256 ^ length data" by simp
    also have "\<dots> = unat out * 256 ^ length (b # data)" by simp
    finally have "unat v \<noteq> unat out * 256 ^ length (b # data) + be_val (b # data)"
      using unat_u64_lt [of v] by linarith
    then show ?thesis using d False by simp
  qed
qed

text \<open>A content is accepted when it is the minimal one of its value.\<close>

lemma length_der_uint: "n < 2 ^ 64 \<Longrightarrow> length (der_uint n) \<le> 9"
proof -
  have l: "n < 256 ^ k \<Longrightarrow> length (nat_be n) \<le> k" for k
  proof (induction k arbitrary: n)
    case 0
    then show ?case by simp
  next
    case (Suc k)
    then have "length (nat_be (n div 256)) \<le> k" by (intro Suc.IH) (simp add: div_less_iff_less_mult)
    then show ?case by (cases "n = 0") (simp_all add: nat_be_step)
  qed
  assume "n < 2 ^ 64"
  then show ?thesis using l [of 8] by (simp add: der_uint_def Let_def)
qed

lemma be_val_der_uint [simp]: "be_val (der_uint n) = n"
  by (simp add: der_uint_def Let_def)

lemma CBS_get_asn1_uint64_Some:
  "CBS_get_asn1_uint64 cbs = (Some v, rest) \<longleftrightarrow> cbs = der_element CBS_ASN1_INTEGER (der_uint (unat v)) @ rest"
proof -
  have "CBS_get_asn1_uint64 cbs = (Some v, rest) \<longleftrightarrow>
      (\<exists>data. CBS_get_asn1 CBS_ASN1_INTEGER cbs = (Some data, rest) \<and> data = der_uint (be_val data) \<and>
         uint64_loop 0 data = Some v)"
    unfolding der_uint_iff [symmetric]
    by (auto simp: CBS_get_asn1_uint64_def bnd_Some word_bit7 split: if_splits)
  also have "\<dots> \<longleftrightarrow> CBS_get_asn1 CBS_ASN1_INTEGER cbs = (Some (der_uint (unat v)), rest)"
    by (auto simp: uint64_loop_Some)
  finally show ?thesis
    using length_der_uint [of "unat v"] unat_u64_lt [of v] by (auto simp: CBS_get_asn1_Some)
qed

section \<open>Booleans\<close>

definition der_bool :: "bool \<Rightarrow> u8 list" where
  "der_bool b = [if b then 0xFF else 0]"

lemma CBS_get_asn1_bool_Some:
  "CBS_get_asn1_bool cbs = (Some b, rest) \<longleftrightarrow> cbs = der_element CBS_ASN1_BOOLEAN (der_bool b) @ rest"
proof -
  have "CBS_get_asn1_bool cbs = (Some b, rest) \<longleftrightarrow>
      CBS_get_asn1 CBS_ASN1_BOOLEAN cbs = (Some (der_bool b), rest)"
    by (auto simp: CBS_get_asn1_bool_def bnd_Some der_bool_def length_Suc_conv Let_def split: if_splits
        intro: exI [of _ "[255]"] exI [of _ "[0]"])
  then show ?thesis by (simp add: CBS_get_asn1_Some der_bool_def)
qed

section \<open>Canonicity\<close>

lemma der_element_inject:
  assumes "der_element tag body @ rest = der_element tag' body' @ rest'"
    and "length body < 2 ^ 32" "length body' < 2 ^ 32"
  shows "tag = tag' \<and> body = body' \<and> rest = rest'"
proof -
  let ?cbs = "der_element tag body @ rest"
  have "CBS_get_any_asn1_element ?cbs =
      (Some (der_element tag body, tag, length (der_header tag (length body))), rest)"
    unfolding CBS_get_any_asn1_element_Some using assms(2) by blast
  moreover have "CBS_get_any_asn1_element ?cbs =
      (Some (der_element tag' body', tag', length (der_header tag' (length body'))), rest')"
    unfolding CBS_get_any_asn1_element_Some assms(1) using assms(3) by blast
  ultimately have e: "(Some (der_element tag body, tag, length (der_header tag (length body))), rest) =
      (Some (der_element tag' body', tag', length (der_header tag' (length body'))), rest')"
    by (rule trans [OF sym])
  then have el: "der_element tag body = der_element tag' body'" and tr: "tag = tag'" "rest = rest'"
    and hl: "length (der_header tag (length body)) = length (der_header tag' (length body'))" by blast+
  have "drop (length (der_header tag (length body))) (der_element tag body) =
      drop (length (der_header tag' (length body'))) (der_element tag' body')" unfolding el hl ..
  then show ?thesis using tr by (simp add: der_element_def)
qed

section \<open>Comparison\<close>

lemma xor_zero: "a XOR b = 0 \<longleftrightarrow> a = b" for a b :: u8
proof
  assume "a XOR b = 0"
  then have "a XOR (a XOR b) = a" by simp
  then show "a = b" by (simp flip: xor.assoc)
qed simp

lemma memcmp_fold:
  "fold (\<lambda>i x. x OR ((a ! i) XOR (b ! i))) is x = 0 \<longleftrightarrow> x = 0 \<and> (\<forall>i \<in> set is. a ! i = (b ! i :: u8))"
proof (induction "is" arbitrary: x)
  case Nil
  then show ?case by simp
next
  case (Cons i "is")
  have "x OR (a ! i XOR b ! i) = 0 \<longleftrightarrow> x = 0 \<and> a ! i = b ! i"
    by (simp add: or_eq_0_iff xor_zero)
  then show ?case by (auto simp: Cons)
qed

lemma CRYPTO_memcmp_0:
  "len \<le> length a \<Longrightarrow> len \<le> length b \<Longrightarrow> CRYPTO_memcmp a b len = 0 \<longleftrightarrow> take len a = take len b"
  by (auto simp: CRYPTO_memcmp_def memcmp_fold list_eq_iff_nth_eq)

section \<open>Properties\<close>

text \<open>C17: The element parser is exact: \<open>CBS_get_any_asn1_element\<close> succeeds if and only if the input starts
  with the distinguished encoding of an element, with the shortest tag and the shortest length,
  and it returns that element, its tag and the size of its header.\<close>

theorem asn1_element_exact:
  "CBS_get_any_asn1_element cbs = (Some (out, tag, h), rest) \<longleftrightarrow>
     (\<exists>body. length body < 2 ^ 32 \<and> out = der_element tag body \<and> cbs = out @ rest \<and>
        h = length (der_header tag (length body)))"
  by (rule CBS_get_any_asn1_element_Some)

text \<open>The constant-time comparison, which or-s the differences of all bytes together, returns 0 exactly
  when the byte strings are equal.\<close>

theorem memcmp_equal:
  assumes "len \<le> length data"
  shows "CBS_mem_equal cbs data len \<longleftrightarrow> cbs = take len data"
proof (cases "len = length cbs")
  case True
  then show ?thesis using assms CRYPTO_memcmp_0 [of len cbs data] by (simp add: CBS_mem_equal_def)
next
  case False
  then show ?thesis using assms by (auto simp: CBS_mem_equal_def)
qed

theorem memcmp_equal_witness:
  "CBS_mem_equal [1, 2] [1, 2, 3] 2 \<and> \<not> CBS_mem_equal [1, 130] [1, 2, 3] 2"
  using memcmp_equal [of 2 "[1, 2, 3]" "[1, 2]"] memcmp_equal [of 2 "[1, 2, 3]" "[1, 130]"] by simp

end
