(* ===== verification/CbbSpec.thy ===== *)
theory CbbSpec imports Cbb Der begin

text \<open>
  What the byte-string builder writes. \<open>adds d bs f\<close> says that the operation \<open>f\<close> on the handle
  \<open>d\<close> succeeds, appends exactly the bytes \<open>bs\<close> and leaves no child open, on every builder that is
  not in the error state and has room for them; the lemmas compose it along the operations of
  \<open>cbb.c\<close>, nested children with their length prefixes included.
\<close>

section \<open>What an operation appends\<close>

definition cbb_room :: "cbb \<Rightarrow> nat \<Rightarrow> bool" where
  "cbb_room c n \<longleftrightarrow>
     length (c_data c) \<le> c_cap c \<and> c_cap c < size_mod \<and> length (c_data c) + n < size_mod \<and>
     c_alloc c = (\<lambda>_. True) \<and> (length (c_data c) + n \<le> c_cap c \<or> c_resize c)"

definition cbb_ready :: "nat \<Rightarrow> cbb \<Rightarrow> nat \<Rightarrow> bool" where
  "cbb_ready d c n \<longleftrightarrow> c_open c \<and> \<not> c_error c \<and> length (c_kids c) = d \<and> cbb_room c n"

definition appended :: "cbb \<Rightarrow> u8 list \<Rightarrow> nat \<Rightarrow> cbb" where
  "appended c bs cap = c\<lparr>c_data := c_data c @ bs, c_cap := cap\<rparr>"

definition cap_ok :: "cbb \<Rightarrow> nat \<Rightarrow> nat \<Rightarrow> bool" where
  "cap_ok c n cap \<longleftrightarrow> c_cap c \<le> cap \<and> length (c_data c) + n \<le> cap \<and> cap < size_mod"

definition adds :: "nat \<Rightarrow> u8 list \<Rightarrow> (cbb \<Rightarrow> bool \<times> cbb) \<Rightarrow> bool" where
  "adds d bs f \<longleftrightarrow> (\<forall>c. cbb_ready d c (length bs) \<longrightarrow>
     (\<exists>cap. cap_ok c (length bs) cap \<and> f c = (True, appended c bs cap)))"

lemma adds_intro:
  "(\<And>c. cbb_ready d c (length bs) \<Longrightarrow> \<exists>cap. cap_ok c (length bs) cap \<and> f c = (True, appended c bs cap)) \<Longrightarrow>
   adds d bs f"
  by (simp add: adds_def)

lemma adds_run:
  assumes "adds d bs f" and "cbb_ready d c (length bs)"
  obtains cap where "cap_ok c (length bs) cap" and "f c = (True, appended c bs cap)"
  using assms by (auto simp: adds_def)

lemma appended_simps [simp]:
  "c_data (appended c bs cap) = c_data c @ bs" "c_cap (appended c bs cap) = cap"
  "c_open (appended c bs cap) = c_open c" "c_error (appended c bs cap) = c_error c"
  "c_kids (appended c bs cap) = c_kids c" "c_resize (appended c bs cap) = c_resize c"
  "c_alloc (appended c bs cap) = c_alloc c"
  by (simp_all add: appended_def)

lemma appended_appended [simp]: "appended (appended c xs cap) ys cap' = appended c (xs @ ys) cap'"
  by (simp add: appended_def)

lemma ready_appended:
  "cbb_ready d c (length xs + n) \<Longrightarrow> cap_ok c (length xs) cap \<Longrightarrow> cbb_ready d (appended c xs cap) n"
  by (auto simp: cbb_ready_def cbb_room_def cap_ok_def)

lemma ready_less: "cbb_ready d c (m + n) \<Longrightarrow> cbb_ready d c m"
  by (auto simp: cbb_ready_def cbb_room_def)

lemma adds_ret: "adds d [] (\<lambda>c. (True, c))"
  by (rule adds_intro) (auto simp: cbb_ready_def cbb_room_def cap_ok_def appended_def intro!: exI [of _ "c_cap _"])

lemma adds_chk:
  assumes f: "adds d xs f" and g: "adds d ys g"
  shows "adds d (xs @ ys) (\<lambda>c. chk (f c) g)"
proof (rule adds_intro)
  fix c assume r: "cbb_ready d c (length (xs @ ys))"
  then have r1: "cbb_ready d c (length xs)" using ready_less [of d c "length xs" "length ys"] by simp
  from adds_run [OF f this] obtain cap where cap: "cap_ok c (length xs) cap" and fc: "f c = (True, appended c xs cap)" .
  have "cbb_ready d (appended c xs cap) (length ys)" by (rule ready_appended [OF _ cap]) (use r in simp)
  from adds_run [OF g this] obtain cap' where "cap_ok (appended c xs cap) (length ys) cap'"
    and "g (appended c xs cap) = (True, appended c (xs @ ys) cap')" by auto
  then show "\<exists>cap. cap_ok c (length (xs @ ys)) cap \<and> chk (f c) g = (True, appended c (xs @ ys) cap)"
    using cap by (auto simp: fc cap_ok_def intro!: exI [of _ cap'])
qed

lemma adds_cong: "adds d bs f \<Longrightarrow> bs = bs' \<Longrightarrow> (\<And>c. f c = f' c) \<Longrightarrow> adds d bs' f'"
  by (simp add: adds_def)

text \<open>A flush of a handle without children does nothing.\<close>

lemma flush_ready: "cbb_ready d c n \<Longrightarrow> CBB_flush d c = (True, c)"
  by (subst CBB_flush.simps) (simp add: cbb_ready_def)

lemma adds_flush_first: "adds d bs f \<Longrightarrow> adds d bs (\<lambda>c. chk (CBB_flush d c) f)"
  by (auto simp: adds_def flush_ready)

lemma reserve_ready:
  assumes "cbb_ready d c n"
  obtains cap where "cap_ok c n cap" and "cbb_buffer_reserve n c = (True, c\<lparr>c_cap := cap\<rparr>)"
proof -
  have m: "(length (c_data c) + n) mod size_mod = length (c_data c) + n"
    using assms by (simp add: cbb_ready_def cbb_room_def)
  show ?thesis
  proof (cases "length (c_data c) + n > c_cap c")
    case False
    then show ?thesis using assms m that [of "c_cap c"]
      by (auto simp: cbb_buffer_reserve_def cbb_ready_def cbb_room_def cap_ok_def Let_def)
  next
    case True
    define cap where "cap = (let k = c_cap c * 2 mod size_mod in
        if k < c_cap c \<or> k < length (c_data c) + n then length (c_data c) + n else k)"
    have "cap_ok c n cap" using assms True
      by (auto simp: cap_ok_def cap_def Let_def cbb_ready_def cbb_room_def)
    moreover have "cbb_buffer_reserve n c = (True, c\<lparr>c_cap := cap\<rparr>)" using assms True m
      by (auto simp: cbb_buffer_reserve_def cap_def Let_def cbb_ready_def cbb_room_def)
    ultimately show ?thesis by (rule that)
  qed
qed

lemma adds_buffer: "adds d bs (cbb_buffer_add bs)"
proof (rule adds_intro)
  fix c assume "cbb_ready d c (length bs)"
  from reserve_ready [OF this] obtain cap where "cap_ok c (length bs) cap"
    and "cbb_buffer_reserve (length bs) c = (True, c\<lparr>c_cap := cap\<rparr>)" .
  then show "\<exists>cap. cap_ok c (length bs) cap \<and> cbb_buffer_add bs c = (True, appended c bs cap)"
    by (auto simp: cbb_buffer_add_def appended_def)
qed

lemma be_loop_spec: "be_loop n v buf = (be_bytes n (unat v) @ buf, drop_bit (8 * n) v)"
proof (induction n arbitrary: v buf)
  case 0
  then show ?case by simp
next
  case (Suc n)
  have "(ucast v :: u8) = word_of_nat (unat v)" by simp
  moreover have "unat (drop_bit 8 v) = unat v div 256" unfolding unat_drop_bit by simp
  ultimately show ?case using Suc [of "drop_bit 8 v"] by (simp add: be_bytes_Suc ac_simps)
qed

lemma adds_u:
  assumes "0 < n" "n \<le> 4" and "unat v < 256 ^ n"
  shows "adds d (be_bytes n (unat v)) (cbb_buffer_add_u v n)"
proof -
  have "unat (drop_bit (8 * n) v) = 0"
    unfolding unat_drop_bit using assms(3) by (simp add: power_mult)
  then have z: "drop_bit (8 * n) v = 0" by (simp add: unat_eq_0)
  have "chk r (Pair True) = r" for r :: "bool \<times> cbb" by (cases r) (simp add: chk_def)
  then show ?thesis
    using assms(1) by (intro adds_cong [OF adds_buffer refl]) (simp add: cbb_buffer_add_u_def be_loop_spec z)
qed

lemma adds_u8: "adds d [v] (CBB_add_u8 v d)"
proof -
  have "adds d (be_bytes 1 (unat (ucast v :: u32))) (cbb_buffer_add_u (ucast v) 1)"
    by (rule adds_u) (simp_all add: unat_byte_u32)
  moreover have "be_bytes 1 (unat (ucast v :: u32)) = [v]"
    unfolding unat_byte_u32 by (simp add: be_bytes_def)
  ultimately show ?thesis
    using adds_flush_first unfolding CBB_add_u8_def by fastforce
qed

lemma adds_u16: "adds d (be_bytes 2 (unat v)) (CBB_add_u16 v d)"
proof -
  have u: "unat (ucast v :: u32) = unat v"
    unfolding unat_ucast_mod by (rule mod_less, rule less_trans [OF unat_u16_lt]) simp
  have "adds d (be_bytes 2 (unat (ucast v :: u32))) (cbb_buffer_add_u (ucast v) 2)"
    by (rule adds_u) (use unat_u16_lt [of v] in \<open>simp_all add: u\<close>)
  then show ?thesis unfolding u CBB_add_u16_def by (rule adds_flush_first)
qed

lemma adds_u24: "unat v < 2 ^ 24 \<Longrightarrow> adds d (be_bytes 3 (unat v)) (CBB_add_u24 v d)"
  unfolding CBB_add_u24_def by (intro adds_flush_first adds_u) simp_all

lemma adds_u32: "adds d (be_bytes 4 (unat v)) (CBB_add_u32 v d)"
  unfolding CBB_add_u32_def using unat_u32_lt [of v] by (intro adds_flush_first adds_u) simp_all

lemma adds_bytes: "adds d bs (CBB_add_bytes bs d)"
  unfolding CBB_add_bytes_def by (rule adds_flush_first [OF adds_buffer])

section \<open>Base-128 integers\<close>

lemma count7_groups: "unat v < 128 ^ n \<Longrightarrow> count7 n v = length (base128_hi (unat v))"
proof (induction n arbitrary: v)
  case 0
  then show ?case by simp
next
  case (Suc n)
  have d: "unat (drop_bit 7 v) = unat v div 128" unfolding unat_drop_bit by simp
  have "count7 n (drop_bit 7 v) = length (base128_hi (unat v div 128))"
    unfolding d [symmetric] by (rule Suc.IH) (use Suc.prems in \<open>simp add: d div_less_iff_less_mult\<close>)
  then show ?case by (cases "v = 0") (simp_all add: base128_hi_step word_gt_0 unat_eq_0)
qed

text \<open>The bytes of the groups \<open>i - 1\<close> down to 0.\<close>

primrec groups :: "nat \<Rightarrow> nat \<Rightarrow> u8 list" where
  "groups 0 n = []"
| "groups (Suc i) n =
     word_of_nat (n div 128 ^ i mod 128 + (if i = 0 then 0 else 128)) # groups i n"

lemma group_byte:
  "(let byte = ucast (drop_bit (7 * i) v) AND 0x7F :: u8 in if i \<noteq> 0 then byte OR 0x80 else byte)
   = word_of_nat (unat v div 128 ^ i mod 128 + (if i = 0 then 0 else 128))" for v :: u64
proof -
  let ?b = "ucast (drop_bit (7 * i) v) AND 0x7F :: u8"
  have u: "unat ?b = unat v div 128 ^ i mod 128"
    unfolding word_low7 unat_ucast_mod unat_drop_bit by (simp add: power_mult mod_mod_cancel)
  have "unat (?b OR 0x80) = unat ?b + 128"
    using nat_or_push [of "unat ?b" 7 1] unfolding unat_or u by (simp add: push_bit_eq_mult)
  then have w: "?b OR 0x80 = word_of_nat (unat ?b + 128)" by (rule word_of_unat)
  have w0: "?b = word_of_nat (unat ?b)" by (rule word_of_unat) simp
  show ?thesis using w w0 unfolding u by (auto simp: Let_def)
qed

lemma adds_groups: "adds d (groups i (unat v)) (base128_bytes i v d)"
proof (induction i)
  case 0
  then show ?case using adds_ret by (simp add: eta_contract_eq)
next
  case (Suc i)
  let ?byte = "let byte = ucast (drop_bit (7 * i) v) AND 0x7F :: u8 in if i \<noteq> 0 then byte OR 0x80 else byte"
  have e: "[?byte] @ groups i (unat v) = groups (Suc i) (unat v)"
    unfolding group_byte by (simp only: groups.simps append.simps)
  show ?case
    by (rule adds_cong [OF adds_chk [OF adds_u8 Suc] e]) (simp only: base128_bytes.simps Let_def)
qed

lemma rev_upt_Suc: "rev [0..<Suc k] = map Suc (rev [0..<k]) @ [0]"
proof -
  have "[0..<Suc k] = 0 # map Suc [0..<k]" by (simp add: map_Suc_upt upt_conv_Cons del: upt_Suc)
  then show ?thesis by (simp add: rev_map del: upt_Suc)
qed

lemma groups_map:
  "groups i n = map (\<lambda>j. word_of_nat (n div 128 ^ j mod 128 + (if j = 0 then 0 else 128))) (rev [0..<i])"
  by (induction i) simp_all

lemma base128_hi_map:
  "base128_hi n = map (\<lambda>j. word_of_nat (n div 128 ^ j mod 128 + 128)) (rev [0..<length (base128_hi n)])"
proof (induction n rule: base128_hi.induct)
  case (1 n)
  show ?case
  proof (cases "n = 0")
    case True
    then show ?thesis by simp
  next
    case False
    let ?k = "length (base128_hi (n div 128))"
    have "length (base128_hi n) = Suc ?k" by (simp add: base128_hi_step [OF False])
    moreover have "base128_hi (n div 128) = map (\<lambda>j. word_of_nat (n div 128 ^ Suc j mod 128 + 128)) (rev [0..<?k])"
      by (subst "1.IH" [OF False]) (simp add: div_mult2_eq)
    ultimately show ?thesis
      unfolding base128_hi_step [OF False] by (simp only: rev_upt_Suc map_append map_map o_def) simp
  qed
qed

lemma groups_base128:
  assumes "n \<noteq> 0"
  shows "groups (length (base128_hi n)) n = base128_of n"
proof -
  let ?k = "length (base128_hi (n div 128))"
  have "length (base128_hi n) = Suc ?k" by (simp add: base128_hi_step [OF assms])
  moreover have "base128_hi (n div 128) = map (\<lambda>j. word_of_nat (n div 128 ^ Suc j mod 128 + 128)) (rev [0..<?k])"
    by (subst base128_hi_map) (simp add: div_mult2_eq)
  ultimately show ?thesis
    unfolding groups_map base128_of_def by (simp only: rev_upt_Suc map_append map_map o_def) simp
qed

lemma adds_base128: "adds d (base128_of (unat v)) (add_base128_integer v d)"
proof -
  have "unat v < 128 ^ 10" by (rule less_trans [OF unat_u64_lt]) simp
  then have c: "count7 10 v = length (base128_hi (unat v))" by (rule count7_groups)
  show ?thesis
  proof (cases "v = 0")
    case True
    have "adds d (groups 1 (unat v)) (base128_bytes 1 v d)" by (rule adds_groups)
    moreover have "count7 10 (0 :: u64) = 0" using c True by simp
    ultimately show ?thesis using True
      by (elim adds_cong) (simp_all add: base128_of_def add_base128_integer_def Let_def)
  next
    case False
    then have nz: "unat v \<noteq> 0" by (simp add: unat_eq_0)
    have ne: "base128_hi (unat v) \<noteq> []" unfolding base128_hi_step [OF nz] by simp
    have "adds d (groups (length (base128_hi (unat v))) (unat v))
        (base128_bytes (length (base128_hi (unat v))) v d)" by (rule adds_groups)
    then show ?thesis
      by (rule adds_cong) (use nz c ne in \<open>simp_all add: groups_base128 add_base128_integer_def\<close>)
  qed
qed

section \<open>Flushing a child\<close>

lemma write_len_spec:
  "pos + n \<le> length data \<Longrightarrow> write_len n pos len data = (splice data pos (be_bytes n len), len div 256 ^ n)"
proof (induction n arbitrary: len data)
  case 0
  then show ?case by simp
next
  case (Suc n)
  have "splice (data[pos + n := x]) pos bs = splice data pos (bs @ [x])" if "length bs = n" for x bs
    using Suc.prems that by (simp add: splice_def drop_update_swap drop_update_cancel Cons_nth_drop_Suc
        upd_conv_take_nth_drop)
  then show ?case using Suc.IH [of "data[pos + n := word_of_nat len]" "len div 256"] Suc.prems
    by (simp add: be_bytes_Suc div_mult2_eq)
qed

definition with_child :: "cbb \<Rightarrow> u8 list \<Rightarrow> nat \<Rightarrow> cbb_child \<Rightarrow> cbb" where
  "with_child c bs cap k = c\<lparr>c_data := c_data c @ bs, c_cap := cap, c_kids := c_kids c @ [k]\<rparr>"

lemma with_child_simps [simp]:
  "c_data (with_child c bs cap k) = c_data c @ bs" "c_cap (with_child c bs cap k) = cap"
  "c_open (with_child c bs cap k) = c_open c" "c_error (with_child c bs cap k) = c_error c"
  "c_kids (with_child c bs cap k) = c_kids c @ [k]" "c_resize (with_child c bs cap k) = c_resize c"
  "c_alloc (with_child c bs cap k) = c_alloc c"
  by (simp_all add: with_child_def)

lemma flush_child:
  assumes "c_open c" "\<not> c_error c" "c_kids c = ks @ [k]" "length ks = d"
    and "k_len_len k \<noteq> 0" "k_offset k + k_len_len k < size_mod" "k_offset k + k_len_len k \<le> length (c_data c)"
  shows "CBB_flush d c = flush_prefix d k (k_offset k + k_len_len k) c"
proof -
  have "CBB_flush (Suc d) c = (True, c)" using assms(1-4) by (subst CBB_flush.simps) simp
  moreover have "c_kids c ! d = k" using assms(3,4) by (simp add: nth_append)
  ultimately show ?thesis using assms by (subst CBB_flush.simps) (simp add: Let_def)
qed

text \<open>A fixed-width prefix, in a buffer that ends with the body of the child.\<close>

lemma flush_fixed:
  assumes "c_data c = D @ replicate n 0 @ body" and "c_kids c = ks @ [k]" "length ks = d"
    and "k = \<lparr>k_offset = length D, k_len_len = n, k_asn1 = False\<rparr>"
  shows "flush_prefix d k (length D + n) c =
    (if length body < 256 ^ n then (True, c\<lparr>c_data := D @ be_bytes n (length body) @ body, c_kids := ks\<rparr>)
     else cbb_err (c\<lparr>c_data := D @ be_bytes n (length body) @ body\<rparr>))"
proof -
  have "splice (D @ replicate n 0 @ body) (length D) (be_bytes n (length body)) = D @ be_bytes n (length body) @ body"
    by (simp add: splice_def)
  moreover have "length body div 256 ^ n = 0 \<longleftrightarrow> length body < 256 ^ n" by (simp add: div_eq_0_iff)
  ultimately show ?thesis
    using assms by (auto simp: flush_prefix_def Let_def write_len_spec)
qed

text \<open>The prefix of an ASN.1 element; the body moves when its length needs more than one byte.\<close>

lemma asn1_len_form_Some:
  assumes "n \<le> 0xFFFFFFFE"
  obtains b where "asn1_len_form n = Some (length (der_len n), b)" and
    "der_len n = b # (if n < 128 then [] else be_bytes (len_size n) n)"
proof -
  have w: "(0x80 :: u8) OR 1 = 0x81" "(0x80 :: u8) OR 2 = 0x82" "(0x80 :: u8) OR 3 = 0x83" "(0x80 :: u8) OR 4 = 0x84"
    by code_simp+
  show ?thesis
    by (rule that [of "hd (der_len n)"])
      (use assms in \<open>auto simp: asn1_len_form_def der_len_def len_size_def w\<close>)
qed

lemma flush_asn1:
  assumes data: "c_data c = P @ [0] @ body" and kids: "c_kids c = ks @ [k]" "length ks = d"
    and k: "k = \<lparr>k_offset = length P, k_len_len = 1, k_asn1 = True\<rparr>"
    and len: "length body \<le> 0xFFFFFFFE"
    and ready: "cbb_ready (Suc d) c (length (der_len (length body)) - 1)"
  obtains cap where "cap_ok c (length (der_len (length body)) - 1) cap"
    and "flush_prefix d k (length P + 1) c =
      (True, c\<lparr>c_data := P @ der_len (length body) @ body, c_cap := cap, c_kids := ks\<rparr>)"
proof -
  obtain b where form: "asn1_len_form (length body) = Some (length (der_len (length body)), b)"
    and der: "der_len (length body) = b # (if length body < 128 then [] else be_bytes (len_size (length body)) (length body))"
    using asn1_len_form_Some [OF len] .
  have flen: "length (c_data c) - (length P + 1) = length body" by (simp add: data)
  show ?thesis
  proof (cases "length body < 128")
    case True
    then have "flush_prefix d k (length P + 1) c = (True, c\<lparr>c_data := P @ der_len (length body) @ body, c_cap := c_cap c, c_kids := ks\<rparr>)"
      using der form kids unfolding flush_prefix_def Let_def flen
      by (simp add: k data)
    moreover have "cap_ok c (length (der_len (length body)) - 1) (c_cap c)"
      using ready der True by (simp add: cap_ok_def cbb_ready_def cbb_room_def)
    ultimately show ?thesis by (rule that [rotated])
  next
    case False
    define e where "e = len_size (length body)"
    have e: "1 \<le> e" unfolding e_def by (rule len_size_range)
    have dl: "der_len (length body) = b # be_bytes e (length body)" using der False by (simp add: e_def)
    have l: "length body < 256 ^ e" unfolding e_def using len False by (intro len_size_bounds) simp_all
    from adds_run [OF adds_buffer [of "Suc d" "replicate e 0"], of c] ready
    obtain cap where cap: "cap_ok c e cap" and add: "cbb_buffer_add (replicate e 0) c = (True, appended c (replicate e 0) cap)"
      by (auto simp: dl)
    have mv: "splice (c_data c @ replicate e 0) (length P + 1 + e) (take (length body) (drop (length P + 1) (c_data c @ replicate e 0)))
        = P @ 0 # take e (body @ replicate e 0) @ body"
      by (simp add: splice_def data)
    have upd: "(P @ 0 # take e (body @ replicate e 0) @ body)[length P := b]
        = P @ b # take e (body @ replicate e 0) @ body"
      by simp
    have wl: "write_len e (Suc (length P)) (length body) (P @ b # take e (body @ replicate e 0) @ body)
        = (P @ b # be_bytes e (length body) @ body, 0)"
      using l by (simp add: write_len_spec splice_def min_def div_eq_0_iff)
    have "flush_prefix d k (length P + 1) c =
      (True, c\<lparr>c_data := P @ der_len (length body) @ body, c_cap := cap, c_kids := ks\<rparr>)"
      unfolding flush_prefix_def Let_def flen using form e kids add mv upd wl
      by (simp add: k dl)  
    then show ?thesis using cap by (intro that) (simp add: dl)
  qed
qed

section \<open>Nested children\<close>

lemma tag_bits:
  fixes tag :: u32
  defines "h \<equiv> unat tag div 2 ^ 29" and "bits \<equiv> ucast (drop_bit 24 tag) AND 0xE0 :: u8"
  shows "n < 32 \<Longrightarrow> bits OR word_of_nat n = word_of_nat (h * 32 + n)"
proof -
  have e: "(224::nat) = push_bit 5 (mask 3)" by (simp add: mask_eq_exp_minus_1 push_bit_eq_mult)
  have h: "h < 8" unfolding h_def using unat_u32_lt [of tag] by (simp add: div_less_iff_less_mult)
  have "unat (drop_bit 24 tag) = unat tag div 2 ^ 24" by (rule unat_drop_bit)
  moreover have "unat tag div 2 ^ 24 < 256" using unat_u32_lt [of tag] by (simp add: div_less_iff_less_mult)
  ultimately have u: "unat (ucast (drop_bit 24 tag) :: u8) = unat tag div 2 ^ 24"
    unfolding unat_ucast_mod by simp
  have "unat tag div 2 ^ 24 div 2 ^ 5 = h" by (simp add: h_def flip: div_mult2_eq)
  moreover have "unat bits = unat tag div 2 ^ 24 AND 224" unfolding bits_def unat_and u by simp
  ultimately have "unat bits = h * 32"
    using h unfolding e nat_and_field by simp
  then have b: "unat bits = push_bit 5 h" by (simp add: push_bit_eq_mult)
  assume n: "n < 32"
  then have un: "unat (word_of_nat n :: u8) = n" by (intro unat_of_nat_lt) simp
  have "unat (bits OR word_of_nat n) = h * 32 + n"
    using nat_or_push [of n 5 h] n unfolding unat_or b un by (simp add: or.commute add.commute)
  then show ?thesis by (rule word_of_unat)
qed

lemma tag_number:
  "unat (tag AND CBS_ASN1_TAG_NUMBER_MASK) = unat tag mod 2 ^ 29"
proof -
  have m: "(CBS_ASN1_TAG_NUMBER_MASK :: u32) = mask 29" by (simp add: mask_eq_exp_minus_1)
  show ?thesis unfolding m by (rule unat_and_mask)
qed

lemma adds_tag:
  "adds d (der_tag tag)
     (if tag AND CBS_ASN1_TAG_NUMBER_MASK \<ge> 0x1F
      then \<lambda>c. chk (CBB_add_u8 ((ucast (drop_bit 24 tag) AND 0xE0) OR 0x1F) d c)
                  (add_base128_integer (ucast (tag AND CBS_ASN1_TAG_NUMBER_MASK)) d)
      else CBB_add_u8 ((ucast (drop_bit 24 tag) AND 0xE0) OR ucast (tag AND CBS_ASN1_TAG_NUMBER_MASK)) d)"
proof -
  let ?num = "tag AND CBS_ASN1_TAG_NUMBER_MASK" and ?h = "unat tag div 2 ^ 29" and ?n = "unat tag mod 2 ^ 29"
  have n: "?n < 2 ^ 29" by simp
  have ge: "?num \<ge> 0x1F \<longleftrightarrow> \<not> ?n < 31" unfolding word_le_nat_alt tag_number by auto
  note t = der_tag_field [of tag ?h ?n, OF _ n]
  show ?thesis
  proof (cases "?n < 31")
    case True
    have "(ucast ?num :: u8) = word_of_nat (unat ?num)" by simp
    also have "unat ?num = ?n" by (rule tag_number)
    finally have "(ucast (drop_bit 24 tag) AND 0xE0 :: u8) OR ucast ?num = word_of_nat (?h * 32 + ?n)"
      using tag_bits [of ?n tag] True by simp
    then show ?thesis using adds_u8 t ge True by simp
  next
    case False
    have b: "(ucast (drop_bit 24 tag) AND 0xE0 :: u8) OR 0x1F = word_of_nat (?h * 32 + 31)"
      using tag_bits [of 31 tag] by simp
    have "unat (ucast ?num :: u64) = ?n"
      unfolding unat_ucast_mod tag_number using n by simp
    then have "adds d (base128_of ?n) (add_base128_integer (ucast ?num) d)"
      using adds_base128 [of d "ucast ?num"] by simp
    from adds_chk [OF adds_u8 this, of "word_of_nat (?h * 32 + 31)"] show ?thesis
      using t ge False b by simp
  qed
qed

text \<open>Opening a child: the placeholder of the prefix is appended and the child is recorded.\<close>

definition asn1_child :: "nat \<Rightarrow> cbb_child" where
  "asn1_child offset = \<lparr>k_offset = offset, k_len_len = 1, k_asn1 = True\<rparr>"

definition fixed_child :: "nat \<Rightarrow> nat \<Rightarrow> cbb_child" where
  "fixed_child n offset = \<lparr>k_offset = offset, k_len_len = n, k_asn1 = False\<rparr>"

lemma add_asn1_opens:
  assumes "cbb_ready d c (length (der_tag tag) + 1)"
  obtains cap where "cap_ok c (length (der_tag tag) + 1) cap"
    and "CBB_add_asn1 tag d c =
      (True, with_child c (der_tag tag @ [0]) cap (asn1_child (length (c_data c) + length (der_tag tag))))"
proof -
  let ?tag = "if tag AND CBS_ASN1_TAG_NUMBER_MASK \<ge> 0x1F
      then \<lambda>c. chk (CBB_add_u8 ((ucast (drop_bit 24 tag) AND 0xE0) OR 0x1F) d c)
                  (add_base128_integer (ucast (tag AND CBS_ASN1_TAG_NUMBER_MASK)) d)
      else CBB_add_u8 ((ucast (drop_bit 24 tag) AND 0xE0) OR ucast (tag AND CBS_ASN1_TAG_NUMBER_MASK)) d"
  from adds_run [OF adds_tag [of d tag] ready_less [OF assms]]
  obtain cap where cap: "cap_ok c (length (der_tag tag)) cap" and t: "?tag c = (True, appended c (der_tag tag) cap)" .
  from adds_run [OF adds_u8 [of d 0], of "appended c (der_tag tag) cap"] ready_appended [OF assms cap]
  obtain cap' where cap': "cap_ok (appended c (der_tag tag) cap) 1 cap'"
    and z: "CBB_add_u8 0 d (appended c (der_tag tag) cap) = (True, appended c (der_tag tag @ [0]) cap')"
    by auto
  have kids: "take d (c_kids c) = c_kids c" using assms by (simp add: cbb_ready_def)
  have "CBB_add_asn1 tag d c =
      (True, with_child c (der_tag tag @ [0]) cap' (asn1_child (length (c_data c) + length (der_tag tag))))"
    using t z flush_ready [OF assms] kids
    by (simp add: CBB_add_asn1_def Let_def if_distrib [of "\<lambda>f. f c"] with_child_def asn1_child_def appended_def
        cong: if_cong)
  then show ?thesis using cap cap' by (intro that) (simp_all add: cap_ok_def)
qed

lemma add_fixed_opens:
  assumes "cbb_ready d c n"
  obtains cap where "cap_ok c n cap"
    and "cbb_add_length_prefixed n d c =
      (True, with_child c (replicate n 0) cap (fixed_child n (length (c_data c))))"
proof -
  from adds_run [OF adds_buffer [of d "replicate n 0"], of c] assms
  obtain cap where cap: "cap_ok c n cap" and a: "cbb_buffer_add (replicate n 0) c = (True, appended c (replicate n 0) cap)"
    by auto
  have kids: "take d (c_kids c) = c_kids c" using assms by (simp add: cbb_ready_def)
  have "cbb_add_length_prefixed n d c = (True, with_child c (replicate n 0) cap (fixed_child n (length (c_data c))))"
    using a flush_ready [OF assms] kids
    by (simp add: cbb_add_length_prefixed_def Let_def with_child_def fixed_child_def appended_def)
  then show ?thesis using cap by (intro that) 
qed

lemma ready_with_child:
  "cbb_ready d c (length bs + n) \<Longrightarrow> cap_ok c (length bs) cap \<Longrightarrow> cbb_ready (Suc d) (with_child c bs cap k) n"
  by (auto simp: cbb_ready_def cbb_room_def cap_ok_def)

text \<open>An ASN.1 element whose body an operation on the child writes; the operation may rely on the
  child being empty.\<close>

definition adds_fresh :: "nat \<Rightarrow> u8 list \<Rightarrow> (cbb \<Rightarrow> bool \<times> cbb) \<Rightarrow> bool" where
  "adds_fresh d bs f \<longleftrightarrow> (\<forall>c. cbb_ready d c (length bs) \<and> cbb_start d c = length (c_data c) \<longrightarrow>
     (\<exists>cap. cap_ok c (length bs) cap \<and> f c = (True, appended c bs cap)))"

lemma adds_asn1_fresh:
  assumes f: "adds_fresh (Suc d) body f" and len: "length body \<le> 0xFFFFFFFE"
  shows "adds d (der_element tag body) (\<lambda>c. chk (CBB_add_asn1 tag d c) (\<lambda>c. chk (f c) (CBB_flush d)))"
proof (rule adds_intro)
  fix c assume r: "cbb_ready d c (length (der_element tag body))"
  let ?t = "der_tag tag" and ?l = "der_len (length body)"
  have l1: "1 \<le> length ?l" by (simp add: length_der_len)
  have e: "length (?t @ [0]) + (length body + (length ?l - 1)) = length (der_element tag body)"
    using l1 by (simp add: der_element_def der_header_def)
  have r': "cbb_ready d c (length (?t @ [0]) + (length body + (length ?l - 1)))"
    unfolding e by (rule r)
  from r' ready_less [OF r'] obtain cap where cap: "cap_ok c (length (?t @ [0])) cap"
    and o: "CBB_add_asn1 tag d c =
      (True, with_child c (?t @ [0]) cap (asn1_child (length (c_data c) + length ?t)))"
    using add_asn1_opens [of d c tag] by auto
  let ?k = "asn1_child (length (c_data c) + length ?t)"
  let ?c1 = "with_child c (?t @ [0]) cap ?k"
  from ready_with_child [OF r' cap] have r1: "cbb_ready (Suc d) ?c1 (length body + (length ?l - 1))" .
  have "cbb_start (Suc d) ?c1 = length (c_data ?c1)"
    using r by (simp add: cbb_start_def asn1_child_def cbb_ready_def nth_append)
  with f ready_less [OF r1] obtain cap1 where cap1: "cap_ok ?c1 (length body) cap1"
    and fc: "f ?c1 = (True, appended ?c1 body cap1)" unfolding adds_fresh_def by blast
  let ?c2 = "appended ?c1 body cap1"
  have r2: "cbb_ready (Suc d) ?c2 (length ?l - 1)" by (rule ready_appended [OF r1 cap1])
  have kids: "c_kids ?c2 = c_kids c @ [?k]" "length (c_kids c) = d" using r by (simp_all add: cbb_ready_def)
  have data: "c_data ?c2 = (c_data c @ ?t) @ [0] @ body" by simp
  have k: "?k = \<lparr>k_offset = length (c_data c @ ?t), k_len_len = 1, k_asn1 = True\<rparr>" by (simp add: asn1_child_def)
  from flush_asn1 [OF data kids k len r2] obtain cap2 where cap2: "cap_ok ?c2 (length ?l - 1) cap2"
    and fl: "flush_prefix d ?k (length (c_data c @ ?t) + 1) ?c2 =
      (True, ?c2\<lparr>c_data := (c_data c @ ?t) @ ?l @ body, c_cap := cap2, c_kids := c_kids c\<rparr>)" .
  have "length (c_data c) + length ?t + 1 < size_mod" using r1 by (simp add: cbb_ready_def cbb_room_def)
  then have "CBB_flush d ?c2 = flush_prefix d ?k (length (c_data c @ ?t) + 1) ?c2"
    using flush_child [OF _ _ kids(1,2)] r by (simp add: asn1_child_def cbb_ready_def)
  also note fl
  also have "?c2\<lparr>c_data := (c_data c @ ?t) @ ?l @ body, c_cap := cap2, c_kids := c_kids c\<rparr>
      = appended c (der_element tag body) cap2"
    by (simp add: appended_def with_child_def der_element_def der_header_def)
  finally have "chk (CBB_add_asn1 tag d c) (\<lambda>c. chk (f c) (CBB_flush d)) = (True, appended c (der_element tag body) cap2)"
    by (simp add: o fc)
  moreover have "cap_ok c (length (der_element tag body)) cap2"
    using cap cap1 cap2 l1 by (simp add: cap_ok_def der_element_def der_header_def, linarith)
  ultimately show "\<exists>cap. cap_ok c (length (der_element tag body)) cap \<and>
      chk (CBB_add_asn1 tag d c) (\<lambda>c. chk (f c) (CBB_flush d)) = (True, appended c (der_element tag body) cap)"
    by blast
qed

lemma adds_imp_fresh: "adds d bs f \<Longrightarrow> adds_fresh d bs f"
  by (simp add: adds_def adds_fresh_def)

lemma adds_asn1:
  "adds (Suc d) body f \<Longrightarrow> length body \<le> 0xFFFFFFFE \<Longrightarrow>
   adds d (der_element tag body) (\<lambda>c. chk (CBB_add_asn1 tag d c) (\<lambda>c. chk (f c) (CBB_flush d)))"
  by (intro adds_asn1_fresh adds_imp_fresh)

text \<open>A child with a prefix of \<open>n\<close> bytes; a body that does not fit makes the flush fail.\<close>

lemma fixed_run:
  assumes f: "adds (Suc d) body f" and n: "0 < n" and r: "cbb_ready d c (n + length body)"
  obtains cap where "cap_ok c (n + length body) cap"
    and "chk (cbb_add_length_prefixed n d c) (\<lambda>c. chk (f c) (CBB_flush d)) =
      (if length body < 256 ^ n then (True, appended c (be_bytes n (length body) @ body) cap)
       else cbb_err (with_child c (be_bytes n (length body) @ body) cap (fixed_child n (length (c_data c)))))"
proof -
  have z: "length (replicate n (0 :: u8)) = n" by simp
  from add_fixed_opens [OF ready_less [OF r]] obtain cap where cap: "cap_ok c n cap"
    and o: "cbb_add_length_prefixed n d c = (True, with_child c (replicate n 0) cap (fixed_child n (length (c_data c))))" .
  let ?k = "fixed_child n (length (c_data c))"
  let ?c1 = "with_child c (replicate n 0) cap ?k"
  have r1: "cbb_ready (Suc d) ?c1 (length body)"
    by (rule ready_with_child) (use r cap in simp_all)
  from adds_run [OF f r1] obtain cap1 where cap1: "cap_ok ?c1 (length body) cap1"
    and fc: "f ?c1 = (True, appended ?c1 body cap1)" .
  let ?c2 = "appended ?c1 body cap1"
  have kids: "c_kids ?c2 = c_kids c @ [?k]" "length (c_kids c) = d" using r by (simp_all add: cbb_ready_def)
  have data: "c_data ?c2 = c_data c @ replicate n 0 @ body" by simp
  have k: "?k = \<lparr>k_offset = length (c_data c), k_len_len = n, k_asn1 = False\<rparr>" by (simp add: fixed_child_def)
  have "length (c_data c) + n < size_mod" using r by (simp add: cbb_ready_def cbb_room_def)
  then have fl: "CBB_flush d ?c2 = flush_prefix d ?k (length (c_data c) + n) ?c2"
    using flush_child [OF _ _ kids(1,2)] r n by (simp add: fixed_child_def cbb_ready_def)
  show ?thesis
  proof (rule that [of cap1])
    show "cap_ok c (n + length body) cap1" using cap cap1 by (simp add: cap_ok_def)
    show "chk (cbb_add_length_prefixed n d c) (\<lambda>c. chk (f c) (CBB_flush d)) =
      (if length body < 256 ^ n then (True, appended c (be_bytes n (length body) @ body) cap1)
       else cbb_err (with_child c (be_bytes n (length body) @ body) cap1 ?k))"
      unfolding o chk_simps fc fl flush_fixed [OF data kids k]
      by (simp add: appended_def with_child_def cbb_err_def)
  qed
qed

lemma adds_fixed:
  assumes f: "adds (Suc d) body f" and n: "0 < n" and len: "length body < 256 ^ n"
  shows "adds d (be_bytes n (length body) @ body)
    (\<lambda>c. chk (cbb_add_length_prefixed n d c) (\<lambda>c. chk (f c) (CBB_flush d)))"
proof (rule adds_intro)
  fix c assume "cbb_ready d c (length (be_bytes n (length body) @ body))"
  then have "cbb_ready d c (n + length body)" by simp
  from fixed_run [OF f n this] len show "\<exists>cap. cap_ok c (length (be_bytes n (length body) @ body)) cap \<and>
      chk (cbb_add_length_prefixed n d c) (\<lambda>c. chk (f c) (CBB_flush d))
        = (True, appended c (be_bytes n (length body) @ body) cap)"
    by (metis (no_types, lifting) length_append length_be_bytes)
qed

text \<open>The values of \<open>asn1\<close> types.\<close>

lemma adds_octet_string:
  "length bs \<le> 0xFFFFFFFE \<Longrightarrow> adds d (der_element CBS_ASN1_OCTETSTRING bs) (CBB_add_asn1_octet_string bs d)"
  unfolding CBB_add_asn1_octet_string_def by (rule adds_asn1 [OF adds_bytes])

lemma adds_bool: "adds d (der_element CBS_ASN1_BOOLEAN (der_bool b)) (CBB_add_asn1_bool b d)"
  unfolding CBB_add_asn1_bool_def der_bool_def by (rule adds_asn1 [OF adds_u8]) simp

section \<open>Unsigned integers\<close>

lemma be_bytes_hd: "be_bytes (Suc n) v = word_of_nat (v div 256 ^ n) # be_bytes n v"
proof (induction n arbitrary: v)
  case 0
  then show ?case by (simp add: be_bytes_def)
next
  case (Suc n)
  show ?case
    by (subst be_bytes_Suc, subst Suc) (simp add: be_bytes_Suc div_mult2_eq)
qed

lemma nat_be_bytes:
  assumes "256 ^ i \<le> n" "n < 256 ^ Suc i"
  shows "nat_be n = be_bytes (Suc i) n"
proof -
  have "n div 256 ^ i < 256" using assms(2) by (simp add: div_less_iff_less_mult ac_simps)
  then have "unat (word_of_nat (n div 256 ^ i) :: u8) = n div 256 ^ i" by (intro unat_of_nat_lt) simp
  moreover have "n div 256 ^ i \<noteq> 0" using assms(1) by (simp add: div_eq_0_iff)
  ultimately have "(word_of_nat (n div 256 ^ i) :: u8) \<noteq> 0" by (metis unat_0)
  then have "nat_be (be_val (be_bytes (Suc i) n)) = be_bytes (Suc i) n"
    by (intro nat_be_be_val) (simp add: be_bytes_hd)
  then show ?thesis using assms(2) by simp
qed

lemma byte_of: "ucast (drop_bit (8 * i) v AND 0xFF) = (word_of_nat (unat v div 256 ^ i) :: u8)" for v :: u64
proof -
  have m: "(0xFF :: u64) = mask 8" by (simp add: mask_eq_exp_minus_1)
  have "unat (ucast (drop_bit (8 * i) v AND 0xFF) :: u8) = unat (word_of_nat (unat v div 256 ^ i) :: u8)"
    unfolding unat_ucast_mod m unat_and_mask unat_drop_bit unat_of_nat_u8 by (simp add: power_mult)
  then show ?thesis by (simp only: word_unat_eq_iff)
qed

lemma uint64_started:
  assumes "cbb_ready d c i"
  shows "\<exists>cap. cap_ok c i cap \<and> uint64_bytes i v d True c = ((True, True), appended c (be_bytes i (unat v)) cap)"
  using assms
proof (induction i arbitrary: c)
  case 0
  then show ?case using adds_ret [of d] by (auto simp: adds_def)
next
  case (Suc i)
  let ?b = "word_of_nat (unat v div 256 ^ i) :: u8"
  from adds_run [OF adds_u8 [of d ?b], of c] ready_less [of d c 1 i] Suc.prems
  obtain cap where cap: "cap_ok c 1 cap" and a: "CBB_add_u8 ?b d c = (True, appended c [?b] cap)" by auto
  have "cbb_ready d (appended c [?b] cap) i" by (rule ready_appended) (use Suc.prems cap in simp_all)
  from Suc.IH [OF this] obtain cap' where "cap_ok (appended c [?b] cap) i cap'"
    and "uint64_bytes i v d True (appended c [?b] cap) =
      ((True, True), appended c (be_bytes (Suc i) (unat v)) cap')" by (auto simp: be_bytes_hd)
  then show ?case using a cap
    by (auto simp: byte_of Let_def cap_ok_def intro!: exI [of _ cap'])
qed

lemma uint64_lead:
  assumes "cbb_ready d c (length (der_uint (unat v)))" and "unat v < 256 ^ i"
  shows "\<exists>cap. cap_ok c (length (der_uint (unat v))) cap \<and>
    uint64_bytes i v d False c =
      (if unat v = 0 then ((True, False), c) else ((True, True), appended c (der_uint (unat v)) cap))"
  using assms(2)
proof (induction i)
  case 0
  then show ?case using assms(1) by (auto simp: cbb_ready_def cbb_room_def cap_ok_def intro!: exI [of _ "max (c_cap c) (length (c_data c) + length (der_uint (unat v)))"])
next
  case (Suc i)
  let ?n = "unat v" and ?b = "word_of_nat (unat v div 256 ^ i) :: u8"
  show ?case
  proof (cases "?n < 256 ^ i")
    case True
    then show ?thesis using Suc.IH by (simp add: byte_of Let_def)
  next
    case False
    have be: "nat_be ?n = ?b # be_bytes i ?n"
      using nat_be_bytes [of i ?n] False Suc.prems by (simp add: be_bytes_hd)
    have n0: "?n \<noteq> 0" using False by (intro notI) simp
    have nz: "?b \<noteq> 0" using hd_nat_be [OF n0] unfolding be by simp
    define lead where "lead = (if 128 \<le> unat ?b then [0 :: u8] else [])"
    have der: "der_uint ?n = lead @ [?b] @ be_bytes i ?n" by (simp add: der_uint_def be lead_def)
    have "adds d lead (\<lambda>c. if ?b AND 0x80 \<noteq> 0 then CBB_add_u8 0 d c else (True, c))"
      using adds_u8 [of d 0] adds_ret [of d] by (cases "unat ?b < 128") (simp_all add: lead_def word_bit7)
    from adds_run [OF adds_chk [OF this adds_u8 [of d ?b]], of c] ready_less [of d c "length (lead @ [?b])" i] assms(1)
    obtain cap where cap: "cap_ok c (length (lead @ [?b])) cap"
      and a: "chk (if ?b AND 0x80 \<noteq> 0 then CBB_add_u8 0 d c else (True, c)) (CBB_add_u8 ?b d)
        = (True, appended c (lead @ [?b]) cap)" by (auto simp: der)
    have "cbb_ready d (appended c (lead @ [?b]) cap) i"
      by (rule ready_appended) (use assms(1) cap in \<open>simp_all add: der\<close>)
    from uint64_started [OF this, of v] obtain cap' where cap': "cap_ok (appended c (lead @ [?b]) cap) i cap'"
      and u: "uint64_bytes i v d True (appended c (lead @ [?b]) cap) =
        ((True, True), appended c (der_uint ?n) cap')" by (auto simp: der)
    from a obtain c1 where a1: "(if ?b AND 0x80 \<noteq> 0 then CBB_add_u8 0 d c else (True, c)) = (True, c1)"
      and a2: "CBB_add_u8 ?b d c1 = (True, appended c (lead @ [?b]) cap)" by (auto simp: chk_True)
    have "uint64_bytes (Suc i) v d False c = ((True, True), appended c (der_uint ?n) cap')"
      using a1 a2 u nz by (simp add: byte_of Let_def)
    moreover have "cap_ok c (length (der_uint ?n)) cap'" using cap cap' by (simp add: cap_ok_def der)
    ultimately show ?thesis using n0 by auto
  qed
qed

lemma adds_uint64: "adds d (der_element CBS_ASN1_INTEGER (der_uint (unat v))) (CBB_add_asn1_uint64 v d)"
proof -
  have "adds d' (der_uint (unat v)) (\<lambda>c. case uint64_bytes 8 v d' False c of
         ((False, started), c) \<Rightarrow> (False, c)
       | ((True, started), c) \<Rightarrow> if \<not> started then CBB_add_u8 0 d' c else (True, c))" for d'
  proof (rule adds_intro)
    fix c assume r: "cbb_ready d' c (length (der_uint (unat v)))"
    have "unat v < 256 ^ 8" by (rule less_le_trans [OF unat_u64_lt]) simp
    from uint64_lead [OF r this] r adds_u8 [of d' 0]
    show "\<exists>cap. cap_ok c (length (der_uint (unat v))) cap \<and>
      (case uint64_bytes 8 v d' False c of
         ((False, started), c) \<Rightarrow> (False, c)
       | ((True, started), c) \<Rightarrow> if \<not> started then CBB_add_u8 0 d' c else (True, c))
       = (True, appended c (der_uint (unat v)) cap)"
      by (cases "unat v = 0") (auto simp: adds_def der_uint_def)
  qed
  moreover have "length (der_uint (unat v)) \<le> 0xFFFFFFFE"
    by (rule order_trans [OF length_der_uint]) simp_all
  ultimately show ?thesis
    by (intro adds_cong [OF adds_asn1 refl])
      (auto simp: CBB_add_asn1_uint64_def chk_def split: prod.splits bool.splits)
qed

end
