(* ===== verification/CbbRoundtrip.thy ===== *)
theory CbbRoundtrip imports CbbSpec begin

text \<open>
  Building with \<open>cbb.c\<close> and parsing with \<open>cbs.c\<close>: the interface of a codec (what the builder adds
  is what the parser accepts, and only that), its consequences for lists of values and for lists
  inside an ASN.1 element, and the codecs the two files provide. Trees of nested elements come
  last.
\<close>

section \<open>Building a byte string\<close>

definition build :: "alloc \<Rightarrow> nat \<Rightarrow> (cbb \<Rightarrow> bool \<times> cbb) \<Rightarrow> u8 list option" where
  "build alloc cap f =
     (case chk (CBB_init alloc cap) f of
        (True, c) \<Rightarrow> map_option fst (fst (CBB_finish 0 True c))
      | (False, c) \<Rightarrow> None)"

definition build_fixed :: "alloc \<Rightarrow> nat \<Rightarrow> (cbb \<Rightarrow> bool \<times> cbb) \<Rightarrow> u8 list option" where
  "build_fixed alloc len f =
     (case chk (CBB_init_fixed alloc len) f of
        (True, c) \<Rightarrow> map_option fst (fst (CBB_finish 0 True c))
      | (False, c) \<Rightarrow> None)"

lemma finish_ready: "cbb_ready 0 c n \<Longrightarrow> CBB_finish 0 True c = (Some (c_data c, length (c_data c)), CBB_cleanup c)"
  by (simp add: CBB_finish_def flush_ready)

lemma run_adds:
  assumes "adds 0 bs f" and "cbb_ready 0 c (length bs)" and "c_data c = []"
  shows "\<exists>c'. f c = (True, c') \<and> map_option fst (fst (CBB_finish 0 True c')) = Some bs"
proof -
  from adds_run [OF assms(1,2)] obtain cap where cap: "cap_ok c (length bs) cap" and f: "f c = (True, appended c bs cap)" .
  have "cbb_ready 0 (appended c bs cap) 0" by (rule ready_appended [OF _ cap]) (use assms(2) in simp)
  from finish_ready [OF this] show ?thesis by (simp add: f assms(3))
qed

lemma build_adds:
  assumes "adds 0 bs f" and "length bs < size_mod" and "cap < size_mod"
  shows "build (\<lambda>_. True) cap f = Some bs"
proof -
  obtain c where i: "CBB_init (\<lambda>_. True) cap = (True, c)" and "cbb_ready 0 c (length bs)" "c_data c = []"
    using assms(2,3) by (auto simp: CBB_init_def cbb_init_def CBB_zero_def Let_def cbb_ready_def cbb_room_def)
  from run_adds [OF assms(1) this(2,3)] show ?thesis by (auto simp: build_def i)
qed

lemma build_fixed_adds:
  assumes "adds 0 bs f" and "length bs \<le> len" and "len < size_mod"
  shows "build_fixed (\<lambda>_. True) len f = Some bs"
proof -
  obtain c where i: "CBB_init_fixed (\<lambda>_. True) len = (True, c)" and "cbb_ready 0 c (length bs)" "c_data c = []"
    using assms(2,3) by (auto simp: CBB_init_fixed_def cbb_init_def CBB_zero_def Let_def cbb_ready_def cbb_room_def)
  from run_adds [OF assms(1) this(2,3)] show ?thesis by (auto simp: build_fixed_def i)
qed

section \<open>The interface of a codec\<close>

primrec add_list :: "('a \<Rightarrow> nat \<Rightarrow> cbb \<Rightarrow> bool \<times> cbb) \<Rightarrow> 'a list \<Rightarrow> nat \<Rightarrow> cbb \<Rightarrow> bool \<times> cbb" where
  "add_list add [] d c = (True, c)"
| "add_list add (x # xs) d c = chk (add x d c) (add_list add xs d)"

primrec get_list :: "'a parser \<Rightarrow> nat \<Rightarrow> 'a list parser" where
  "get_list get 0 cbs = (Some [], cbs)"
| "get_list get (Suc n) cbs =
     bnd (get cbs) (\<lambda>x cbs. bnd (get_list get n cbs) (\<lambda>xs cbs. (Some (x # xs), cbs)))"

locale der_codec =
  fixes enc :: "'a \<Rightarrow> u8 list" and add :: "'a \<Rightarrow> nat \<Rightarrow> cbb \<Rightarrow> bool \<times> cbb"
    and get :: "'a parser" and valid :: "'a \<Rightarrow> bool"
  assumes adds_enc: "valid v \<Longrightarrow> adds d (enc v) (add v d)"
    and get_enc: "valid v \<Longrightarrow> get (enc v @ rest) = (Some v, rest)"
    and get_only: "get cbs = (Some v, rest) \<Longrightarrow> cbs = enc v @ rest"
begin

lemma enc_inject:
  assumes "valid v" "valid w" "enc v @ r = enc w @ s"
  shows "v = w \<and> r = s"
  using get_enc [OF assms(1), of r] get_enc [OF assms(2), of s] unfolding assms(3) by simp

lemma adds_list: "list_all valid vs \<Longrightarrow> adds d (concat (map enc vs)) (add_list add vs d)"
proof (induction vs)
  case Nil
  show ?case by (rule adds_cong [OF adds_ret]) simp_all
next
  case (Cons v vs)
  then have "adds d (enc v @ concat (map enc vs)) (\<lambda>c. chk (add v d c) (add_list add vs d))"
    by (intro adds_chk adds_enc) simp_all
  then show ?case by (rule adds_cong) simp_all
qed

lemma get_list_enc: "list_all valid vs \<Longrightarrow> get_list get (length vs) (concat (map enc vs) @ rest) = (Some vs, rest)"
  by (induction vs) (simp_all add: get_enc)

lemma get_list_only: "get_list get n cbs = (Some vs, rest) \<Longrightarrow> length vs = n \<and> cbs = concat (map enc vs) @ rest"
proof (induction n arbitrary: cbs vs)
  case 0
  then show ?case by auto
next
  case (Suc n)
  then show ?case by (auto simp: bnd_Some dest!: get_only)
qed

lemma build_parse:
  assumes "list_all valid vs" and "length (concat (map enc vs)) < size_mod"
  shows "\<exists>bs. build (\<lambda>_. True) 0 (add_list add vs 0) = Some bs \<and>
    get_list get (length vs) (bs @ rest) = (Some vs, rest)"
  using build_adds [OF adds_list [OF assms(1)] assms(2)] assms(1) by (simp add: get_list_enc)

text \<open>Values inside an ASN.1 element.\<close>

lemma element_roundtrip:
  assumes "list_all valid vs" and "length (concat (map enc vs)) \<le> 0xFFFFFFFE"
  shows "\<exists>bs child. build (\<lambda>_. True) 0
      (\<lambda>c. chk (CBB_add_asn1 tag 0 c) (\<lambda>c. chk (add_list add vs 1 c) (CBB_flush 0))) = Some bs \<and>
    CBS_get_asn1 tag (bs @ rest) = (Some child, rest) \<and>
    get_list get (length vs) child = (Some vs, [])"
proof -
  let ?body = "concat (map enc vs)"
  have "length (der_element tag ?body) < size_mod"
    using assms(2) length_der_tag [of tag] len_size_range(2) [of "length ?body"]
    by (simp add: der_element_def der_header_def length_der_len)
  then have "build (\<lambda>_. True) 0
      (\<lambda>c. chk (CBB_add_asn1 tag 0 c) (\<lambda>c. chk (add_list add vs 1 c) (CBB_flush 0))) = Some (der_element tag ?body)"
    using adds_asn1 [of 0 ?body "add_list add vs 1" tag] adds_list [OF assms(1)] assms(2)
    by (intro build_adds) simp_all
  moreover have "CBS_get_asn1 tag (der_element tag ?body @ rest) = (Some ?body, rest)"
    using assms(2) by (simp add: CBS_get_asn1_Some)
  moreover have "get_list get (length vs) ?body = (Some vs, [])"
    using get_list_enc [OF assms(1), of "[]"] by simp
  ultimately show ?thesis by blast
qed

end

section \<open>The codecs of the two files\<close>

lemma get_u_exact:
  assumes "n \<le> 4"
  shows "cbs_get_u n cbs = (Some v, rest) \<longleftrightarrow> unat v < 256 ^ n \<and> cbs = be_bytes n (unat v) @ rest"
proof
  assume "cbs_get_u n cbs = (Some v, rest)"
  then have n: "n \<le> length cbs" and v: "unat v = be_val (take n cbs)" and r: "rest = drop n cbs"
    using assms by (simp_all add: cbs_get_u_Some)
  have "be_bytes n (unat v) = take n cbs" unfolding v using be_bytes_be_val [of "take n cbs"] n by simp
  moreover have "unat v < 256 ^ n" unfolding v using be_val_lt [of "take n cbs"] n by simp
  ultimately show "unat v < 256 ^ n \<and> cbs = be_bytes n (unat v) @ rest" by (simp add: r)
next
  assume "unat v < 256 ^ n \<and> cbs = be_bytes n (unat v) @ rest"
  then show "cbs_get_u n cbs = (Some v, rest)" using cbs_get_u_be_bytes [OF assms] by simp
qed

interpretation u8: der_codec "\<lambda>v. [v]" CBB_add_u8 CBS_get_u8 "\<lambda>_. True"
  by unfold_locales (simp_all add: adds_u8)

interpretation u16: der_codec "\<lambda>v. be_bytes 2 (unat v)" CBB_add_u16 CBS_get_u16 "\<lambda>_. True"
proof
  fix v :: u16 and d cbs rest
  have u: "unat (ucast v :: u32) = unat v"
    unfolding unat_ucast_mod by (rule mod_less, rule less_trans [OF unat_u16_lt]) simp
  have "unat (ucast (ucast v :: u32) :: u16) = unat (ucast v :: u32) mod 2 ^ 16"
    by (rule trans [OF unat_ucast_mod]) simp
  then have uv: "ucast (ucast v :: u32) = v" unfolding u word_unat_eq_iff using unat_u16_lt [of v] by simp
  show "adds d (be_bytes 2 (unat v)) (CBB_add_u16 v d)" by (rule adds_u16)
  have "cbs_get_u 2 (be_bytes 2 (unat v) @ rest) = (Some (ucast v), rest)"
    using unat_u16_lt [of v] by (simp add: get_u_exact u)
  then show "CBS_get_u16 (be_bytes 2 (unat v) @ rest) = (Some v, rest)"
    by (simp add: CBS_get_u16_def uv)
  assume "CBS_get_u16 cbs = (Some v, rest)"
  then obtain w where w: "cbs_get_u 2 cbs = (Some w, rest)" "v = ucast w" by (auto simp: CBS_get_u16_def bnd_Some)
  then have "unat w < 65536" "cbs = be_bytes 2 (unat w) @ rest" by (simp_all add: get_u_exact)
  then show "cbs = be_bytes 2 (unat v) @ rest" unfolding w(2) unat_ucast_mod by simp
qed

interpretation u24: der_codec "\<lambda>v. be_bytes 3 (unat v)" CBB_add_u24 CBS_get_u24 "\<lambda>v. unat v < 2 ^ 24"
  by unfold_locales (simp_all add: adds_u24 CBS_get_u24_def get_u_exact)

interpretation u32: der_codec "\<lambda>v. be_bytes 4 (unat v)" CBB_add_u32 CBS_get_u32 "\<lambda>_. True"
  by unfold_locales (simp_all add: adds_u32 CBS_get_u32_def get_u_exact)

text \<open>Strings behind a length prefix.\<close>

definition add_prefixed :: "nat \<Rightarrow> u8 list \<Rightarrow> nat \<Rightarrow> cbb \<Rightarrow> bool \<times> cbb" where
  "add_prefixed n bs d c = chk (cbb_add_length_prefixed n d c) (\<lambda>c. chk (CBB_add_bytes bs (Suc d) c) (CBB_flush d))"

lemma adds_prefixed:
  "0 < n \<Longrightarrow> length bs < 256 ^ n \<Longrightarrow> adds d (be_bytes n (length bs) @ bs) (add_prefixed n bs d)"
  by (rule adds_cong [OF adds_fixed [OF adds_bytes] refl]) (simp_all add: add_prefixed_def)

lemma get_prefixed_exact:
  assumes "n \<le> 4"
  shows "cbs_get_length_prefixed n cbs = (Some bs, rest) \<longleftrightarrow>
    length bs < 256 ^ n \<and> cbs = be_bytes n (length bs) @ bs @ rest"
proof -
  have "(256::nat) ^ n \<le> 256 ^ 4" using assms by (intro power_increasing) simp_all
  then have l: "length bs < 256 ^ n \<Longrightarrow> unat (word_of_nat (length bs) :: u32) = length bs"
    by (intro unat_of_nat_lt) simp
  have "cbs_get_length_prefixed n cbs = (Some bs, rest) \<longleftrightarrow>
      (\<exists>len r. cbs_get_u n cbs = (Some len, r) \<and> unat len = length bs \<and> r = bs @ rest)"
    by (auto simp: cbs_get_length_prefixed_def bnd_Some min_def)
  also have "\<dots> \<longleftrightarrow> length bs < 256 ^ n \<and> cbs = be_bytes n (length bs) @ bs @ rest"
    using l by (auto simp: get_u_exact [OF assms] intro: exI [of _ "word_of_nat (length bs)"])
  finally show ?thesis .
qed

lemma prefixed_codec:
  "0 < n \<Longrightarrow> n \<le> 4 \<Longrightarrow>
   der_codec (\<lambda>bs. be_bytes n (length bs) @ bs) (add_prefixed n) (cbs_get_length_prefixed n) (\<lambda>bs. length bs < 256 ^ n)"
  by unfold_locales (simp_all add: get_prefixed_exact adds_prefixed)

interpretation u8_string: der_codec "\<lambda>bs. be_bytes 1 (length bs) @ bs" "add_prefixed 1"
    "cbs_get_length_prefixed 1" "\<lambda>bs. length bs < 256 ^ 1"
  by (rule prefixed_codec) simp_all

interpretation u16_string: der_codec "\<lambda>bs. be_bytes 2 (length bs) @ bs" "add_prefixed 2"
    "cbs_get_length_prefixed 2" "\<lambda>bs. length bs < 256 ^ 2"
  by (rule prefixed_codec) simp_all

interpretation u24_string: der_codec "\<lambda>bs. be_bytes 3 (length bs) @ bs" "add_prefixed 3"
    "cbs_get_length_prefixed 3" "\<lambda>bs. length bs < 256 ^ 3"
  by (rule prefixed_codec) simp_all

text \<open>ASN.1 values.\<close>

interpretation der_uint64: der_codec "\<lambda>v. der_element CBS_ASN1_INTEGER (der_uint (unat v))"
    CBB_add_asn1_uint64 CBS_get_asn1_uint64 "\<lambda>_. True"
  by unfold_locales (simp_all add: adds_uint64 CBS_get_asn1_uint64_Some)

interpretation der_boolean: der_codec "\<lambda>b. der_element CBS_ASN1_BOOLEAN (der_bool b)"
    CBB_add_asn1_bool CBS_get_asn1_bool "\<lambda>_. True"
  by unfold_locales (simp_all add: adds_bool CBS_get_asn1_bool_Some)

interpretation der_octets: der_codec "der_element CBS_ASN1_OCTETSTRING"
    CBB_add_asn1_octet_string "CBS_get_asn1 CBS_ASN1_OCTETSTRING" "\<lambda>bs. length bs \<le> 0xFFFFFFFE"
  by unfold_locales (simp_all add: adds_octet_string CBS_get_asn1_Some)

section \<open>Trees of elements\<close>

text \<open>A value of nested elements, its encoding, and the calls that build it: one child per level.\<close>

datatype asn1 = Leaf u32 "u8 list" | Node u32 "asn1 list"

primrec asn1_tag :: "asn1 \<Rightarrow> u32" where
  "asn1_tag (Leaf tag bs) = tag"
| "asn1_tag (Node tag ts) = tag"

fun der_contents :: "asn1 \<Rightarrow> u8 list" where
  "der_contents (Leaf tag bs) = bs"
| "der_contents (Node tag ts) = concat (map (\<lambda>t. der_element (asn1_tag t) (der_contents t)) ts)"

definition der_tree :: "asn1 \<Rightarrow> u8 list" where
  "der_tree t = der_element (asn1_tag t) (der_contents t)"

lemma der_contents_Node: "der_contents (Node tag ts) = concat (map der_tree ts)"
  by (simp add: der_tree_def [abs_def])

declare der_contents.simps(2) [simp del]

fun tree_fits :: "asn1 \<Rightarrow> bool" where
  "tree_fits (Leaf tag bs) = (length bs \<le> 0xFFFFFFFE)"
| "tree_fits (Node tag ts) = (length (der_contents (Node tag ts)) \<le> 0xFFFFFFFE \<and> list_all tree_fits ts)"

fun add_tree :: "asn1 \<Rightarrow> nat \<Rightarrow> cbb \<Rightarrow> bool \<times> cbb" and add_trees :: "asn1 list \<Rightarrow> nat \<Rightarrow> cbb \<Rightarrow> bool \<times> cbb" where
  "add_tree (Leaf tag bs) d c = chk (CBB_add_asn1 tag d c) (\<lambda>c. chk (CBB_add_bytes bs (Suc d) c) (CBB_flush d))"
| "add_tree (Node tag ts) d c = chk (CBB_add_asn1 tag d c) (\<lambda>c. chk (add_trees ts (Suc d) c) (CBB_flush d))"
| "add_trees [] d c = (True, c)"
| "add_trees (t # ts) d c = chk (add_tree t d c) (add_trees ts d)"

lemma adds_trees:
  "(\<And>t. t \<in> set ts \<Longrightarrow> adds d (der_tree t) (add_tree t d)) \<Longrightarrow>
     adds d (concat (map der_tree ts)) (add_trees ts d)"
proof (induction ts)
  case Nil
  show ?case by (rule adds_cong [OF adds_ret]) simp_all
next
  case (Cons t ts)
  then have "adds d (der_tree t @ concat (map der_tree ts)) (\<lambda>c. chk (add_tree t d c) (add_trees ts d))"
    by (intro adds_chk) simp_all
  then show ?case by (rule adds_cong) simp_all
qed

lemma adds_tree: "tree_fits t \<Longrightarrow> adds d (der_tree t) (add_tree t d)"
proof (induction t arbitrary: d)
  case (Leaf tag bs)
  then have "adds d (der_element tag bs) (\<lambda>c. chk (CBB_add_asn1 tag d c) (\<lambda>c. chk (CBB_add_bytes bs (Suc d) c) (CBB_flush d)))"
    by (intro adds_asn1 adds_bytes) simp
  then show ?case by (rule adds_cong) (simp_all add: der_tree_def)
next
  case (Node tag ts)
  then have "adds (Suc d) (concat (map der_tree ts)) (add_trees ts (Suc d))"
    by (intro adds_trees) (simp add: list_all_iff)
  then have "adds d (der_element tag (concat (map der_tree ts)))
      (\<lambda>c. chk (CBB_add_asn1 tag d c) (\<lambda>c. chk (add_trees ts (Suc d) c) (CBB_flush d)))"
    using Node.prems by (intro adds_asn1) (simp_all add: der_contents_Node)
  then show ?case by (rule adds_cong) (simp_all add: der_tree_def der_contents_Node)
qed

lemma length_der_element: "length (der_element tag body) \<le> length body + 11"
  using length_der_tag [of tag] len_size_range(2) [of "length body"]
  by (simp add: der_element_def der_header_def length_der_len)

lemma fits_contents: "tree_fits t \<Longrightarrow> length (der_contents t) \<le> 0xFFFFFFFE"
  by (cases t) simp_all

section \<open>Properties\<close>

text \<open>C16: The builder and the parser agree on nested ASN.1 elements: for every tree whose contents fit the
  four length bytes, opening a child per element, writing the leaves and flushing gives the
  distinguished encoding of the tree, moved length prefixes included, and \<open>CBS_get_asn1\<close> with the
  tag of the root returns exactly its contents and what follows.\<close>

theorem asn1_tree_roundtrip:
  assumes "tree_fits t"
  shows "build (\<lambda>_. True) 0 (add_tree t 0) = Some (der_tree t) \<and>
    CBS_get_asn1 (asn1_tag t) (der_tree t @ rest) = (Some (der_contents t), rest)"
proof -
  have "length (der_tree t) < size_mod"
    using fits_contents [OF assms] length_der_element [of "asn1_tag t" "der_contents t"] by (simp add: der_tree_def)
  then have "build (\<lambda>_. True) 0 (add_tree t 0) = Some (der_tree t)"
    using adds_tree [OF assms, of 0] by (intro build_adds) simp_all
  then show ?thesis using fits_contents [OF assms] by (simp add: CBS_get_asn1_Some der_tree_def)
qed

definition ex_tree :: asn1 where
  "ex_tree = Node 0x20000010 [Leaf 0x2 [1], Node 0x20000011 [], Leaf 0xA0000123 (replicate 200 7)]"

theorem asn1_tree_roundtrip_witness:
  "build (\<lambda>_. True) 0 (add_tree ex_tree 0) = Some (der_tree ex_tree) \<and> length (der_tree ex_tree) = 213"
proof -
  have "tree_fits ex_tree" by code_simp
  moreover have "length (der_tree ex_tree) = 213" by code_simp
  ultimately show ?thesis using asn1_tree_roundtrip [of ex_tree "[]"] by simp
qed

text \<open>C18: The INTEGER parser is exact: \<open>CBS_get_asn1_uint64\<close> accepts a prefix of the input with the value
  \<open>v\<close> if and only if that prefix is what \<open>CBB_add_asn1_uint64\<close> writes for \<open>v\<close>; no other encoding,
  padded, negative or with a non-minimal length, is accepted.\<close>

theorem asn1_uint64_canonical:
  "CBS_get_asn1_uint64 cbs = (Some v, rest) \<longleftrightarrow>
     (\<exists>bs. build (\<lambda>_. True) 0 (CBB_add_asn1_uint64 v 0) = Some bs \<and> cbs = bs @ rest)"
proof -
  let ?bs = "der_element CBS_ASN1_INTEGER (der_uint (unat v))"
  have "length (der_uint (unat v)) \<le> 9" using length_der_uint [of "unat v"] unat_u64_lt [of v] by simp
  then have "length ?bs < size_mod" using length_der_element [of CBS_ASN1_INTEGER "der_uint (unat v)"] by simp
  then have "build (\<lambda>_. True) 0 (CBB_add_asn1_uint64 v 0) = Some ?bs"
    by (intro build_adds adds_uint64) simp_all
  then show ?thesis by (simp add: CBS_get_asn1_uint64_Some)
qed

text \<open>A SEQUENCE of integers survives: a list of 64-bit values added to a child of any tag is parsed
  back, element by element, from the contents that \<open>CBS_get_asn1\<close> returns.\<close>

theorem uint64_sequence_roundtrip:
  assumes "length (concat (map (\<lambda>v. der_element CBS_ASN1_INTEGER (der_uint (unat v))) vs)) \<le> 0xFFFFFFFE"
  shows "\<exists>bs child. build (\<lambda>_. True) 0
      (\<lambda>c. chk (CBB_add_asn1 tag 0 c) (\<lambda>c. chk (add_list CBB_add_asn1_uint64 vs 1 c) (CBB_flush 0))) = Some bs \<and>
    CBS_get_asn1 tag (bs @ rest) = (Some child, rest) \<and>
    get_list CBS_get_asn1_uint64 (length vs) child = (Some vs, [])"
  by (rule der_uint64.element_roundtrip [OF _ assms]) (simp add: list_all_iff)

theorem uint64_sequence_roundtrip_witness:
  "\<exists>bs child. build (\<lambda>_. True) 0
      (\<lambda>c. chk (CBB_add_asn1 0x20000010 0 c) (\<lambda>c. chk (add_list CBB_add_asn1_uint64 [0, 300] 1 c) (CBB_flush 0))) = Some bs \<and>
    CBS_get_asn1 0x20000010 (bs @ [9]) = (Some child, [9]) \<and>
    get_list CBS_get_asn1_uint64 2 child = (Some [0, 300], [])"
proof -
  have "length (concat (map (\<lambda>v. der_element CBS_ASN1_INTEGER (der_uint (unat v))) [0, 300 :: u64])) \<le> 0xFFFFFFFE"
    by code_simp
  from uint64_sequence_roundtrip [OF this, of "0x20000010" "[9]"] show ?thesis by (simp add: numeral_2_eq_2)
qed

text \<open>A length prefix never truncates: a string in a child with a prefix of one to three bytes is
  written with its length, and read back, when its length fits, and makes the builder fail when
  it does not.\<close>

theorem length_prefix_exact:
  assumes "0 < n" "n \<le> 3" and "n + length bs < size_mod"
  shows "build (\<lambda>_. True) 0 (add_prefixed n bs 0) =
      (if length bs < 256 ^ n then Some (be_bytes n (length bs) @ bs) else None) \<and>
    (length bs < 256 ^ n \<longrightarrow>
      cbs_get_length_prefixed n (be_bytes n (length bs) @ bs @ rest) = (Some bs, rest))"
proof (cases "length bs < 256 ^ n")
  case True
  then have "build (\<lambda>_. True) 0 (add_prefixed n bs 0) = Some (be_bytes n (length bs) @ bs)"
    using assms by (intro build_adds adds_prefixed) simp_all
  then show ?thesis using True assms by (simp add: get_prefixed_exact)
next
  case False
  obtain c where i: "CBB_init (\<lambda>_. True) 0 = (True, c)" and "cbb_ready 0 c (n + length bs)"
    using assms by (auto simp: CBB_init_def cbb_init_def CBB_zero_def Let_def cbb_ready_def cbb_room_def)
  from fixed_run [OF adds_bytes assms(1) this(2)] False
  have "fst (add_prefixed n bs 0 c) = False" by (metis add_prefixed_def cbb_err_def fst_conv)
  then show ?thesis using False by (cases "add_prefixed n bs 0 c") (simp add: build_def i)
qed

theorem length_prefix_exact_witness:
  "build (\<lambda>_. True) 0 (add_prefixed 1 (replicate 255 7) 0) = Some (255 # replicate 255 7) \<and>
   build (\<lambda>_. True) 0 (add_prefixed 1 (replicate 256 7) 0) = None"
proof -
  have "be_bytes 1 255 = [255]" by code_simp
  then show ?thesis
    using length_prefix_exact [of 1 "replicate 255 7" "[]"] length_prefix_exact [of 1 "replicate 256 7" "[]"] by simp
qed

end
