(* ===== verification/BerSpec.thy ===== *)
theory BerSpec imports Ber CbbRoundtrip begin

text \<open>
  How \<open>ber.c\<close> reads BER: elements of indefinite length, the end-of-contents marker, and the search for BER
  elements that runs before a conversion. The search is exact on DER input, but forgets what it has found when a
  constructed element follows. What the conversion computes is in \<open>BerConvert\<close>.
\<close>

section \<open>Elements of a BER input\<close>

lemma ber_element_der:
  "CBS_get_any_asn1_element cbs = (Some r, rest) \<Longrightarrow> CBS_get_any_ber_asn1_element cbs = (Some r, rest)"
  unfolding CBS_get_any_asn1_element_def CBS_get_any_ber_asn1_element_def cbs_get_any_asn1_element_def
  by (auto simp: Let_def split: prod.splits option.splits if_splits)

lemma ber_get_element:
  "length body < 2 ^ 32 \<Longrightarrow> CBS_get_any_ber_asn1_element (der_element tag body @ rest) =
     (Some (der_element tag body, tag, length (der_header tag (length body))), rest)"
  by (rule ber_element_der) (auto simp: CBS_get_any_asn1_element_Some)

text \<open>A constructed element with an indefinite length is its header.\<close>

definition indef_header :: "u32 \<Rightarrow> u8 list" where
  "indef_header tag = der_tag tag @ [0x80]"



lemma definite_element: "\<not> is_indefinite (length (der_header tag (length body))) (der_element tag body)"
proof
  assume "is_indefinite (length (der_header tag (length body))) (der_element tag body)"
  then have "body = []" and "der_element tag [] ! (length (der_header tag 0) - 1) = 0x80"
    by (auto simp: is_indefinite_def der_element_def)
  then show False by (simp add: der_element_def der_header_def der_len_def nth_append)
qed

lemma eoc_element: "CBS_get_any_ber_asn1_element (0 # 0 # rest) = (Some ([0, 0], 0, 2), rest)"
proof -
  have e: "der_element 0 [] = [0, 0]" and h: "length (der_header 0 0) = 2" by code_simp+
  show ?thesis using ber_get_element [of "[]" 0 rest] by (simp add: e h)
qed

lemma eoc_only: "is_eoc (length (der_header tag (length body))) (der_element tag body) \<longleftrightarrow> tag = 0 \<and> body = []"
proof
  assume e: "is_eoc (length (der_header tag (length body))) (der_element tag body)"
  then have "body = []" by (auto simp: is_eoc_def der_element_def)
  moreover have "der_element tag body @ [] = der_element 0 [] @ []"
  proof -
    have "der_element 0 [] = [0, 0]" by code_simp
    then show ?thesis using e by (simp add: is_eoc_def)
  qed
  then have "tag = 0 \<and> body = [] \<and> ([] :: u8 list) = []"
    by (rule der_element_inject) (simp_all add: \<open>body = []\<close>)
  ultimately show "tag = 0 \<and> body = []" by simp
next
  assume "tag = 0 \<and> body = []"
  moreover have "is_eoc (length (der_header 0 0)) (der_element 0 [])" by code_simp
  ultimately show "is_eoc (length (der_header tag (length body))) (der_element tag body)" by simp
qed

lemma indefinite_not_eoc: "\<not> is_eoc (length (indef_header tag)) (indef_header tag)"
  by (auto simp: is_eoc_def indef_header_def)

section \<open>The search\<close>

lemma find_ber_loop_step:
  "inp \<noteq> [] \<Longrightarrow> CBS_get_any_ber_asn1_element inp = (Some (contents, tag, h), inp') \<Longrightarrow>
   find_ber_loop rec found inp =
     (if is_indefinite h contents then Some True
      else if tag AND CBS_ASN1_CONSTRUCTED \<noteq> 0 then
        if is_string_type tag then Some True
        else (case CBS_skip h contents of
                (None, _) \<Rightarrow> None
              | (Some _, contents) \<Rightarrow>
                  (case rec contents of None \<Rightarrow> None | Some found \<Rightarrow> find_ber_loop rec found inp'))
      else find_ber_loop rec found inp')"
  by (subst find_ber_loop.simps) simp

lemma find_element:
  assumes "length body < 2 ^ 32"
  shows "find_ber_loop rec found (der_element tag body @ inp) =
    (if tag AND CBS_ASN1_CONSTRUCTED \<noteq> 0 then
       if is_string_type tag then Some True
       else (case rec body of None \<Rightarrow> None | Some found \<Rightarrow> find_ber_loop rec found inp)
     else find_ber_loop rec found inp)"
proof -
  have ne: "der_element tag body @ inp \<noteq> []" by (simp add: der_element_def der_header_def der_len_def)
  show ?thesis
    unfolding find_ber_loop_step [OF ne ber_get_element [OF assms]] skip_header
    using definite_element [of tag body] by simp
qed




section \<open>Input that is already DER\<close>

text \<open>Leaves have no constructed bit, nodes have it and are no strings.\<close>

primrec strict_tree :: "asn1 \<Rightarrow> bool" where
  "strict_tree (Leaf tag bs) = (tag AND CBS_ASN1_CONSTRUCTED = 0)"
| "strict_tree (Node tag ts) =
     (tag AND CBS_ASN1_CONSTRUCTED \<noteq> 0 \<and> \<not> is_string_type tag \<and> list_all (\<lambda>b. b) (map strict_tree ts))"

primrec tree_depth :: "asn1 \<Rightarrow> nat" where
  "tree_depth (Leaf tag bs) = 0"
| "tree_depth (Node tag ts) = Suc (foldr max (map tree_depth ts) 0)"

lemma depth_child: "t \<in> set ts \<Longrightarrow> tree_depth t \<le> foldr max (map tree_depth ts) 0"
  by (induction ts) auto

lemma find_ber_trees:
  "(\<And>t rest. t \<in> set ts \<Longrightarrow> find_ber_loop rec False (der_tree t @ rest) = find_ber_loop rec False rest) \<Longrightarrow>
   find_ber_loop rec False (concat (map der_tree ts)) = Some False"
  by (induction ts) (simp_all add: find_ber_loop.simps [of rec False "[]"])

lemma find_ber_tree:
  "strict_tree t \<Longrightarrow> tree_fits t \<Longrightarrow> tree_depth t \<le> n \<Longrightarrow>
   find_ber_loop (find_ber n) False (der_tree t @ rest) = find_ber_loop (find_ber n) False rest"
proof (induction t arbitrary: n rest)
  case (Leaf tag bs)
  then show ?case by (simp add: der_tree_def find_element)
next
  case (Node tag ts)
  then obtain m where n: "n = Suc m" by (cases n) auto
  have len: "length (der_contents (Node tag ts)) < 2 ^ 32" using fits_contents [OF Node.prems(2)] by simp
  have "find_ber_loop (find_ber m) False (concat (map der_tree ts)) = Some False"
  proof (rule find_ber_trees)
    fix t rest assume t: "t \<in> set ts"
    show "find_ber_loop (find_ber m) False (der_tree t @ rest) = find_ber_loop (find_ber m) False rest"
      by (rule Node.IH [OF t]) (use t Node.prems depth_child [OF t] in \<open>auto simp: n list_all_iff\<close>)
  qed
  then have "find_ber n (der_contents (Node tag ts)) = Some False" by (simp add: n der_contents_Node)
  then show ?case using Node.prems(1) len by (simp add: der_tree_def find_element)
qed

text \<open>DER input is recognised: for every list of strict trees of at most \<open>kMaxDepth\<close> levels the search
  finds no BER element, and \<open>CBS_asn1_ber_to_der\<close> succeeds without allocating and leaves the input
  as it is.\<close>

theorem ber_to_der_keeps_der:
  assumes "\<forall>t \<in> set ts. strict_tree t \<and> tree_fits t \<and> tree_depth t \<le> kMaxDepth"
  shows "CBS_asn1_ber_to_der alloc (concat (map der_tree ts)) = (Some None, concat (map der_tree ts))"
proof -
  have "cbs_find_ber (concat (map der_tree ts)) = Some False"
    unfolding cbs_find_ber_def find_ber.simps using assms by (intro find_ber_trees find_ber_tree) auto
  then show ?thesis by (simp add: CBS_asn1_ber_to_der_def)
qed

theorem ber_to_der_keeps_der_witness:
  "CBS_asn1_ber_to_der (\<lambda>_. False) [0x30, 3, 2, 1, 5] = (Some None, [0x30, 3, 2, 1, 5])"
proof -
  let ?t = "Node 0x20000010 [Leaf 2 [5]]"
  have "strict_tree ?t" "tree_fits ?t" "tree_depth ?t = 1" "der_tree ?t = [0x30, 3, 2, 1, 5]" by code_simp+
  then show ?thesis using ber_to_der_keeps_der [of "[?t]"] by (simp add: kMaxDepth_def)
qed

end
