(* ===== verification/BerConvert.thy ===== *)
theory BerConvert imports BerSpec begin

text \<open>
  \<open>cbs_convert_ber\<close> gives BER values definite lengths. Values are trees whose constructed nodes carry a
  flag for the indefinite length; a definite length is in its minimal form, since the parser refuses
  others. Inside a constructed string all fragments have the tag of the string, and their contents are
  concatenated as they are, also those of a BIT STRING with their bytes of unused bits.
\<close>

section \<open>BER values\<close>









lemma string_tag_nonzero: "is_string_type tag \<Longrightarrow> tag AND NOT CBS_ASN1_CONSTRUCTED \<noteq> 0"
  by (auto simp: is_string_type_def)


section \<open>One element\<close>










section \<open>The loop\<close>











section \<open>The conversion as a whole\<close>



end
