(* ===== verification/CbbInv.thy ===== *)
theory CbbInv imports CbbSpec begin

text \<open>
  The invariant of the byte-string builder: the data fit the capacity, and the pending prefixes of
  the open children lie inside the data, one behind the other. Every operation of \<open>cbb.c\<close> keeps
  it, on any handle and whether it succeeds or fails, so a flush only ever writes inside the
  valid part of the buffer, and a fixed buffer never outgrows the capacity it was given. The
  operations are the steps of a transition system, and the invariant holds in every reachable
  state by rule induction.
\<close>

section \<open>The invariant\<close>

fun kids_ok :: "nat \<Rightarrow> cbb_child list \<Rightarrow> nat \<Rightarrow> bool" where
  "kids_ok lo [] n = (lo \<le> n)"
| "kids_ok lo (k # ks) n =
     (lo \<le> k_offset k \<and> 0 < k_len_len k \<and> (k_asn1 k \<longrightarrow> k_len_len k = 1) \<and> kids_ok (k_offset k + k_len_len k) ks n)"

definition cbb_inv :: "cbb \<Rightarrow> bool" where
  "cbb_inv c \<longleftrightarrow> length (c_data c) \<le> c_cap c \<and> c_cap c < size_mod \<and> kids_ok 0 (c_kids c) (length (c_data c))"

text \<open>A later state of the same builder: it has the same kind, and a fixed one the same capacity.\<close>

definition cbb_later :: "cbb \<Rightarrow> cbb \<Rightarrow> bool" where
  "cbb_later c c' \<longleftrightarrow> cbb_inv c' \<and> c_resize c' = c_resize c \<and> (\<not> c_resize c \<longrightarrow> c_cap c' = c_cap c)"

lemma kids_ok_le: "kids_ok lo ks n \<Longrightarrow> lo \<le> n"
  by (induction ks arbitrary: lo) fastforce+

lemma kids_ok_mono: "kids_ok lo ks n \<Longrightarrow> n \<le> m \<Longrightarrow> kids_ok lo ks m"
  by (induction ks arbitrary: lo) auto

lemma kids_ok_take: "kids_ok lo ks n \<Longrightarrow> kids_ok lo (take d ks) n"
proof (induction ks arbitrary: lo d)
  case Nil
  then show ?case by simp
next
  case (Cons k ks)
  then show ?case by (cases d) (auto dest: kids_ok_le)
qed

lemma kids_ok_nth:
  "kids_ok lo ks n \<Longrightarrow> d < length ks \<Longrightarrow>
     k_offset (ks ! d) + k_len_len (ks ! d) \<le> n \<and> 0 < k_len_len (ks ! d) \<and> (k_asn1 (ks ! d) \<longrightarrow> k_len_len (ks ! d) = 1) \<and>
     kids_ok lo (take d ks) (k_offset (ks ! d)) \<and> kids_ok lo (take (Suc d) ks) (k_offset (ks ! d) + k_len_len (ks ! d))"
proof (induction ks arbitrary: lo d)
  case Nil
  then show ?case by simp
next
  case (Cons k ks)
  then show ?case by (cases d) (auto dest: kids_ok_le)
qed

lemma kids_ok_snoc:
  "kids_ok lo ks n \<Longrightarrow> n \<le> k_offset k \<Longrightarrow> 0 < k_len_len k \<Longrightarrow> (k_asn1 k \<Longrightarrow> k_len_len k = 1) \<Longrightarrow>
   k_offset k + k_len_len k \<le> m \<Longrightarrow> kids_ok lo (ks @ [k]) m"
  by (induction ks arbitrary: lo) (auto dest: kids_ok_le)

lemma later_trans: "cbb_later c c1 \<Longrightarrow> cbb_later c1 c2 \<Longrightarrow> cbb_later c c2"
  by (auto simp: cbb_later_def)

lemma later_refl: "cbb_inv c \<Longrightarrow> cbb_later c c"
  by (simp add: cbb_later_def)

text \<open>An operation that keeps the invariant.\<close>

definition keeps :: "(cbb \<Rightarrow> bool \<times> cbb) \<Rightarrow> bool" where
  "keeps f \<longleftrightarrow> (\<forall>c. cbb_inv c \<longrightarrow> cbb_later c (snd (f c)))"

lemma keepsD: "keeps f \<Longrightarrow> cbb_inv c \<Longrightarrow> f c = (ok, c') \<Longrightarrow> cbb_later c c'"
  by (metis keeps_def snd_conv)

lemma keeps_chk:
  assumes "keeps f" and "keeps g"
  shows "keeps (\<lambda>c. chk (f c) g)"
proof -
  have "cbb_later c (snd (chk (f c) g))" if "cbb_inv c" for c
  proof (cases "f c")
    case (Pair ok c1)
    have l: "cbb_later c c1" by (rule keepsD [OF assms(1) that Pair])
    then have "cbb_later c1 (snd (g c1))" using assms(2) by (simp add: keeps_def cbb_later_def)
    with l show ?thesis unfolding Pair by (cases ok) (auto intro: later_trans)
  qed
  then show ?thesis by (simp add: keeps_def)
qed

lemma keeps_ret: "keeps (Pair b)"
  by (simp add: keeps_def later_refl)

lemma keeps_err: "keeps cbb_err"
  by (auto simp: keeps_def cbb_err_def cbb_later_def cbb_inv_def)

lemma keeps_if: "keeps f \<Longrightarrow> keeps g \<Longrightarrow> keeps (\<lambda>c. if P c then f c else g c)"
  by (simp add: keeps_def)

lemma keeps_reserve: "n < size_mod \<Longrightarrow> keeps (cbb_buffer_reserve n)"
  by (auto simp: keeps_def cbb_buffer_reserve_def Let_def cbb_err_def cbb_later_def cbb_inv_def)

text \<open>A sum of sizes that is not smaller than its first summand has not wrapped.\<close>

lemma no_wrap:
  assumes "a < size_mod" "n < size_mod" and "\<not> (a + n) mod size_mod < a"
  shows "(a + n) mod size_mod = a + n"
proof (cases "a + n < size_mod")
  case False
  have "a + n - size_mod < size_mod" using assms(1,2) by linarith
  then have "(a + n) mod size_mod = a + n - size_mod" using False by (simp add: le_mod_geq)
  then show ?thesis using assms(2,3) False by simp
qed simp

text \<open>What a successful reservation makes room for.\<close>

lemma reserve_room:
  assumes "cbb_inv c" and "n < size_mod" and "cbb_buffer_reserve n c = (True, c')"
  shows "cbb_later c c' \<and> c_data c' = c_data c \<and> c_kids c' = c_kids c \<and> length (c_data c) + n \<le> c_cap c'"
proof -
  have "cbb_later c c'" using keepsD [OF keeps_reserve] assms by blast
  moreover have "(length (c_data c) + n) mod size_mod = length (c_data c) + n"
    if "\<not> (length (c_data c) + n) mod size_mod < length (c_data c)"
    using no_wrap [OF _ assms(2) that] assms(1) by (simp add: cbb_inv_def)
  ultimately show ?thesis using assms(1,3)
    by (auto simp: cbb_buffer_reserve_def Let_def cbb_err_def split: if_splits)
qed

lemma keeps_buffer_add: "length bs < size_mod \<Longrightarrow> keeps (cbb_buffer_add bs)"
  unfolding keeps_def
proof (intro allI impI)
  fix c assume bs: "length bs < size_mod" and inv: "cbb_inv c"
  obtain ok c1 where r: "cbb_buffer_reserve (length bs) c = (ok, c1)" by fastforce
  have l: "cbb_later c c1" by (rule keepsD [OF keeps_reserve [OF bs] inv r])
  show "cbb_later c (snd (cbb_buffer_add bs c))"
  proof (cases ok)
    case True
    with reserve_room [OF inv bs] r l show ?thesis
      by (auto simp: cbb_buffer_add_def cbb_later_def cbb_inv_def intro: kids_ok_mono)
  qed (simp add: cbb_buffer_add_def r l)
qed

section \<open>Flushing\<close>

lemma length_write_len [simp]: "length (fst (write_len n pos len data)) = length data"
  by (induction n arbitrary: len data) simp_all

lemma inv_update:
  assumes "cbb_inv c" and "length data = length (c_data c)"
  shows "cbb_later c (c\<lparr>c_data := data\<rparr>)"
  using assms by (simp add: cbb_later_def cbb_inv_def)

lemma later_take: "cbb_later c c' \<Longrightarrow> cbb_later c (c'\<lparr>c_kids := take d (c_kids c')\<rparr>)"
  by (simp add: cbb_later_def cbb_inv_def kids_ok_take)

lemma length_splice_take:
  "start + extra + len \<le> length data \<Longrightarrow> len \<le> length data - start \<Longrightarrow>
   length (splice data (start + extra) (take len (drop start data))) = length data"
  by (simp add: length_splice min_def)

lemma asn1_len_size: "asn1_len_form n = Some (l, b) \<Longrightarrow> 1 \<le> l \<and> l \<le> 5"
  by (auto simp: asn1_len_form_def split: if_splits)

text \<open>The last part of a flush: the prefix is written and the child is dropped.\<close>

lemma write_prefix_later:
  assumes "cbb_later c c1"
  shows "cbb_later c (snd (case write_len pending offset len (c_data c1) of (data, rest) \<Rightarrow>
             let c = c1\<lparr>c_data := data\<rparr> in
             if rest \<noteq> 0 then cbb_err c else (True, c\<lparr>c_kids := take d (c_kids c)\<rparr>)))"
proof -
  obtain data rest where w: "write_len pending offset len (c_data c1) = (data, rest)" by fastforce
  have "length data = length (c_data c1)" using length_write_len [of pending offset len "c_data c1"] by (simp add: w)
  then have l: "cbb_later c (c1\<lparr>c_data := data\<rparr>)"
    using assms inv_update later_trans unfolding cbb_later_def [of c c1] by (metis assms)
  show ?thesis
    using later_take [OF l, of d] keeps_err l
    by (auto simp: w Let_def keeps_def cbb_later_def cbb_err_def cbb_inv_def)
qed

lemma keeps_flush_prefix:
  assumes "start \<le> length (c_data c)" and "cbb_inv c"
  shows "cbb_later c (snd (flush_prefix d k start c))"
proof -
  define len where "len = length (c_data c) - start"
  note W = write_prefix_later
  show ?thesis
  proof (cases "k_asn1 k")
    case False
    then show ?thesis
      using W [OF later_refl [OF assms(2)], where pending = "k_len_len k" and offset = "k_offset k" and len = len and d = d]
      by (simp add: flush_prefix_def len_def Let_def)
  next
    case asn1: True
    show ?thesis
    proof (cases "asn1_len_form len")
      case None
      have "cbb_later c (snd (cbb_err c))" using keeps_err assms(2) by (simp add: keeps_def)
      then show ?thesis using None asn1 by (simp add: flush_prefix_def len_def Let_def)
    next
      case (Some p)
      obtain l b where p: "asn1_len_form len = Some (l, b)" using Some by (cases p) auto
      define grow where "grow = (if l \<noteq> 1 then chk (cbb_buffer_add (replicate (l - 1) 0) c) (\<lambda>c.
                                   (True, c\<lparr>c_data := splice (c_data c) (start + (l - 1))
                                              (take len (drop start (c_data c)))\<rparr>))
                               else (True, c))"
      have g: "cbb_later c (snd grow)"
      proof (cases "cbb_buffer_add (replicate (l - 1) 0) c")
        case (Pair ok c1)
        have "l - 1 < size_mod" using asn1_len_size [OF p] by linarith
        then have k: "cbb_later c c1" by (intro keepsD [OF keeps_buffer_add assms(2) Pair]) simp
        show ?thesis
        proof (cases "ok \<and> l \<noteq> 1")
          case True
          then have d1: "c_data c1 = c_data c @ replicate (l - 1) 0" using Pair
            by (auto simp: cbb_buffer_add_def cbb_buffer_reserve_def Let_def cbb_err_def chk_True split: if_splits)
          have "length (splice (c_data c1) (start + (l - 1)) (take len (drop start (c_data c1)))) = length (c_data c1)"
            by (rule length_splice_take) (use d1 assms(1) in \<open>simp_all add: len_def\<close>)
          then have "cbb_later c1 (c1\<lparr>c_data := splice (c_data c1) (start + (l - 1)) (take len (drop start (c_data c1)))\<rparr>)"
            using k by (intro inv_update) (simp_all add: cbb_later_def)
          moreover have "snd grow = c1\<lparr>c_data := splice (c_data c1) (start + (l - 1)) (take len (drop start (c_data c1)))\<rparr>"
            unfolding grow_def Pair using True by simp
          ultimately show ?thesis using later_trans [OF k] by simp
        next
          case False
          then show ?thesis using k later_refl [OF assms(2)] unfolding grow_def Pair by (cases ok) auto
        qed
      qed
      obtain ok c1 where gr: "grow = (ok, c1)" by fastforce
      have k1: "cbb_later c c1" using g gr by simp
      have upd: "cbb_later c (c1\<lparr>c_data := (c_data c1)[k_offset k := b]\<rparr>)"
        using k1 by (simp add: cbb_later_def cbb_inv_def)
      have "cbb_later c (snd (cbb_err c1))" using k1 by (simp add: cbb_later_def cbb_inv_def cbb_err_def)
      then show ?thesis
        using W [OF upd, where pending = "l - 1" and offset = "k_offset k + 1" and len = "if l = 1 then 0 else len" and d = d] asn1
        unfolding flush_prefix_def Let_def len_def [symmetric] p option.case prod.case grow_def [symmetric] gr
        by (cases ok) simp_all
    qed
  qed
qed

lemma keeps_flush: "keeps (CBB_flush d)"
proof -
  have "cbb_inv c \<Longrightarrow> cbb_later c (snd (CBB_flush d c))" for c
  proof (induction d c rule: CBB_flush.induct)
    case (1 d c)
    have err: "cbb_inv c' \<Longrightarrow> cbb_later c' (snd (cbb_err c'))" for c' using keeps_err by (simp add: keeps_def)
    show ?case
    proof (cases "\<not> c_open c \<or> length (c_kids c) < d \<or> c_error c \<or> length (c_kids c) = d \<or> k_len_len (c_kids c ! d) = 0")
      case True
      then show ?thesis using later_refl [OF "1.prems"] by (subst CBB_flush.simps) auto
    next
      case False
      let ?k = "c_kids c ! d"
      let ?start = "(k_offset ?k + k_len_len ?k) mod size_mod"
      obtain ok c1 where f: "CBB_flush (Suc d) c = (ok, c1)" by fastforce
      have l: "cbb_later c c1" using "1.IH" [OF _ _ _ refl refl "1.prems"] False f by simp
      then have inv: "cbb_inv c1" by (simp add: cbb_later_def)
      show ?thesis
      proof (cases "\<not> ok \<or> ?start < k_offset ?k \<or> length (c_data c1) < ?start")
        case True
        then show ?thesis using False f later_trans [OF l err [OF inv]]
          by (subst CBB_flush.simps) (simp add: Let_def)
      next
        case ok: False
        then have "cbb_later c1 (snd (flush_prefix d ?k ?start c1))" by (intro keeps_flush_prefix inv) simp
        then show ?thesis using False ok f later_trans [OF l] by (subst CBB_flush.simps) (simp add: Let_def)
      qed
    qed
  qed
  then show ?thesis by (simp add: keeps_def)
qed

text \<open>After a successful flush the handle has no child left.\<close>

lemma flush_prefix_kids: "flush_prefix d k start c = (True, c') \<Longrightarrow> c_kids c' = take d (c_kids c)"
proof -
  have add: "c_kids (snd (cbb_buffer_add bs c)) = c_kids c" for bs and c
    by (auto simp: cbb_buffer_add_def cbb_buffer_reserve_def Let_def cbb_err_def chk_def)
  have g: "c_kids c1 = c_kids c" if "chk (cbb_buffer_add bs c) (\<lambda>c. (True, c\<lparr>c_data := h c\<rparr>)) = (True, c1)" for bs c1 h
    using that add [of bs c] by (auto simp: chk_True)
  assume "flush_prefix d k start c = (True, c')"
  then show ?thesis
    by (auto simp: flush_prefix_def Let_def cbb_err_def split: if_splits option.splits prod.splits bool.splits dest!: g)
qed

lemma flush_kids: "cbb_inv c \<Longrightarrow> CBB_flush d c = (True, c') \<Longrightarrow> length (c_kids c') = d"
proof (induction d c arbitrary: c' rule: CBB_flush.induct)
  case (1 d c)
  show ?case
  proof (cases "length (c_kids c) = d")
    case True
    then show ?thesis using "1.prems"(2) by (auto simp: CBB_flush.simps [of d c] split: if_splits)
  next
    case False
    then have d: "d < length (c_kids c)" and opn: "c_open c" "\<not> c_error c"
      using "1.prems"(2) by (auto simp: CBB_flush.simps [of d c] split: if_splits)
    have nz: "k_len_len (c_kids c ! d) \<noteq> 0"
      using kids_ok_nth [OF _ d, of 0 "length (c_data c)"] "1.prems"(1) by (simp add: cbb_inv_def)
    from "1.prems"(2) d opn nz obtain c1 start where f: "CBB_flush (Suc d) c = (True, c1)"
      and p: "flush_prefix d (c_kids c ! d) start c1 = (True, c')"
      by (subst (asm) CBB_flush.simps) (auto simp: Let_def cbb_err_def split: if_splits prod.splits)
    have "length (c_kids c1) = Suc d" using "1.IH" [OF _ _ _ refl refl "1.prems"(1) f] d opn nz by simp
    then show ?thesis using flush_prefix_kids [OF p] by simp
  qed
qed

section \<open>Operations\<close>

lemma keeps_after_flush: "keeps f \<Longrightarrow> keeps (\<lambda>c. chk (CBB_flush d c) f)"
  by (intro keeps_chk keeps_flush)

lemma be_loop_length: "length (fst (be_loop n v buf)) = n + length buf"
  by (induction n arbitrary: v buf) simp_all

lemma keeps_u:
  assumes "n < size_mod"
  shows "keeps (cbb_buffer_add_u v n)"
proof (cases "n = 0")
  case True
  then show ?thesis using keeps_ret by (simp add: cbb_buffer_add_u_def [abs_def] eta_contract_eq)
next
  case False
  obtain buf w where b: "be_loop n v [] = (buf, w)" by fastforce
  have "length buf < size_mod" using be_loop_length [of n v "[]"] assms by (simp add: b)
  then have "keeps (\<lambda>c. chk (cbb_buffer_add buf c) (\<lambda>c. if w \<noteq> 0 then cbb_err c else (True, c)))"
    by (intro keeps_chk keeps_buffer_add keeps_if keeps_err keeps_ret)
  then show ?thesis using False by (simp add: cbb_buffer_add_u_def [abs_def] b)
qed

lemma keeps_ext: "keeps f \<Longrightarrow> (\<And>c. f c = g c) \<Longrightarrow> keeps g"
  by (simp add: keeps_def)

lemma keeps_u8: "keeps (CBB_add_u8 v d)"
  unfolding CBB_add_u8_def [abs_def] by (intro keeps_after_flush keeps_u) simp

lemma keeps_bytes: "length bs < size_mod \<Longrightarrow> keeps (CBB_add_bytes bs d)"
  unfolding CBB_add_bytes_def [abs_def] by (intro keeps_after_flush keeps_buffer_add)

text \<open>Opening a child behind the data.\<close>

lemma open_child_later:
  assumes "cbb_inv c" and "c_kids c = ks" and "length (c_data c) + k_len_len k = length data"
    and "k_offset k = length (c_data c)" and "0 < k_len_len k" and "k_asn1 k \<Longrightarrow> k_len_len k = 1"
    and "cbb_later c c1" and "c_data c1 = data" and "c_kids c1 = ks"
  shows "cbb_later c (c1\<lparr>c_kids := take d ks @ [k]\<rparr>)"
proof -
  have "kids_ok 0 (take d ks) (length (c_data c))" using assms(1,2) by (auto simp: cbb_inv_def kids_ok_take)
  then have "kids_ok 0 (take d ks @ [k]) (length data)" by (rule kids_ok_snoc) (use assms in simp_all)
  then show ?thesis using assms(7,8) by (simp add: cbb_later_def cbb_inv_def)
qed

lemma buffer_add_state:
  "cbb_buffer_add bs c = (True, c1) \<Longrightarrow> c_data c1 = c_data c @ bs \<and> c_kids c1 = c_kids c"
  by (auto simp: cbb_buffer_add_def cbb_buffer_reserve_def Let_def cbb_err_def chk_True split: if_splits)

lemma keeps_add_length_prefixed:
  assumes "0 < n" "n < size_mod"
  shows "keeps (cbb_add_length_prefixed n d)"
proof -
  have "cbb_later c (snd (chk (cbb_buffer_add (replicate n 0) c) (\<lambda>c1.
     (True, c1\<lparr>c_kids := take d (c_kids c1) @ [\<lparr>k_offset = length (c_data c), k_len_len = n, k_asn1 = False\<rparr>]\<rparr>))))"
    if inv: "cbb_inv c" for c
  proof (cases "cbb_buffer_add (replicate n 0) c")
    case (Pair ok c1)
    have l: "cbb_later c c1" by (rule keepsD [OF keeps_buffer_add inv Pair]) (use assms in simp)
    show ?thesis
    proof (cases ok)
      case True
      then have "c_data c1 = c_data c @ replicate n 0" "c_kids c1 = c_kids c"
        using buffer_add_state [of "replicate n 0" c c1] Pair by simp_all
      then show ?thesis using True assms l inv
        by (simp add: Pair, intro open_child_later [OF inv refl _ _ _ _ l]) simp_all
    qed (simp add: Pair l)
  qed
  then have "keeps (\<lambda>c. chk (cbb_buffer_add (replicate n 0) c) (\<lambda>c1.
     (True, c1\<lparr>c_kids := take d (c_kids c1) @ [\<lparr>k_offset = length (c_data c), k_len_len = n, k_asn1 = False\<rparr>]\<rparr>)))"
    by (simp add: keeps_def)
  from keeps_after_flush [OF this, of d] show ?thesis
    by (rule keeps_ext) (simp add: cbb_add_length_prefixed_def Let_def)
qed

lemma keeps_groups: "keeps (base128_bytes i v d)"
proof (induction i)
  case 0
  then show ?case by (rule keeps_ext [OF keeps_ret]) simp
next
  case (Suc i)
  from keeps_chk [OF keeps_u8 Suc] show ?case by (rule keeps_ext) (simp only: base128_bytes.simps Let_def)
qed

lemma keeps_base128: "keeps (add_base128_integer v d)"
  unfolding add_base128_integer_def [abs_def] Let_def by (rule keeps_groups)

lemma byte_back: "ucast (ucast v :: u32) = v" for v :: u8
  unfolding word_unat_eq_iff unat_ucast_mod [where 'b = 8] unat_byte_u32 by simp

lemma u8_kids: "cbb_inv c \<Longrightarrow> CBB_add_u8 v d c = (True, c1) \<Longrightarrow> cbb_inv c1 \<and> length (c_kids c1) = d"
proof
  assume inv: "cbb_inv c" and a: "CBB_add_u8 v d c = (True, c1)"
  show "cbb_inv c1" using keepsD [OF keeps_u8 inv a] by (simp add: cbb_later_def)
  from a obtain c0 where f: "CBB_flush d c = (True, c0)" and u: "cbb_buffer_add_u (ucast v) 1 c0 = (True, c1)"
    by (auto simp: CBB_add_u8_def chk_True)
  from u have "cbb_buffer_add [v] c0 = (True, c1)"
    by (auto simp: cbb_buffer_add_u_def chk_True cbb_err_def byte_back split: if_splits)
  then show "length (c_kids c1) = d" using buffer_add_state [of "[v]" c0 c1] flush_kids [OF inv f] by simp
qed

lemma groups_kids:
  "cbb_inv c \<Longrightarrow> length (c_kids c) = d \<Longrightarrow> base128_bytes i v d c = (True, c1) \<Longrightarrow> length (c_kids c1) = d"
proof (induction i arbitrary: c)
  case (Suc i)
  then show ?case by (auto simp: chk_True Let_def dest: u8_kids)
qed simp

lemma u8_later:
  assumes "cbb_inv c" and "CBB_add_u8 v d c = (True, c1)" and "length (c_kids c) = d"
  shows "cbb_later c c1 \<and> c_data c1 = c_data c @ [v] \<and> c_kids c1 = c_kids c"
proof -
  have "cbb_later c c1" by (rule keepsD [OF keeps_u8 assms(1,2)])
  moreover from assms(2,3) have "cbb_buffer_add_u (ucast v) 1 c = (True, c1)"
    by (auto simp: CBB_add_u8_def chk_True CBB_flush.simps [of d c] split: if_splits)
  then have "cbb_buffer_add [v] c = (True, c1)"
    by (auto simp: cbb_buffer_add_u_def chk_True cbb_err_def byte_back split: if_splits)
  from buffer_add_state [OF this] have "c_data c1 = c_data c @ [v]" "c_kids c1 = c_kids c" by simp_all
  ultimately show ?thesis by simp
qed

lemma keeps_add_asn1: "keeps (CBB_add_asn1 tag d)"
proof -
  let ?bits = "ucast (drop_bit 24 tag) AND 0xE0 :: u8" and ?num = "tag AND CBS_ASN1_TAG_NUMBER_MASK"
  define tagop where "tagop = (\<lambda>c. if ?num \<ge> 0x1F
      then chk (CBB_add_u8 (?bits OR 0x1F) d c) (add_base128_integer (ucast ?num) d)
      else CBB_add_u8 (?bits OR ucast ?num) d c)"
  define opn where "opn = (\<lambda>c. chk (CBB_add_u8 0 d c) (\<lambda>c1.
      (True, c1\<lparr>c_kids := take d (c_kids c1) @ [\<lparr>k_offset = length (c_data c), k_len_len = 1, k_asn1 = True\<rparr>]\<rparr>)))"
  have k: "keeps tagop" unfolding tagop_def by (intro keeps_if keeps_chk keeps_u8 keeps_base128)
  have kids: "length (c_kids c1) = d" if "cbb_inv c" "tagop c = (True, c1)" for c c1
    using that unfolding tagop_def add_base128_integer_def Let_def
    by (auto simp: chk_True dest: u8_kids groups_kids split: if_splits)
  have o: "cbb_later c (snd (opn c))" if inv: "cbb_inv c" and d: "length (c_kids c) = d" for c
  proof (cases "CBB_add_u8 0 d c")
    case (Pair ok c1)
    show ?thesis
    proof (cases ok)
      case True
      with u8_later [OF inv _ d] Pair have l: "cbb_later c c1" and s: "c_data c1 = c_data c @ [0]" "c_kids c1 = c_kids c"
        by auto
      then show ?thesis using True
        by (simp add: opn_def Pair, intro open_child_later [OF inv refl _ _ _ _ l]) simp_all
    next
      case False
      then show ?thesis using keepsD [OF keeps_u8 inv Pair] by (simp add: opn_def Pair)
    qed
  qed
  have "keeps (\<lambda>c. chk (tagop c) opn)"
    unfolding keeps_def
  proof (intro allI impI)
    fix c assume inv: "cbb_inv c"
    obtain ok c1 where t: "tagop c = (ok, c1)" by fastforce
    have l: "cbb_later c c1" by (rule keepsD [OF k inv t])
    show "cbb_later c (snd (chk (tagop c) opn))"
    proof (cases ok)
      case True
      then show ?thesis using l t kids [OF inv, of c1] later_trans [OF l o] by (simp add: cbb_later_def [of c c1])
    qed (simp add: t l)
  qed
  from keeps_after_flush [OF this, of d] show ?thesis
    by (rule keeps_ext)
      (simp add: CBB_add_asn1_def Let_def tagop_def opn_def if_distrib [of "\<lambda>f. f _"] cong: if_cong)
qed

lemma keeps_uint64_bytes: "cbb_inv c \<Longrightarrow> cbb_later c (snd (uint64_bytes i v d started c))"
proof (induction i arbitrary: started c)
  case 0
  then show ?case by (simp add: later_refl)
next
  case (Suc i)
  let ?b = "ucast (drop_bit (8 * i) v AND 0xFF) :: u8"
  show ?case
  proof (cases "\<not> started \<and> ?b = 0")
    case True
    then show ?thesis using Suc by simp
  next
    case False
    have k: "keeps (\<lambda>c. if \<not> started \<and> ?b AND 0x80 \<noteq> 0 then CBB_add_u8 0 d c else (True, c))"
      by (intro keeps_if keeps_u8 keeps_ret)
    obtain ok c1 where a: "(if \<not> started \<and> ?b AND 0x80 \<noteq> 0 then CBB_add_u8 0 d c else (True, c)) = (ok, c1)"
      by fastforce
    from keepsD [OF k Suc.prems a] have l: "cbb_later c c1" .
    then have inv: "cbb_inv c1" by (simp add: cbb_later_def)
    obtain ok' c2 where b: "CBB_add_u8 ?b d c1 = (ok', c2)" by fastforce
    have l2: "cbb_later c1 c2" by (rule keepsD [OF keeps_u8 inv b])
    then have "cbb_later c2 (snd (uint64_bytes i v d True c2))" by (intro Suc.IH) (simp add: cbb_later_def)
    from later_trans [OF later_trans [OF l l2] this] later_trans [OF l l2] l show ?thesis
      unfolding uint64_bytes.simps Let_def if_not_P [OF False] a
      by (cases ok; cases ok') (simp_all only: prod.case bool.case b snd_conv)
  qed
qed

lemma keeps_add_asn1_uint64: "keeps (CBB_add_asn1_uint64 v d)"
proof -
  have "keeps (\<lambda>c. case uint64_bytes 8 v (Suc d) False c of
         ((False, started), c) \<Rightarrow> (False, c)
       | ((True, started), c) \<Rightarrow>
           chk (if \<not> started then CBB_add_u8 0 (Suc d) c else (True, c)) (CBB_flush d))"
    unfolding keeps_def
  proof (intro allI impI)
    fix c assume inv: "cbb_inv c"
    obtain ok st c1 where u: "uint64_bytes 8 v (Suc d) False c = ((ok, st), c1)" by (metis prod.exhaust)
    have l: "cbb_later c c1" using keeps_uint64_bytes [OF inv, of 8 v "Suc d" False] by (simp add: u)
    have "keeps (\<lambda>c. chk (if \<not> st then CBB_add_u8 0 (Suc d) c else (True, c)) (CBB_flush d))"
      by (intro keeps_chk keeps_if keeps_u8 keeps_ret keeps_flush)
    then have "cbb_later c1 (snd (chk (if \<not> st then CBB_add_u8 0 (Suc d) c1 else (True, c1)) (CBB_flush d)))"
      using l by (simp add: keeps_def cbb_later_def)
    then show "cbb_later c (snd (case uint64_bytes 8 v (Suc d) False c of
         ((False, started), c) \<Rightarrow> (False, c)
       | ((True, started), c) \<Rightarrow>
           chk (if \<not> started then CBB_add_u8 0 (Suc d) c else (True, c)) (CBB_flush d)))"
      using l later_trans [OF l] by (cases ok) (simp_all add: u)
  qed
  from keeps_chk [OF keeps_add_asn1 this] show ?thesis
    by (rule keeps_ext) (simp add: CBB_add_asn1_uint64_def)
qed

lemma keeps_oid_rest: "keeps (oid_rest cbs d)"
proof -
  have "cbb_inv c \<Longrightarrow> cbb_later c (snd (oid_rest cbs d c))" for c
  proof (induction cbs d c rule: oid_rest.induct)
    case (1 cbs d c)
    obtain a cbs' where p: "parse_dotted_decimal cbs = (a, cbs')" by fastforce
    show ?case
    proof (cases "cbs = [] \<or> a = None")
      case True
      then show ?thesis using later_refl [OF "1.prems"] p by (subst oid_rest.simps) auto
    next
      case False
      then obtain v where a: "a = Some v" by blast
      obtain ok c1 where b: "add_base128_integer v d c = (ok, c1)" by fastforce
      have l: "cbb_later c c1" by (rule keepsD [OF keeps_base128 "1.prems" b])
      show ?thesis
      proof (cases ok)
        case True
        then have "cbb_later c1 (snd (oid_rest cbs' d c1))"
          using "1.IH" [OF _ p [symmetric] a, of c1] False b l by (simp add: cbb_later_def [of c])
        then show ?thesis using False p a b True later_trans [OF l] by (subst oid_rest.simps) simp
      next
        case ok: False
        then show ?thesis using False p a b l by (subst oid_rest.simps) simp
      qed
    qed
  qed
  then show ?thesis by (simp add: keeps_def)
qed

lemma keeps_oid_from_text: "keeps (CBB_add_asn1_oid_from_text text n d)"
proof -
  obtain a r where p: "parse_dotted_decimal (CBS_init text n) = (a, r)" by fastforce
  obtain b r' where q: "parse_dotted_decimal r = (b, r')" by fastforce
  have "keeps (\<lambda>c. case a of None \<Rightarrow> (False, c) | Some a \<Rightarrow>
      (case b of None \<Rightarrow> (False, c) | Some b \<Rightarrow>
        if a > 2 \<or> (a < 2 \<and> b > 39) \<or> b > 0xFFFFFFFFFFFFFFFF - 80 then (False, c)
        else chk (add_base128_integer (40 * a + b) d c) (oid_rest r' d)))"
    by (cases a; cases b)
      (simp_all add: keeps_ret keeps_if keeps_chk keeps_base128 keeps_oid_rest eta_contract_eq)
  from keeps_after_flush [OF this, of d] show ?thesis
    by (rule keeps_ext) (simp add: CBB_add_asn1_oid_from_text_def p q cong: option.case_cong)
qed

lemma keeps_add_all: "\<forall>x \<in> set xs. length x < size_mod \<Longrightarrow> keeps (add_all xs d)"
proof (induction xs)
  case Nil
  show ?case by (rule keeps_ext [OF keeps_ret]) simp
next
  case (Cons x xs)
  then have "keeps (\<lambda>c. chk (CBB_add_bytes x d c) (add_all xs d))" by (intro keeps_chk keeps_bytes) simp_all
  then show ?case by (rule keeps_ext) simp
qed

lemma parse_elements_length:
  "parse_elements cbs = Some xs \<Longrightarrow> x \<in> set xs \<Longrightarrow> length x \<le> length cbs"
proof (induction cbs arbitrary: xs rule: parse_elements.induct)
  case (1 cbs)
  show ?case
  proof (cases "cbs = []")
    case True
    then show ?thesis using "1.prems" by (simp add: parse_elements.simps)
  next
    case False
    from "1.prems"(1) False obtain out tag h cbs' ys where e: "CBS_get_any_asn1_element cbs = (Some (out, tag, h), cbs')"
      and p: "parse_elements cbs' = Some ys" and xs: "xs = out # ys"
      by (subst (asm) parse_elements.simps) (auto split: prod.splits option.splits)
    have "length out \<le> length cbs" "length cbs' < length cbs"
      using element_Some [OF e [unfolded CBS_get_any_asn1_element_def]]
        element_shorter [OF e [unfolded CBS_get_any_asn1_element_def]] by simp_all
    moreover have "x \<in> set ys \<Longrightarrow> length x \<le> length cbs'"
      using "1.IH" [OF _ e [symmetric] refl refl refl p] False by simp
    ultimately show ?thesis using "1.prems"(2) xs by auto
  qed
qed

lemma set_qsort: "set (qsort cmp xs) = set xs"
proof -
  have "set (insert_by cmp x ys) = insert x (set ys)" for x ys by (induction ys) auto
  then show ?thesis by (induction xs) (simp_all add: qsort_def)
qed

lemma keeps_flush_set_of: "keeps (CBB_flush_asn1_set_of d)"
  unfolding keeps_def
proof (intro allI impI)
  fix c assume inv: "cbb_inv c"
  obtain ok c1 where f: "CBB_flush d c = (ok, c1)" by fastforce
  have l: "cbb_later c c1" by (rule keepsD [OF keeps_flush inv f])
  show "cbb_later c (snd (CBB_flush_asn1_set_of d c))"
  proof (cases "ok \<and> parse_elements (CBB_data d c1) \<noteq> None")
    case False
    then show ?thesis using l f by (cases ok) (auto simp: CBB_flush_asn1_set_of_def)
  next
    case True
    then obtain xs where xs: "parse_elements (CBB_data d c1) = Some xs" by auto
    have inv1: "cbb_inv c1" using l by (simp add: cbb_later_def)
    have d: "length (c_kids c1) = d" using flush_kids [OF inv] f True by simp
    let ?c2 = "c1\<lparr>c_data := take (cbb_start d c1) (c_data c1)\<rparr>"
    have "kids_ok 0 (c_kids c1) (cbb_start d c1) \<and> cbb_start d c1 \<le> length (c_data c1)"
    proof (cases d)
      case 0
      then show ?thesis using d by (simp add: cbb_start_def)
    next
      case (Suc e)
      then show ?thesis using kids_ok_nth [of 0 "c_kids c1" "length (c_data c1)" e] inv1 d
        by (simp add: cbb_start_def cbb_inv_def)
    qed
    then have l2: "cbb_later c1 ?c2" using inv1 by (simp add: cbb_later_def cbb_inv_def min_def)
    have "length x < size_mod" if "x \<in> set (qsort compare_set_of_element xs)" for x
    proof -
      have "length x \<le> length (CBB_data d c1)" using parse_elements_length [OF xs] that by (simp add: set_qsort)
      also have "\<dots> \<le> length (c_data c1)" by (simp add: CBB_data_def)
      also have "\<dots> \<le> c_cap c1" using inv1 by (simp add: cbb_inv_def)
      also have "\<dots> < size_mod" using inv1 by (simp add: cbb_inv_def)
      finally show ?thesis .
    qed
    then have "keeps (add_all (qsort compare_set_of_element xs) d)" by (intro keeps_add_all) blast
    then have "cbb_later ?c2 (snd (add_all (qsort compare_set_of_element xs) d ?c2))"
      using l2 by (simp add: keeps_def cbb_later_def [of c1])
    then show ?thesis using l later_trans [OF l later_trans [OF l2]] True f xs
      by (simp add: CBB_flush_asn1_set_of_def Let_def)
  qed
qed

lemma keeps_discard: "cbb_inv c \<Longrightarrow> cbb_later c (CBB_discard_child d c)"
proof -
  assume inv: "cbb_inv c"
  show ?thesis
  proof (cases "length (c_kids c) \<le> d")
    case True
    then show ?thesis using later_refl [OF inv] by (simp add: CBB_discard_child_def)
  next
    case False
    then show ?thesis using kids_ok_nth [of 0 "c_kids c" "length (c_data c)" d] inv
      by (auto simp: CBB_discard_child_def cbb_later_def cbb_inv_def min_def)
  qed
qed

lemma keeps_did_write: "length bs < size_mod \<Longrightarrow> keeps (CBB_did_write bs d)"
proof -
  assume bs: "length bs < size_mod"
  have "cbb_later c (snd (CBB_did_write bs d c))" if inv: "cbb_inv c" for c
    using no_wrap [OF _ bs, of "length (c_data c)"] inv
    by (auto simp: CBB_did_write_def Let_def cbb_later_def cbb_inv_def intro: kids_ok_mono)
  then show ?thesis by (simp add: keeps_def)
qed

lemma keeps_finish: "cbb_inv c \<Longrightarrow> cbb_later c (snd (CBB_finish d outputs c))"
proof -
  assume inv: "cbb_inv c"
  obtain ok c1 where f: "CBB_flush 0 c = (ok, c1)" by fastforce
  have "cbb_later c c1" by (rule keepsD [OF keeps_flush inv f])
  then show ?thesis using later_refl [OF inv]
    by (cases ok) (auto simp: CBB_finish_def f CBB_cleanup_def cbb_later_def cbb_inv_def)
qed

section \<open>Reachable builders\<close>

text \<open>A call of any operation on any handle, successful or not.\<close>

inductive cbb_step :: "cbb \<Rightarrow> cbb \<Rightarrow> bool" where
  flush: "cbb_step c (snd (CBB_flush d c))"
| finish: "cbb_step c (snd (CBB_finish d outputs c))"
| length_prefixed: "n \<in> {1, 2, 3} \<Longrightarrow> cbb_step c (snd (cbb_add_length_prefixed n d c))"
| add_asn1: "cbb_step c (snd (CBB_add_asn1 tag d c))"
| add_bytes: "length bs < size_mod \<Longrightarrow> cbb_step c (snd (CBB_add_bytes bs d c))"
| add_space: "length bs < size_mod \<Longrightarrow> cbb_step c (snd (CBB_add_space bs d c))"
| reserve: "n < size_mod \<Longrightarrow> cbb_step c (snd (CBB_reserve n d c))"
| did_write: "length bs < size_mod \<Longrightarrow> cbb_step c (snd (CBB_did_write bs d c))"
| add_u8: "cbb_step c (snd (CBB_add_u8 v8 d c))"
| add_u16: "cbb_step c (snd (CBB_add_u16 v16 d c))"
| add_u24: "cbb_step c (snd (CBB_add_u24 v32 d c))"
| add_u32: "cbb_step c (snd (CBB_add_u32 v32 d c))"
| discard: "cbb_step c (CBB_discard_child d c)"
| add_uint64: "cbb_step c (snd (CBB_add_asn1_uint64 v64 d c))"
| add_octet_string: "length bs < size_mod \<Longrightarrow> cbb_step c (snd (CBB_add_asn1_octet_string bs d c))"
| add_bool: "cbb_step c (snd (CBB_add_asn1_bool b d c))"
| add_oid: "cbb_step c (snd (CBB_add_asn1_oid_from_text bs n d c))"
| flush_set_of: "cbb_step c (snd (CBB_flush_asn1_set_of d c))"

inductive_cases cbb_stepE: "cbb_step c c'"

inductive cbb_reach :: "cbb \<Rightarrow> cbb \<Rightarrow> bool" for c0 where
  start: "cbb_reach c0 c0"
| step: "cbb_reach c0 c \<Longrightarrow> cbb_step c c' \<Longrightarrow> cbb_reach c0 c'"

lemma keeps_small_u: "n \<le> 4 \<Longrightarrow> keeps (\<lambda>c. chk (CBB_flush d c) (cbb_buffer_add_u v n))"
  by (intro keeps_after_flush keeps_u) simp

lemma step_later: "cbb_step c c' \<Longrightarrow> cbb_inv c \<Longrightarrow> cbb_later c c'"
proof (induction rule: cbb_step.induct)
  case (add_octet_string bs c d)
  have "keeps (CBB_add_asn1_octet_string bs d)"
    unfolding CBB_add_asn1_octet_string_def [abs_def]
    by (intro keeps_chk keeps_add_asn1 keeps_bytes keeps_flush add_octet_string.hyps)
  then show ?case using add_octet_string by (simp add: keeps_def)
next
  case (add_bool c b d)
  have "keeps (CBB_add_asn1_bool b d)"
    unfolding CBB_add_asn1_bool_def [abs_def] by (intro keeps_chk keeps_add_asn1 keeps_u8 keeps_flush)
  then show ?case using add_bool by (simp add: keeps_def)
next
  case (length_prefixed n c d)
  then have "keeps (cbb_add_length_prefixed n d)" by (intro keeps_add_length_prefixed) auto
  then show ?case using length_prefixed by (simp add: keeps_def)
next
  case (reserve n c d)
  then have "keeps (CBB_reserve n d)"
    unfolding CBB_reserve_def [abs_def] by (intro keeps_after_flush keeps_reserve)
  then show ?case using reserve by (simp add: keeps_def)
next
  case (add_space bs c d)
  then have "keeps (CBB_add_space bs d)"
    unfolding CBB_add_space_def [abs_def] by (intro keeps_after_flush keeps_buffer_add)
  then show ?case using add_space by (simp add: keeps_def)
qed (use keeps_flush keeps_finish keeps_add_asn1 keeps_bytes keeps_did_write keeps_u8 keeps_discard keeps_add_asn1_uint64
      keeps_oid_from_text keeps_flush_set_of keeps_small_u in
    \<open>auto simp: keeps_def CBB_add_u16_def CBB_add_u24_def CBB_add_u32_def\<close>)

lemma reach_later: "cbb_reach c0 c \<Longrightarrow> cbb_inv c0 \<Longrightarrow> cbb_later c0 c"
proof (induction rule: cbb_reach.induct)
  case start
  then show ?case by (rule later_refl)
next
  case (step c c')
  then have l: "cbb_later c0 c" by blast
  then have "cbb_later c c'" using step_later [OF step.hyps(2)] by (simp add: cbb_later_def [of c0 c])
  with l show ?case by (rule later_trans)
qed

text \<open>C24: Memory safety of the builder: in every state that calls on any handles can reach, the data fit
  the capacity and the pending length prefixes lie inside the data, one behind the other, so the
  bytes a flush stores are inside the buffer; and a buffer of fixed size keeps its capacity.\<close>

theorem cbb_reachable_inv:
  assumes "(if fixed then CBB_init_fixed alloc cap else CBB_init alloc cap) = (True, c0)"
    and "cap < size_mod" and "cbb_reach c0 c"
  shows "cbb_inv c \<and> (fixed \<longrightarrow> c_cap c = cap)"
proof -
  have "cbb_inv c0" "c_cap c0 = cap" "c_resize c0 = (\<not> fixed)"
    using assms(1,2) by (auto simp: CBB_init_def CBB_init_fixed_def cbb_init_def CBB_zero_def Let_def chk_def
        cbb_inv_def split: if_splits)
  then show ?thesis using reach_later [OF assms(3)] by (auto simp: cbb_later_def)
qed

theorem cbb_reachable_inv_witness:
  "cbb_inv (snd (CBB_add_asn1 0x30 0 (snd (CBB_init_fixed (\<lambda>_. True) 1)))) \<and>
   c_cap (snd (CBB_add_asn1 0x30 0 (snd (CBB_init_fixed (\<lambda>_. True) 1)))) = 1"
proof -
  let ?c0 = "snd (CBB_init_fixed (\<lambda>_. True) 1)"
  have i: "(if True then CBB_init_fixed (\<lambda>_. True) 1 else CBB_init (\<lambda>_. True) 1) = (True, ?c0)"
    by (simp add: CBB_init_fixed_def cbb_init_def CBB_zero_def)
  have "cbb_reach ?c0 (snd (CBB_add_asn1 0x30 0 ?c0))"
    by (rule cbb_reach.step [OF cbb_reach.start cbb_step.add_asn1])
  from cbb_reachable_inv [OF i _ this] show ?thesis by simp
qed

end
