(* ===== verification/OidText.thy ===== *)
theory OidText imports CbbRoundtrip begin

text \<open>
  Object identifiers between their dotted text and their DER contents:
  \<open>CBB_add_asn1_oid_from_text\<close> of \<open>cbb.c\<close> and \<open>CBS_asn1_oid_to_text\<close> of \<open>cbs.c\<close> are inverse to
  each other on well-formed identifiers, and every content that has a text is the content its
  text is parsed to.
\<close>

section \<open>Decimal numbers\<close>

definition digit :: "nat \<Rightarrow> u8" where
  "digit k = word_of_nat (k + 0x30)"

lemma unat_digit: "k < 10 \<Longrightarrow> unat (digit k) = k + 48"
  unfolding digit_def by (rule unat_of_nat_lt) simp

lemma decimal_step: "decimal n = (if n < 10 then [] else decimal (n div 10)) @ [digit (n mod 10)]"
  by (subst decimal.simps) (simp only: digit_def)

lemma decimal_ne [simp]: "decimal n \<noteq> []"
  by (subst decimal_step) simp

lemma dotted_digit:
  assumes m: "m < 2 ^ 64" and k: "k < 10"
  shows "dotted_loop (word_of_nat m) seen (digit k # cbs) =
     (if seen \<and> m = 0 \<or> 2 ^ 64 \<le> m * 10 + k then (None, cbs)
      else dotted_loop (word_of_nat (m * 10 + k)) True cbs)"
proof -
  have um: "unat (word_of_nat m :: u64) = m" using m by (intro unat_of_nat_lt) simp
  have ne: "digit k \<noteq> 0x2E" "\<not> digit k < 0x30" "\<not> digit k > 0x39"
    using k by (auto simp: word_less_nat_alt unat_digit word_unat_eq_iff)
  have "unat (digit k) < 2 ^ 64" using k by (simp add: unat_digit)
  then have ud: "unat (ucast (digit k) :: u64) = k + 48" unfolding unat_ucast_mod using k by (simp add: unat_digit)
  then have le: "(0x30 :: u64) \<le> ucast (digit k)" by (simp add: word_le_nat_alt)
  have uk: "unat (ucast (digit k) - 0x30 :: u64) = k" using ud by (simp add: unat_sub [OF le])
  have z: "(word_of_nat m :: u64) = 0 \<longleftrightarrow> m = 0" unfolding word_unat_eq_iff um by simp
  have d: "(word_of_nat m :: u64) > 0xFFFFFFFFFFFFFFFF div 10 \<longleftrightarrow> m > 1844674407370955161"
    unfolding word_less_nat_alt um by simp
  show ?thesis
  proof (cases "m > 1844674407370955161")
    case True
    then show ?thesis using ne z d by simp
  next
    case False
    then have "unat (word_of_nat m * 10 :: u64) = m * 10" unfolding unat_word_ariths um by simp
    moreover have "unat (0xFFFFFFFFFFFFFFFF - (ucast (digit k) - 0x30) :: u64) = 18446744073709551615 - k"
      using uk k by (subst unat_sub) (simp_all add: word_le_nat_alt)
    ultimately have o: "word_of_nat m * 10 > (0xFFFFFFFFFFFFFFFF - (ucast (digit k) - 0x30) :: u64) \<longleftrightarrow> 2 ^ 64 \<le> m * 10 + k"
      unfolding word_less_nat_alt using k by auto
    have "(word_of_nat m * 10 + (ucast (digit k) - 0x30) :: u64) = word_of_nat (m * 10 + k)"
      using uk by (metis of_nat_add of_nat_mult of_nat_numeral word_of_unat)
    then show ?thesis using ne z d o False by simp
  qed
qed

lemma dotted_decimal:
  "n < 2 ^ 64 \<Longrightarrow> dotted_loop 0 False (decimal n @ cbs) = dotted_loop (word_of_nat n) True cbs"
proof (induction n arbitrary: cbs rule: decimal.induct)
  case (1 n)
  have k: "n mod 10 < 10" by simp
  show ?case
  proof (cases "n < 10")
    case True
    then have "decimal n = [digit n]" by (subst decimal_step) simp
    then show ?thesis using dotted_digit [of 0 n False cbs] True by simp
  next
    case False
    then have "decimal n = decimal (n div 10) @ [digit (n mod 10)]" by (subst decimal_step) simp
    then have "dotted_loop 0 False (decimal n @ cbs) = dotted_loop (word_of_nat (n div 10)) True (digit (n mod 10) # cbs)"
      using "1.IH" [OF False] "1.prems" by simp
    also have "\<dots> = dotted_loop (word_of_nat n) True cbs"
      using dotted_digit [of "n div 10" "n mod 10" True cbs] "1.prems" False by (simp add: div_eq_0_iff)
    finally show ?thesis .
  qed
qed

section \<open>The dotted text\<close>

fun dotted :: "nat list \<Rightarrow> u8 list" where
  "dotted [] = []"
| "dotted [v] = decimal v"
| "dotted (v # vs) = decimal v @ 0x2E # dotted vs"

lemma dotted_ne: "vs \<noteq> [] \<Longrightarrow> dotted vs \<noteq> []"
  by (cases vs rule: dotted.cases) simp_all

lemma parse_dotted: "v < 2 ^ 64 \<Longrightarrow> parse_dotted_decimal (dotted (v # vs)) = (Some (word_of_nat v), dotted vs)"
  using dotted_ne [of vs]
  by (cases vs) (auto simp: parse_dotted_decimal_def dotted_decimal [of v "[]", simplified] dotted_decimal)

lemma adds_oid_rest:
  "list_all (\<lambda>v. v < 2 ^ 64) vs \<Longrightarrow> adds d (concat (map base128_of vs)) (oid_rest (dotted vs) d)"
proof (induction vs)
  case Nil
  show ?case by (rule adds_cong [OF adds_ret]) (simp_all add: oid_rest.simps)
next
  case (Cons v vs)
  then have v: "v < 2 ^ 64" by simp
  then have "unat (word_of_nat v :: u64) = v" by (intro unat_of_nat_lt) simp
  then have a: "adds d (base128_of v) (add_base128_integer (word_of_nat v) d)"
    using adds_base128 [of d "word_of_nat v"] by simp
  show ?case
  proof (rule adds_cong [OF adds_chk [OF a Cons.IH]])
    fix c show "chk (add_base128_integer (word_of_nat v) d c) (oid_rest (dotted vs) d) = oid_rest (dotted (v # vs)) d c"
      using dotted_ne [of "v # vs"] by (subst oid_rest.simps [of "dotted (v # vs)"]) (simp add: parse_dotted [OF v])
  qed (use Cons.prems in simp_all)
qed

section \<open>From text to contents\<close>

text \<open>The first two arcs share a number.\<close>

definition oid_arcs_ok :: "nat list \<Rightarrow> bool" where
  "oid_arcs_ok arcs \<longleftrightarrow>
     (case arcs of a # b # vs \<Rightarrow> a \<le> 2 \<and> (a < 2 \<longrightarrow> b < 40) \<and> b + 80 < 2 ^ 64 \<and> list_all (\<lambda>v. v < 2 ^ 64) vs
      | _ \<Rightarrow> False)"

fun oid_bytes :: "nat list \<Rightarrow> u8 list" where
  "oid_bytes (a # b # vs) = base128_of (40 * a + b) @ concat (map base128_of vs)"
| "oid_bytes _ = []"

lemma adds_oid_from_text:
  assumes "oid_arcs_ok arcs"
  shows "adds d (oid_bytes arcs) (CBB_add_asn1_oid_from_text (dotted arcs) (length (dotted arcs)) d)"
proof -
  obtain a b vs where arcs: "arcs = a # b # vs" and a: "a \<le> 2" "a < 2 \<longrightarrow> b < 40" and b: "b + 80 < 2 ^ 64"
    and vs: "list_all (\<lambda>v. v < 2 ^ 64) vs"
    using assms by (auto simp: oid_arcs_ok_def split: list.splits)
  have ua: "unat (word_of_nat a :: u64) = a" and ub: "unat (word_of_nat b :: u64) = b"
    using a b by (auto intro!: unat_of_nat_lt)
  have pa: "parse_dotted_decimal (dotted arcs) = (Some (word_of_nat a), dotted (b # vs))"
    unfolding arcs using a by (intro parse_dotted) simp
  have pb: "parse_dotted_decimal (dotted (b # vs)) = (Some (word_of_nat b), dotted vs)"
    using b by (intro parse_dotted) simp
  have ok: "\<not> ((word_of_nat a :: u64) > 2 \<or> ((word_of_nat a :: u64) < 2 \<and> (word_of_nat b :: u64) > 39) \<or>
      (word_of_nat b :: u64) > 0xFFFFFFFFFFFFFFFF - 80)"
    using a b unfolding word_less_nat_alt ua ub by auto
  have "unat (word_of_nat (40 * a + b) :: u64) = 40 * a + b" using a b by (intro unat_of_nat_lt) simp
  then have "unat (40 * word_of_nat a + word_of_nat b :: u64) = 40 * a + b" by simp
  then have "adds d (oid_bytes arcs)
      (\<lambda>c. chk (add_base128_integer (40 * word_of_nat a + word_of_nat b) d c) (oid_rest (dotted vs) d))"
    using adds_chk [OF adds_base128 [of d "40 * word_of_nat a + word_of_nat b"] adds_oid_rest [OF vs]]
    by (simp add: arcs)
  from adds_flush_first [OF this] show ?thesis
    by (rule adds_cong)
      (simp_all only: CBB_add_asn1_oid_from_text_def CBS_init_def take_all order_refl pa pb ok
        option.case prod.case if_False)
qed

section \<open>From contents to text\<close>

lemma adds_decimal: "adds 0 (decimal (unat v)) (add_decimal v)"
  unfolding add_decimal_def by (rule adds_bytes)

lemma adds_text_rest:
  "list_all (\<lambda>v. v < 2 ^ 64) vs \<Longrightarrow>
     adds 0 (concat (map (\<lambda>v. 0x2E # decimal v) vs)) (text_rest (concat (map base128_of vs)))"
proof (induction vs)
  case Nil
  show ?case by (rule adds_cong [OF adds_ret]) (simp_all add: text_rest.simps)
next
  case (Cons v vs)
  then have v: "v < 2 ^ 64" by simp
  then have uv: "unat (word_of_nat v :: u64) = v" by (intro unat_of_nat_lt) simp
  let ?r = "concat (map base128_of vs)"
  have p: "parse_base128_integer (base128_of v @ ?r) = (Some (word_of_nat v), ?r)"
    by (rule parse_base128_of [OF v])
  have ne: "base128_of v \<noteq> []" by (simp add: base128_of_def)
  have "adds 0 (([0x2E] @ decimal v) @ concat (map (\<lambda>v. 0x2E # decimal v) vs))
     (\<lambda>c. chk (chk (CBB_add_u8 0x2E 0 c) (add_decimal (word_of_nat v))) (text_rest ?r))"
    using adds_decimal [of "word_of_nat v"] Cons unfolding uv
    by (intro adds_chk adds_u8) simp_all
  then show ?case
    by (rule adds_cong) (simp, subst text_rest.simps [of "concat (map base128_of (v # vs))"], simp add: p ne)
qed

lemma dotted_rest: "dotted (v # vs) = decimal v @ concat (map (\<lambda>v. 0x2E # decimal v) vs)"
  by (induction vs arbitrary: v) simp_all

text \<open>The arcs behind the number that holds the first two.\<close>

definition first_arcs :: "nat \<Rightarrow> nat list" where
  "first_arcs v = (if v \<ge> 80 then [2, v - 80] else [v div 40, v mod 40])"

lemma adds_first_arcs:
  "adds 0 (dotted (first_arcs (unat v)))
     (\<lambda>c. if v \<ge> 80 then chk (CBB_add_bytes [0x32, 0x2E] 0 c) (add_decimal (v - 80))
          else chk (add_decimal (v div 40) c) (\<lambda>c. chk (CBB_add_u8 0x2E 0 c) (add_decimal (v mod 40))))"
proof (cases "v \<ge> 80")
  case True
  then have "unat (v - 80) = unat v - 80" by (subst unat_sub) simp_all
  moreover have "decimal 2 = [0x32]" by (subst decimal_step) (simp add: digit_def)
  moreover have "80 \<le> unat v" using True by (simp add: word_le_nat_alt)
  ultimately show ?thesis
    using adds_chk [OF adds_bytes [of 0 "[0x32, 0x2E]"] adds_decimal [of "v - 80"]] True
    by (simp add: first_arcs_def)
next
  case False
  then have "\<not> 80 \<le> unat v" by (simp add: word_le_nat_alt)
  then show ?thesis
    using adds_chk [OF adds_decimal [of "v div 40"] adds_chk [OF adds_u8 [of 0 "0x2E"] adds_decimal [of "v mod 40"]]] False
    by (simp add: first_arcs_def unat_div unat_mod)
qed

lemma length_decimal: "n < 10 ^ Suc k \<Longrightarrow> length (decimal n) \<le> Suc k"
proof (induction k arbitrary: n)
  case 0
  then show ?case by (subst decimal_step) simp
next
  case (Suc k)
  then have "length (decimal (n div 10)) \<le> Suc k" by (intro Suc.IH) (simp add: div_less_iff_less_mult)
  then show ?case by (subst decimal_step) simp
qed

lemma length_decimal_u64: "n < 2 ^ 64 \<Longrightarrow> length (decimal n) \<le> 20"
  using length_decimal [of n 19] by simp

lemma length_dotted_rest:
  "list_all (\<lambda>v. v < 2 ^ 64) vs \<Longrightarrow> length (concat (map (\<lambda>v. 0x2E # decimal v) vs)) \<le> 21 * length vs"
proof (induction vs)
  case (Cons v vs)
  then show ?case using length_decimal_u64 [of v] by simp
qed simp

lemma length_concat_base128: "length vs \<le> length (concat (map base128_of vs))"
  by (induction vs) (simp_all add: base128_of_def)

lemma oid_to_text:
  assumes v: "v < 2 ^ 64" and vs: "list_all (\<lambda>v. v < 2 ^ 64) vs"
    and len: "length (base128_of v @ concat (map base128_of vs)) < 2 ^ 59"
  shows "CBS_asn1_oid_to_text (\<lambda>_. True) (base128_of v @ concat (map base128_of vs))
    = Some (dotted (first_arcs v @ vs) @ [0])"
proof -
  let ?cbs = "base128_of v @ concat (map base128_of vs)"
  let ?w = "word_of_nat v :: u64" and ?rest = "concat (map (\<lambda>v. 0x2E # decimal v) vs)"
  have w: "unat ?w = v" using v by (intro unat_of_nat_lt) simp
  have p: "parse_base128_integer ?cbs = (Some ?w, concat (map base128_of vs))" by (rule parse_base128_of [OF v])
  have "adds 0 (dotted (first_arcs v) @ ?rest @ [0])
    (\<lambda>c. chk (if ?w \<ge> 80 then chk (CBB_add_bytes [0x32, 0x2E] 0 c) (add_decimal (?w - 80))
              else chk (add_decimal (?w div 40) c) (\<lambda>c. chk (CBB_add_u8 0x2E 0 c) (add_decimal (?w mod 40)))) (\<lambda>c.
         chk (text_rest (concat (map base128_of vs)) c) (CBB_add_u8 0 0)))"
    using adds_first_arcs [of ?w] unfolding w by (intro adds_chk adds_text_rest [OF vs] adds_u8)
  moreover have "dotted (first_arcs v @ vs) @ [0] = dotted (first_arcs v) @ ?rest @ [0]"
    by (simp add: first_arcs_def dotted_rest del: dotted.simps)
  moreover have "length (dotted (first_arcs v) @ ?rest @ [0]) < size_mod"
  proof -
    have "length (dotted (first_arcs v)) \<le> 41"
      using length_decimal_u64 [OF le_less_trans [OF diff_le_self v], of 80] length_decimal_u64 [of 2]
        length_decimal_u64 [OF le_less_trans [OF div_le_dividend v], of 40]
        length_decimal_u64 [OF le_less_trans [OF mod_less_eq_dividend v], of 40] by (simp add: first_arcs_def)
    moreover have "length ?rest \<le> 21 * 2 ^ 59"
      using length_dotted_rest [OF vs] length_concat_base128 [of vs] len by simp
    ultimately show ?thesis by simp
  qed
  moreover have "CBS_asn1_oid_to_text (\<lambda>_. True) ?cbs = build (\<lambda>_. True) 32
    (\<lambda>c. chk (if ?w \<ge> 80 then chk (CBB_add_bytes [0x32, 0x2E] 0 c) (add_decimal (?w - 80))
              else chk (add_decimal (?w div 40) c) (\<lambda>c. chk (CBB_add_u8 0x2E 0 c) (add_decimal (?w mod 40)))) (\<lambda>c.
         chk (text_rest (concat (map base128_of vs)) c) (CBB_add_u8 0 0)))"
    unfolding CBS_asn1_oid_to_text_def build_def p by (simp split: prod.splits bool.splits)
  ultimately show ?thesis by (simp add: build_adds)
qed

text \<open>What has a text is a list of base-128 numbers.\<close>

lemma text_rest_True:
  "text_rest copy c = (True, c') \<Longrightarrow> \<exists>vs. list_all (\<lambda>v. v < 2 ^ 64) vs \<and> copy = concat (map base128_of vs)"
proof (induction copy c rule: text_rest.induct)
  case (1 copy c)
  show ?case
  proof (cases "copy = []")
    case True
    then show ?thesis by (intro exI [of _ "[]"]) simp
  next
    case False
    from "1.prems" False obtain v copy' c1 where p: "parse_base128_integer copy = (Some v, copy')"
      and r: "text_rest copy' c1 = (True, c')"
      and c1: "chk (CBB_add_u8 0x2E 0 c) (add_decimal v) = (True, c1)"
      by (subst (asm) text_rest.simps) (auto simp: chk_True split: prod.splits option.splits)
    have "\<exists>vs. list_all (\<lambda>v. v < 2 ^ 64) vs \<and> copy' = concat (map base128_of vs)"
      using "1.IH" [OF _ p [symmetric] refl c1] False r by simp
    then obtain vs where "list_all (\<lambda>v. v < 2 ^ 64) vs" "copy' = concat (map base128_of vs)" by blast
    moreover have "copy = base128_of (unat v) @ copy'" using p by (simp add: parse_base128_Some)
    ultimately show ?thesis using unat_u64_lt [of v] by (intro exI [of _ "unat v # vs"]) simp
  qed
qed

lemma oid_to_text_shape:
  assumes "CBS_asn1_oid_to_text alloc cbs = Some t"
  obtains v vs where "v < 2 ^ 64" "list_all (\<lambda>v. v < 2 ^ 64) vs" "cbs = base128_of v @ concat (map base128_of vs)"
proof -
  obtain w copy where pw: "parse_base128_integer cbs = (w, copy)" by fastforce
  from assms obtain v where w: "w = Some v"
    unfolding CBS_asn1_oid_to_text_def pw by (cases w) (auto simp: chk_def split: prod.splits bool.splits)
  with assms obtain c c' where r: "text_rest copy c = (True, c')"
    unfolding CBS_asn1_oid_to_text_def pw w option.case prod.case
    by (auto simp: chk_True split: prod.splits bool.splits)
  have p: "parse_base128_integer cbs = (Some v, copy)" using pw w by simp
  from text_rest_True [OF r] obtain vs where "list_all (\<lambda>v. v < 2 ^ 64) vs" "copy = concat (map base128_of vs)" by blast
  moreover have "cbs = base128_of (unat v) @ copy" using p by (simp add: parse_base128_Some)
  ultimately show ?thesis using unat_u64_lt [of v] by (intro that [of "unat v" vs]) simp_all
qed

lemma first_arcs_ok:
  assumes "v < 2 ^ 64" and "list_all (\<lambda>v. v < 2 ^ 64) vs"
  shows "oid_arcs_ok (first_arcs v @ vs)"
    and "oid_bytes (first_arcs v @ vs) = base128_of v @ concat (map base128_of vs)"
  using assms by (auto simp: oid_arcs_ok_def first_arcs_def)

lemma first_arcs_of:
  assumes "oid_arcs_ok (a # b # vs)"
  shows "first_arcs (40 * a + b) = [a, b]"
  using assms by (auto simp: oid_arcs_ok_def first_arcs_def le_Suc_eq numeral_2_eq_2)

section \<open>Properties\<close>

text \<open>C19: Object identifiers survive the way through their text: for arcs in the ranges of X.660, the
  builder encodes the dotted text as the contents of the arcs, and \<open>CBS_asn1_oid_to_text\<close> turns the
  contents into the same text.\<close>

theorem oid_text_roundtrip:
  assumes "oid_arcs_ok arcs" and "length (oid_bytes arcs) < 2 ^ 59"
  shows "build (\<lambda>_. True) 0 (CBB_add_asn1_oid_from_text (dotted arcs) (length (dotted arcs)) 0) = Some (oid_bytes arcs) \<and>
    CBS_asn1_oid_to_text (\<lambda>_. True) (oid_bytes arcs) = Some (dotted arcs @ [0])"
proof -
  obtain a b vs where arcs: "arcs = a # b # vs" using assms(1) by (auto simp: oid_arcs_ok_def split: list.splits)
  have v: "40 * a + b < 2 ^ 64" and vs: "list_all (\<lambda>v. v < 2 ^ 64) vs"
    using assms(1) by (auto simp: arcs oid_arcs_ok_def)
  have "CBS_asn1_oid_to_text (\<lambda>_. True) (oid_bytes arcs) = Some (dotted (first_arcs (40 * a + b) @ vs) @ [0])"
    using oid_to_text [OF v vs] assms(2) by (simp add: arcs)
  then have "CBS_asn1_oid_to_text (\<lambda>_. True) (oid_bytes arcs) = Some (dotted arcs @ [0])"
    using first_arcs_of [of a b vs] assms(1) by (simp add: arcs)
  moreover have "build (\<lambda>_. True) 0 (CBB_add_asn1_oid_from_text (dotted arcs) (length (dotted arcs)) 0) = Some (oid_bytes arcs)"
    using assms by (intro build_adds adds_oid_from_text) simp_all
  ultimately show ?thesis by simp
qed

theorem oid_text_roundtrip_witness:
  "build (\<lambda>_. True) 0 (CBB_add_asn1_oid_from_text [0x31, 0x2E, 0x32, 0x2E, 0x38, 0x34, 0x30] 7 0) = Some [42, 134, 72] \<and>
   CBS_asn1_oid_to_text (\<lambda>_. True) [42, 134, 72] = Some [0x31, 0x2E, 0x32, 0x2E, 0x38, 0x34, 0x30, 0]"
proof -
  have ok: "oid_arcs_ok [1, 2, 840]" and b: "oid_bytes [1, 2, 840] = [42, 134, 72]"
    and d: "dotted [1, 2, 840] = [0x31, 0x2E, 0x32, 0x2E, 0x38, 0x34, 0x30]"
    and l: "length [0x31, 0x2E, 0x32, 0x2E, 0x38, 0x34, 0x30 :: u8] = 7" by code_simp+
  have "length (oid_bytes [1, 2, 840]) < 2 ^ 59" unfolding b by simp
  from oid_text_roundtrip [OF ok this] show ?thesis unfolding b d l by simp
qed

text \<open>C20: Whatever contents have a text, the text is the dotted form of valid arcs and the builder turns it
  back into the very same contents: padded or truncated arcs have no text.\<close>

theorem oid_text_canonical:
  assumes "CBS_asn1_oid_to_text (\<lambda>_. True) cbs = Some t" and "length cbs < 2 ^ 59"
  shows "\<exists>arcs. oid_arcs_ok arcs \<and> t = dotted arcs @ [0] \<and>
    build (\<lambda>_. True) 0 (CBB_add_asn1_oid_from_text (dotted arcs) (length (dotted arcs)) 0) = Some cbs"
proof -
  obtain v vs where v: "v < 2 ^ 64" and vs: "list_all (\<lambda>v. v < 2 ^ 64) vs"
    and cbs: "cbs = base128_of v @ concat (map base128_of vs)" by (rule oid_to_text_shape [OF assms(1)])
  have "t = dotted (first_arcs v @ vs) @ [0]" using oid_to_text [OF v vs] assms unfolding cbs by simp
  moreover have "build (\<lambda>_. True) 0 (CBB_add_asn1_oid_from_text (dotted (first_arcs v @ vs))
      (length (dotted (first_arcs v @ vs))) 0) = Some cbs"
    using build_adds [OF adds_oid_from_text [OF first_arcs_ok(1) [OF v vs]]] assms(2)
    unfolding first_arcs_ok(2) [OF v vs] cbs by simp
  ultimately show ?thesis using first_arcs_ok(1) [OF v vs] by blast
qed

theorem oid_text_canonical_witness:
  "\<exists>arcs. oid_arcs_ok arcs \<and> [0x32, 0x2E, 0x35, 0] = dotted arcs @ [0] \<and>
    build (\<lambda>_. True) 0 (CBB_add_asn1_oid_from_text (dotted arcs) (length (dotted arcs)) 0) = Some [85]"
proof (rule oid_text_canonical)
  show "CBS_asn1_oid_to_text (\<lambda>_. True) [85] = Some [0x32, 0x2E, 0x35, 0]" by code_simp
qed simp

end
