(* ===== verification/SetOf.thy ===== *)
theory SetOf imports CbbRoundtrip "HOL-Library.Multiset" begin

text \<open>
  \<open>CBB_flush_asn1_set_of\<close> of \<open>cbb.c\<close>: the elements of a SET OF are put in the ascending order of
  their encodings. The comparison is the lexicographic order, so the sorted sequence depends
  only on the multiset of the elements and the encoding of a SET OF is canonical; whatever
  sorting algorithm \<open>qsort\<close> is, its result is the one of the model.
\<close>

section \<open>The order\<close>

fun lex_le :: "u8 list \<Rightarrow> u8 list \<Rightarrow> bool" where
  "lex_le [] bs = True"
| "lex_le (a # as) [] = False"
| "lex_le (a # as) (b # bs) = (a < b \<or> a = b \<and> lex_le as bs)"

lemma OPENSSL_memcmp_0: "length as = n \<Longrightarrow> OPENSSL_memcmp as bs 0 = 0" 
  by (cases as; cases bs) simp_all

lemma compare_Nil: "compare_set_of_element [] b = (if b = [] then 0 else -1)"
  "compare_set_of_element (x # a) [] = 1"
  by (cases b) (simp_all add: compare_set_of_element_def Let_def)

lemma compare_Cons:
  "compare_set_of_element (x # a) (y # b) =
     (if x < y then -1 else if y < x then 1 else compare_set_of_element a b)"
  by (auto simp: compare_set_of_element_def Let_def)

lemma compare_lex: "compare_set_of_element a b \<le> 0 \<longleftrightarrow> lex_le a b"
  by (induction a b rule: lex_le.induct) (auto simp: compare_Nil compare_Cons)

lemma lex_le_refl [simp]: "lex_le a a"
  by (induction a) auto

lemma lex_le_total: "lex_le a b \<or> lex_le b a"
  by (induction a b rule: lex_le.induct) auto

lemma lex_le_antisym: "lex_le a b \<Longrightarrow> lex_le b a \<Longrightarrow> a = b"
proof (induction a b rule: lex_le.induct)
  case (1 bs)
  then show ?case by (cases bs) auto
qed auto

lemma lex_le_trans: "lex_le a b \<Longrightarrow> lex_le b c \<Longrightarrow> lex_le a c"
proof (induction a c arbitrary: b rule: lex_le.induct)
  case (2 x as)
  then show ?case by (cases b) auto
next
  case (3 x as y bs)
  then show ?case by (cases b) (auto dest: less_trans)
qed auto

section \<open>Sorting\<close>

lemma set_insert_by: "set (insert_by cmp x ys) = insert x (set ys)"
  by (induction ys) auto

lemma mset_insert_by: "mset (insert_by cmp x ys) = add_mset x (mset ys)"
  by (induction ys) auto

lemma mset_qsort: "mset (qsort cmp xs) = mset xs"
  by (induction xs) (simp_all add: qsort_def mset_insert_by)

lemma sorted_insert_by:
  "sorted_wrt lex_le ys \<Longrightarrow> sorted_wrt lex_le (insert_by compare_set_of_element x ys)"
  using lex_le_total lex_le_trans by (induction ys) (auto simp: compare_lex set_insert_by)

lemma sorted_qsort: "sorted_wrt lex_le (qsort compare_set_of_element xs)"
  by (induction xs) (simp_all add: qsort_def sorted_insert_by)

text \<open>A sorted arrangement is unique.\<close>

lemma sorted_unique:
  "sorted_wrt lex_le xs \<Longrightarrow> sorted_wrt lex_le ys \<Longrightarrow> mset xs = mset ys \<Longrightarrow> xs = ys"
proof (induction xs arbitrary: ys)
  case Nil
  then show ?case by simp
next
  case (Cons x xs)
  then obtain y zs where ys: "ys = y # zs" by (cases ys) auto
  have "set (x # xs) = set ys" using Cons.prems(3) by (rule mset_eq_setD)
  then have "x \<in> set ys" "y \<in> set (x # xs)" using ys by auto
  then have "x = y" using Cons.prems(1,2) ys by (auto intro: lex_le_antisym)
  then show ?case using Cons ys by simp
qed

lemma qsort_unique:
  "sorted_wrt lex_le ys \<Longrightarrow> mset ys = mset xs \<Longrightarrow> qsort compare_set_of_element xs = ys"
  by (rule sorted_unique) (simp_all add: sorted_qsort mset_qsort)

section \<open>The flush\<close>

definition is_element :: "u8 list \<Rightarrow> bool" where
  "is_element x \<longleftrightarrow> (\<exists>tag body. length body < 2 ^ 32 \<and> x = der_element tag body)"

lemma element_ne: "der_element tag body \<noteq> []"
  by (simp add: der_element_def der_header_def der_len_def)

lemma parse_elements_concat:
  "\<forall>x \<in> set xs. is_element x \<Longrightarrow> parse_elements (concat xs) = Some xs"
proof (induction xs)
  case Nil
  show ?case by (simp add: parse_elements.simps)
next
  case (Cons x xs)
  then obtain tag body where b: "length body < 2 ^ 32" "x = der_element tag body" by (auto simp: is_element_def)
  then have "CBS_get_any_asn1_element (concat (x # xs)) =
      (Some (x, tag, length (der_header tag (length body))), concat xs)"
    unfolding CBS_get_any_asn1_element_Some by auto
  then show ?case using Cons b element_ne [of tag body]
    by (subst parse_elements.simps) simp
qed

lemma adds_all: "adds d (concat xs) (add_all xs d)"
proof (induction xs)
  case Nil
  show ?case by (rule adds_cong [OF adds_ret]) simp_all
next
  case (Cons x xs)
  show ?case by (rule adds_cong [OF adds_chk [OF adds_bytes Cons]]) simp_all
qed

text \<open>The contents of a fresh child are the elements that were added.\<close>

lemma adds_set_of:
  assumes el: "\<forall>x \<in> set xs. is_element x" and len: "length xs < 2 ^ 59"
  shows "adds_fresh d (concat (qsort compare_set_of_element xs))
    (\<lambda>c. chk (add_all xs d c) (CBB_flush_asn1_set_of d) )"
  unfolding adds_fresh_def
proof (intro allI impI)
  let ?ys = "qsort compare_set_of_element xs"
  have same: "length (concat ?ys) = length (concat xs)" "length ?ys = length xs"
  proof -
    have "mset (map length ?ys) = mset (map length xs)" by (simp add: mset_qsort)
    then have "sum_list (map length ?ys) = sum_list (map length xs)" by (metis sum_mset_sum_list)
    then show "length (concat ?ys) = length (concat xs)" by (simp add: length_concat)
    show "length ?ys = length xs" using mset_qsort [of compare_set_of_element xs] by (metis size_mset)
  qed
  fix c assume c: "cbb_ready d c (length (concat ?ys)) \<and> cbb_start d c = length (c_data c)"
  then have r: "cbb_ready d c (length (concat xs))" by (simp add: same)
  from adds_run [OF adds_all r] obtain cap where cap: "cap_ok c (length (concat xs)) cap"
    and a: "add_all xs d c = (True, appended c (concat xs) cap)" .
  let ?c1 = "appended c (concat xs) cap"
  have "cbb_start d ?c1 = cbb_start d c" by (simp add: cbb_start_def)
  then have start: "cbb_start d ?c1 = length (c_data c)" using c by simp
  have r1: "cbb_ready d ?c1 0" by (rule ready_appended [OF _ cap]) (use r in simp)
  have data: "CBB_data d ?c1 = concat xs" by (simp add: CBB_data_def start)
  show "\<exists>cap. cap_ok c (length (concat ?ys)) cap \<and>
      chk (add_all xs d c) (CBB_flush_asn1_set_of d) = (True, appended c (concat ?ys) cap)"
  proof (cases "length xs < 2")
    case True
    then have "xs = [] \<or> (\<exists>x. xs = [x])" by (cases xs rule: remdups_adj.cases) auto
    then have "?ys = xs" by (auto simp: qsort_def)
    moreover have "CBB_flush_asn1_set_of d ?c1 = (True, ?c1)"
      using True flush_ready [OF r1] by (simp add: CBB_flush_asn1_set_of_def data parse_elements_concat [OF el] Let_def)
    ultimately show ?thesis using a cap by (auto intro: exI [of _ cap])
  next
    case False
    then have "concat xs \<noteq> []" using el element_ne by (cases xs) (auto simp: is_element_def)
    then have dup: "BUF_memdup (c_alloc ?c1) (CBB_data d ?c1) (CBB_len d ?c1) \<noteq> None"
      using r by (simp add: BUF_memdup_def data CBB_len_def start cbb_ready_def cbb_room_def)
    have sc: "?c1\<lparr>c_data := take (cbb_start d ?c1) (c_data ?c1)\<rparr> = appended c [] cap"
      unfolding start by (simp add: appended_def)
    have al: "c_alloc ?c1 k" for k using r by (simp add: cbb_ready_def cbb_room_def)
    have "CBB_flush_asn1_set_of d ?c1 = add_all ?ys d (appended c [] cap)"
      unfolding CBB_flush_asn1_set_of_def flush_ready [OF r1] chk_simps data parse_elements_concat [OF el]
        option.case Let_def sc using False len dup al by (auto simp: data)
    moreover have "cbb_ready d (appended c [] cap) (length (concat ?ys))"
      using r cap same by (auto simp: cbb_ready_def cbb_room_def cap_ok_def)
    note adds_run [OF adds_all this]
    then obtain cap' where "cap_ok (appended c [] cap) (length (concat ?ys)) cap'"
      and "add_all ?ys d (appended c [] cap) = (True, appended c (concat ?ys) cap')" by auto
    ultimately show ?thesis using a cap by (auto simp: cap_ok_def intro!: exI [of _ cap'])
  qed
qed

section \<open>Properties\<close>

lemma build_set_of:
  assumes el: "\<forall>x \<in> set xs. is_element x" and len: "length (concat xs) \<le> 0xFFFFFFFE"
  shows "build (\<lambda>_. True) 0
      (\<lambda>c. chk (CBB_add_asn1 tag 0 c) (\<lambda>c. chk (chk (add_all xs 1 c) (CBB_flush_asn1_set_of 1)) (CBB_flush 0)))
    = Some (der_element tag (concat (qsort compare_set_of_element xs)))"
proof -
  let ?ys = "qsort compare_set_of_element xs"
  have "mset (map length ?ys) = mset (map length xs)" by (simp add: mset_qsort)
  then have "sum_list (map length ?ys) = sum_list (map length xs)" by (metis sum_mset_sum_list)
  then have same: "length (concat ?ys) = length (concat xs)" by (simp add: length_concat)
  have "length xs \<le> length (concat xs)"
    using el
  proof (induction xs)
    case (Cons x xs)
    then have "0 < length x" using element_ne by (auto simp: is_element_def)
    moreover have "length xs \<le> length (concat xs)" using Cons by simp
    ultimately show ?case unfolding list.size concat.simps length_append by linarith
  qed simp
  then have "adds_fresh 1 (concat ?ys) (\<lambda>c. chk (add_all xs 1 c) (CBB_flush_asn1_set_of 1))"
    using len by (intro adds_set_of [OF el]) simp
  moreover have "length (der_element tag (concat ?ys)) < size_mod"
    using length_der_element [of tag "concat ?ys"] len same by simp
  ultimately show ?thesis using len same by (intro build_adds adds_asn1_fresh) simp_all
qed

text \<open>C21: The encoding of a SET OF is canonical: elements added in any order and flushed with
  \<open>CBB_flush_asn1_set_of\<close> give one ASN.1 element that holds them in ascending lexicographic order, each as
  often as it was added, so two orders of the same elements give the same bytes.\<close>

theorem set_of_canonical:
  assumes "\<forall>x \<in> set xs. is_element x" and "length (concat xs) \<le> 0xFFFFFFFE" and "mset ys = mset xs"
  shows "\<exists>zs. sorted_wrt lex_le zs \<and> mset zs = mset xs \<and>
    build (\<lambda>_. True) 0
      (\<lambda>c. chk (CBB_add_asn1 tag 0 c) (\<lambda>c. chk (chk (add_all xs 1 c) (CBB_flush_asn1_set_of 1)) (CBB_flush 0)))
      = Some (der_element tag (concat zs)) \<and>
    build (\<lambda>_. True) 0
      (\<lambda>c. chk (CBB_add_asn1 tag 0 c) (\<lambda>c. chk (chk (add_all ys 1 c) (CBB_flush_asn1_set_of 1)) (CBB_flush 0)))
      = Some (der_element tag (concat zs))"
proof -
  have "mset (map length ys) = mset (map length xs)" by (simp add: assms(3))
  then have "sum_list (map length ys) = sum_list (map length xs)" by (metis sum_mset_sum_list)
  then have len: "length (concat ys) \<le> 0xFFFFFFFE" using assms(2) by (simp add: length_concat)
  have el: "\<forall>x \<in> set ys. is_element x" using assms(1) mset_eq_setD [OF assms(3)] by simp
  have "qsort compare_set_of_element ys = qsort compare_set_of_element xs"
    by (rule qsort_unique) (simp_all add: sorted_qsort mset_qsort assms(3))
  then show ?thesis
    using build_set_of [OF assms(1,2)] build_set_of [OF el len] sorted_qsort mset_qsort by metis
qed

theorem set_of_canonical_witness:
  "build (\<lambda>_. True) 0
      (\<lambda>c. chk (CBB_add_asn1 0x20000011 0 c) (\<lambda>c. chk (chk (add_all [[2, 1, 5], [1, 1, 255]] 1 c) (CBB_flush_asn1_set_of 1)) (CBB_flush 0))) =
   build (\<lambda>_. True) 0
      (\<lambda>c. chk (CBB_add_asn1 0x20000011 0 c) (\<lambda>c. chk (chk (add_all [[1, 1, 255], [2, 1, 5]] 1 c) (CBB_flush_asn1_set_of 1)) (CBB_flush 0)))"
proof -
  have "der_element 0x2 [5] = [2, 1, 5]" "der_element 0x1 [255] = [1, 1, 255]" by code_simp+
  moreover have "is_element (der_element tag [b])" for tag b
    unfolding is_element_def by (intro exI [of _ tag] exI [of _ "[b]"]) simp
  ultimately have "is_element [2, 1, 5]" "is_element [1, 1, 255]" by metis+
  then show ?thesis
    using set_of_canonical [of "[[2, 1, 5], [1, 1, 255]]" "[[1, 1, 255], [2, 1, 5]]" "0x20000011"] by auto
qed

end
