(* ===== verification/Base64.thy ===== *)
theory Base64 imports Prelude begin

text \<open>
  Base64 of BoringSSL, \<open>crypto/base64/base64.c\<close>, and the constant-time primitives of
  \<open>crypto/internal.h\<close> it is written with: the block encoder and decoder, and the streaming ones,
  which work on an \<open>EVP_ENCODE_CTX\<close>. A function that fills an output buffer returns the bytes it has
  written; a character is its ASCII code.
\<close>

section \<open>Constant-time primitives\<close>

definition constant_time_msb_w :: "u64 \<Rightarrow> u64" where
  "constant_time_msb_w a = 0 - drop_bit 63 a"

definition constant_time_is_zero_w :: "u64 \<Rightarrow> u64" where
  "constant_time_is_zero_w a = constant_time_msb_w (NOT a AND (a - 1))"

definition constant_time_eq_w :: "u64 \<Rightarrow> u64 \<Rightarrow> u64" where
  "constant_time_eq_w a b = constant_time_is_zero_w (a XOR b)"

definition constant_time_eq_8 :: "u8 \<Rightarrow> u8 \<Rightarrow> u8" where
  "constant_time_eq_8 a b = ucast (constant_time_eq_w (ucast a) (ucast b))"

definition constant_time_select_w :: "u64 \<Rightarrow> u64 \<Rightarrow> u64 \<Rightarrow> u64" where
  "constant_time_select_w msk a b = (msk AND a) OR (NOT msk AND b)"

definition constant_time_select_8 :: "u8 \<Rightarrow> u8 \<Rightarrow> u8 \<Rightarrow> u8" where
  "constant_time_select_8 msk a b = ucast (constant_time_select_w (ucast msk) (ucast a) (ucast b))"

definition constant_time_lt_args_8 :: "u8 \<Rightarrow> u8 \<Rightarrow> u8" where
  "constant_time_lt_args_8 a b = ucast (constant_time_msb_w (ucast a - ucast b))"

definition constant_time_in_range_8 :: "u8 \<Rightarrow> u8 \<Rightarrow> u8 \<Rightarrow> u8" where
  "constant_time_in_range_8 a lo hi = constant_time_lt_args_8 (a - lo) (hi - lo + 1)"

section \<open>Encoding\<close>

definition conv_bin2ascii :: "u8 \<Rightarrow> u8" where
  "conv_bin2ascii a =
     (let a = a AND 0x3F;
          ret = constant_time_select_8 (constant_time_eq_8 a 62) 43 47;
          ret = constant_time_select_8 (constant_time_lt_args_8 a 62) (a - 52 + 48) ret;
          ret = constant_time_select_8 (constant_time_lt_args_8 a 52) (a - 26 + 97) ret
      in constant_time_select_8 (constant_time_lt_args_8 a 26) (a + 65) ret)"

definition EVP_EncodedLength :: "nat \<Rightarrow> nat option" where
  "EVP_EncodedLength len =
     (if (len + 2) mod size_mod < len then None
      else
        let len = (len + 2) mod size_mod div 3 in
        if len * 4 mod size_mod div 4 \<noteq> len then None
        else
          let len = len * 4 mod size_mod in
          if (len + 1) mod size_mod < len then None else Some (len + 1))"

text \<open>The characters that the loop of \<open>EVP_EncodeBlock\<close> writes.\<close>

definition quad_of :: "u32 \<Rightarrow> u8 list" where
  "quad_of l = map (\<lambda>k. conv_bin2ascii (ucast (drop_bit k l))) [18, 12, 6, 0]"

fun encode_block :: "u8 list \<Rightarrow> u8 list" where
  "encode_block [] = []"
| "encode_block [a] =
     (let l = push_bit 16 (ucast a) :: u32
      in [conv_bin2ascii (ucast (drop_bit 18 l)), conv_bin2ascii (ucast (drop_bit 12 l)), 61, 61])"
| "encode_block [a, b] =
     (let l = push_bit 16 (ucast a) OR push_bit 8 (ucast b) :: u32
      in [conv_bin2ascii (ucast (drop_bit 18 l)), conv_bin2ascii (ucast (drop_bit 12 l)),
          conv_bin2ascii (ucast (drop_bit 6 l)), 61])"
| "encode_block (a # b # c # src) =
     quad_of (push_bit 16 (ucast a) OR push_bit 8 (ucast b) OR ucast c) @ encode_block src"

text \<open>The bytes in \<open>dst\<close>, with the final NUL, and the number that is returned.\<close>

definition EVP_EncodeBlock :: "u8 list \<Rightarrow> u8 list \<times> nat" where
  "EVP_EncodeBlock src = (encode_block src @ [0], length (encode_block src))"

text \<open>\<open>EVP_ENCODE_CTX\<close>; the encoder and the decoder use the same structure.\<close>

record enc_ctx =
  x_data_used :: nat
  x_data :: "u8 list"
  x_eof_seen :: bool
  x_error :: bool

definition EVP_EncodeInit :: enc_ctx where
  "EVP_EncodeInit = \<lparr>x_data_used = 0, x_data = replicate 48 0, x_eof_seen = False, x_error = False\<rparr>"

text \<open>One line: the encoded block and a newline; the NUL behind it is overwritten by the next line.\<close>

definition encode_line :: "u8 list \<Rightarrow> u8 list" where
  "encode_line bs = encode_block bs @ [10]"

text \<open>The loop over full lines: the input that is left, what was written, and \<open>total\<close>, which is
  \<open>None\<close> when it has wrapped.\<close>

function encode_lines_loop :: "u8 list \<Rightarrow> u8 list \<Rightarrow> nat \<Rightarrow> u8 list \<times> u8 list \<times> nat option" where
  "encode_lines_loop inp out tot =
     (if length inp \<ge> 48 then
        let encoded = length (encode_block (take 48 inp)); out = out @ encode_line (take 48 inp) in
        if (tot + encoded + 1) mod size_mod < tot then (drop 48 inp, out, None)
        else encode_lines_loop (drop 48 inp) out ((tot + encoded + 1) mod size_mod)
      else (inp, out, Some tot))"
  by pat_completeness auto
termination by (relation "measure (\<lambda>(inp, out, tot). length inp)") auto

declare encode_lines_loop.simps [simp del]

text \<open>The context, the bytes written in front of the final NUL, and \<open>*out_len\<close>.\<close>

definition EVP_EncodeUpdate :: "enc_ctx \<Rightarrow> u8 list \<Rightarrow> enc_ctx \<times> u8 list \<times> nat" where
  "EVP_EncodeUpdate ctx inp =
     (let used = x_data_used ctx in
      if inp = [] then (ctx, [], 0)
      else if 48 - used > length inp
      then (ctx\<lparr>x_data := splice (x_data ctx) used inp, x_data_used := used + length inp\<rparr>, [], 0)
      else
        let todo = 48 - used;
            dat = (if used \<noteq> 0 then splice (x_data ctx) used (take todo inp) else x_data ctx);
            inp = (if used \<noteq> 0 then drop todo inp else inp);
            out = (if used \<noteq> 0 then encode_line dat else []);
            tot = (if used \<noteq> 0 then length (encode_block dat) + 1 else 0);
            ctx = ctx\<lparr>x_data := dat, x_data_used := (if used \<noteq> 0 then 0 else used)\<rparr>
        in case encode_lines_loop inp out tot of
             (inp, out, None) \<Rightarrow> (ctx, out, 0)
           | (inp, out, Some tot) \<Rightarrow>
               (ctx\<lparr>x_data := (if inp \<noteq> [] then splice dat 0 inp else dat), x_data_used := length inp\<rparr>,
                out, if tot > INT_MAX then 0 else tot))"

definition EVP_EncodeFinal :: "enc_ctx \<Rightarrow> enc_ctx \<times> u8 list \<times> nat" where
  "EVP_EncodeFinal ctx =
     (if x_data_used ctx = 0 then (ctx, [], 0)
      else
        let out = encode_line (take (x_data_used ctx) (x_data ctx))
        in (ctx\<lparr>x_data_used := 0\<rparr>, out, length out))"

section \<open>Decoding\<close>

definition EVP_DecodedLength :: "nat \<Rightarrow> nat option" where
  "EVP_DecodedLength len = (if len mod 4 \<noteq> 0 then None else Some (len div 4 * 3))"

definition EVP_DecodeInit :: enc_ctx where
  "EVP_DecodeInit = \<lparr>x_data_used = 0, x_data = replicate 48 0, x_eof_seen = False, x_error = False\<rparr>"

definition base64_ascii_to_bin :: "u8 \<Rightarrow> u8" where
  "base64_ascii_to_bin a =
     (let ret = 0xFF;
          ret = constant_time_select_8 (constant_time_in_range_8 a 65 90) (a - 65) ret;
          ret = constant_time_select_8 (constant_time_in_range_8 a 97 122) (a - 97 + 26) ret;
          ret = constant_time_select_8 (constant_time_in_range_8 a 48 57) (a - 48 + 52) ret;
          ret = constant_time_select_8 (constant_time_eq_8 a 43) 62 ret;
          ret = constant_time_select_8 (constant_time_eq_8 a 47) 63 ret
      in constant_time_select_8 (constant_time_eq_8 a 61) 0 ret)"

text \<open>The bytes that a quad decodes to.\<close>

definition base64_decode_quad :: "u8 list \<Rightarrow> u8 list option" where
  "base64_decode_quad inp =
     (let a = base64_ascii_to_bin (inp ! 0); b = base64_ascii_to_bin (inp ! 1);
          c = base64_ascii_to_bin (inp ! 2); d = base64_ascii_to_bin (inp ! 3) in
      if a = 0xFF \<or> b = 0xFF \<or> c = 0xFF \<or> d = 0xFF then None
      else
        let v = push_bit 18 (ucast a) OR push_bit 12 (ucast b) OR push_bit 6 (ucast c) OR ucast d :: u32;
            pad = map (\<lambda>k. inp ! k = 61) [0, 1, 2, 3]
        in if pad = [False, False, False, False]
           then Some [ucast (drop_bit 16 v), ucast (drop_bit 8 v), ucast v]
           else if pad = [False, False, False, True]
           then Some [ucast (drop_bit 16 v), ucast (drop_bit 8 v)]
           else if pad = [False, False, True, True] then Some [ucast (drop_bit 16 v)]
           else None)"

definition is_space :: "u8 \<Rightarrow> bool" where
  "is_space c \<longleftrightarrow> c = 32 \<or> c = 9 \<or> c = 13 \<or> c = 10"

text \<open>The loop of \<open>EVP_DecodeUpdate\<close>: the context and the bytes written, or \<open>None\<close> after an error.\<close>

fun decode_loop :: "enc_ctx \<Rightarrow> u8 list \<Rightarrow> u8 list \<Rightarrow> enc_ctx \<times> u8 list option" where
  "decode_loop ctx out [] = (ctx, Some out)"
| "decode_loop ctx out (c # inp) =
     (if is_space c then decode_loop ctx out inp
      else if x_eof_seen ctx then (ctx\<lparr>x_error := True\<rparr>, None)
      else
        let ctx = ctx\<lparr>x_data := (x_data ctx)[x_data_used ctx := c], x_data_used := x_data_used ctx + 1\<rparr> in
        if x_data_used ctx = 4 then
          (case base64_decode_quad (x_data ctx) of
             None \<Rightarrow> (ctx\<lparr>x_error := True\<rparr>, None)
           | Some bs \<Rightarrow>
               let ctx = ctx\<lparr>x_data_used := 0\<rparr>;
                   ctx = (if length bs < 3 then ctx\<lparr>x_eof_seen := True\<rparr> else ctx)
               in decode_loop ctx (out @ bs) inp)
        else decode_loop ctx out inp)"

text \<open>The context, the result and the bytes of which \<open>*out_len\<close> is the number.\<close>

definition EVP_DecodeUpdate :: "enc_ctx \<Rightarrow> u8 list \<Rightarrow> enc_ctx \<times> int \<times> u8 list" where
  "EVP_DecodeUpdate ctx inp =
     (if x_error ctx then (ctx, -1, [])
      else
        case decode_loop ctx [] inp of
          (ctx, None) \<Rightarrow> (ctx, -1, [])
        | (ctx, Some out) \<Rightarrow>
            if length out > INT_MAX then (ctx\<lparr>x_error := True\<rparr>, -1, [])
            else (ctx, if x_eof_seen ctx then 0 else 1, out))"

definition EVP_DecodeFinal :: "enc_ctx \<Rightarrow> int" where
  "EVP_DecodeFinal ctx = (if x_error ctx \<or> x_data_used ctx \<noteq> 0 then -1 else 1)"

text \<open>The loop over the quads; its input has a multiple of 4 characters.\<close>

fun decode_quads :: "u8 list \<Rightarrow> u8 list option" where
  "decode_quads (a # b # c # d # inp) =
     (case base64_decode_quad [a, b, c, d] of
        None \<Rightarrow> None
      | Some bs \<Rightarrow>
          if length bs \<noteq> 3 \<and> inp \<noteq> [] then None
          else map_option ((@) bs) (decode_quads inp))"
| "decode_quads inp = Some []"

definition EVP_DecodeBase64 :: "nat \<Rightarrow> u8 list \<Rightarrow> u8 list option" where
  "EVP_DecodeBase64 max_out inp =
     (if length inp mod 4 \<noteq> 0 then None
      else
        case EVP_DecodedLength (length inp) of
          None \<Rightarrow> None
        | Some max_len \<Rightarrow> if max_out < max_len then None else decode_quads inp)"

text \<open>The number that is returned, with the bytes at \<open>dst\<close>; the NULs stand for the padding.\<close>

definition EVP_DecodeBlock :: "u8 list \<Rightarrow> int \<times> u8 list" where
  "EVP_DecodeBlock src =
     (let src = dropWhile (\<lambda>c. c = 32 \<or> c = 9) src;
          src = rev (dropWhile is_space (rev src))
      in case EVP_DecodedLength (length src) of
           None \<Rightarrow> (-1, [])
         | Some dst_len \<Rightarrow>
             if dst_len > INT_MAX then (-1, [])
             else
               case EVP_DecodeBase64 dst_len src of
                 None \<Rightarrow> (-1, [])
               | Some dst \<Rightarrow>
                   let dst = dst @ replicate ((3 - length dst mod 3) mod 3) 0 in (int (length dst), dst))"

end
