(* ===== verification/Base64Spec.thy ===== *)
theory Base64Spec imports Base64 begin

text \<open>
  What the Base64 code computes. The constant-time primitives are comparisons and selections, so the
  two conversions are the tables of the code; a quad of characters gives back the three bytes it was made of.
  For the streaming functions: \<open>base64_text\<close> is the text of some data (lines of 48 bytes),
  \<open>enc_after\<close> what the context of the encoder holds between two calls, and the decoder's loop runs on
  the characters that are not white space.
\<close>

section \<open>The constant-time primitives\<close>

lemma msb_w: "constant_time_msb_w a = (if unat a < 2 ^ 63 then 0 else -1)"
proof -
  have "unat a < 2 ^ 64" using unat_u64_lt [of a] by (simp del: unat_u64_lt)
  then have "unat (drop_bit 63 a) = (if unat a < 2 ^ 63 then 0 else 1)"
    unfolding unat_drop_bit by (simp add: div_nat_eqI)
  then have "drop_bit 63 a = (if unat a < 2 ^ 63 then 0 else 1)"
    by (auto dest: word_of_unat split: if_splits)
  then show ?thesis by (simp add: constant_time_msb_w_def)
qed

lemma unat_byte_u64: "unat (ucast x :: u64) = unat x" for x :: u8
  unfolding unat_ucast_mod by (rule mod_less, rule less_trans [OF unat_u8_lt]) simp

lemma lt_args_8: "constant_time_lt_args_8 a b = (if a < b then 0xFF else 0)"
proof -
  have "unat (ucast a - ucast b :: u64) < 2 ^ 63 \<longleftrightarrow> \<not> a < b"
    using unat_u8_lt [of a] unat_u8_lt [of b]
    by (auto simp: unat_sub_if' unat_byte_u64 word_less_nat_alt simp del: unat_u8_lt)
  moreover have "(ucast (-1 :: u64) :: u8) = 0xFF" by code_simp
  ultimately show ?thesis by (simp add: constant_time_lt_args_8_def msb_w)
qed

lemma is_zero_w: "constant_time_is_zero_w a = (if a = 0 then -1 else 0)" 
proof (cases "a = 0")
  case True
  have "unat (-1 :: u64) \<ge> 2 ^ 63" by code_simp
  then show ?thesis using True by (simp add: constant_time_is_zero_w_def msb_w)
next
  case False
  let ?x = "NOT a AND (a - 1)"
  have "unat ?x < 2 ^ 63"
  proof (cases "unat a < 2 ^ 63")
    case True
    have "unat (a - 1) = unat a - 1" using False by (simp add: unat_minus_one)
    moreover have "unat ?x \<le> unat (a - 1)" using word_and_le1 [of "NOT a" "a - 1"] by (simp add: word_le_nat_alt)
    ultimately show ?thesis using True by linarith
  next
    case ge: False
    have "NOT a = 0xFFFFFFFFFFFFFFFF - a" by (simp add: not_eq_complement)
    moreover have "unat a \<le> 0xFFFFFFFFFFFFFFFF" using unat_u64_lt [of a] by linarith
    ultimately have "unat (NOT a) = 2 ^ 64 - 1 - unat a" by (simp add: unat_sub_if')
    moreover have "unat ?x \<le> unat (NOT a)" using word_and_le2 [of "NOT a" "a - 1"] by (simp add: word_le_nat_alt)
    ultimately show ?thesis using ge by simp
  qed
  then show ?thesis using False by (simp add: constant_time_is_zero_w_def msb_w)
qed

lemma eq_8: "constant_time_eq_8 a b = (if a = b then 0xFF else 0)"
proof -
  have "(ucast a XOR ucast b :: u64) = 0 \<longleftrightarrow> a = b"
  proof
    assume "(ucast a XOR ucast b :: u64) = 0"
    then have "(ucast a :: u64) = ucast b" by (metis bit.xor_left_self xor.right_neutral)
    then show "a = b" by (metis unat_byte_u64 word_unat_eq_iff)
  qed simp
  moreover have "(ucast (-1 :: u64) :: u8) = 0xFF" by code_simp
  ultimately show ?thesis by (simp add: constant_time_eq_8_def constant_time_eq_w_def is_zero_w)
qed

lemma select_8: "constant_time_select_8 (if p then 0xFF else 0) a b = (if p then a else b)"
proof -
  have m: "(0xFF :: u8) = mask 8" by (simp add: mask_eq_exp_minus_1)
  have "constant_time_select_8 (mask 8) a b = a" "constant_time_select_8 0 a b = b"
    by (rule bit_word_eqI; simp add: constant_time_select_8_def constant_time_select_w_def bit_simps)+
  then show ?thesis unfolding m by simp
qed

lemma select_simps [simp]: "constant_time_select_8 0xFF a b = a" "constant_time_select_8 0 a b = b"
  using select_8 [of True] select_8 [of False] by simp_all

lemma in_range_8:
  assumes "lo \<le> hi" "hi - lo \<noteq> 0xFF" 
  shows "constant_time_in_range_8 a lo hi = (if lo \<le> a \<and> a \<le> hi then 0xFF else 0)"
proof -
  have "unat (hi - lo) = unat hi - unat lo" using assms(1) by (simp add: unat_sub word_le_nat_alt)
  moreover have "unat (hi - lo + 1) = Suc (unat (hi - lo))"
  proof -
    have "hi - lo + 1 \<noteq> 0"
    proof
      assume "hi - lo + 1 = 0"
      then have "hi - lo = -1" by (simp only: eq_neg_iff_add_eq_0)
      then show False using assms(2) by simp
    qed
    then show ?thesis using unatSuc [of "hi - lo"] by (simp add: add.commute)
  qed
  ultimately have "a - lo < hi - lo + 1 \<longleftrightarrow> lo \<le> a \<and> a \<le> hi"
    using assms(1) unat_u8_lt [of hi] unat_u8_lt [of a] by (auto simp: word_less_nat_alt word_le_nat_alt unat_sub_if' simp del: unat_u8_lt)
  then show ?thesis by (simp add: constant_time_in_range_8_def lt_args_8)
qed


lemma conv_cases:
  "conv_bin2ascii a = (let a = a AND 0x3F in
     if a < 26 then a + 65 else if a < 52 then a - 26 + 97 else if a < 62 then a - 52 + 48
     else if a = 62 then 43 else 47)"
  by (simp add: conv_bin2ascii_def Let_def lt_args_8 eq_8)

lemma bin_cases:
  "base64_ascii_to_bin a =
     (if a = 61 then 0 else if a = 47 then 63 else if a = 43 then 62
      else if 48 \<le> a \<and> a \<le> 57 then a - 48 + 52
      else if 97 \<le> a \<and> a \<le> 122 then a - 97 + 26
      else if 65 \<le> a \<and> a \<le> 90 then a - 65 else 0xFF)"
  unfolding base64_ascii_to_bin_def Let_def
  by (subst (1 2 3) in_range_8) (simp_all add: eq_8)

text \<open>The two tables on numbers.\<close>

definition char_code :: "nat \<Rightarrow> nat" where
  "char_code n = (if n < 26 then n + 65 else if n < 52 then n + 71 else if n < 62 then n - 4 else if n = 62 then 43 else 47)"

definition code_value :: "nat \<Rightarrow> nat" where
  "code_value k = (if k = 61 then 0 else if k = 47 then 63 else if k = 43 then 62
     else if 48 \<le> k \<and> k \<le> 57 then k + 4 else if 97 \<le> k \<and> k \<le> 122 then k - 71
     else if 65 \<le> k \<and> k \<le> 90 then k - 65 else 255)"

lemma unat_add_small: "unat a + n < 256 \<Longrightarrow> unat (a + word_of_nat n) = unat a + n" for a :: u8
  by (simp add: unat_word_ariths unat_of_nat_u8 mod_simps)

lemma unat_conv:
  assumes "unat (a AND 0x3F) < 64"
  shows "unat (conv_bin2ascii a) = char_code (unat (a AND 0x3F))"
proof -
  let ?x = "a AND 0x3F"
  have e: "?x - 26 + 97 = ?x + 71" "?x - 52 + 48 = ?x - 4" by simp_all
  have "?x < 26 \<Longrightarrow> unat (?x + 65) = unat ?x + 65" using unat_add_small [of ?x 65] by (simp add: word_less_nat_alt)
  moreover have "?x < 52 \<Longrightarrow> unat (?x + 71) = unat ?x + 71" using unat_add_small [of ?x 71] by (simp add: word_less_nat_alt)
  moreover have "\<not> ?x < 52 \<Longrightarrow> unat (?x - 4) = unat ?x - 4" by (simp add: word_less_nat_alt unat_sub_if')
  moreover have "?x = 62 \<longleftrightarrow> unat ?x = 62" by (simp add: word_unat_eq_iff)
  ultimately show ?thesis
    by (auto simp: conv_cases Let_def e char_code_def word_less_nat_alt)
qed

lemma unat_bin: "unat (base64_ascii_to_bin c) = code_value (unat c)"
proof -
  have e: "c - 48 + 52 = c + 4" "c - 97 + 26 = c - 71" by simp_all
  have "c \<le> 57 \<Longrightarrow> unat (c + 4) = unat c + 4" using unat_add_small [of c 4] by (simp add: word_le_nat_alt)
  moreover have "97 \<le> c \<Longrightarrow> unat (c - 71) = unat c - 71" by (simp add: word_le_nat_alt unat_sub_if')
  moreover have "65 \<le> c \<Longrightarrow> unat (c - 65) = unat c - 65" by (simp add: word_le_nat_alt unat_sub_if')
  moreover have "c = 61 \<longleftrightarrow> unat c = 61" "c = 47 \<longleftrightarrow> unat c = 47" "c = 43 \<longleftrightarrow> unat c = 43"
    by (simp_all add: word_unat_eq_iff)
  ultimately show ?thesis
    by (auto simp: bin_cases e code_value_def word_le_nat_alt)
qed

lemma code_table: "n < 64 \<Longrightarrow> char_code n \<noteq> 61 \<and> char_code n \<notin> {9, 10, 13, 32} \<and> code_value (char_code n) = n"
  by (auto simp: char_code_def code_value_def)

lemma conv_facts:
  "conv_bin2ascii a \<noteq> 61" "\<not> is_space (conv_bin2ascii a)" "base64_ascii_to_bin (conv_bin2ascii a) = a AND 0x3F"
    "base64_ascii_to_bin (conv_bin2ascii a) \<noteq> 0xFF"
proof -
  let ?x = "a AND 0x3F"
  have m: "(0x3F :: u8) = mask 6" by (simp add: mask_eq_exp_minus_1)
  have n: "unat ?x < 64" unfolding m unat_and_mask by simp
  have t: "unat (conv_bin2ascii a) \<noteq> 61" "unat (conv_bin2ascii a) \<notin> {9, 10, 13, 32}"
    "unat (base64_ascii_to_bin (conv_bin2ascii a)) = unat ?x"
    using code_table [OF n] unat_conv [OF n] by (simp_all add: unat_bin)
  show "conv_bin2ascii a \<noteq> 61" "\<not> is_space (conv_bin2ascii a)" using t(1,2) by (auto simp: is_space_def)
  show "base64_ascii_to_bin (conv_bin2ascii a) = ?x" using t(3) by (simp only: word_unat_eq_iff)
  have "unat ?x \<noteq> unat (0xFF :: u8)" using n by simp
  then show "base64_ascii_to_bin (conv_bin2ascii a) \<noteq> 0xFF" using t(3) by auto
qed

text \<open>Four sextets of a number of 24 bits put it together again.\<close>

lemma bit_sextet:
  "bit (push_bit j (ucast (ucast (drop_bit k l) AND mask 6 :: u8)) :: u32) n \<longleftrightarrow> j \<le> n \<and> n < j + 6 \<and> n < 32 \<and> bit l (k + (n - j))"
  for l :: u32
  by (auto simp: bit_simps)

lemma bit_over: "l < 2 ^ 24 \<Longrightarrow> 24 \<le> n \<Longrightarrow> \<not> bit l n" for l :: u32
proof -
  assume "l < 2 ^ 24" "24 \<le> n"
  then have "unat (take_bit 24 l) = unat l" by (simp add: unsigned_take_bit_eq take_bit_nat_eq_self word_less_nat_alt)
  then have "l = take_bit 24 l" by (simp only: word_unat_eq_iff)
  then show "\<not> bit l n" using \<open>24 \<le> n\<close> by (metis bit_take_bit_iff not_le)
qed

lemma sextets:
  assumes "l < 2 ^ 24"
  shows "push_bit 18 (ucast (ucast (drop_bit 18 l) AND 0x3F :: u8)) OR push_bit 12 (ucast (ucast (drop_bit 12 l) AND 0x3F :: u8)) OR
    push_bit 6 (ucast (ucast (drop_bit 6 l) AND 0x3F :: u8)) OR ucast (ucast (drop_bit 0 l) AND 0x3F :: u8) = (l :: u32)"
proof -
  have m: "(0x3F :: u8) = mask 6" by (simp add: mask_eq_exp_minus_1)
  let ?s = "\<lambda>j. push_bit j (ucast (ucast (drop_bit j l) AND mask 6 :: u8)) :: u32"
  have "bit (?s 18 OR ?s 12 OR ?s 6 OR ?s 0) n = bit l n" if "n < 32" for n
  proof -
    consider "n < 6" | "6 \<le> n" "n < 12" | "12 \<le> n" "n < 18" | "18 \<le> n" "n < 24" | "24 \<le> n" by linarith
    then show ?thesis
      unfolding bit_or_iff bit_sextet using that bit_over [OF assms, of n] by cases simp_all
  qed
  then have "?s 18 OR ?s 12 OR ?s 6 OR ?s 0 = l" by (intro bit_word_eqI) simp
  then show ?thesis unfolding m by simp
qed

lemma sextet_ne: "a AND 0x3F \<noteq> 0xFF" for a :: u8
  using conv_facts(3,4) [of a] by simp

lemma decode_quad_of:
  assumes "l < 2 ^ 24"
  shows "base64_decode_quad (quad_of l) = Some [ucast (drop_bit 16 l), ucast (drop_bit 8 l), ucast (drop_bit 0 l)]"
  using sextets [OF assms]
  by (simp add: base64_decode_quad_def quad_of_def Let_def conv_facts sextet_ne)

lemma conv_0: "conv_bin2ascii 0 = 65" and bin_61: "base64_ascii_to_bin 61 = 0"
  by (simp_all add: conv_cases bin_cases)


text \<open>The bytes of the three ways to fill a quad.\<close>

abbreviation l24 :: "u8 \<Rightarrow> u8 \<Rightarrow> u8 \<Rightarrow> u32" where
  "l24 a b c \<equiv> push_bit 16 (ucast a) OR push_bit 8 (ucast b) OR ucast c"

lemma bit_push_u8: "j + 8 \<le> 32 \<Longrightarrow> bit (push_bit j (ucast a) :: u32) n \<longleftrightarrow> j \<le> n \<and> n < j + 8 \<and> bit a (n - j)" for a :: u8
  using bit_imp_le_length [of a "n - j"] by (auto simp: bit_simps)

lemma bit_l24:
  "bit (l24 a b c) n \<longleftrightarrow> 16 \<le> n \<and> n < 24 \<and> bit a (n - 16) \<or> 8 \<le> n \<and> n < 16 \<and> bit b (n - 8) \<or> n < 8 \<and> bit c n"
proof -
  have "l24 a b c = push_bit 16 (ucast a) OR push_bit 8 (ucast b) OR push_bit 0 (ucast c)" by simp
  then show ?thesis by (simp only: bit_or_iff bit_push_u8) auto
qed

lemma l24_lt: "l24 a b c < 2 ^ 24"
proof -
  have "l24 a b c = take_bit 24 (l24 a b c)"
    by (rule bit_word_eqI, unfold bit_take_bit_iff bit_l24) linarith
  then have "unat (l24 a b c) = take_bit 24 (unat (l24 a b c))" by (simp only: unsigned_take_bit_eq [symmetric])
  also have "\<dots> < 2 ^ 24" by (rule take_bit_nat_less_exp)
  finally have "unat (l24 a b c) < 2 ^ 24" .
  then show ?thesis by (simp add: word_less_nat_alt)
qed

lemma bit_ucast_u8: "bit (ucast (drop_bit k l) :: u8) n \<longleftrightarrow> n < 8 \<and> bit l (k + n)" for l :: u32
  by (auto simp: bit_simps)

lemma l24_bytes:
  "ucast (drop_bit 16 (l24 a b c)) = a" "ucast (drop_bit 8 (l24 a b c)) = b" "ucast (drop_bit 0 (l24 a b c)) = c"
  by (rule bit_word_eqI, unfold bit_ucast_u8 bit_l24, simp)+

lemma decode_full: "base64_decode_quad (quad_of (l24 a b c)) = Some [a, b, c]"
  by (simp only: decode_quad_of [OF l24_lt] l24_bytes)


lemma sextet_0: "ucast (drop_bit 0 (l24 a b 0)) AND 0x3F = (0 :: u8)" "ucast (drop_bit 6 (l24 a 0 0)) AND 0x3F = (0 :: u8)"
proof -
  have m: "(0x3F :: u8) = mask 6" by (simp add: mask_eq_exp_minus_1)
  show "ucast (drop_bit 0 (l24 a b 0)) AND 0x3F = (0 :: u8)" "ucast (drop_bit 6 (l24 a 0 0)) AND 0x3F = (0 :: u8)"
    unfolding m by (rule bit_word_eqI, unfold bit_and_iff bit_ucast_u8 bit_l24 bit_mask_iff, simp)+
qed

lemma decode_two:
  fixes a b :: u8 defines "l \<equiv> l24 a b 0"
  shows "base64_decode_quad [conv_bin2ascii (ucast (drop_bit 18 l)), conv_bin2ascii (ucast (drop_bit 12 l)),
    conv_bin2ascii (ucast (drop_bit 6 l)), 61] = Some [a, b]"
  using sextets [OF l24_lt, of a b 0] l24_bytes(1,2) [of a b 0] unfolding sextet_0 l_def
  by (simp add: base64_decode_quad_def Let_def conv_facts(1,3) sextet_ne bin_61)

lemma decode_one:
  fixes a :: u8 defines "l \<equiv> l24 a 0 0"
  shows "base64_decode_quad [conv_bin2ascii (ucast (drop_bit 18 l)), conv_bin2ascii (ucast (drop_bit 12 l)), 61, 61] = Some [a]"
  using sextets [OF l24_lt, of a 0 0] l24_bytes(1) [of a 0 0] unfolding sextet_0 l_def
  by (simp add: base64_decode_quad_def Let_def conv_facts(1,3) sextet_ne bin_61)

lemma encode_block_short:
  "encode_block [a] = [conv_bin2ascii (ucast (drop_bit 18 (l24 a 0 0))), conv_bin2ascii (ucast (drop_bit 12 (l24 a 0 0))), 61, 61]"
  "encode_block [a, b] = [conv_bin2ascii (ucast (drop_bit 18 (l24 a b 0))), conv_bin2ascii (ucast (drop_bit 12 (l24 a b 0))),
     conv_bin2ascii (ucast (drop_bit 6 (l24 a b 0))), 61]"
  by (simp_all add: Let_def)

lemma length_quad_of [simp]: "length (quad_of l) = 4"
  by (simp add: quad_of_def)

lemma length_encode_block: "length (encode_block bs) = (length bs + 2) div 3 * 4"
proof (induction bs rule: encode_block.induct)
  case (4 a b c src)
  have "(length (a # b # c # src) + 2) div 3 = Suc ((length src + 2) div 3)" by simp
  then show ?case using 4 by simp
qed (simp_all add: Let_def)

lemma decode_quads_4: "length q = 4 \<Longrightarrow> decode_quads (q @ inp) =
   (case base64_decode_quad q of None \<Rightarrow> None
    | Some bs \<Rightarrow> if length bs \<noteq> 3 \<and> inp \<noteq> [] then None else map_option ((@) bs) (decode_quads inp))"
  by (auto simp: length_Suc_conv numeral_eq_Suc)

lemma decode_quads_block: "decode_quads (encode_block bs) = Some bs"
proof (induction bs rule: encode_block.induct)
  case 1
  show ?case by simp
next
  case (2 a)
  show ?case unfolding encode_block_short decode_quads.simps decode_one by simp
next
  case (3 a b)
  show ?case unfolding encode_block_short decode_quads.simps decode_two by simp
next
  case (4 a b c src)
  then show ?case by (simp add: decode_quads_4 decode_full)
qed

section \<open>The streaming encoder\<close>

text \<open>The text of the data: full lines of 48 bytes, then what is left, if anything.\<close>

definition pending :: "u8 list \<Rightarrow> u8 list" where
  "pending bs = drop (48 * (length bs div 48)) bs"

definition full_lines :: "u8 list \<Rightarrow> u8 list" where
  "full_lines bs = concat (map (\<lambda>k. encode_line (take 48 (drop (48 * k) bs))) [0..<length bs div 48])"

definition base64_text :: "u8 list \<Rightarrow> u8 list" where
  "base64_text bs = full_lines bs @ (if pending bs = [] then [] else encode_line (pending bs))"

lemma pending_short: "length bs < 48 \<Longrightarrow> pending bs = bs"
  by (simp add: pending_def)

lemma full_short: "length bs < 48 \<Longrightarrow> full_lines bs = []"
  by (simp add: full_lines_def)

lemma length_pending: "length (pending bs) = length bs mod 48"
  by (simp add: pending_def minus_mult_div_eq_mod)

lemma take_pending: "take (48 * (length bs div 48)) bs @ pending bs = bs"
  by (simp add: pending_def)

lemma pending_line: "length l = 48 \<Longrightarrow> pending (l @ bs) = pending bs"
  using div_add_self1 [of 48 "length bs"] by (simp add: pending_def)

lemma full_line: "length l = 48 \<Longrightarrow> full_lines (l @ bs) = encode_line l @ full_lines bs"
proof -
  assume l: "length l = 48"
  then have n: "length (l @ bs) div 48 = Suc (length bs div 48)" using div_add_self1 [of 48 "length bs"] by simp
  have "take 48 (drop (48 * Suc k) (l @ bs)) = take 48 (drop (48 * k) bs)" for k using l by simp
  then show ?thesis using l unfolding full_lines_def n map_upt_Suc by (simp add: comp_def)
qed

lemma full_append: "length p = 48 * k \<Longrightarrow> full_lines (p @ bs) = full_lines p @ full_lines bs \<and> pending (p @ bs) = pending bs"
proof (induction k arbitrary: p)
  case (Suc k)
  have l: "length (take 48 p) = 48" "length (drop 48 p) = 48 * k" using Suc.prems by simp_all
  from Suc.IH [OF l(2)] full_line [OF l(1), of "drop 48 p @ bs"] full_line [OF l(1), of "drop 48 p"]
    pending_line [OF l(1), of "drop 48 p @ bs"] show ?case by (simp flip: append_assoc)
qed (simp add: full_short)

lemma full_extend: "full_lines (bs @ cs) = full_lines bs @ full_lines (pending bs @ cs)"
  and pending_extend: "pending (bs @ cs) = pending (pending bs @ cs)"
proof -
  let ?p = "take (48 * (length bs div 48)) bs"
  have l: "length ?p = 48 * (length bs div 48)" by simp
  have "full_lines bs = full_lines ?p" using full_append [OF l, of "pending bs"] length_pending [of bs]
    by (simp add: take_pending full_short)
  then show "full_lines (bs @ cs) = full_lines bs @ full_lines (pending bs @ cs)"
    "pending (bs @ cs) = pending (pending bs @ cs)"
    using full_append [OF l, of "pending bs @ cs"] by (simp_all add: take_pending flip: append_assoc)
qed

lemma lines_loop:
  assumes "tot + 2 * length inp + 65 < size_mod"
  shows "encode_lines_loop inp out tot = (pending inp, out @ full_lines inp, Some (tot + length (full_lines inp))) \<and>
    length (full_lines inp) \<le> 65 * (length inp div 48)"
  using assms
proof (induction inp out tot rule: encode_lines_loop.induct)
  case (1 inp out tot)
  show ?case
  proof (cases "length inp \<ge> 48")
    case True
    let ?l = "take 48 inp"
    have len: "length ?l = 48" "length (encode_block ?l) = 64" using True by (simp_all add: length_encode_block)
    have b: "(tot + 64 + 1) mod size_mod = tot + 65" using 1(2) by simp
    have "tot + 65 + 2 * length (drop 48 inp) + 65 < size_mod" using 1(2) True by simp
    from 1(1) [OF True refl refl, unfolded len b, OF _ this]
    have ih: "encode_lines_loop (drop 48 inp) (out @ encode_line ?l) (tot + 65) =
      (pending (drop 48 inp), (out @ encode_line ?l) @ full_lines (drop 48 inp), Some (tot + 65 + length (full_lines (drop 48 inp))))"
      "length (full_lines (drop 48 inp)) \<le> 65 * (length (drop 48 inp) div 48)"
      by simp_all
    have "full_lines inp = encode_line ?l @ full_lines (drop 48 inp)" "pending inp = pending (drop 48 inp)"
      using full_line [OF len(1), of "drop 48 inp"] pending_line [OF len(1), of "drop 48 inp"] by simp_all
    moreover have "length inp div 48 = Suc ((length inp - 48) div 48)" using True by (simp add: le_div_geq)
    ultimately show ?thesis using True ih len b
      by (simp add: encode_lines_loop.simps [of inp] encode_line_def)
  next
    case False
    then show ?thesis by (simp add: encode_lines_loop.simps [of inp] pending_short full_short)
  qed
qed

text \<open>The context after \<open>bs\<close> has been passed in.\<close>

definition enc_after :: "u8 list \<Rightarrow> enc_ctx \<Rightarrow> bool" where
  "enc_after bs ctx \<longleftrightarrow> length (x_data ctx) = 48 \<and> x_data_used ctx = length bs mod 48 \<and>
     take (x_data_used ctx) (x_data ctx) = pending bs"

lemma enc_after_init: "enc_after [] EVP_EncodeInit"
  by (simp add: enc_after_def EVP_EncodeInit_def pending_def)

lemma encode_update:
  assumes "enc_after bs ctx" and "length inp < 2 ^ 30"
  shows "\<exists>ctx' out. EVP_EncodeUpdate ctx inp = (ctx', out, length out) \<and> enc_after (bs @ inp) ctx' \<and>
    full_lines (bs @ inp) = full_lines bs @ out"
proof -
  let ?u = "length bs mod 48" and ?d = "x_data ctx"
  have u: "x_data_used ctx = ?u" "length ?d = 48" "take ?u ?d = pending bs" "?u < 48"
    using assms(1) unfolding enc_after_def by (simp, simp, metis, simp)
  consider "inp = []" | "inp \<noteq> []" "?u + length inp < 48" | "inp \<noteq> []" "48 \<le> ?u + length inp" by linarith
  then show ?thesis
  proof cases
    case 1
    then show ?thesis using assms(1) by (simp add: EVP_EncodeUpdate_def)
  next
    case 2
    have p: "length (pending bs @ inp) < 48" using 2 by (simp add: length_pending)
    have m: "(length bs + length inp) mod 48 = ?u + length inp" using 2(2) mod_add_left_eq [of "length bs" 48 "length inp"] by simp
    have "enc_after (bs @ inp) (ctx\<lparr>x_data := splice ?d ?u inp, x_data_used := ?u + length inp\<rparr>)"
      using 2 u m p by (simp add: enc_after_def pending_extend [of bs inp] pending_short splice_def length_pending)
    moreover have "length inp < 48 - ?u" using 2(2) by simp
    ultimately show ?thesis using 2(1) u p full_extend [of bs inp] by (simp add: EVP_EncodeUpdate_def full_short Let_def)
  next
    case 3
    define dat where "dat = (if ?u \<noteq> 0 then splice ?d ?u (take (48 - ?u) inp) else ?d)"
    define inp' where "inp' = (if ?u \<noteq> 0 then drop (48 - ?u) inp else inp)"
    define out0 where "out0 = (if ?u \<noteq> 0 then encode_line dat else [])"
    have dat: "length dat = 48" "?u \<noteq> 0 \<Longrightarrow> dat = pending bs @ take (48 - ?u) inp"
      using u 3 by (simp_all add: dat_def length_splice splice_def length_pending)
    have split: "full_lines (pending bs @ inp) = out0 @ full_lines inp'" "pending (pending bs @ inp) = pending inp'"
    proof -
      have "dat @ inp' = pending bs @ inp" if "?u \<noteq> 0" using that dat(2) by (simp add: inp'_def)
      moreover have "pending bs = []" if "?u = 0" using that length_pending [of bs] by simp
      ultimately show "full_lines (pending bs @ inp) = out0 @ full_lines inp'" "pending (pending bs @ inp) = pending inp'"
        using full_line [OF dat(1), of inp'] pending_line [OF dat(1), of inp']
        by (cases "?u = 0"; simp add: out0_def inp'_def)+
    qed
    have out0: "length out0 = (if ?u \<noteq> 0 then length (encode_block dat) + 1 else 0)" "length out0 \<le> 65"
      using dat(1) by (simp_all add: out0_def encode_line_def length_encode_block)
    have "length (drop n inp) \<le> length inp" for n by simp
    then have "length inp' \<le> length inp" unfolding inp'_def by (cases "?u = 0") (simp_all only: if_True if_False not_False_eq_True not_True_eq_False order_refl simp_thms)
    then have "length inp' < 2 ^ 30" using assms(2) by linarith
    then have "length out0 + 2 * length inp' + 65 < size_mod" "length out0 + 65 * (length inp' div 48) \<le> INT_MAX"
      using out0(2) by simp_all
    with lines_loop [of "length out0" inp' out0]
    have loop: "encode_lines_loop inp' out0 (length out0) = (pending inp', out0 @ full_lines inp', Some (length out0 + length (full_lines inp')))"
      "\<not> INT_MAX < length out0 + length (full_lines inp')" by auto
    let ?ctx = "ctx\<lparr>x_data := (if pending inp' \<noteq> [] then splice dat 0 (pending inp') else dat), x_data_used := length (pending inp')\<rparr>"
    have run: "EVP_EncodeUpdate ctx inp = (?ctx, out0 @ full_lines inp', length (out0 @ full_lines inp'))"
    proof (cases "?u = 0")
      case True
      then have "dat = ?d" "inp' = inp" "out0 = []" by (simp_all add: dat_def inp'_def out0_def)
      then show ?thesis using True 3 u(1) loop by (simp add: EVP_EncodeUpdate_def Let_def)
    next
      case False
      then have e: "Prelude.splice ?d ?u (take (48 - ?u) inp) = dat" "drop (48 - ?u) inp = inp'" "encode_line dat = out0"
        "Suc (length (encode_block dat)) = length out0" using out0(1) by (simp_all add: dat_def inp'_def out0_def)
      have "\<not> length inp < 48 - ?u" using 3(2) by linarith
      then show ?thesis using False 3(1) loop by (simp add: EVP_EncodeUpdate_def Let_def u(1) e)
    qed
    have p: "pending (bs @ inp) = pending inp'" using pending_extend [of bs inp] split(2) by simp
    have "length (pending inp') = length (bs @ inp) mod 48" using length_pending [of "bs @ inp"] p by simp
    moreover have "length (pending inp') \<le> 48" by (simp add: length_pending less_imp_le)
    ultimately have "enc_after (bs @ inp) ?ctx" using dat(1) by (auto simp: enc_after_def p splice_def)
    then show ?thesis using run full_extend [of bs inp] split(1) by simp
  qed
qed


text \<open>What the caller has written when it has passed the data in by \<open>chunks\<close> and called the final
  function.\<close>

fun encode_chunks :: "enc_ctx \<Rightarrow> u8 list list \<Rightarrow> u8 list" where
  "encode_chunks ctx [] = (case EVP_EncodeFinal ctx of (ctx, out, n) \<Rightarrow> take n out)"
| "encode_chunks ctx (inp # chunks) =
     (case EVP_EncodeUpdate ctx inp of (ctx, out, n) \<Rightarrow> take n out @ encode_chunks ctx chunks)"

lemma encode_chunks_text:
  assumes "enc_after bs ctx" and "\<forall>inp \<in> set chunks. length inp < 2 ^ 30"
  shows "full_lines bs @ encode_chunks ctx chunks = base64_text (bs @ concat chunks)"
  using assms
proof (induction chunks arbitrary: bs ctx)
  case Nil
  then show ?case using length_pending [of bs]
    by (auto simp: EVP_EncodeFinal_def enc_after_def base64_text_def Let_def)
next
  case (Cons inp chunks)
  from encode_update [OF Cons.prems(1), of inp] Cons.prems(2) obtain ctx' out where
    u: "EVP_EncodeUpdate ctx inp = (ctx', out, length out)" "enc_after (bs @ inp) ctx'"
      "full_lines (bs @ inp) = full_lines bs @ out" by auto
  from Cons.IH [OF u(2)] Cons.prems(2) u(1,3) show ?case by simp
qed

section \<open>The streaming decoder\<close>

lemma encode_block_append: "length xs mod 3 = 0 \<Longrightarrow> encode_block (xs @ ys) = encode_block xs @ encode_block ys"
  by (induction xs rule: encode_block.induct) simp_all

lemma encode_block_chars: "c \<in> set (encode_block bs) \<Longrightarrow> \<not> is_space c"
  by (induction bs rule: encode_block.induct) (auto simp: Let_def quad_of_def conv_facts(2) is_space_def [of 61])

lemma filter_line: "filter (Not \<circ> is_space) (encode_line bs) = encode_block bs"
proof -
  have "filter (Not \<circ> is_space) (encode_block bs) = encode_block bs"
    by (rule filter_True) (simp add: encode_block_chars)
  then show ?thesis by (simp add: encode_line_def is_space_def [of 10])
qed

lemma filter_full: "length p = 48 * k \<Longrightarrow> filter (Not \<circ> is_space) (full_lines p) = encode_block p"
proof (induction k arbitrary: p)
  case (Suc k)
  have l: "length (take 48 p) = 48" "length (drop 48 p) = 48 * k" using Suc.prems by simp_all
  then have "encode_block (take 48 p @ drop 48 p) = encode_block (take 48 p) @ encode_block (drop 48 p)"
    by (intro encode_block_append) simp
  then show ?case using full_line [OF l(1), of "drop 48 p"] Suc.IH [OF l(2)] by (simp add: filter_line [unfolded comp_def] comp_def)
qed (simp add: full_short)

lemma filter_text: "filter (Not \<circ> is_space) (base64_text bs) = encode_block bs"
proof -
  let ?p = "take (48 * (length bs div 48)) bs"
  have l: "length ?p = 48 * (length bs div 48)" by simp
  have f: "full_lines bs = full_lines ?p" using full_append [OF l, of "pending bs"] length_pending [of bs]
    by (simp add: take_pending full_short)
  have "length ?p mod 3 = 0" unfolding l by presburger
  then have "encode_block bs = encode_block ?p @ encode_block (pending bs)"
    using encode_block_append [of ?p "pending bs"] by (simp add: take_pending)
  then show ?thesis using filter_full [OF l] by (simp add: base64_text_def f filter_line)
qed

lemma decode_loop_filter: "decode_loop ctx out inp = decode_loop ctx out (filter (Not \<circ> is_space) inp)"
  by (induction ctx out inp rule: decode_loop.induct) (auto simp: Let_def split: option.splits)

lemma decode_loop_append:
  "decode_loop ctx out (a @ b) = (case decode_loop ctx out a of (ctx, None) \<Rightarrow> (ctx, None) | (ctx, Some out) \<Rightarrow> decode_loop ctx out b)"
  by (induction ctx out a rule: decode_loop.induct) (auto simp: Let_def split: option.splits prod.splits)

lemma decode_loop_out:
  "decode_loop ctx out inp = (case decode_loop ctx [] inp of (ctx, res) \<Rightarrow> (ctx, map_option ((@) out) res))"
proof (induction inp arbitrary: ctx out)
  case (Cons c inp)
  let ?ctx = "ctx\<lparr>x_data := (x_data ctx)[x_data_used ctx := c], x_data_used := x_data_used ctx + 1\<rparr>"
  show ?case
  proof (cases "is_space c \<or> x_eof_seen ctx \<or> x_data_used ?ctx \<noteq> 4")
    case True
    then show ?thesis using Cons.IH [of ctx out] Cons.IH [of ?ctx out] by (auto simp: Let_def)
  next
    case False
    then show ?thesis
    proof (cases "base64_decode_quad (x_data ?ctx)")
      case (Some bs)
      let ?ctx' = "if length bs < 3 then ?ctx\<lparr>x_data_used := 0, x_eof_seen := True\<rparr> else ?ctx\<lparr>x_data_used := 0\<rparr>"
      show ?thesis using False Some Cons.IH [of ?ctx' "out @ bs"] Cons.IH [of ?ctx' bs]
        by (auto simp: Let_def option.map_comp comp_def split: prod.splits)
    qed (simp_all add: Let_def)
  qed
qed simp

lemma decode_loop_error: "decode_loop ctx out inp = (ctx', Some out') \<Longrightarrow> x_error ctx' = x_error ctx"
  by (induction ctx out inp rule: decode_loop.induct) (auto simp: Let_def split: if_splits option.splits)

lemma decode_quad_cong:
  "length xs \<ge> 4 \<Longrightarrow> base64_decode_quad (xs[0 := a, 1 := b, 2 := c, 3 := d]) = base64_decode_quad [a, b, c, d]"
proof -
  assume l: "length xs \<ge> 4"
  define ys where "ys = xs[0 := a, 1 := b, 2 := c, 3 := d]"
  have "xs \<noteq> []" using l by auto
  then have "ys ! 0 = a" "ys ! Suc 0 = b" "ys ! 2 = c" "ys ! 3 = d" using l by (simp_all add: ys_def nth_list_update)
  then have "base64_decode_quad ys = base64_decode_quad [a, b, c, d]" by (simp add: base64_decode_quad_def Let_def)
  then show ?thesis unfolding ys_def .
qed

lemma decode_loop_quad:
  assumes "length q = 4" "\<forall>c \<in> set q. \<not> is_space c" "x_data_used ctx = 0" "\<not> x_eof_seen ctx" "length (x_data ctx) = 48"
    and "base64_decode_quad q = Some bs"
  shows "\<exists>d. length d = 48 \<and> decode_loop ctx out (q @ inp) = decode_loop (ctx\<lparr>x_data := d, x_eof_seen := length bs < 3\<rparr>) (out @ bs) inp"
proof -
  obtain a b c e where q: "q = [a, b, c, e]" using assms(1) by (auto simp: length_Suc_conv numeral_eq_Suc)
  let ?d = "(x_data ctx)[0 := a, 1 := b, 2 := c, 3 := e]"
  have d: "base64_decode_quad ?d = Some bs" using assms(5,6) decode_quad_cong [of "x_data ctx" a b c e] q by simp
  have "decode_loop ctx out (q @ inp) = decode_loop (ctx\<lparr>x_data := ?d, x_eof_seen := length bs < 3\<rparr>) (out @ bs) inp"
    using assms(2,3,4) d unfolding q by (cases ctx) (simp add: Let_def numeral_eq_Suc)
  then show ?thesis using assms(5) by (intro exI [of _ ?d]) simp
qed


lemma decode_loop_block:
  assumes "x_data_used ctx = 0" "\<not> x_eof_seen ctx" "length (x_data ctx) = 48"
  shows "\<exists>d eof. decode_loop ctx out (encode_block bs) = (ctx\<lparr>x_data := d, x_eof_seen := eof\<rparr>, Some (out @ bs))"
  using assms
proof (induction bs arbitrary: ctx out rule: encode_block.induct)
  case 1
  have "ctx = ctx\<lparr>x_data := x_data ctx, x_eof_seen := x_eof_seen ctx\<rparr>" by simp
  then show ?case by (metis decode_loop.simps(1) encode_block.simps(1) append_Nil2)
next
  case (2 a)
  have "base64_decode_quad (encode_block [a]) = Some [a]" unfolding encode_block_short by (rule decode_one)
  with decode_loop_quad [of "encode_block [a]" ctx "[a]" out "[]"] 2 encode_block_chars [of _ "[a]"] show ?case
    by (simp del: encode_block.simps add: length_encode_block) blast
next
  case (3 a b)
  have "base64_decode_quad (encode_block [a, b]) = Some [a, b]" unfolding encode_block_short by (rule decode_two)
  with decode_loop_quad [of "encode_block [a, b]" ctx "[a, b]" out "[]"] 3 encode_block_chars [of _ "[a, b]"] show ?case
    by (simp del: encode_block.simps add: length_encode_block) blast
next
  case (4 a b c src)
  let ?q = "quad_of (l24 a b c)"
  have "\<forall>c \<in> set ?q. \<not> is_space c" by (simp add: quad_of_def conv_facts(2))
  from decode_loop_quad [OF length_quad_of this 4(2,3,4) decode_full, of out "encode_block src"] obtain d where
    d: "length d = 48" "decode_loop ctx out (?q @ encode_block src) =
      decode_loop (ctx\<lparr>x_data := d, x_eof_seen := False\<rparr>) (out @ [a, b, c]) (encode_block src)" by auto
  let ?ctx = "ctx\<lparr>x_data := d, x_eof_seen := False\<rparr>"
  have "x_data_used ?ctx = 0" "\<not> x_eof_seen ?ctx" "length (x_data ?ctx) = 48" using 4(2) d(1) by simp_all
  from 4(1) [OF this, of "out @ [a, b, c]"] d(2) show ?case by auto
qed

text \<open>What the caller has read when it has passed the text in by \<open>chunks\<close>: nothing when a call or the
  final function has failed.\<close>

fun decode_chunks :: "enc_ctx \<Rightarrow> u8 list list \<Rightarrow> u8 list option" where
  "decode_chunks ctx [] = (if EVP_DecodeFinal ctx = 1 then Some [] else None)"
| "decode_chunks ctx (inp # chunks) =
     (case EVP_DecodeUpdate ctx inp of (ctx, r, out) \<Rightarrow>
        if r < 0 then None else map_option ((@) out) (decode_chunks ctx chunks))"

lemma decode_chunks_loop:
  assumes "decode_loop ctx [] (concat chunks) = (ctx', Some bs)" "length bs \<le> INT_MAX"
    and "\<not> x_error ctx" "\<not> x_error ctx'" "x_data_used ctx' = 0"
  shows "decode_chunks ctx chunks = Some bs"
  using assms
proof (induction chunks arbitrary: ctx bs)
  case Nil
  then show ?case by (simp add: EVP_DecodeFinal_def)
next
  case (Cons inp chunks)
  obtain ctx1 out where 1: "decode_loop ctx [] inp = (ctx1, Some out)"
    using Cons.prems(1) by (auto simp: decode_loop_append split: prod.splits option.splits)
  have "decode_loop ctx1 out (concat chunks) = (ctx', Some bs)" using Cons.prems(1) 1 by (simp add: decode_loop_append)
  then obtain bs' where 2: "decode_loop ctx1 [] (concat chunks) = (ctx', Some bs')" "bs = out @ bs'"
    unfolding decode_loop_out [of ctx1 out] by (auto split: prod.splits)
  have "\<not> x_error ctx1" using 1 Cons.prems(3) decode_loop_error by metis
  with Cons.IH [OF 2(1)] Cons.prems 1 2(2) show ?case by (simp add: EVP_DecodeUpdate_def)
qed

lemma decode_chunks_text:
  assumes "concat chunks = base64_text bs" "length bs \<le> INT_MAX"
  shows "decode_chunks EVP_DecodeInit chunks = Some bs"
proof -
  have "x_data_used EVP_DecodeInit = 0" "\<not> x_eof_seen EVP_DecodeInit" "length (x_data EVP_DecodeInit) = 48"
    by (simp_all add: EVP_DecodeInit_def)
  from decode_loop_block [OF this, of "[]" bs] obtain d eof where
    "decode_loop EVP_DecodeInit [] (encode_block bs) = (EVP_DecodeInit\<lparr>x_data := d, x_eof_seen := eof\<rparr>, Some bs)" by auto
  then have "decode_loop EVP_DecodeInit [] (concat chunks) = (EVP_DecodeInit\<lparr>x_data := d, x_eof_seen := eof\<rparr>, Some bs)"
    unfolding assms(1) decode_loop_filter [of _ _ "base64_text bs"] filter_text .
  from decode_chunks_loop [OF this assms(2)] show ?thesis by (simp add: EVP_DecodeInit_def)
qed

section \<open>The properties\<close>

lemma pad_length: "n + (3 - n mod 3) mod 3 = (n + 2) div 3 * 3" for n :: nat
proof -
  obtain q r where n: "n = 3 * q + r" "r < 3" by (metis mod_less_divisor mult_div_mod_eq zero_less_numeral)
  then have "n mod 3 = r" "(n + 2) div 3 = q + (r + 2) div 3" by simp_all
  note m = this
  consider "r = 0" | "r = 1" | "r = 2" using n(2) by linarith
  then show ?thesis unfolding m by cases (simp_all add: n(1))
qed

text \<open>\<open>EVP_DecodeBase64\<close> reads back the bytes that \<open>EVP_EncodeBlock\<close> has encoded, the number of characters
  is the one \<open>EVP_EncodedLength\<close> announces, and \<open>EVP_DecodeBlock\<close> gives the same bytes, filled up with NULs to a
  multiple of three.\<close>

theorem base64_block_roundtrip:
  assumes "EVP_EncodeBlock bs = (out, n)" and "(length bs + 2) div 3 * 3 \<le> max_out" and "length bs < 2 ^ 31 - 3"
  shows "EVP_EncodedLength (length bs) = Some (length out) \<and> out ! n = 0 \<and>
    EVP_DecodeBase64 max_out (take n out) = Some bs \<and>
    EVP_DecodeBlock (take n out) = (int ((length bs + 2) div 3 * 3), bs @ replicate ((3 - length bs mod 3) mod 3) 0)"
proof -
  let ?t = "encode_block bs"
  have n: "out = ?t @ [0]" "n = length ?t" "n = (length bs + 2) div 3 * 4"
    using assms(1) by (auto simp: EVP_EncodeBlock_def length_encode_block)
  have "(length bs + 2) mod size_mod = length bs + 2" "(length bs + 2) div 3 * 4 mod size_mod = (length bs + 2) div 3 * 4"
    "((length bs + 2) div 3 * 4 + 1) mod size_mod = (length bs + 2) div 3 * 4 + 1"
    using assms(3) by (auto intro!: mod_less)
  then have len: "EVP_EncodedLength (length bs) = Some (length out)"
    unfolding EVP_EncodedLength_def Let_def n(1) by (simp add: length_encode_block)
  have ml: "EVP_DecodedLength (length ?t) = Some ((length bs + 2) div 3 * 3)"
    by (simp add: EVP_DecodedLength_def length_encode_block)
  then have dec: "EVP_DecodeBase64 m ?t = Some bs" if "(length bs + 2) div 3 * 3 \<le> m" for m
    using that by (simp add: EVP_DecodeBase64_def length_encode_block decode_quads_block)
  have strip: "dropWhile P ?t = ?t" "rev (dropWhile P (rev ?t)) = ?t" if "\<And>c. P c \<Longrightarrow> is_space c" for P
  proof -
    have "\<not> P c" if "c \<in> set ?t" for c using \<open>\<And>c. P c \<Longrightarrow> is_space c\<close> [of c] encode_block_chars [OF that] by blast
    then have "?t = [] \<or> \<not> P (hd ?t)" "rev ?t = [] \<or> \<not> P (hd (rev ?t))"
      by (metis hd_in_set, metis hd_in_set set_rev)
    then show "dropWhile P ?t = ?t" "rev (dropWhile P (rev ?t)) = ?t" by (simp_all only: dropWhile_eq_self_iff [THEN iffD2] rev_rev_ident)
  qed
  have "(length bs + 2) div 3 * 3 \<le> INT_MAX" using assms(3) by simp
  then have "EVP_DecodeBlock ?t = (int (length bs + (3 - length bs mod 3) mod 3), bs @ replicate ((3 - length bs mod 3) mod 3) 0)"
  proof -
    have s: "dropWhile (\<lambda>c. c = 32 \<or> c = 9) ?t = ?t" by (rule strip(1)) (auto simp: is_space_def)
    have "rev (rev (dropWhile is_space (rev ?t))) = rev ?t" by (simp only: strip(2))
    then have "dropWhile is_space (rev ?t) = rev ?t" by simp
    then show ?thesis using \<open>(length bs + 2) div 3 * 3 \<le> INT_MAX\<close> dec [OF order_refl]
      unfolding EVP_DecodeBlock_def Let_def s by (simp add: ml)
  qed
  moreover have "length bs + (3 - length bs mod 3) mod 3 = (length bs + 2) div 3 * 3" by (rule pad_length)
  ultimately show ?thesis using len dec [OF assms(2)] n by simp
qed

lemma ex_chars: "encode_block [20, 251, 156, 3] = [70, 80, 117, 99, 65, 119, 61, 61]" "encode_block [1, 2, 3, 4] = [65, 81, 73, 68, 66, 65, 61, 61]"
  by (simp_all add: quad_of_def conv_cases Let_def)

theorem base64_block_roundtrip_witness:
  "EVP_DecodeBase64 6 [70, 80, 117, 99, 65, 119, 61, 61] = Some [20, 251, 156, 3]"
proof -
  have "EVP_EncodeBlock [20, 251, 156, 3] = ([70, 80, 117, 99, 65, 119, 61, 61, 0], 8)"
    by (simp add: EVP_EncodeBlock_def ex_chars del: encode_block.simps)
  from base64_block_roundtrip [OF this, of 6] show ?thesis by simp
qed

lemma encode_stream_base:
  "\<forall>inp \<in> set chunks. length inp < 2 ^ 30 \<Longrightarrow> encode_chunks EVP_EncodeInit chunks = base64_text (concat chunks)"
  using encode_chunks_text [OF enc_after_init, of chunks] by (simp add: full_short)

text \<open>C31: The streaming encoder does not depend on how the data are cut: whatever chunks below \<open>2 ^ 30\<close> bytes they
  are passed in by, the text written is that of the data, lines of 64 characters.\<close>

theorem encode_stream_exact:
  assumes "\<forall>inp \<in> set chunks. length inp < 2 ^ 30"
  shows "encode_chunks EVP_EncodeInit chunks = base64_text (concat chunks)"
  using assms by (rule encode_stream_base)

theorem encode_stream_exact_witness:
  "encode_chunks EVP_EncodeInit [[1, 2], [], [3, 4]] = base64_text [1, 2, 3, 4]"
  using encode_stream_exact [of "[[1, 2], [], [3, 4]]"] by simp

text \<open>C30: What the streaming encoder has written, the streaming decoder reads back, and both may be cut in any way
  (into chunks below \<open>2 ^ 30\<close> bytes for the encoder): the decoder gets the text in chunks that have nothing to do
  with the lines or the quads.\<close>

theorem base64_stream_roundtrip:
  assumes "\<forall>inp \<in> set chunks. length inp < 2 ^ 30" and "length (concat chunks) \<le> INT_MAX"
    and "concat pieces = encode_chunks EVP_EncodeInit chunks"
  shows "decode_chunks EVP_DecodeInit pieces = Some (concat chunks)"
proof (rule decode_chunks_text)
  show "concat pieces = base64_text (concat chunks)"
    using encode_stream_base [OF assms(1)] assms(3) by simp
qed (rule assms(2))

theorem base64_stream_roundtrip_witness:
  "decode_chunks EVP_DecodeInit [[65, 81], [73, 68, 66], [], [65, 61, 61, 10]] = Some [1, 2, 3, 4]"
proof -
  have "concat [[65, 81], [73, 68, 66], [], [65, 61, 61, 10]] = encode_chunks EVP_EncodeInit [[1, 2], [], [3, 4]]"
    by (subst encode_stream_base) (simp_all add: base64_text_def full_short pending_short encode_line_def ex_chars del: encode_block.simps)
  from base64_stream_roundtrip [OF _ _ this] show ?thesis by simp
qed

end
