(* ===== verification/Stack.thy ===== *)
theory Stack imports Prelude begin

text \<open>
  The stacks of BoringSSL, \<open>crypto/stack/stack.c\<close>: growing arrays of pointers with an optional
  comparison function. A pointer is an \<open>'p option\<close>, \<open>None\<close> is NULL; a pointer to a stack is an
  \<open>option\<close> as well, and every operation returns what it points to afterwards. Comparison functions are
  addresses of code, of the type \<open>'c\<close>: \<open>sk_set_cmp_func\<close> compares them. What is outside the file
  are parameters: the code at such an address, \<open>qsort\<close> and \<open>bsearch\<close> of the C library, and the
  allocator, a function from a number of pointers to the block of that size, with whatever it holds.
\<close>

record ('p, 'c) stk =
  k_num :: nat
  k_data :: "'p option list"
  k_sorted :: bool
  k_num_alloc :: nat
  k_comp :: "'c option"

type_synonym 'p cmp = "'p option \<Rightarrow> 'p option \<Rightarrow> int"

record ('p, 'c) clib =
  l_fn :: "'c \<Rightarrow> 'p cmp"
  l_qsort :: "'p cmp \<Rightarrow> 'p option list \<Rightarrow> 'p option list"
  l_bsearch :: "'p cmp \<Rightarrow> 'p option \<Rightarrow> 'p option list \<Rightarrow> nat option"

type_synonym 'p blocks = "nat \<Rightarrow> 'p option list option"

text \<open>\<open>OPENSSL_realloc\<close>: a new block with the old contents, as far as they fit.\<close>

definition ptr_realloc :: "'p blocks \<Rightarrow> 'p option list \<Rightarrow> nat \<Rightarrow> 'p option list option" where
  "ptr_realloc al old n = map_option (\<lambda>b. splice b 0 (take n old)) (al n)"

definition kMinSize :: nat where
  "kMinSize = 4"

text \<open>\<open>sm\<close> says whether the structure itself can be allocated.\<close>

definition sk_new :: "bool \<Rightarrow> 'p blocks \<Rightarrow> 'c option \<Rightarrow> ('p, 'c) stk option" where
  "sk_new sm al cf =
     (if \<not> sm then None
      else
        case al kMinSize of
          None \<Rightarrow> None
        | Some d \<Rightarrow>
            Some \<lparr>k_num = 0, k_data = splice d 0 (replicate kMinSize None), k_sorted = False,
                  k_num_alloc = kMinSize, k_comp = cf\<rparr>)"

definition sk_new_null :: "bool \<Rightarrow> 'p blocks \<Rightarrow> ('p, 'c) stk option" where
  "sk_new_null sm al = sk_new sm al None"

fun sk_num :: "('p, 'c) stk option \<Rightarrow> nat" where
  "sk_num None = 0"
| "sk_num (Some sk) = k_num sk"

fun sk_zero :: "('p, 'c) stk option \<Rightarrow> ('p, 'c) stk option" where
  "sk_zero None = None"
| "sk_zero (Some sk) =
     (if k_num sk = 0 then Some sk
      else Some (sk\<lparr>k_data := splice (k_data sk) 0 (replicate (k_num sk) None), k_num := 0, k_sorted := False\<rparr>))"

fun sk_value :: "('p, 'c) stk option \<Rightarrow> nat \<Rightarrow> 'p option" where
  "sk_value None i = None"
| "sk_value (Some sk) i = (if i \<ge> k_num sk then None else k_data sk ! i)"

fun sk_set :: "('p, 'c) stk option \<Rightarrow> nat \<Rightarrow> 'p option \<Rightarrow> ('p, 'c) stk option \<times> 'p option" where
  "sk_set None i v = (None, None)"
| "sk_set (Some sk) i v =
     (if i \<ge> k_num sk then (Some sk, None) else (Some (sk\<lparr>k_data := (k_data sk)[i := v]\<rparr>), v))"

text \<open>The new capacity: twice the old one, or one more when the doubling overflows.\<close>

definition grow_size :: "nat \<Rightarrow> nat option" where
  "grow_size num_alloc =
     (let overflows = (\<lambda>n. n < num_alloc \<or> n * 8 mod size_mod div 8 \<noteq> n);
          new_alloc = num_alloc * 2 mod size_mod;
          new_alloc = (if overflows new_alloc then (num_alloc + 1) mod size_mod else new_alloc)
      in if overflows new_alloc then None else Some new_alloc)"

definition sk_reserve :: "'p blocks \<Rightarrow> ('p, 'c) stk \<Rightarrow> ('p, 'c) stk option" where
  "sk_reserve al sk =
     (if k_num_alloc sk \<le> (k_num sk + 1) mod size_mod then
        case grow_size (k_num_alloc sk) of
          None \<Rightarrow> None
        | Some n \<Rightarrow>
            (case ptr_realloc al (k_data sk) n of
               None \<Rightarrow> None
             | Some d \<Rightarrow> Some (sk\<lparr>k_data := d, k_num_alloc := n\<rparr>))
      else Some sk)"

fun sk_insert :: "'p blocks \<Rightarrow> ('p, 'c) stk option \<Rightarrow> 'p option \<Rightarrow> nat \<Rightarrow> ('p, 'c) stk option \<times> nat" where
  "sk_insert al None p pos = (None, 0)"
| "sk_insert al (Some sk) p pos =
     (case sk_reserve al sk of
        None \<Rightarrow> (Some sk, 0)
      | Some sk \<Rightarrow>
          let n = k_num sk; d = k_data sk;
              d = (if pos \<ge> n then d[n := p]
                   else (splice d (pos + 1) (take (n - pos) (drop pos d)))[pos := p])
          in (Some (sk\<lparr>k_data := d, k_num := n + 1, k_sorted := False\<rparr>), n + 1))"

fun sk_delete :: "('p, 'c) stk option \<Rightarrow> nat \<Rightarrow> ('p, 'c) stk option \<times> 'p option" where
  "sk_delete None pos = (None, None)"
| "sk_delete (Some sk) pos =
     (if pos \<ge> k_num sk then (Some sk, None)
      else
        let n = k_num sk; d = k_data sk;
            d' = (if pos \<noteq> n - 1 then splice d pos (take (n - pos - 1) (drop (pos + 1) d)) else d)
        in (Some (sk\<lparr>k_data := d', k_num := n - 1\<rparr>), d ! pos))"

text \<open>The search for a pointer, from the front.\<close>

fun ptr_index :: "'p option \<Rightarrow> 'p option list \<Rightarrow> nat option" where
  "ptr_index p [] = None"
| "ptr_index p (x # xs) = (if x = p then Some 0 else map_option Suc (ptr_index p xs))"

fun sk_delete_ptr :: "('p, 'c) stk option \<Rightarrow> 'p option \<Rightarrow> ('p, 'c) stk option \<times> 'p option" where
  "sk_delete_ptr None p = (None, None)"
| "sk_delete_ptr (Some sk) p =
     (case ptr_index p (take (k_num sk) (k_data sk)) of
        None \<Rightarrow> (Some sk, None)
      | Some i \<Rightarrow> sk_delete (Some sk) i)"

fun sk_sort :: "('p, 'c) clib \<Rightarrow> ('p, 'c) stk option \<Rightarrow> ('p, 'c) stk option" where
  "sk_sort L None = None"
| "sk_sort L (Some sk) =
     (case k_comp sk of
        None \<Rightarrow> Some sk
      | Some cf \<Rightarrow>
          if k_sorted sk then Some sk
          else Some (sk\<lparr>k_data := splice (k_data sk) 0 (l_qsort L (l_fn L cf) (take (k_num sk) (k_data sk))),
                        k_sorted := True\<rparr>))"

text \<open>From any match to the first one.\<close>

fun first_match :: "'p cmp \<Rightarrow> 'p option \<Rightarrow> 'p option list \<Rightarrow> nat \<Rightarrow> nat" where
  "first_match cmp p d 0 = 0"
| "first_match cmp p d (Suc idx) = (if cmp p (d ! idx) = 0 then first_match cmp p d idx else Suc idx)"

text \<open>The index is what \<open>*out_index\<close> is set to; without one the result is 0.\<close>

fun sk_find :: "('p, 'c) clib \<Rightarrow> ('p, 'c) stk option \<Rightarrow> 'p option \<Rightarrow> ('p, 'c) stk option \<times> nat option" where
  "sk_find L None p = (None, None)"
| "sk_find L (Some sk) p =
     (case k_comp sk of
        None \<Rightarrow> (Some sk, ptr_index p (take (k_num sk) (k_data sk)))
      | Some cf \<Rightarrow>
          if p = None then (Some sk, None)
          else
            case sk_sort L (Some sk) of
              None \<Rightarrow> (None, None)
            | Some sk \<Rightarrow>
                (Some sk,
                 map_option (first_match (l_fn L cf) p (k_data sk))
                   (l_bsearch L (l_fn L cf) p (take (k_num sk) (k_data sk)))))"

fun sk_shift :: "('p, 'c) stk option \<Rightarrow> ('p, 'c) stk option \<times> 'p option" where
  "sk_shift None = (None, None)"
| "sk_shift (Some sk) = (if k_num sk = 0 then (Some sk, None) else sk_delete (Some sk) 0)"

definition sk_push :: "'p blocks \<Rightarrow> ('p, 'c) stk option \<Rightarrow> 'p option \<Rightarrow> ('p, 'c) stk option \<times> nat" where
  "sk_push al sk p = sk_insert al sk p (sk_num sk)"

fun sk_pop :: "('p, 'c) stk option \<Rightarrow> ('p, 'c) stk option \<times> 'p option" where
  "sk_pop None = (None, None)"
| "sk_pop (Some sk) = (if k_num sk = 0 then (Some sk, None) else sk_delete (Some sk) (k_num sk - 1))"

text \<open>The copy; \<open>al1\<close> and \<open>al2\<close> are the allocator at the two calls.\<close>

fun sk_dup :: "bool \<Rightarrow> 'p blocks \<Rightarrow> 'p blocks \<Rightarrow> ('p, 'c) stk option \<Rightarrow> ('p, 'c) stk option" where
  "sk_dup sm al1 al2 None = None"
| "sk_dup sm al1 al2 (Some sk) =
     (case sk_new sm al1 (k_comp sk) of
        None \<Rightarrow> None
      | Some ret \<Rightarrow>
          (case ptr_realloc al2 (k_data ret) (k_num_alloc sk) of
             None \<Rightarrow> None
           | Some s \<Rightarrow>
               Some \<lparr>k_num = k_num sk, k_data = splice s 0 (take (k_num sk) (k_data sk)), k_sorted = k_sorted sk,
                     k_num_alloc = k_num_alloc sk, k_comp = k_comp sk\<rparr>))"

fun sk_is_sorted :: "('p, 'c) stk option \<Rightarrow> bool" where
  "sk_is_sorted None = True"
| "sk_is_sorted (Some sk) = k_sorted sk"

definition sk_set_cmp_func :: "('p, 'c) stk \<Rightarrow> 'c option \<Rightarrow> ('p, 'c) stk \<times> 'c option" where
  "sk_set_cmp_func sk cf =
     (let old = k_comp sk; sk = (if k_comp sk \<noteq> cf then sk\<lparr>k_sorted := False\<rparr> else sk)
      in (sk\<lparr>k_comp := cf\<rparr>, old))"

text \<open>The functions a caller passes in work on a state of their own, \<open>'h\<close>: they allocate and free the
  elements.\<close>

fun free_elems :: "('h \<Rightarrow> 'p \<Rightarrow> 'h) \<Rightarrow> 'h \<Rightarrow> 'p option list \<Rightarrow> 'h" where
  "free_elems free h [] = h"
| "free_elems free h (None # xs) = free_elems free h xs"
| "free_elems free h (Some p # xs) = free_elems free (free h p) xs"

text \<open>The stack itself is gone afterwards.\<close>

fun sk_pop_free :: "('h \<Rightarrow> 'p \<Rightarrow> 'h) \<Rightarrow> 'h \<Rightarrow> ('p, 'c) stk option \<Rightarrow> 'h" where
  "sk_pop_free func h None = h"
| "sk_pop_free func h (Some sk) = free_elems func h (take (k_num sk) (k_data sk))"

text \<open>The loop of \<open>sk_deep_copy\<close>: the elements before \<open>i\<close>, which are copies, and the ones behind.\<close>

fun copy_loop :: "('h \<Rightarrow> 'p \<Rightarrow> 'h \<times> 'p option) \<Rightarrow> ('h \<Rightarrow> 'p \<Rightarrow> 'h) \<Rightarrow> 'h \<Rightarrow> 'p option list \<Rightarrow> 'p option list
    \<Rightarrow> 'h \<times> 'p option list option" where
  "copy_loop copy free h copies [] = (h, Some copies)"
| "copy_loop copy free h copies (None # xs) = copy_loop copy free h (copies @ [None]) xs"
| "copy_loop copy free h copies (Some p # xs) =
     (case copy h p of
        (h, None) \<Rightarrow> (free_elems free h copies, None)
      | (h, Some q) \<Rightarrow> copy_loop copy free h (copies @ [Some q]) xs)"

text \<open>The blocks of the stack itself are not counted, so \<open>sk_free (ret)\<close> leaves no trace.\<close>

definition sk_deep_copy :: "bool \<Rightarrow> 'p blocks \<Rightarrow> 'p blocks \<Rightarrow> ('h \<Rightarrow> 'p \<Rightarrow> 'h \<times> 'p option) \<Rightarrow> ('h \<Rightarrow> 'p \<Rightarrow> 'h) \<Rightarrow> 'h
    \<Rightarrow> ('p, 'c) stk option \<Rightarrow> 'h \<times> ('p, 'c) stk option" where
  "sk_deep_copy sm al1 al2 copy free h sk =
     (case sk_dup sm al1 al2 sk of
        None \<Rightarrow> (h, None)
      | Some ret \<Rightarrow>
          (case copy_loop copy free h [] (take (k_num ret) (k_data ret)) of
             (h, None) \<Rightarrow> (h, None)
           | (h, Some copies) \<Rightarrow> (h, Some (ret\<lparr>k_data := splice (k_data ret) 0 copies\<rparr>))))"

end
