(* ===== verification/StackSpec.thy ===== *)
theory StackSpec imports Stack "HOL-Library.Multiset" begin

text \<open>
  A stack is a list of pointers: \<open>elems\<close> abstracts from the capacity and from what the array holds
  behind the elements, and the operations of \<open>stack.c\<close> are the operations of a list (locale
  \<open>sequence\<close>, with its interpretation). The second part is about the order: sorting and searching
  under the contracts of \<open>qsort\<close> and \<open>bsearch\<close>, the flag that says that a stack is sorted, and what
  \<open>sk_set\<close> does to it.
\<close>

section \<open>Stacks as lists\<close>

definition elems :: "('p, 'c) stk option \<Rightarrow> 'p option list" where
  "elems sk = (case sk of None \<Rightarrow> [] | Some sk \<Rightarrow> take (k_num sk) (k_data sk))"

definition stk_ok :: "('p, 'c) stk option \<Rightarrow> bool" where
  "stk_ok sk = (case sk of None \<Rightarrow> True
     | Some sk \<Rightarrow> length (k_data sk) = k_num_alloc sk \<and> k_num sk < k_num_alloc sk \<and> k_num_alloc sk * 8 < size_mod)"

definition blocks_ok :: "'p blocks \<Rightarrow> bool" where
  "blocks_ok al \<longleftrightarrow> (\<forall>n b. al n = Some b \<longrightarrow> length b = n)"

lemma elems_simps [simp]: "elems None = []" "elems (Some sk) = take (k_num sk) (k_data sk)"
  by (simp_all add: elems_def)

lemma stk_ok_simps [simp]: "stk_ok None"
  "stk_ok (Some sk) \<longleftrightarrow> length (k_data sk) = k_num_alloc sk \<and> k_num sk < k_num_alloc sk \<and> k_num_alloc sk * 8 < size_mod"
  by (simp_all add: stk_ok_def)

lemma ptr_realloc_Some:
  assumes "ptr_realloc al old n = Some d" "blocks_ok al"
  shows "length d = n \<and> (\<forall>k \<le> length old. k \<le> n \<longrightarrow> take k d = take k old)"
  using assms by (auto simp: ptr_realloc_def blocks_ok_def splice_def min_def)

definition too_big :: "nat \<Rightarrow> nat \<Rightarrow> bool" where
  "too_big n k \<longleftrightarrow> k < n \<or> k * 8 mod size_mod div 8 \<noteq> k"

lemma grow_size_alt:
  "grow_size n = (let m = if too_big n (n * 2 mod size_mod) then (n + 1) mod size_mod else n * 2 mod size_mod
     in if too_big n m then None else Some m)"
  by (simp only: grow_size_def Let_def too_big_def)

lemma not_too_big: "n \<le> k \<Longrightarrow> k * 8 < size_mod \<Longrightarrow> \<not> too_big n k"
proof -
  assume "n \<le> k" "k * 8 < size_mod"
  moreover from this have "k * 8 mod size_mod = k * 8" by (intro mod_less)
  ultimately show "\<not> too_big n k" by (simp add: too_big_def)
qed

lemma too_big_bound: "\<not> too_big n k \<Longrightarrow> n \<le> k \<and> k * 8 < size_mod"
proof -
  assume t: "\<not> too_big n k"
  have "k * 8 mod size_mod < size_mod" by simp
  then have "k * 8 mod size_mod div 8 < 2 ^ 61" by simp
  moreover have "k * 8 mod size_mod div 8 = k" using t by (simp only: too_big_def de_Morgan_disj not_not)
  ultimately have "k < 2 ^ 61" by (simp only:)
  then show ?thesis using t by (simp add: too_big_def not_less)
qed

lemma grow_size_Some:
  assumes "grow_size n = Some m" "0 < n"
  shows "n < m \<and> m * 8 < size_mod"
proof -
  have m: "\<not> too_big n m" "m = n * 2 mod size_mod \<or> m = (n + 1) mod size_mod"
    using assms(1) unfolding grow_size_alt Let_def by (auto split: if_splits)
  have "m \<noteq> n"
  proof
    assume e: "m = n"
    then have "n * 8 < size_mod" using too_big_bound [OF m(1)] by simp
    then have "n * 2 mod size_mod = n * 2" "(n + 1) mod size_mod = n + 1" by (auto intro!: mod_less)
    then have "n = n * 2 \<or> n = n + 1" using m(2) e by (simp only:)
    then show False using assms(2) by auto
  qed
  then show ?thesis using too_big_bound [OF m(1)] by simp
qed

lemma grow_size_None:
  assumes "grow_size n = None" "n * 8 < size_mod"
  shows "2 ^ 61 \<le> n + 1"
proof (rule ccontr)
  assume "\<not> 2 ^ 61 \<le> n + 1"
  then have l: "(n + 1) * 8 < size_mod" by simp
  then have "(n + 1) mod size_mod = n + 1" by (intro mod_less) simp
  then have "\<not> too_big n ((n + 1) mod size_mod)" using not_too_big [OF _ l, of n] by simp
  then show False using assms(1) unfolding grow_size_alt Let_def by (auto split: if_splits)
qed

lemma reserve_Some:
  assumes "sk_reserve al sk = Some sk'" "stk_ok (Some sk)" "blocks_ok al"
  shows "stk_ok (Some sk') \<and> elems (Some sk') = elems (Some sk) \<and> k_num sk' = k_num sk \<and> k_num sk + 1 < k_num_alloc sk'"
proof -
  have num: "(k_num sk + 1) mod size_mod = k_num sk + 1" using assms(2) by (intro mod_less) simp
  show ?thesis
  proof (cases "k_num_alloc sk \<le> k_num sk + 1")
    case True
    then obtain n d where n: "grow_size (k_num_alloc sk) = Some n" and d: "ptr_realloc al (k_data sk) n = Some d"
      and sk': "sk' = sk\<lparr>k_data := d, k_num_alloc := n\<rparr>"
      using assms(1) num by (auto simp: sk_reserve_def split: option.splits)
    have "k_num_alloc sk < n" "n * 8 < size_mod" using grow_size_Some [OF n] assms(2) by simp_all
    then show ?thesis using ptr_realloc_Some [OF d assms(3)] assms(2) sk' by simp
  next
    case False
    then show ?thesis using assms(1,2) num by (simp add: sk_reserve_def)
  qed
qed

text \<open>Insertion fails only when memory is refused, or the array cannot get larger.\<close>

lemma reserve_None:
  assumes "sk_reserve al sk = None" "stk_ok (Some sk)"
  shows "(\<exists>n. al n = None) \<or> 2 ^ 61 \<le> k_num sk + 2"
proof -
  have num: "(k_num sk + 1) mod size_mod = k_num sk + 1" using assms(2) by (intro mod_less) simp
  then have le: "k_num_alloc sk \<le> k_num sk + 1" using assms(1) by (auto simp: sk_reserve_def split: if_splits)
  from assms(1) consider "grow_size (k_num_alloc sk) = None" | n where "al n = None"
    by (auto simp: sk_reserve_def ptr_realloc_def split: if_splits option.splits)
  then show ?thesis
  proof cases
    case 1
    then show ?thesis using grow_size_None [OF 1] assms(2) le by simp
  qed auto
qed

lemma sk_insert_list:
  assumes "stk_ok sk" "blocks_ok al" "sk_insert al sk p pos = (sk', n)" "sk \<noteq> None"
  shows "stk_ok sk' \<and> sk' \<noteq> None \<and>
    (n = 0 \<and> sk' = sk \<and> ((\<exists>n. al n = None) \<or> 2 ^ 61 \<le> length (elems sk) + 2) \<or>
     n = Suc (length (elems sk)) \<and> elems sk' = take pos (elems sk) @ p # drop pos (elems sk))"
proof -
  obtain s where s: "sk = Some s" using assms(4) by auto
  show ?thesis
  proof (cases "sk_reserve al s")
    case None
    then show ?thesis using assms s reserve_None [OF None] by (auto simp: min_def)
  next
    case (Some t)
    have t: "stk_ok (Some t)" "elems (Some t) = elems sk" "k_num t = k_num s" "k_num s + 1 < k_num_alloc t"
      using reserve_Some [OF Some] assms(1,2) s by auto
    let ?n = "k_num t" and ?d = "k_data t"
    let ?d' = "if pos \<ge> ?n then ?d[?n := p] else (splice ?d (pos + 1) (take (?n - pos) (drop pos ?d)))[pos := p]"
    have sk': "sk' = Some (t\<lparr>k_data := ?d', k_num := ?n + 1, k_sorted := False\<rparr>)" "n = ?n + 1"
      using assms(3) s Some by (auto simp: Let_def)
    have l: "length ?d' = length ?d" using t(1,3,4) by (auto simp: length_splice)
    have "take (?n + 1) ?d' = take pos (take ?n ?d) @ p # drop pos (take ?n ?d)"
    proof (cases "pos \<ge> ?n")
      case True
      then show ?thesis using t(1,3,4) by (simp add: take_Suc_conv_app_nth)
    next
      case False
      have "splice ?d (pos + 1) (take (?n - pos) (drop pos ?d)) = take (pos + 1) ?d @ take (?n - pos) (drop pos ?d) @ drop (?n + 1) ?d"
        using False t by (simp add: splice_def)
      moreover have "take (pos + 1) ?d = take pos ?d @ [?d ! pos]" using False t by (simp add: take_Suc_conv_app_nth)
      ultimately have "(splice ?d (pos + 1) (take (?n - pos) (drop pos ?d)))[pos := p] =
        take pos ?d @ p # take (?n - pos) (drop pos ?d) @ drop (?n + 1) ?d"
        using False t by (simp add: list_update_append)
      moreover have "Suc (k_num s) - pos = Suc (k_num s - pos)" using False t(3) by simp
      ultimately show ?thesis using False t(1,3,4) by (simp add: drop_take)
    qed
    then have e: "take (?n + 1) ?d' = take pos (elems sk) @ p # drop pos (elems sk)" unfolding t(2) [symmetric] elems_simps .
    have "length (elems sk) = ?n" using t(1,2) by (metis elems_simps(2) length_take min.absorb2 less_imp_le stk_ok_simps(2))
    then have "n = Suc (length (elems sk))" using sk'(2) by simp
    moreover have "elems sk' = take pos (elems sk) @ p # drop pos (elems sk)" using e sk'(1) by simp
    moreover have "stk_ok sk'" "sk' \<noteq> None" using sk'(1) t(1,3,4) l by simp_all
    ultimately show ?thesis by blast
  qed
qed

lemma sk_delete_list:
  assumes "stk_ok sk" "pos < length (elems sk)"
  shows "\<exists>sk'. sk_delete sk pos = (sk', elems sk ! pos) \<and> stk_ok sk' \<and> sk' \<noteq> None \<and>
    elems sk' = take pos (elems sk) @ drop (Suc pos) (elems sk)"
proof -
  obtain s where s: "sk = Some s" using assms(2) by (cases sk) auto
  let ?n = "k_num s" and ?d = "k_data s"
  let ?d' = "if pos \<noteq> ?n - 1 then splice ?d pos (take (?n - pos - 1) (drop (pos + 1) ?d)) else ?d"
  have n: "pos < ?n" "?n < length ?d" using assms s by simp_all
  have "take (?n - 1) ?d' = take pos (take ?n ?d) @ drop (Suc pos) (take ?n ?d)" "length ?d' = length ?d"
    using n by (auto simp: splice_def drop_take)
  then show ?thesis using n assms(1) s by (simp add: Let_def less_imp_diff_less)
qed


section \<open>The interface of a sequence\<close>

locale sequence =
  fixes inv :: "'s \<Rightarrow> bool" and els :: "'s \<Rightarrow> 'a list"
    and ins :: "'s \<Rightarrow> 'a \<Rightarrow> nat \<Rightarrow> 's \<times> nat" and del :: "'s \<Rightarrow> nat \<Rightarrow> 's \<times> 'a"
  assumes ins: "inv s \<Longrightarrow> ins s x i = (s', n) \<Longrightarrow> n \<noteq> 0 \<Longrightarrow> inv s' \<and> els s' = take i (els s) @ x # drop i (els s)"
    and del: "inv s \<Longrightarrow> i < length (els s) \<Longrightarrow>
      \<exists>s'. del s i = (s', els s ! i) \<and> inv s' \<and> els s' = take i (els s) @ drop (Suc i) (els s)"
begin

text \<open>A run of insertions at the end, and runs of deletions at either end.\<close>

lemma ins_end: "inv s \<Longrightarrow> ins s x (length (els s)) = (s', n) \<Longrightarrow> n \<noteq> 0 \<Longrightarrow> inv s' \<and> els s' = els s @ [x]"
  by (drule (2) ins) simp

lemma del_end:
  assumes "inv s" "els s = ys @ [x]"
  shows "\<exists>s'. del s (length (els s) - 1) = (s', x) \<and> inv s' \<and> els s' = ys"
  using del [of s "length ys"] assms by (auto simp: nth_append)

lemma del_front:
  assumes "inv s" "els s = x # ys"
  shows "\<exists>s'. del s 0 = (s', x) \<and> inv s' \<and> els s' = ys"
  using del [of s 0] assms by auto

end

text \<open>The stacks that are not NULL, with any allocator.\<close>

interpretation sk: sequence "\<lambda>sk. stk_ok sk \<and> sk \<noteq> None" elems
    "\<lambda>sk p i. if blocks_ok al then sk_insert al sk p i else (sk, 0)" sk_delete for al :: "'p blocks"
proof
  fix s :: "('p, 'c) stk option" and x i s' n
  assume "stk_ok s \<and> s \<noteq> None" "(if blocks_ok al then sk_insert al s x i else (s, 0)) = (s', n)" "n \<noteq> 0"
  then show "(stk_ok s' \<and> s' \<noteq> None) \<and> elems s' = take i (elems s) @ x # drop i (elems s)"
    using sk_insert_list [of s al x i s' n] by (auto split: if_splits)
next
  fix s :: "('p, 'c) stk option" and i
  assume "stk_ok s \<and> s \<noteq> None" "i < length (elems s)"
  then show "\<exists>s'. sk_delete s i = (s', elems s ! i) \<and> (stk_ok s' \<and> s' \<noteq> None) \<and> elems s' = take i (elems s) @ drop (Suc i) (elems s)"
    using sk_delete_list [of s i] by blast
qed

section \<open>Every call is a list operation\<close>

datatype 'p stk_call = Insert "'p blocks" "'p option" nat | Push "'p blocks" "'p option" | Delete nat
  | DeletePtr "'p option" | Pop | Shift | Zero | Set_at nat "'p option" | Value nat | Num | Sort

datatype 'p stk_ret = RNum nat | RPtr "'p option" | RNone

fun stk_run :: "('p, 'c) clib \<Rightarrow> 'p stk_call \<Rightarrow> ('p, 'c) stk option \<Rightarrow> ('p, 'c) stk option \<times> 'p stk_ret" where
  "stk_run L (Insert al p i) sk = map_prod id RNum (sk_insert al sk p i)"
| "stk_run L (Push al p) sk = map_prod id RNum (sk_push al sk p)"
| "stk_run L (Delete i) sk = map_prod id RPtr (sk_delete sk i)"
| "stk_run L (DeletePtr p) sk = map_prod id RPtr (sk_delete_ptr sk p)"
| "stk_run L Pop sk = map_prod id RPtr (sk_pop sk)"
| "stk_run L Shift sk = map_prod id RPtr (sk_shift sk)"
| "stk_run L Zero sk = (sk_zero sk, RNone)"
| "stk_run L (Set_at i v) sk = map_prod id RPtr (sk_set sk i v)"
| "stk_run L (Value i) sk = (sk, RPtr (sk_value sk i))"
| "stk_run L Num sk = (sk, RNum (sk_num sk))"
| "stk_run L Sort sk = (sk_sort L sk, RNone)"

text \<open>What the call may do to the list, and what it may return.\<close>

definition list_insert_at :: "'p blocks \<Rightarrow> 'p option \<Rightarrow> nat \<Rightarrow> 'p option list \<Rightarrow> 'p stk_ret \<Rightarrow> 'p option list \<Rightarrow> bool" where
  "list_insert_at al p i xs r xs' \<longleftrightarrow>
     r = RNum 0 \<and> xs' = xs \<and> ((\<exists>n. al n = None) \<or> 2 ^ 61 \<le> length xs + 2) \<or>
     r = RNum (Suc (length xs)) \<and> xs' = take i xs @ p # drop i xs"

definition list_delete_at :: "nat \<Rightarrow> 'p option list \<Rightarrow> 'p stk_ret \<Rightarrow> 'p option list \<Rightarrow> bool" where
  "list_delete_at i xs r xs' \<longleftrightarrow>
     (if i < length xs then r = RPtr (xs ! i) \<and> xs' = take i xs @ drop (Suc i) xs else r = RPtr None \<and> xs' = xs)"

fun list_call :: "'p stk_call \<Rightarrow> 'p option list \<Rightarrow> 'p stk_ret \<Rightarrow> 'p option list \<Rightarrow> bool" where
  "list_call (Insert al p i) xs r xs' = list_insert_at al p i xs r xs'"
| "list_call (Push al p) xs r xs' = list_insert_at al p (length xs) xs r xs'"
| "list_call (Delete i) xs r xs' = list_delete_at i xs r xs'"
| "list_call (DeletePtr p) xs r xs' = (if p \<in> set xs then r = RPtr p \<and> xs' = remove1 p xs else r = RPtr None \<and> xs' = xs)"
| "list_call Pop xs r xs' = list_delete_at (length xs - 1) xs r xs'"
| "list_call Shift xs r xs' = list_delete_at 0 xs r xs'"
| "list_call Zero xs r xs' = (xs' = [])"
| "list_call (Set_at i v) xs r xs' = (xs' = xs[i := v] \<and> r = RPtr (if i < length xs then v else None))"
| "list_call (Value i) xs r xs' = (xs' = xs \<and> r = RPtr (if i < length xs then xs ! i else None))"
| "list_call Num xs r xs' = (xs' = xs \<and> r = RNum (length xs))"
| "list_call Sort xs r xs' = (mset xs' = mset xs)"

fun call_ok :: "'p stk_call \<Rightarrow> bool" where
  "call_ok (Insert al p i) = blocks_ok al"
| "call_ok (Push al p) = blocks_ok al"
| "call_ok c = True"

definition sorts :: "('p, 'c) clib \<Rightarrow> bool" where
  "sorts L \<longleftrightarrow> (\<forall>c xs. mset (l_qsort L (l_fn L c) xs) = mset xs)"

lemma ptr_index_Some: "ptr_index p xs = Some i \<Longrightarrow> i < length xs \<and> xs ! i = p \<and> p \<in> set xs \<and> take i xs @ drop (Suc i) xs = remove1 p xs"
  by (induction xs arbitrary: i) (auto split: if_splits)

lemma ptr_index_None: "ptr_index p xs = None \<longleftrightarrow> p \<notin> set xs"
  by (induction xs) auto

lemma num_elems: "stk_ok sk \<Longrightarrow> sk_num sk = length (elems sk)"
  by (cases sk) auto

lemma sk_delete_call:
  assumes "stk_ok sk" "sk \<noteq> None"
  shows "stk_ok (fst (sk_delete sk i)) \<and> fst (sk_delete sk i) \<noteq> None \<and>
    list_delete_at i (elems sk) (RPtr (snd (sk_delete sk i))) (elems (fst (sk_delete sk i)))"
proof (cases "i < length (elems sk)")
  case True
  from sk.del [OF _ True] assms obtain sk' where "sk_delete sk i = (sk', elems sk ! i)" "stk_ok sk'" "sk' \<noteq> None"
    "elems sk' = take i (elems sk) @ drop (Suc i) (elems sk)" by blast
  then show ?thesis using True by (simp add: list_delete_at_def)
next
  case False
  then show ?thesis using assms by (auto simp: list_delete_at_def)
qed

lemma sk_insert_call:
  assumes "stk_ok sk" "sk \<noteq> None" "blocks_ok al"
  shows "stk_ok (fst (sk_insert al sk p i)) \<and> fst (sk_insert al sk p i) \<noteq> None \<and>
    list_insert_at al p i (elems sk) (RNum (snd (sk_insert al sk p i))) (elems (fst (sk_insert al sk p i)))"
  using sk_insert_list [OF assms(1,3) surjective_pairing assms(2), of p i] unfolding list_insert_at_def by metis

lemma sk_delete_ptr_call:
  assumes "stk_ok sk" "sk \<noteq> None"
  shows "stk_ok (fst (sk_delete_ptr sk p)) \<and> fst (sk_delete_ptr sk p) \<noteq> None \<and>
    list_call (DeletePtr p) (elems sk) (RPtr (snd (sk_delete_ptr sk p))) (elems (fst (sk_delete_ptr sk p)))"
proof (cases "ptr_index p (elems sk)")
  case None
  moreover have "p \<notin> set (elems sk)" using None by (simp add: ptr_index_None)
  ultimately show ?thesis using assms by (cases sk) auto
next
  case (Some i)
  have "sk_delete_ptr sk p = sk_delete sk i" using Some assms by (cases sk) (simp_all del: sk_delete.simps)
  then show ?thesis using sk_delete_call [OF assms, of i] ptr_index_Some [OF Some] by (simp add: list_delete_at_def)
qed

lemma sk_sort_perm:
  assumes "stk_ok sk" "sk \<noteq> None" "sorts L"
  shows "stk_ok (sk_sort L sk) \<and> sk_sort L sk \<noteq> None \<and> mset (elems (sk_sort L sk)) = mset (elems sk)"
proof -
  obtain s where s: "sk = Some s" using assms(2) by auto
  let ?xs = "take (k_num s) (k_data s)"
  have perm: "mset (l_qsort L (l_fn L c) ?xs) = mset ?xs" for c using assms(3) by (simp add: sorts_def)
  then have len: "length (l_qsort L (l_fn L c) ?xs) = k_num s" for c
    using assms(1) s mset_eq_length [of "l_qsort L (l_fn L c) ?xs" ?xs] by simp
  show ?thesis using assms(1) s perm len by (auto simp: splice_def split: option.splits)
qed

lemma map_prod_eq: "map_prod id f x = (a, b) \<longleftrightarrow> a = fst x \<and> b = f (snd x)"
  by (cases x) auto

lemma stk_run_list:
  assumes "stk_ok sk" "sk \<noteq> None" "call_ok c" "sorts L" "stk_run L c sk = (sk', r)"
  shows "stk_ok sk' \<and> sk' \<noteq> None \<and> list_call c (elems sk) r (elems sk')"
proof -
  obtain s where s: "sk = Some s" using assms(2) by auto
  have ok: "length (k_data s) = k_num_alloc s" "k_num s < k_num_alloc s" "k_num_alloc s * 8 < size_mod"
    using assms(1) s by simp_all
  note delete = sk_delete_call [OF assms(1,2)]
  have ends: "sk_pop sk = sk_delete sk (length (elems sk) - 1)" "sk_shift sk = sk_delete sk 0"
    using s ok by (cases "k_num s"; simp)+
  show ?thesis
  proof (cases c)
    case (Insert al p i)
    then show ?thesis using assms(3,5) sk_insert_call [OF assms(1,2)] by (simp add: map_prod_eq)
  next
    case (Push al p)
    then show ?thesis using assms(3,5) sk_insert_call [OF assms(1,2)] num_elems [OF assms(1)] by (simp add: map_prod_eq sk_push_def)
  next
    case (Delete i)
    then show ?thesis using assms(5) delete by (simp add: map_prod_eq)
  next
    case (DeletePtr p)
    then show ?thesis using assms(5) sk_delete_ptr_call [OF assms(1,2)] by (simp add: map_prod_eq)
  next
    case Pop
    then show ?thesis using assms(5) ends delete by (simp add: map_prod_eq)
  next
    case Shift
    then show ?thesis using assms(5) ends delete by (simp add: map_prod_eq)
  next
    case Zero
    then show ?thesis using assms(5) s ok by (auto simp: length_splice split: if_splits)
  next
    case (Set_at i v)
    then show ?thesis using assms(5) s ok by (auto simp: take_update_swap list_update_beyond split: if_splits)
  next
    case Sort
    then show ?thesis using assms(5) sk_sort_perm [OF assms(1,2,4)] by auto
  qed (use assms s ok in auto)
qed

text \<open>Runs of calls.\<close>

fun stk_runs :: "('p, 'c) clib \<Rightarrow> 'p stk_call list \<Rightarrow> ('p, 'c) stk option \<Rightarrow> ('p, 'c) stk option \<times> 'p stk_ret list" where
  "stk_runs L [] sk = (sk, [])"
| "stk_runs L (c # cs) sk =
     (case stk_run L c sk of (sk, r) \<Rightarrow> map_prod id (Cons r) (stk_runs L cs sk))"

fun list_calls :: "'p stk_call list \<Rightarrow> 'p option list \<Rightarrow> 'p stk_ret list \<Rightarrow> 'p option list \<Rightarrow> bool" where
  "list_calls [] xs rs xs' \<longleftrightarrow> rs = [] \<and> xs' = xs"
| "list_calls (c # cs) xs rs xs' \<longleftrightarrow> (\<exists>r rs' ys. rs = r # rs' \<and> list_call c xs r ys \<and> list_calls cs ys rs' xs')"

lemma stk_runs_list:
  assumes "stk_ok sk" "sk \<noteq> None" "list_all call_ok cs" "sorts L" "stk_runs L cs sk = (sk', rs)"
  shows "list_calls cs (elems sk) rs (elems sk')"
  using assms
proof (induction cs arbitrary: sk rs)
  case (Cons c cs)
  obtain sk1 r where 1: "stk_run L c sk = (sk1, r)" by fastforce
  then obtain rs' where 2: "stk_runs L cs sk1 = (sk', rs')" "rs = r # rs'" using Cons.prems(5) by (cases "stk_runs L cs sk1") auto
  have "stk_ok sk1 \<and> sk1 \<noteq> None \<and> list_call c (elems sk) r (elems sk1)"
    using stk_run_list [OF Cons.prems(1,2) _ Cons.prems(4) 1] Cons.prems(3) by simp
  then show ?case using Cons.IH [of sk1 rs'] Cons.prems(3,4) 2 by auto
qed simp

lemma sk_new_ok:
  assumes "sk_new sm al cf = Some s" "blocks_ok al"
  shows "stk_ok (Some s) \<and> elems (Some s) = [] \<and> k_comp s = cf \<and> \<not> k_sorted s"
  using assms by (auto simp: sk_new_def blocks_ok_def kMinSize_def length_splice split: if_splits option.splits)

section \<open>Order\<close>

definition cmp_le :: "'p cmp \<Rightarrow> 'p option \<Rightarrow> 'p option \<Rightarrow> bool" where
  "cmp_le cmp a b \<longleftrightarrow> cmp a b \<le> 0"

text \<open>A comparison function is consistent: it is antisymmetric in its sign and transitive.\<close>

definition cmp_ok :: "'p cmp \<Rightarrow> bool" where
  "cmp_ok cmp \<longleftrightarrow> (\<forall>a b. sgn (cmp a b) = - sgn (cmp b a)) \<and> transp (cmp_le cmp)"

text \<open>What the C library promises for such functions: \<open>qsort\<close> sorts, and \<open>bsearch\<close> finds a match in a sorted
  array, any one, when there is one.\<close>

definition clib_ok :: "('p, 'c) clib \<Rightarrow> bool" where
  "clib_ok L \<longleftrightarrow> sorts L \<and>
     (\<forall>cmp xs. cmp_ok cmp \<longrightarrow> sorted_wrt (cmp_le cmp) (l_qsort L cmp xs)) \<and>
     (\<forall>cmp p xs. cmp_ok cmp \<longrightarrow> sorted_wrt (cmp_le cmp) xs \<longrightarrow>
        (case l_bsearch L cmp p xs of None \<Rightarrow> \<forall>x \<in> set xs. cmp p x \<noteq> 0 | Some i \<Rightarrow> i < length xs \<and> cmp p (xs ! i) = 0))"

text \<open>What the flag means.\<close>

definition flag_ok :: "('p, 'c) clib \<Rightarrow> ('p, 'c) stk option \<Rightarrow> bool" where
  "flag_ok L sk = (case sk of None \<Rightarrow> True
     | Some s \<Rightarrow> k_sorted s \<longrightarrow> (\<exists>c. k_comp s = Some c \<and> sorted_wrt (cmp_le (l_fn L c)) (elems sk)))"

lemma first_match:
  assumes "cmp_ok cmp" "sorted_wrt (cmp_le cmp) xs" "i < length xs" "cmp p (xs ! i) = 0"
  shows "first_match cmp p (xs @ ys) i \<le> i \<and> cmp p (xs ! first_match cmp p (xs @ ys) i) = 0 \<and>
    (\<forall>j < first_match cmp p (xs @ ys) i. cmp p (xs ! j) \<noteq> 0)"
  using assms(3,4)
proof (induction i)
  case (Suc i)
  show ?case
  proof (cases "cmp p (xs ! i) = 0")
    case True
    then show ?thesis using Suc by (simp add: nth_append le_SucI)
  next
    case False
    have "cmp p (xs ! j) \<noteq> 0" if "j < Suc i" for j
    proof
      assume "cmp p (xs ! j) = 0"
      have sg: "sgn (cmp a b) = - sgn (cmp b a)" for a b using assms(1) unfolding cmp_ok_def by blast
      have tr: "cmp a b \<le> 0 \<Longrightarrow> cmp b c \<le> 0 \<Longrightarrow> cmp a c \<le> 0" for a b c
        using assms(1) unfolding cmp_ok_def transp_def cmp_le_def by blast
      have so: "a < b \<Longrightarrow> b < length xs \<Longrightarrow> cmp (xs ! a) (xs ! b) \<le> 0" for a b
        using assms(2) by (auto simp: sorted_wrt_iff_nth_less cmp_le_def)
      have "cmp (xs ! i) (xs ! Suc i) \<le> 0" using so [of i "Suc i"] Suc.prems(1) by simp
      moreover have "cmp (xs ! Suc i) p \<le> 0" using sg [of p "xs ! Suc i"] Suc.prems(2) by (simp add: sgn_0_0)
      ultimately have "cmp (xs ! i) p \<le> 0" by (rule tr)
      moreover have "cmp p (xs ! i) \<le> 0"
        using \<open>cmp p (xs ! j) = 0\<close> that so [of j i] Suc.prems(1) tr [of p "xs ! j" "xs ! i"] by (cases "j = i") auto
      moreover have "0 \<le> cmp p (xs ! i)" using sg [of p "xs ! i"] \<open>cmp (xs ! i) p \<le> 0\<close> by (auto simp: sgn_if split: if_splits)
      ultimately show False using False by simp
    qed
    then show ?thesis using False Suc.prems by (simp add: nth_append)
  qed
qed simp


lemma sk_sort_sorted:
  assumes "stk_ok (Some s)" "flag_ok L (Some s)" "clib_ok L" "k_comp s = Some c" "cmp_ok (l_fn L c)"
    and "sk_sort L (Some s) = Some s'"
  shows "sorted_wrt (cmp_le (l_fn L c)) (elems (Some s')) \<and> k_comp s' = Some c \<and> k_num s' = k_num s"
proof (cases "k_sorted s")
  case True
  then show ?thesis using assms(2,4,6) by (auto simp: flag_ok_def)
next
  case False
  let ?xs = "take (k_num s) (k_data s)"
  let ?ys = "l_qsort L (l_fn L c) ?xs"
  have "mset ?ys = mset ?xs" "sorted_wrt (cmp_le (l_fn L c)) ?ys"
    using assms(3,5) by (simp_all add: clib_ok_def sorts_def)
  moreover from this(1) have "length ?ys = k_num s" using assms(1) mset_eq_length [of ?ys ?xs] by simp
  ultimately show ?thesis using assms(1,4,6) False by (auto simp: splice_def)
qed

text \<open>The calls that keep the flag true: all but \<open>sk_set\<close>.\<close>

lemma flag_ok_sublist:
  assumes "flag_ok L (Some s)" "k_sorted s \<Longrightarrow> k_sorted s' \<Longrightarrow> elems (Some s') = take i (elems (Some s)) @ drop j (elems (Some s))" "i \<le> j"
    "k_sorted s' \<Longrightarrow> k_sorted s \<and> k_comp s' = k_comp s"
  shows "flag_ok L (Some s')"
proof -
  have "sorted_wrt P (take i xs @ drop j xs)" if "sorted_wrt P xs" for P and xs :: "'a option list"
    using that \<open>i \<le> j\<close> by (auto simp: sorted_wrt_iff_nth_less nth_append)
  then show ?thesis using assms(1,2,4) by (fastforce simp: flag_ok_def)
qed

lemma stk_run_flag:
  assumes "stk_ok sk" "sk \<noteq> None" "flag_ok L sk" "clib_ok L" "\<forall>c. cmp_ok (l_fn L c)" "call_ok c" "\<forall>i v. c \<noteq> Set_at i v"
    and "stk_run L c sk = (sk', r)"
  shows "flag_ok L sk'"
proof -
  obtain s where s: "sk = Some s" using assms(2) by auto
  have del: "flag_ok L (fst (sk_delete (Some s) i))" for i
  proof (cases "i < k_num s")
    case True
    then obtain s' where s': "fst (sk_delete (Some s) i) = Some s'" "k_sorted s' = k_sorted s" "k_comp s' = k_comp s"
      by (auto simp: Let_def)
    have "elems (Some s') = take i (elems (Some s)) @ drop (Suc i) (elems (Some s))"
      using sk_delete_list [OF assms(1), of i] True assms(1) s s'(1) by auto
    then show ?thesis unfolding s'(1) using assms(3) s s'(2,3) by (intro flag_ok_sublist [of L s s' i "Suc i"]) auto
  qed (use assms(3) s in simp)
  have ins: "flag_ok L (fst (sk_insert al (Some s) p i))" for al p i
    using assms(3) s by (auto simp: flag_ok_def Let_def split: option.splits)
  show ?thesis
  proof (cases c)
    case (Insert al p i)
    then show ?thesis using assms(8) s ins by (simp add: map_prod_eq)
  next
    case (Push al p)
    then show ?thesis using assms(8) s ins by (simp add: map_prod_eq sk_push_def)
  next
    case (Delete i)
    then show ?thesis using assms(8) s del by (simp add: map_prod_eq)
  next
    case (DeletePtr p)
    then show ?thesis using assms(3,8) s del by (auto simp: map_prod_eq simp del: sk_delete.simps split: option.splits)
  next
    case Pop
    then show ?thesis using assms(3,8) s del by (auto simp: map_prod_eq simp del: sk_delete.simps)
  next
    case Shift
    then show ?thesis using assms(3,8) s del by (auto simp: map_prod_eq simp del: sk_delete.simps)
  next
    case Sort
    show ?thesis
    proof (cases "k_comp s")
      case None
      then show ?thesis using Sort assms(3,8) s by simp
    next
      case (Some cf)
      then obtain s' where s': "sk_sort L (Some s) = Some s'" by (cases "sk_sort L (Some s)") (auto split: if_splits)
      have "sorted_wrt (cmp_le (l_fn L cf)) (elems (Some s')) \<and> k_comp s' = Some cf"
        using sk_sort_sorted [OF _ _ assms(4) Some _ s'] assms(1,3,5) s by blast
      then show ?thesis using Sort assms(8) s s' by (auto simp: flag_ok_def)
    qed
  qed (use assms s in \<open>auto simp: flag_ok_def split: if_splits\<close>)
qed


lemma stk_runs_flag:
  assumes "stk_ok sk" "sk \<noteq> None" "flag_ok L sk" "clib_ok L" "\<forall>c. cmp_ok (l_fn L c)"
    and "list_all call_ok cs" "\<forall>i v. Set_at i v \<notin> set cs" "stk_runs L cs sk = (sk', rs)"
  shows "stk_ok sk' \<and> sk' \<noteq> None \<and> flag_ok L sk'"
  using assms
proof (induction cs arbitrary: sk rs)
  case (Cons c cs)
  obtain sk1 r where 1: "stk_run L c sk = (sk1, r)" by fastforce
  then obtain rs' where 2: "stk_runs L cs sk1 = (sk', rs')" using Cons.prems(8) by (cases "stk_runs L cs sk1") auto
  have "sorts L" using Cons.prems(4) by (simp add: clib_ok_def)
  then have "stk_ok sk1" "sk1 \<noteq> None" using stk_run_list [OF Cons.prems(1,2) _ _ 1] Cons.prems(6) by simp_all
  moreover have "flag_ok L sk1" using stk_run_flag [OF Cons.prems(1-5) _ _ 1] Cons.prems(6,7) by auto
  ultimately show ?case using Cons.IH [OF _ _ _ Cons.prems(4,5) _ _ 2] Cons.prems(6,7) by auto
qed simp

lemma sk_find_sorted:
  assumes "stk_ok (Some s)" "flag_ok L (Some s)" "clib_ok L" "k_comp s = Some c" "cmp_ok (l_fn L c)" "p \<noteq> None"
    and "sk_find L (Some s) p = (sk', r)"
  shows "mset (elems sk') = mset (elems (Some s)) \<and> sorted_wrt (cmp_le (l_fn L c)) (elems sk') \<and>
    (case r of None \<Rightarrow> \<forall>x \<in> set (elems sk'). l_fn L c p x \<noteq> 0
     | Some i \<Rightarrow> i < length (elems sk') \<and> l_fn L c p (elems sk' ! i) = 0 \<and> (\<forall>j < i. l_fn L c p (elems sk' ! j) \<noteq> 0))"
proof -
  have so: "sorts L" using assms(3) by (simp add: clib_ok_def)
  obtain s' where s': "sk_sort L (Some s) = Some s'" using sk_sort_perm [OF assms(1) _ so] by auto
  note perm = sk_sort_perm [OF assms(1) _ so] 
  note sorted = sk_sort_sorted [OF assms(1-5) s']
  let ?b = "l_bsearch L (l_fn L c) p (elems (Some s'))"
  have sk': "sk' = Some s'" "r = map_option (first_match (l_fn L c) p (k_data s')) ?b"
    using assms(4,6,7) s' by (auto simp del: sk_sort.simps)
  have b: "case ?b of None \<Rightarrow> \<forall>x \<in> set (elems sk'). l_fn L c p x \<noteq> 0 | Some i \<Rightarrow> i < length (elems sk') \<and> l_fn L c p (elems sk' ! i) = 0"
    using assms(3,5) sorted unfolding clib_ok_def sk'(1) by blast
  have S: "sorted_wrt (cmp_le (l_fn L c)) (elems sk')" and P: "mset (elems sk') = mset (elems (Some s))"
    using sorted perm unfolding sk'(1) s' by blast+
  have d: "k_data s' = elems sk' @ drop (k_num s') (k_data s')" using sk'(1) by simp
  show ?thesis
  proof (cases ?b)
    case None
    then show ?thesis using b sk'(2) S P by simp
  next
    case (Some i)
    then have "i < length (elems sk')" "l_fn L c p (elems sk' ! i) = 0" using b by simp_all
    from first_match [OF assms(5) S this, of "drop (k_num s') (k_data s')", folded d] this(1)
    show ?thesis using Some sk'(2) S P by simp
  qed
qed

text \<open>The index of the first element with \<open>P\<close>, or none when there is no such element.\<close>

definition first_index :: "('a \<Rightarrow> bool) \<Rightarrow> 'a list \<Rightarrow> nat option \<Rightarrow> bool" where
  "first_index P xs r = (case r of None \<Rightarrow> \<forall>x \<in> set xs. \<not> P x
     | Some i \<Rightarrow> i < length xs \<and> P (xs ! i) \<and> (\<forall>j < i. \<not> P (xs ! j)))"

lemma ptr_index_first: "first_index (\<lambda>x. x = p) xs (ptr_index p xs)"
proof (induction xs)
  case (Cons x xs)
  then show ?case
    by (auto simp: first_index_def less_Suc_eq_0_disj split: option.splits)
qed (simp add: first_index_def)

section \<open>Deep copies\<close>

text \<open>The pointers in a list that are not NULL.\<close>

definition ptrs :: "'p option list \<Rightarrow> 'p list" where
  "ptrs xs = map the (filter (\<lambda>x. x \<noteq> None) xs)"

lemma ptrs_simps [simp]: "ptrs [] = []" "ptrs (None # xs) = ptrs xs" "ptrs (Some p # xs) = p # ptrs xs" "ptrs (xs @ ys) = ptrs xs @ ptrs ys"
  by (simp_all add: ptrs_def)

definition copier :: "('h \<Rightarrow> 'p set) \<Rightarrow> ('h \<Rightarrow> 'p \<Rightarrow> 'h \<times> 'p option) \<Rightarrow> ('h \<Rightarrow> 'p \<Rightarrow> 'h) \<Rightarrow> bool" where
  "copier live copy free \<longleftrightarrow>
     (\<forall>h p. case copy h p of (h', None) \<Rightarrow> live h' = live h | (h', Some q) \<Rightarrow> q \<notin> live h \<and> live h' = insert q (live h)) \<and>
     (\<forall>h p. p \<in> live h \<longrightarrow> live (free h p) = live h - {p})"

lemma free_elems_live:
  assumes "copier live copy free" "distinct (ptrs xs)" "set (ptrs xs) \<subseteq> live h"
  shows "live (free_elems free h xs) = live h - set (ptrs xs)"
  using assms(2,3)
proof (induction xs arbitrary: h)
  case (Cons x xs)
  show ?case
  proof (cases x)
    case (Some p)
    then have "live (free h p) = live h - {p}" using assms(1) Cons.prems(2) by (auto simp: copier_def)
    moreover from this have "set (ptrs xs) \<subseteq> live (free h p)" using Some Cons.prems by auto
    ultimately show ?thesis using Some Cons by auto
  qed (use Cons in auto)
qed simp

lemma copy_loop_live:
  assumes "copier live copy free" "copy_loop copy free h copies xs = (h', r)"
    and "live h = B \<union> set (ptrs copies)" "B \<inter> set (ptrs copies) = {}" "distinct (ptrs copies)"
  shows "case r of None \<Rightarrow> live h' = B
    | Some ys \<Rightarrow> length ys = length copies + length xs \<and> live h' = B \<union> set (ptrs ys) \<and> B \<inter> set (ptrs ys) = {} \<and> distinct (ptrs ys)"
  using assms(2-)
proof (induction xs arbitrary: h copies)
  case (Cons x xs)
  show ?case
  proof (cases x)
    case None
    then show ?thesis using Cons.IH [of h "copies @ [None]"] Cons.prems by (cases r) auto
  next
    case (Some p)
    obtain h1 q where c: "copy h p = (h1, q)" by fastforce
    have l: "case q of None \<Rightarrow> live h1 = live h | Some q \<Rightarrow> q \<notin> live h \<and> live h1 = insert q (live h)"
      using assms(1) c unfolding copier_def by (cases q) (metis (mono_tags, lifting) case_prod_conv option.simps(4,5))+
    show ?thesis
    proof (cases q)
      case None
      then have "h' = free_elems free h1 copies" "r = None" using Cons.prems(1) Some c by auto
      moreover have "live (free_elems free h1 copies) = live h1 - set (ptrs copies)"
        using free_elems_live [OF assms(1) Cons.prems(4), of h1] l None Cons.prems(2) by simp
      ultimately show ?thesis using l None Cons.prems(2,3) by auto
    next
      case (Some q')
      then show ?thesis using Cons.IH [of h1 "copies @ [Some q']"] Cons.prems l c \<open>x = Some p\<close> by (cases r) auto
    qed
  qed
qed auto

text \<open>A pointer and its copy: NULL stays NULL, another one is what the copy function returned for it.\<close>

definition copied :: "('h \<Rightarrow> 'p \<Rightarrow> 'h \<times> 'p option) \<Rightarrow> 'p option \<Rightarrow> 'p option \<Rightarrow> bool" where
  "copied copy x y = (case x of None \<Rightarrow> y = None | Some p \<Rightarrow> \<exists>h1 h2 q. copy h1 p = (h2, Some q) \<and> y = Some q)"

lemma copied_simps: "copied copy None y \<longleftrightarrow> y = None"
  "copied copy (Some p) y \<longleftrightarrow> (\<exists>h1 h2 q. copy h1 p = (h2, Some q) \<and> y = Some q)"
  by (simp_all add: copied_def)

lemma copy_loop_copied:
  "copy_loop copy free h copies xs = (h', Some ys) \<Longrightarrow> \<exists>zs. ys = copies @ zs \<and> list_all2 (copied copy) xs zs"
proof (induction xs arbitrary: h copies)
  case (Cons x xs)
  have "\<exists>zs. ys = copies @ zs \<and> list_all2 (copied copy) (x # xs) zs"
    if "copied copy x y" "copy_loop copy free h1 (copies @ [y]) xs = (h', Some ys)" for y h1
    using Cons.IH [OF that(2)] that(1) by auto
  note step = this
  show ?case
  proof (cases x)
    case None
    then show ?thesis using step [of None h] Cons.prems by (simp add: copied_simps)
  next
    case (Some p)
    then obtain h1 q where "copy h p = (h1, Some q)" using Cons.prems by (auto split: prod.splits option.splits)
    then show ?thesis using step [of "Some q" h1] Cons.prems Some by (auto simp: copied_simps)
  qed
qed simp

lemma sk_dup_elems:
  assumes "stk_ok sk" "blocks_ok al1" "blocks_ok al2" "sk_dup sm al1 al2 sk = Some d"
  shows "stk_ok (Some d) \<and> elems (Some d) = elems sk"
proof -
  obtain s where s: "sk = Some s" using assms(4) by (cases sk) auto
  then obtain ret b where r: "sk_new sm al1 (k_comp s) = Some ret" "ptr_realloc al2 (k_data ret) (k_num_alloc s) = Some b"
    "d = \<lparr>k_num = k_num s, k_data = splice b 0 (take (k_num s) (k_data s)), k_sorted = k_sorted s,
          k_num_alloc = k_num_alloc s, k_comp = k_comp s\<rparr>"
    using assms(4) by (auto split: option.splits)
  have "length b = k_num_alloc s" using ptr_realloc_Some [OF r(2) assms(3)] by simp
  then show ?thesis using assms(1) s r(3) by (simp add: length_splice splice_def)
qed

section \<open>The properties\<close>

text \<open>C32: Stacks are lists: on a stack made by \<open>sk_new\<close>, any sequence of calls returns what the same operations on
  a list return and leaves the list they leave (for \<open>sk_sort\<close>, some permutation of it). Only an insertion can fail,
  when memory is refused or the array has 2^61 - 1 slots, and then it changes nothing.\<close>

theorem sk_refines_list:
  assumes "sk_new sm al cf = Some s" "blocks_ok al" "list_all call_ok cs" "sorts L" and "stk_runs L cs (Some s) = (sk', rs)"
  shows "list_calls cs [] rs (elems sk')"
proof -
  have "stk_ok (Some s)" and e: "elems (Some s) = []" using sk_new_ok [OF assms(1,2)] by simp_all
  from stk_runs_list [OF this(1) _ assms(3-5)] show ?thesis unfolding e by simp
qed

text \<open>C33: \<open>sk_find\<close> returns the first match, or nothing when there is none, after any sequence of calls that does not
  store with \<open>sk_set\<close>. Without a comparison function a match is the pointer itself, and the stack does not change.
  With one (a consistent one, \<open>cmp_ok\<close>, and a C library that sorts and searches as it promises, \<open>clib_ok\<close>), a match
  is an element equal to the pointer, and the elements have been put in order; for NULL
  there is then no match and no change.\<close>

theorem sk_find_first:
  assumes "sk_new sm al cf = Some s" "blocks_ok al" "list_all call_ok cs" "\<forall>i v. Set_at i v \<notin> set cs"
    and "clib_ok L" "\<forall>c. cmp_ok (l_fn L c)" "stk_runs L cs (Some s) = (Some t, rs)" "sk_find L (Some t) p = (sk', r)"
  shows "case k_comp t of
      None \<Rightarrow> sk' = Some t \<and> first_index (\<lambda>x. x = p) (elems (Some t)) r
    | Some c \<Rightarrow>
        if p = None then sk' = Some t \<and> r = None
        else mset (elems sk') = mset (elems (Some t)) \<and> sorted_wrt (cmp_le (l_fn L c)) (elems sk') \<and>
          first_index (\<lambda>x. l_fn L c p x = 0) (elems sk') r"
proof -
  have "flag_ok L (Some s)" using sk_new_ok [OF assms(1,2)] by (simp add: flag_ok_def)
  then have "stk_ok (Some t)" "flag_ok L (Some t)"
    using stk_runs_flag [OF _ _ _ assms(5,6,3,4,7)] sk_new_ok [OF assms(1,2)] by simp_all
  note found = sk_find_sorted [OF this assms(5) _ _ _ assms(8), folded first_index_def]
  show ?thesis
  proof (cases "k_comp t")
    case None
    then show ?thesis using assms(8) ptr_index_first [of p "elems (Some t)"] by auto
  next
    case (Some c)
    then show ?thesis using found [OF Some] assms(6,8) by (cases p) (auto simp: first_index_def simp del: sk_sort.simps)
  qed
qed

text \<open>C34: \<open>sk_set\<close> leaves the flag as it is: an element that is greater than its right neighbour, stored in a sorted stack,
  leaves a stack that calls itself sorted and is not. \<open>sk_sort\<close> does nothing to it, and \<open>sk_find\<close> hands the
  unsorted array to \<open>bsearch\<close>.\<close>

theorem sk_set_keeps_flag:
  assumes "stk_ok (Some s)" "k_sorted s" "k_comp s = Some c" "Suc i < k_num s" "l_fn L c v (k_data s ! Suc i) > 0" "p \<noteq> None"
    and "sk_set (Some s) i v = (sk', r)"
  shows "sk_is_sorted sk' \<and> \<not> sorted_wrt (cmp_le (l_fn L c)) (elems sk') \<and> sk_sort L sk' = sk' \<and>
    sk_find L sk' p = (sk', map_option (first_match (l_fn L c) p ((k_data s)[i := v])) (l_bsearch L (l_fn L c) p (elems sk')))"
proof -
  have sk': "sk' = Some (s\<lparr>k_data := (k_data s)[i := v]\<rparr>)" using assms(4,7) by auto
  have "elems sk' ! i = v" "elems sk' ! Suc i = k_data s ! Suc i" "Suc i < length (elems sk')" using assms(1,4) sk' by simp_all
  then have "\<not> sorted_wrt (cmp_le (l_fn L c)) (elems sk')"
    using assms(5) unfolding sorted_wrt_iff_nth_less cmp_le_def by (metis lessI not_le)
  then show ?thesis using assms(2,3,6) sk' by auto
qed

text \<open>C35: A deep copy neither leaks nor invents elements: with functions that allocate and free one element, a copy that
  fails has freed every element it had copied, and one that succeeds has a result of the copy function for each
  element that is not NULL, a NULL for each that is, and has allocated these copies and nothing else. (The array of
  the stack itself, which the code frees with \<open>sk_free\<close>, is not counted.)\<close>

theorem deep_copy_no_leak:
  assumes "copier live copy free" "stk_ok sk" "blocks_ok al1" "blocks_ok al2" "sk_deep_copy sm al1 al2 copy free h sk = (h', t)"
  shows "case t of None \<Rightarrow> live h' = live h
    | Some u \<Rightarrow> list_all2 (copied copy) (elems sk) (elems t) \<and> distinct (ptrs (elems t)) \<and>
        set (ptrs (elems t)) \<inter> live h = {} \<and> live h' = live h \<union> set (ptrs (elems t))"
proof (cases "sk_dup sm al1 al2 sk")
  case None
  then show ?thesis using assms(5) by (auto simp: sk_deep_copy_def)
next
  case (Some d)
  have d: "stk_ok (Some d)" "elems (Some d) = elems sk" using sk_dup_elems [OF assms(2-4) Some] by simp_all
  obtain h1 ys where c: "copy_loop copy free h [] (elems (Some d)) = (h1, ys)" by fastforce
  note l = copy_loop_live [OF assms(1) c, of "live h", simplified]
  show ?thesis
  proof (cases ys)
    case None
    then show ?thesis using assms(5) Some c l by (auto simp: sk_deep_copy_def)
  next
    case (Some zs)
    have n: "length zs = k_num d" using l Some d(1) by simp
    have t: "t = Some (d\<lparr>k_data := splice (k_data d) 0 zs\<rparr>)" "h' = h1" using assms(5) \<open>sk_dup sm al1 al2 sk = Some d\<close> c Some by (auto simp: sk_deep_copy_def)
    have "elems t = zs" using t(1) n by (simp add: splice_def)
    then show ?thesis using l Some t(1,2) copy_loop_copied [of copy free h "[]"] c d(2) by auto
  qed
qed

section \<open>An example\<close>

text \<open>Stacks of numbers; the sort is by insertion, the search from the front.\<close>

definition ex_cmp :: "nat cmp" where
  "ex_cmp a b = (case a of None \<Rightarrow> (case b of None \<Rightarrow> 0 | Some y \<Rightarrow> -1)
     | Some x \<Rightarrow> (case b of None \<Rightarrow> 1 | Some y \<Rightarrow> int x - int y))"

fun ex_insert :: "'p cmp \<Rightarrow> 'p option \<Rightarrow> 'p option list \<Rightarrow> 'p option list" where
  "ex_insert cmp x [] = [x]"
| "ex_insert cmp x (y # ys) = (if cmp x y \<le> 0 then x # y # ys else y # ex_insert cmp x ys)"

fun ex_search :: "'p cmp \<Rightarrow> 'p option \<Rightarrow> 'p option list \<Rightarrow> nat option" where
  "ex_search cmp p [] = None"
| "ex_search cmp p (x # xs) = (if cmp p x = 0 then Some 0 else map_option Suc (ex_search cmp p xs))"

definition ex_lib :: "(nat, unit) clib" where
  "ex_lib = \<lparr>l_fn = \<lambda>_. ex_cmp, l_qsort = \<lambda>cmp xs. foldr (ex_insert cmp) xs [], l_bsearch = ex_search\<rparr>"

definition ex_blocks :: "nat blocks" where
  "ex_blocks n = Some (replicate n None)"

lemma ex_blocks_ok: "blocks_ok ex_blocks"
  by (auto simp: blocks_ok_def ex_blocks_def)

lemma ex_cmp_ok: "cmp_ok ex_cmp"
  unfolding cmp_ok_def
proof (intro conjI allI)
  show "sgn (ex_cmp a b) = - sgn (ex_cmp b a)" for a b
    by (auto simp: ex_cmp_def sgn_if split: option.splits)
  show "transp (cmp_le ex_cmp)"
    by (rule transpI) (auto simp: cmp_le_def ex_cmp_def split: option.splits)
qed

lemma mset_ex_insert: "mset (ex_insert cmp x xs) = add_mset x (mset xs)"
  by (induction xs) auto

lemma sorted_ex_insert:
  assumes "cmp_ok cmp" "sorted_wrt (cmp_le cmp) xs"
  shows "sorted_wrt (cmp_le cmp) (ex_insert cmp x xs)"
  using assms(2)
proof (induction xs)
  case (Cons y ys)
  have tr: "transp (cmp_le cmp)" and sg: "sgn (cmp x y) = - sgn (cmp y x)" using assms(1) unfolding cmp_ok_def by blast+
  show ?case
  proof (cases "cmp x y \<le> 0")
    case True
    then show ?thesis using Cons.prems transpD [OF tr, of x y] by (auto simp: cmp_le_def)
  next
    case False
    then have "cmp y x \<le> 0" using sg by (auto simp: sgn_if split: if_splits)
    moreover have "set (ex_insert cmp x ys) = insert x (set ys)"
      using arg_cong [OF mset_ex_insert, of set_mset cmp x ys] by simp
    ultimately show ?thesis using False Cons by (auto simp: cmp_le_def)
  qed
qed simp

lemma ex_search_ok: "case ex_search cmp p xs of None \<Rightarrow> \<forall>x \<in> set xs. cmp p x \<noteq> 0 | Some i \<Rightarrow> i < length xs \<and> cmp p (xs ! i) = 0"
  by (induction xs) (auto split: option.splits)

lemma ex_lib_ok: "clib_ok ex_lib" "sorts ex_lib"
proof -
  have "mset (foldr (ex_insert cmp) xs []) = mset xs" for cmp :: "nat cmp" and xs
    by (induction xs) (simp_all add: mset_ex_insert)
  then show "sorts ex_lib" by (simp add: sorts_def ex_lib_def)
  moreover have "sorted_wrt (cmp_le cmp) (foldr (ex_insert cmp) xs [])" if "cmp_ok cmp" for cmp :: "nat cmp" and xs
    by (induction xs) (simp_all add: sorted_ex_insert [OF that])
  ultimately show "clib_ok ex_lib" using ex_search_ok by (auto simp: clib_ok_def ex_lib_def)
qed

definition ex_calls :: "nat stk_call list" where
  "ex_calls = [Push ex_blocks (Some 5), Push ex_blocks (Some 1), Insert ex_blocks (Some 3) 1, Push ex_blocks (Some 3), Shift]"

definition ex_stack :: "(nat, unit) stk" where
  "ex_stack = \<lparr>k_num = 3, k_data = [Some 3, Some 1, Some 3, Some 3, None, None, None, None], k_sorted = False, k_num_alloc = 8, k_comp = Some ()\<rparr>"

lemma ex_new: "sk_new True ex_blocks (Some ()) = Some \<lparr>k_num = 0, k_data = [None, None, None, None], k_sorted = False, k_num_alloc = 4, k_comp = Some ()\<rparr>"
  by (simp add: sk_new_def ex_blocks_def kMinSize_def splice_def numeral_eq_Suc)

lemma ex_grow: "grow_size 4 = Some 8"
  by (simp add: grow_size_def)

lemma update_numeral: "(x # xs)[numeral v := y] = x # xs[pred_numeral v := y]"
  by (simp add: numeral_eq_Suc)

lemma ex_block_8: "ex_blocks 8 = Some [None, None, None, None, None, None, None, None]"
  by (simp add: ex_blocks_def numeral_eq_Suc)

lemma ex_runs:
  "stk_runs ex_lib ex_calls (Some \<lparr>k_num = 0, k_data = [None, None, None, None], k_sorted = False, k_num_alloc = 4, k_comp = Some ()\<rparr>) =
     (Some ex_stack, [RNum 1, RNum 2, RNum 3, RNum 4, RPtr (Some 5)])"
  by (simp add: ex_calls_def ex_stack_def sk_push_def sk_reserve_def ex_grow ptr_realloc_def ex_block_8 splice_def Let_def
      update_numeral)

theorem sk_refines_list_witness:
  "list_calls ex_calls [] [RNum 1, RNum 2, RNum 3, RNum 4, RPtr (Some 5)] [Some 3, Some 1, Some 3]"
proof -
  have "list_all call_ok ex_calls" by (simp add: ex_calls_def ex_blocks_ok)
  from sk_refines_list [OF ex_new ex_blocks_ok this ex_lib_ok(2) ex_runs] show ?thesis by (simp add: ex_stack_def)
qed

lemma ex_find:
  "sk_find ex_lib (Some ex_stack) (Some 3) =
     (Some (ex_stack\<lparr>k_data := [Some 1, Some 3, Some 3, Some 3, None, None, None, None], k_sorted := True\<rparr>), Some 1)"
  by (simp add: ex_stack_def ex_lib_def ex_cmp_def splice_def)

theorem sk_find_first_witness:
  "mset [Some 1, Some 3, Some 3] = mset (elems (Some ex_stack)) \<and>
   first_index (\<lambda>x. ex_cmp (Some 3) x = 0) [Some 1, Some 3, Some 3] (Some 1)"
proof -
  have a: "list_all call_ok ex_calls" by (simp add: ex_calls_def ex_blocks_ok)
  have b: "\<forall>i v. Set_at i v \<notin> set ex_calls" by (simp add: ex_calls_def)
  have c: "\<forall>c. cmp_ok (l_fn ex_lib c)" by (simp add: ex_lib_def ex_cmp_ok)
  from sk_find_first [OF ex_new ex_blocks_ok a b ex_lib_ok(1) c ex_runs ex_find] show ?thesis
    by (simp add: ex_stack_def ex_lib_def)
qed

text \<open>A binary search.\<close>

fun bisect :: "nat \<Rightarrow> nat cmp \<Rightarrow> nat option \<Rightarrow> nat option list \<Rightarrow> nat \<Rightarrow> nat \<Rightarrow> nat option" where
  "bisect 0 cmp p xs lo hi = None"
| "bisect (Suc n) cmp p xs lo hi =
     (if lo \<ge> hi then None
      else let i = (lo + hi) div 2; c = cmp p (xs ! i)
        in if c = 0 then Some i else if c < 0 then bisect n cmp p xs lo i else bisect n cmp p xs (i + 1) hi)"

definition ex_bisect :: "(nat, unit) clib" where
  "ex_bisect = ex_lib\<lparr>l_bsearch := \<lambda>cmp p xs. bisect (length xs) cmp p xs 0 (length xs)\<rparr>"

definition ex_sorted :: "(nat, unit) stk" where
  "ex_sorted = \<lparr>k_num = 3, k_data = [Some 1, Some 3, Some 5, None], k_sorted = True, k_num_alloc = 4, k_comp = Some ()\<rparr>"

theorem sk_set_keeps_flag_witness:
  "sk_set (Some ex_sorted) 0 (Some 9) = (Some (ex_sorted\<lparr>k_data := [Some 9, Some 3, Some 5, None]\<rparr>), Some 9) \<and>
   snd (sk_find ex_bisect (Some (ex_sorted\<lparr>k_data := [Some 9, Some 3, Some 5, None]\<rparr>)) (Some 9)) = None"
proof -
  have 1: "sk_set (Some ex_sorted) 0 (Some 9) = (Some (ex_sorted\<lparr>k_data := [Some 9, Some 3, Some 5, None]\<rparr>), Some 9)"
    by (simp add: ex_sorted_def)
  have 2: "stk_ok (Some ex_sorted)" "k_sorted ex_sorted" "k_comp ex_sorted = Some ()" "Suc 0 < k_num ex_sorted"
    "l_fn ex_bisect () (Some 9) (k_data ex_sorted ! Suc 0) > 0" "Some (9 :: nat) \<noteq> None"
    by (simp_all add: ex_sorted_def ex_bisect_def ex_lib_def ex_cmp_def)
  have "l_bsearch ex_bisect (l_fn ex_bisect ()) (Some 9) [Some 9, Some 3, Some 5] = None"
    by (simp add: ex_bisect_def ex_lib_def ex_cmp_def Let_def)
  then show ?thesis using 1 sk_set_keeps_flag [OF 2 1] by (simp add: ex_sorted_def)
qed

definition ex_copy :: "nat list \<Rightarrow> nat \<Rightarrow> nat list \<times> nat option" where
  "ex_copy h p = (if p = 0 then (h, None) else (Suc (sum_list h) # h, Some (Suc (sum_list h))))"

lemma ex_copier: "copier set ex_copy (\<lambda>h p. removeAll p h)"
  unfolding copier_def ex_copy_def using member_le_sum_list by (fastforce split: if_splits)

theorem deep_copy_no_leak_witness:
  "(let r = sk_deep_copy True ex_blocks ex_blocks ex_copy (\<lambda>h p. removeAll p h) [7]
       (Some (ex_sorted\<lparr>k_data := [Some 4, None, Some 0, None]\<rparr>)) in set (fst r) = {7} \<and> snd r = None) \<and>
   list_all2 (copied ex_copy) [Some 4, None, Some 2] [Some 8, None, Some 16]"
proof -
  let ?copy = "\<lambda>xs. sk_deep_copy True ex_blocks ex_blocks ex_copy (\<lambda>h p. removeAll p h) [7] (Some (ex_sorted\<lparr>k_data := xs\<rparr>))"
  note ev = sk_deep_copy_def ex_sorted_def sk_new_def ex_blocks_def kMinSize_def ptr_realloc_def splice_def ex_copy_def numeral_eq_Suc
  have f: "?copy [Some 4, None, Some 0, None] = ([7], None)" by (simp add: ev)
  have s: "?copy [Some 4, None, Some 2, None] = ([16, 8, 7], Some (ex_sorted\<lparr>k_data := [Some 8, None, Some 16, None]\<rparr>))"
    by (simp add: ev)
  note leak = deep_copy_no_leak [OF ex_copier _ ex_blocks_ok ex_blocks_ok]
  show ?thesis using leak [OF _ f] leak [OF _ s] f by (simp add: ex_sorted_def)
qed

end
