(* ===== verification/Bio.thy ===== *)
theory Bio imports Prelude begin

text \<open>
  The BIO pairs of BoringSSL, \<open>crypto/bio/pair.c\<close>, and the functions of \<open>crypto/bio/bio.c\<close> they are
  used with: two connected ends, each with a ring buffer for what it writes, from which the other
  end reads. An operation works on a pair whose first component is the end it is called on and whose
  second is the \<open>peer\<close> of it; it returns the pair in the same order, and the errors it has pushed. The
  loops that copy out of a ring and into it have a fuel, the number of iterations, and return \<open>None\<close>
  when it runs out.
\<close>

datatype bio_err = BIO_R_BROKEN_PIPE | BIO_R_IN_USE | BIO_R_UNINITIALIZED | ERR_R_MALLOC_FAILURE

text \<open>\<open>bio_bio_st\<close>; of the pointer \<open>peer\<close> only whether it is NULL, since it never points elsewhere.\<close>

record bio_bio =
  b_peer :: bool
  b_closed :: bool
  b_len :: nat
  b_offset :: nat
  b_size :: nat
  b_buf :: "u8 list option"
  b_request :: nat

record bio =
  o_init :: bool
  o_shutdown :: int
  o_flags :: u32
  o_retry_reason :: int
  o_ptr :: bio_bio
  o_num_read :: nat
  o_num_write :: nat

type_synonym bio_pair = "bio \<times> bio"

definition BIO_FLAGS_READ :: u32 where "BIO_FLAGS_READ = 0x01"
definition BIO_FLAGS_WRITE :: u32 where "BIO_FLAGS_WRITE = 0x02"
definition BIO_FLAGS_IO_SPECIAL :: u32 where "BIO_FLAGS_IO_SPECIAL = 0x04"
definition BIO_FLAGS_SHOULD_RETRY :: u32 where "BIO_FLAGS_SHOULD_RETRY = 0x08"
definition kRetryFlags :: u32 where
  "kRetryFlags = BIO_FLAGS_READ OR BIO_FLAGS_WRITE OR BIO_FLAGS_IO_SPECIAL OR BIO_FLAGS_SHOULD_RETRY"

definition BIO_set_retry_read :: "bio \<Rightarrow> bio" where
  "BIO_set_retry_read bio = bio\<lparr>o_flags := o_flags bio OR (BIO_FLAGS_READ OR BIO_FLAGS_SHOULD_RETRY)\<rparr>"

definition BIO_set_retry_write :: "bio \<Rightarrow> bio" where
  "BIO_set_retry_write bio = bio\<lparr>o_flags := o_flags bio OR (BIO_FLAGS_WRITE OR BIO_FLAGS_SHOULD_RETRY)\<rparr>"

definition BIO_clear_retry_flags :: "bio \<Rightarrow> bio" where
  "BIO_clear_retry_flags bio = bio\<lparr>o_flags := o_flags bio AND NOT kRetryFlags, o_retry_reason := 0\<rparr>"

definition BIO_test_flags :: "bio \<Rightarrow> u32 \<Rightarrow> u32" where
  "BIO_test_flags bio flags = o_flags bio AND flags"

definition BIO_should_read :: "bio \<Rightarrow> bool" where
  "BIO_should_read bio \<longleftrightarrow> BIO_test_flags bio BIO_FLAGS_READ \<noteq> 0"

definition BIO_should_write :: "bio \<Rightarrow> bool" where
  "BIO_should_write bio \<longleftrightarrow> BIO_test_flags bio BIO_FLAGS_WRITE \<noteq> 0"

definition BIO_should_retry :: "bio \<Rightarrow> bool" where
  "BIO_should_retry bio \<longleftrightarrow> BIO_test_flags bio BIO_FLAGS_SHOULD_RETRY \<noteq> 0"

section \<open>Making and freeing a pair\<close>

text \<open>\<open>BIO_new\<close> with the method table of pairs: \<open>m1\<close> and \<open>m2\<close> say whether the two structures can be allocated.\<close>

definition bio_new :: "bool \<Rightarrow> bio_bio option" where
  "bio_new m =
     (if m then Some \<lparr>b_peer = False, b_closed = False, b_len = 0, b_offset = 0, b_size = 17 * 1024, b_buf = None, b_request = 0\<rparr>
      else None)"

definition BIO_new :: "bool \<Rightarrow> bool \<Rightarrow> bio option" where
  "BIO_new m1 m2 =
     (if \<not> m1 then None
      else
        case bio_new m2 of
          None \<Rightarrow> None
        | Some b \<Rightarrow>
            Some \<lparr>o_init = False, o_shutdown = 1, o_flags = 0, o_retry_reason = 0, o_ptr = b, o_num_read = 0, o_num_write = 0\<rparr>)"

text \<open>The write buffer of one end; \<open>al\<close> is the allocator, a function from a size to the block it returns.\<close>

definition make_buf :: "(nat \<Rightarrow> u8 list option) \<Rightarrow> nat \<Rightarrow> bio_bio \<Rightarrow> bool \<times> bio_bio" where
  "make_buf al writebuf_len b =
     (if b_buf b = None then
        let b = (if writebuf_len \<noteq> 0 then b\<lparr>b_size := writebuf_len\<rparr> else b) in
        case al (b_size b) of
          None \<Rightarrow> (False, b)
        | Some buf \<Rightarrow> (True, b\<lparr>b_buf := Some buf, b_len := 0, b_offset := 0\<rparr>)
      else (True, b))"

definition bio_make_pair ::
  "(nat \<Rightarrow> u8 list option) \<Rightarrow> (nat \<Rightarrow> u8 list option) \<Rightarrow> bio_pair \<Rightarrow> nat \<Rightarrow> nat \<Rightarrow> bio_pair \<times> bool \<times> bio_err option" where
  "bio_make_pair al1 al2 p writebuf1_len writebuf2_len =
     (case p of (bio1, bio2) \<Rightarrow>
        if b_peer (o_ptr bio1) \<or> b_peer (o_ptr bio2) then (p, False, Some BIO_R_IN_USE)
        else
          case make_buf al1 writebuf1_len (o_ptr bio1) of
            (False, b1) \<Rightarrow> ((bio1\<lparr>o_ptr := b1\<rparr>, bio2), False, Some ERR_R_MALLOC_FAILURE)
          | (True, b1) \<Rightarrow>
              (case make_buf al2 writebuf2_len (o_ptr bio2) of
                 (False, b2) \<Rightarrow> ((bio1\<lparr>o_ptr := b1\<rparr>, bio2\<lparr>o_ptr := b2\<rparr>), False, Some ERR_R_MALLOC_FAILURE)
               | (True, b2) \<Rightarrow>
                   ((bio1\<lparr>o_ptr := b1\<lparr>b_peer := True, b_closed := False, b_request := 0\<rparr>, o_init := True\<rparr>,
                     bio2\<lparr>o_ptr := b2\<lparr>b_peer := True, b_closed := False, b_request := 0\<rparr>, o_init := True\<rparr>),
                    True, None)))"

definition BIO_new_bio_pair ::
  "bool \<times> bool \<Rightarrow> bool \<times> bool \<Rightarrow> (nat \<Rightarrow> u8 list option) \<Rightarrow> (nat \<Rightarrow> u8 list option) \<Rightarrow> nat \<Rightarrow> nat \<Rightarrow> bio_pair option" where
  "BIO_new_bio_pair m1 m2 al1 al2 writebuf1_len writebuf2_len =
     (case (BIO_new (fst m1) (snd m1), BIO_new (fst m2) (snd m2)) of
        (Some bio1, Some bio2) \<Rightarrow>
          (case bio_make_pair al1 al2 (bio1, bio2) writebuf1_len writebuf2_len of
             (p, True, e) \<Rightarrow> Some p
           | (p, False, e) \<Rightarrow> None)
      | _ \<Rightarrow> None)"

definition bio_destroy_pair :: "bio_pair \<Rightarrow> bio_pair" where
  "bio_destroy_pair p =
     (case p of (bio, peer) \<Rightarrow>
        if \<not> b_peer (o_ptr bio) then p
        else
          (bio\<lparr>o_ptr := (o_ptr bio)\<lparr>b_peer := False, b_len := 0, b_offset := 0\<rparr>, o_init := False\<rparr>,
           peer\<lparr>o_ptr := (o_ptr peer)\<lparr>b_peer := False, b_len := 0, b_offset := 0\<rparr>, o_init := False\<rparr>))"

text \<open>What \<open>bio_free\<close> leaves of the peer; the end itself is gone.\<close>

definition bio_free :: "bio_pair \<Rightarrow> bio" where
  "bio_free p = snd (if b_peer (o_ptr (fst p)) then bio_destroy_pair p else p)"

section \<open>Reading and writing\<close>

text \<open>The loop that reads \<open>rest\<close> bytes from a ring.\<close>

primrec ring_read :: "nat \<Rightarrow> bio_bio \<Rightarrow> nat \<Rightarrow> u8 list \<Rightarrow> (bio_bio \<times> u8 list) option" where
  "ring_read 0 b rest out = None"
| "ring_read (Suc n) b rest out =
     (let chunk = (if (b_offset b + rest) mod size_mod \<le> b_size b then rest else b_size b - b_offset b);
          out = out @ take chunk (drop (b_offset b) (the (b_buf b)));
          b = b\<lparr>b_len := b_len b - chunk\<rparr>;
          b = (if b_len b \<noteq> 0 then
                 (let b = b\<lparr>b_offset := b_offset b + chunk\<rparr>
                  in if b_offset b = b_size b then b\<lparr>b_offset := 0\<rparr> else b)
               else b\<lparr>b_offset := 0\<rparr>)
      in if rest - chunk \<noteq> 0 then ring_read n b (rest - chunk) out else Some (b, out))"

primrec ring_write :: "nat \<Rightarrow> bio_bio \<Rightarrow> u8 list \<Rightarrow> bio_bio option" where
  "ring_write 0 b buf = None"
| "ring_write (Suc n) b buf =
     (let rest = length buf;
          write_offset = (b_offset b + b_len b) mod size_mod;
          write_offset = (if write_offset \<ge> b_size b then write_offset - b_size b else write_offset);
          chunk = (if (write_offset + rest) mod size_mod \<le> b_size b then rest else b_size b - write_offset);
          b = b\<lparr>b_buf := map_option (\<lambda>d. splice d write_offset (take chunk buf)) (b_buf b), b_len := b_len b + chunk\<rparr>
      in if rest - chunk \<noteq> 0 then ring_write n b (drop chunk buf) else Some b)"

text \<open>An \<open>int\<close> converted to \<open>size_t\<close>.\<close>

definition size_of_int :: "int \<Rightarrow> nat" where
  "size_of_int n = nat (n mod 2 ^ 64)"

text \<open>\<open>dst\<close> says whether the buffer is not NULL. The result: the pair, the number returned, and the bytes read.
  The loops run once, or twice when the ring wraps around.\<close>

definition bio_read :: "bio_pair \<Rightarrow> bool \<Rightarrow> int \<Rightarrow> (bio_pair \<times> int \<times> u8 list) option" where
  "bio_read p dst isize =
     (let siz = size_of_int isize; bio = BIO_clear_retry_flags (fst p); peer = snd p in
      if \<not> o_init bio then Some ((bio, peer), 0, [])
      else
        let peer_b = (o_ptr peer)\<lparr>b_request := 0\<rparr> in
        if \<not> dst \<or> siz = 0 then Some ((bio, peer\<lparr>o_ptr := peer_b\<rparr>), 0, [])
        else if b_len peer_b = 0 then
          (if b_closed peer_b then Some ((bio, peer\<lparr>o_ptr := peer_b\<rparr>), 0, [])
           else
             let peer_b = peer_b\<lparr>b_request := (if siz \<le> b_size peer_b then siz else b_size peer_b)\<rparr>
             in Some ((BIO_set_retry_read bio, peer\<lparr>o_ptr := peer_b\<rparr>), -1, []))
        else
          let siz = (if b_len peer_b < siz then b_len peer_b else siz) in
          case ring_read 2 peer_b siz [] of
            None \<Rightarrow> None
          | Some (peer_b, out) \<Rightarrow> Some ((bio, peer\<lparr>o_ptr := peer_b\<rparr>), int siz, out))"

text \<open>The bytes of \<open>buf\<close> are the \<open>num_\<close> bytes that may be read there; it is \<open>None\<close> for NULL.\<close>

definition bio_write :: "bio_pair \<Rightarrow> u8 list option \<Rightarrow> int \<Rightarrow> (bio_pair \<times> int \<times> bio_err option) option" where
  "bio_write p buf inum =
     (let num = size_of_int inum; bio = BIO_clear_retry_flags (fst p); peer = snd p in
      if \<not> o_init bio \<or> buf = None \<or> num = 0 then Some ((bio, peer), 0, None)
      else
        let b = (o_ptr bio)\<lparr>b_request := 0\<rparr>; bio = bio\<lparr>o_ptr := b\<rparr> in
        if b_closed b then Some ((bio, peer), -1, Some BIO_R_BROKEN_PIPE)
        else if b_len b = b_size b then Some ((BIO_set_retry_write bio, peer), -1, None)
        else
          let num = (if num > b_size b - b_len b then b_size b - b_len b else num) in
          case ring_write 2 b (take num (the buf)) of
            None \<Rightarrow> None
          | Some b \<Rightarrow> Some ((bio\<lparr>o_ptr := b\<rparr>, peer), int num, None))"

text \<open>The functions that applications call; both ends are there and have the methods of a pair.\<close>

definition BIO_read :: "bio_pair \<Rightarrow> bool \<Rightarrow> int \<Rightarrow> (bio_pair \<times> int \<times> u8 list \<times> bio_err option) option" where
  "BIO_read p dst len =
     (if \<not> o_init (fst p) then Some (p, -2, [], Some BIO_R_UNINITIALIZED)
      else if len \<le> 0 then Some (p, 0, [], None)
      else
        case bio_read p dst len of
          None \<Rightarrow> None
        | Some ((bio, peer), ret, out) \<Rightarrow>
            Some ((if ret > 0 then bio\<lparr>o_num_read := (o_num_read bio + nat ret) mod size_mod\<rparr> else bio, peer), ret, out, None))"

definition BIO_write :: "bio_pair \<Rightarrow> u8 list option \<Rightarrow> int \<Rightarrow> (bio_pair \<times> int \<times> bio_err option) option" where
  "BIO_write p inp inl =
     (if \<not> o_init (fst p) then Some (p, -2, Some BIO_R_UNINITIALIZED)
      else if inl \<le> 0 then Some (p, 0, None)
      else
        case bio_write p inp inl of
          None \<Rightarrow> None
        | Some ((bio, peer), ret, e) \<Rightarrow>
            Some ((if ret > 0 then bio\<lparr>o_num_write := (o_num_write bio + nat ret) mod size_mod\<rparr> else bio, peer), ret, e))"

section \<open>Control\<close>

datatype bio_cmd = BIO_C_GET_WRITE_BUF_SIZE | BIO_C_GET_WRITE_GUARANTEE | BIO_C_GET_READ_REQUEST | BIO_C_RESET_READ_REQUEST
  | BIO_C_SHUTDOWN_WR | BIO_CTRL_GET_CLOSE | BIO_CTRL_SET_CLOSE | BIO_CTRL_PENDING | BIO_CTRL_WPENDING | BIO_CTRL_FLUSH
  | BIO_CTRL_EOF | BIO_CTRL_OTHER

text \<open>A \<open>size_t\<close> converted to \<open>long\<close>, and an \<open>int\<close> out of a \<open>long\<close>.\<close>

definition to_long :: "nat \<Rightarrow> int" where
  "to_long n = (int n + 2 ^ 63) mod 2 ^ 64 - 2 ^ 63"

definition long_to_int :: "int \<Rightarrow> int" where
  "long_to_int n = (n + 2 ^ 31) mod 2 ^ 32 - 2 ^ 31"

fun bio_ctrl :: "bio_pair \<Rightarrow> bio_cmd \<Rightarrow> int \<Rightarrow> bio option \<Rightarrow> bio_pair \<times> int" where
  "bio_ctrl (bio, peer) BIO_C_GET_WRITE_BUF_SIZE num ptr = ((bio, peer), to_long (b_size (o_ptr bio)))"
| "bio_ctrl (bio, peer) BIO_C_GET_WRITE_GUARANTEE num ptr =
     ((bio, peer),
      if \<not> b_peer (o_ptr bio) \<or> b_closed (o_ptr bio) then 0
      else to_long ((b_size (o_ptr bio) + size_mod - b_len (o_ptr bio)) mod size_mod))"
| "bio_ctrl (bio, peer) BIO_C_GET_READ_REQUEST num ptr = ((bio, peer), to_long (b_request (o_ptr bio)))"
| "bio_ctrl (bio, peer) BIO_C_RESET_READ_REQUEST num ptr = ((bio\<lparr>o_ptr := (o_ptr bio)\<lparr>b_request := 0\<rparr>\<rparr>, peer), 1)"
| "bio_ctrl (bio, peer) BIO_C_SHUTDOWN_WR num ptr = ((bio\<lparr>o_ptr := (o_ptr bio)\<lparr>b_closed := True\<rparr>\<rparr>, peer), 1)"
| "bio_ctrl (bio, peer) BIO_CTRL_GET_CLOSE num ptr = ((bio, peer), o_shutdown bio)"
| "bio_ctrl (bio, peer) BIO_CTRL_SET_CLOSE num ptr = ((bio\<lparr>o_shutdown := long_to_int num\<rparr>, peer), 1)"
| "bio_ctrl (bio, peer) BIO_CTRL_PENDING num ptr =
     ((bio, peer), if b_peer (o_ptr bio) then to_long (b_len (o_ptr peer)) else 0)"
| "bio_ctrl (bio, peer) BIO_CTRL_WPENDING num ptr =
     ((bio, peer), if b_buf (o_ptr bio) \<noteq> None then to_long (b_len (o_ptr bio)) else 0)"
| "bio_ctrl (bio, peer) BIO_CTRL_FLUSH num ptr = ((bio, peer), 1)"
| "bio_ctrl (bio, peer) BIO_CTRL_EOF num ptr =
     ((bio, peer),
      case ptr of
        Some other \<Rightarrow> if b_len (o_ptr other) = 0 \<and> b_closed (o_ptr other) then 1 else 0
      | None \<Rightarrow> 1)"
| "bio_ctrl (bio, peer) BIO_CTRL_OTHER num ptr = ((bio, peer), 0)"

definition BIO_ctrl_get_read_request :: "bio_pair \<Rightarrow> nat" where
  "BIO_ctrl_get_read_request p = size_of_int (snd (bio_ctrl p BIO_C_GET_READ_REQUEST 0 None))"

definition BIO_ctrl_get_write_guarantee :: "bio_pair \<Rightarrow> nat" where
  "BIO_ctrl_get_write_guarantee p = size_of_int (snd (bio_ctrl p BIO_C_GET_WRITE_GUARANTEE 0 None))"

definition BIO_shutdown_wr :: "bio_pair \<Rightarrow> bio_pair \<times> int" where
  "BIO_shutdown_wr p = (case bio_ctrl p BIO_C_SHUTDOWN_WR 0 None of (p, r) \<Rightarrow> (p, long_to_int r))"

definition BIO_pending :: "bio_pair \<Rightarrow> nat" where
  "BIO_pending p = (let r = snd (bio_ctrl p BIO_CTRL_PENDING 0 None) in if r < 0 then 0 else nat r)"

definition BIO_wpending :: "bio_pair \<Rightarrow> nat" where
  "BIO_wpending p = (let r = snd (bio_ctrl p BIO_CTRL_WPENDING 0 None) in if r < 0 then 0 else nat r)"

definition BIO_eof :: "bio_pair \<Rightarrow> int" where
  "BIO_eof p = long_to_int (snd (bio_ctrl p BIO_CTRL_EOF 0 None))"

end
