(* ===== verification/BioSpec.thy ===== *)
theory BioSpec imports Bio begin

text \<open>
  A BIO pair is two bounded queues. \<open>content\<close> is the queue in a ring buffer: reading takes from its
  front, writing appends to it, and the loops take at most two iterations. \<open>fifo_step\<close> is the pair
  as the applications see it, with two lists for the rings; any sequence of calls returns what it
  returns. The history of a direction and the progress of a transfer follow on the lists.
\<close>

section \<open>The ring buffer\<close>

definition ring_at :: "u8 list \<Rightarrow> nat \<Rightarrow> nat \<Rightarrow> u8" where
  "ring_at d off i = d ! (if off + i < length d then off + i else off + i - length d)"

definition content :: "bio_bio \<Rightarrow> u8 list" where
  "content b = map (ring_at (the (b_buf b)) (b_offset b)) [0..<b_len b]"

definition ring_ok :: "bio_bio \<Rightarrow> bool" where
  "ring_ok b \<longleftrightarrow> (\<exists>d. b_buf b = Some d \<and> length d = b_size b) \<and> b_offset b < b_size b \<and> b_len b \<le> b_size b \<and> b_size b < 2 ^ 63"

lemma length_content [simp]: "length (content b) = b_len b"
  by (simp add: content_def)

lemma content_cong: "b_buf b = b_buf b' \<Longrightarrow> b_offset b = b_offset b' \<Longrightarrow> b_len b = b_len b' \<Longrightarrow> content b = content b'"
  by (simp add: content_def)

text \<open>One iteration of the reading loop.\<close>

definition advance :: "nat \<Rightarrow> bio_bio \<Rightarrow> bio_bio" where
  "advance c b = b\<lparr>b_len := b_len b - c, b_offset := (if b_len b - c = 0 \<or> b_offset b + c = b_size b then 0 else b_offset b + c)\<rparr>"

lemma advance_simps [simp]:
  "b_len (advance c b) = b_len b - c" "b_size (advance c b) = b_size b" "b_buf (advance c b) = b_buf b"
  "b_closed (advance c b) = b_closed b" "b_peer (advance c b) = b_peer b" "b_request (advance c b) = b_request b"
  by (simp_all add: advance_def)

lemma advance_ok:
  assumes "ring_ok b" "c \<le> b_len b" "b_offset b + c \<le> b_size b"
  shows "ring_ok (advance c b)" "content b = take c (drop (b_offset b) (the (b_buf b))) @ content (advance c b)"
proof -
  obtain d where d: "b_buf b = Some d" "length d = b_size b" and o: "b_offset b < b_size b" "b_len b \<le> b_size b" "b_size b < 2 ^ 63"
    using assms(1) by (auto simp: ring_ok_def)
  show "ring_ok (advance c b)" using assms d o by (auto simp: ring_ok_def advance_def)
  show "content b = take c (drop (b_offset b) (the (b_buf b))) @ content (advance c b)"
  proof (rule nth_equalityI)
    show "length (content b) = length (take c (drop (b_offset b) (the (b_buf b))) @ content (advance c b))"
      using assms(2,3) d by simp
    fix i assume "i < length (content b)"
    then have i: "i < b_len b" by simp
    show "content b ! i = (take c (drop (b_offset b) (the (b_buf b))) @ content (advance c b)) ! i"
    proof (cases "i < c")
      case True
      then show ?thesis using i assms(3) d by (simp add: content_def nth_append ring_at_def)
    next
      case False
      then have "b_offset b + i - b_size b = i - c" if "b_offset b + c = b_size b" using that by linarith
      then have "content (advance c b) ! (i - c) = content b ! i"
        using False i assms(2,3) d o by (auto simp: content_def ring_at_def advance_def)
      then show ?thesis using False assms(3) d by (simp add: nth_append)
    qed
  qed
qed

lemma ring_read_step:
  assumes "ring_ok b" "0 < rest" "rest \<le> b_len b"
  shows "ring_read (Suc n) b rest out =
    (let c = (if b_offset b + rest \<le> b_size b then rest else b_size b - b_offset b);
         out = out @ take c (drop (b_offset b) (the (b_buf b)))
     in if rest - c \<noteq> 0 then ring_read n (advance c b) (rest - c) out else Some (advance c b, out))"
proof -
  have "(b_offset b + rest) mod size_mod = b_offset b + rest" using assms by (intro mod_less) (simp add: ring_ok_def)
  moreover have "(let b1 = b\<lparr>b_len := b_len b - c\<rparr> in if b_len b1 \<noteq> 0 then
      let b2 = b1\<lparr>b_offset := b_offset b1 + c\<rparr> in if b_offset b2 = b_size b2 then b2\<lparr>b_offset := 0\<rparr> else b2
    else b1\<lparr>b_offset := 0\<rparr>) = advance c b" for c
    by (simp add: advance_def Let_def)
  ultimately show ?thesis by (simp add: Let_def)
qed

lemma ring_read_content:
  assumes "ring_ok b" "0 < n" "n \<le> b_len b"
  shows "\<exists>b'. ring_read 2 b n out = Some (b', out @ take n (content b)) \<and> ring_ok b' \<and> content b' = drop n (content b) \<and>
    b_len b' = b_len b - n \<and> b_size b' = b_size b \<and> b_closed b' = b_closed b \<and> b_peer b' = b_peer b \<and> b_request b' = b_request b"
proof (cases "b_offset b + n \<le> b_size b")
  case True
  have buf: "length (the (b_buf b)) = b_size b" using assms(1) by (auto simp: ring_ok_def)
  note a = advance_ok [OF assms(1,3) True]
  have "length (take n (drop (b_offset b) (the (b_buf b)))) = n" using True buf by simp
  then have t: "take n (content b) = take n (drop (b_offset b) (the (b_buf b)))" "drop n (content b) = content (advance n b)"
    using a(2) by (metis append_eq_conv_conj)+
  have "ring_read 2 b n out = Some (advance n b, out @ take n (content b))"
    unfolding numeral_2_eq_2 ring_read_step [OF assms] t(1) using True by (simp add: Let_def)
  then show ?thesis using a(1) t(2) by (intro exI [of _ "advance n b"]) simp
next
  case False
  define c where "c = b_size b - b_offset b"
  have buf: "length (the (b_buf b)) = b_size b" and off: "b_offset b < b_size b" and len: "b_len b \<le> b_size b"
    using assms(1) by (auto simp: ring_ok_def)
  have c: "c \<le> b_len b" "b_offset b + c \<le> b_size b" "c < n" "c \<le> b_size b" using False off assms(3) by (simp_all add: c_def)
  note a = advance_ok [OF assms(1) c(1,2)]
  have m: "0 < n - c" "n - c \<le> b_len (advance c b)" using c assms(3) by simp_all
  have off0: "b_offset (advance c b) = 0" using off by (simp add: advance_def c_def)
  have fits: "b_offset (advance c b) + (n - c) \<le> b_size (advance c b)" using off0 assms(3) len by simp
  note a2 = advance_ok [OF a(1) m(2) fits]
  let ?b = "advance (n - c) (advance c b)"
  let ?x = "take c (drop (b_offset b) (the (b_buf b)))" and ?y = "take (n - c) (drop (b_offset (advance c b)) (the (b_buf (advance c b))))"
  have l: "length ?x = c" "length ?y = n - c" using buf off0 fits c by simp_all
  have e: "content b = (?x @ ?y) @ content ?b" using a(2) a2(2) by simp
  have "length (?x @ ?y) = n" using l c(3) by simp
  then have t: "take n (content b) = ?x @ ?y" "drop n (content b) = content ?b"
    using e by (metis append_eq_conv_conj)+
  have "ring_read 2 b n out = ring_read (Suc 0) (advance c b) (n - c) (out @ ?x)"
    unfolding numeral_2_eq_2 ring_read_step [OF assms] using False m(1) by (simp add: Let_def flip: c_def)
  also have "\<dots> = Some (?b, (out @ ?x) @ ?y)"
    unfolding ring_read_step [OF a(1) m] using fits by (simp add: Let_def)
  finally show ?thesis using a2(1) t c(3) by (intro exI [of _ ?b]) simp
qed


text \<open>One iteration of the writing loop.\<close>

definition put_at :: "nat \<Rightarrow> u8 list \<Rightarrow> bio_bio \<Rightarrow> bio_bio" where
  "put_at w bs b = b\<lparr>b_buf := map_option (\<lambda>d. splice d w bs) (b_buf b), b_len := b_len b + length bs\<rparr>"

definition write_at :: "bio_bio \<Rightarrow> nat" where
  "write_at b = (if b_offset b + b_len b < b_size b then b_offset b + b_len b else b_offset b + b_len b - b_size b)"

lemma put_at_simps [simp]:
  "b_len (put_at w bs b) = b_len b + length bs" "b_size (put_at w bs b) = b_size b" "b_offset (put_at w bs b) = b_offset b"
  "b_closed (put_at w bs b) = b_closed b" "b_peer (put_at w bs b) = b_peer b" "b_request (put_at w bs b) = b_request b"
  by (simp_all add: put_at_def)

lemma nth_splice:
  assumes "w + length bs \<le> length d" "k < length d"
  shows "splice d w bs ! k = (if w \<le> k \<and> k < w + length bs then bs ! (k - w) else d ! k)"
  using assms by (auto simp: splice_def nth_append)

lemma put_at_ok:
  assumes "ring_ok b" "b_len b + length bs \<le> b_size b" "write_at b + length bs \<le> b_size b"
  shows "ring_ok (put_at (write_at b) bs b)" "content (put_at (write_at b) bs b) = content b @ bs"
proof -
  obtain d where d: "b_buf b = Some d" "length d = b_size b" and o: "b_offset b < b_size b" "b_len b \<le> b_size b" "b_size b < 2 ^ 63"
    using assms(1) by (auto simp: ring_ok_def)
  let ?d = "splice d (write_at b) bs"
  have l: "length ?d = b_size b" using assms(3) d(2) by (simp add: length_splice)
  show "ring_ok (put_at (write_at b) bs b)" using assms(2) d(1) l o by (auto simp: ring_ok_def put_at_def)
  show "content (put_at (write_at b) bs b) = content b @ bs"
  proof (rule nth_equalityI)
    fix i assume "i < length (content (put_at (write_at b) bs b))"
    then have i: "i < b_len b + length bs" by simp
    define k where "k = (if b_offset b + i < b_size b then b_offset b + i else b_offset b + i - b_size b)"
    have k: "k < length d" using i o assms(2) d(2) by (auto simp: k_def)
    have "write_at b \<le> k \<and> k < write_at b + length bs \<longleftrightarrow> b_len b \<le> i"
      using i o assms(2,3) by (auto simp: k_def write_at_def)
    moreover have "b_len b \<le> i \<Longrightarrow> k - write_at b = i - b_len b"
      using i o assms(2,3) by (auto simp: k_def write_at_def)
    ultimately have "?d ! k = (if b_len b \<le> i then bs ! (i - b_len b) else d ! k)"
      using nth_splice [of "write_at b" bs d k] assms(3) d(2) k by simp
    moreover have "content (put_at (write_at b) bs b) ! i = ?d ! k"
      using i d l by (simp add: content_def ring_at_def put_at_def k_def)
    moreover have "i < b_len b \<Longrightarrow> content b ! i = d ! k" using d by (simp add: content_def ring_at_def k_def)
    ultimately show "content (put_at (write_at b) bs b) ! i = (content b @ bs) ! i" using i by (simp add: nth_append)
  qed simp
qed

lemma ring_write_step:
  assumes "ring_ok b" "length bs \<le> b_size b"
  shows "ring_write (Suc n) b bs =
    (let c = (if write_at b + length bs \<le> b_size b then length bs else b_size b - write_at b)
     in if length bs - c \<noteq> 0 then ring_write n (put_at (write_at b) (take c bs) b) (drop c bs)
        else Some (put_at (write_at b) (take c bs) b))"
proof -
  have "b_offset b + b_len b < size_mod" using assms(1) by (auto simp: ring_ok_def)
  then have w: "(if (b_offset b + b_len b) mod size_mod \<ge> b_size b then (b_offset b + b_len b) mod size_mod - b_size b
      else (b_offset b + b_len b) mod size_mod) = write_at b"
    by (simp only: mod_less write_at_def not_less) simp
  have "write_at b < b_size b" using assms(1) by (auto simp: ring_ok_def write_at_def)
  then have "write_at b + length bs < size_mod" using assms by (simp add: ring_ok_def)
  then have m: "(write_at b + length bs) mod size_mod = write_at b + length bs" by (rule mod_less)
  have p: "b\<lparr>b_buf := map_option (\<lambda>d. splice d w (take c bs)) (b_buf b), b_len := b_len b + c\<rparr> = put_at w (take c bs) b"
    if "c \<le> length bs" for w c using that by (simp add: put_at_def min_def)
  have c: "(if write_at b + length bs \<le> b_size b then length bs else b_size b - write_at b) \<le> length bs" by auto
  show ?thesis unfolding ring_write.simps Let_def w m p [OF c] ..
qed

lemma ring_write_content:
  assumes "ring_ok b" "0 < length bs" "b_len b + length bs \<le> b_size b"
  shows "\<exists>b'. ring_write 2 b bs = Some b' \<and> ring_ok b' \<and> content b' = content b @ bs \<and>
    b_len b' = b_len b + length bs \<and> b_size b' = b_size b \<and> b_closed b' = b_closed b \<and> b_peer b' = b_peer b \<and> b_request b' = b_request b"
proof (cases "write_at b + length bs \<le> b_size b")
  case True
  have "ring_write 2 b bs = Some (put_at (write_at b) bs b)"
    unfolding numeral_2_eq_2 ring_write_step [OF assms(1) le_trans [OF le_add2 assms(3)]] using True by (simp add: Let_def)
  then show ?thesis using put_at_ok [OF assms(1,3) True] by (intro exI [of _ "put_at (write_at b) bs b"]) simp
next
  case False
  define c where "c = b_size b - write_at b"
  have w: "write_at b < b_size b" using assms(1) by (auto simp: ring_ok_def write_at_def)
  have c: "c < length bs" "length (take c bs) = c" "write_at b + c = b_size b" using False w by (simp_all add: c_def)
  let ?b = "put_at (write_at b) (take c bs) b"
  have a: "ring_ok ?b" "content ?b = content b @ take c bs" using put_at_ok [OF assms(1), of "take c bs"] c assms(3) by simp_all
  have l: "length (drop c bs) \<le> b_size ?b" using assms(3) by simp
  have w2: "write_at ?b = b_offset b + b_len b + c - b_size b" using c assms(1,3) by (auto simp: write_at_def ring_ok_def)
  have fits: "write_at ?b + length (drop c bs) \<le> b_size ?b" using w2 c assms(1,3) by (auto simp: ring_ok_def)
  note a2 = put_at_ok [OF a(1) _ fits]
  let ?b2 = "put_at (write_at ?b) (drop c bs) ?b"
  have "ring_write 2 b bs = ring_write (Suc 0) ?b (drop c bs)"
    unfolding numeral_2_eq_2 ring_write_step [OF assms(1) le_trans [OF le_add2 assms(3)]] using False c(1) by (simp add: Let_def flip: c_def)
  also have "\<dots> = Some ?b2" unfolding ring_write_step [OF a(1) l] using fits by (simp add: Let_def)
  finally show ?thesis using a2 a(2) c assms(3) by (intro exI [of _ ?b2]) simp
qed


section \<open>The pair as two queues\<close>

text \<open>A connected pair: both ends have a peer.\<close>

definition end_ok :: "bio \<Rightarrow> bool" where
  "end_ok bio \<longleftrightarrow> o_init bio \<and> b_peer (o_ptr bio) \<and> ring_ok (o_ptr bio)"

record pipe =
  q_data :: "u8 list"
  q_cap :: nat
  q_closed :: bool

definition pipe_of :: "bio \<Rightarrow> pipe" where
  "pipe_of bio = \<lparr>q_data = content (o_ptr bio), q_cap = b_size (o_ptr bio), q_closed = b_closed (o_ptr bio)\<rparr>"

text \<open>What the calls do to the queue: the queue, and the number returned with the bytes read or the error.\<close>

definition pipe_write :: "pipe \<Rightarrow> u8 list \<Rightarrow> pipe \<times> int \<times> bio_err option" where
  "pipe_write q bs =
     (if bs = [] then (q, 0, None)
      else if q_closed q then (q, -1, Some BIO_R_BROKEN_PIPE)
      else if length (q_data q) = q_cap q then (q, -1, None)
      else let n = min (length bs) (q_cap q - length (q_data q)) in (q\<lparr>q_data := q_data q @ take n bs\<rparr>, int n, None))"

definition pipe_read :: "pipe \<Rightarrow> nat \<Rightarrow> pipe \<times> int \<times> u8 list" where
  "pipe_read q n =
     (if n = 0 then (q, 0, [])
      else if q_data q = [] then (q, if q_closed q then 0 else -1, [])
      else let k = min n (length (q_data q)) in (q\<lparr>q_data := drop k (q_data q)\<rparr>, int k, take k (q_data q)))"

lemma clear_simps [simp]:
  "o_init (BIO_clear_retry_flags bio) = o_init bio" "o_ptr (BIO_clear_retry_flags bio) = o_ptr bio"
  "o_init (BIO_set_retry_read bio) = o_init bio" "o_ptr (BIO_set_retry_read bio) = o_ptr bio"
  "o_init (BIO_set_retry_write bio) = o_init bio" "o_ptr (BIO_set_retry_write bio) = o_ptr bio"
  by (simp_all add: BIO_clear_retry_flags_def BIO_set_retry_read_def BIO_set_retry_write_def)

lemma retry_simps [simp]:
  "\<not> BIO_should_retry (BIO_clear_retry_flags bio)" "BIO_should_retry (BIO_set_retry_read bio)" "BIO_should_retry (BIO_set_retry_write bio)"
  "BIO_should_retry (bio\<lparr>o_ptr := b\<rparr>) = BIO_should_retry bio" "BIO_should_retry (bio\<lparr>o_num_read := n\<rparr>) = BIO_should_retry bio"
  "BIO_should_retry (bio\<lparr>o_num_write := n\<rparr>) = BIO_should_retry bio"
proof -
  show "\<not> BIO_should_retry (BIO_clear_retry_flags bio)"
    by (simp add: BIO_should_retry_def BIO_test_flags_def BIO_clear_retry_flags_def kRetryFlags_def BIO_FLAGS_READ_def
        BIO_FLAGS_WRITE_def BIO_FLAGS_IO_SPECIAL_def BIO_FLAGS_SHOULD_RETRY_def and.assoc)
  have "bit ((x OR 9) AND 8) 3" "bit ((x OR 10) AND 8) 3" for x :: u32 by (simp_all add: bit_simps)
  then have "(x OR 9) AND 8 \<noteq> 0" "(x OR 10) AND 8 \<noteq> 0" for x :: u32 by (metis bit_0_eq bot_apply bot_bool_def)+
  then show "BIO_should_retry (BIO_set_retry_read bio)" "BIO_should_retry (BIO_set_retry_write bio)"
    by (simp_all add: BIO_should_retry_def BIO_test_flags_def BIO_set_retry_read_def BIO_set_retry_write_def
        BIO_FLAGS_READ_def BIO_FLAGS_WRITE_def BIO_FLAGS_SHOULD_RETRY_def)
qed (simp_all add: BIO_should_retry_def BIO_test_flags_def)

lemma size_of_int_nat: "n < 2 ^ 31 \<Longrightarrow> size_of_int (int n) = n"
  by (simp add: size_of_int_def)

lemma content_request [simp]: "content (b\<lparr>b_request := r\<rparr>) = content b"
  by (simp add: content_def)

lemma ring_ok_request [simp]: "ring_ok (b\<lparr>b_request := r\<rparr>) = ring_ok b"
  by (simp add: ring_ok_def)

lemma ring_ok_closed [simp]: "ring_ok (b\<lparr>b_closed := c\<rparr>) = ring_ok b" "content (b\<lparr>b_closed := c\<rparr>) = content b"
  by (simp_all add: ring_ok_def content_def)

lemma BIO_write_pipe:
  assumes "end_ok bio" "length bs < 2 ^ 31"
  shows "\<exists>bio'. BIO_write (bio, peer) (Some bs) (int (length bs)) = Some ((bio', peer), snd (pipe_write (pipe_of bio) bs)) \<and>
    end_ok bio' \<and> pipe_of bio' = fst (pipe_write (pipe_of bio) bs) \<and>
    (bs \<noteq> [] \<longrightarrow> BIO_should_retry bio' = (snd (pipe_write (pipe_of bio) bs) = (-1, None)))"
proof -
  let ?b = "(o_ptr bio)\<lparr>b_request := 0\<rparr>"
  have ok: "o_init bio" "b_peer (o_ptr bio)" "ring_ok (o_ptr bio)" "b_len (o_ptr bio) \<le> b_size (o_ptr bio)"
    using assms(1) by (auto simp: end_ok_def ring_ok_def)
  show ?thesis
  proof (cases "bs = [] \<or> b_closed (o_ptr bio) \<or> b_len (o_ptr bio) = b_size (o_ptr bio)")
    case True
    then show ?thesis using ok assms(2)
      by (auto simp: BIO_write_def bio_write_def Let_def size_of_int_nat pipe_write_def pipe_of_def end_ok_def)
  next
    case False
    define n where "n = min (length bs) (b_size (o_ptr bio) - b_len (o_ptr bio))"
    have n: "0 < n" "n \<le> length bs" "b_len (o_ptr bio) + n \<le> b_size (o_ptr bio)" using False ok(4) by (auto simp: n_def)
    have "(if length bs > b_size ?b - b_len ?b then b_size ?b - b_len ?b else length bs) = n" by (simp add: n_def)
    moreover obtain b' where b': "ring_write 2 ?b (take n bs) = Some b'" "ring_ok b'" "content b' = content ?b @ take n bs"
      "b_len b' = b_len ?b + n" "b_size b' = b_size ?b" "b_closed b' = b_closed ?b" "b_peer b'"
      using ring_write_content [of ?b "take n bs"] ok n by auto
    ultimately show ?thesis using ok assms(2) False n(1)
      by (auto simp: BIO_write_def bio_write_def Let_def size_of_int_nat pipe_write_def pipe_of_def end_ok_def n_def)
  qed
qed

lemma BIO_read_pipe:
  assumes "end_ok bio" "end_ok peer" "n < 2 ^ 31"
  shows "\<exists>bio' peer'. BIO_read (bio, peer) True (int n) =
      Some ((bio', peer'), fst (snd (pipe_read (pipe_of peer) n)), snd (snd (pipe_read (pipe_of peer) n)), None) \<and>
    end_ok bio' \<and> pipe_of bio' = pipe_of bio \<and> end_ok peer' \<and> pipe_of peer' = fst (pipe_read (pipe_of peer) n) \<and>
    (n \<noteq> 0 \<longrightarrow> BIO_should_retry bio' = (fst (snd (pipe_read (pipe_of peer) n)) = -1))"
proof -
  let ?b = "(o_ptr peer)\<lparr>b_request := 0\<rparr>"
  have ok: "o_init bio" "b_peer (o_ptr bio)" "ring_ok (o_ptr bio)" "o_init peer" "b_peer (o_ptr peer)" "ring_ok (o_ptr peer)"
    using assms(1,2) by (auto simp: end_ok_def)
  show ?thesis
  proof (cases "n = 0 \<or> b_len (o_ptr peer) = 0")
    case True
    then show ?thesis using ok assms(3) length_content [of "o_ptr peer"]
      by (auto simp: BIO_read_def bio_read_def Let_def size_of_int_nat pipe_read_def pipe_of_def end_ok_def simp del: length_content)
  next
    case False
    define k where "k = min n (b_len (o_ptr peer))"
    have k: "0 < k" "k \<le> b_len ?b" using False by (simp_all add: k_def)
    have ne: "content (o_ptr peer) \<noteq> []" using False length_content [of "o_ptr peer"] by (auto simp del: length_content)
    have "(if b_len ?b < n then b_len ?b else n) = k" by (simp add: k_def)
    moreover obtain b' where b': "ring_read 2 ?b k [] = Some (b', take k (content ?b))" "ring_ok b'" "content b' = drop k (content ?b)"
      "b_size b' = b_size ?b" "b_closed b' = b_closed ?b" "b_peer b'"
      using ring_read_content [of ?b k "[]"] ok(5,6) k by auto
    ultimately show ?thesis using ok assms(3) False k(1) ne
      by (auto simp: BIO_read_def bio_read_def Let_def size_of_int_nat pipe_read_def pipe_of_def end_ok_def k_def)
  qed
qed


section \<open>Runs of calls\<close>

text \<open>The flag says on which end the call is made: \<open>False\<close> is the first one.\<close>

datatype bio_op = OWrite bool "u8 list" | ORead bool nat | OShutdown bool | OPending bool | OGuarantee bool

datatype bio_ret = RWrite int "bio_err option" | RRead int "u8 list" | RSize nat | RDone

definition turn :: "bool \<Rightarrow> 'a \<times> 'a \<Rightarrow> 'a \<times> 'a" where
  "turn e p = (if e then (snd p, fst p) else p)"

fun bio_run :: "bio_op \<Rightarrow> bio_pair \<Rightarrow> (bio_pair \<times> bio_ret) option" where
  "bio_run (OWrite e bs) p =
     map_option (\<lambda>(p, r, err). (turn e p, RWrite r err)) (BIO_write (turn e p) (Some bs) (int (length bs)))"
| "bio_run (ORead e n) p =
     map_option (\<lambda>(p, r, bs, err). (turn e p, RRead r bs)) (BIO_read (turn e p) True (int n))"
| "bio_run (OShutdown e) p = Some (turn e (fst (BIO_shutdown_wr (turn e p))), RDone)"
| "bio_run (OPending e) p = Some (p, RSize (BIO_pending (turn e p)))"
| "bio_run (OGuarantee e) p = Some (p, RSize (BIO_ctrl_get_write_guarantee (turn e p)))"

fun bio_runs :: "bio_op list \<Rightarrow> bio_pair \<Rightarrow> (bio_pair \<times> bio_ret list) option" where
  "bio_runs [] p = Some (p, [])"
| "bio_runs (c # cs) p =
     (case bio_run c p of
        None \<Rightarrow> None
      | Some (p, r) \<Rightarrow> map_option (\<lambda>(p, rs). (p, r # rs)) (bio_runs cs p))"

fun op_ok :: "bio_op \<Rightarrow> bool" where
  "op_ok (OWrite e bs) \<longleftrightarrow> length bs < 2 ^ 31"
| "op_ok (ORead e n) \<longleftrightarrow> n < 2 ^ 31"
| "op_ok c \<longleftrightarrow> True"

text \<open>The same calls on two queues; the first one is what the first end writes.\<close>

fun fifo_run :: "bio_op \<Rightarrow> pipe \<times> pipe \<Rightarrow> (pipe \<times> pipe) \<times> bio_ret" where
  "fifo_run (OWrite e bs) qs =
     (case pipe_write (fst (turn e qs)) bs of (q, r, err) \<Rightarrow> (turn e (q, snd (turn e qs)), RWrite r err))"
| "fifo_run (ORead e n) qs =
     (case pipe_read (snd (turn e qs)) n of (q, r, bs) \<Rightarrow> (turn e (fst (turn e qs), q), RRead r bs))"
| "fifo_run (OShutdown e) qs = (turn e ((fst (turn e qs))\<lparr>q_closed := True\<rparr>, snd (turn e qs)), RDone)"
| "fifo_run (OPending e) qs = (qs, RSize (length (q_data (snd (turn e qs)))))"
| "fifo_run (OGuarantee e) qs =
     (qs, RSize (if q_closed (fst (turn e qs)) then 0 else q_cap (fst (turn e qs)) - length (q_data (fst (turn e qs)))))"

fun fifo_runs :: "bio_op list \<Rightarrow> pipe \<times> pipe \<Rightarrow> (pipe \<times> pipe) \<times> bio_ret list" where
  "fifo_runs [] qs = (qs, [])"
| "fifo_runs (c # cs) qs = (case fifo_run c qs of (qs, r) \<Rightarrow> map_prod id (Cons r) (fifo_runs cs qs))"

definition pair_ok :: "bio_pair \<Rightarrow> bool" where
  "pair_ok p \<longleftrightarrow> end_ok (fst p) \<and> end_ok (snd p)"

definition pipes_of :: "bio_pair \<Rightarrow> pipe \<times> pipe" where
  "pipes_of p = (pipe_of (fst p), pipe_of (snd p))"

lemma pipes_of_pair [simp]: "pipes_of (bio, peer) = (pipe_of bio, pipe_of peer)"
  by (simp add: pipes_of_def)

lemma turn_simps [simp]: "turn e (turn e p) = p" "pair_ok (turn e p) = pair_ok p" "pipes_of (turn e p) = turn e (pipes_of p)"
  by (auto simp: turn_def pair_ok_def pipes_of_def)

lemma to_long_small: "n < 2 ^ 63 \<Longrightarrow> to_long n = int n"
  by (simp add: to_long_def)

lemma end_ok_size: "end_ok bio \<Longrightarrow> b_len (o_ptr bio) \<le> b_size (o_ptr bio) \<and> b_size (o_ptr bio) < 2 ^ 63"
  by (simp add: end_ok_def ring_ok_def)

lemma pending_pipe: "pair_ok p \<Longrightarrow> BIO_pending p = length (q_data (snd (pipes_of p)))"
  using end_ok_size [of "snd p"]
  by (cases p) (simp add: BIO_pending_def pair_ok_def pipes_of_def pipe_of_def end_ok_def to_long_small Let_def)

lemma guarantee_pipe:
  assumes "pair_ok p"
  shows "BIO_ctrl_get_write_guarantee p =
    (if q_closed (fst (pipes_of p)) then 0 else q_cap (fst (pipes_of p)) - length (q_data (fst (pipes_of p))))"
proof -
  obtain bio peer where p: "p = (bio, peer)" by (cases p)
  have s: "b_len (o_ptr bio) \<le> b_size (o_ptr bio)" "b_size (o_ptr bio) < 2 ^ 63" and pe: "b_peer (o_ptr bio)"
    using assms end_ok_size [of bio] by (simp_all add: p pair_ok_def end_ok_def)
  then have "(b_size (o_ptr bio) + size_mod - b_len (o_ptr bio)) mod size_mod = b_size (o_ptr bio) - b_len (o_ptr bio)"
    by (simp add: mod_if)
  moreover have "size_of_int (int k) = k" if "k < 2 ^ 63" for k using that by (simp add: size_of_int_def)
  ultimately show ?thesis using s pe
    by (simp add: BIO_ctrl_get_write_guarantee_def p pipes_of_def pipe_of_def to_long_small size_of_int_def nat_diff_distrib)
qed

lemma bio_run_fifo:
  assumes "pair_ok p" "op_ok c"
  shows "\<exists>p'. bio_run c p = Some (p', snd (fifo_run c (pipes_of p))) \<and> pair_ok p' \<and> pipes_of p' = fst (fifo_run c (pipes_of p))"
proof (cases c)
  case (OWrite e bs)
  obtain bio peer where p: "turn e p = (bio, peer)" by fastforce
  then have ok: "pair_ok (bio, peer)" and q: "turn e (pipes_of p) = pipes_of (bio, peer)"
    using assms(1) turn_simps(2,3) [of e p] by simp_all
  from BIO_write_pipe [of bio bs peer] ok assms(2) OWrite obtain bio' where
    w: "BIO_write (bio, peer) (Some bs) (int (length bs)) = Some ((bio', peer), snd (pipe_write (pipe_of bio) bs))"
      "end_ok bio'" "pipe_of bio' = fst (pipe_write (pipe_of bio) bs)" by (auto simp: pair_ok_def)
  have "pair_ok (bio', peer)" using ok w(2) by (simp add: pair_ok_def)
  then show ?thesis using OWrite w p q
    by (intro exI [of _ "turn e (bio', peer)"]) (simp split: prod.splits)
next
  case (ORead e n)
  obtain bio peer where p: "turn e p = (bio, peer)" by fastforce
  then have ok: "pair_ok (bio, peer)" and q: "turn e (pipes_of p) = pipes_of (bio, peer)"
    using assms(1) turn_simps(2,3) [of e p] by simp_all
  from BIO_read_pipe [of bio peer n] ok assms(2) ORead obtain bio' peer' where
    w: "BIO_read (bio, peer) True (int n) = Some ((bio', peer'), fst (snd (pipe_read (pipe_of peer) n)), snd (snd (pipe_read (pipe_of peer) n)), None)"
      "end_ok bio'" "pipe_of bio' = pipe_of bio" "end_ok peer'" "pipe_of peer' = fst (pipe_read (pipe_of peer) n)" by (auto simp: pair_ok_def)
  have "pair_ok (bio', peer')" using w by (simp add: pair_ok_def)
  then show ?thesis using ORead w p q
    by (intro exI [of _ "turn e (bio', peer')"]) (simp split: prod.splits)
next
  case (OShutdown e)
  obtain bio peer where p: "turn e p = (bio, peer)" by fastforce
  then have ok: "pair_ok (bio, peer)" and q: "turn e (pipes_of p) = pipes_of (bio, peer)"
    using assms(1) turn_simps(2,3) [of e p] by simp_all
  let ?bio = "bio\<lparr>o_ptr := (o_ptr bio)\<lparr>b_closed := True\<rparr>\<rparr>"
  have "pair_ok (?bio, peer)" using ok by (simp add: pair_ok_def end_ok_def)
  then show ?thesis using OShutdown p q
    by (intro exI [of _ "turn e (?bio, peer)"]) (simp add: BIO_shutdown_wr_def pipe_of_def)
next
  case (OPending e)
  then show ?thesis using assms(1) pending_pipe [of "turn e p"] by simp
next
  case (OGuarantee e)
  then show ?thesis using assms(1) guarantee_pipe [of "turn e p"] by simp
qed

lemma bio_runs_fifo:
  assumes "pair_ok p" "list_all op_ok cs"
  shows "\<exists>p'. bio_runs cs p = Some (p', snd (fifo_runs cs (pipes_of p))) \<and> pair_ok p' \<and> pipes_of p' = fst (fifo_runs cs (pipes_of p))"
  using assms
proof (induction cs arbitrary: p)
  case (Cons c cs)
  from bio_run_fifo [of p c] Cons.prems obtain p1 where 1: "bio_run c p = Some (p1, snd (fifo_run c (pipes_of p)))" "pair_ok p1"
    "pipes_of p1 = fst (fifo_run c (pipes_of p))" by auto
  from Cons.IH [OF 1(2)] Cons.prems(2) obtain p2 where "bio_runs cs p1 = Some (p2, snd (fifo_runs cs (pipes_of p1)))" "pair_ok p2"
    "pipes_of p2 = fst (fifo_runs cs (pipes_of p1))" by auto
  then show ?case using 1 by (auto split: prod.splits)
qed simp

text \<open>A new pair: two empty open queues of the sizes asked for, 17 KiB when the size is 0.\<close>

definition blocks_of :: "(nat \<Rightarrow> u8 list option) \<Rightarrow> bool" where
  "blocks_of al \<longleftrightarrow> (\<forall>n d. al n = Some d \<longrightarrow> length d = n)"

definition new_pipe :: "nat \<Rightarrow> pipe" where
  "new_pipe n = \<lparr>q_data = [], q_cap = (if n = 0 then 17 * 1024 else n), q_closed = False\<rparr>"

lemma new_pair:
  assumes "BIO_new_bio_pair m1 m2 al1 al2 n1 n2 = Some p" "blocks_of al1" "blocks_of al2" "n1 < 2 ^ 63" "n2 < 2 ^ 63"
  shows "pair_ok p \<and> pipes_of p = (new_pipe n1, new_pipe n2)"
  using assms
  by (auto simp: BIO_new_bio_pair_def bio_make_pair_def BIO_new_def bio_new_def make_buf_def Let_def blocks_of_def pair_ok_def end_ok_def
      ring_ok_def pipe_of_def new_pipe_def content_def split: if_splits option.splits prod.splits bool.splits)

section \<open>The history of a direction\<close>

text \<open>What has been accepted from an end, and what the other end has got, in a run with its results.\<close>

fun accepted :: "bool \<Rightarrow> bio_op list \<Rightarrow> bio_ret list \<Rightarrow> u8 list" where
  "accepted e (OWrite e' bs # cs) (RWrite r err # rs) = (if e' = e then take (nat r) bs else []) @ accepted e cs rs"
| "accepted e (_ # cs) (_ # rs) = accepted e cs rs"
| "accepted e _ _ = []"

fun delivered :: "bool \<Rightarrow> bio_op list \<Rightarrow> bio_ret list \<Rightarrow> u8 list" where
  "delivered e (ORead e' n # cs) (RRead r bs # rs) = (if e' = e then [] else bs) @ delivered e cs rs"
| "delivered e (_ # cs) (_ # rs) = delivered e cs rs"
| "delivered e _ _ = []"

lemma fifo_history:
  assumes "fifo_runs cs qs = (qs', rs)"
  shows "q_data (fst (turn e qs)) @ accepted e cs rs = delivered e cs rs @ q_data (fst (turn e qs'))"
  using assms
proof (induction cs arbitrary: qs rs)
  case (Cons c cs)
  obtain qs1 r where 1: "fifo_run c qs = (qs1, r)" by fastforce
  then obtain rs' where 2: "fifo_runs cs qs1 = (qs', rs')" "rs = r # rs'" using Cons.prems by (cases "fifo_runs cs qs1") auto
  have ih: "q_data (fst (turn e qs1)) @ accepted e cs rs' = delivered e cs rs' @ q_data (fst (turn e qs'))" by (rule Cons.IH [OF 2(1)])
  have "q_data (fst (turn e qs)) @ accepted e [c] [r] = delivered e [c] [r] @ q_data (fst (turn e qs1))"
  proof (cases c)
    case (OWrite e' bs)
    then show ?thesis using 1 by (cases e; cases e'; cases qs) (auto simp: turn_def pipe_write_def Let_def split: if_splits)
  next
    case (ORead e' n)
    then show ?thesis using 1 by (cases e; cases e'; cases qs) (auto simp: turn_def pipe_read_def Let_def split: if_splits)
  qed (use 1 in \<open>cases e; cases qs; auto simp: turn_def\<close>)+
  moreover have "accepted e (c # cs) (r # rs') = accepted e [c] [r] @ accepted e cs rs'"
    "delivered e (c # cs) (r # rs') = delivered e [c] [r] @ delivered e cs rs'" by (cases c; cases r; simp)+
  ultimately show ?case using ih 2(2) by (metis append.assoc)
qed simp

section \<open>Progress\<close>

text \<open>A channel: a bounded queue whose ends accept and deliver at least one byte when they can.\<close>

locale channel =
  fixes inv :: "'s \<Rightarrow> bool" and queue :: "'s \<Rightarrow> 'a list" and cap :: "'s \<Rightarrow> nat"
    and put :: "'s \<Rightarrow> 'a list \<Rightarrow> 's \<times> nat" and get :: "'s \<Rightarrow> 's \<times> 'a list"
  assumes put: "inv s \<Longrightarrow> put s xs = (s', n) \<Longrightarrow>
      inv s' \<and> cap s' = cap s \<and> queue s' = queue s @ take n xs \<and> n \<le> length xs \<and> (xs \<noteq> [] \<and> length (queue s) < cap s \<longrightarrow> 0 < n)"
    and get: "inv s \<Longrightarrow> get s = (s', ys) \<Longrightarrow> inv s' \<and> cap s' = cap s \<and> queue s = ys @ queue s' \<and> (queue s \<noteq> [] \<longrightarrow> ys \<noteq> [])"
    and cap: "inv s \<Longrightarrow> 0 < cap s"

text \<open>One side writes what is left of \<open>xs\<close>, the other side reads, for a number of rounds; the result is what has
  been read.\<close>

fun pump :: "('s \<Rightarrow> 'a list \<Rightarrow> 's \<times> nat) \<Rightarrow> ('s \<Rightarrow> 's \<times> 'a list) \<Rightarrow> nat \<Rightarrow> 's \<Rightarrow> 'a list \<Rightarrow> 'a list" where
  "pump put get 0 s xs = []"
| "pump put get (Suc r) s xs =
     (case put s xs of (s, n) \<Rightarrow> (case get s of (s, ys) \<Rightarrow> ys @ pump put get r s (drop n xs)))"

context channel begin

lemma pump_all: "inv s \<Longrightarrow> length (queue s) + length xs \<le> r \<Longrightarrow> pump put get r s xs = queue s @ xs"
proof (induction r arbitrary: s xs)
  case (Suc r)
  obtain s1 n where 1: "put s xs = (s1, n)" by fastforce
  obtain s2 ys where 2: "get s1 = (s2, ys)" by fastforce
  note p = put [OF Suc.prems(1) 1]
  then have g: "inv s2" "queue s1 = ys @ queue s2" "queue s1 \<noteq> [] \<Longrightarrow> ys \<noteq> []" using get [OF _ 2] by blast+
  have all: "queue s @ xs = ys @ queue s2 @ drop n xs" using p g(2) by (metis append.assoc append_take_drop_id)
  have "length (queue s2) + length (drop n xs) \<le> r"
  proof (cases "queue s = [] \<and> xs = []")
    case True
    then show ?thesis using all by simp
  next
    case False
    then have "queue s1 \<noteq> []" using p cap [OF Suc.prems(1)] by (cases "queue s = []") auto
    then have "1 \<le> length ys" using g(3) by (simp add: Suc_le_eq)
    moreover have "length (queue s) + length xs = length ys + (length (queue s2) + length (drop n xs))"
      using arg_cong [OF all, of length] by simp
    ultimately show ?thesis using Suc.prems(2) by linarith
  qed
  from Suc.IH [OF g(1) this] show ?case using 1 2 all by simp
qed simp

end

text \<open>From the first end of a pair to the second, which reads \<open>k\<close> bytes at a time.\<close>

definition pair_put :: "bio_pair \<Rightarrow> u8 list \<Rightarrow> bio_pair \<times> nat" where
  "pair_put p xs =
     (let bs = take INT_MAX xs in
      case BIO_write p (Some bs) (int (length bs)) of
        None \<Rightarrow> (p, 0)
      | Some (p, r, e) \<Rightarrow> (p, nat r))"

definition pair_get :: "nat \<Rightarrow> bio_pair \<Rightarrow> bio_pair \<times> u8 list" where
  "pair_get k p =
     (case BIO_read (turn True p) True (int k) of
        None \<Rightarrow> (p, [])
      | Some (p, r, ys, e) \<Rightarrow> (turn True p, ys))"

lemma pair_put_pipe:
  assumes "pair_ok p"
  shows "pair_ok (fst (pair_put p xs)) \<and>
    pipes_of (fst (pair_put p xs)) = (fst (pipe_write (fst (pipes_of p)) (take INT_MAX xs)), snd (pipes_of p)) \<and>
    snd (pair_put p xs) = nat (fst (snd (pipe_write (fst (pipes_of p)) (take INT_MAX xs))))"
proof -
  obtain bio peer where p: "p = (bio, peer)" by (cases p)
  have "end_ok bio" "length (take INT_MAX xs) < 2 ^ 31" using assms by (simp_all add: p pair_ok_def)
  from BIO_write_pipe [OF this, of peer] show ?thesis using assms
    by (auto simp: pair_put_def p pair_ok_def Let_def split: prod.splits)
qed

lemma pair_get_pipe:
  assumes "pair_ok p" "k < 2 ^ 31"
  shows "pair_ok (fst (pair_get k p)) \<and> pipes_of (fst (pair_get k p)) = (fst (pipe_read (fst (pipes_of p)) k), snd (pipes_of p)) \<and>
    snd (pair_get k p) = snd (snd (pipe_read (fst (pipes_of p)) k))"
proof -
  obtain bio peer where p: "p = (bio, peer)" by (cases p)
  have "end_ok peer" "end_ok bio" using assms by (simp_all add: p pair_ok_def)
  from BIO_read_pipe [OF this assms(2)] show ?thesis
    by (auto simp: pair_get_def p pair_ok_def turn_def)
qed

interpretation pair: channel "\<lambda>p. pair_ok p \<and> \<not> q_closed (fst (pipes_of p))" "\<lambda>p. q_data (fst (pipes_of p))" "\<lambda>p. q_cap (fst (pipes_of p))"
    pair_put "pair_get (Suc (k mod INT_MAX))" for k
proof
  fix p p' :: bio_pair and xs n
  assume p: "pair_ok p \<and> \<not> q_closed (fst (pipes_of p))" and put: "pair_put p xs = (p', n)"
  have l: "length (q_data (fst (pipes_of p))) \<le> q_cap (fst (pipes_of p))"
    using p end_ok_size [of "fst p"] by (simp add: pipes_of_def pipe_of_def pair_ok_def)
  show "(pair_ok p' \<and> \<not> q_closed (fst (pipes_of p'))) \<and> q_cap (fst (pipes_of p')) = q_cap (fst (pipes_of p)) \<and>
    q_data (fst (pipes_of p')) = q_data (fst (pipes_of p)) @ take n xs \<and> n \<le> length xs \<and>
    (xs \<noteq> [] \<and> length (q_data (fst (pipes_of p))) < q_cap (fst (pipes_of p)) \<longrightarrow> 0 < n)"
    using pair_put_pipe [of p xs] p put l by (auto simp: pipe_write_def Let_def min_def split: if_splits)
next
  fix p p' :: bio_pair and ys
  assume p: "pair_ok p \<and> \<not> q_closed (fst (pipes_of p))" and get: "pair_get (Suc (k mod INT_MAX)) p = (p', ys)"
  have "k mod INT_MAX < INT_MAX" by simp
  then have "Suc (k mod INT_MAX) < 2 ^ 31" by simp
  from pair_get_pipe [OF _ this, of p]
  show "(pair_ok p' \<and> \<not> q_closed (fst (pipes_of p'))) \<and> q_cap (fst (pipes_of p')) = q_cap (fst (pipes_of p)) \<and>
    q_data (fst (pipes_of p)) = ys @ q_data (fst (pipes_of p')) \<and> (q_data (fst (pipes_of p)) \<noteq> [] \<longrightarrow> ys \<noteq> [])"
    using p get by (auto simp: pipe_read_def Let_def split: if_splits)
next
  fix p :: bio_pair
  assume "pair_ok p \<and> \<not> q_closed (fst (pipes_of p))"
  then show "0 < q_cap (fst (pipes_of p))" by (auto simp: pair_ok_def end_ok_def ring_ok_def pipes_of_def pipe_of_def)
qed


section \<open>The properties\<close>

text \<open>C36: A BIO pair is two bounded queues: from a new pair, any sequence of writes, reads, shutdowns and queries on
  either end terminates, with at most two iterations of a copying loop, and returns exactly what the two queues
  return, short writes, the broken pipe after a shutdown and the \<open>-1\<close> on a full or an empty buffer included.\<close>

theorem bio_pair_refines_queues:
  assumes "BIO_new_bio_pair m1 m2 al1 al2 n1 n2 = Some p" "blocks_of al1" "blocks_of al2" "n1 < 2 ^ 63" "n2 < 2 ^ 63"
    and "list_all op_ok cs"
  shows "\<exists>p'. bio_runs cs p = Some (p', snd (fifo_runs cs (new_pipe n1, new_pipe n2)))"
  using bio_runs_fifo [of p cs] new_pair [OF assms(1-5)] assms(6) by auto

text \<open>C37: Nothing is lost, repeated or reordered: after any sequence of calls on a new pair, the bytes an end has accepted
  are the bytes the other end has got, followed by the ones in the ring, which are never more than the buffer
  holds.\<close>

theorem bio_pair_history:
  assumes "BIO_new_bio_pair m1 m2 al1 al2 n1 n2 = Some p" "blocks_of al1" "blocks_of al2" "n1 < 2 ^ 63" "n2 < 2 ^ 63"
    and "list_all op_ok cs" "bio_runs cs p = Some (p', rs)"
  shows "accepted e cs rs = delivered e cs rs @ content (o_ptr (fst (turn e p'))) \<and>
    length (content (o_ptr (fst (turn e p')))) \<le> b_size (o_ptr (fst (turn e p')))"
proof -
  have p: "pair_ok p" "pipes_of p = (new_pipe n1, new_pipe n2)" using new_pair [OF assms(1-5)] by simp_all
  from bio_runs_fifo [OF p(1) assms(6)] assms(7) have r: "pair_ok p'" "fifo_runs cs (pipes_of p) = (pipes_of p', rs)" by auto
  have "q_data (fst (turn e (pipes_of p))) = []" by (simp add: p(2) turn_def new_pipe_def)
  moreover have "q_data (fst (turn e (pipes_of p'))) = content (o_ptr (fst (turn e p')))"
    by (simp add: turn_def pipes_of_def pipe_of_def)
  moreover have "end_ok (fst (turn e p'))" using r(1) turn_simps(2) [of e p'] by (simp add: pair_ok_def)
  ultimately show ?thesis using fifo_history [OF r(2), of e] end_ok_size by simp
qed

text \<open>C38: A transfer gets through a buffer of any size: when one end of a new pair keeps writing what is left of some data
  and the other end keeps reading, any positive number of bytes at a time, every round moves at least a byte, and
  after as many rounds as there are bytes all of them have arrived in order.\<close>

theorem bio_transfer_completes:
  assumes "BIO_new_bio_pair m1 m2 al1 al2 n1 n2 = Some p" "blocks_of al1" "blocks_of al2" "n1 < 2 ^ 63" "n2 < 2 ^ 63"
    and "0 < k" "k \<le> INT_MAX" "length xs \<le> rounds"
  shows "pump pair_put (pair_get k) rounds p xs = xs"
proof -
  have p: "pair_ok p" "pipes_of p = (new_pipe n1, new_pipe n2)" using new_pair [OF assms(1-5)] by simp_all
  have "Suc ((k - 1) mod INT_MAX) = k" using assms(6,7) by simp
  with pair.pump_all [of p xs rounds "k - 1"] show ?thesis using p assms(8) by (simp add: new_pipe_def)
qed

section \<open>An example\<close>

definition ex_bytes :: "nat \<Rightarrow> u8 list option" where
  "ex_bytes n = Some (replicate n 0)"

definition ex_pair :: bio_pair where
  "ex_pair =
     (let bio = \<lambda>n d. \<lparr>o_init = True, o_shutdown = 1, o_flags = 0, o_retry_reason = 0,
            o_ptr = \<lparr>b_peer = True, b_closed = False, b_len = 0, b_offset = 0, b_size = n, b_buf = Some d, b_request = 0\<rparr>,
            o_num_read = 0, o_num_write = 0\<rparr>
      in (bio 3 [0, 0, 0], bio 2 [0, 0]))"

lemma ex_bytes_ok: "blocks_of ex_bytes"
  by (simp add: blocks_of_def ex_bytes_def)

lemma ex_pair_new: "BIO_new_bio_pair (True, True) (True, True) ex_bytes ex_bytes 3 2 = Some ex_pair"
proof -
  have "ex_bytes 3 = Some [0, 0, 0]" "ex_bytes 2 = Some [0, 0]" by (simp_all add: ex_bytes_def numeral_eq_Suc)
  then show ?thesis
    by (simp add: BIO_new_bio_pair_def BIO_new_def bio_new_def bio_make_pair_def make_buf_def ex_pair_def Let_def)
qed

definition ex_ops :: "bio_op list" where
  "ex_ops = [OWrite False [1, 2], ORead True 1, OWrite False [3, 4, 5], ORead True 9, ORead True 1, OShutdown False, OWrite False [6], ORead True 1]"

definition ex_rets :: "bio_ret list" where
  "ex_rets = [RWrite 2 None, RRead 1 [1], RWrite 2 None, RRead 3 [2, 3, 4], RRead (-1) [], RDone, RWrite (-1) (Some BIO_R_BROKEN_PIPE), RRead 0 []]"

lemma ex_fifo: "snd (fifo_runs ex_ops (new_pipe 3, new_pipe 2)) = ex_rets"
  by (simp add: ex_ops_def ex_rets_def new_pipe_def pipe_write_def pipe_read_def turn_def)

lemma ex_ops_ok: "list_all op_ok ex_ops"
  by (simp add: ex_ops_def)

theorem bio_pair_refines_queues_witness: "\<exists>p'. bio_runs ex_ops ex_pair = Some (p', ex_rets)"
  using bio_pair_refines_queues [OF ex_pair_new ex_bytes_ok ex_bytes_ok _ _ ex_ops_ok] by (simp add: ex_fifo)

theorem bio_pair_history_witness: "\<exists>p'. bio_runs ex_ops ex_pair = Some (p', ex_rets) \<and> content (o_ptr (fst p')) = []"
proof -
  have n: "(3 :: nat) < 2 ^ 63" "(2 :: nat) < 2 ^ 63" by simp_all
  have ok: "pair_ok ex_pair" "pipes_of ex_pair = (new_pipe 3, new_pipe 2)"
    using new_pair [OF ex_pair_new ex_bytes_ok ex_bytes_ok n] by simp_all
  obtain p' where r: "bio_runs ex_ops ex_pair = Some (p', ex_rets)" using bio_runs_fifo [OF ok(1) ex_ops_ok] ok(2) ex_fifo by auto
  from bio_pair_history [OF ex_pair_new ex_bytes_ok ex_bytes_ok n ex_ops_ok r, of False] r show ?thesis
    by (simp add: ex_ops_def ex_rets_def turn_def)
qed

theorem bio_transfer_completes_witness: "pump pair_put (pair_get 2) 5 ex_pair [1, 2, 3, 4, 5] = [1, 2, 3, 4, 5]"
  by (rule bio_transfer_completes [OF ex_pair_new ex_bytes_ok ex_bytes_ok]) simp_all

end
