(* ===== verification/Lhash.thy ===== *)
theory Lhash imports Prelude begin

text \<open>
  The hash tables of BoringSSL, \<open>crypto/lhash/lhash.c\<close>: an array of chains of items, each with the
  cached hash of its data, that is resized when the chains get long or short. A chain is a list of
  data with their hashes; a pointer to a link of a chain is the number of its bucket and a position
  in it, the length of the chain when it points to the NULL at the end. The allocations of an operation are
  flags: whether the item and whether the array can be had. The callbacks of \<open>lh_doall\<close> work on a
  state of their own and leave the table alone.
\<close>

type_synonym 'd lhash_item = "'d \<times> u32"

record 'd lhash =
  h_num_items :: nat
  h_buckets :: "'d lhash_item list list"
  h_num_buckets :: nat
  h_callback_depth :: u32
  h_comp :: "'d \<Rightarrow> 'd \<Rightarrow> int"
  h_hash :: "'d \<Rightarrow> u32"

definition kMinNumBuckets :: nat where "kMinNumBuckets = 16"
definition kMaxAverageChainLength :: nat where "kMaxAverageChainLength = 2"
definition kMinAverageChainLength :: nat where "kMinAverageChainLength = 1"

definition lh_new :: "bool \<Rightarrow> bool \<Rightarrow> ('d \<Rightarrow> u32) \<Rightarrow> ('d \<Rightarrow> 'd \<Rightarrow> int) \<Rightarrow> 'd lhash option" where
  "lh_new m1 m2 hash cf =
     (if \<not> m1 \<or> \<not> m2 then None
      else Some \<lparr>h_num_items = 0, h_buckets = replicate kMinNumBuckets [], h_num_buckets = kMinNumBuckets,
                 h_callback_depth = 0, h_comp = cf, h_hash = hash\<rparr>)"

definition lh_num_items :: "'d lhash \<Rightarrow> nat" where
  "lh_num_items lh = h_num_items lh"

text \<open>The position of the first item equal to the data, the end of the chain if there is none.\<close>

fun chain_find :: "('d \<Rightarrow> 'd \<Rightarrow> int) \<Rightarrow> 'd \<Rightarrow> 'd lhash_item list \<Rightarrow> nat" where
  "chain_find cf d [] = 0"
| "chain_find cf d (cur # chain) = (if cf (fst cur) d = 0 then 0 else Suc (chain_find cf d chain))"

definition get_next_ptr_and_hash :: "'d lhash \<Rightarrow> 'd \<Rightarrow> nat \<times> nat \<times> u32" where
  "get_next_ptr_and_hash lh d =
     (let hash = h_hash lh d; i = unat hash mod h_num_buckets lh
      in (i, chain_find (h_comp lh) d (h_buckets lh ! i), hash))"

definition lh_retrieve :: "'d lhash \<Rightarrow> 'd \<Rightarrow> 'd option" where
  "lh_retrieve lh d =
     (case get_next_ptr_and_hash lh d of (i, k, hash) \<Rightarrow>
        let chain = h_buckets lh ! i in if k = length chain then None else Some (fst (chain ! k)))"

text \<open>An item goes to the front of its new chain.\<close>

definition rebucket_item :: "nat \<Rightarrow> 'd lhash_item \<Rightarrow> 'd lhash_item list list \<Rightarrow> 'd lhash_item list list" where
  "rebucket_item n cur bs = (let i = unat (snd cur) mod n in bs[i := cur # bs ! i])"

definition lh_rebucket :: "bool \<Rightarrow> 'd lhash \<Rightarrow> nat \<Rightarrow> 'd lhash" where
  "lh_rebucket m lh new_num_buckets =
     (let alloc_size = 8 * new_num_buckets mod size_mod in
      if alloc_size div 8 \<noteq> new_num_buckets \<or> \<not> m then lh
      else lh\<lparr>h_buckets := fold (rebucket_item new_num_buckets) (concat (h_buckets lh)) (replicate new_num_buckets []),
              h_num_buckets := new_num_buckets\<rparr>)"

text \<open>The number of buckets to resize to, if any.\<close>

definition resize_to :: "'d lhash \<Rightarrow> nat option" where
  "resize_to lh =
     (if h_callback_depth lh > 0 then None
      else
        let avg_chain_length = h_num_items lh div h_num_buckets lh in
        if avg_chain_length > kMaxAverageChainLength then
          (let new_num_buckets = h_num_buckets lh * 2 mod size_mod
           in if new_num_buckets > h_num_buckets lh then Some new_num_buckets else None)
        else if avg_chain_length < kMinAverageChainLength \<and> h_num_buckets lh > kMinNumBuckets then
          (let new_num_buckets = h_num_buckets lh div 2
           in Some (if new_num_buckets < kMinNumBuckets then kMinNumBuckets else new_num_buckets))
        else None)"

definition lh_maybe_resize :: "bool \<Rightarrow> 'd lhash \<Rightarrow> 'd lhash" where
  "lh_maybe_resize m lh = (case resize_to lh of None \<Rightarrow> lh | Some n \<Rightarrow> lh_rebucket m lh n)"

text \<open>The table, whether it went well, and \<open>*old_data\<close>.\<close>

definition lh_insert :: "bool \<Rightarrow> bool \<Rightarrow> 'd lhash \<Rightarrow> 'd \<Rightarrow> 'd lhash \<times> bool \<times> 'd option" where
  "lh_insert m1 m2 lh d =
     (case get_next_ptr_and_hash lh d of (i, k, hash) \<Rightarrow>
        let chain = h_buckets lh ! i in
        if k \<noteq> length chain then
          (lh\<lparr>h_buckets := (h_buckets lh)[i := chain[k := (d, snd (chain ! k))]]\<rparr>, True, Some (fst (chain ! k)))
        else if \<not> m1 then (lh, False, None)
        else
          (lh_maybe_resize m2
             (lh\<lparr>h_buckets := (h_buckets lh)[i := chain @ [(d, hash)]], h_num_items := (h_num_items lh + 1) mod size_mod\<rparr>),
           True, None))"

definition lh_delete :: "bool \<Rightarrow> 'd lhash \<Rightarrow> 'd \<Rightarrow> 'd lhash \<times> 'd option" where
  "lh_delete m2 lh d =
     (case get_next_ptr_and_hash lh d of (i, k, hash) \<Rightarrow>
        let chain = h_buckets lh ! i in
        if k = length chain then (lh, None)
        else
          (lh_maybe_resize m2
             (lh\<lparr>h_buckets := (h_buckets lh)[i := take k chain @ drop (Suc k) chain],
                 h_num_items := (h_num_items lh + size_mod - 1) mod size_mod\<rparr>),
           Some (fst (chain ! k))))"

definition lh_doall_internal :: "bool \<Rightarrow> 'd lhash \<Rightarrow> ('d \<Rightarrow> 'h \<Rightarrow> 'h) \<Rightarrow> 'h \<Rightarrow> 'd lhash \<times> 'h" where
  "lh_doall_internal m2 lh f h =
     (let up = (\<lambda>lh. if h_callback_depth lh < -1 then lh\<lparr>h_callback_depth := h_callback_depth lh + 1\<rparr> else lh);
          down = (\<lambda>lh. if h_callback_depth lh < -1 then lh\<lparr>h_callback_depth := h_callback_depth lh - 1\<rparr> else lh);
          lh = up lh;
          h = fold (\<lambda>cur. f (fst cur)) (concat (h_buckets lh)) h
      in (lh_maybe_resize m2 (down lh), h))"

definition lh_doall :: "bool \<Rightarrow> 'd lhash \<Rightarrow> ('d \<Rightarrow> 'h \<Rightarrow> 'h) \<Rightarrow> 'h \<Rightarrow> 'd lhash \<times> 'h" where
  "lh_doall m2 lh func h = lh_doall_internal m2 lh func h"

definition lh_doall_arg :: "bool \<Rightarrow> 'd lhash \<Rightarrow> ('d \<Rightarrow> 'a \<Rightarrow> 'h \<Rightarrow> 'h) \<Rightarrow> 'a \<Rightarrow> 'h \<Rightarrow> 'd lhash \<times> 'h" where
  "lh_doall_arg m2 lh func arg h = lh_doall_internal m2 lh (\<lambda>d. func d arg) h"

text \<open>FNV-1a, the hash function of strings; a string is the bytes in front of its NUL.\<close>

definition OPENSSL_hash32 :: "u8 list \<Rightarrow> u32" where
  "OPENSSL_hash32 bs = fold (\<lambda>b h. (h XOR ucast b) * 16777619) bs 2166136261"

definition lh_strhash :: "u8 list option \<Rightarrow> u32" where
  "lh_strhash c = (case c of None \<Rightarrow> 0 | Some bs \<Rightarrow> OPENSSL_hash32 bs)"

end
