(* ===== verification/LhashSpec.thy ===== *)
theory LhashSpec imports Lhash "HOL-Library.Multiset" begin

text \<open>
  A hash table is a dictionary. The invariant \<open>lh_ok\<close> says that every item is in the bucket of its
  hash and that no two items are equal; it is stated on the multiset of the items, since resizing
  reorders the chains. Looking up finds the only equal item, and every operation does to the lookup
  function what the one of a dictionary does (locale \<open>dictionary\<close>). The second part bounds the length
  of the chains.
\<close>

definition eqv :: "('d \<Rightarrow> 'd \<Rightarrow> int) \<Rightarrow> 'd \<Rightarrow> 'd \<Rightarrow> bool" where
  "eqv cf a b \<longleftrightarrow> cf a b = 0"

text \<open>What the caller's functions must satisfy.\<close>

definition hash_ok :: "('d \<Rightarrow> 'd \<Rightarrow> int) \<Rightarrow> ('d \<Rightarrow> u32) \<Rightarrow> bool" where
  "hash_ok cf hash \<longleftrightarrow> equivp (eqv cf) \<and> (\<forall>a b. eqv cf a b \<longrightarrow> hash a = hash b)"

definition items :: "'d lhash \<Rightarrow> 'd lhash_item multiset" where
  "items lh = mset (concat (h_buckets lh))"

definition equals :: "('d \<Rightarrow> 'd \<Rightarrow> int) \<Rightarrow> 'd \<Rightarrow> 'd lhash_item multiset \<Rightarrow> 'd lhash_item multiset" where
  "equals cf d M = filter_mset (\<lambda>x. eqv cf (fst x) d) M"

definition apart :: "('d \<Rightarrow> 'd \<Rightarrow> int) \<Rightarrow> 'd lhash_item multiset \<Rightarrow> bool" where
  "apart cf M \<longleftrightarrow> (\<forall>d. size (equals cf d M) \<le> 1)"

definition placed :: "('d \<Rightarrow> u32) \<Rightarrow> 'd lhash_item list list \<Rightarrow> bool" where
  "placed hash bs \<longleftrightarrow> (\<forall>i < length bs. \<forall>x \<in> set (bs ! i). snd x = hash (fst x) \<and> unat (hash (fst x)) mod length bs = i)"

definition lh_ok :: "'d lhash \<Rightarrow> bool" where
  "lh_ok lh \<longleftrightarrow> hash_ok (h_comp lh) (h_hash lh) \<and> length (h_buckets lh) = h_num_buckets lh \<and> kMinNumBuckets \<le> h_num_buckets lh \<and>
     h_num_items lh = size (items lh) \<and> apart (h_comp lh) (items lh) \<and> placed (h_hash lh) (h_buckets lh)"

lemma mset_concat_update:
  "i < length bs \<Longrightarrow> mset (concat (bs[i := c])) + mset (bs ! i) = mset (concat bs) + mset c"
proof -
  assume i: "i < length bs"
  have "mset (concat bs) = mset (concat (take i bs)) + mset (bs ! i) + mset (concat (drop (Suc i) bs))"
    using arg_cong [OF id_take_nth_drop [OF i], of "\<lambda>xs. mset (concat xs)"] by (simp add: add.assoc)
  moreover have "mset (concat (bs[i := c])) = mset (concat (take i bs)) + mset c + mset (concat (drop (Suc i) bs))"
    using i by (simp add: upd_conv_take_nth_drop add.assoc)
  ultimately show ?thesis by simp
qed

lemma placedD: "placed hash bs \<Longrightarrow> i < length bs \<Longrightarrow> x \<in> set (bs ! i) \<Longrightarrow> snd x = hash (fst x) \<and> unat (hash (fst x)) mod length bs = i"
  by (simp add: placed_def)

lemma at_most_one: "x \<in># M \<Longrightarrow> size M \<le> 1 \<Longrightarrow> M = {#x#}"
  by (auto dest!: multi_member_split)

lemma placed_update:
  assumes "placed hash bs" "i < length bs" "\<And>x. x \<in> set c \<Longrightarrow> snd x = hash (fst x) \<and> unat (hash (fst x)) mod length bs = i"
  shows "placed hash (bs[i := c])"
  unfolding placed_def
proof (intro allI impI ballI)
  fix j x assume "j < length (bs[i := c])" "x \<in> set (bs[i := c] ! j)"
  then show "snd x = hash (fst x) \<and> unat (hash (fst x)) mod length (bs[i := c]) = j"
    using assms(3) [of x] placedD [OF assms(1), of j x] assms(2) by (cases "j = i") simp_all
qed

section \<open>Looking up\<close>

lemma chain_find_end: "chain_find cf d chain \<le> length chain"
  by (induction chain) auto

lemma chain_find_eq:
  "(chain_find cf d chain = length chain \<longleftrightarrow> (\<forall>x \<in> set chain. \<not> eqv cf (fst x) d)) \<and>
   (chain_find cf d chain < length chain \<longrightarrow> eqv cf (fst (chain ! chain_find cf d chain)) d)"
  by (induction chain) (auto simp: eqv_def)

lemma equals_simps [simp]:
  "equals cf d (M + N) = equals cf d M + equals cf d N" "equals cf d {#} = {#}"
  "equals cf d {#x#} = (if eqv cf (fst x) d then {#x#} else {#})"
  by (simp_all add: equals_def)

lemma in_equals: "x \<in># equals cf d M \<longleftrightarrow> x \<in># M \<and> eqv cf (fst x) d"
  by (simp add: equals_def)

text \<open>The items equal to \<open>d\<close> are all in its bucket, so there is none or the one the search finds.\<close>

lemma in_bucket:
  assumes "lh_ok lh" "x \<in># items lh" "eqv (h_comp lh) (fst x) d"
  shows "x \<in> set (h_buckets lh ! (unat (h_hash lh d) mod h_num_buckets lh))"
proof -
  obtain c where "c \<in> set (h_buckets lh)" "x \<in> set c" using assms(2) by (auto simp: items_def)
  then obtain i where i: "i < length (h_buckets lh)" "x \<in> set (h_buckets lh ! i)" by (metis in_set_conv_nth)
  then have "snd x = h_hash lh (fst x)" "unat (h_hash lh (fst x)) mod h_num_buckets lh = i" using assms(1) placedD [of "h_hash lh" "h_buckets lh" i x] by (simp_all add: lh_ok_def)
  moreover have "h_hash lh (fst x) = h_hash lh d" using assms(1,3) by (simp add: lh_ok_def hash_ok_def)
  ultimately show ?thesis using i(2) by simp
qed

lemma bucket_lt: "lh_ok lh \<Longrightarrow> unat h mod h_num_buckets lh < length (h_buckets lh)"
  by (simp add: lh_ok_def kMinNumBuckets_def)

lemma in_items: "lh_ok lh \<Longrightarrow> x \<in> set (h_buckets lh ! (unat h mod h_num_buckets lh)) \<Longrightarrow> x \<in># items lh"
  using bucket_lt [of lh h] by (force simp: items_def)

lemma find_cases:
  assumes "lh_ok lh" "get_next_ptr_and_hash lh d = (i, k, hash)"
  obtains (missing) "k = length (h_buckets lh ! i)" "equals (h_comp lh) d (items lh) = {#}" "lh_retrieve lh d = None"
  | (found) "k < length (h_buckets lh ! i)" "equals (h_comp lh) d (items lh) = {#h_buckets lh ! i ! k#}"
    "lh_retrieve lh d = Some (fst (h_buckets lh ! i ! k))"
proof -
  let ?c = "h_buckets lh ! i"
  have ik: "i = unat (h_hash lh d) mod h_num_buckets lh" "k = chain_find (h_comp lh) d ?c"
    using assms(2) by (auto simp: get_next_ptr_and_hash_def Let_def)
  note cf = chain_find_eq [of "h_comp lh" d ?c, folded ik(2)] and le = chain_find_end [of "h_comp lh" d ?c, folded ik(2)]
  have r: "lh_retrieve lh d = (if k = length ?c then None else Some (fst (?c ! k)))" by (simp add: lh_retrieve_def assms(2))
  show ?thesis
  proof (cases "k = length ?c")
    case True
    then have "\<forall>x \<in> set ?c. \<not> eqv (h_comp lh) (fst x) d" using cf by blast
    then have "\<not> (x \<in># items lh \<and> eqv (h_comp lh) (fst x) d)" for x using in_bucket [OF assms(1), of x d] ik(1) by auto
    then have "equals (h_comp lh) d (items lh) = {#}" by (metis in_equals multiset_nonemptyE)
    then show ?thesis using missing True r by simp
  next
    case False
    then have k: "k < length ?c" using le by simp
    then have "eqv (h_comp lh) (fst (?c ! k)) d" "?c ! k \<in># items lh"
      using cf in_items [OF assms(1), of "?c ! k" "h_hash lh d"] ik(1) nth_mem [of k ?c] by simp_all
    then have "?c ! k \<in># equals (h_comp lh) d (items lh)" by (simp add: in_equals)
    moreover have "size (equals (h_comp lh) d (items lh)) \<le> 1" using assms(1) by (simp add: lh_ok_def apart_def)
    ultimately have "equals (h_comp lh) d (items lh) = {#?c ! k#}"
      by (rule at_most_one)
    then show ?thesis using found False k r by simp
  qed
qed

text \<open>So looking up only depends on the items.\<close>

lemma retrieve_equals:
  assumes "lh_ok lh"
  shows "lh_retrieve lh d = (if equals (h_comp lh) d (items lh) = {#} then None else Some (fst (THE x. equals (h_comp lh) d (items lh) = {#x#})))"
proof -
  obtain i k h where g: "get_next_ptr_and_hash lh d = (i, k, h)" by (metis prod_cases3)
  show ?thesis by (rule find_cases [OF assms g]) simp_all
qed


section \<open>The operations on the items\<close>

lemma eqv_sym: "hash_ok cf hash \<Longrightarrow> eqv cf a b \<Longrightarrow> eqv cf b a"
  by (auto simp: hash_ok_def intro: equivp_symp)

lemma eqv_trans: "hash_ok cf hash \<Longrightarrow> eqv cf a b \<Longrightarrow> eqv cf b c \<Longrightarrow> eqv cf a c"
  by (auto simp: hash_ok_def intro: equivp_transp)

lemma equals_without:
  assumes "hash_ok cf hash"
  shows "equals cf e (M - equals cf d M) = (if eqv cf d e then {#} else equals cf e M)"
proof -
  have m: "M - equals cf d M = filter_mset (\<lambda>x. \<not> eqv cf (fst x) d) M"
    unfolding equals_def by (metis add_diff_cancel_left' multiset_partition)
  have "(\<lambda>x. \<not> eqv cf (fst x) d \<and> eqv cf (fst x) e) = (if eqv cf d e then (\<lambda>_. False) else (\<lambda>x. eqv cf (fst x) e))"
  proof
    fix x
    show "(\<not> eqv cf (fst x) d \<and> eqv cf (fst x) e) = (if eqv cf d e then (\<lambda>_. False) else (\<lambda>x. eqv cf (fst x) e)) x"
      using eqv_sym [OF assms, of d e] eqv_sym [OF assms, of "fst x" d] eqv_trans [OF assms, of "fst x" e d]
        eqv_trans [OF assms, of d "fst x" e] by auto
  qed
  from arg_cong [OF this, of "\<lambda>P. filter_mset P M"]
  have "filter_mset (\<lambda>x. \<not> eqv cf (fst x) d \<and> eqv cf (fst x) e) M = (if eqv cf d e then {#} else filter_mset (\<lambda>x. eqv cf (fst x) e) M)"
    by (cases "eqv cf d e") (simp_all only: if_True if_False filter_mset_False)
  then show ?thesis unfolding m unfolding equals_def filter_filter_mset .
qed

text \<open>What an operation on \<open>d\<close> does: the item equal to it goes, and \<open>N\<close> comes, an item for \<open>d\<close> or nothing.\<close>

lemma replaced:
  assumes "hash_ok cf hash" "apart cf M" "N = {#} \<or> (\<exists>h. N = {#(d, h)#})"
  shows "apart cf (M - equals cf d M + N)"
    "equals cf e (M - equals cf d M + N) = (if eqv cf d e then N else equals cf e M)"
proof -
  have "equals cf e N = (if eqv cf d e then N else {#})" for e using assms(3) by auto
  then show e: "equals cf e (M - equals cf d M + N) = (if eqv cf d e then N else equals cf e M)" for e
    by (simp add: equals_without [OF assms(1)])
  have "size N \<le> 1" using assms(3) by auto
  then show "apart cf (M - equals cf d M + N)" using assms(2) unfolding apart_def e by simp
qed

lemma retrieve_replaced:
  assumes "lh_ok lh" "lh_ok lh'" "h_comp lh' = h_comp lh" "items lh' = items lh - equals (h_comp lh) d (items lh) + N"
    and "N = {#} \<or> (\<exists>h. N = {#(d, h)#})"
  shows "lh_retrieve lh' e = (if eqv (h_comp lh) d e then if N = {#} then None else Some d else lh_retrieve lh e)"
proof -
  have h: "hash_ok (h_comp lh) (h_hash lh)" "apart (h_comp lh) (items lh)" using assms(1) by (simp_all add: lh_ok_def)
  show ?thesis using assms(5)
    unfolding retrieve_equals [OF assms(2)] retrieve_equals [OF assms(1)] assms(3,4) replaced(2) [OF h assms(5)] by auto
qed

section \<open>Resizing\<close>

lemma fold_rebucket:
  assumes "length bs = n" "0 < n"
  shows "length (fold (rebucket_item n) xs bs) = n"
    "mset (concat (fold (rebucket_item n) xs bs)) = mset (concat bs) + mset xs"
    "placed hash bs \<Longrightarrow> \<forall>x \<in> set xs. snd x = hash (fst x) \<Longrightarrow> placed hash (fold (rebucket_item n) xs bs)"
  using assms
proof (induction xs arbitrary: bs)
  case (Cons x xs)
  let ?i = "unat (snd x) mod n"
  have b: "rebucket_item n x bs = bs[?i := x # bs ! ?i]" for bs by (simp add: rebucket_item_def Let_def)
  { case (1 bs)
    then have "length (rebucket_item n x bs) = n" by (simp add: b)
    then show ?case using Cons.IH(1) 1 by simp
  next
    case (2 bs)
    have "mset (concat (rebucket_item n x bs)) + mset (bs ! ?i) = mset (concat bs) + mset (x # bs ! ?i)"
      unfolding b using 2 by (intro mset_concat_update) simp
    then have "mset (concat (rebucket_item n x bs)) = add_mset x (mset (concat bs))" by simp
    moreover have "length (rebucket_item n x bs) = n" using 2 by (simp add: b)
    ultimately show ?case using Cons.IH(2) 2 by simp
  next
    case (3 bs)
    have "placed hash (rebucket_item n x bs)" unfolding b
    proof (rule placed_update [OF 3(1)])
      show "?i < length bs" using 3 by simp
      show "y \<in> set (x # bs ! ?i) \<Longrightarrow> snd y = hash (fst y) \<and> unat (hash (fst y)) mod length bs = ?i" for y
        using 3 placedD [OF 3(1), of ?i y] by auto
    qed
    moreover have "length (rebucket_item n x bs) = n" using 3 by (simp add: b)
    ultimately show ?case using Cons.IH(3) 3 by simp }
qed simp_all

lemma rebucket_ok:
  fixes m :: bool
  assumes "lh_ok lh" "kMinNumBuckets \<le> n"
  defines "lh' \<equiv> lh_rebucket m lh n"
  shows "lh_ok lh' \<and> items lh' = items lh \<and> h_comp lh' = h_comp lh \<and> h_hash lh' = h_hash lh \<and> h_num_items lh' = h_num_items lh"
proof -
  have n: "0 < n" using assms(2) by (simp add: kMinNumBuckets_def)
  have it: "items lh' = items lh"
    using fold_rebucket(2) [of "replicate n []" n "concat (h_buckets lh)"] n by (simp add: lh'_def lh_rebucket_def Let_def items_def)
  have "\<forall>x \<in> set (concat (h_buckets lh)). snd x = h_hash lh (fst x)"
  proof
    fix x assume "x \<in> set (concat (h_buckets lh))"
    then obtain c where "c \<in> set (h_buckets lh)" "x \<in> set c" by auto
    then obtain i where "i < length (h_buckets lh)" "x \<in> set (h_buckets lh ! i)" by (metis in_set_conv_nth)
    then show "snd x = h_hash lh (fst x)" using assms(1) placedD [of "h_hash lh" "h_buckets lh" i x] by (simp add: lh_ok_def)
  qed
  then have "placed (h_hash lh) (fold (rebucket_item n) (concat (h_buckets lh)) (replicate n []))"
    by (intro fold_rebucket(3)) (simp_all add: n placed_def)
  then show ?thesis using assms(1,2) fold_rebucket(1) [of "replicate n []" n "concat (h_buckets lh)"] n it
    by (auto simp: lh'_def lh_rebucket_def Let_def lh_ok_def)
qed

lemma resize_to_min: "resize_to lh = Some n \<Longrightarrow> kMinNumBuckets \<le> h_num_buckets lh \<Longrightarrow> kMinNumBuckets \<le> n"
  by (auto simp: resize_to_def Let_def split: if_splits)

lemma resize_ok:
  fixes m :: bool
  assumes "lh_ok lh"
  defines "lh' \<equiv> lh_maybe_resize m lh"
  shows "lh_ok lh' \<and> items lh' = items lh \<and> h_comp lh' = h_comp lh \<and> h_hash lh' = h_hash lh \<and> h_num_items lh' = h_num_items lh"
proof (cases "resize_to lh")
  case None
  then show ?thesis using assms(1) by (simp add: lh'_def lh_maybe_resize_def lh_ok_def)
next
  case (Some n)
  have "kMinNumBuckets \<le> n" using assms(1) by (intro resize_to_min [OF Some]) (simp add: lh_ok_def)
  from rebucket_ok [OF assms(1) this, of m] show ?thesis using Some by (simp add: lh'_def lh_maybe_resize_def)
qed

section \<open>Every operation is one of a dictionary\<close>

lemma dec_mod: "Suc k = n \<Longrightarrow> n < 2 ^ 59 \<Longrightarrow> (n + size_mod - 1) mod size_mod = k"
  by auto

lemma update_one:
  assumes "i < length bs" "x \<in> set (bs ! i)" "mset c = add_mset y (mset (bs ! i) - {#x#})"
  shows "mset (concat (bs[i := c])) = mset (concat bs) - {#x#} + {#y#}"
proof -
  have "x \<in># mset (concat bs)" using assms(1,2) by (auto intro!: bexI [of _ "bs ! i"])
  then obtain A where A: "mset (concat bs) = add_mset x A" by (blast dest: multi_member_split)
  obtain C where C: "mset (bs ! i) = add_mset x C" using assms(2) by (metis multi_member_split set_mset_mset)
  have "mset (concat (bs[i := c])) + add_mset x C = add_mset x A + add_mset y C"
    using mset_concat_update [OF assms(1), of c] A C assms(3) by simp
  then show ?thesis using A by simp
qed

lemma in_set_update: "x \<in> set (xs[k := y]) \<Longrightarrow> x = y \<or> x \<in> set xs"
  using set_update_subset_insert [of xs k y] by auto

lemma insert_ok:
  assumes "lh_ok lh" "h_num_items lh < 2 ^ 59" "lh_insert m1 m2 lh d = (lh', ok, old)"
  shows "lh_ok lh' \<and> h_comp lh' = h_comp lh \<and> h_num_items lh' \<le> Suc (h_num_items lh) \<and> old = lh_retrieve lh d \<and>
    (ok \<longleftrightarrow> m1 \<or> lh_retrieve lh d \<noteq> None) \<and>
    (\<forall>e. lh_retrieve lh' e = (if ok \<and> eqv (h_comp lh) d e then Some d else lh_retrieve lh e))"
proof -
  obtain i k h where g: "get_next_ptr_and_hash lh d = (i, k, h)" by (metis prod_cases3)
  then have ih: "h = h_hash lh d" "i = unat h mod h_num_buckets lh" by (auto simp: get_next_ptr_and_hash_def Let_def)
  have i: "i < length (h_buckets lh)" using bucket_lt [OF assms(1)] ih(2) by simp
  have inv: "hash_ok (h_comp lh) (h_hash lh)" "apart (h_comp lh) (items lh)" "placed (h_hash lh) (h_buckets lh)"
    "length (h_buckets lh) = h_num_buckets lh" "kMinNumBuckets \<le> h_num_buckets lh" "h_num_items lh = size (items lh)"
    using assms(1) by (simp_all add: lh_ok_def)
  let ?c = "h_buckets lh ! i"
  show ?thesis
  proof (rule find_cases [OF assms(1) g])
    assume m: "k = length ?c" "equals (h_comp lh) d (items lh) = {#}" "lh_retrieve lh d = None"
    show ?thesis
    proof (cases m1)
      case False
      then show ?thesis using assms(1,3) m by (simp add: lh_insert_def g Let_def)
    next
      case True
      let ?l = "lh\<lparr>h_buckets := (h_buckets lh)[i := ?c @ [(d, h)]], h_num_items := (h_num_items lh + 1) mod size_mod\<rparr>"
      have n: "(h_num_items lh + 1) mod size_mod = h_num_items lh + 1" using assms(2) by (intro mod_less) simp
      have it: "items ?l = items lh - equals (h_comp lh) d (items lh) + {#(d, h)#}"
        using mset_concat_update [OF i, of "?c @ [(d, h)]"] m(2) by (simp add: items_def)
      have "placed (h_hash lh) ((h_buckets lh)[i := ?c @ [(d, h)]])"
      proof (rule placed_update [OF inv(3) i])
        fix x assume "x \<in> set (?c @ [(d, h)])"
        then show "snd x = h_hash lh (fst x) \<and> unat (h_hash lh (fst x)) mod length (h_buckets lh) = i"
          using placedD [OF inv(3) i, of x] ih inv(4) by (cases "x = (d, h)") simp_all
      qed
      then have ok: "lh_ok ?l" using inv replaced(1) [OF inv(1,2), of "{#(d, h)#}" d] n it m(2) by (simp add: lh_ok_def)
      note r = resize_ok [OF ok, of m2]
      have l: "lh' = lh_maybe_resize m2 ?l" "ok" "old = None" using assms(3) True m by (auto simp: lh_insert_def g Let_def)
      have "lh_retrieve lh' e = (if eqv (h_comp lh) d e then Some d else lh_retrieve lh e)" for e
        using retrieve_replaced [OF assms(1), of lh' d "{#(d, h)#}" e] r it l(1) by simp
      then show ?thesis using r l m(3) True n by simp
    qed
  next
    assume f: "k < length ?c" "equals (h_comp lh) d (items lh) = {#?c ! k#}" "lh_retrieve lh d = Some (fst (?c ! k))"
    have at: "?c ! k \<in># items lh" "eqv (h_comp lh) (fst (?c ! k)) d" using in_equals [of "?c ! k" "h_comp lh" d "items lh"] f(2) by simp_all
    then have hd: "snd (?c ! k) = h_hash lh d" using placedD [OF inv(3) i, of "?c ! k"] f(1) inv(1) by (simp add: hash_ok_def)
    let ?l = "lh\<lparr>h_buckets := (h_buckets lh)[i := ?c[k := (d, snd (?c ! k))]]\<rparr>"
    have l: "lh' = ?l" "ok" "old = Some (fst (?c ! k))" using assms(3) f by (auto simp: lh_insert_def g Let_def)
    have "mset (?c[k := (d, snd (?c ! k))]) = add_mset (d, snd (?c ! k)) (mset ?c - {#?c ! k#})" using f(1) by (simp add: mset_update)
    from update_one [OF i nth_mem [OF f(1)] this]
    have it: "items ?l = items lh - equals (h_comp lh) d (items lh) + {#(d, snd (?c ! k))#}"
      unfolding f(2) unfolding items_def by simp
    have "placed (h_hash lh) ((h_buckets lh)[i := ?c[k := (d, snd (?c ! k))]])"
    proof (rule placed_update [OF inv(3) i])
      fix x assume "x \<in> set (?c[k := (d, snd (?c ! k))])"
      then have "x = (d, snd (?c ! k)) \<or> x \<in> set ?c" by (rule in_set_update)
      then show "snd x = h_hash lh (fst x) \<and> unat (h_hash lh (fst x)) mod length (h_buckets lh) = i"
        using placedD [OF inv(3) i, of x] hd ih inv(4) by (cases "x = (d, snd (?c ! k))") simp_all
    qed
    moreover have "size (items ?l) = size (items lh)" unfolding it f(2) using at(1) by (simp add: size_Suc_Diff1)
    ultimately have ok: "lh_ok ?l" using inv replaced(1) [OF inv(1,2), of "{#(d, snd (?c ! k))#}" d] it by (simp add: lh_ok_def)
    have "lh_retrieve lh' e = (if eqv (h_comp lh) d e then Some d else lh_retrieve lh e)" for e
      using retrieve_replaced [OF assms(1), of lh' d "{#(d, snd (?c ! k))#}" e] ok it l(1) by simp
    then show ?thesis using ok l f(3) by simp
  qed
qed

lemma delete_ok:
  assumes "lh_ok lh" "h_num_items lh < 2 ^ 59" "lh_delete m2 lh d = (lh', old)"
  shows "lh_ok lh' \<and> h_comp lh' = h_comp lh \<and> h_num_items lh' \<le> h_num_items lh \<and> old = lh_retrieve lh d \<and>
    (\<forall>e. lh_retrieve lh' e = (if eqv (h_comp lh) d e then None else lh_retrieve lh e))"
proof -
  obtain i k h where g: "get_next_ptr_and_hash lh d = (i, k, h)" by (metis prod_cases3)
  then have ih: "h = h_hash lh d" "i = unat h mod h_num_buckets lh" by (auto simp: get_next_ptr_and_hash_def Let_def)
  have i: "i < length (h_buckets lh)" using bucket_lt [OF assms(1)] ih(2) by simp
  have inv: "hash_ok (h_comp lh) (h_hash lh)" "apart (h_comp lh) (items lh)" "placed (h_hash lh) (h_buckets lh)"
    "length (h_buckets lh) = h_num_buckets lh" "kMinNumBuckets \<le> h_num_buckets lh" "h_num_items lh = size (items lh)"
    using assms(1) by (simp_all add: lh_ok_def)
  let ?c = "h_buckets lh ! i"
  show ?thesis
  proof (rule find_cases [OF assms(1) g])
    assume m: "k = length ?c" "equals (h_comp lh) d (items lh) = {#}" "lh_retrieve lh d = None"
    then have l: "lh' = lh" "old = None" using assms(3) by (auto simp: lh_delete_def g Let_def)
    have "lh_retrieve lh e = (if eqv (h_comp lh) d e then None else lh_retrieve lh e)" for e
      using retrieve_replaced [OF assms(1,1), of d "{#}" e] m(2) by (cases "eqv (h_comp lh) d e") simp_all
    then show ?thesis using assms(1) l m(3) by simp
  next
    assume f: "k < length ?c" "equals (h_comp lh) d (items lh) = {#?c ! k#}" "lh_retrieve lh d = Some (fst (?c ! k))"
    let ?c' = "take k ?c @ drop (Suc k) ?c"
    let ?l = "lh\<lparr>h_buckets := (h_buckets lh)[i := ?c'], h_num_items := (h_num_items lh + size_mod - 1) mod size_mod\<rparr>"
    have l: "lh' = lh_maybe_resize m2 ?l" "old = Some (fst (?c ! k))" using assms(3) f by (auto simp: lh_delete_def g Let_def)
    have at: "?c ! k \<in># items lh" using in_equals [of "?c ! k" "h_comp lh" d "items lh"] f(2) by simp
    have "mset ?c = add_mset (?c ! k) (mset ?c')" using arg_cong [OF id_take_nth_drop [OF f(1)], of mset] by simp
    then have "add_mset (?c ! k) (items ?l) = items lh"
      using mset_concat_update [OF i, of ?c'] by (simp add: items_def)
    then have it: "items ?l = items lh - equals (h_comp lh) d (items lh) + {#}"
      unfolding f(2) by (metis add.right_neutral add_mset_remove_trivial)
    have sz: "Suc (size (items ?l)) = size (items lh)" unfolding it f(2) using at by (simp add: size_Suc_Diff1)
    have n: "(h_num_items lh + size_mod - 1) mod size_mod = size (items ?l)" using dec_mod [OF sz] assms(2) inv(6) by simp
    have "placed (h_hash lh) ((h_buckets lh)[i := ?c'])"
    proof (rule placed_update [OF inv(3) i])
      fix x assume "x \<in> set ?c'"
      then have "x \<in> set ?c" by (auto dest: in_set_takeD in_set_dropD)
      from placedD [OF inv(3) i this]
      show "snd x = h_hash lh (fst x) \<and> unat (h_hash lh (fst x)) mod length (h_buckets lh) = i" .
    qed
    then have ok: "lh_ok ?l" using inv replaced(1) [OF inv(1,2), of "{#}" d] n it by (simp add: lh_ok_def)
    note r = resize_ok [OF ok, of m2]
    have "lh_retrieve lh' e = (if eqv (h_comp lh) d e then None else lh_retrieve lh e)" for e
      using retrieve_replaced [OF assms(1), of lh' d "{#}" e] r it l(1) by simp
    then show ?thesis using r l f(3) n sz inv(6) by simp
  qed
qed


section \<open>Dictionaries\<close>

text \<open>A dictionary with up to \<open>lim\<close> entries; the two flags of an insertion say whether memory can be had.\<close>

locale dictionary =
  fixes inv :: "'s \<Rightarrow> bool" and look :: "'s \<Rightarrow> 'd \<Rightarrow> 'd option" and count :: "'s \<Rightarrow> nat" and lim :: nat
    and ins :: "bool \<Rightarrow> bool \<Rightarrow> 's \<Rightarrow> 'd \<Rightarrow> 's \<times> bool \<times> 'd option" and del :: "bool \<Rightarrow> 's \<Rightarrow> 'd \<Rightarrow> 's \<times> 'd option"
    and eq :: "'d \<Rightarrow> 'd \<Rightarrow> bool"
  assumes ins: "inv s \<Longrightarrow> count s < lim \<Longrightarrow> ins m1 m2 s d = (s', ok, old) \<Longrightarrow>
      inv s' \<and> count s' \<le> Suc (count s) \<and> old = look s d \<and> (ok \<longleftrightarrow> m1 \<or> look s d \<noteq> None) \<and>
      look s' = (\<lambda>e. if ok \<and> eq d e then Some d else look s e)"
    and del: "inv s \<Longrightarrow> count s < lim \<Longrightarrow> del m2 s d = (s', old) \<Longrightarrow>
      inv s' \<and> count s' \<le> count s \<and> old = look s d \<and> look s' = (\<lambda>e. if eq d e then None else look s e)"

datatype 'd dict_op = DInsert bool bool 'd | DDelete bool 'd | DFind 'd

datatype 'd dict_ret = DIns bool "'d option" | DOld "'d option"

fun dict_run where
  "dict_run look ins del s (DInsert m1 m2 d) = (case ins m1 m2 s d of (s', ok, old) \<Rightarrow> (s', DIns ok old))"
| "dict_run look ins del s (DDelete m2 d) = (case del m2 s d of (s', old) \<Rightarrow> (s', DOld old))"
| "dict_run look ins del s (DFind d) = (s, DOld (look s d))"

fun dict_runs where
  "dict_runs look ins del s [] = (s, [])"
| "dict_runs look ins del s (c # cs) =
     (case dict_run look ins del s c of (s, r) \<Rightarrow> map_prod id (Cons r) (dict_runs look ins del s cs))"

text \<open>The same calls on a function from data to the entry equal to it.\<close>

fun map_run :: "('d \<Rightarrow> 'd \<Rightarrow> bool) \<Rightarrow> ('d \<Rightarrow> 'd option) \<Rightarrow> 'd dict_op \<Rightarrow> ('d \<Rightarrow> 'd option) \<times> 'd dict_ret" where
  "map_run eq f (DInsert m1 m2 d) =
     (if m1 \<or> f d \<noteq> None then (\<lambda>e. if eq d e then Some d else f e, DIns True (f d)) else (f, DIns False (f d)))"
| "map_run eq f (DDelete m2 d) = (\<lambda>e. if eq d e then None else f e, DOld (f d))"
| "map_run eq f (DFind d) = (f, DOld (f d))"

fun map_runs :: "('d \<Rightarrow> 'd \<Rightarrow> bool) \<Rightarrow> ('d \<Rightarrow> 'd option) \<Rightarrow> 'd dict_op list \<Rightarrow> ('d \<Rightarrow> 'd option) \<times> 'd dict_ret list" where
  "map_runs eq f [] = (f, [])"
| "map_runs eq f (c # cs) = (case map_run eq f c of (f, r) \<Rightarrow> map_prod id (Cons r) (map_runs eq f cs))"

context dictionary begin

lemma run: 
  assumes "inv s" "count s < lim"
  shows "inv (fst (dict_run look ins del s c)) \<and> count (fst (dict_run look ins del s c)) \<le> Suc (count s) \<and>
    map_run eq (look s) c = (look (fst (dict_run look ins del s c)), snd (dict_run look ins del s c))"
proof (cases c)
  case (DInsert m1 m2 d)
  obtain s' ok old where i: "ins m1 m2 s d = (s', ok, old)" by (metis prod_cases3)
  show ?thesis using DInsert i ins [OF assms i] by auto
next
  case (DDelete m2 d)
  obtain s' old where i: "del m2 s d = (s', old)" by fastforce
  show ?thesis using DDelete i del [OF assms i] by auto
qed (use assms in simp)

lemma runs:
  "inv s \<Longrightarrow> count s + length cs \<le> lim \<Longrightarrow>
   map_runs eq (look s) cs = (look (fst (dict_runs look ins del s cs)), snd (dict_runs look ins del s cs))"
proof (induction cs arbitrary: s)
  case (Cons c cs)
  obtain s1 r where 1: "dict_run look ins del s c = (s1, r)" by fastforce
  have "count s < lim" using Cons.prems(2) by simp
  from run [OF Cons.prems(1) this, of c] 1 have s1: "inv s1" "count s1 \<le> Suc (count s)" "map_run eq (look s) c = (look s1, r)" by simp_all
  have "map_runs eq (look s1) cs = (look (fst (dict_runs look ins del s1 cs)), snd (dict_runs look ins del s1 cs))"
    using Cons.IH [OF s1(1)] s1(2) Cons.prems(2) by simp
  then show ?case using 1 s1(3) by (cases "dict_runs look ins del s1 cs") simp
qed simp

end

interpretation lh: dictionary "\<lambda>lh. lh_ok lh \<and> h_comp lh = cf" lh_retrieve h_num_items "2 ^ 59" lh_insert lh_delete "eqv cf" for cf
proof
  fix s :: "'a lhash" and m1 m2 d s' ok old
  assume "lh_ok s \<and> h_comp s = cf" "h_num_items s < 2 ^ 59" "lh_insert m1 m2 s d = (s', ok, old)"
  then show "(lh_ok s' \<and> h_comp s' = cf) \<and> h_num_items s' \<le> Suc (h_num_items s) \<and> old = lh_retrieve s d \<and>
    (ok \<longleftrightarrow> m1 \<or> lh_retrieve s d \<noteq> None) \<and> lh_retrieve s' = (\<lambda>e. if ok \<and> eqv cf d e then Some d else lh_retrieve s e)"
    using insert_ok [of s m1 m2 d s' ok old] by auto
next
  fix s :: "'a lhash" and m2 d s' old
  assume "lh_ok s \<and> h_comp s = cf" "h_num_items s < 2 ^ 59" "lh_delete m2 s d = (s', old)"
  then show "(lh_ok s' \<and> h_comp s' = cf) \<and> h_num_items s' \<le> h_num_items s \<and> old = lh_retrieve s d \<and>
    lh_retrieve s' = (\<lambda>e. if eqv cf d e then None else lh_retrieve s e)"
    using delete_ok [of s m2 d s' old] by auto
qed

lemma new_ok:
  assumes "lh_new m1 m2 hash cf = Some lh" "hash_ok cf hash"
  shows "lh_ok lh \<and> h_comp lh = cf \<and> h_num_items lh = 0 \<and> h_num_buckets lh = 16 \<and> h_callback_depth lh = 0 \<and> lh_retrieve lh = (\<lambda>_. None)"
proof -
  have lh: "lh = \<lparr>h_num_items = 0, h_buckets = replicate 16 [], h_num_buckets = 16, h_callback_depth = 0, h_comp = cf, h_hash = hash\<rparr>"
    using assms(1) by (auto simp: lh_new_def kMinNumBuckets_def split: if_splits)
  have it: "items lh = {#}" by (simp add: lh items_def concat_replicate_trivial)
  then have ok: "lh_ok lh" using assms(2) by (simp add: lh_ok_def lh apart_def placed_def kMinNumBuckets_def)
  then show ?thesis using retrieve_equals [OF ok] it lh by (auto simp: fun_eq_iff)
qed

section \<open>The length of the chains\<close>

text \<open>Before and after \<open>lh_maybe_resize\<close>, when its allocation succeeds.\<close>

definition loaded :: "'d lhash \<Rightarrow> bool" where
  "loaded lh \<longleftrightarrow> h_callback_depth lh = 0 \<and> 16 \<le> h_num_buckets lh \<and> h_num_items lh < 3 * h_num_buckets lh \<and>
     (h_num_buckets lh = 16 \<or> h_num_buckets lh \<le> h_num_items lh)"

definition nearly_loaded :: "'d lhash \<Rightarrow> bool" where
  "nearly_loaded lh \<longleftrightarrow> h_callback_depth lh = 0 \<and> 16 \<le> h_num_buckets lh \<and> h_num_items lh \<le> 3 * h_num_buckets lh \<and>
     (h_num_buckets lh = 16 \<or> h_num_buckets lh \<le> Suc (h_num_items lh)) \<and> h_num_items lh < 2 ^ 60"

lemma rebucket_num:
  assumes "n < 2 ^ 61"
  shows "h_num_buckets (lh_rebucket True lh n) = n" "h_num_items (lh_rebucket True lh n) = h_num_items lh"
    "h_callback_depth (lh_rebucket True lh n) = h_callback_depth lh"
proof -
  have "8 * n mod size_mod = 8 * n" using assms by (intro mod_less) simp
  then have "8 * n mod size_mod div 8 = n" by simp
  then show "h_num_buckets (lh_rebucket True lh n) = n" "h_num_items (lh_rebucket True lh n) = h_num_items lh"
    "h_callback_depth (lh_rebucket True lh n) = h_callback_depth lh"
    by (simp_all add: lh_rebucket_def Let_def)
qed

lemma resize_loaded:
  assumes "nearly_loaded lh"
  shows "loaded (lh_maybe_resize True lh)"
proof -
  let ?n = "h_num_items lh" and ?b = "h_num_buckets lh"
  have l: "h_callback_depth lh = 0" "16 \<le> ?b" "?n \<le> 3 * ?b" "?b = 16 \<or> ?b \<le> Suc ?n" "?n < 2 ^ 60"
    using assms by (simp_all add: nearly_loaded_def)
  have b: "?b < 2 ^ 60 + 2" using l(4,5) by auto
  consider (grow) "?n = 3 * ?b" | (shrink) "?n < ?b" "16 < ?b" | (keep) "?n < 3 * ?b" "?b \<le> ?n \<or> ?b = 16" using l(2,3) by linarith
  then show ?thesis
  proof cases
    case grow
    then have "?n div ?b = 3" using l(2) by simp
    moreover have "?b * 2 < 2 ^ 60 + 2" using grow l(5) by simp
    then have "?b * 2 mod size_mod = ?b * 2" by (intro mod_less) simp
    ultimately have r: "resize_to lh = Some (?b * 2)" using l(1,2)
      by (simp add: resize_to_def kMaxAverageChainLength_def)
    have "?b * 2 < 2 ^ 61" using grow l(5) by simp
    from rebucket_num [OF this, of lh] show ?thesis using grow l(1,2) by (simp add: lh_maybe_resize_def r loaded_def)
  next
    case shrink
    let ?m = "if ?b div 2 < 16 then 16 else ?b div 2"
    have r: "resize_to lh = Some ?m" using shrink l(1)
      by (simp add: resize_to_def kMaxAverageChainLength_def kMinAverageChainLength_def kMinNumBuckets_def Let_def)
    have "?m < 2 ^ 61" using b by auto
    from rebucket_num [OF this, of lh] show ?thesis using shrink l(1,4) by (auto simp: lh_maybe_resize_def r loaded_def)
  next
    case keep
    then have "?n div ?b < 3" by (simp add: less_mult_imp_div_less mult.commute)
    moreover have "\<not> (?n div ?b < 1 \<and> 16 < ?b)" using keep l(2) by (auto simp: div_eq_0_iff)
    ultimately have "resize_to lh = None" using l(1)
      by (auto simp: resize_to_def kMaxAverageChainLength_def kMinAverageChainLength_def kMinNumBuckets_def Let_def)
    then show ?thesis using keep l(1,2) by (auto simp: lh_maybe_resize_def loaded_def)
  qed
qed

lemma insert_loaded:
  assumes "loaded lh" "h_num_items lh < 2 ^ 59"
  shows "loaded (fst (lh_insert m1 True lh d))"
proof -
  obtain i k h where g: "get_next_ptr_and_hash lh d = (i, k, h)" by (metis prod_cases3)
  have n: "(h_num_items lh + 1) mod size_mod = h_num_items lh + 1" using assms(2) by (intro mod_less) simp
  have "nearly_loaded (lh\<lparr>h_buckets := bs, h_num_items := (h_num_items lh + 1) mod size_mod\<rparr>)" for bs
    using assms unfolding n by (auto simp: loaded_def nearly_loaded_def)
  from resize_loaded [OF this] assms(1) show ?thesis
    by (simp add: lh_insert_def g Let_def loaded_def)
qed

lemma delete_loaded:
  assumes "lh_ok lh" "loaded lh" "h_num_items lh < 2 ^ 59"
  shows "loaded (fst (lh_delete True lh d))"
proof -
  obtain i k h where g: "get_next_ptr_and_hash lh d = (i, k, h)" by (metis prod_cases3)
  show ?thesis
  proof (rule find_cases [OF assms(1) g])
    assume "k = length (h_buckets lh ! i)"
    then show ?thesis using assms(2) by (simp add: lh_delete_def g)
  next
    assume f: "k < length (h_buckets lh ! i)" "equals (h_comp lh) d (items lh) = {#h_buckets lh ! i ! k#}"
    then have "items lh \<noteq> {#}" by auto
    then have "0 < h_num_items lh" using assms(1) by (simp add: lh_ok_def nonempty_has_size)
    then obtain n where n: "h_num_items lh = Suc n" by (cases "h_num_items lh") auto
    have "(h_num_items lh + size_mod - 1) mod size_mod = n" using dec_mod [OF n [symmetric]] assms(3) n by simp
    then have "nearly_loaded (lh\<lparr>h_buckets := bs, h_num_items := (h_num_items lh + size_mod - 1) mod size_mod\<rparr>)" for bs
      using assms(2,3) n by (auto simp: loaded_def nearly_loaded_def)
    from resize_loaded [OF this] f(1) show ?thesis by (simp add: lh_delete_def g Let_def)
  qed
qed

fun array_memory :: "'d dict_op \<Rightarrow> bool" where
  "array_memory (DInsert m1 m2 d) = m2"
| "array_memory (DDelete m2 d) = m2"
| "array_memory (DFind d) = True"

lemma runs_loaded:
  assumes "lh_ok lh" "loaded lh" "h_num_items lh + length cs \<le> 2 ^ 59" "list_all array_memory cs"
  shows "loaded (fst (dict_runs lh_retrieve lh_insert lh_delete lh cs))"
  using assms
proof (induction cs arbitrary: lh)
  case (Cons c cs)
  obtain lh1 r where 1: "dict_run lh_retrieve lh_insert lh_delete lh c = (lh1, r)" by fastforce
  have n: "h_num_items lh < 2 ^ 59" using Cons.prems(3) by simp
  from lh.run [of lh, OF _ n, of _ c] 1 Cons.prems(1) have lh1: "lh_ok lh1" "h_num_items lh1 \<le> Suc (h_num_items lh)" by auto
  have "loaded lh1"
  proof (cases c)
    case (DInsert m1 m2 d)
    then show ?thesis using insert_loaded [OF Cons.prems(2) n, of m1 d] 1 Cons.prems(4) by (auto split: prod.splits)
  next
    case (DDelete m2 d)
    then show ?thesis using delete_loaded [OF Cons.prems(1,2) n, of d] 1 Cons.prems(4) by (auto split: prod.splits)
  next
    case (DFind d)
    then show ?thesis using 1 Cons.prems(2) by simp
  qed
  from Cons.IH [OF lh1(1) this] lh1(2) Cons.prems(3,4) 1 show ?case by (auto split: prod.splits)
qed simp

section \<open>The properties\<close>

text \<open>C39: A hash table is a dictionary: with a hash that agrees with the comparison, any sequence of (at most \<open>2 ^ 59\<close>)
  insertions, deletions and look-ups on a new table returns what the same operations on a function return, whatever
  allocations fail and whenever the table is resized. Only the insertion of a new entry fails, when there is no
  memory for it.\<close>

theorem lh_refines_dictionary:
  assumes "lh_new m1 m2 hash cf = Some lh" "hash_ok cf hash" "length cs \<le> 2 ^ 59"
  shows "snd (dict_runs lh_retrieve lh_insert lh_delete lh cs) = snd (map_runs (eqv cf) (\<lambda>_. None) cs)"
  using lh.runs [of lh cf cs] new_ok [OF assms(1,2)] assms(3) by simp

text \<open>C40: Chains stay short and the table small: with a hash that agrees with the comparison, and while the array can be
  reallocated, after any sequence of at most \<open>2 ^ 59\<close> operations on a new table there are fewer than three items per bucket (the quotient the code compares with 2 drops the rest, so 47 items in
  16 buckets stay there), and there are 16 buckets or no more buckets than items.\<close>

theorem lh_load_bounded:
  assumes "lh_new m1 m2 hash cf = Some lh" "hash_ok cf hash" "length cs \<le> 2 ^ 59" "list_all array_memory cs"
    and "dict_runs lh_retrieve lh_insert lh_delete lh cs = (lh', rs)"
  shows "lh_num_items lh' < 3 * h_num_buckets lh' \<and> lh_num_items lh' div h_num_buckets lh' \<le> kMaxAverageChainLength \<and>
    h_num_buckets lh' \<le> max kMinNumBuckets (lh_num_items lh')"
proof -
  note n = new_ok [OF assms(1,2)]
  have "loaded lh" using n by (simp add: loaded_def)
  with runs_loaded [of lh cs] n assms(3-5) have l: "loaded lh'" by simp
  then have "h_num_items lh' div h_num_buckets lh' < 3" by (simp add: loaded_def less_mult_imp_div_less mult.commute)
  then show ?thesis using l by (auto simp: loaded_def kMaxAverageChainLength_def kMinNumBuckets_def lh_num_items_def)
qed

section \<open>An example\<close>

text \<open>Pairs of a key and a number; the hash sends the keys of a bucket to a few chains.\<close>

definition ex_key_cmp :: "nat \<times> nat \<Rightarrow> nat \<times> nat \<Rightarrow> int" where
  "ex_key_cmp a b = int (fst a) - int (fst b)"

definition ex_hash :: "nat \<times> nat \<Rightarrow> u32" where
  "ex_hash a = word_of_nat (fst a mod 4)"

definition ex_table :: "(nat \<times> nat) lhash" where
  "ex_table = \<lparr>h_num_items = 0, h_buckets = [[], [], [], [], [], [], [], [], [], [], [], [], [], [], [], []], h_num_buckets = 16,
     h_callback_depth = 0, h_comp = ex_key_cmp, h_hash = ex_hash\<rparr>"

definition ex_dict_ops :: "(nat \<times> nat) dict_op list" where
  "ex_dict_ops = [DInsert True True (1, 10), DInsert True True (5, 50), DInsert False True (1, 11), DInsert False True (2, 20),
     DFind (1, 0), DDelete True (5, 0), DFind (5, 0)]"

lemma ex_hash_ok: "hash_ok ex_key_cmp ex_hash"
  by (auto simp: hash_ok_def eqv_def ex_key_cmp_def ex_hash_def intro!: equivpI reflpI sympI transpI)

lemma ex_table_new: "lh_new True True ex_hash ex_key_cmp = Some ex_table"
  by (simp add: lh_new_def ex_table_def kMinNumBuckets_def numeral_eq_Suc)

theorem lh_refines_dictionary_witness:
  "snd (dict_runs lh_retrieve lh_insert lh_delete ex_table ex_dict_ops) =
     [DIns True None, DIns True None, DIns True (Some (1, 10)), DIns False None, DOld (Some (1, 11)), DOld (Some (5, 50)), DOld None]"
proof -
  have "snd (map_runs (eqv ex_key_cmp) (\<lambda>_. None) ex_dict_ops) =
     [DIns True None, DIns True None, DIns True (Some (1, 10)), DIns False None, DOld (Some (1, 11)), DOld (Some (5, 50)), DOld None]"
    by (simp add: ex_dict_ops_def eqv_def ex_key_cmp_def)
  with lh_refines_dictionary [OF ex_table_new ex_hash_ok, of ex_dict_ops] show ?thesis by (simp add: ex_dict_ops_def)
qed

theorem lh_load_bounded_witness:
  "lh_num_items (fst (dict_runs lh_retrieve lh_insert lh_delete ex_table ex_dict_ops)) <
     3 * h_num_buckets (fst (dict_runs lh_retrieve lh_insert lh_delete ex_table ex_dict_ops))"
proof -
  have "list_all array_memory ex_dict_ops" "length ex_dict_ops \<le> 2 ^ 59" by (simp_all add: ex_dict_ops_def)
  from lh_load_bounded [OF ex_table_new ex_hash_ok this(2,1) surjective_pairing] show ?thesis by blast
qed

end
