(* ===== verification/Bn.thy ===== *)
theory Bn imports Base64 begin

text \<open>
  Big numbers, \<open>crypto/fipsmodule/bn\<close>: the representation, the words under it, and the functions of
  \<open>bn.c\<close>, \<open>cmp.c\<close> and \<open>ctx.c\<close>. A \<open>BIGNUM\<close> is an object of a store, at an address \<open>h\<close>; the arguments of
  a function are addresses and may be equal, as in the code. Each \<open>BIGNUM\<close> owns the array its field \<open>d\<close> points to, so
  a pointer to words is the address of the owner and an offset. The words are 64 bits wide, and the double words
  (\<open>BN_ULLONG\<close>) 128, as on all targets of the application. What the calls of \<open>malloc\<close> that are to come return is part of
  the state: nothing, or a block with any contents. The address 0 is the constant that \<open>BN_value_one\<close> returns.
\<close>

type_synonym limb = u64
type_synonym dlimb = "128 word"

record bignum =
  b_d :: "limb list"
  b_width :: nat
  b_dmax :: nat
  b_neg :: bool
  b_static :: bool
  b_malloced :: bool

text \<open>The pool of temporaries, \<open>BN_CTX\<close>: the addresses of the first \<open>BIGNUM\<close> of each item, the position of the
  current item (\<open>None\<close> for NULL), how many are in use and allocated, and the stack of frames.\<close>

record bn_ctx =
  x_items :: "nat list"
  x_current :: "nat option"
  x_pool_used :: nat
  x_size :: nat
  x_indexes :: "nat list"
  x_alloc :: nat
  x_used :: nat
  x_err_stack :: nat
  x_too_many :: bool

record bns =
  s_bn :: "nat \<Rightarrow> bignum"
  s_malloc :: "nat \<Rightarrow> (nat \<Rightarrow> limb) option"
  s_next :: nat
  s_ctx :: bn_ctx

type_synonym ptr = "nat \<times> nat"

section \<open>The store\<close>

definition upd :: "bns \<Rightarrow> nat \<Rightarrow> (bignum \<Rightarrow> bignum) \<Rightarrow> bns" where
  "upd st h f = st\<lparr>s_bn := (s_bn st)(h := f (s_bn st h))\<rparr>"

definition rd :: "bns \<Rightarrow> ptr \<Rightarrow> nat \<Rightarrow> limb" where
  "rd st p i = b_d (s_bn st (fst p)) ! (snd p + i)"

definition wr :: "bns \<Rightarrow> ptr \<Rightarrow> nat \<Rightarrow> limb \<Rightarrow> bns" where
  "wr st p i w = upd st (fst p) (\<lambda>b. b\<lparr>b_d := (b_d b)[snd p + i := w]\<rparr>)"

text \<open>Words that are read or written as a block: \<open>memcpy\<close>, \<open>memmove\<close>, \<open>memset\<close>.\<close>

definition words :: "bns \<Rightarrow> ptr \<Rightarrow> nat \<Rightarrow> limb list" where
  "words st p n = take n (drop (snd p) (b_d (s_bn st (fst p))))"

definition put :: "bns \<Rightarrow> ptr \<Rightarrow> limb list \<Rightarrow> bns" where
  "put st p ws = upd st (fst p) (\<lambda>b. b\<lparr>b_d := splice (b_d b) (snd p) ws\<rparr>)"

definition advance :: "ptr \<Rightarrow> nat \<Rightarrow> ptr" where
  "advance p k = (fst p, snd p + k)"

definition next_malloc :: "bns \<Rightarrow> (nat \<Rightarrow> limb) option \<times> bns" where
  "next_malloc st = (s_malloc st 0, st\<lparr>s_malloc := \<lambda>k. s_malloc st (Suc k)\<rparr>)"

text \<open>\<open>set_width\<close> and \<open>set_neg\<close> are assignments to fields.\<close>

definition set_width :: "bns \<Rightarrow> nat \<Rightarrow> nat \<Rightarrow> bns" where
  "set_width st h n = upd st h (\<lambda>b. b\<lparr>b_width := n\<rparr>)"

definition set_neg :: "bns \<Rightarrow> nat \<Rightarrow> bool \<Rightarrow> bns" where
  "set_neg st h v = upd st h (\<lambda>b. b\<lparr>b_neg := v\<rparr>)"

section \<open>\<open>bn.c\<close>\<close>

definition BN_init :: bignum where
  "BN_init = \<lparr>b_d = [], b_width = 0, b_dmax = 0, b_neg = False, b_static = False, b_malloced = False\<rparr>"

definition BN_new :: "bns \<Rightarrow> nat option \<times> bns" where
  "BN_new st =
     (case next_malloc st of
        (None, st) \<Rightarrow> (None, st)
      | (Some _, st) \<Rightarrow>
          (Some (s_next st),
           upd (st\<lparr>s_next := s_next st + 1\<rparr>) (s_next st) (\<lambda>_. BN_init\<lparr>b_malloced := True\<rparr>)))"

definition BN_value_one :: bignum where
  "BN_value_one = \<lparr>b_d = [1], b_width = 1, b_dmax = 1, b_neg = False, b_static = True, b_malloced = False\<rparr>"

fun min_width :: "limb list \<Rightarrow> nat \<Rightarrow> nat" where
  "min_width d 0 = 0"
| "min_width d (Suc n) = (if d ! n = 0 then min_width d n else Suc n)"

definition bn_minimal_width :: "bignum \<Rightarrow> nat" where
  "bn_minimal_width b = min_width (b_d b) (b_width b)"

definition bn_set_minimal_width :: "bns \<Rightarrow> nat \<Rightarrow> bns" where
  "bn_set_minimal_width st h =
     (let st = set_width st h (bn_minimal_width (s_bn st h))
      in if b_width (s_bn st h) = 0 then set_neg st h False else st)"

definition or_words :: "limb list \<Rightarrow> nat \<Rightarrow> nat \<Rightarrow> limb \<Rightarrow> limb" where
  "or_words d i j msk = foldl (\<lambda>m k. m OR d ! k) msk [i..<j]"

definition bn_fits_in_words :: "bignum \<Rightarrow> nat \<Rightarrow> bool" where
  "bn_fits_in_words b num = (or_words (b_d b) num (b_width b) 0 = 0)"

definition BN_is_zero :: "bignum \<Rightarrow> bool" where
  "BN_is_zero b = bn_fits_in_words b 0"

definition bn_wexpand :: "bns \<Rightarrow> nat \<Rightarrow> nat \<Rightarrow> bool \<times> bns" where
  "bn_wexpand st h ws =
     (if ws \<le> b_dmax (s_bn st h) then (True, st)
      else if ws > INT_MAX div (4 * 64) then (False, st)
      else if b_static (s_bn st h) then (False, st)
      else
        case next_malloc st of
          (None, st) \<Rightarrow> (False, st)
        | (Some g, st) \<Rightarrow>
            (True, upd st h (\<lambda>b. b\<lparr>b_d := splice (map g [0..<ws]) 0 (take (b_width b) (b_d b)), b_dmax := ws\<rparr>)))"

definition bn_expand :: "bns \<Rightarrow> nat \<Rightarrow> nat \<Rightarrow> bool \<times> bns" where
  "bn_expand st h bits =
     (if (bits + 64 - 1) mod size_mod < bits then (False, st)
      else bn_wexpand st h ((bits + 64 - 1) mod size_mod div 64))"

definition bn_resize_words :: "bns \<Rightarrow> nat \<Rightarrow> nat \<Rightarrow> bool \<times> bns" where
  "bn_resize_words st h ws =
     (if b_width (s_bn st h) \<le> ws then
        chk (bn_wexpand st h ws) (\<lambda>st.
          let w = b_width (s_bn st h)
          in (True, set_width (put st (h, w) (replicate (ws - w) 0)) h ws))
      else if \<not> bn_fits_in_words (s_bn st h) ws then (False, st)
      else (True, set_width st h ws))"

text \<open>\<open>BN_copy\<close> and \<open>BN_dup\<close>; the code returns the address instead of the boolean.\<close>

definition BN_copy :: "bns \<Rightarrow> nat \<Rightarrow> nat \<Rightarrow> bool \<times> bns" where
  "BN_copy st dest src =
     (if src = dest then (True, st)
      else
        chk (bn_wexpand st dest (b_width (s_bn st src))) (\<lambda>st.
          let st = put st (dest, 0) (words st (src, 0) (b_width (s_bn st src)));
              st = set_width st dest (b_width (s_bn st src))
          in (True, set_neg st dest (b_neg (s_bn st src)))))"

text \<open>\<open>BN_free\<close> and \<open>BN_clear_free\<close> only give memory back, and are left out.\<close>

definition BN_dup :: "bns \<Rightarrow> nat \<Rightarrow> nat option \<times> bns" where
  "BN_dup st src =
     (case BN_new st of
        (None, st) \<Rightarrow> (None, st)
      | (Some copy, st) \<Rightarrow>
          (case BN_copy st copy src of (ok, st) \<Rightarrow> if ok then (Some copy, st) else (None, st)))"

definition BN_clear :: "bns \<Rightarrow> nat \<Rightarrow> bns" where
  "BN_clear st h = upd st h (\<lambda>b. b\<lparr>b_d := replicate (b_dmax b) 0, b_width := 0, b_neg := False\<rparr>)"

definition BN_zero :: "bns \<Rightarrow> nat \<Rightarrow> bns" where
  "BN_zero st h = upd st h (\<lambda>b. b\<lparr>b_width := 0, b_neg := False\<rparr>)"

definition BN_set_word :: "bns \<Rightarrow> nat \<Rightarrow> limb \<Rightarrow> bool \<times> bns" where
  "BN_set_word st h v =
     (if v = 0 then (True, BN_zero st h)
      else
        chk (bn_wexpand st h 1) (\<lambda>st. (True, set_width (wr (set_neg st h False) (h, 0) 0 v) h 1)))"

definition BN_one :: "bns \<Rightarrow> nat \<Rightarrow> bool \<times> bns" where
  "BN_one st h = BN_set_word st h 1"

definition BN_set_u64 :: "bns \<Rightarrow> nat \<Rightarrow> u64 \<Rightarrow> bool \<times> bns" where
  "BN_set_u64 st h v = BN_set_word st h v"

definition bn_set_words :: "bns \<Rightarrow> nat \<Rightarrow> limb list \<Rightarrow> bool \<times> bns" where
  "bn_set_words st h ws =
     chk (bn_wexpand st h (length ws)) (\<lambda>st.
       (True, set_neg (set_width (put st (h, 0) ws) h (length ws)) h False))"

definition bn_copy_words :: "nat \<Rightarrow> bignum \<Rightarrow> limb list option" where
  "bn_copy_words num b =
     (if b_neg b then None
      else if b_width b > num \<and> \<not> bn_fits_in_words b num then None
      else
        let w = (if b_width b > num then num else b_width b)
        in Some (splice (replicate num 0) 0 (take w (b_d b))))"

definition BN_is_negative :: "bignum \<Rightarrow> bool" where
  "BN_is_negative b = b_neg b"

definition BN_set_negative :: "bns \<Rightarrow> nat \<Rightarrow> bool \<Rightarrow> bns" where
  "BN_set_negative st h sign = set_neg st h (sign \<and> \<not> BN_is_zero (s_bn st h))"

text \<open>One block of \<open>BN_num_bits_word\<close>; the last block does not update \<open>l\<close>.\<close>

definition num_bits_block :: "nat \<Rightarrow> nat \<times> limb \<Rightarrow> nat \<times> limb" where
  "num_bits_block k s =
     (case s of (bits, l) \<Rightarrow>
        let x = drop_bit k l;
            msk = 0 - x;
            msk = 0 - drop_bit 63 msk
        in (bits + unat (word_of_nat k AND msk), l XOR ((x XOR l) AND msk)))"

definition BN_num_bits_word :: "limb \<Rightarrow> nat" where
  "BN_num_bits_word l =
     fst (num_bits_block 1 (num_bits_block 2 (num_bits_block 4 (num_bits_block 8
            (num_bits_block 16 (num_bits_block 32 (of_bool (l \<noteq> 0), l)))))))"

definition BN_num_bits :: "bignum \<Rightarrow> nat" where
  "BN_num_bits b =
     (let w = bn_minimal_width b
      in if w = 0 then 0 else (w - 1) * 64 + BN_num_bits_word (b_d b ! (w - 1)))"

definition BN_num_bytes :: "bignum \<Rightarrow> nat" where
  "BN_num_bytes b = (BN_num_bits b + 7) div 8"

section \<open>\<open>cmp.c\<close>\<close>

definition constant_time_lt_w :: "u64 \<Rightarrow> u64 \<Rightarrow> u64" where
  "constant_time_lt_w a b = constant_time_msb_w (a XOR ((a XOR b) OR ((a - b) XOR a)))"

definition constant_time_select_int :: "u64 \<Rightarrow> int \<Rightarrow> int \<Rightarrow> int" where
  "constant_time_select_int msk a b =
     signed_take_bit 31 (uint (constant_time_select_w msk (word_of_int a) (word_of_int b)))"

definition bn_cmp_words_consttime :: "limb list \<Rightarrow> nat \<Rightarrow> limb list \<Rightarrow> nat \<Rightarrow> int" where
  "bn_cmp_words_consttime a a_len b b_len =
     (let mn = (if a_len < b_len then a_len else b_len);
          ret = foldl (\<lambda>ret i.
                   let eq = constant_time_eq_w (a ! i) (b ! i);
                       lt = constant_time_lt_w (a ! i) (b ! i)
                   in constant_time_select_int eq ret (constant_time_select_int lt (-1) 1)) 0 [0..<mn]
      in if a_len < b_len then
           constant_time_select_int (constant_time_is_zero_w (or_words b a_len b_len 0)) ret (-1)
         else if b_len < a_len then
           constant_time_select_int (constant_time_is_zero_w (or_words a b_len a_len 0)) ret 1
         else ret)"

definition BN_ucmp :: "bignum \<Rightarrow> bignum \<Rightarrow> int" where
  "BN_ucmp a b = bn_cmp_words_consttime (b_d a) (b_width a) (b_d b) (b_width b)"

fun BN_cmp :: "bignum option \<Rightarrow> bignum option \<Rightarrow> int" where
  "BN_cmp None None = 0"
| "BN_cmp (Some a) None = -1"
| "BN_cmp None (Some b) = 1"
| "BN_cmp (Some a) (Some b) =
     (if b_neg a \<noteq> b_neg b then (if b_neg a then -1 else 1)
      else
        let ret = BN_ucmp a b
        in if b_neg a then - ret else ret)"

definition bn_less_than_words :: "limb list \<Rightarrow> limb list \<Rightarrow> nat \<Rightarrow> bool" where
  "bn_less_than_words a b n = (bn_cmp_words_consttime a n b n < 0)"

definition BN_abs_is_word :: "bignum \<Rightarrow> limb \<Rightarrow> bool" where
  "BN_abs_is_word b w =
     (if b_width b = 0 then w = 0 else or_words (b_d b) 1 (b_width b) (b_d b ! 0 XOR w) = 0)"

definition BN_cmp_word :: "bignum \<Rightarrow> limb \<Rightarrow> int" where
  "BN_cmp_word a w =
     BN_cmp (Some a) (Some (BN_init\<lparr>b_d := [w], b_width := of_bool (w > 0), b_dmax := 1, b_static := True\<rparr>))"

definition BN_is_one :: "bignum \<Rightarrow> bool" where
  "BN_is_one b = (\<not> b_neg b \<and> BN_abs_is_word b 1)"

definition BN_is_word :: "bignum \<Rightarrow> limb \<Rightarrow> bool" where
  "BN_is_word b w = (BN_abs_is_word b w \<and> (w = 0 \<or> \<not> b_neg b))"

definition BN_is_odd :: "bignum \<Rightarrow> bool" where
  "BN_is_odd b = (b_width b > 0 \<and> b_d b ! 0 AND 1 = 1)"

definition BN_is_pow2 :: "bignum \<Rightarrow> bool" where
  "BN_is_pow2 b =
     (let w = bn_minimal_width b
      in if w = 0 \<or> b_neg b then False
         else if list_ex (\<lambda>i. b_d b ! i \<noteq> 0) [0..<w - 1] then False
         else b_d b ! (w - 1) AND (b_d b ! (w - 1) - 1) = 0)"

definition BN_equal_consttime :: "bignum \<Rightarrow> bignum \<Rightarrow> bool" where
  "BN_equal_consttime a b =
     (let msk = or_words (b_d b) (b_width a) (b_width b) 0;
          msk = or_words (b_d a) (b_width b) (b_width a) msk;
          mn = (if b_width a < b_width b then b_width a else b_width b);
          msk = foldl (\<lambda>m i. m OR (b_d a ! i XOR b_d b ! i)) msk [0..<mn];
          msk = msk OR of_bool (b_neg a \<noteq> b_neg b)
      in msk = 0)"

section \<open>\<open>ctx.c\<close>\<close>

abbreviation (input) BN_CTX_POOL_SIZE :: nat where
  "BN_CTX_POOL_SIZE \<equiv> 16"

abbreviation (input) BN_CTX_START_FRAMES :: nat where
  "BN_CTX_START_FRAMES \<equiv> 32"

definition empty_ctx :: bn_ctx where
  "empty_ctx = \<lparr>x_items = [], x_current = None, x_pool_used = 0, x_size = 0, x_indexes = [], x_alloc = 0,
     x_used = 0, x_err_stack = 0, x_too_many = False\<rparr>"

text \<open>The state holds one \<open>BN_CTX\<close>, which the functions with such an argument use; \<open>BN_CTX_new\<close> is an assignment to it.\<close>

definition on_ctx :: "bns \<Rightarrow> (bn_ctx \<Rightarrow> bn_ctx) \<Rightarrow> bns" where
  "on_ctx st f = st\<lparr>s_ctx := f (s_ctx st)\<rparr>"

definition BN_CTX_new :: "bns \<Rightarrow> bool \<times> bns" where
  "BN_CTX_new st =
     (case next_malloc st of
        (None, st) \<Rightarrow> (False, st)
      | (Some _, st) \<Rightarrow> (True, st\<lparr>s_ctx := empty_ctx\<rparr>))"

text \<open>The indexes on the stack are the list; \<open>x_alloc\<close> is the size of the array. An index is written behind the last one.\<close>

definition BN_STACK_push :: "bns \<Rightarrow> nat \<Rightarrow> bool \<times> bns" where
  "BN_STACK_push st idx =
     (let x = s_ctx st;
          push = (\<lambda>st. (True, on_ctx st (\<lambda>x. x\<lparr>x_indexes := x_indexes x @ [idx]\<rparr>)))
      in if length (x_indexes x) = x_alloc x then
           case next_malloc st of
             (None, st) \<Rightarrow> (False, st)
           | (Some _, st) \<Rightarrow>
               push (on_ctx st (\<lambda>x. x\<lparr>x_alloc := if x_alloc x \<noteq> 0 then x_alloc x * 3 div 2 else BN_CTX_START_FRAMES\<rparr>))
         else push st)"

definition BN_STACK_pop :: "bns \<Rightarrow> nat \<times> bns" where
  "BN_STACK_pop st = (last (x_indexes (s_ctx st)), on_ctx st (\<lambda>x. x\<lparr>x_indexes := butlast (x_indexes x)\<rparr>))"

definition BN_POOL_get :: "bns \<Rightarrow> nat option \<times> bns" where
  "BN_POOL_get st =
     (let x = s_ctx st
      in if x_pool_used x = x_size x then
           case next_malloc st of
             (None, st) \<Rightarrow> (None, st)
           | (Some _, st) \<Rightarrow>
               let item = s_next st;
                   st = st\<lparr>s_next := item + BN_CTX_POOL_SIZE\<rparr>;
                   st = foldl (\<lambda>st i. upd st (item + i) (\<lambda>_. BN_init)) st [0..<BN_CTX_POOL_SIZE];
                   st = on_ctx st (\<lambda>x. x\<lparr>x_items := x_items x @ [item], x_current := Some (length (x_items x)),
                          x_size := x_size x + BN_CTX_POOL_SIZE, x_pool_used := x_pool_used x + 1\<rparr>)
               in (Some item, st)
         else
           let cur = (if x_pool_used x = 0 then Some 0
                      else if x_pool_used x mod BN_CTX_POOL_SIZE = 0 then map_option Suc (x_current x)
                      else x_current x)
           in (Some (x_items x ! the cur + x_pool_used x mod BN_CTX_POOL_SIZE),
               on_ctx st (\<lambda>x. x\<lparr>x_current := cur, x_pool_used := x_pool_used x + 1\<rparr>)))"

text \<open>The loop of \<open>BN_POOL_release\<close>; the item before the first one is NULL.\<close>

fun pool_release_loop :: "nat \<Rightarrow> nat \<Rightarrow> nat option \<Rightarrow> nat option" where
  "pool_release_loop 0 offset cur = cur"
| "pool_release_loop (Suc num) offset cur =
     (if offset = 0 then
        pool_release_loop num (BN_CTX_POOL_SIZE - 1) (case cur of Some (Suc k) \<Rightarrow> Some k | _ \<Rightarrow> None)
      else pool_release_loop num (offset - 1) cur)"

definition BN_POOL_release :: "bns \<Rightarrow> nat \<Rightarrow> bns" where
  "BN_POOL_release st num =
     on_ctx st (\<lambda>x. x\<lparr>x_pool_used := x_pool_used x - num,
       x_current := pool_release_loop num ((x_pool_used x - 1) mod BN_CTX_POOL_SIZE) (x_current x)\<rparr>)"

definition BN_CTX_start :: "bns \<Rightarrow> bns" where
  "BN_CTX_start st =
     (let x = s_ctx st;
          err = (\<lambda>st. on_ctx st (\<lambda>x. x\<lparr>x_err_stack := x_err_stack x + 1\<rparr>))
      in if x_err_stack x \<noteq> 0 \<or> x_too_many x then err st
         else case BN_STACK_push st (x_used x) of (ok, st) \<Rightarrow> if ok then st else err st)"

definition BN_CTX_get :: "bns \<Rightarrow> nat option \<times> bns" where
  "BN_CTX_get st =
     (let x = s_ctx st
      in if x_err_stack x \<noteq> 0 \<or> x_too_many x then (None, st)
         else
           case BN_POOL_get st of
             (None, st) \<Rightarrow> (None, on_ctx st (\<lambda>x. x\<lparr>x_too_many := True\<rparr>))
           | (Some h, st) \<Rightarrow> (Some h, on_ctx (BN_zero st h) (\<lambda>x. x\<lparr>x_used := x_used x + 1\<rparr>)))"

definition BN_CTX_end :: "bns \<Rightarrow> bns" where
  "BN_CTX_end st =
     (if x_err_stack (s_ctx st) \<noteq> 0 then on_ctx st (\<lambda>x. x\<lparr>x_err_stack := x_err_stack x - 1\<rparr>)
      else
        case BN_STACK_pop st of (fp, st) \<Rightarrow>
          let st = (if fp < x_used (s_ctx st) then BN_POOL_release st (x_used (s_ctx st) - fp) else st)
          in on_ctx st (\<lambda>x. x\<lparr>x_used := fp, x_too_many := False\<rparr>))"

end
