(* ===== verification/BnWords.thy ===== *)
theory BnWords imports Bn begin

text \<open>
  The functions on arrays of words under the big numbers: \<open>generic.c\<close>, and the parts of \<open>bn.c\<close>, \<open>shift.c\<close> and
  \<open>mul.c\<close> that work on pointers to words. Every step of a loop reads and writes the store, in the
  order of the code, since results and arguments may share memory. The build defines \<open>OPENSSL_NO_ASM\<close> and
  has 128-bit integers, which selects the variants with \<open>BN_ULLONG\<close>.
\<close>

text \<open>A loop that the code unrolls four times.\<close>

fun iter4 :: "('s \<Rightarrow> 's) \<Rightarrow> nat \<Rightarrow> 's \<Rightarrow> 's" where
  "iter4 f n s = (if n \<ge> 4 then iter4 f (n - 4) (f (f (f (f s)))) else (f ^^ n) s)"

declare iter4.simps [simp del]

text \<open>One step of a loop that writes the word \<open>i\<close> at \<open>r\<close> and hands on a carry.\<close>

definition word_step :: "(bns \<Rightarrow> nat \<Rightarrow> 'c \<Rightarrow> limb \<times> 'c) \<Rightarrow> ptr \<Rightarrow> nat \<times> bns \<times> 'c \<Rightarrow> nat \<times> bns \<times> 'c" where
  "word_step f r s = (case s of (i, st, c) \<Rightarrow> case f st i c of (w, c) \<Rightarrow> (Suc i, wr st r i w, c))"

definition Lw :: "dlimb \<Rightarrow> limb" where
  "Lw t = ucast t"

definition Hw :: "dlimb \<Rightarrow> limb" where
  "Hw t = ucast (drop_bit 64 t)"

section \<open>\<open>generic.c\<close>\<close>

definition mul_add :: "limb \<Rightarrow> limb \<Rightarrow> limb \<Rightarrow> limb \<Rightarrow> limb \<times> limb" where
  "mul_add r a w c = (let t = ucast w * ucast a + ucast r + ucast c in (Lw t, Hw t))"

definition mul_c :: "limb \<Rightarrow> limb \<Rightarrow> limb \<Rightarrow> limb \<times> limb" where
  "mul_c a w c = (let t = ucast w * ucast a + ucast c in (Lw t, Hw t))"

definition sqr :: "limb \<Rightarrow> limb \<times> limb" where
  "sqr a = (let t = ucast a * ucast a in (Lw t, Hw t))"

definition bn_mul_add_words :: "bns \<Rightarrow> ptr \<Rightarrow> ptr \<Rightarrow> nat \<Rightarrow> limb \<Rightarrow> limb \<times> bns" where
  "bn_mul_add_words st rp ap num w =
     (case iter4 (word_step (\<lambda>st i c. mul_add (rd st rp i) (rd st ap i) w c) rp) num (0, st, 0) of
        (_, st, c1) \<Rightarrow> (c1, st))"

definition bn_mul_words :: "bns \<Rightarrow> ptr \<Rightarrow> ptr \<Rightarrow> nat \<Rightarrow> limb \<Rightarrow> limb \<times> bns" where
  "bn_mul_words st rp ap num w =
     (case iter4 (word_step (\<lambda>st i c. mul_c (rd st ap i) w c) rp) num (0, st, 0) of
        (_, st, c1) \<Rightarrow> (c1, st))"

definition sqr_step :: "ptr \<Rightarrow> ptr \<Rightarrow> nat \<times> bns \<Rightarrow> nat \<times> bns" where
  "sqr_step r a s =
     (case s of (i, st) \<Rightarrow>
        case sqr (rd st a i) of (r0, r1) \<Rightarrow> (Suc i, wr (wr st r (2 * i) r0) r (2 * i + 1) r1))"

definition bn_sqr_words :: "bns \<Rightarrow> ptr \<Rightarrow> ptr \<Rightarrow> nat \<Rightarrow> bns" where
  "bn_sqr_words st r a n = snd (iter4 (sqr_step r a) n (0, st))"

definition bn_add_words :: "bns \<Rightarrow> ptr \<Rightarrow> ptr \<Rightarrow> ptr \<Rightarrow> nat \<Rightarrow> limb \<times> bns" where
  "bn_add_words st r a b n =
     (case iter4 (word_step (\<lambda>st i (ll :: dlimb).
             let ll = ll + (ucast (rd st a i) + ucast (rd st b i)) in (ucast ll, drop_bit 64 ll)) r) n (0, st, 0) of
        (_, st, ll) \<Rightarrow> (ucast ll, st))"

definition bn_sub_words :: "bns \<Rightarrow> ptr \<Rightarrow> ptr \<Rightarrow> ptr \<Rightarrow> nat \<Rightarrow> limb \<times> bns" where
  "bn_sub_words st r a b n =
     (case iter4 (word_step (\<lambda>st i c.
             let t1 = rd st a i; t2 = rd st b i
             in (t1 - t2 - c, if t1 \<noteq> t2 then of_bool (t1 < t2) else c)) r) n (0, st, 0) of
        (_, st, c) \<Rightarrow> (c, st))"

text \<open>The column accumulators of the comba multiplications: three words, the lowest first.\<close>

type_synonym acc = "limb \<times> limb \<times> limb"

definition mul_add_c :: "limb \<Rightarrow> limb \<Rightarrow> acc \<Rightarrow> acc" where
  "mul_add_c a b c =
     (case c of (c0, c1, c2) \<Rightarrow>
        let t = ucast a * ucast b; t = t + ucast c0; c0 = Lw t; hi = Hw t; c1 = c1 + hi
        in (c0, c1, if c1 < hi then c2 + 1 else c2))"

definition mul_add_c2 :: "limb \<Rightarrow> limb \<Rightarrow> acc \<Rightarrow> acc" where
  "mul_add_c2 a b c =
     (case c of (c0, c1, c2) \<Rightarrow>
        let t = ucast a * ucast b; tt = t + ucast c0; c0 = Lw tt; hi = Hw tt; c1 = c1 + hi;
            c2 = (if c1 < hi then c2 + 1 else c2);
            t = t + ucast c0; c0 = Lw t; hi = Hw t; c1 = c1 + hi
        in (c0, c1, if c1 < hi then c2 + 1 else c2))"

definition sqr_add_c :: "limb \<Rightarrow> acc \<Rightarrow> acc" where
  "sqr_add_c a c = mul_add_c a a c"

definition sqr_add_c2 :: "limb \<Rightarrow> limb \<Rightarrow> acc \<Rightarrow> acc" where
  "sqr_add_c2 a b c = mul_add_c2 a b c"

text \<open>The code is one call of the macros for each product, column by column: the accumulators change places and the
  one that becomes the highest is cleared. The lists are the products in the order of the code.\<close>

fun comba :: "(bns \<Rightarrow> nat \<times> nat \<Rightarrow> acc \<Rightarrow> acc) \<Rightarrow> ptr \<Rightarrow> nat \<Rightarrow> (nat \<times> nat) list list \<Rightarrow> bns \<Rightarrow> acc \<Rightarrow> bns" where
  "comba f r k [] st c = wr st r k (fst c)"
| "comba f r k (col # cols) st c =
     (case foldl (\<lambda>c ij. f st ij c) c col of (c0, c1, c2) \<Rightarrow> comba f r (Suc k) cols (wr st r k c0) (c1, c2, 0))"

definition comba8_columns :: "(nat \<times> nat) list list" where
  "comba8_columns =
    [[(0, 0)],
     [(0, 1), (1, 0)],
     [(2, 0), (1, 1), (0, 2)],
     [(0, 3), (1, 2), (2, 1), (3, 0)],
     [(4, 0), (3, 1), (2, 2), (1, 3), (0, 4)],
     [(0, 5), (1, 4), (2, 3), (3, 2), (4, 1), (5, 0)],
     [(6, 0), (5, 1), (4, 2), (3, 3), (2, 4), (1, 5), (0, 6)],
     [(0, 7), (1, 6), (2, 5), (3, 4), (4, 3), (5, 2), (6, 1), (7, 0)],
     [(7, 1), (6, 2), (5, 3), (4, 4), (3, 5), (2, 6), (1, 7)],
     [(2, 7), (3, 6), (4, 5), (5, 4), (6, 3), (7, 2)],
     [(7, 3), (6, 4), (5, 5), (4, 6), (3, 7)],
     [(4, 7), (5, 6), (6, 5), (7, 4)],
     [(7, 5), (6, 6), (5, 7)],
     [(6, 7), (7, 6)],
     [(7, 7)]]"

definition comba4_columns :: "(nat \<times> nat) list list" where
  "comba4_columns =
    [[(0, 0)],
     [(0, 1), (1, 0)],
     [(2, 0), (1, 1), (0, 2)],
     [(0, 3), (1, 2), (2, 1), (3, 0)],
     [(3, 1), (2, 2), (1, 3)],
     [(2, 3), (3, 2)],
     [(3, 3)]]"

definition sqr_comba8_columns :: "(nat \<times> nat) list list" where
  "sqr_comba8_columns =
    [[(0, 0)],
     [(1, 0)],
     [(1, 1), (2, 0)],
     [(3, 0), (2, 1)],
     [(2, 2), (3, 1), (4, 0)],
     [(5, 0), (4, 1), (3, 2)],
     [(3, 3), (4, 2), (5, 1), (6, 0)],
     [(7, 0), (6, 1), (5, 2), (4, 3)],
     [(4, 4), (5, 3), (6, 2), (7, 1)],
     [(7, 2), (6, 3), (5, 4)],
     [(5, 5), (6, 4), (7, 3)],
     [(7, 4), (6, 5)],
     [(6, 6), (7, 5)],
     [(7, 6)],
     [(7, 7)]]"

definition sqr_comba4_columns :: "(nat \<times> nat) list list" where
  "sqr_comba4_columns =
    [[(0, 0)],
     [(1, 0)],
     [(1, 1), (2, 0)],
     [(3, 0), (2, 1)],
     [(2, 2), (3, 1)],
     [(3, 2)],
     [(3, 3)]]"

definition comba_mul :: "ptr \<Rightarrow> ptr \<Rightarrow> bns \<Rightarrow> nat \<times> nat \<Rightarrow> acc \<Rightarrow> acc" where
  "comba_mul a b st ij = mul_add_c (rd st a (fst ij)) (rd st b (snd ij))"

definition comba_sqr :: "ptr \<Rightarrow> bns \<Rightarrow> nat \<times> nat \<Rightarrow> acc \<Rightarrow> acc" where
  "comba_sqr a st ij =
     (if fst ij = snd ij then sqr_add_c (rd st a (fst ij))
      else sqr_add_c2 (rd st a (fst ij)) (rd st a (snd ij)))"

definition bn_mul_comba8 :: "bns \<Rightarrow> ptr \<Rightarrow> ptr \<Rightarrow> ptr \<Rightarrow> bns" where
  "bn_mul_comba8 st r a b = comba (comba_mul a b) r 0 comba8_columns st (0, 0, 0)"

definition bn_mul_comba4 :: "bns \<Rightarrow> ptr \<Rightarrow> ptr \<Rightarrow> ptr \<Rightarrow> bns" where
  "bn_mul_comba4 st r a b = comba (comba_mul a b) r 0 comba4_columns st (0, 0, 0)"

definition bn_sqr_comba8 :: "bns \<Rightarrow> ptr \<Rightarrow> ptr \<Rightarrow> bns" where
  "bn_sqr_comba8 st r a = comba (comba_sqr a) r 0 sqr_comba8_columns st (0, 0, 0)"

definition bn_sqr_comba4 :: "bns \<Rightarrow> ptr \<Rightarrow> ptr \<Rightarrow> bns" where
  "bn_sqr_comba4 st r a = comba (comba_sqr a) r 0 sqr_comba4_columns st (0, 0, 0)"

section \<open>Selections and shifts\<close>

definition bn_select_words :: "bns \<Rightarrow> ptr \<Rightarrow> limb \<Rightarrow> ptr \<Rightarrow> ptr \<Rightarrow> nat \<Rightarrow> bns" where
  "bn_select_words st r msk a b num =
     fst (snd ((word_step (\<lambda>st i c. (constant_time_select_w msk (rd st a i) (rd st b i), c)) r ^^ num) (0, st, ())))"

definition bn_rshift_words :: "bns \<Rightarrow> ptr \<Rightarrow> ptr \<Rightarrow> nat \<Rightarrow> nat \<Rightarrow> bns" where
  "bn_rshift_words st r a shift num =
     (let shift_bits = shift mod 64;
          shift_words = shift div 64
      in if shift_words \<ge> num then put st r (replicate num 0)
         else
           let st = (if shift_bits = 0 then put st r (words st (advance a shift_words) (num - shift_words))
                     else
                       let st = foldl (\<lambda>st i. wr st r (i - shift_words)
                                  (drop_bit shift_bits (rd st a i) OR push_bit (64 - shift_bits) (rd st a (i + 1))))
                                  st [shift_words..<num - 1]
                       in wr st r (num - 1 - shift_words) (drop_bit shift_bits (rd st a (num - 1))))
           in put st (advance r (num - shift_words)) (replicate shift_words 0))"

definition bn_rshift1_words :: "bns \<Rightarrow> ptr \<Rightarrow> ptr \<Rightarrow> nat \<Rightarrow> bns" where
  "bn_rshift1_words st r a num =
     (if num = 0 then st
      else
        let st = foldl (\<lambda>st i. wr st r i (drop_bit 1 (rd st a i) OR push_bit 63 (rd st a (i + 1)))) st [0..<num - 1]
        in wr st r (num - 1) (drop_bit 1 (rd st a (num - 1))))"

end
