(* ===== verification/BnArith.thy ===== *)
theory BnArith imports BnWords begin

text \<open>
  Big numbers: \<open>add.c\<close>, \<open>shift.c\<close> and \<open>bytes.c\<close>. An \<open>int\<close> that a caller can make negative is an \<open>int\<close>, a width is a \<open>nat\<close>.
\<close>

section \<open>\<open>add.c\<close>\<close>

definition uadd_step :: "nat \<Rightarrow> bns \<Rightarrow> nat \<Rightarrow> limb \<Rightarrow> limb \<times> limb" where
  "uadd_step a st i carry = (let tmp = carry + rd st (a, 0) i in (tmp, of_bool (tmp < rd st (a, 0) i)))"

definition bn_uadd_consttime :: "bns \<Rightarrow> nat \<Rightarrow> nat \<Rightarrow> nat \<Rightarrow> bool \<times> bns" where
  "bn_uadd_consttime st r a b =
     (case if b_width (s_bn st a) < b_width (s_bn st b) then (b, a) else (a, b) of (a, b) \<Rightarrow>
        let mx = b_width (s_bn st a);
            mn = b_width (s_bn st b)
        in chk (bn_wexpand st r (mx + 1)) (\<lambda>st.
             let st = set_width st r (mx + 1)
             in case bn_add_words st (r, 0) (a, 0) (b, 0) mn of (carry, st) \<Rightarrow>
                case (word_step (uadd_step a) (r, 0) ^^ (mx - mn)) (mn, st, carry) of (_, st, carry) \<Rightarrow>
                  (True, wr st (r, 0) mx carry)))"

definition BN_uadd :: "bns \<Rightarrow> nat \<Rightarrow> nat \<Rightarrow> nat \<Rightarrow> bool \<times> bns" where
  "BN_uadd st r a b = chk (bn_uadd_consttime st r a b) (\<lambda>st. (True, bn_set_minimal_width st r))"

definition usub_step :: "nat \<Rightarrow> bns \<Rightarrow> nat \<Rightarrow> limb \<Rightarrow> limb \<times> limb" where
  "usub_step a st i borrow = (let tmp = rd st (a, 0) i; d = rd st (a, 0) i - borrow in (d, of_bool (tmp < d)))"

definition bn_usub_consttime :: "bns \<Rightarrow> nat \<Rightarrow> nat \<Rightarrow> nat \<Rightarrow> bool \<times> bns" where
  "bn_usub_consttime st r a b =
     (let aw = b_width (s_bn st a);
          bw = b_width (s_bn st b)
      in if bw > aw \<and> \<not> bn_fits_in_words (s_bn st b) aw then (False, st)
         else
           let bw = (if bw > aw then aw else bw)
           in chk (bn_wexpand st r aw) (\<lambda>st.
                case bn_sub_words st (r, 0) (a, 0) (b, 0) bw of (borrow, st) \<Rightarrow>
                case (word_step (usub_step a) (r, 0) ^^ (aw - bw)) (bw, st, borrow) of (_, st, borrow) \<Rightarrow>
                  if borrow \<noteq> 0 then (False, st)
                  else (True, set_neg (set_width st r aw) r False)))"

definition BN_usub :: "bns \<Rightarrow> nat \<Rightarrow> nat \<Rightarrow> nat \<Rightarrow> bool \<times> bns" where
  "BN_usub st r a b = chk (bn_usub_consttime st r a b) (\<lambda>st. (True, bn_set_minimal_width st r))"

definition BN_add :: "bns \<Rightarrow> nat \<Rightarrow> nat \<Rightarrow> nat \<Rightarrow> bool \<times> bns" where
  "BN_add st r a b =
     (let a_neg = b_neg (s_bn st a)
      in if a_neg \<noteq> b_neg (s_bn st b) then
           case if a_neg then (b, a) else (a, b) of (a, b) \<Rightarrow>
             if BN_ucmp (s_bn st a) (s_bn st b) < 0 then chk (BN_usub st r b a) (\<lambda>st. (True, set_neg st r True))
             else chk (BN_usub st r a b) (\<lambda>st. (True, set_neg st r False))
         else case BN_uadd st r a b of (ret, st) \<Rightarrow> (ret, set_neg st r a_neg))"

definition BN_sub :: "bns \<Rightarrow> nat \<Rightarrow> nat \<Rightarrow> nat \<Rightarrow> bool \<times> bns" where
  "BN_sub st r a b =
     (case
        if b_neg (s_bn st a) then (if b_neg (s_bn st b) then (b, a, False, False) else (a, b, True, True))
        else (a, b, b_neg (s_bn st b), False)
      of (a, b, add, neg) \<Rightarrow>
        if add then chk (BN_uadd st r a b) (\<lambda>st. (True, set_neg st r neg))
        else if BN_ucmp (s_bn st a) (s_bn st b) < 0 then chk (BN_usub st r b a) (\<lambda>st. (True, set_neg st r True))
        else chk (BN_usub st r a b) (\<lambda>st. (True, set_neg st r False)))"

text \<open>The loops of \<open>BN_add_word\<close> and \<open>BN_sub_word\<close>. The second one has no bound in the code: \<open>None\<close> stands for a loop that
  has not ended behind the last word.\<close>

fun add_word_loop :: "nat \<Rightarrow> bns \<Rightarrow> nat \<Rightarrow> nat \<Rightarrow> limb \<Rightarrow> nat \<times> bns \<times> limb" where
  "add_word_loop 0 st a i w = (i, st, w)"
| "add_word_loop (Suc k) st a i w =
     (if w = 0 then (i, st, w)
      else
        let l = rd st (a, 0) i + w
        in add_word_loop k (wr st (a, 0) i l) a (i + 1) (if w > l then 1 else 0))"

fun sub_word_loop :: "nat \<Rightarrow> bns \<Rightarrow> nat \<Rightarrow> nat \<Rightarrow> limb \<Rightarrow> (nat \<times> bns) option" where
  "sub_word_loop 0 st a i w = None"
| "sub_word_loop (Suc k) st a i w =
     (if rd st (a, 0) i \<ge> w then Some (i, wr st (a, 0) i (rd st (a, 0) i - w))
      else sub_word_loop k (wr st (a, 0) i (rd st (a, 0) i - w)) a (i + 1) 1)"

text \<open>What the two functions do with a number that is not negative, and not zero.\<close>

definition add_word_abs :: "bns \<Rightarrow> nat \<Rightarrow> limb \<Rightarrow> bool \<times> bns" where
  "add_word_abs st a w =
     (case add_word_loop (b_width (s_bn st a)) st a 0 w of (i, st, w) \<Rightarrow>
        if w \<noteq> 0 \<and> i = b_width (s_bn st a) then
          chk (bn_wexpand st a (b_width (s_bn st a) + 1)) (\<lambda>st.
            (True, wr (set_width st a (b_width (s_bn st a) + 1)) (a, 0) i w))
        else (True, st))"

definition sub_word_abs :: "bns \<Rightarrow> nat \<Rightarrow> limb \<Rightarrow> (bool \<times> bns) option" where
  "sub_word_abs st a w =
     (if bn_minimal_width (s_bn st a) = 1 \<and> rd st (a, 0) 0 < w then
        Some (True, set_neg (wr st (a, 0) 0 (w - rd st (a, 0) 0)) a True)
      else
        map_option (\<lambda>(i, st).
          if rd st (a, 0) i = 0 \<and> i = b_width (s_bn st a) - 1 then (True, set_width st a (b_width (s_bn st a) - 1))
          else (True, st))
        (sub_word_loop (b_width (s_bn st a)) st a 0 w))"

text \<open>Each function calls the other one when the number is negative, with the sign cleared; the two cases that come first in
  the code are repeated in that call.\<close>

definition BN_add_word :: "bns \<Rightarrow> nat \<Rightarrow> limb \<Rightarrow> (bool \<times> bns) option" where
  "BN_add_word st a w =
     (if w = 0 then Some (True, st)
      else if BN_is_zero (s_bn st a) then Some (BN_set_word st a w)
      else if b_neg (s_bn st a) then
        map_option (\<lambda>(i, st). (i, if \<not> BN_is_zero (s_bn st a) then set_neg st a (\<not> b_neg (s_bn st a)) else st))
          (sub_word_abs (set_neg st a False) a w)
      else Some (add_word_abs st a w))"

definition BN_sub_word :: "bns \<Rightarrow> nat \<Rightarrow> limb \<Rightarrow> (bool \<times> bns) option" where
  "BN_sub_word st a w =
     (if w = 0 then Some (True, st)
      else if BN_is_zero (s_bn st a) then
        (case BN_set_word st a w of (i, st) \<Rightarrow> Some (i, if i then BN_set_negative st a True else st))
      else if b_neg (s_bn st a) then
        (case add_word_abs (set_neg st a False) a w of (i, st) \<Rightarrow> Some (i, set_neg st a True))
      else sub_word_abs st a w)"

section \<open>\<open>shift.c\<close>\<close>

definition BN_lshift :: "bns \<Rightarrow> nat \<Rightarrow> nat \<Rightarrow> int \<Rightarrow> bool \<times> bns" where
  "BN_lshift st r a n =
     (if n < 0 then (False, st)
      else
        let st = set_neg st r (b_neg (s_bn st a));
            nw = nat n div 64
        in chk (bn_wexpand st r (b_width (s_bn st a) + nw + 1)) (\<lambda>st.
             let lb = nat n mod 64;
                 rb = 64 - lb;
                 aw = b_width (s_bn st a);
                 st = wr st (r, 0) (aw + nw) 0;
                 st = (if lb = 0 then foldl (\<lambda>st i. wr st (r, 0) (nw + i) (rd st (a, 0) i)) st (rev [0..<aw])
                       else
                         foldl (\<lambda>st i.
                           let l = rd st (a, 0) i;
                               st = wr st (r, 0) (nw + i + 1) (rd st (r, 0) (nw + i + 1) OR drop_bit rb l)
                           in wr st (r, 0) (nw + i) (push_bit lb l)) st (rev [0..<aw]));
                 st = put st (r, 0) (replicate nw 0);
                 st = set_width st r (b_width (s_bn st a) + nw + 1)
             in (True, bn_set_minimal_width st r)))"

definition BN_lshift1 :: "bns \<Rightarrow> nat \<Rightarrow> nat \<Rightarrow> bool \<times> bns" where
  "BN_lshift1 st r a =
     (let st = (if r \<noteq> a then set_neg st r (b_neg (s_bn st a)) else st)
      in chk (bn_wexpand st r (b_width (s_bn st a) + 1)) (\<lambda>st.
           let st = (if r \<noteq> a then set_width st r (b_width (s_bn st a)) else st);
               aw = b_width (s_bn st a)
           in case (word_step (\<lambda>st i c. let t = rd st (a, 0) i in (push_bit 1 t OR c, drop_bit 63 t)) (r, 0) ^^ aw)
                     (0, st, 0) of (_, st, c) \<Rightarrow>
                (True, if c \<noteq> 0 then set_width (wr st (r, 0) aw 1) r (b_width (s_bn st r) + 1) else st)))"

definition BN_rshift :: "bns \<Rightarrow> nat \<Rightarrow> nat \<Rightarrow> int \<Rightarrow> bool \<times> bns" where
  "BN_rshift st r a n =
     (if n < 0 then (False, st)
      else
        chk (bn_wexpand st r (b_width (s_bn st a))) (\<lambda>st.
          let st = bn_rshift_words st (r, 0) (a, 0) (nat n) (b_width (s_bn st a));
              st = set_neg st r (b_neg (s_bn st a));
              st = set_width st r (b_width (s_bn st a))
          in (True, bn_set_minimal_width st r)))"

definition BN_rshift1 :: "bns \<Rightarrow> nat \<Rightarrow> nat \<Rightarrow> bool \<times> bns" where
  "BN_rshift1 st r a =
     chk (bn_wexpand st r (b_width (s_bn st a))) (\<lambda>st.
       let st = bn_rshift1_words st (r, 0) (a, 0) (b_width (s_bn st a));
           st = set_width st r (b_width (s_bn st a));
           st = set_neg st r (b_neg (s_bn st a))
       in (True, bn_set_minimal_width st r))"

text \<open>The loop over the bits of the secret amount; \<open>1u << i\<close> is an \<open>unsigned\<close>.\<close>

definition bn_rshift_secret_shift :: "bns \<Rightarrow> nat \<Rightarrow> nat \<Rightarrow> u32 \<Rightarrow> bool \<times> bns" where
  "bn_rshift_secret_shift st r a n =
     (case BN_CTX_get (BN_CTX_start st) of
        (None, st) \<Rightarrow> (False, BN_CTX_end st)
      | (Some tmp, st) \<Rightarrow>
          (case chk (BN_copy st r a) (\<lambda>st. bn_wexpand st tmp (b_width (s_bn st r))) of (ok, st) \<Rightarrow>
             if \<not> ok then (False, BN_CTX_end st)
             else
               let max_bits = 64 * b_width (s_bn st r);
                   st = foldl (\<lambda>st i.
                          let msk = 0 - (ucast (drop_bit i n AND 1) :: limb);
                              st = bn_rshift_words st (tmp, 0) (r, 0) (2 ^ i) (b_width (s_bn st r))
                          in bn_select_words st (r, 0) msk (tmp, 0) (r, 0) (b_width (s_bn st r)))
                          st (takeWhile (\<lambda>i. max_bits div 2 ^ i \<noteq> 0) [0..<32])
               in (True, BN_CTX_end st)))"

definition BN_set_bit :: "bns \<Rightarrow> nat \<Rightarrow> int \<Rightarrow> bool \<times> bns" where
  "BN_set_bit st a n =
     (if n < 0 then (False, st)
      else
        let i = nat n div 64;
            j = nat n mod 64;
            set_it = (\<lambda>st. (True, wr st (a, 0) i (rd st (a, 0) i OR push_bit j 1)))
        in if b_width (s_bn st a) \<le> i then
             chk (bn_wexpand st a (i + 1)) (\<lambda>st.
               let w = b_width (s_bn st a);
                   st = foldl (\<lambda>st k. wr st (a, 0) k 0) st [w..<i + 1]
               in set_it (set_width st a (i + 1)))
           else set_it st)"

definition BN_clear_bit :: "bns \<Rightarrow> nat \<Rightarrow> int \<Rightarrow> bool \<times> bns" where
  "BN_clear_bit st a n =
     (if n < 0 then (False, st)
      else
        let i = nat n div 64;
            j = nat n mod 64
        in if b_width (s_bn st a) \<le> i then (False, st)
           else (True, bn_set_minimal_width (wr st (a, 0) i (rd st (a, 0) i AND NOT (push_bit j 1))) a))"

definition bn_is_bit_set_words :: "limb list \<Rightarrow> nat \<Rightarrow> nat \<Rightarrow> bool" where
  "bn_is_bit_set_words a num b =
     (let i = b div 64;
          j = b mod 64
      in if i \<ge> num then False else drop_bit j (a ! i) AND 1 = 1)"

definition BN_is_bit_set :: "bignum \<Rightarrow> int \<Rightarrow> bool" where
  "BN_is_bit_set a n = (if n < 0 then False else bn_is_bit_set_words (b_d a) (b_width a) (nat n))"

definition BN_mask_bits :: "bns \<Rightarrow> nat \<Rightarrow> int \<Rightarrow> bool \<times> bns" where
  "BN_mask_bits st a n =
     (if n < 0 then (False, st)
      else
        let w = nat n div 64;
            b = nat n mod 64
        in if w \<ge> b_width (s_bn st a) then (True, st)
           else
             let st = (if b = 0 then set_width st a w
                       else wr (set_width st a (w + 1)) (a, 0) w (rd st (a, 0) w AND NOT (push_bit b (-1))))
             in (True, bn_set_minimal_width st a))"

definition count_low_block :: "nat \<Rightarrow> nat \<times> limb \<Rightarrow> nat \<times> limb" where
  "count_low_block k s =
     (case s of (bits, l) \<Rightarrow>
        let msk = constant_time_is_zero_w (push_bit (64 - k) l)
        in (bits + unat (word_of_nat k AND msk), constant_time_select_w msk (drop_bit k l) l))"

definition bn_count_low_zero_bits_word :: "limb \<Rightarrow> nat" where
  "bn_count_low_zero_bits_word l =
     fst (count_low_block 1 (count_low_block 2 (count_low_block 4 (count_low_block 8
            (count_low_block 16 (count_low_block 32 (0, l)))))))"

definition BN_count_low_zero_bits :: "bignum \<Rightarrow> nat" where
  "BN_count_low_zero_bits b =
     unat (fst (foldl (\<lambda>(ret :: limb, saw) i.
       let nonzero = NOT (constant_time_is_zero_w (b_d b ! i));
           first_nonzero = NOT saw AND nonzero;
           saw = saw OR nonzero;
           bits = bn_count_low_zero_bits_word (b_d b ! i)
       in (ret OR (first_nonzero AND word_of_nat (i * 64 + bits)), saw)) (0, 0) [0..<b_width b]))"

section \<open>\<open>bytes.c\<close>\<close>

fun bin2bn_loop :: "u8 list \<Rightarrow> nat \<Rightarrow> nat \<Rightarrow> limb \<Rightarrow> bns \<Rightarrow> nat \<Rightarrow> bns" where
  "bin2bn_loop [] num_words m w st ret = st"
| "bin2bn_loop (x # xs) num_words m w st ret =
     (let w = push_bit 8 w OR ucast x
      in if m = 0 then bin2bn_loop xs (num_words - 1) 7 0 (wr st (ret, 0) (num_words - 1) w) ret
         else bin2bn_loop xs num_words (m - 1) w st ret)"

text \<open>The result is the \<open>BIGNUM\<close>, a new one for \<open>ret == NULL\<close>, or \<open>None\<close> for \<open>NULL\<close>.\<close>

definition BN_bin2bn :: "bns \<Rightarrow> u8 list \<Rightarrow> nat option \<Rightarrow> nat option \<times> bns" where
  "BN_bin2bn st inp ret =
     (case (case ret of None \<Rightarrow> BN_new st | Some h \<Rightarrow> (Some h, st)) of
        (None, st) \<Rightarrow> (None, st)
      | (Some h, st) \<Rightarrow>
          if length inp = 0 then (Some h, set_width st h 0)
          else
            let num_words = (length inp - 1) div 8 + 1;
                m = (length inp - 1) mod 8
            in case bn_wexpand st h num_words of (ok, st) \<Rightarrow>
                 if \<not> ok then (None, st)
                 else
                   let st = set_neg (set_width st h num_words) h False
                   in (Some h, bin2bn_loop inp num_words m 0 st h))"

text \<open>The words that some bytes are on a little-endian machine; the last one is filled up with zeros.\<close>

function le_limbs :: "u8 list \<Rightarrow> limb list" where
  "le_limbs bs = (if bs = [] then [] else word_of_nat (le_val (take 8 bs)) # le_limbs (drop 8 bs))"
  by pat_completeness auto
termination by (relation "measure length") auto

declare le_limbs.simps [simp del]

definition limb_bytes :: "limb list \<Rightarrow> u8 list" where
  "limb_bytes ws = concat (map (\<lambda>w. le_bytes 8 (unat w)) ws)"

definition BN_le2bn :: "bns \<Rightarrow> u8 list \<Rightarrow> nat option \<Rightarrow> nat option \<times> bns" where
  "BN_le2bn st inp ret =
     (case (case ret of None \<Rightarrow> BN_new st | Some h \<Rightarrow> (Some h, st)) of
        (None, st) \<Rightarrow> (None, st)
      | (Some h, st) \<Rightarrow>
          if length inp = 0 then (Some h, set_neg (set_width st h 0) h False)
          else
            let num_words = (length inp - 1) div 8 + 1
            in case bn_wexpand st h num_words of (ok, st) \<Rightarrow>
                 if \<not> ok then (None, st)
                 else (Some h, put (set_width st h num_words) (h, 0) (le_limbs inp)))"

definition BN_bn2bin :: "bignum \<Rightarrow> u8 list" where
  "BN_bn2bin b = map (\<lambda>i. ucast (drop_bit (8 * (i mod 8)) (b_d b ! (i div 8))) AND 0xFF) (rev [0..<BN_num_bytes b])"

definition fits_in_bytes :: "u8 list \<Rightarrow> nat \<Rightarrow> nat \<Rightarrow> bool" where
  "fits_in_bytes bs num_bytes n = (foldl (\<lambda>m i. m OR bs ! i) 0 [n..<num_bytes] = 0)"

definition BN_bn2le_padded :: "nat \<Rightarrow> bignum \<Rightarrow> u8 list option" where
  "BN_bn2le_padded n b =
     (let bs = limb_bytes (b_d b);
          num_bytes = b_width b * 8
      in if n < num_bytes \<and> \<not> fits_in_bytes bs num_bytes n then None
         else
           let num_bytes = (if n < num_bytes then n else num_bytes)
           in Some (take num_bytes bs @ replicate (n - num_bytes) 0))"

definition BN_bn2bin_padded :: "nat \<Rightarrow> bignum \<Rightarrow> u8 list option" where
  "BN_bn2bin_padded n b =
     (let bs = limb_bytes (b_d b);
          num_bytes = b_width b * 8
      in if n < num_bytes \<and> \<not> fits_in_bytes bs num_bytes n then None
         else
           let num_bytes = (if n < num_bytes then n else num_bytes)
           in Some (replicate (n - num_bytes) 0 @ rev (take num_bytes bs)))"

definition BN_get_word :: "bignum \<Rightarrow> limb" where
  "BN_get_word b =
     (let w = bn_minimal_width b in if w = 0 then 0 else if w = 1 then b_d b ! 0 else -1)"

definition BN_get_u64 :: "bignum \<Rightarrow> u64 option" where
  "BN_get_u64 b =
     (let w = bn_minimal_width b in if w = 0 then Some 0 else if w = 1 then Some (b_d b ! 0) else None)"

end
