(* ===== verification/BnWordsSpec.thy ===== *)
theory BnWordsSpec imports BnWords begin

text \<open>
  What the functions on words compute. \<open>lval\<close> is the number that some words stand for, the lowest word first. A
  loop over words that share no memory, or that are read no later than they are written (\<open>follows\<close>), writes
  the words it would write with separate arrays (\<open>word_steps\<close>), and \<open>scan_value\<close> turns the equation of one step,
  with its carry, into the equation of the numbers.
\<close>

section \<open>Numbers\<close>

fun lval :: "limb list \<Rightarrow> nat" where
  "lval [] = 0"
| "lval (w # ws) = unat w + size_mod * lval ws"

lemma lval_append: "lval (xs @ ys) = lval xs + size_mod ^ length xs * lval ys"
  by (induction xs) (simp_all add: algebra_simps)

lemma unat_limb_lt: "unat w < size_mod" for w :: limb
  using unat_u64_lt [of w] by simp

lemma lval_lt: "lval ws < size_mod ^ length ws"
proof (induction ws)
  case (Cons w ws)
  have "lval ws + 1 \<le> size_mod ^ length ws" using Cons by simp
  then have "size_mod * (lval ws + 1) \<le> size_mod * size_mod ^ length ws" by (rule mult_le_mono2)
  then have "size_mod + size_mod * lval ws \<le> size_mod ^ length (w # ws)" by simp
  then show ?case using unat_limb_lt [of w] unfolding lval.simps by linarith
qed simp

lemma lval_replicate [simp]: "lval (replicate n 0) = 0"
  by (induction n) simp_all

lemma lval_eq_0: "lval ws = 0 \<longleftrightarrow> set ws \<subseteq> {0}"
  by (induction ws) (auto simp: unat_eq_zero)

lemma lval_inject: "length xs = length ys \<Longrightarrow> lval xs = lval ys \<longleftrightarrow> xs = ys"
proof (induction xs ys rule: list_induct2)
  case (Cons x xs y ys)
  have m: "(unat w + size_mod * k) mod size_mod = unat w" "(unat w + size_mod * k) div size_mod = k" for w :: limb and k
    using unat_limb_lt [of w] by simp_all
  have "lval (x # xs) = lval (y # ys) \<longleftrightarrow> unat x = unat y \<and> lval xs = lval ys"
    using m [of x "lval xs"] m [of y "lval ys"] by (metis lval.simps(2))
  then show ?case using Cons by (simp add: word_unat_eq_iff)
qed simp

lemma lval_take_drop: "n \<le> length ws \<Longrightarrow> lval ws = lval (take n ws) + size_mod ^ n * lval (drop n ws)"
  using lval_append [of "take n ws" "drop n ws"] by (simp add: min_absorb1)

text \<open>The value of digits that need not be words.\<close>

definition digits :: "(nat \<Rightarrow> int) \<Rightarrow> nat \<Rightarrow> nat \<Rightarrow> int" where
  "digits x i n = (\<Sum>k<n. x (i + k) * int size_mod ^ k)"

lemma digits_simps: "digits x i 0 = 0" "digits x i (Suc n) = x i + int size_mod * digits x (Suc i) n"
  by (simp_all add: digits_def sum.lessThan_Suc_shift sum_distrib_left algebra_simps del: sum.lessThan_Suc)

lemma digits_add: "digits (\<lambda>j. x j + y j) i n = digits x i n + digits y i n"
  by (simp add: digits_def sum.distrib algebra_simps)

lemma digits_diff: "digits (\<lambda>j. x j - y j) i n = digits x i n - digits y i n"
  by (simp add: digits_def sum_subtractf algebra_simps)

lemma digits_mult: "digits (\<lambda>j. c * x j) i n = c * digits x i n"
  by (simp add: digits_def sum_distrib_left algebra_simps)

lemma digits_cong: "(\<And>j. i \<le> j \<Longrightarrow> j < i + n \<Longrightarrow> x j = y j) \<Longrightarrow> digits x i n = digits y i n"
  unfolding digits_def by (rule sum.cong) auto

lemma lval_digits: "n \<le> length ws \<Longrightarrow> int (lval (take n ws)) = digits (\<lambda>j. uint (ws ! j)) 0 n"
proof (induction n)
  case (Suc n)
  have "digits x 0 (Suc n) = digits x 0 n + x n * int size_mod ^ n" for x by (simp add: digits_def)
  then show ?case using Suc by (simp add: take_Suc_conv_app_nth lval_append min_absorb1 algebra_simps)
qed (simp add: digits_def)

section \<open>The store\<close>

definition room :: "bns \<Rightarrow> ptr \<Rightarrow> nat \<Rightarrow> bool" where
  "room st p n \<longleftrightarrow> snd p + n \<le> length (b_d (s_bn st (fst p)))"

text \<open>\<open>n\<close> words at \<open>p\<close> and \<open>k\<close> words at \<open>q\<close> share nothing.\<close>

definition apart :: "ptr \<Rightarrow> nat \<Rightarrow> ptr \<Rightarrow> nat \<Rightarrow> bool" where
  "apart p n q k \<longleftrightarrow> fst p \<noteq> fst q \<or> snd p + n \<le> snd q \<or> snd q + k \<le> snd p"

text \<open>Word for word, what is read at \<open>a\<close> has not yet been written at \<open>r\<close>.\<close>

definition follows :: "ptr \<Rightarrow> ptr \<Rightarrow> nat \<Rightarrow> bool" where
  "follows r a n \<longleftrightarrow> fst r \<noteq> fst a \<or> snd r \<le> snd a \<or> snd a + n \<le> snd r"

lemma follows_refl [simp]: "follows r r n"
  by (simp add: follows_def)

lemma follows_apart: "apart r n a k \<Longrightarrow> n \<le> k \<Longrightarrow> follows r a n"
  by (auto simp: follows_def apart_def)

lemma put_no_words [simp]: "put st p [] = st"
  by (simp add: put_def upd_def)

lemma s_bn_put: "s_bn (put st p ws) h = (if h = fst p then (s_bn st h)\<lparr>b_d := splice (b_d (s_bn st h)) (snd p) ws\<rparr> else s_bn st h)"
  by (simp add: put_def upd_def)

lemma room_put [simp]: "room st p (length ws) \<Longrightarrow> room (put st p ws) q n \<longleftrightarrow> room st q n"
  by (auto simp: room_def s_bn_put length_splice)

lemma put_put: "room st p (length xs + length ys) \<Longrightarrow> put (put st p xs) (advance p (length xs)) ys = put st p (xs @ ys)"
  by (simp add: put_def upd_def advance_def splice_splice room_def)

lemma wr_put: "room st p (Suc i) \<Longrightarrow> wr st p i w = put st (advance p i) [w]"
  by (simp add: wr_def put_def upd_def advance_def room_def splice_def upd_conv_take_nth_drop)

lemma wr_snoc: "room st p (Suc (length ws)) \<Longrightarrow> wr (put st p ws) p (length ws) w = put st p (ws @ [w])"
  using wr_put [of "put st p ws" p "length ws" w] put_put [of st p ws "[w]"] by (simp add: room_def s_bn_put length_splice)

lemma nth_splice_out: "i < pos \<or> pos + length bs \<le> i \<Longrightarrow> pos + length bs \<le> length b \<Longrightarrow> splice b pos bs ! i = b ! i"
  by (auto simp: splice_def nth_append min_absorb1)

lemma rd_put_out:
  "room st p (length ws) \<Longrightarrow> fst p \<noteq> fst q \<or> snd q + i < snd p \<or> snd p + length ws \<le> snd q + i \<Longrightarrow>
   rd (put st p ws) q i = rd st q i"
  by (auto simp: rd_def s_bn_put room_def intro!: nth_splice_out)

lemma rd_follows: "room st r (length ws) \<Longrightarrow> follows r a n \<Longrightarrow> length ws < n \<Longrightarrow> rd (put st r ws) a (length ws) = rd st a (length ws)"
  by (rule rd_put_out) (auto simp: follows_def)

lemma words_nth: "room st p n \<Longrightarrow> i < n \<Longrightarrow> words st p n ! i = rd st p i"
  by (simp add: words_def rd_def room_def)

lemma length_words [simp]: "room st p n \<Longrightarrow> length (words st p n) = n"
  by (simp add: words_def room_def)

lemma words_put_apart: "room st p (length ws) \<Longrightarrow> apart p (length ws) q n \<Longrightarrow> words (put st p ws) q n = words st q n"
  by (auto simp: words_def s_bn_put room_def apart_def splice_def drop_take min_absorb1)

lemma words_put_same: "room st p (length ws) \<Longrightarrow> words (put st p ws) p (length ws) = ws"
  by (simp add: words_def s_bn_put room_def splice_def)

lemma words_split: "room st p (n + k) \<Longrightarrow> words st p (n + k) = words st p n @ words st (advance p n) k"
  by (simp add: words_def advance_def take_add add.commute [of "snd p"] del: add.commute)

lemma lval_words: "room st p n \<Longrightarrow> int (lval (words st p n)) = digits (\<lambda>j. uint (rd st p j)) 0 n"
  using lval_digits [of n "drop (snd p) (b_d (s_bn st (fst p)))"]
  by (auto simp: words_def room_def rd_def intro!: digits_cong)

section \<open>Loops\<close>

lemma iter4_eq: "iter4 f n s = (f ^^ n) s"
proof (induction n arbitrary: s rule: less_induct)
  case (less n)
  show ?case
  proof (cases "n \<ge> 4")
    case True
    then have "iter4 f n s = (f ^^ (n - 4)) ((f ^^ 4) s)" using less [of "n - 4"]
      by (subst iter4.simps) (simp add: eval_nat_numeral)
    then show ?thesis using True by (simp flip: funpow_add o_apply [of "f ^^ (n - 4)"])
  next
    case False
    then show ?thesis by (simp add: iter4.simps [of f n])
  qed
qed

fun scan :: "(nat \<Rightarrow> 'c \<Rightarrow> limb \<times> 'c) \<Rightarrow> nat \<Rightarrow> nat \<Rightarrow> 'c \<Rightarrow> limb list \<times> 'c" where
  "scan g i 0 c = ([], c)"
| "scan g i (Suc n) c = (case g i c of (w, c) \<Rightarrow> case scan g (Suc i) n c of (ws, c) \<Rightarrow> (w # ws, c))"

lemma length_scan: "length (fst (scan g i n c)) = n"
  by (induction n arbitrary: i c) (simp_all split: prod.split, metis fst_conv)

lemma word_steps_from:
  assumes "\<And>ws j c. length ws = j \<Longrightarrow> j < m \<Longrightarrow> f (put st r ws) j c = g j c" and "room st r m"
    and "length ws0 + n = m"
  shows "(word_step f r ^^ n) (length ws0, put st r ws0, c) =
     (case scan g (length ws0) n c of (ws, c) \<Rightarrow> (m, put st r (ws0 @ ws), c))"
  using assms(3)
proof (induction n arbitrary: ws0 c)
  case (Suc n)
  obtain w c' where w: "g (length ws0) c = (w, c')" by fastforce
  have "word_step f r (length ws0, put st r ws0, c) = (length (ws0 @ [w]), put st r (ws0 @ [w]), c')"
    using assms(1) [of ws0 "length ws0" c] assms(2) Suc(2) w by (simp add: word_step_def wr_snoc room_def)
  then show ?case using Suc(1) [of "ws0 @ [w]" c'] Suc(2) w by (simp add: funpow_Suc_right split: prod.split del: funpow.simps)
qed simp

lemma word_steps:
  assumes "\<And>ws j c. length ws = j \<Longrightarrow> j < n \<Longrightarrow> f (put st r ws) j c = g j c" and "room st r n"
  shows "(word_step f r ^^ n) (0, st, c) = (case scan g 0 n c of (ws, c) \<Rightarrow> (n, put st r ws, c))"
  using word_steps_from [of n f st r g "[]" n c] assms by simp

lemma scan_value:
  assumes "\<And>j c w c'. i \<le> j \<Longrightarrow> j < i + n \<Longrightarrow> P c \<Longrightarrow> g j c = (w, c') \<Longrightarrow>
      uint w + int size_mod * V c' = x j + V c \<and> P c'"
    and "scan g i n c = (ws, c')" and "P c"
  shows "int (lval ws) + int size_mod ^ n * V c' = digits x i n + V c \<and> P c'"
  using assms
proof (induction n arbitrary: i c ws)
  case (Suc n)
  obtain w c1 where w: "g i c = (w, c1)" by fastforce
  obtain us where us: "scan g (Suc i) n c1 = (us, c')" "ws = w # us" using Suc(3) w by (auto split: prod.splits)
  have step: "uint w + int size_mod * V c1 = x i + V c" "P c1" using Suc(2) [of i c w c1] Suc(4) w by auto
  have "int (lval us) + int size_mod ^ n * V c' = digits x (Suc i) n + V c1 \<and> P c'"
    by (rule Suc(1) [OF _ us(1) step(2)], rule Suc(2)) auto
  then show ?case using step(1) us(2) by (simp add: digits_simps algebra_simps)
qed (simp add: digits_simps)


section \<open>Sums and differences\<close>

lemma unat_dl [simp]: "unat (ucast w :: dlimb) = unat w" for w :: limb
  unfolding unat_ucast_mod by (rule mod_less, rule less_trans [OF unat_limb_lt]) simp

lemma unat_dl_add: "unat x + unat y < 2 ^ 128 \<Longrightarrow> unat (x + y) = unat x + unat y" for x y :: dlimb
  using unat_add_lem [of x y] by simp

lemma unat_dl_mult: "unat x * unat y < 2 ^ 128 \<Longrightarrow> unat (x * y) = unat x * unat y" for x y :: dlimb
  using unat_mult_lem [of x y] by simp

lemma unat_dlimb_lt: "unat t < size_mod * size_mod" for t :: dlimb
  using unsigned_less [of t, where ?'a = nat] by simp

lemma unat_Lw: "unat (Lw t) = unat t mod size_mod" and unat_Hw: "unat (Hw t) = unat t div size_mod"
proof -
  show "unat (Lw t) = unat t mod size_mod" by (simp add: Lw_def unat_ucast_mod)
  have "unat t div size_mod < size_mod" by (rule less_mult_imp_div_less) (rule unat_dlimb_lt)
  then show "unat (Hw t) = unat t div size_mod" by (simp add: Hw_def unat_ucast_mod unat_drop_bit)
qed

lemma Lw_Hw: "unat (Lw t) + size_mod * unat (Hw t) = unat t"
  by (simp add: unat_Lw unat_Hw)

lemma uint_step: "unat w + size_mod * v' = x + v \<Longrightarrow> uint w + int size_mod * int v' = int x + int v"
  by (metis (no_types) of_nat_add of_nat_mult uint_nat)

lemma nat_sum: "int x + int size_mod ^ n * uint c = int y \<Longrightarrow> x + size_mod ^ n * unat c = y"
  unfolding uint_nat of_nat_power [symmetric] of_nat_mult [symmetric] of_nat_add [symmetric] of_nat_eq_iff .

lemma nat_diff: "int x - int size_mod ^ n * uint c = int y - int z \<Longrightarrow> x + z = y + size_mod ^ n * unat c"
  using nat_sum [of y n c "x + z"] by simp

lemma bn_add_words_sum:
  assumes "room st r n" and "room st a n" and "room st b n" and "follows r a n" and "follows r b n"
  obtains ws c where "bn_add_words st r a b n = (c, put st r ws)" and "length ws = n" and "unat c \<le> 1"
    and "lval ws + size_mod ^ n * unat c = lval (words st a n) + lval (words st b n)"
proof -
  let ?f = "\<lambda>st i (ll :: dlimb). let ll = ll + (ucast (rd st a i) + ucast (rd st b i)) in (ucast ll :: limb, drop_bit 64 ll)"
  obtain ws ll where s: "scan (?f st) 0 n 0 = (ws, ll)" by fastforce
  have run: "bn_add_words st r a b n = (ucast ll, put st r ws)"
    unfolding bn_add_words_def iter4_eq using assms s
    by (subst word_steps [where g = "?f st"]) (auto simp: rd_follows room_def s_bn_put length_splice)
  have "int (lval ws) + int size_mod ^ n * int (unat ll) =
      digits (\<lambda>j. int (unat (rd st a j) + unat (rd st b j))) 0 n + int (unat (0 :: dlimb)) \<and> unat ll \<le> 1"
  proof (rule scan_value [OF _ s])
    fix j c w c'
    assume c: "unat c \<le> 1" and g: "?f st j c = (w, c')"
    let ?t = "c + (ucast (rd st a j) + ucast (rd st b j))"
    have t: "unat ?t = unat c + (unat (rd st a j) + unat (rd st b j))"
    proof -
      have lt: "unat (rd st a j) + unat (rd st b j) < 2 * size_mod" using unat_limb_lt [of "rd st a j"] unat_limb_lt [of "rd st b j"] by linarith
      then have "unat (ucast (rd st a j) + ucast (rd st b j) :: dlimb) = unat (rd st a j) + unat (rd st b j)"
        by (subst unat_dl_add) auto
      then show ?thesis using c lt by (subst unat_dl_add) auto
    qed
    have w: "w = Lw ?t" "unat c' = unat ?t div size_mod" using g by (auto simp: Let_def Lw_def unat_drop_bit)
    then have "unat w + size_mod * unat c' = unat (rd st a j) + unat (rd st b j) + unat c" using t by (simp add: unat_Lw)
    moreover have "unat c' \<le> 1" using t c unat_limb_lt [of "rd st a j"] unat_limb_lt [of "rd st b j"] unfolding w(2) by linarith
    ultimately show "uint w + int size_mod * int (unat c') = int (unat (rd st a j) + unat (rd st b j)) + int (unat c) \<and> unat c' \<le> 1"
      using uint_step by blast
  qed simp
  then have v: "int (lval ws) + int size_mod ^ n * int (unat ll) = int (lval (words st a n)) + int (lval (words st b n))"
    and ll: "unat ll \<le> 1" using assms(2,3) by (auto simp: digits_add lval_words)
  have "unat (ucast ll :: limb) = unat ll" using ll by (simp add: unat_ucast_mod)
  moreover have "lval ws + size_mod ^ n * unat ll = lval (words st a n) + lval (words st b n)"
    using v by (intro nat_sum) simp
  ultimately show ?thesis using that [OF run] ll length_scan [of "?f st" 0 n 0] s by simp
qed


text \<open>The other loops in the same way: the step equation is all that differs.\<close>

lemma bn_sub_words_diff:
  assumes "room st r n" and "room st a n" and "room st b n" and "follows r a n" and "follows r b n"
  obtains ws c where "bn_sub_words st r a b n = (c, put st r ws)" and "length ws = n" and "unat c \<le> 1"
    and "lval ws + lval (words st b n) = lval (words st a n) + size_mod ^ n * unat c"
proof -
  let ?f = "\<lambda>st i c. let t1 = rd st a i; t2 = rd st b i
             in (t1 - t2 - c, if t1 \<noteq> t2 then of_bool (t1 < t2) else c)"
  obtain ws c where s: "scan (?f st) 0 n 0 = (ws, c)" by fastforce
  have run: "bn_sub_words st r a b n = (c, put st r ws)"
    unfolding bn_sub_words_def iter4_eq using assms s
    by (subst word_steps [where g = "?f st"]) (auto simp: rd_follows room_def s_bn_put length_splice)
  have "int (lval ws) + int size_mod ^ n * (- int (unat c)) =
      digits (\<lambda>j. uint (rd st a j) - uint (rd st b j)) 0 n + (- int (unat (0 :: limb))) \<and> unat c \<le> 1"
  proof (rule scan_value [OF _ s])
    fix j c w c'
    assume c: "unat c \<le> 1" and g: "?f st j c = (w, c')"
    let ?x = "rd st a j" and ?y = "rd st b j"
    have w: "w = ?x - ?y - c" "c' = (if ?x \<noteq> ?y then of_bool (?x < ?y) else c)" using g by (auto simp: Let_def)
    have "unat c = 0 \<or> unat c = 1" using c by linarith
    then have "unat w + unat ?y + unat c = unat ?x + size_mod * unat c'" "unat c' \<le> 1"
      using unat_limb_lt [of ?x] unat_limb_lt [of ?y] unfolding w
      by (auto simp: unat_sub_if' word_less_nat_alt word_unat_eq_iff simp del: unat_u64_lt)
    then have "int (unat w) + int (unat ?y) + int (unat c) = int (unat ?x) + int size_mod * int (unat c')"
      by (simp only: flip: of_nat_add of_nat_mult)
    then show "uint w + int size_mod * (- int (unat c')) = uint ?x - uint ?y + (- int (unat c)) \<and> unat c' \<le> 1"
      using \<open>unat c' \<le> 1\<close> by simp
  qed simp
  then have v: "int (lval ws) - int size_mod ^ n * int (unat c) = int (lval (words st a n)) - int (lval (words st b n))"
    and c: "unat c \<le> 1" using assms(2,3) by (auto simp: digits_diff lval_words)
  moreover have "lval ws + lval (words st b n) = lval (words st a n) + size_mod ^ n * unat c"
    using v by (intro nat_diff) simp
  ultimately show ?thesis using that [OF run] length_scan [of "?f st" 0 n 0] s by simp
qed


section \<open>Products with a word\<close>

lemma mult_lt: "x < size_mod \<Longrightarrow> y < size_mod \<Longrightarrow> x * y \<le> (size_mod - 1) * (size_mod - 1)"
  by (rule mult_le_mono) simp_all

lemma mul_add_eq:
  assumes "mul_add r a w c = (r', c')"
  shows "unat r' + size_mod * unat c' = unat r + unat w * unat a + unat c"
proof -
  let ?t = "ucast w * ucast a + ucast r + ucast c :: dlimb"
  have m: "unat w * unat a \<le> (size_mod - 1) * (size_mod - 1)" by (rule mult_lt) (rule unat_limb_lt)+
  have "unat (ucast w * ucast a :: dlimb) = unat w * unat a" using m by (subst unat_dl_mult) auto
  moreover have "unat (ucast w * ucast a + ucast r :: dlimb) = unat w * unat a + unat r"
    using m unat_limb_lt [of r] calculation by (subst unat_dl_add) (auto simp del: unat_u64_lt)
  ultimately have "unat ?t = unat w * unat a + unat r + unat c"
    using m unat_limb_lt [of r] unat_limb_lt [of c] by (subst unat_dl_add) (auto simp del: unat_u64_lt)
  then show ?thesis using assms Lw_Hw [of ?t] by (auto simp: mul_add_def Let_def)
qed

lemma mul_c_eq: "mul_c a w c = mul_add 0 a w c"
  by (simp add: mul_c_def mul_add_def)

lemma digits_lval: "room st a n \<Longrightarrow> digits (\<lambda>j. int (k * unat (rd st a j))) 0 n = int (k * lval (words st a n))"
  by (simp add: digits_mult lval_words)

lemma bn_mul_add_words_sum:
  assumes "room st r n" and "room st a n" and "follows r a n"
  obtains ws c where "bn_mul_add_words st r a n w = (c, put st r ws)" and "length ws = n"
    and "lval ws + size_mod ^ n * unat c = lval (words st r n) + unat w * lval (words st a n)"
proof -
  let ?f = "\<lambda>st i c. mul_add (rd st r i) (rd st a i) w c"
  obtain ws c where s: "scan (?f st) 0 n 0 = (ws, c)" by fastforce
  have run: "bn_mul_add_words st r a n w = (c, put st r ws)"
    unfolding bn_mul_add_words_def iter4_eq using assms s
    by (subst word_steps [where g = "?f st"]) (auto simp: rd_follows [where n = n] room_def s_bn_put length_splice)
  have "int (lval ws) + int size_mod ^ n * uint c =
      digits (\<lambda>j. uint (rd st r j) + int (unat w * unat (rd st a j))) 0 n + uint (0 :: limb) \<and> True"
  proof (rule scan_value [OF _ s])
    fix j c v c'
    assume "?f st j c = (v, c')"
    then have "int (unat v + size_mod * unat c') = int (unat (rd st r j) + unat w * unat (rd st a j) + unat c)" by (simp only: mul_add_eq)
    then show "uint v + int size_mod * uint c' = uint (rd st r j) + int (unat w * unat (rd st a j)) + uint c \<and> True" by simp
  qed simp
  then have "int (lval ws) + int size_mod ^ n * uint c = int (lval (words st r n) + unat w * lval (words st a n))"
    unfolding digits_add digits_lval [OF assms(2)] using assms(1) by (simp add: lval_words)
  from that [OF run _ nat_sum [OF this]] show ?thesis using length_scan [of "?f st" 0 n 0] s by simp
qed

lemma bn_mul_words_product:
  assumes "room st r n" and "room st a n" and "follows r a n"
  obtains ws c where "bn_mul_words st r a n w = (c, put st r ws)" and "length ws = n"
    and "lval ws + size_mod ^ n * unat c = unat w * lval (words st a n)"
proof -
  let ?f = "\<lambda>st i c. mul_c (rd st a i) w c"
  obtain ws c where s: "scan (?f st) 0 n 0 = (ws, c)" by fastforce
  have run: "bn_mul_words st r a n w = (c, put st r ws)"
    unfolding bn_mul_words_def iter4_eq using assms s
    by (subst word_steps [where g = "?f st"]) (auto simp: rd_follows room_def s_bn_put length_splice)
  have "int (lval ws) + int size_mod ^ n * uint c = digits (\<lambda>j. int (unat w * unat (rd st a j))) 0 n + uint (0 :: limb) \<and> True"
  proof (rule scan_value [OF _ s])
    fix j c v c'
    assume "?f st j c = (v, c')"
    then have "unat v + size_mod * unat c' = unat (0 :: limb) + unat w * unat (rd st a j) + unat c" unfolding mul_c_eq by (rule mul_add_eq)
    then have "int (unat v + size_mod * unat c') = int (unat w * unat (rd st a j) + unat c)" by simp
    then show "uint v + int size_mod * uint c' = int (unat w * unat (rd st a j)) + uint c \<and> True" by simp
  qed simp
  then have "int (lval ws) + int size_mod ^ n * uint c = int (unat w * lval (words st a n))"
    unfolding digits_lval [OF assms(2)] by simp
  from that [OF run _ nat_sum [OF this]] show ?thesis using length_scan [of "?f st" 0 n 0] s by simp
qed

section \<open>Selections\<close>

lemma select_w [simp]: "constant_time_select_w 0 a b = b" "constant_time_select_w (-1) a b = a"
  by (simp_all add: constant_time_select_w_def)

lemma bn_select_words_eq:
  assumes "room st r n" and "room st a n" and "room st b n" and "follows r a n" and "follows r b n" and "m = 0 \<or> m = -1"
  shows "bn_select_words st r m a b n = put st r (words st (if m = 0 then b else a) n)"
proof -
  let ?f = "\<lambda>st i (c :: unit). (constant_time_select_w m (rd st a i) (rd st b i), c)"
  have scan: "scan (?f st) i k () = (map (rd st (if m = 0 then b else a)) [i..<i + k], ())" for i k
    using assms(6) by (induction k arbitrary: i) (auto simp: upt_conv_Cons simp del: upt_Suc)
  have "map (rd st p) [0..<n] = words st p n" if "room st p n" for p
    by (rule nth_equalityI) (use that in \<open>auto simp: words_nth\<close>)
  then show ?thesis unfolding bn_select_words_def using assms(1-5) scan [of 0 n]
    by (subst word_steps [where g = "?f st"]) (auto simp: rd_follows room_def s_bn_put length_splice)
qed

end
