(* ===== verification/BnSpec.thy ===== *)
theory BnSpec imports BnArith BnWordsSpec Base64Spec begin

text \<open>
  Big numbers are integers. \<open>bval\<close> is the integer that a \<open>BIGNUM\<close> stands for, \<open>bn_ok\<close> its invariant. An operation that
  sets \<open>r\<close> leaves all other \<open>BIGNUM\<close>s alone, keeps the invariant, and succeeds exactly when the words it needs can be had
  (\<open>able\<close>); then \<open>r\<close> has the value it should have (\<open>sets\<close>), also when \<open>r\<close> is one of the arguments.
\<close>

section \<open>Values\<close>

definition limbs :: "bignum \<Rightarrow> limb list" where
  "limbs b = take (b_width b) (b_d b)"

definition mag :: "bignum \<Rightarrow> nat" where
  "mag b = lval (limbs b)"

definition bval :: "bignum \<Rightarrow> int" where
  "bval b = (if b_neg b then - int (mag b) else int (mag b))"

abbreviation WORDS_MAX :: nat where
  "WORDS_MAX \<equiv> INT_MAX div (4 * 64)"

definition bn_ok :: "bignum \<Rightarrow> bool" where
  "bn_ok b \<longleftrightarrow> length (b_d b) = b_dmax b \<and> b_width b \<le> b_dmax b \<and> b_dmax b \<le> WORDS_MAX"

definition frame :: "nat \<Rightarrow> bns \<Rightarrow> bns \<Rightarrow> bool" where
  "frame r st st' \<longleftrightarrow> s_next st' = s_next st \<and> s_ctx st' = s_ctx st \<and> (\<forall>h. h \<noteq> r \<longrightarrow> s_bn st' h = s_bn st h)"

definition able :: "bns \<Rightarrow> nat \<Rightarrow> nat \<Rightarrow> bool" where
  "able st r n \<longleftrightarrow> n \<le> b_dmax (s_bn st r) \<or> n \<le> WORDS_MAX \<and> \<not> b_static (s_bn st r) \<and> s_malloc st 0 \<noteq> None"

text \<open>No negative zero. Functions that fail may leave one behind.\<close>

definition canonical :: "bignum \<Rightarrow> bool" where
  "canonical b \<longleftrightarrow> (b_neg b \<longrightarrow> mag b \<noteq> 0)"

text \<open>\<open>r\<close> becomes \<open>v\<close>, if \<open>n\<close> words can be had for it.\<close>

definition sets :: "bns \<Rightarrow> nat \<Rightarrow> nat \<Rightarrow> int \<Rightarrow> bool \<times> bns \<Rightarrow> bool" where
  "sets st r n v res \<longleftrightarrow> (case res of (ok, st') \<Rightarrow>
     frame r st st' \<and> bn_ok (s_bn st' r) \<and> (able st r n \<longrightarrow> ok) \<and>
     (ok \<longrightarrow> bval (s_bn st' r) = v \<and> canonical (s_bn st' r)))"

text \<open>As \<open>sets\<close>, for functions that make a negative zero of one: \<open>q\<close> tells that there was none.\<close>

definition gives :: "bns \<Rightarrow> nat \<Rightarrow> nat \<Rightarrow> int \<Rightarrow> bool \<Rightarrow> bool \<times> bns \<Rightarrow> bool" where
  "gives st r n v q res \<longleftrightarrow> (case res of (ok, st') \<Rightarrow>
     frame r st st' \<and> bn_ok (s_bn st' r) \<and> (able st r n \<longrightarrow> ok) \<and>
     (ok \<longrightarrow> bval (s_bn st' r) = v \<and> (q \<longrightarrow> canonical (s_bn st' r))))"

lemma sets_gives: "sets st r n v res \<Longrightarrow> gives st r n v q res"
  by (auto simp: sets_def gives_def)

lemma frame_refl [simp]: "frame r st st"
  by (simp add: frame_def)

lemma frame_trans: "frame r st st' \<Longrightarrow> frame r st' st'' \<Longrightarrow> frame r st st''"
  by (simp add: frame_def)

lemma upd_simps [simp]:
  "s_bn (upd st r f) h = (if h = r then f (s_bn st r) else s_bn st h)" "s_next (upd st r f) = s_next st"
  "s_ctx (upd st r f) = s_ctx st" "s_malloc (upd st r f) = s_malloc st"
  by (simp_all add: upd_def)

lemma frame_upd [simp]: "frame r st (upd st r f)"
  by (simp add: frame_def)

lemma frame_set [simp]: "frame r st (set_width st r w)" "frame r st (set_neg st r v)" "frame r st (wr st (r, k) i x)"
    "frame r st (put st (r, k) ws)"
  by (simp_all add: set_width_def set_neg_def wr_def put_def)

lemma set_simps [simp]:
  "s_bn (set_width st r w) h = (if h = r then (s_bn st r)\<lparr>b_width := w\<rparr> else s_bn st h)"
  "s_bn (set_neg st r v) h = (if h = r then (s_bn st r)\<lparr>b_neg := v\<rparr> else s_bn st h)"
  "s_next (set_width st r w) = s_next st" "s_next (set_neg st r v) = s_next st"
  "s_ctx (set_width st r w) = s_ctx st" "s_ctx (set_neg st r v) = s_ctx st"
  "s_malloc (set_width st r w) = s_malloc st" "s_malloc (set_neg st r v) = s_malloc st"
  by (simp_all add: set_width_def set_neg_def)

lemma mag_lt: "mag b < size_mod ^ b_width b"
proof -
  have "length (limbs b) \<le> b_width b" by (simp add: limbs_def)
  then show ?thesis unfolding mag_def using lval_lt [of "limbs b"] by (meson less_le_trans one_le_numeral power_increasing)
qed

section \<open>Minimal widths and zero words\<close>

lemma min_width_le: "min_width d n \<le> n"
  by (induction n) (auto intro: le_SucI)

lemma min_width_top: "min_width d n = 0 \<or> d ! (min_width d n - 1) \<noteq> 0"
  by (induction n) auto

lemma lval_min_width: "n \<le> length d \<Longrightarrow> lval (take (min_width d n) d) = lval (take n d)"
  by (induction n) (auto simp: take_Suc_conv_app_nth lval_append)

lemma lval_0_iff: "lval ws = 0 \<longleftrightarrow> (\<forall>k < length ws. ws ! k = 0)"
  by (induction ws) (auto simp: unat_eq_zero nth_Cons less_Suc_eq_0_disj split: nat.split)

lemma bn_set_minimal_width_value:
  assumes "bn_ok (s_bn st h)"
  shows "bn_ok (s_bn (bn_set_minimal_width st h) h)" and "bval (s_bn (bn_set_minimal_width st h) h) = bval (s_bn st h)"
    and "frame h st (bn_set_minimal_width st h)" and "mag (s_bn (bn_set_minimal_width st h) h) = mag (s_bn st h)"
    and "b_neg (s_bn (bn_set_minimal_width st h) h) \<Longrightarrow> b_neg (s_bn st h) \<and> mag (s_bn st h) \<noteq> 0"
proof -
  let ?b = "s_bn st h" and ?m = "min_width (b_d (s_bn st h)) (b_width (s_bn st h))"
  have "lval (take ?m (b_d ?b)) = mag ?b" using assms by (simp add: lval_min_width bn_ok_def mag_def limbs_def)
  then show "bval (s_bn (bn_set_minimal_width st h) h) = bval ?b"
    by (auto simp: bn_set_minimal_width_def bn_minimal_width_def Let_def bval_def mag_def limbs_def)
  show m: "mag (s_bn (bn_set_minimal_width st h) h) = mag ?b" using \<open>lval _ = _\<close>
    by (auto simp: bn_set_minimal_width_def bn_minimal_width_def Let_def mag_def limbs_def)
  show "b_neg ?b \<and> mag ?b \<noteq> 0" if "b_neg (s_bn (bn_set_minimal_width st h) h)"
  proof -
    have "?m \<noteq> 0" "b_neg ?b" using that by (auto simp: bn_set_minimal_width_def bn_minimal_width_def Let_def split: if_splits)
    moreover have "?m \<le> length (b_d ?b)" using min_width_le [of "b_d ?b" "b_width ?b"] assms by (simp add: bn_ok_def)
    ultimately show ?thesis using min_width_top [of "b_d ?b" "b_width ?b"] lval_0_iff [of "take ?m (b_d ?b)"] \<open>lval _ = _\<close>
      by (auto dest: spec [of _ "?m - 1"])
  qed
  show "bn_ok (s_bn (bn_set_minimal_width st h) h)" using assms min_width_le [of "b_d ?b" "b_width ?b"]
    by (auto simp: bn_set_minimal_width_def bn_minimal_width_def Let_def bn_ok_def)
  show "frame h st (bn_set_minimal_width st h)"
    by (auto simp: bn_set_minimal_width_def Let_def frame_def)
qed

lemma or_zero: "a OR b = 0 \<longleftrightarrow> a = 0 \<and> b = 0" for a b :: "'a::len word"
  by (auto intro: bit_word_eqI simp: bit_eq_iff bit_or_iff)

lemma or_words_0: "or_words d i j m = 0 \<longleftrightarrow> m = 0 \<and> (\<forall>k. i \<le> k \<and> k < j \<longrightarrow> d ! k = 0)"
proof -
  have "foldl (\<lambda>m k. m OR d ! k) m ks = 0 \<longleftrightarrow> m = 0 \<and> (\<forall>k\<in>set ks. d ! k = 0)" for ks
    by (induction ks arbitrary: m) (auto simp: or_zero)
  from this [of "[i..<j]"] show ?thesis by (auto simp: or_words_def)
qed

lemma lval_lt_iff: "n \<le> length ws \<Longrightarrow> lval ws < size_mod ^ n \<longleftrightarrow> (\<forall>k. n \<le> k \<and> k < length ws \<longrightarrow> ws ! k = 0)"
proof -
  assume n: "n \<le> length ws"
  have lt: "lval (take n ws) < size_mod ^ n" using lval_lt [of "take n ws"] n by (simp add: min_absorb1)
  have "lval ws < size_mod ^ n \<longleftrightarrow> lval (drop n ws) = 0"
  proof
    assume "lval ws < size_mod ^ n"
    then have "size_mod ^ n * lval (drop n ws) < size_mod ^ n * 1" unfolding lval_take_drop [OF n] by linarith
    then show "lval (drop n ws) = 0" by simp
  next
    assume "lval (drop n ws) = 0"
    then show "lval ws < size_mod ^ n" using lt unfolding lval_take_drop [OF n] by simp
  qed
  also have "\<dots> \<longleftrightarrow> (\<forall>k. n \<le> k \<and> k < length ws \<longrightarrow> ws ! k = 0)"
    unfolding lval_0_iff using n by (auto simp: le_iff_add less_diff_conv add.commute)
  finally show ?thesis .
qed

lemma bn_fits: "bn_ok b \<Longrightarrow> bn_fits_in_words b n \<longleftrightarrow> mag b < size_mod ^ n"
proof (cases "n \<le> b_width b")
  case True
  assume "bn_ok b"
  then show ?thesis using True lval_lt_iff [of n "limbs b"]
    by (auto simp: bn_fits_in_words_def or_words_0 mag_def limbs_def bn_ok_def)
next
  case False
  have "size_mod ^ b_width b \<le> size_mod ^ n" by (rule power_increasing) (use False in auto)
  then have "mag b < size_mod ^ n" using mag_lt [of b] by (rule less_le_trans [rotated])
  then show ?thesis using False by (simp add: bn_fits_in_words_def or_words_def)
qed

lemma BN_is_zero_iff: "bn_ok b \<Longrightarrow> BN_is_zero b \<longleftrightarrow> mag b = 0"
  by (simp add: BN_is_zero_def bn_fits)

lemma bn_minimal_width_top:
  assumes "bn_ok b"
  shows "mag b < size_mod ^ bn_minimal_width b" and "bn_minimal_width b = 0 \<or> size_mod ^ (bn_minimal_width b - 1) \<le> mag b"
proof -
  let ?m = "bn_minimal_width b" and ?ws = "take (bn_minimal_width b) (b_d b)"
  have le: "?m \<le> length (b_d b)" using assms min_width_le [of "b_d b" "b_width b"] by (simp add: bn_minimal_width_def bn_ok_def)
  have m: "mag b = lval ?ws" using assms by (simp add: lval_min_width bn_ok_def mag_def limbs_def bn_minimal_width_def)
  show "mag b < size_mod ^ ?m" unfolding m using lval_lt [of ?ws] le by (simp add: min_absorb2)
  have "b_d b ! (?m - 1) \<noteq> 0" if "?m \<noteq> 0" using that min_width_top [of "b_d b" "b_width b"] by (auto simp: bn_minimal_width_def)
  then show "?m = 0 \<or> size_mod ^ (?m - 1) \<le> mag b"
    using lval_lt_iff [of "?m - 1" ?ws] le unfolding m by (cases "?m = 0") (auto simp: not_less [symmetric])
qed

section \<open>Comparisons\<close>

lemma msb_bit: "constant_time_msb_w a = (if bit a 63 then -1 else 0)"
proof -
  have "bit a 63 \<longleftrightarrow> \<not> unat a < 2 ^ 63"
  proof -
    have "unat a div 2 ^ 63 < 2" using unat_limb_lt [of a] by (simp add: less_mult_imp_div_less)
    then have "odd (unat a div 2 ^ 63) \<longleftrightarrow> unat a div 2 ^ 63 \<noteq> 0" by (auto simp: less_2_cases_iff)
    moreover have "bit a 63 \<longleftrightarrow> bit (unat a) 63" by (simp add: bit_unsigned_iff)
    ultimately show ?thesis unfolding bit_iff_odd [of "unat a"] by (simp add: div_greater_zero_iff not_less)
  qed
  then show ?thesis by (simp add: msb_w)
qed


lemma lt_w: "constant_time_lt_w a b = (if a < b then -1 else 0)"
proof -
  let ?s = "a - b"
  have b63: "bit w 63 \<longleftrightarrow> 2 ^ 63 \<le> unat w" for w :: limb
    using msb_bit [of w] msb_w [of w] by (auto split: if_splits)
  have "bit (a XOR ((a XOR b) OR (?s XOR a))) 63 \<longleftrightarrow> bit a 63 \<noteq> (bit a 63 \<noteq> bit b 63 \<or> bit ?s 63 \<noteq> bit a 63)"
    by (auto simp: bit_xor_iff bit_or_iff)
  also have "\<dots> \<longleftrightarrow> unat a < unat b"
    unfolding b63 unat_sub_if' using unat_limb_lt [of a] unat_limb_lt [of b] by (auto simp del: unat_u64_lt)
  finally have "bit (a XOR ((a XOR b) OR (?s XOR a))) 63 \<longleftrightarrow> unat a < unat b" .
  then show ?thesis by (simp add: constant_time_lt_w_def msb_bit word_less_nat_alt)
qed

lemma limb_xor_zero: "a XOR b = 0 \<longleftrightarrow> a = b" for a b :: limb
  by (auto simp: bit_eq_iff bit_xor_iff)

lemma eq_w: "constant_time_eq_w a b = (if a = b then -1 else 0)"
  by (simp add: constant_time_eq_w_def is_zero_w limb_xor_zero)

lemma select_int: "v \<in> {-1, 0, 1} \<Longrightarrow> w \<in> {-1, 0, 1} \<Longrightarrow>
  constant_time_select_int 0 v w = w \<and> constant_time_select_int (-1) v w = v"
proof -
  have "signed_take_bit 31 (uint (word_of_int v :: limb)) = v" if "v \<in> {-1, 0, 1}" for v
    using that by (elim insertE) (simp_all, code_simp+)
  then show "v \<in> {-1, 0, 1} \<Longrightarrow> w \<in> {-1, 0, 1} \<Longrightarrow>
    constant_time_select_int 0 v w = w \<and> constant_time_select_int (-1) v w = v" by (simp add: constant_time_select_int_def)
qed

lemma select_int_if:
  "v \<in> {-1, 0, 1} \<Longrightarrow> w \<in> {-1, 0, 1} \<Longrightarrow> constant_time_select_int (if p then -1 else 0) v w = (if p then v else w)"
  using select_int [of v w] by simp

lemma sgn_top:
  fixes x y :: int
  assumes "\<bar>x\<bar> < B"
  shows "sgn (x + B * y) = (if y = 0 then sgn x else sgn y)"
proof (cases y "0 :: int" rule: linorder_cases)
  case greater
  then have "B * 1 \<le> B * y" using assms by (intro mult_left_mono) auto
  then have "0 < x + B * y" using assms by linarith
  then show ?thesis using greater by simp
next
  case less
  then have "B * y \<le> B * - 1" using assms by (intro mult_left_mono) auto
  then have "x + B * y < 0" using assms by linarith
  then show ?thesis using less by simp
qed simp

lemma sgn_cases: "sgn x \<in> {-1, 0, 1}" for x :: int
  by (simp add: sgn_if)

lemma lval_diff_lt: "length xs = n \<Longrightarrow> length ys = n \<Longrightarrow> \<bar>int (lval xs) - int (lval ys)\<bar> < int size_mod ^ n"
proof -
  assume "length xs = n" "length ys = n"
  then have "int (lval xs) < int (size_mod ^ n)" "int (lval ys) < int (size_mod ^ n)"
    using lval_lt [of xs] lval_lt [of ys] unfolding of_nat_less_iff by auto
  then show ?thesis unfolding of_nat_power by linarith
qed

lemma cmp_step:
  assumes "v \<in> {-1, 0, 1}"
  shows "(let eq = constant_time_eq_w x y; lt = constant_time_lt_w x y
      in constant_time_select_int eq v (constant_time_select_int lt (-1) 1)) = (if x = y then v else if x < y then -1 else 1)"
proof -
  have lt: "constant_time_select_int (constant_time_lt_w x y) (-1) 1 = (if x < y then -1 else 1)"
    unfolding lt_w by (rule select_int_if) simp_all
  have "constant_time_select_int (constant_time_eq_w x y) v w = (if x = y then v else w)" if "w \<in> {-1, 0, 1}" for w
    unfolding eq_w by (rule select_int_if) (use assms that in simp_all)
  then show ?thesis unfolding Let_def lt by simp
qed

text \<open>The common words; then more words of one of the numbers.\<close>

lemma cmp_common:
  assumes "n \<le> length a" and "n \<le> length b"
  shows "foldl (\<lambda>ret i. let eq = constant_time_eq_w (a ! i) (b ! i); lt = constant_time_lt_w (a ! i) (b ! i)
      in constant_time_select_int eq ret (constant_time_select_int lt (-1) 1)) 0 [0..<n] =
    sgn (int (lval (take n a)) - int (lval (take n b)))"
  using assms
proof (induction n)
  case (Suc n)
  let ?x = "int (lval (take n a)) - int (lval (take n b))" and ?d = "uint (a ! n) - uint (b ! n)"
  have "int (lval (take (Suc n) a)) - int (lval (take (Suc n) b)) = ?x + int size_mod ^ n * ?d"
    using Suc(2,3) by (simp add: take_Suc_conv_app_nth lval_append algebra_simps)
  moreover have "sgn (?x + int size_mod ^ n * ?d) = (if ?d = 0 then sgn ?x else sgn ?d)"
    by (rule sgn_top) (rule lval_diff_lt, use Suc in auto)
  moreover have "?d = 0 \<longleftrightarrow> a ! n = b ! n" "sgn ?d = (if a ! n = b ! n then 0 else if a ! n < b ! n then -1 else 1)"
    by (auto simp: word_less_def word_uint_eq_iff)
  ultimately show ?case using Suc sgn_cases [of ?x]
    by (simp add: cmp_step [unfolded Let_def] Let_def del: insert_iff)
qed simp

lemma lval_more: "m \<le> n \<Longrightarrow> n \<le> length ws \<Longrightarrow>
  \<exists>k. lval (take n ws) = lval (take m ws) + size_mod ^ m * k \<and> (k = 0 \<longleftrightarrow> or_words ws m n 0 = 0)"
  using lval_take_drop [of m "take n ws"] lval_0_iff [of "drop m (take n ws)"]
  by (intro exI [of _ "lval (drop m (take n ws))"])
    (auto simp: or_words_0 min_absorb1 le_iff_add less_diff_conv add.commute)

lemma bn_cmp_words:
  assumes "a_len \<le> length a" and "b_len \<le> length b"
  shows "bn_cmp_words_consttime a a_len b b_len = sgn (int (lval (take a_len a)) - int (lval (take b_len b)))"
proof (cases a_len b_len rule: linorder_cases)
  case less
  obtain k where k: "lval (take b_len b) = lval (take a_len b) + size_mod ^ a_len * k" "k = 0 \<longleftrightarrow> or_words b a_len b_len 0 = 0"
    using lval_more [of a_len b_len b] assms less by auto
  let ?x = "int (lval (take a_len a)) - int (lval (take a_len b))"
  have "bn_cmp_words_consttime a a_len b b_len = (if k = 0 then sgn ?x else -1)"
    using less assms k(2) sgn_cases [of ?x]
    unfolding bn_cmp_words_consttime_def Let_def by (simp add: cmp_common [unfolded Let_def] is_zero_w select_int_if)
  moreover have v: "sgn (?x + int size_mod ^ a_len * (- int k)) = (if - int k = 0 then sgn ?x else sgn (- int k))"
    by (rule sgn_top) (rule lval_diff_lt, use assms less in auto)
  moreover have e: "?x + int size_mod ^ a_len * (- int k) = int (lval (take a_len a)) - int (lval (take b_len b))" by (simp add: k)
  ultimately show ?thesis using v [unfolded e] by (cases "k = 0") simp_all
next
  case greater
  obtain k where k: "lval (take a_len a) = lval (take b_len a) + size_mod ^ b_len * k" "k = 0 \<longleftrightarrow> or_words a b_len a_len 0 = 0"
    using lval_more [of b_len a_len a] assms greater by auto
  let ?x = "int (lval (take b_len a)) - int (lval (take b_len b))"
  have "bn_cmp_words_consttime a a_len b b_len = (if k = 0 then sgn ?x else 1)"
    using greater assms k(2) sgn_cases [of ?x]
    unfolding bn_cmp_words_consttime_def Let_def by (simp add: cmp_common [unfolded Let_def] is_zero_w select_int_if)
  moreover have v: "sgn (?x + int size_mod ^ b_len * int k) = (if int k = 0 then sgn ?x else sgn (int k))"
    by (rule sgn_top) (rule lval_diff_lt, use assms greater in auto)
  moreover have e: "?x + int size_mod ^ b_len * int k = int (lval (take a_len a)) - int (lval (take b_len b))" by (simp add: k)
  ultimately show ?thesis using v [unfolded e] by (cases "k = 0") simp_all
next
  case equal
  then show ?thesis using assms unfolding bn_cmp_words_consttime_def Let_def by (simp add: cmp_common [unfolded Let_def])
qed

lemma BN_ucmp_sgn: "bn_ok a \<Longrightarrow> bn_ok b \<Longrightarrow> BN_ucmp a b = sgn (int (mag a) - int (mag b))"
  by (simp add: BN_ucmp_def bn_cmp_words bn_ok_def mag_def limbs_def)


lemma BN_cmp_sgn: "bn_ok a \<Longrightarrow> bn_ok b \<Longrightarrow> canonical a \<Longrightarrow> canonical b \<Longrightarrow>
  BN_cmp (Some a) (Some b) = sgn (bval a - bval b)"
  by (auto simp: canonical_def BN_ucmp_sgn Let_def bval_def sgn_if)

section \<open>Room for more words\<close>

text \<open>Only the array of \<open>r\<close> may have been replaced, by one with the same words.\<close>

definition kept :: "nat \<Rightarrow> bns \<Rightarrow> bns \<Rightarrow> bool" where
  "kept r st st' \<longleftrightarrow> frame r st st' \<and> bn_ok (s_bn st' r) \<and> limbs (s_bn st' r) = limbs (s_bn st r) \<and>
     b_width (s_bn st' r) = b_width (s_bn st r) \<and> b_neg (s_bn st' r) = b_neg (s_bn st r) \<and>
     b_static (s_bn st' r) = b_static (s_bn st r)"

lemma keptD:
  assumes "kept r st st'"
  shows "frame r st st'" and "bn_ok (s_bn st' r)" and "limbs (s_bn st' h) = limbs (s_bn st h)"
    and "b_width (s_bn st' h) = b_width (s_bn st h)" and "b_neg (s_bn st' h) = b_neg (s_bn st h)"
    and "mag (s_bn st' h) = mag (s_bn st h)" and "bval (s_bn st' h) = bval (s_bn st h)"
    and "bn_ok (s_bn st h) \<Longrightarrow> bn_ok (s_bn st' h)"
  using assms by (cases "h = r"; simp add: kept_def frame_def mag_def bval_def)+

lemma bn_wexpand_spec:
  assumes "bn_ok (s_bn st r)"
  obtains st' where "bn_wexpand st r n = (able st r n, st')" and "kept r st st'" and "able st r n \<Longrightarrow> n \<le> b_dmax (s_bn st' r)"
proof -
  let ?b = "s_bn st r"
  have k0: "kept r st st" using assms by (simp add: kept_def)
  have k1: "kept r st (snd (next_malloc st))" using assms by (simp add: kept_def next_malloc_def frame_def)
  show ?thesis
  proof (cases "n \<le> b_dmax ?b \<or> n > WORDS_MAX \<or> b_static ?b"; cases "s_malloc st 0 = None")
    assume "\<not> (n \<le> b_dmax ?b \<or> n > WORDS_MAX \<or> b_static ?b)" "s_malloc st 0 = None"
    then show ?thesis using that [OF _ k1] by (simp add: bn_wexpand_def able_def next_malloc_def)
  next
    assume False: "\<not> (n \<le> b_dmax ?b \<or> n > WORDS_MAX \<or> b_static ?b)" "s_malloc st 0 \<noteq> None"
    then obtain g where g: "s_malloc st 0 = Some g" by auto
    let ?d = "splice (map g [0..<n]) 0 (take (b_width ?b) (b_d ?b))"
    let ?st = "upd (snd (next_malloc st)) r (\<lambda>b. b\<lparr>b_d := ?d, b_dmax := n\<rparr>)"
    have len: "length (take (b_width ?b) (b_d ?b)) = b_width ?b" "b_width ?b \<le> n" using assms False by (auto simp: bn_ok_def)
    then have "length ?d = n" by (simp add: length_splice)
    moreover have "take (b_width ?b) ?d = take (b_width ?b) (b_d ?b)" using len by (simp add: splice_def)
    ultimately have "kept r st ?st" using len False by (auto simp: kept_def bn_ok_def limbs_def frame_def next_malloc_def)
    moreover have "bn_wexpand st r n = (True, ?st)" using False g
      by (simp add: bn_wexpand_def next_malloc_def upd_def)
    ultimately show ?thesis using that [of ?st] False by (simp add: able_def)
  qed (use that [OF _ k0] in \<open>auto simp: bn_wexpand_def able_def\<close>)
qed

lemma words_limbs: "bn_ok (s_bn st h) \<Longrightarrow> words st (h, 0) (b_width (s_bn st h)) = limbs (s_bn st h)"
  by (simp add: words_def limbs_def)

lemma room_width: "bn_ok (s_bn st h) \<Longrightarrow> n \<le> b_dmax (s_bn st h) \<Longrightarrow> room st (h, 0) n"
  by (simp add: room_def bn_ok_def)

lemma digits_tail:
  assumes "room st p (i + n)"
  shows "digits (\<lambda>j. uint (rd st p j)) i n = int (lval (words st (advance p i) n))"
proof -
  have r: "rd st p (i + k) = rd st (advance p i) k" for k by (simp add: rd_def advance_def add.assoc)
  have "room st (advance p i) n" using assms by (simp add: room_def advance_def add.assoc)
  from lval_words [OF this] show ?thesis by (simp add: digits_def r)
qed

text \<open>What a loop has written at the start of \<open>r\<close> are its words, once the width is set.\<close>

lemma limbs_put: "room st (r, 0) (length ws) \<Longrightarrow> b_width (s_bn st r) = length ws \<Longrightarrow> limbs (s_bn (put st (r, 0) ws) r) = ws"
  by (simp add: limbs_def s_bn_put splice_def)

lemma put_keeps [simp]:
  "b_width (s_bn (put st p ws) h) = b_width (s_bn st h)" "b_neg (s_bn (put st p ws) h) = b_neg (s_bn st h)"
  "b_dmax (s_bn (put st p ws) h) = b_dmax (s_bn st h)" "b_static (s_bn (put st p ws) h) = b_static (s_bn st h)"
  by (simp_all add: s_bn_put)

lemma bn_ok_put: "room st (r, k) (length ws) \<Longrightarrow> bn_ok (s_bn (put st (r, k) ws) h) \<longleftrightarrow> bn_ok (s_bn st h)"
  by (auto simp: bn_ok_def s_bn_put room_def length_splice)

end
