(* ===== verification/BnAddSpec.thy ===== *)
theory BnAddSpec imports BnSpec begin

text \<open>
  Addition and subtraction of big numbers, \<open>add.c\<close>: sums of integers, whatever the arguments share.
\<close>

text \<open>A loop that hands a carry on, at words \<open>mn\<close> to \<open>mx\<close> behind words that are written already.\<close>

lemma tail_steps:
  assumes "room st r (length ws + n)" and "room st a (length ws + n)" and "follows r a (length ws + n)"
    and "\<And>st i c. f st i c = g (rd st a i) c"
    and "\<And>x c w c'. P c \<Longrightarrow> g x c = (w, c') \<Longrightarrow> uint w + int size_mod * V c' = uint x + V c \<and> P c'" and "P c"
  obtains us c' where "(word_step f r ^^ n) (length ws, put st r ws, c) = (length ws + n, put st r (ws @ us), c')"
    and "length us = n" and "P c'"
    and "int (lval us) + int size_mod ^ n * V c' = int (lval (words st (advance a (length ws)) n)) + V c"
proof -
  let ?g = "\<lambda>j. g (rd st a j)"
  obtain us c' where s: "scan ?g (length ws) n c = (us, c')" by fastforce
  have "(word_step f r ^^ n) (length ws, put st r ws, c) = (length ws + n, put st r (ws @ us), c')"
    using s assms(1-3) by (subst word_steps_from [where g = ?g]) (auto simp: assms(4) rd_follows room_def)
  moreover have "int (lval us) + int size_mod ^ n * V c' = digits (\<lambda>j. uint (rd st a j)) (length ws) n + V c \<and> P c'"
    by (rule scan_value [OF _ s]) (use assms(5,6) in auto)
  ultimately show ?thesis using that digits_tail [OF assms(2)] length_scan [of ?g "length ws" n c] s by simp
qed

lemma carry_step:
  fixes x w c c' :: limb
  assumes "unat c \<le> 1" and "(c + x, of_bool (c + x < x)) = (w, c')"
  shows "uint w + int size_mod * int (unat c') = uint x + int (unat c) \<and> unat c' \<le> 1"
proof -
  have "unat c = 0 \<or> unat c = 1" using assms(1) by linarith
  then have "unat w + size_mod * unat c' = unat x + unat c"
    using assms(2) unat_limb_lt [of x] by (auto simp: unat_plus_if' word_less_nat_alt simp del: unat_u64_lt)
  then show ?thesis using assms(2) uint_step [of w "unat c'" "unat x" "unat c"] by auto
qed

lemma borrow_step:
  fixes x w c c' :: limb
  assumes "unat c \<le> 1" and "(x - c, of_bool (x < x - c)) = (w, c')"
  shows "uint w + int size_mod * (- int (unat c')) = uint x + (- int (unat c)) \<and> unat c' \<le> 1"
proof -
  have "unat c = 0 \<or> unat c = 1" using assms(1) by linarith
  then have "unat w + unat c = unat x + size_mod * unat c'"
    using assms(2) unat_limb_lt [of x] by (auto simp: unat_sub_if' word_less_nat_alt simp del: unat_u64_lt)
  then have "int (unat w + unat c) = int (unat x + size_mod * unat c')" by (rule arg_cong)
  then show ?thesis using assms(2) by auto
qed

lemma follows_0 [simp]: "follows (r, 0) (a, 0) n"
  by (simp add: follows_def)

lemma room_less: "room st p n \<Longrightarrow> m \<le> n \<Longrightarrow> room st p m"
  by (simp add: room_def)

lemma words_set_width [simp]: "words (set_width st h n) p k = words st p k" "room (set_width st h n) p k = room st p k"
  by (simp_all add: words_def room_def)

lemma uadd_words:
  assumes ra: "room st (a, 0) m" and rb: "room st (b, 0) n" and le: "n \<le> m" and rr: "room st (r, 0) (m + 1)"
  obtains ws where "(case bn_add_words st (r, 0) (a, 0) (b, 0) n of (carry, st1) \<Rightarrow>
      case (word_step (uadd_step a) (r, 0) ^^ (m - n)) (n, st1, carry) of (_, st1, carry) \<Rightarrow>
        (True, wr st1 (r, 0) m carry)) = (True, put st (r, 0) ws)"
    and "length ws = m + 1" and "lval ws = lval (words st (a, 0) m) + lval (words st (b, 0) n)"
proof -
  obtain ws c where ws: "bn_add_words st (r, 0) (a, 0) (b, 0) n = (c, put st (r, 0) ws)" "length ws = n" "unat c \<le> 1"
    "lval ws + size_mod ^ n * unat c = lval (words st (a, 0) n) + lval (words st (b, 0) n)"
    by (rule bn_add_words_sum [of st "(r, 0)" n "(a, 0)" "(b, 0)"])
      (use assms in \<open>auto intro: room_less [OF rr] room_less [OF ra]\<close>)
  obtain us c' where us: "(word_step (uadd_step a) (r, 0) ^^ (m - n)) (length ws, put st (r, 0) ws, c) =
      (length ws + (m - n), put st (r, 0) (ws @ us), c')" "length us = m - n" "unat c' \<le> 1"
    "int (lval us) + int size_mod ^ (m - n) * int (unat c') = int (lval (words st (advance (a, 0) (length ws)) (m - n))) + int (unat c)"
    by (rule tail_steps [of st "(r, 0)" ws "m - n" "(a, 0)" "uadd_step a" "\<lambda>x c. (c + x, of_bool (c + x < x))" "\<lambda>c. unat c \<le> 1" "\<lambda>c. int (unat c)" c])
      (use assms ws carry_step in \<open>auto simp: uadd_step_def Let_def intro: room_less [OF rr]\<close>)
  have "wr (put st (r, 0) (ws @ us)) (r, 0) m c' = put st (r, 0) ((ws @ us) @ [c'])"
    using wr_snoc [of st "(r, 0)" "ws @ us" c'] assms ws us by simp
  moreover have "lval ((ws @ us) @ [c']) = lval (words st (a, 0) m) + lval (words st (b, 0) n)"
  proof -
    have u: "lval us + size_mod ^ (m - n) * unat c' = lval (words st (advance (a, 0) n) (m - n)) + unat c"
      using us(4) ws(2) by (intro nat_sum) simp
    have s: "lval (words st (a, 0) m) = lval (words st (a, 0) n) + size_mod ^ n * lval (words st (advance (a, 0) n) (m - n))"
      using words_split [of st "(a, 0)" n "m - n"] ra le room_less [OF ra le] by (simp add: lval_append)
    have "lval ((ws @ us) @ [c']) = lval ws + size_mod ^ n * (lval us + size_mod ^ (m - n) * unat c')"
      using ws(2) us(2) le by (simp add: lval_append algebra_simps flip: power_add)
    also have "\<dots> = lval ws + size_mod ^ n * unat c + size_mod ^ n * lval (words st (advance (a, 0) n) (m - n))"
      unfolding u by (simp add: algebra_simps)
    finally show ?thesis unfolding ws(4) s by simp
  qed
  ultimately show ?thesis using that [of "(ws @ us) @ [c']"] ws us le by simp
qed

text \<open>Differences; \<open>borrow\<close> tells whether the result is off by a power of the base.\<close>

lemma usub_words:
  assumes ra: "room st (a, 0) m" and rb: "room st (b, 0) n" and le: "n \<le> m" and rr: "room st (r, 0) m"
  obtains ws c where "\<And>F. (case bn_sub_words st (r, 0) (a, 0) (b, 0) n of (borrow, st1) \<Rightarrow>
      case (word_step (usub_step a) (r, 0) ^^ (m - n)) (n, st1, borrow) of (_, st1, borrow) \<Rightarrow> F st1 borrow) = F (put st (r, 0) ws) c"
    and "length ws = m" and "lval ws + lval (words st (b, 0) n) = lval (words st (a, 0) m) + size_mod ^ m * unat c"
proof -
  obtain ws c where ws: "bn_sub_words st (r, 0) (a, 0) (b, 0) n = (c, put st (r, 0) ws)" "length ws = n" "unat c \<le> 1"
    "lval ws + lval (words st (b, 0) n) = lval (words st (a, 0) n) + size_mod ^ n * unat c"
    by (rule bn_sub_words_diff [of st "(r, 0)" n "(a, 0)" "(b, 0)"])
      (use assms in \<open>auto intro: room_less [OF rr] room_less [OF ra]\<close>)
  obtain us c' where us: "(word_step (usub_step a) (r, 0) ^^ (m - n)) (length ws, put st (r, 0) ws, c) =
      (length ws + (m - n), put st (r, 0) (ws @ us), c')" "length us = m - n" "unat c' \<le> 1"
    "int (lval us) + int size_mod ^ (m - n) * (- int (unat c')) = int (lval (words st (advance (a, 0) (length ws)) (m - n))) + (- int (unat c))"
    by (rule tail_steps [of st "(r, 0)" ws "m - n" "(a, 0)" "usub_step a" "\<lambda>x c. (x - c, of_bool (x < x - c))" "\<lambda>c. unat c \<le> 1" "\<lambda>c. - int (unat c)" c])
      (use assms ws borrow_step in \<open>auto simp: usub_step_def Let_def intro: room_less [OF rr]\<close>)
  have u: "lval us + unat c = lval (words st (advance (a, 0) n) (m - n)) + size_mod ^ (m - n) * unat c'"
    using us(4) ws(2) nat_diff [of "lval us" "m - n" c' "lval (words st (advance (a, 0) n) (m - n))" "unat c"] by simp
  have s: "lval (words st (a, 0) m) = lval (words st (a, 0) n) + size_mod ^ n * lval (words st (advance (a, 0) n) (m - n))"
    using words_split [of st "(a, 0)" n "m - n"] ra le room_less [OF ra le] by (simp add: lval_append)
  have "lval (ws @ us) + lval (words st (b, 0) n) = lval (words st (a, 0) n) + size_mod ^ n * (lval us + unat c)"
    using ws(2,4) by (simp add: lval_append algebra_simps)
  also have "\<dots> = lval (words st (a, 0) m) + size_mod ^ m * unat c'"
    unfolding u s using le by (simp add: algebra_simps flip: power_add)
  finally show ?thesis using that [of "ws @ us" c'] ws us le by simp
qed

section \<open>Absolute values\<close>

text \<open>The result of an operation on absolute values; it says nothing of the sign.\<close>

definition sets_mag :: "bns \<Rightarrow> nat \<Rightarrow> bool \<Rightarrow> nat \<Rightarrow> bool \<Rightarrow> bool \<times> bns \<Rightarrow> bool" where
  "sets_mag st r p v ng res \<longleftrightarrow> (case res of (ok, st') \<Rightarrow>
     frame r st st' \<and> bn_ok (s_bn st' r) \<and> ok = p \<and> (ok \<longrightarrow> mag (s_bn st' r) = v \<and> (b_neg (s_bn st' r) \<longrightarrow> ng)))"

lemma written:
  assumes "kept r st st1" and "length ws \<le> b_dmax (s_bn st1 r)"
  shows "frame r st (put (set_width st1 r (length ws)) (r, 0) ws)" and "bn_ok (s_bn (put (set_width st1 r (length ws)) (r, 0) ws) r)"
    and "limbs (s_bn (put (set_width st1 r (length ws)) (r, 0) ws) r) = ws"
    and "room (set_width st1 r (length ws)) (r, 0) (length ws)"
proof -
  let ?st = "set_width st1 r (length ws)"
  have ok: "bn_ok (s_bn ?st r)" using keptD(2) [OF assms(1)] assms(2) by (simp add: bn_ok_def)
  then show r: "room ?st (r, 0) (length ws)" using assms(2) by (intro room_width) auto
  then show "bn_ok (s_bn (put ?st (r, 0) ws) r)" using ok by (simp add: bn_ok_put)
  show "limbs (s_bn (put ?st (r, 0) ws) r) = ws" by (rule limbs_put [OF r]) simp
  show "frame r st (put ?st (r, 0) ws)" by (rule frame_trans [OF keptD(1) [OF assms(1)] frame_trans [OF frame_set(1) frame_set(4)]])
qed


text \<open>The words of an argument, also when it is the result and its array has been replaced.\<close>

lemma kept_words:
  assumes "kept r st st1" and "bn_ok (s_bn st h)"
  shows "room st1 (h, 0) (b_width (s_bn st h))" and "lval (words st1 (h, 0) (b_width (s_bn st h))) = mag (s_bn st h)"
proof -
  have ok: "bn_ok (s_bn st1 h)" using keptD(8) [OF assms(1)] assms(2) .
  show "room st1 (h, 0) (b_width (s_bn st h))" using ok keptD(4) [OF assms(1), of h] by (intro room_width) (auto simp: bn_ok_def)
  show "lval (words st1 (h, 0) (b_width (s_bn st h))) = mag (s_bn st h)"
    using words_limbs [OF ok] keptD(3,4) [OF assms(1), of h] by (simp add: mag_def)
qed

lemma bn_uadd_consttime_mag:
  assumes "bn_ok (s_bn st r)" and "bn_ok (s_bn st a)" and "bn_ok (s_bn st b)"
  shows "sets_mag st r (able st r (max (b_width (s_bn st a)) (b_width (s_bn st b)) + 1)) (mag (s_bn st a) + mag (s_bn st b))
    (b_neg (s_bn st r)) (bn_uadd_consttime st r a b)"
proof -
  have main: "sets_mag st r (able st r (b_width (s_bn st a) + 1)) (mag (s_bn st a) + mag (s_bn st b)) (b_neg (s_bn st r))
      (let mx = b_width (s_bn st a); mn = b_width (s_bn st b)
        in chk (bn_wexpand st r (mx + 1)) (\<lambda>st. let st = set_width st r (mx + 1)
             in case bn_add_words st (r, 0) (a, 0) (b, 0) mn of (carry, st) \<Rightarrow>
                case (word_step (uadd_step a) (r, 0) ^^ (mx - mn)) (mn, st, carry) of (_, st, carry) \<Rightarrow>
                  (True, wr st (r, 0) mx carry)))"
    if ab: "bn_ok (s_bn st a)" "bn_ok (s_bn st b)" "b_width (s_bn st b) \<le> b_width (s_bn st a)" for a b
  proof -
    let ?m = "b_width (s_bn st a)" and ?n = "b_width (s_bn st b)"
    obtain st1 where e: "bn_wexpand st r (?m + 1) = (able st r (?m + 1), st1)" "kept r st st1"
      "able st r (?m + 1) \<Longrightarrow> ?m + 1 \<le> b_dmax (s_bn st1 r)" using bn_wexpand_spec [OF assms(1), of "?m + 1"] by blast
    show ?thesis
    proof (cases "able st r (?m + 1)")
      case True
      let ?st = "set_width st1 r (?m + 1)"
      have ra: "room ?st (a, 0) ?m" and rb: "room ?st (b, 0) ?n" using kept_words(1) [OF e(2)] ab by simp_all
      have rr: "room ?st (r, 0) (?m + 1)" using written(4) [OF e(2), of "replicate (?m + 1) 0"] e(3) True by (simp del: replicate_Suc)
      obtain ws where ws: "(case bn_add_words ?st (r, 0) (a, 0) (b, 0) ?n of (carry, st1) \<Rightarrow>
          case (word_step (uadd_step a) (r, 0) ^^ (?m - ?n)) (?n, st1, carry) of (_, st1, carry) \<Rightarrow>
            (True, wr st1 (r, 0) ?m carry)) = (True, put ?st (r, 0) ws)" "length ws = ?m + 1"
        "lval ws = lval (words ?st (a, 0) ?m) + lval (words ?st (b, 0) ?n)"
        by (rule uadd_words [OF ra rb ab(3) rr])
      have "lval ws = mag (s_bn st a) + mag (s_bn st b)" using ws(3) kept_words(2) [OF e(2)] ab by simp
      then show ?thesis using True e ws written [OF e(2), of ws] keptD(5) [OF e(2), of r]
        by (simp add: sets_mag_def Let_def mag_def)
    next
      case False
      then show ?thesis using e(1,2) by (simp add: sets_mag_def Let_def kept_def)
    qed
  qed
  show ?thesis
  proof (cases "b_width (s_bn st a) < b_width (s_bn st b)")
    case True
    then show ?thesis using main [OF assms(3,2)] unfolding bn_uadd_consttime_def by (simp add: max_def add.commute)
  next
    case False
    then show ?thesis using main [OF assms(2,3)] unfolding bn_uadd_consttime_def by (simp add: max_def)
  qed
qed

lemma sets_mag_minimal:
  assumes "sets_mag st r p v ng res"
  shows "sets_mag st r p v (ng \<and> v \<noteq> 0) (chk res (\<lambda>st. (True, bn_set_minimal_width st r)))"
proof -
  obtain ok st' where res: "res = (ok, st')" by fastforce
  then have "bn_ok (s_bn st' r)" "frame r st st'" using assms by (simp_all add: sets_mag_def)
  then show ?thesis using assms bn_set_minimal_width_value [of st' r] frame_trans unfolding res
    by (cases ok) (auto simp: sets_mag_def)
qed

lemma written_after:
  assumes "kept r st st1" and "length ws \<le> b_dmax (s_bn st1 r)"
  shows "frame r st (put st1 (r, 0) ws)" and "bn_ok (s_bn (put st1 (r, 0) ws) r)"
    and "bn_ok ((s_bn (put st1 (r, 0) ws) r)\<lparr>b_width := length ws\<rparr>)"
    and "limbs ((s_bn (put st1 (r, 0) ws) r)\<lparr>b_width := length ws, b_neg := ng\<rparr>) = ws"
proof -
  have ok: "bn_ok (s_bn st1 r)" using keptD(2) [OF assms(1)] .
  then have r: "room st1 (r, 0) (length ws)" using assms(2) by (intro room_width) auto
  then show ok': "bn_ok (s_bn (put st1 (r, 0) ws) r)" using ok by (simp add: bn_ok_put)
  then show "bn_ok ((s_bn (put st1 (r, 0) ws) r)\<lparr>b_width := length ws\<rparr>)" using assms(2) by (simp add: bn_ok_def)
  show "limbs ((s_bn (put st1 (r, 0) ws) r)\<lparr>b_width := length ws, b_neg := ng\<rparr>) = ws"
    using r by (simp add: limbs_def s_bn_put splice_def)
  show "frame r st (put st1 (r, 0) ws)" by (rule frame_trans [OF keptD(1) [OF assms(1)] frame_set(4)])
qed

lemma bn_ok_neg [simp]: "bn_ok (b\<lparr>b_neg := v\<rparr>) = bn_ok b"
  by (simp add: bn_ok_def)

text \<open>When only the words up to \<open>n\<close> are not zero, they are enough.\<close>

lemma mag_short:
  assumes "kept r st st1" and "bn_ok (s_bn st b)" and "n \<le> b_width (s_bn st b)" and "mag (s_bn st b) < size_mod ^ n"
  shows "lval (words st1 (b, 0) n) = mag (s_bn st b)"
proof -
  let ?ws = "words st1 (b, 0) (b_width (s_bn st b))"
  have l: "length ?ws = b_width (s_bn st b)" "lval ?ws = mag (s_bn st b)"
    using kept_words [OF assms(1,2)] by simp_all
  then have "lval (take n ?ws) = lval ?ws"
    using lval_take_drop [of n ?ws] assms(3,4) by (cases "lval (drop n ?ws)") auto
  then show ?thesis using l assms(3) by (simp add: words_def min_absorb1)
qed

lemma bn_usub_consttime_mag:
  assumes "bn_ok (s_bn st r)" and "bn_ok (s_bn st a)" and "bn_ok (s_bn st b)"
  shows "sets_mag st r (mag (s_bn st b) \<le> mag (s_bn st a) \<and> able st r (b_width (s_bn st a))) (mag (s_bn st a) - mag (s_bn st b)) False
    (bn_usub_consttime st r a b)"
proof -
  let ?m = "b_width (s_bn st a)" and ?bw = "b_width (s_bn st b)"
  let ?n = "min ?bw ?m"
  show ?thesis
  proof (cases "?bw > ?m \<and> \<not> bn_fits_in_words (s_bn st b) ?m")
    case True
    then have "\<not> mag (s_bn st b) \<le> mag (s_bn st a)" using mag_lt [of "s_bn st a"] bn_fits [OF assms(3), of ?m] by linarith
    then show ?thesis using True assms(1) by (simp add: bn_usub_consttime_def Let_def sets_mag_def)
  next
    case fits: False
    obtain st1 where e: "bn_wexpand st r ?m = (able st r ?m, st1)" "kept r st st1" "able st r ?m \<Longrightarrow> ?m \<le> b_dmax (s_bn st1 r)"
      using bn_wexpand_spec [OF assms(1), of ?m] by blast
    show ?thesis
    proof (cases "able st r ?m")
      case True
      have ra: "room st1 (a, 0) ?m" by (rule kept_words(1) [OF e(2) assms(2)])
      have rb: "room st1 (b, 0) ?n" by (rule room_less [OF kept_words(1) [OF e(2) assms(3)]]) simp
      have rr: "room st1 (r, 0) ?m" using room_width [OF keptD(2) [OF e(2)]] e(3) True by blast
      have vb: "lval (words st1 (b, 0) ?n) = mag (s_bn st b)"
        using mag_short [OF e(2) assms(3), of ?n] mag_lt [of "s_bn st b"] fits bn_fits [OF assms(3), of ?m] by (auto simp: min_def)
      obtain ws c where ws: "\<And>F :: bns \<Rightarrow> limb \<Rightarrow> bool \<times> bns. (case bn_sub_words st1 (r, 0) (a, 0) (b, 0) ?n of (borrow, st1) \<Rightarrow>
          case (word_step (usub_step a) (r, 0) ^^ (?m - ?n)) (?n, st1, borrow) of (_, st1, borrow) \<Rightarrow> F st1 borrow) = F (put st1 (r, 0) ws) c"
        "length ws = ?m" "lval ws + lval (words st1 (b, 0) ?n) = lval (words st1 (a, 0) ?m) + size_mod ^ ?m * unat c"
        using usub_words [OF ra rb _ rr] by auto
      have v: "lval ws + mag (s_bn st b) = mag (s_bn st a) + size_mod ^ ?m * unat c"
        using ws(3) vb kept_words(2) [OF e(2) assms(2)] by simp
      have c: "c = 0 \<longleftrightarrow> mag (s_bn st b) \<le> mag (s_bn st a)"
      proof
        show "mag (s_bn st b) \<le> mag (s_bn st a)" if "c = 0" using v that by simp
        show "c = 0" if le: "mag (s_bn st b) \<le> mag (s_bn st a)"
        proof (rule ccontr)
          assume "c \<noteq> 0"
          then have "size_mod ^ ?m * 1 \<le> size_mod ^ ?m * unat c" by (intro mult_le_mono2) (simp add: Suc_le_eq unat_gt_0)
          moreover have "lval ws < size_mod ^ ?m" using lval_lt [of ws] ws(2) by simp
          ultimately show False using v le by linarith
        qed
      qed
      have run: "bn_usub_consttime st r a b =
          (if c \<noteq> 0 then (False, put st1 (r, 0) ws) else (True, set_neg (set_width (put st1 (r, 0) ws) r ?m) r False))"
      proof -
        have mn: "(if ?bw > ?m then ?m else ?bw) = ?n" by simp
        show ?thesis unfolding bn_usub_consttime_def Let_def mn if_not_P [OF fits] e(1) using True ws(1) by (simp only: chk_simps)
      qed
      show ?thesis unfolding run using written_after [OF e(2), of ws] e(3) True c v ws(2)
        by (auto simp: sets_mag_def mag_def intro!: frame_trans [OF _ frame_trans [OF frame_set(1) frame_set(2)]])
    next
      case False
      then show ?thesis using e(1,2) fits assms(1) by (simp add: bn_usub_consttime_def sets_mag_def Let_def kept_def)
    qed
  qed
qed


section \<open>Sums and differences\<close>

lemma able_less: "able st r n \<Longrightarrow> m \<le> n \<Longrightarrow> able st r m"
  by (auto simp: able_def)

lemma BN_uadd_mag:
  assumes "bn_ok (s_bn st r)" and "bn_ok (s_bn st a)" and "bn_ok (s_bn st b)"
  shows "sets_mag st r (able st r (max (b_width (s_bn st a)) (b_width (s_bn st b)) + 1)) (mag (s_bn st a) + mag (s_bn st b))
    (b_neg (s_bn st r) \<and> mag (s_bn st a) + mag (s_bn st b) \<noteq> 0) (BN_uadd st r a b)"
  unfolding BN_uadd_def by (rule sets_mag_minimal [OF bn_uadd_consttime_mag [OF assms]])

lemma BN_usub_mag:
  assumes "bn_ok (s_bn st r)" and "bn_ok (s_bn st a)" and "bn_ok (s_bn st b)"
  shows "sets_mag st r (mag (s_bn st b) \<le> mag (s_bn st a) \<and> able st r (b_width (s_bn st a))) (mag (s_bn st a) - mag (s_bn st b)) False
    (BN_usub st r a b)"
  using sets_mag_minimal [OF bn_usub_consttime_mag [OF assms]] unfolding BN_usub_def by simp

text \<open>A sign for the result.\<close>

lemma sets_with_neg:
  assumes "sets_mag st r p m ng res" and "v = (if s then - int m else int m)" and "q \<Longrightarrow> s \<Longrightarrow> m \<noteq> 0" and "able st r n \<Longrightarrow> p"
  shows "gives st r n v q (chk res (\<lambda>st. (True, set_neg st r s)))"
    and "gives st r n v q (case res of (ok, st) \<Rightarrow> (ok, set_neg st r s))"
proof -
  obtain ok st' where res: "res = (ok, st')" by fastforce
  have m: "mag (s_bn st' r\<lparr>b_neg := s\<rparr>) = mag (s_bn st' r)" by (simp add: mag_def limbs_def)
  show "gives st r n v q (chk res (\<lambda>st. (True, set_neg st r s)))" "gives st r n v q (case res of (ok, st) \<Rightarrow> (ok, set_neg st r s))"
    using assms m unfolding res
    by (auto simp: gives_def sets_mag_def bval_def canonical_def chk_def intro: frame_trans [OF _ frame_set(2)])
qed

text \<open>The subtraction of absolute values that \<open>BN_add\<close> and \<open>BN_sub\<close> share.\<close>

lemma abs_difference:
  assumes "bn_ok (s_bn st r)" and "bn_ok (s_bn st a)" and "bn_ok (s_bn st b)"
    and "max (b_width (s_bn st a)) (b_width (s_bn st b)) \<le> n"
  shows "gives st r n (int (mag (s_bn st a)) - int (mag (s_bn st b))) q
    (if BN_ucmp (s_bn st a) (s_bn st b) < 0 then chk (BN_usub st r b a) (\<lambda>st. (True, set_neg st r True))
     else chk (BN_usub st r a b) (\<lambda>st. (True, set_neg st r False)))"
proof (cases "mag (s_bn st a) < mag (s_bn st b)")
  case True
  have "BN_ucmp (s_bn st a) (s_bn st b) < 0" using True assms by (simp add: BN_ucmp_sgn)
  moreover have "gives st r n (int (mag (s_bn st a)) - int (mag (s_bn st b))) q (chk (BN_usub st r b a) (\<lambda>st. (True, set_neg st r True)))"
    by (rule sets_with_neg(1) [OF BN_usub_mag [OF assms(1,3,2)]]) (use True assms(4) able_less in auto)
  ultimately show ?thesis by simp
next
  case False
  have "\<not> BN_ucmp (s_bn st a) (s_bn st b) < 0" using False assms by (simp add: BN_ucmp_sgn sgn_if)
  moreover have "gives st r n (int (mag (s_bn st a)) - int (mag (s_bn st b))) q (chk (BN_usub st r a b) (\<lambda>st. (True, set_neg st r False)))"
    by (rule sets_with_neg(1) [OF BN_usub_mag [OF assms(1,2,3)]]) (use False assms(4) able_less in auto)
  ultimately show ?thesis by simp
qed

lemma BN_add_gives:
  assumes "bn_ok (s_bn st r)" and "bn_ok (s_bn st a)" and "bn_ok (s_bn st b)"
  shows "gives st r (max (b_width (s_bn st a)) (b_width (s_bn st b)) + 1) (bval (s_bn st a) + bval (s_bn st b)) (canonical (s_bn st a)) (BN_add st r a b)"
proof (cases "b_neg (s_bn st a) = b_neg (s_bn st b)")
  case True
  have "gives st r (max (b_width (s_bn st a)) (b_width (s_bn st b)) + 1) (bval (s_bn st a) + bval (s_bn st b)) (canonical (s_bn st a))
      (case BN_uadd st r a b of (ret, st') \<Rightarrow> (ret, set_neg st' r (b_neg (s_bn st a))))"
    by (rule sets_with_neg(2) [OF BN_uadd_mag [OF assms(1-3)]]) (use True in \<open>auto simp: bval_def canonical_def\<close>)
  then show ?thesis using True by (simp add: BN_add_def Let_def)
next
  case False
  define n where "n = max (b_width (s_bn st a)) (b_width (s_bn st b)) + 1"
  have le: "max (b_width (s_bn st a)) (b_width (s_bn st b)) \<le> n" "max (b_width (s_bn st b)) (b_width (s_bn st a)) \<le> n"
    unfolding n_def by (rule le_add1, subst max.commute, rule le_add1)
  show ?thesis unfolding n_def [symmetric]
    using False abs_difference [OF assms(1-3) le(1)] abs_difference [OF assms(1,3,2) le(2)]
    by (cases "b_neg (s_bn st a)") (auto simp: BN_add_def Let_def bval_def)
qed

lemma BN_sub_gives:
  assumes "bn_ok (s_bn st r)" and "bn_ok (s_bn st a)" and "bn_ok (s_bn st b)"
  shows "gives st r (max (b_width (s_bn st a)) (b_width (s_bn st b)) + 1) (bval (s_bn st a) - bval (s_bn st b)) (canonical (s_bn st a)) (BN_sub st r a b)"
proof (cases "b_neg (s_bn st a) = b_neg (s_bn st b)")
  case True
  define n where "n = max (b_width (s_bn st a)) (b_width (s_bn st b)) + 1"
  have le: "max (b_width (s_bn st a)) (b_width (s_bn st b)) \<le> n" "max (b_width (s_bn st b)) (b_width (s_bn st a)) \<le> n"
    unfolding n_def by (rule le_add1, subst max.commute, rule le_add1)
  show ?thesis unfolding n_def [symmetric]
    using True abs_difference [OF assms(1-3) le(1)] abs_difference [OF assms(1,3,2) le(2)]
    by (cases "b_neg (s_bn st a)") (auto simp: BN_sub_def Let_def bval_def)
next
  case False
  have "gives st r (max (b_width (s_bn st a)) (b_width (s_bn st b)) + 1) (bval (s_bn st a) - bval (s_bn st b)) (canonical (s_bn st a))
      (chk (BN_uadd st r a b) (\<lambda>st'. (True, set_neg st' r (b_neg (s_bn st a)))))"
    by (rule sets_with_neg(1) [OF BN_uadd_mag [OF assms(1-3)]]) (use False in \<open>auto simp: bval_def canonical_def\<close>)
  then show ?thesis using False by (cases "b_neg (s_bn st a)") (simp_all add: BN_sub_def Let_def)
qed

end
