(* ===== verification/BnBytesSpec.thy ===== *)
theory BnBytesSpec imports BnSpec Der begin

text \<open>
  The bits and bytes of big numbers: \<open>BN_num_bits\<close> is the length of the binary representation, and the conversions of
  \<open>bytes.c\<close> are the big-endian and little-endian representations. Two of them keep the sign that the
  result had before the call.
\<close>

section \<open>Numbers of bits\<close>

definition bit_length :: "nat \<Rightarrow> nat \<Rightarrow> bool" where
  "bit_length v n \<longleftrightarrow> v < 2 ^ n \<and> (n = 0 \<or> 2 ^ (n - 1) \<le> v)"

lemma bit_length_unique: "bit_length v n \<Longrightarrow> bit_length v m \<Longrightarrow> n = m"
proof (induction n m rule: linorder_wlog)
  case (le n m)
  show ?case
  proof (rule ccontr)
    assume "n \<noteq> m"
    then have "n \<le> m - 1" "m \<noteq> 0" using le by simp_all
    then have "(2 :: nat) ^ n \<le> 2 ^ (m - 1)" by (intro power_increasing) simp_all
    moreover have "2 ^ (m - 1) \<le> v" "v < 2 ^ n" using le \<open>m \<noteq> 0\<close> by (simp_all add: bit_length_def)
    ultimately show False by linarith
  qed
qed simp

text \<open>The state of \<open>BN_num_bits_word\<close> before the block for \<open>k\<close> bits.\<close>

definition bits_inv :: "limb \<Rightarrow> nat \<Rightarrow> nat \<times> limb \<Rightarrow> bool" where
  "bits_inv l0 k s \<longleftrightarrow> (\<exists>c. s = (1 + c, drop_bit c l0) \<and> unat (drop_bit c l0) < 2 ^ k \<and> drop_bit c l0 \<noteq> 0)"

lemma top_mask: "0 < k \<Longrightarrow> 0 - drop_bit 63 (0 - drop_bit k l) = (if drop_bit k l = 0 then 0 else -1)" for l :: limb
proof -
  assume "0 < k"
  then have "unat (drop_bit k l) \<le> unat l div 2" unfolding unat_drop_bit
    by (intro div_le_mono2) (auto simp: self_le_power)
  then have lt: "unat (drop_bit k l) < 9223372036854775808" using unat_limb_lt [of l] by linarith
  show ?thesis
  proof (cases "drop_bit k l = 0")
    case False
    then have "unat (0 - drop_bit k l) = size_mod - unat (drop_bit k l)"       using unat_sub_if' [of 0 "drop_bit k l"] by (simp add: unat_eq_zero)
    then have "\<not> unat (0 - drop_bit k l) < 2 ^ 63" using lt by simp
    then show ?thesis using False msb_w [of "0 - drop_bit k l"] by (simp add: constant_time_msb_w_def)
  qed simp
qed

lemma bits_block:
  assumes "bits_inv l0 (2 * k) s" and "0 < k" and "k < 64"
  shows "bits_inv l0 k (num_bits_block k s)"
proof -
  obtain c where s: "s = (1 + c, drop_bit c l0)" "unat (drop_bit c l0) < 2 ^ (2 * k)" "drop_bit c l0 \<noteq> 0"
    using assms(1) by (auto simp: bits_inv_def)
  let ?l = "drop_bit c l0"
  have k: "unat (word_of_nat k :: limb) = k" using assms(3) by (simp add: unat_of_nat)
  have l: "l XOR (x XOR l) = x" for l x :: limb by (auto simp: bit_eq_iff bit_xor_iff)
  show ?thesis
  proof (cases "drop_bit k ?l = 0")
    case True
    then have "num_bits_block k s = s" using top_mask [OF assms(2), of ?l] by (simp add: s num_bits_block_def Let_def)
    moreover have "unat ?l < 2 ^ k" using True by (metis unat_drop_bit unat_0 div_eq_0_iff power_not_zero zero_neq_numeral)
    ultimately show ?thesis using s by (auto simp: bits_inv_def)
  next
    case False
    then have "num_bits_block k s = (1 + (c + k), drop_bit (c + k) l0)"
      using top_mask [OF assms(2), of ?l] by (simp add: s num_bits_block_def Let_def l k add.commute)
    moreover have "unat (drop_bit k ?l) < 2 ^ k"
      using s(2) unfolding unat_drop_bit [of k] by (intro less_mult_imp_div_less) (simp flip: power_add mult_2)
    ultimately show ?thesis using False by (auto simp: bits_inv_def add.commute)
  qed
qed

lemma BN_num_bits_word_length: "bit_length (unat l) (BN_num_bits_word l)"
proof (cases "l = 0")
  case True
  have "BN_num_bits_word 0 = 0" by (simp add: BN_num_bits_word_def num_bits_block_def)
  then show ?thesis using True by (simp add: bit_length_def)
next
  case False
  have "bits_inv l 64 (of_bool (l \<noteq> 0), l)" unfolding bits_inv_def using False unat_limb_lt [of l] by (intro exI [of _ 0]) (simp del: unat_u64_lt)
  then have "bits_inv l 32 (num_bits_block 32 (of_bool (l \<noteq> 0), l))" by (intro bits_block) simp_all
  then have "bits_inv l 16 (num_bits_block 16 (num_bits_block 32 (of_bool (l \<noteq> 0), l)))" by (intro bits_block) simp_all
  then have "bits_inv l 8 (num_bits_block 8 (num_bits_block 16 (num_bits_block 32 (of_bool (l \<noteq> 0), l))))" by (intro bits_block) simp_all
  then have "bits_inv l 4 (num_bits_block 4 (num_bits_block 8 (num_bits_block 16 (num_bits_block 32 (of_bool (l \<noteq> 0), l)))))"
    by (intro bits_block) simp_all
  then have "bits_inv l 2 (num_bits_block 2 (num_bits_block 4 (num_bits_block 8 (num_bits_block 16
      (num_bits_block 32 (of_bool (l \<noteq> 0), l))))))" by (intro bits_block) simp_all
  then have "bits_inv l 1 (num_bits_block 1 (num_bits_block 2 (num_bits_block 4 (num_bits_block 8 (num_bits_block 16
      (num_bits_block 32 (of_bool (l \<noteq> 0), l)))))))" by (intro bits_block) simp_all
  then obtain c where c: "BN_num_bits_word l = 1 + c" "unat (drop_bit c l) < 2" "drop_bit c l \<noteq> 0"
    by (auto simp: bits_inv_def BN_num_bits_word_def)
  then have "unat (drop_bit c l) = 1" using unat_gt_0 [of "drop_bit c l"] by linarith
  then have "unat l div 2 ^ c = 1" by (simp add: unat_drop_bit)
  then have e: "2 ^ c + unat l mod 2 ^ c = unat l" using div_mult_mod_eq [of "unat l" "2 ^ c"] by simp
  moreover have "unat l mod 2 ^ c < 2 ^ c" by simp
  ultimately have "2 ^ c \<le> unat l \<and> unat l < 2 ^ (1 + c)" unfolding power_add power_one_right by linarith
  then show ?thesis by (simp add: bit_length_def c)
qed

lemma lval_top:
  assumes "bn_ok b" and "bn_minimal_width b = Suc m"
  shows "mag b = lval (take m (b_d b)) + size_mod ^ m * unat (b_d b ! m)" and "m < length (b_d b)"
proof -
  have le: "Suc m \<le> length (b_d b)" using assms min_width_le [of "b_d b" "b_width b"] by (simp add: bn_minimal_width_def bn_ok_def)
  then show "m < length (b_d b)" by simp
  have "mag b = lval (take (Suc m) (b_d b))"
    using assms lval_min_width [of "b_width b" "b_d b"] by (simp add: bn_ok_def mag_def limbs_def bn_minimal_width_def)
  then show "mag b = lval (take m (b_d b)) + size_mod ^ m * unat (b_d b ! m)" using le
    by (simp add: take_Suc_conv_app_nth lval_append)
qed

lemma BN_num_bits_length:
  assumes "bn_ok b"
  shows "bit_length (mag b) (BN_num_bits b)"
proof (cases "bn_minimal_width b")
  case 0
  then show ?thesis using bn_minimal_width_top(1) [OF assms] by (simp add: BN_num_bits_def Let_def bit_length_def)
next
  case (Suc m)
  let ?t = "unat (b_d b ! m)" and ?n = "BN_num_bits_word (b_d b ! m)"
  have v: "mag b = lval (take m (b_d b)) + size_mod ^ m * ?t" "m < length (b_d b)" using lval_top [OF assms Suc] .
  have p: "size_mod ^ m = 2 ^ (m * 64)" by (simp add: power_mult mult.commute [of m])
  have low: "lval (take m (b_d b)) < 2 ^ (m * 64)" unfolding p [symmetric] using lval_lt [of "take m (b_d b)"] v(2) by (simp add: min_absorb2)
  have n: "?t < 2 ^ ?n" "?n = 0 \<or> 2 ^ (?n - 1) \<le> ?t" using BN_num_bits_word_length [of "b_d b ! m"] by (simp_all add: bit_length_def)
  have "?t \<noteq> 0" using min_width_top [of "b_d b" "b_width b"] Suc by (auto simp: bn_minimal_width_def unat_eq_zero)
  then have n0: "?n \<noteq> 0" using n(1) by (cases ?n) auto
  have "mag b < 2 ^ (m * 64) * (?t + 1)" using low unfolding v p by simp
  also have "\<dots> \<le> 2 ^ (m * 64) * 2 ^ ?n" using n(1) by (intro mult_le_mono2) simp
  finally have "mag b < 2 ^ (m * 64 + ?n)" by (simp add: power_add)
  moreover have "2 ^ (m * 64 + (?n - 1)) \<le> mag b" unfolding v p power_add using n(2) n0 by (intro trans_le_add2 mult_le_mono2) simp
  ultimately show ?thesis using n0 Suc by (simp add: BN_num_bits_def Let_def bit_length_def)
qed


section \<open>Bytes\<close>

lemma le_bytes_add: "le_bytes (m + n) v = le_bytes m v @ le_bytes n (v div 256 ^ m)"
  by (induction m arbitrary: v) (simp_all add: div_mult2_eq)

lemma le_bytes_low: "le_bytes n (v mod 256 ^ n) = le_bytes n v"
proof (induction n arbitrary: v)
  case (Suc n)
  have "(word_of_nat (v mod 256 ^ Suc n) :: u8) = word_of_nat v"
    by (rule word_unat_eq_iff [THEN iffD2]) (simp add: unat_of_nat_u8 mod_mod_cancel)
  moreover have "v mod 256 ^ Suc n div 256 = v div 256 mod 256 ^ n" by (simp add: mod_mult2_eq)
  ultimately show ?case using Suc [of "v div 256"] by simp
qed simp

lemma limb_bytes_le: "limb_bytes ws = le_bytes (8 * length ws) (lval ws)"
proof (induction ws)
  case (Cons w ws)
  have "le_bytes 8 (unat w + size_mod * lval ws) = le_bytes 8 (unat w)"
    using le_bytes_low [of 8 "unat w + size_mod * lval ws"] unat_limb_lt [of w] by simp
  moreover have "(unat w + size_mod * lval ws) div 256 ^ 8 = lval ws" using unat_limb_lt [of w] by simp
  ultimately have "le_bytes (8 + 8 * length ws) (lval (w # ws)) = le_bytes 8 (unat w) @ le_bytes (8 * length ws) (lval ws)"
    unfolding le_bytes_add by simp
  then show ?case using Cons by (simp add: limb_bytes_def)
qed (simp add: limb_bytes_def)

lemma le_val_replicate [simp]: "le_val (replicate n 0) = 0"
  by (induction n) simp_all

lemma le_val_append: "le_val (xs @ ys) = le_val xs + 256 ^ length xs * le_val ys"
  by (induction xs) (simp_all add: algebra_simps)

lemma le_bytes_unique: "length bs = n \<Longrightarrow> le_val bs = v \<Longrightarrow> bs = le_bytes n v"
  using le_bytes_le_val by metis

lemma lval_limb_bytes: "le_val (limb_bytes ws) = lval ws"
proof -
  have "lval ws < 256 ^ (8 * length ws)" using lval_lt [of ws] by (simp add: power_mult)
  then show ?thesis by (simp add: limb_bytes_le le_val_le_bytes)
qed

lemma take_limb_bytes: "n \<le> length d \<Longrightarrow> take (n * 8) (limb_bytes d) = limb_bytes (take n d)"
proof (induction n arbitrary: d)
  case (Suc n)
  then obtain w ws where d: "d = w # ws" by (cases d) auto
  then show ?case using Suc by (simp add: limb_bytes_def)
qed (simp add: limb_bytes_def)

lemma fits_in_bytes_iff:
  assumes "num_bytes \<le> length bs" and "n \<le> num_bytes"
  shows "fits_in_bytes bs num_bytes n \<longleftrightarrow> le_val (take num_bytes bs) < 256 ^ n"
proof -
  let ?d = "drop n (take num_bytes bs)"
  have "foldl (\<lambda>m i. m OR bs ! i) m is = 0 \<longleftrightarrow> m = 0 \<and> (\<forall>i\<in>set is. bs ! i = 0)" for m "is"
    by (induction "is" arbitrary: m) (auto simp: or_zero)
  then have "fits_in_bytes bs num_bytes n \<longleftrightarrow> (\<forall>i\<in>{n..<num_bytes}. bs ! i = 0)" by (simp add: fits_in_bytes_def)
  also have "\<dots> \<longleftrightarrow> set ?d \<subseteq> {0}"
  proof -
    have i: "{n..<num_bytes} = (\<lambda>k. n + k) ` {..<num_bytes - n}" 
      using assms(2) image_add_atLeastLessThan [of n 0 "num_bytes - n"] by (simp add: lessThan_atLeast0)
    have "?d ! k = bs ! (n + k)" if "k < num_bytes - n" for k using that assms by simp
    then show ?thesis using assms unfolding i by (auto simp: set_conv_nth subset_iff)
  qed
  also have "\<dots> \<longleftrightarrow> le_val ?d = 0"
  proof -
    have "le_val xs = 0 \<longleftrightarrow> set xs \<subseteq> {0}" for xs by (induction xs) (auto simp: unat_eq_zero)
    then show ?thesis by simp
  qed
  also have "\<dots> \<longleftrightarrow> le_val (take num_bytes bs) < 256 ^ n"
  proof -
    have v: "le_val (take num_bytes bs) = le_val (take n bs) + 256 ^ n * le_val ?d"
      using le_val_append [of "take n bs" ?d] append_take_drop_id [of n "take num_bytes bs"] assms
      by (simp add: min_absorb1 min_absorb2)
    have "le_val (take n bs) < 256 ^ n" using le_val_lt [of "take n bs"] assms by (simp add: min_absorb2)
    then show ?thesis unfolding v by (cases "le_val ?d") (auto simp: algebra_simps)
  qed
  finally show ?thesis .
qed

text \<open>The padded conversions fail exactly when the number does not fit.\<close>

lemma padded_bytes:
  assumes "bn_ok b"
  shows "take (b_width b * 8) (limb_bytes (b_d b)) = le_bytes (b_width b * 8) (mag b)"
    and "b_width b * 8 \<le> length (limb_bytes (b_d b))" and "mag b < 256 ^ (b_width b * 8)"
proof -
  have w: "b_width b \<le> length (b_d b)" using assms by (simp add: bn_ok_def)
  then show "take (b_width b * 8) (limb_bytes (b_d b)) = le_bytes (b_width b * 8) (mag b)"
    unfolding take_limb_bytes [OF w] unfolding limb_bytes_le using w by (simp add: mag_def limbs_def min_absorb2 mult.commute)
  show "b_width b * 8 \<le> length (limb_bytes (b_d b))" using w by (simp add: limb_bytes_le)
  show "mag b < 256 ^ (b_width b * 8)" using mag_lt [of b] by (simp add: power_mult mult.commute [of _ "8 :: nat"])
qed

lemma BN_bn2le_padded_eq:
  assumes "bn_ok b"
  shows "BN_bn2le_padded n b = (if mag b < 256 ^ n then Some (le_bytes n (mag b)) else None)"
proof -
  let ?k = "b_width b * 8"
  note p = padded_bytes [OF assms]
  have v: "le_val (take ?k (limb_bytes (b_d b))) = mag b" using p(1,3) by (simp add: le_val_le_bytes)
  show ?thesis
  proof (cases "n < ?k")
    case True
    have "take n (limb_bytes (b_d b)) = le_bytes n (mag b)"
    proof -
      have "take n (limb_bytes (b_d b)) = take n (le_bytes (n + (?k - n)) (mag b))" using p(1) True by (metis le_add_diff_inverse less_imp_le min_absorb1 take_take)
      then show ?thesis unfolding le_bytes_add by simp
    qed
    then show ?thesis using True fits_in_bytes_iff [OF p(2), of n] v by (simp add: BN_bn2le_padded_def Let_def)
  next
    case False
    then have "mag b < 256 ^ n" using p(3) by (meson less_le_trans not_less one_le_numeral power_increasing)
    moreover have "le_bytes ?k (mag b) @ replicate (n - ?k) 0 = le_bytes n (mag b)"
      by (rule le_bytes_unique) (use False p(3) in \<open>simp_all add: le_val_append le_val_le_bytes\<close>)
    ultimately show ?thesis using False p(1) by (simp add: BN_bn2le_padded_def Let_def)
  qed
qed

lemma BN_bn2bin_padded_eq:
  assumes "bn_ok b"
  shows "BN_bn2bin_padded n b = (if mag b < 256 ^ n then Some (be_bytes n (mag b)) else None)"
proof -
  have "BN_bn2bin_padded n b = map_option rev (BN_bn2le_padded n b)"
    by (simp add: BN_bn2bin_padded_def BN_bn2le_padded_def Let_def)
  then show ?thesis unfolding BN_bn2le_padded_eq [OF assms] by (simp add: be_bytes_def)
qed


section \<open>From bytes\<close>

text \<open>The loop of \<open>BN_bin2bn\<close> fills the words from the top; \<open>w\<close> has the bytes of the word \<open>k - 1\<close> so far.\<close>

lemma bin2bn_loop_words:
  assumes "length xs = (if k = 0 then 0 else m + 1 + 8 * (k - 1))" and "unat w < 256 ^ (7 - m)" and "m \<le> 7"
    and "room st (h, 0) k" and "k = 0 \<Longrightarrow> w = 0"
  shows "\<exists>ws. bin2bn_loop xs k m w st h = put st (h, 0) ws \<and> length ws = k \<and> lval ws = unat w * 256 ^ length xs + be_val xs"
  using assms
proof (induction xs arbitrary: k m w st)
  case Nil
  then have "k = 0" by (auto split: if_splits)
  then show ?case using Nil by simp
next
  case (Cons x xs)
  let ?w = "push_bit 8 w OR ucast x :: limb"
  obtain j where k: "k = Suc j" using Cons.prems(1) by (cases k) auto
  have lt: "unat w * 256 + unat x < 256 ^ (8 - m)"
  proof -
    have "(unat w + 1) * 256 \<le> 256 ^ (7 - m) * 256" using Cons.prems(2) by (intro mult_le_mono1) simp
    moreover have "8 - m = Suc (7 - m)" using Cons.prems(3) by simp
    ultimately have "unat w * 256 + 256 \<le> 256 ^ (8 - m)" by simp
    then show ?thesis using unat_u8_lt [of x] by linarith
  qed
  have "(256 :: nat) ^ (8 - m) \<le> 256 ^ 8" by (rule power_increasing) simp_all
  then have w: "unat ?w = unat w * 256 + unat x" using lt be_fold [of w "[x]"] by simp
  show ?case
  proof (cases "m = 0")
    case True
    have len: "length xs = 8 * j" using Cons.prems(1) True k by simp
    have "room (wr st (h, 0) j ?w) (h, 0) j" using Cons.prems(4) k by (simp add: room_def wr_def)
    then obtain ws where ws: "bin2bn_loop xs j 7 0 (wr st (h, 0) j ?w) h = put (wr st (h, 0) j ?w) (h, 0) ws" "length ws = j"
      "lval ws = be_val xs" using Cons.IH [of j 7 0 "wr st (h, 0) j ?w"] len by (cases j) auto
    have "put (wr st (h, 0) j ?w) (h, 0) ws = put st (h, 0) (ws @ [?w])"
      using Cons.prems(4) k ws(2) by (simp add: put_def wr_def upd_def room_def splice_def upd_conv_take_nth_drop)
    moreover have "(256 :: nat) ^ length xs = size_mod ^ j" unfolding len power_mult by simp
    ultimately show ?thesis using ws True k w
      by (intro exI [of _ "ws @ [?w]"]) (simp add: lval_append algebra_simps)
  next
    case False
    have "length xs = (if k = 0 then 0 else m - 1 + 1 + 8 * (k - 1))" using Cons.prems(1) k False by simp
    moreover have "unat ?w < 256 ^ (7 - (m - 1))" using lt w False Cons.prems(3) by (simp add: Suc_diff_eq_diff_pred)
    ultimately obtain ws where "bin2bn_loop xs k (m - 1) ?w st h = put st (h, 0) ws" "length ws = k"
      "lval ws = unat ?w * 256 ^ length xs + be_val xs" using Cons.IH [of k "m - 1" ?w st] Cons.prems k by auto
    then show ?thesis using False w by (intro exI [of _ ws]) (simp add: algebra_simps)
  qed
qed

text \<open>What the two conversions from bytes leave in \<open>h\<close>; \<open>ng\<close> is its sign.\<close>

definition stores :: "bns \<Rightarrow> nat \<Rightarrow> nat \<Rightarrow> bool \<Rightarrow> nat \<Rightarrow> nat option \<times> bns \<Rightarrow> bool" where
  "stores st h n ng v res \<longleftrightarrow> (case res of (ret, st') \<Rightarrow>
     frame h st st' \<and> bn_ok (s_bn st' h) \<and> ret = (if able st h n then Some h else None) \<and>
     (ret \<noteq> None \<longrightarrow> mag (s_bn st' h) = v \<and> b_neg (s_bn st' h) = ng))"

definition words_of :: "u8 list \<Rightarrow> nat" where
  "words_of bs = (length bs + 7) div 8"

lemma words_of_ne: "bs \<noteq> [] \<Longrightarrow> (length bs - 1) div 8 + 1 = words_of bs"
proof -
  assume "bs \<noteq> []"
  then have "length bs + 7 = length bs - 1 + 8" by (cases bs) auto
  then show ?thesis by (simp add: words_of_def)
qed

lemma able_0 [simp]: "able st h 0"
  by (simp add: able_def)

lemma BN_bin2bn_stores:
  assumes "bn_ok (s_bn st h)"
  shows "stores st h (words_of bs) (bs = [] \<and> b_neg (s_bn st h)) (be_val bs) (BN_bin2bn st bs (Some h))"
proof (cases "bs = []")
  case True
  then show ?thesis using assms by (auto simp: stores_def BN_bin2bn_def words_of_def bn_ok_def mag_def limbs_def)
next
  case False
  let ?k = "words_of bs"
  obtain st1 where e: "bn_wexpand st h ?k = (able st h ?k, st1)" "kept h st st1" "able st h ?k \<Longrightarrow> ?k \<le> b_dmax (s_bn st1 h)"
    using bn_wexpand_spec [OF assms, of ?k] by blast
  show ?thesis
  proof (cases "able st h ?k")
    case True
    let ?st = "set_neg (set_width st1 h ?k) h False"
    have r: "room ?st (h, 0) ?k" using room_width [OF keptD(2) [OF e(2)]] e(3) True by (simp add: room_def)
    have len: "length bs = (if ?k = 0 then 0 else (length bs - 1) mod 8 + 1 + 8 * (?k - 1))"
    proof -
      have "?k = Suc ((length bs - 1) div 8)" using words_of_ne [OF False] by simp
      moreover have "length bs = Suc (length bs - 1)" using False by (cases bs) auto
      ultimately show ?thesis using mod_mult_div_eq [of "length bs - 1" 8] by simp
    qed
    obtain ws where ws: "bin2bn_loop bs ?k ((length bs - 1) mod 8) 0 ?st h = put ?st (h, 0) ws" "length ws = ?k" "lval ws = be_val bs"
    proof -
      have "(length bs - 1) mod 8 \<le> 7" using mod_less_divisor [of 8 "length bs - 1"] by linarith
      then show ?thesis using that bin2bn_loop_words [OF len _ _ r, of 0] by auto
    qed
    have "BN_bin2bn st bs (Some h) = (Some h, put ?st (h, 0) ws)"
      using False e(1) True ws(1) words_of_ne [OF False] by (simp add: BN_bin2bn_def Let_def)
    moreover have "bn_ok (s_bn (put ?st (h, 0) ws) h)"
      using r ws(2) keptD(2) [OF e(2)] e(3) True by (simp add: bn_ok_put) (simp add: bn_ok_def)
    moreover have "limbs (s_bn (put ?st (h, 0) ws) h) = ws" using r ws(2) by (intro limbs_put) simp_all
    moreover have "frame h st (put ?st (h, 0) ws)"
      by (rule frame_trans [OF keptD(1) [OF e(2)] frame_trans [OF frame_set(1) frame_trans [OF frame_set(2) frame_set(4)]]])
    ultimately show ?thesis using True False ws(3) by (simp add: stores_def mag_def)
  next
    case nable: False
    then show ?thesis using False e(1,2) words_of_ne [OF False] by (simp add: stores_def BN_bin2bn_def Let_def kept_def)
  qed
qed

lemma le_limbs_simps [simp]: "le_limbs [] = []"
  by (simp add: le_limbs.simps)

lemma le_limbs_value: "length (le_limbs bs) = words_of bs \<and> lval (le_limbs bs) = le_val bs"
proof (induction bs rule: le_limbs.induct)
  case (1 bs)
  show ?case
  proof (cases "bs = []")
    case False
    let ?t = "take 8 bs" and ?d = "drop 8 bs"
    have "le_val ?t < 256 ^ length ?t" by (rule le_val_lt)
    also have "\<dots> \<le> 256 ^ 8" by (rule power_increasing) simp_all
    finally have "unat (word_of_nat (le_val ?t) :: limb) = le_val ?t" by (simp add: unat_of_nat)
    moreover have "le_val bs = le_val ?t + size_mod * le_val ?d"
      using le_val_append [of ?t ?d] by (cases "8 \<le> length bs") (simp_all add: min_absorb2)
    moreover have "words_of bs = Suc (words_of ?d)"
    proof (cases "8 \<le> length bs")
      case True
      then have "length bs + 7 = 8 + (length ?d + 7)" by simp
      then show ?thesis unfolding words_of_def by simp
    next
      case le: False
      then have "length bs + 7 = 8 + (length bs - 1)" "(length bs - 1) div 8 = 0" using False by (cases bs; simp)+
      then show ?thesis using le unfolding words_of_def by simp
    qed
    ultimately show ?thesis using 1 [OF False] False unfolding le_limbs.simps [of bs] by simp
  qed (simp add: words_of_def)
qed

lemma BN_le2bn_stores:
  assumes "bn_ok (s_bn st h)"
  shows "stores st h (words_of bs) (bs \<noteq> [] \<and> b_neg (s_bn st h)) (le_val bs) (BN_le2bn st bs (Some h))"
proof (cases "bs = []")
  case True
  then show ?thesis using assms
    by (auto simp: stores_def BN_le2bn_def words_of_def bn_ok_def mag_def limbs_def intro: frame_trans [OF frame_set(1) frame_set(2)])
next
  case False
  let ?k = "words_of bs"
  note ws = le_limbs_value [of bs, THEN conjunct1] le_limbs_value [of bs, THEN conjunct2]
  obtain st1 where e: "bn_wexpand st h ?k = (able st h ?k, st1)" "kept h st st1" "able st h ?k \<Longrightarrow> ?k \<le> b_dmax (s_bn st1 h)"
    using bn_wexpand_spec [OF assms, of ?k] by blast
  show ?thesis
  proof (cases "able st h ?k")
    case True
    let ?st = "set_width st1 h ?k"
    have r: "room ?st (h, 0) ?k" using room_width [OF keptD(2) [OF e(2)]] e(3) True by (simp add: room_def)
    have "BN_le2bn st bs (Some h) = (Some h, put ?st (h, 0) (le_limbs bs))"
      using False e(1) True words_of_ne [OF False] by (simp add: BN_le2bn_def Let_def)
    moreover have "bn_ok (s_bn (put ?st (h, 0) (le_limbs bs)) h)"
      using r ws keptD(2) [OF e(2)] e(3) True by (simp add: bn_ok_put) (simp add: bn_ok_def)
    moreover have "limbs (s_bn (put ?st (h, 0) (le_limbs bs)) h) = le_limbs bs" using r ws by (intro limbs_put) simp_all
    moreover have "frame h st (put ?st (h, 0) (le_limbs bs))"
      by (rule frame_trans [OF keptD(1) [OF e(2)] frame_trans [OF frame_set(1) frame_set(4)]])
    ultimately show ?thesis using True False ws keptD(5) [OF e(2), of h] by (simp add: stores_def mag_def)
  next
    case nable: False
    then show ?thesis using False e(1,2) words_of_ne [OF False] by (simp add: stores_def BN_le2bn_def Let_def kept_def)
  qed
qed


section \<open>To bytes\<close>

lemma lval_nth: "k < length ws \<Longrightarrow> lval ws div size_mod ^ k mod size_mod = unat (ws ! k)"
proof (induction ws arbitrary: k)
  case (Cons w ws)
  show ?case
  proof (cases k)
    case (Suc j)
    have "(unat w + size_mod * lval ws) div (size_mod * size_mod ^ j) = lval ws div size_mod ^ j"
      unfolding div_mult2_eq using unat_limb_lt [of w] by simp
    then show ?thesis using Cons Suc by simp
  qed (use unat_limb_lt [of w] in simp)
qed simp

lemma byte_of_words:
  assumes "i < 8 * length ws"
  shows "ucast (drop_bit (8 * (i mod 8)) (ws ! (i div 8))) = (word_of_nat (lval ws div 256 ^ i) :: u8)"
proof -
  let ?k = "i div 8" and ?j = "i mod 8"
  have k: "?k < length ws" using assms by (simp add: less_mult_imp_div_less mult.commute)
  have p: "(256 :: nat) ^ i = size_mod ^ ?k * 256 ^ ?j"
  proof -
    have "(256 :: nat) ^ i = 256 ^ (8 * ?k + ?j)" by simp
    also have "\<dots> = (256 ^ 8) ^ ?k * 256 ^ ?j" unfolding power_add power_mult ..
    finally show ?thesis by simp
  qed
  have b: "(size_mod :: nat) = 256 ^ ?j * 256 ^ (8 - ?j)"
  proof -
    have "(size_mod :: nat) = 256 ^ (?j + (8 - ?j))" by (simp add: less_imp_le)
    then show ?thesis unfolding power_add .
  qed
  have "256 dvd (256 :: nat) ^ (8 - ?j)" by (rule dvd_power) simp
  then have m: "v mod size_mod div 256 ^ ?j mod 256 = v div 256 ^ ?j mod 256" for v :: nat
    unfolding b by (simp add: mod_mult2_eq mod_mod_cancel)
  have "unat (drop_bit (8 * ?j) (ws ! ?k)) mod 256 = lval ws div 256 ^ i mod 256"
    unfolding unat_drop_bit lval_nth [OF k, symmetric] power_mult p div_mult2_eq using m [of "lval ws div size_mod ^ ?k"] by simp
  then show ?thesis unfolding word_unat_eq_iff unat_ucast_mod by (simp add: unat_of_nat_u8)
qed

lemma bit_length_bytes:
  assumes "bit_length v n"
  shows "v < 256 ^ ((n + 7) div 8)" and "v \<noteq> 0 \<Longrightarrow> 256 ^ ((n + 7) div 8 - 1) \<le> v" and "v = 0 \<longleftrightarrow> (n + 7) div 8 = 0"
proof -
  have p: "(256 :: nat) ^ k = 2 ^ (8 * k)" for k by (simp add: power_mult)
  have "(2 :: nat) ^ n \<le> 2 ^ (8 * ((n + 7) div 8))" by (rule power_increasing) simp_all
  then show "v < 256 ^ ((n + 7) div 8)" using assms unfolding p bit_length_def by linarith
  have n0: "v = 0 \<longleftrightarrow> n = 0" using assms by (cases n) (auto simp: bit_length_def)
  then show "v = 0 \<longleftrightarrow> (n + 7) div 8 = 0" by (cases n) (simp_all add: div_eq_0_iff)
  have "(2 :: nat) ^ (8 * ((n + 7) div 8 - 1)) \<le> 2 ^ (n - 1)" by (rule power_increasing) (simp_all add: algebra_simps)
  then show "v \<noteq> 0 \<Longrightarrow> 256 ^ ((n + 7) div 8 - 1) \<le> v" using assms n0 unfolding p bit_length_def by linarith
qed

lemma be_bytes_nat_be: "v < 256 ^ k \<Longrightarrow> k = 0 \<or> 256 ^ (k - 1) \<le> v \<Longrightarrow> be_bytes k v = nat_be v"
proof (induction k arbitrary: v)
  case (Suc k)
  have "(0 :: nat) < 256 ^ k" by simp
  then have "v \<noteq> 0" using Suc.prems(2) by (metis diff_Suc_1 less_le_trans nat.distinct(1) not_less_zero)
  moreover have "v div 256 < 256 ^ k" using Suc.prems(1) by (simp add: less_mult_imp_div_less mult.commute)
  moreover have "k = 0 \<or> 256 ^ (k - 1) \<le> v div 256"
  proof (cases k)
    case (Suc j)
    then have "256 ^ j * 256 \<le> v" using Suc.prems(2) by simp
    then show ?thesis using Suc by (simp add: less_eq_div_iff_mult_less_eq)
  qed simp
  ultimately show ?case using Suc.IH [of "v div 256"] by (simp add: be_bytes_Suc nat_be_step)
qed simp

lemma and_255: "x AND 0xFF = x" for x :: u8
proof -
  have "(0xFF :: u8) = -1" by simp
  then show ?thesis by (simp only: and.right_neutral)
qed

lemma BN_bn2bin_nat_be:
  assumes "bn_ok b"
  shows "BN_bn2bin b = nat_be (mag b)"
proof -
  let ?n = "BN_num_bytes b"
  note l = bit_length_bytes [OF BN_num_bits_length [OF assms]]
  have "256 ^ (?n - 1) < (256 :: nat) ^ (8 * b_width b)" if "?n \<noteq> 0"
  proof -
    have "mag b \<noteq> 0" using l(3) that by (simp add: BN_num_bytes_def)
    then have "256 ^ (?n - 1) \<le> mag b" using l(2) by (simp add: BN_num_bytes_def)
    then show ?thesis using mag_lt [of b] by (simp add: power_mult)
  qed
  then have "?n \<le> 8 * b_width b" by (cases "?n = 0") auto
  then have w: "?n \<le> 8 * length (limbs b)" using assms by (simp add: limbs_def bn_ok_def min_absorb2)
  have "BN_bn2bin b = rev (map (\<lambda>i. ucast (drop_bit (8 * (i mod 8)) (b_d b ! (i div 8)))) [0..<?n])"
    by (simp add: BN_bn2bin_def rev_map and_255)
  also have "\<dots> = rev (map (\<lambda>i. word_of_nat (mag b div 256 ^ i)) [0..<?n])"
  proof -
    have "ucast (drop_bit (8 * (i mod 8)) (b_d b ! (i div 8))) = (word_of_nat (mag b div 256 ^ i) :: u8)" if "i < ?n" for i
    proof -
      have "i div 8 < b_width b" using that w assms by (simp add: limbs_def bn_ok_def min_absorb2 less_mult_imp_div_less mult.commute)
      then show ?thesis using byte_of_words [of i "limbs b"] that w by (simp add: mag_def) (simp add: limbs_def)
    qed
    then show ?thesis by simp
  qed
  also have "\<dots> = be_bytes ?n (mag b)" by (simp add: be_bytes_def le_bytes_map)
  also have "\<dots> = nat_be (mag b)" using l unfolding BN_num_bytes_def by (intro be_bytes_nat_be) auto
  finally show ?thesis .
qed

lemma BN_get_u64_eq:
  assumes "bn_ok b"
  shows "BN_get_u64 b = (if mag b < size_mod then Some (word_of_nat (mag b)) else None)"
    and "BN_get_word b = (if mag b < size_mod then word_of_nat (mag b) else -1)"
proof -
  let ?m = "bn_minimal_width b"
  note t = bn_minimal_width_top [OF assms]
  consider "?m = 0" | "?m = 1" | m where "?m = Suc (Suc m)" by (metis One_nat_def not0_implies_Suc)
  then have "BN_get_u64 b = (if mag b < size_mod then Some (word_of_nat (mag b)) else None) \<and>
      BN_get_word b = (if mag b < size_mod then word_of_nat (mag b) else -1)"
  proof cases
    case 1
    then show ?thesis using t by (simp add: BN_get_u64_def BN_get_word_def)
  next
    case 2
    then show ?thesis using t lval_top [OF assms, of 0] by (simp add: BN_get_u64_def BN_get_word_def)
  next
    case 3
    then have "size_mod ^ 1 \<le> size_mod ^ (?m - 1)" by (intro power_increasing) simp_all
    moreover have "size_mod ^ (?m - 1) \<le> mag b" using t(2) 3 by linarith
    ultimately have "size_mod \<le> mag b" unfolding power_one_right by (rule le_trans)
    then have "\<not> mag b < size_mod" by (simp only: not_less)
    then show ?thesis using 3 by (simp add: BN_get_u64_def BN_get_word_def)
  qed
  then show "BN_get_u64 b = (if mag b < size_mod then Some (word_of_nat (mag b)) else None)"
    and "BN_get_word b = (if mag b < size_mod then word_of_nat (mag b) else -1)" by blast+
qed

section \<open>Properties\<close>

text \<open>A store with nothing in it, where \<open>malloc\<close> returns blocks full of sevens.\<close>

definition start_bns :: bns where
  "start_bns = \<lparr>s_bn = (\<lambda>_. BN_init), s_malloc = (\<lambda>_. Some (\<lambda>_. 7)), s_next = 0, s_ctx = empty_ctx\<rparr>"

lemma bn_ok_init [simp]: "bn_ok BN_init" "bn_ok (s_bn start_bns h)"
  by (simp_all add: bn_ok_def start_bns_def BN_init_def)

lemma nat_be_strip: "nat_be (be_val bs) = dropWhile (\<lambda>x. x = 0) bs"
proof -
  have "be_val bs = be_val (dropWhile (\<lambda>x. x = 0) bs)" by (induction bs) auto
  moreover have "dropWhile (\<lambda>x. x = 0) bs = [] \<or> hd (dropWhile (\<lambda>x. x = 0) bs) \<noteq> 0"
    using hd_dropWhile [of "\<lambda>x. x = 0" bs] by blast
  ultimately show ?thesis using nat_be_be_val by metis
qed

text \<open>C28: (roundtrip) A number read from bytes with \<open>BN_bin2bn\<close> is written by \<open>BN_bn2bin\<close> as the same bytes without the zeros in
  front, by \<open>BN_bn2bin_padded\<close> with the old length as exactly these bytes, and by \<open>BN_bn2le_padded\<close> as the bytes in
  reverse, whatever the \<open>BIGNUM\<close> held before.\<close>
theorem bn_bytes_roundtrip:
  assumes "bn_ok (s_bn st h)" and "BN_bin2bn st bs (Some h) = (Some h, st')"
  shows "BN_bn2bin (s_bn st' h) = dropWhile (\<lambda>x. x = 0) bs \<and>
    BN_bn2bin_padded (length bs) (s_bn st' h) = Some bs \<and> BN_bn2le_padded (length bs) (s_bn st' h) = Some (rev bs)"
proof -
  have r: "bn_ok (s_bn st' h)" "mag (s_bn st' h) = be_val bs"
    using BN_bin2bn_stores [OF assms(1), of bs] assms(2) by (simp_all add: stores_def)
  have b: "be_bytes (length bs) (be_val bs) = bs" by (rule be_bytes_be_val)
  then have "le_bytes (length bs) (be_val bs) = rev bs" by (metis be_bytes_def rev_rev_ident)
  then show ?thesis using r b be_val_lt [of bs]
    by (simp add: BN_bn2bin_nat_be nat_be_strip BN_bn2bin_padded_eq BN_bn2le_padded_eq)
qed

theorem bn_bytes_roundtrip_witness:
  "BN_bn2bin (s_bn (snd (BN_bin2bn start_bns [0, 0, 3, 7] (Some 1))) 1) = [3, 7]"
  using bn_bytes_roundtrip [of start_bns 1 "[0, 0, 3, 7]" "snd (BN_bin2bn start_bns [0, 0, 3, 7] (Some 1))"]
  by (simp add: start_bns_def BN_init_def empty_ctx_def bn_ok_def BN_bin2bn_def bn_wexpand_def next_malloc_def Let_def)

text \<open>\<open>BN_le2bn\<close> does not set the sign, so a negative \<open>BIGNUM\<close> becomes the negative of the number that is read.\<close>

lemma le2bn_keeps_sign:
  assumes "bn_ok (s_bn st h)" and "b_neg (s_bn st h)" and "bs \<noteq> []" and "BN_le2bn st bs (Some h) = (Some h, st')"
  shows "bval (s_bn st' h) = - int (le_val bs)"
  using BN_le2bn_stores [OF assms(1), of bs] assms(2-4) by (simp add: stores_def bval_def)

text \<open>\<open>BN_bin2bn\<close> sets it, except for an empty string.\<close>

lemma bin2bn_keeps_sign:
  assumes "bn_ok (s_bn st h)" and "BN_bin2bn st bs (Some h) = (Some h, st')"
  shows "b_neg (s_bn st' h) \<longleftrightarrow> bs = [] \<and> b_neg (s_bn st h)" and "bval (s_bn st' h) = int (be_val bs)"
  using BN_bin2bn_stores [OF assms(1), of bs] assms(2) by (auto simp: stores_def bval_def)

end
