(* ===== verification/BnShiftSpec.thy ===== *)
theory BnShiftSpec imports BnAddSpec BnBytesSpec begin

text \<open>
  Shifts and single bits of big numbers, \<open>shift.c\<close>: products and quotients with powers of two, and the bits of the absolute value.
\<close>

section \<open>Left shifts\<close>

lemma push_drop: "n \<le> 64 \<Longrightarrow> unat (push_bit n l) + size_mod * unat (drop_bit (64 - n) l) = unat l * 2 ^ n" for l :: limb
proof -
  assume n: "n \<le> 64"
  have b: "(size_mod :: nat) = 2 ^ n * 2 ^ (64 - n)" using n by (simp flip: power_add)
  have d: "unat l * 2 ^ n div size_mod = unat l div 2 ^ (64 - n)" unfolding b div_mult2_eq by simp
  have "unat (push_bit n l) = unat l * 2 ^ n mod size_mod" by (simp add: unat_push_bit)
  moreover have "unat (drop_bit (64 - n) l) = unat l * 2 ^ n div size_mod" unfolding d by (rule unat_drop_bit)
  ultimately show ?thesis by simp
qed

lemma unat_or_multiple: "2 ^ n dvd unat u \<Longrightarrow> unat v < 2 ^ n \<Longrightarrow> unat (u OR v) = unat u + unat v" for u v :: "'a::len word"
proof -
  assume u: "2 ^ n dvd unat u" and v: "unat v < 2 ^ n"
  have "u AND v = 0"
  proof (rule bit_word_eqI)
    fix k assume "k < LENGTH('a)"
    have "\<not> (bit (unat u) k \<and> bit (unat v) k)"
    proof (cases "k < n")
      case True
      have "unat u = 2 ^ n * (unat u div 2 ^ n)" using u by simp
      then have "\<not> bit (unat u) k" using True by (metis bit_push_bit_iff_nat linorder_not_less push_bit_nat_def mult.commute)
      then show ?thesis by simp
    next
      case False
      then have "(2 :: nat) ^ n \<le> 2 ^ k" by (intro power_increasing) auto
      then have "unat v div 2 ^ k = 0" using v by (intro div_less) linarith
      then show ?thesis by (simp add: bit_iff_odd)
    qed
    then show "bit (u AND v) k \<longleftrightarrow> bit (0 :: 'a word) k" by (simp add: bit_and_iff bit_unsigned_iff)
  qed
  then have "u + v = u OR v" by (simp add: disjunctive_add_eq_or)
  moreover have "unat (u OR v) = unat u OR unat v" by (rule unsigned_or_eq)
  moreover have "unat u OR unat v = unat u + unat v"
    using \<open>u AND v = 0\<close> by (metis disjunctive_add_eq_or unsigned_and_eq unsigned_0)
  ultimately show ?thesis by simp
qed

lemma lshift_step:
  assumes "2 ^ lb dvd unat u" and "lb \<le> 64"
  shows "lval (push_bit lb l # (u OR drop_bit (64 - lb) l) # us) = unat l * 2 ^ lb + size_mod * lval (u # us)"
proof -
  have "unat (drop_bit (64 - lb) l) < 2 ^ lb"
  proof -
    have "unat l < 2 ^ lb * 2 ^ (64 - lb)" using unat_limb_lt [of l] assms(2) by (simp flip: power_add)
    then show ?thesis unfolding unat_drop_bit by (rule less_mult_imp_div_less)
  qed
  then have o: "unat (u OR drop_bit (64 - lb) l) = unat u + unat (drop_bit (64 - lb) l)" by (rule unat_or_multiple [OF assms(1)])
  show ?thesis using push_drop [OF assms(2), of l] unfolding lval.simps o by (simp add: algebra_simps)
qed

lemma lshift_loop:
  assumes "room st (r, 0) (aw + nw + 1)" and "room st (a, 0) aw" and "0 < lb" and "lb < 64" and "i \<le> aw"
  shows "\<exists>u us. foldl (\<lambda>st i.
        let l = rd st (a, 0) i; st = wr st (r, 0) (nw + i + 1) (rd st (r, 0) (nw + i + 1) OR drop_bit (64 - lb) l)
        in wr st (r, 0) (nw + i) (push_bit lb l)) (wr st (r, 0) (aw + nw) 0) (rev [i..<aw]) = put st (r, nw + i) (u # us) \<and>
     length us = aw - i \<and> 2 ^ lb dvd unat u \<and> lval (u # us) = lval (drop i (words st (a, 0) aw)) * 2 ^ lb"
  using assms(5)
proof (induction i rule: inc_induct)
  case base
  have "wr st (r, 0) (aw + nw) 0 = put st (r, nw + aw) [0]"
    using wr_put [of st "(r, 0)" "aw + nw" 0] assms(1) by (simp add: advance_def room_def add.commute)
  moreover have "drop aw (words st (a, 0) aw) = []" using assms(2) by simp
  ultimately show ?case by (intro exI [of _ "0 :: limb"] exI [of _ "[] :: limb list"]) simp
next
  case (step i)
  let ?f = "\<lambda>st i. let l = rd st (a, 0) i; st = wr st (r, 0) (nw + i + 1) (rd st (r, 0) (nw + i + 1) OR drop_bit (64 - lb) l)
        in wr st (r, 0) (nw + i) (push_bit lb l)"
  obtain u us where u: "foldl ?f (wr st (r, 0) (aw + nw) 0) (rev [Suc i..<aw]) = put st (r, nw + Suc i) (u # us)"
    "length us = aw - Suc i" "2 ^ lb dvd unat u" "lval (u # us) = lval (drop (Suc i) (words st (a, 0) aw)) * 2 ^ lb"
    using step.IH by blast
  let ?st = "put st (r, nw + Suc i) (u # us)" and ?l = "rd st (a, 0) i"
  have r1: "room st (r, nw + Suc i) (length (u # us))" using assms(1) u(2) step.hyps by (simp add: room_def)
  have l: "rd ?st (a, 0) i = ?l" using rd_put_out [OF r1, of "(a, 0)" i] by simp
  have uu: "rd ?st (r, 0) (nw + i + 1) = u"
    using r1 by (simp add: rd_def s_bn_put room_def splice_def nth_append min_absorb2)
  have "?f ?st i = put st (r, nw + i) (push_bit lb ?l # (u OR drop_bit (64 - lb) ?l) # us)"
  proof -
    have len: "nw + Suc i + Suc (length us) \<le> length (b_d (s_bn st r))" using r1 by (simp add: room_def)
    have "(splice d (nw + Suc i) (u # us))[nw + i + 1 := x, nw + i := y] = splice d (nw + i) (y # x # us)"
      if "nw + Suc i + Suc (length us) \<le> length d" for d and x y :: limb
    proof -
      have "(splice d (nw + Suc i) (u # us))[nw + i + 1 := x] = splice d (Suc (nw + i)) (x # us)"
        using that by (simp add: splice_def list_update_append min_absorb2)
      moreover have "(splice d (Suc (nw + i)) (x # us))[nw + i := y] = splice d (nw + i) (y # x # us)"
        using that by (simp add: splice_def take_Suc_conv_app_nth list_update_append min_absorb2)
      ultimately show ?thesis by simp
    qed
    then show ?thesis using len unfolding Let_def l uu by (simp add: wr_def put_def upd_def)
  qed
  moreover have "drop i (words st (a, 0) aw) = ?l # drop (Suc i) (words st (a, 0) aw)"
    using step.hyps assms(2) by (simp add: Cons_nth_drop_Suc [symmetric] words_nth)
  moreover have "2 ^ lb dvd unat (push_bit lb ?l)"
  proof -
    have "(2 :: nat) ^ lb dvd 2 ^ 64" using assms(4) by (intro le_imp_power_dvd) simp
    then show ?thesis unfolding unat_push_bit by (simp add: dvd_mod)
  qed
  ultimately show ?case using u step.hyps assms(4) lshift_step [OF u(3), of ?l us]
    by (intro exI [of _ "push_bit lb ?l"] exI [of _ "(u OR drop_bit (64 - lb) ?l) # us"])
      (simp add: upt_conv_Cons Suc_diff_Suc algebra_simps)
qed


lemma wr_Cons: "room st (r, Suc k) (length us) \<Longrightarrow> wr (put st (r, Suc k) us) (r, 0) k y = put st (r, k) (y # us)"
  by (simp add: wr_def put_def upd_def room_def splice_def take_Suc_conv_app_nth list_update_append min_absorb2)

lemma copy_loop:
  assumes "room st (r, 0) (aw + nw + 1)" and "room st (a, 0) aw" and "i \<le> aw"
  shows "foldl (\<lambda>st i. wr st (r, 0) (nw + i) (rd st (a, 0) i)) (wr st (r, 0) (aw + nw) 0) (rev [i..<aw]) =
     put st (r, nw + i) (drop i (words st (a, 0) aw) @ [0])"
  using assms(3)
proof (induction i rule: inc_induct)
  case base
  have "wr st (r, 0) (aw + nw) 0 = put st (r, nw + aw) [0]"
    using wr_put [of st "(r, 0)" "aw + nw" 0] assms(1) by (simp add: advance_def room_def add.commute)
  then show ?case using assms(2) by simp
next
  case (step i)
  let ?us = "drop (Suc i) (words st (a, 0) aw) @ [0]"
  have r1: "room st (r, Suc (nw + i)) (length ?us)" using assms(1,2) step.hyps by (simp add: room_def)
  have "rd (put st (r, Suc (nw + i)) ?us) (a, 0) i = rd st (a, 0) i" by (rule rd_put_out [OF r1]) simp
  moreover have "drop i (words st (a, 0) aw) = rd st (a, 0) i # drop (Suc i) (words st (a, 0) aw)"
    using step.hyps assms(2) by (simp add: Cons_nth_drop_Suc [symmetric] words_nth)
  ultimately show ?case using step wr_Cons [OF r1] by (simp add: upt_conv_Cons)
qed

lemma set_neg_words [simp]: "words (set_neg st h v) p k = words st p k" "room (set_neg st h v) p k = room st p k"
  by (simp_all add: words_def room_def)

lemma able_set_neg [simp]: "able (set_neg st h v) r n = able st r n"
  by (simp add: able_def)

lemma kept_set_neg:
  "bn_ok (s_bn st r) \<Longrightarrow> frame r st (set_neg st r v) \<and> bn_ok (s_bn (set_neg st r v) r) \<and> mag (s_bn (set_neg st r v) h) = mag (s_bn st h) \<and>
    b_width (s_bn (set_neg st r v) h) = b_width (s_bn st h)"
  by (auto simp: mag_def limbs_def)

text \<open>The end of an operation that sets the width and makes it minimal.\<close>

lemma sets_written:
  assumes "frame r st st1" and "bn_ok (s_bn st1 r)" and "length ws \<le> b_dmax (s_bn st1 r)" and "v = (if b_neg (s_bn st1 r) then - int (lval ws) else int (lval ws))"
  shows "sets st r n v (True, bn_set_minimal_width (set_width (put st1 (r, 0) ws) r (length ws)) r)"
proof -
  let ?st = "set_width (put st1 (r, 0) ws) r (length ws)"
  have r: "room st1 (r, 0) (length ws)" using assms(2,3) by (rule room_width)
  have ok: "bn_ok (s_bn ?st r)" using r assms(2,3) by (simp add: bn_ok_def s_bn_put length_splice room_def)
  have "limbs (s_bn ?st r) = ws" using r by (simp add: limbs_def s_bn_put splice_def)
  then have "bval (s_bn ?st r) = v" using assms(4) by (simp add: bval_def mag_def)
  moreover have "frame r st ?st" by (rule frame_trans [OF assms(1) frame_trans [OF frame_set(4) frame_set(1)]])
  ultimately show ?thesis using bn_set_minimal_width_value [OF ok] frame_trans
    by (auto simp: sets_def canonical_def)
qed

lemma BN_lshift_sets:
  assumes "bn_ok (s_bn st r)" and "bn_ok (s_bn st a)" and "0 \<le> n"
  shows "sets st r (b_width (s_bn st a) + nat n div 64 + 1) (bval (s_bn st a) * 2 ^ nat n) (BN_lshift st r a n)"
proof -
  let ?st0 = "set_neg st r (b_neg (s_bn st a))"
  let ?aw = "b_width (s_bn st a)" and ?nw = "nat n div 64" and ?lb = "nat n mod 64"
  have ok0: "bn_ok (s_bn ?st0 r)" "bn_ok (s_bn ?st0 a)" using assms by simp_all
  have a0: "b_width (s_bn ?st0 a) = ?aw" "mag (s_bn ?st0 a) = mag (s_bn st a)" using kept_set_neg [OF assms(1)] by blast+
  obtain st1 where e: "bn_wexpand ?st0 r (?aw + ?nw + 1) = (able ?st0 r (?aw + ?nw + 1), st1)" "kept r ?st0 st1"
    "able ?st0 r (?aw + ?nw + 1) \<Longrightarrow> ?aw + ?nw + 1 \<le> b_dmax (s_bn st1 r)"
    using bn_wexpand_spec [OF ok0(1), of "?aw + ?nw + 1"] by blast
  have fr: "frame r st st1" using frame_trans [OF frame_set(2) keptD(1) [OF e(2)]] .
  show ?thesis
  proof (cases "able st r (?aw + ?nw + 1)")
    case True
    have rr: "room st1 (r, 0) (?aw + ?nw + 1)" using room_width [OF keptD(2) [OF e(2)]] e(3) True by simp
    have ra: "room st1 (a, 0) ?aw" and va: "lval (words st1 (a, 0) ?aw) = mag (s_bn st a)"
      using kept_words [OF e(2) ok0(2)] a0 by simp_all
    have aw1: "b_width (s_bn st1 a) = ?aw" using keptD(4) [OF e(2)] a0 by simp
    obtain us where us: "(if ?lb = 0 then foldl (\<lambda>st i. wr st (r, 0) (?nw + i) (rd st (a, 0) i)) (wr st1 (r, 0) (?aw + ?nw) 0) (rev [0..<?aw])
        else foldl (\<lambda>st i. let l = rd st (a, 0) i; st = wr st (r, 0) (?nw + i + 1) (rd st (r, 0) (?nw + i + 1) OR drop_bit (64 - ?lb) l)
           in wr st (r, 0) (?nw + i) (push_bit ?lb l)) (wr st1 (r, 0) (?aw + ?nw) 0) (rev [0..<?aw])) = put st1 (r, ?nw) us"
      "length us = ?aw + 1" "lval us = mag (s_bn st a) * 2 ^ ?lb"
    proof (cases "?lb = 0")
      case True
      then show ?thesis using that [of "words st1 (a, 0) ?aw @ [0]"] copy_loop [OF rr ra, of 0] va ra by (simp add: lval_append)
    next
      case False
      then have "0 < ?lb" "?lb < 64" by simp_all
      from lshift_loop [OF rr ra this, of 0] obtain u us where
        "foldl (\<lambda>st i. let l = rd st (a, 0) i; st = wr st (r, 0) (?nw + i + 1) (rd st (r, 0) (?nw + i + 1) OR drop_bit (64 - ?lb) l)
           in wr st (r, 0) (?nw + i) (push_bit ?lb l)) (wr st1 (r, 0) (?aw + ?nw) 0) (rev [0..<?aw]) = put st1 (r, ?nw) (u # us)"
        "length us = ?aw" "lval (u # us) = mag (s_bn st a) * 2 ^ ?lb" using va by auto
      then show ?thesis using that [of "u # us"] False by simp
    qed
    let ?ws = "replicate ?nw 0 @ us"
    have p: "put (put st1 (r, ?nw) us) (r, 0) (replicate ?nw 0) = put st1 (r, 0) ?ws"
      using rr us(2) by (simp add: put_def upd_def room_def splice_def min_absorb2 drop_take)
    have run: "BN_lshift st r a n = (True, bn_set_minimal_width (set_width (put st1 (r, 0) ?ws) r (length ?ws)) r)"
    proof -
      have e1: "bn_wexpand ?st0 r (?aw + ?nw + 1) = (True, st1)" using e(1) True by simp
      have len: "?aw + ?nw + 1 = length ?ws" using us(2) by simp
      have "\<not> n < 0" using assms(3) by simp
      then show ?thesis unfolding BN_lshift_def Let_def
        by (simp only: if_False a0(1) e1 chk_simps aw1 us(1) [unfolded Let_def] p put_keeps len [symmetric])
    qed
    have v: "lval ?ws = mag (s_bn st a) * 2 ^ nat n"
    proof -
      have "size_mod ^ ?nw * 2 ^ ?lb = (2 ^ 64) ^ ?nw * 2 ^ ?lb" by simp
      also have "\<dots> = (2 :: nat) ^ nat n" unfolding power_mult [symmetric] power_add [symmetric] by simp
      finally show ?thesis using us(3) by (simp add: lval_append algebra_simps)
    qed
    show ?thesis unfolding run
    proof (rule sets_written [OF fr keptD(2) [OF e(2)]])
      show "length ?ws \<le> b_dmax (s_bn st1 r)" using e(3) True us(2) by simp
      show "bval (s_bn st a) * 2 ^ nat n = (if b_neg (s_bn st1 r) then - int (lval ?ws) else int (lval ?ws))"
        unfolding v using keptD(5) [OF e(2), of r] by (simp add: bval_def)
    qed
  next
    case False
    then show ?thesis using e(1) fr keptD(2) [OF e(2)] assms(3) a0(1) by (simp add: BN_lshift_def Let_def sets_def)
  qed
qed


section \<open>Right shifts\<close>

fun shr :: "nat \<Rightarrow> limb list \<Rightarrow> limb list" where
  "shr k [] = []"
| "shr k [w] = [drop_bit k w]"
| "shr k (w # v # ws) = (drop_bit k w OR push_bit (64 - k) v) # shr k (v # ws)"

lemma length_shr [simp]: "length (shr k ws) = length ws"
  by (induction k ws rule: shr.induct) simp_all

lemma lval_shr:
  assumes "0 < k" and "k < 64"
  shows "lval (shr k ws) = lval ws div 2 ^ k"
  using assms
proof (induction k ws rule: shr.induct)
  case (2 k w)
  then show ?case by (simp add: unat_drop_bit)
next
  case (3 k w v ws)
  have b: "(size_mod :: nat) = 2 ^ k * 2 ^ (64 - k)" using 3 by (simp flip: power_add)
  let ?rest = "lval (v # ws)"
  have lt: "unat (drop_bit k w) < 2 ^ (64 - k)"
    unfolding unat_drop_bit using unat_limb_lt [of w] b by (intro less_mult_imp_div_less) (simp add: mult.commute)
  have "2 ^ (64 - k) dvd (size_mod :: nat)" unfolding b by simp
  then have "2 ^ (64 - k) dvd unat (push_bit (64 - k) v)" unfolding unat_push_bit by (simp add: dvd_mod)
  then have "unat (push_bit (64 - k) v OR drop_bit k w) = unat (push_bit (64 - k) v) + unat (drop_bit k w)"
    by (rule unat_or_multiple [OF _ lt])
  then have o: "unat (drop_bit k w OR push_bit (64 - k) v) = unat w div 2 ^ k + unat v * 2 ^ (64 - k) mod size_mod"
    by (simp add: or.commute unat_drop_bit unat_push_bit)
  have m: "unat v * 2 ^ (64 - k) mod size_mod = 2 ^ (64 - k) * (?rest mod 2 ^ k)"
  proof -
    have "unat v * 2 ^ (64 - k) mod (2 ^ (64 - k) * 2 ^ k) = 2 ^ (64 - k) * (unat v mod 2 ^ k)"
      by (subst mult.commute) (simp only: mod_mult_mult1)
    moreover have "?rest mod 2 ^ k = unat v mod 2 ^ k" unfolding lval.simps b by (simp add: mod_add_right_eq [symmetric] mult.assoc)
    ultimately show ?thesis unfolding b by (simp add: mult.commute)
  qed
  have "lval (w # v # ws) div 2 ^ k = (unat w + 2 ^ k * (2 ^ (64 - k) * ?rest)) div 2 ^ k"
    by (simp only: lval.simps(2) [of w] b mult.assoc)
  also have "\<dots> = unat w div 2 ^ k + 2 ^ (64 - k) * ?rest" by simp
  also have "2 ^ (64 - k) * ?rest = 2 ^ (64 - k) * (?rest mod 2 ^ k) + size_mod * (?rest div 2 ^ k)"
  proof -
    have "c * x = c * r + p * c * q" if "x = p * q + r" for c x p q r :: nat using that by (simp add: algebra_simps)
    from this [of ?rest "2 ^ k" "?rest div 2 ^ k" "?rest mod 2 ^ k"] show ?thesis unfolding b by simp
  qed
  finally show ?case using 3 o m by simp
qed simp

lemma shr_map: "ws \<noteq> [] \<Longrightarrow>
  shr k ws = map (\<lambda>i. drop_bit k (ws ! i) OR push_bit (64 - k) (ws ! Suc i)) [0..<length ws - 1] @ [drop_bit k (ws ! (length ws - 1))]"
proof (induction k ws rule: shr.induct)
  case (3 k w v ws)
  have "[0..<Suc (length ws)] = 0 # map Suc [0..<length ws]" by (simp add: map_Suc_upt upt_conv_Cons del: upt_Suc)
  then show ?case using 3 by (simp add: comp_def del: upt_Suc)
qed simp_all

lemma foldl_words:
  assumes "\<And>ws j. length ws = j \<Longrightarrow> j < n \<Longrightarrow> f (put st r ws) j = g j" and "room st r n"
  shows "foldl (\<lambda>st i. wr st r i (f st i)) st [0..<n] = put st r (map g [0..<n])"
  using assms
proof (induction n)
  case (Suc n)
  have "f (put st r (map g [0..<n])) n = g n" using Suc(2) [of "map g [0..<n]" n] by simp
  moreover have "room st r n" using Suc(3) by (simp add: room_def)
  then have "foldl (\<lambda>st i. wr st r i (f st i)) st [0..<n] = put st r (map g [0..<n])" by (intro Suc(1)) (use Suc(2) in auto)
  moreover have "wr (put st r (map g [0..<n])) r n (g n) = put st r (map g [0..<n] @ [g n])"
    using wr_snoc [of st r "map g [0..<n]" "g n"] Suc(3) by simp
  ultimately show ?case by simp
qed simp

lemma rd_words: "room st a num \<Longrightarrow> i < num \<Longrightarrow> rd st a i = words st a num ! i"
  by (simp add: words_nth)

lemma rd_behind: "room st r (length us) \<Longrightarrow> follows r a num \<Longrightarrow> length us \<le> i \<Longrightarrow> i < num \<Longrightarrow> rd (put st r us) a i = rd st a i"
  by (rule rd_put_out) (auto simp: follows_def)

lemma bn_rshift_words_eq:
  assumes "room st r num" and "room st a num" and "follows r a num"
  obtains ws where "bn_rshift_words st r a shift num = put st r ws" and "length ws = num"
    and "lval ws = lval (words st a num) div 2 ^ shift"
proof -
  let ?sw = "shift div 64" and ?sb = "shift mod 64" and ?A = "words st a num"
  have p: "(2 :: nat) ^ shift = size_mod ^ ?sw * 2 ^ ?sb"
  proof -
    have "(2 :: nat) ^ shift = 2 ^ (64 * ?sw + ?sb)" by simp
    also have "\<dots> = (2 ^ 64) ^ ?sw * 2 ^ ?sb" unfolding power_add power_mult ..
    finally show ?thesis by simp
  qed
  have lt: "lval ?A < size_mod ^ num" using lval_lt [of ?A] assms(2) by simp
  show ?thesis
  proof (cases "?sw \<ge> num")
    case True
    have "size_mod ^ num \<le> size_mod ^ ?sw" by (rule power_increasing) (use True in simp_all)
    also have "\<dots> \<le> 2 ^ shift" unfolding p by simp
    finally have "lval ?A div 2 ^ shift = 0" using lt by simp
    then show ?thesis using True that [of "replicate num 0"] by (simp add: bn_rshift_words_def Let_def)
  next
    case False
    let ?n = "num - ?sw" and ?D = "drop ?sw ?A"
    have D: "length ?D = ?n" "words st (advance a ?sw) ?n = ?D" using assms(2) False
      by (auto simp: words_def advance_def room_def drop_take add.commute)
    have v: "lval ?A div size_mod ^ ?sw = lval ?D"
      using lval_take_drop [of ?sw ?A] lval_lt [of "take ?sw ?A"] assms(2) False by simp
    obtain ws where ws: "(if ?sb = 0 then put st r (words st (advance a ?sw) ?n)
         else let st = foldl (\<lambda>st i. wr st r (i - ?sw) (drop_bit ?sb (rd st a i) OR push_bit (64 - ?sb) (rd st a (i + 1)))) st [?sw..<num - 1]
              in wr st r (num - 1 - ?sw) (drop_bit ?sb (rd st a (num - 1)))) = put st r ws" "length ws = ?n" "lval ws = lval ?D div 2 ^ ?sb"
    proof (cases "?sb = 0")
      case True
      then show ?thesis using that [of ?D] D by simp
    next
      case nz: False
      let ?f = "\<lambda>st k. drop_bit ?sb (rd st a (k + ?sw)) OR push_bit (64 - ?sb) (rd st a (k + ?sw + 1))"
      let ?g = "\<lambda>k. drop_bit ?sb (?D ! k) OR push_bit (64 - ?sb) (?D ! Suc k)"
      have up: "[?sw..<num - 1] = map (\<lambda>k. k + ?sw) [0..<?n - 1]"
        using map_add_upt [of ?sw "?n - 1"] False by simp
      have f: "?f (put st r us) j = ?g j" if "length us = j" "j < ?n - 1" for us j
      proof -
        have rj: "room st r (length us)" using assms(1) that by (simp add: room_def)
        have "rd (put st r us) a i = ?A ! i" if "length us \<le> i" "i < num" for i
          using rd_behind [OF rj assms(3) that] rd_words [OF assms(2) that(2)] by simp
        then have "rd (put st r us) a (j + ?sw) = ?D ! j" "rd (put st r us) a (j + ?sw + 1) = ?D ! Suc j"
          using that False assms(2) by (simp_all add: add.commute)
        then show ?thesis by simp
      qed
      have "foldl (\<lambda>st i. wr st r (i - ?sw) (drop_bit ?sb (rd st a i) OR push_bit (64 - ?sb) (rd st a (i + 1)))) st [?sw..<num - 1]
          = put st r (map ?g [0..<?n - 1])"
        unfolding up foldl_map using foldl_words [of "?n - 1" ?f st r ?g] f room_less [OF assms(1), of "?n - 1"] by simp
      moreover have "wr (put st r (map ?g [0..<?n - 1])) r (num - 1 - ?sw) (drop_bit ?sb (rd (put st r (map ?g [0..<?n - 1])) a (num - 1))) =
          put st r (shr ?sb ?D)"
      proof -
        have rn: "room st r (length (map ?g [0..<?n - 1]))" "room st r (Suc (length (map ?g [0..<?n - 1])))"
          using assms(1) False by (auto simp: room_def)
        have "rd (put st r (map ?g [0..<?n - 1])) a (num - 1) = ?D ! (?n - 1)"
          using rd_behind [OF rn(1) assms(3), of "num - 1"] rd_words [OF assms(2), of "num - 1"] assms(2) False by simp
        moreover have "?D \<noteq> []" using D(1) False by auto
        ultimately show ?thesis using wr_snoc [OF rn(2)] D(1) shr_map [of ?D ?sb] by (simp add: diff_commute)
      qed
      ultimately show ?thesis using that [of "shr ?sb ?D"] nz D(1) lval_shr [of ?sb ?D] by simp
    qed
    have rr: "room st r (length ws + length (replicate ?sw (0 :: limb)))" using assms(1) False ws(2) by simp
    have "bn_rshift_words st r a shift num = put st r (ws @ replicate ?sw 0)"
      using put_put [OF rr] ws(1,2) False unfolding bn_rshift_words_def Let_def by simp
    moreover have "lval (ws @ replicate ?sw 0) = lval ?A div 2 ^ shift"
      unfolding p div_mult2_eq v using ws(3) by (simp add: lval_append)
    ultimately show ?thesis using that [of "ws @ replicate ?sw 0"] ws(2) False by simp
  qed
qed

end
