(* ===== verification/BnBitSpec.thy ===== *)
theory BnBitSpec imports BnShiftSpec begin

text \<open>
  The right shifts, the shifts by one, and the functions on single bits of \<open>shift.c\<close>.
\<close>

section \<open>Shifts\<close>

text \<open>An operation with one argument that writes as many words as that has.\<close>

lemma sets_unary:
  assumes "bn_ok (s_bn st r)" and "bn_ok (s_bn st a)"
    and "\<And>st1. kept r st st1 \<Longrightarrow> able st r n \<Longrightarrow> n \<le> b_dmax (s_bn st1 r) \<Longrightarrow>
      \<exists>ws. length ws \<le> n \<and> lval ws = v \<and> f st1 =
        (True, bn_set_minimal_width (set_width (put (set_neg st1 r (b_neg (s_bn st a))) (r, 0) ws) r (length ws)) r)"
    and "x = (if b_neg (s_bn st a) then - int v else int v)"
  shows "sets st r n x (chk (bn_wexpand st r n) f)"
proof -
  obtain st1 where e: "bn_wexpand st r n = (able st r n, st1)" "kept r st st1" "able st r n \<Longrightarrow> n \<le> b_dmax (s_bn st1 r)"
    using bn_wexpand_spec [OF assms(1), of n] by blast
  show ?thesis
  proof (cases "able st r n")
    case True
    obtain ws where ws: "length ws \<le> n" "lval ws = v" "f st1 =
        (True, bn_set_minimal_width (set_width (put (set_neg st1 r (b_neg (s_bn st a))) (r, 0) ws) r (length ws)) r)"
      using assms(3) [OF e(2) True] e(3) True by blast
    have "sets st r n x (f st1)" unfolding ws(3)
      by (rule sets_written) (use keptD(1,2) [OF e(2)] frame_trans [OF keptD(1) [OF e(2)] frame_set(2)] ws(1,2) e(3) True assms(4) in auto)
    then show ?thesis using e(1) True by simp
  next
    case False
    then show ?thesis using e(1,2) by (simp add: sets_def kept_def)
  qed
qed

lemma put_set_neg: "put (set_neg st r v) (r, 0) ws = set_neg (put st (r, 0) ws) r v"
  by (cases "s_bn st r") (simp add: put_def set_neg_def upd_def)

lemma set_width_neg: "set_width (set_neg st r v) r n = set_neg (set_width st r n) r v"
  by (cases "s_bn st r") (simp add: set_width_def set_neg_def upd_def)

lemma BN_rshift_sets:
  assumes "bn_ok (s_bn st r)" and "bn_ok (s_bn st a)" and "0 \<le> n"
  shows "sets st r (b_width (s_bn st a)) (if b_neg (s_bn st a) then - int (mag (s_bn st a) div 2 ^ nat n) else int (mag (s_bn st a) div 2 ^ nat n))
    (BN_rshift st r a n)"
proof -
  let ?f = "\<lambda>st. let st = bn_rshift_words st (r, 0) (a, 0) (nat n) (b_width (s_bn st a)); st = set_neg st r (b_neg (s_bn st a));
       st = set_width st r (b_width (s_bn st a)) in (True, bn_set_minimal_width st r)"
  have run: "BN_rshift st r a n = chk (bn_wexpand st r (b_width (s_bn st a))) ?f"
    using assms(3) by (simp add: BN_rshift_def)
  show ?thesis unfolding run
  proof (rule sets_unary [OF assms(1,2), where v = "mag (s_bn st a) div 2 ^ nat n"])
    fix st1 assume k: "kept r st st1" "b_width (s_bn st a) \<le> b_dmax (s_bn st1 r)"
    have rr: "room st1 (r, 0) (b_width (s_bn st a))" by (rule room_width [OF keptD(2) [OF k(1)] k(2)])
    note ra = kept_words [OF k(1) assms(2)]
    obtain ws where ws: "bn_rshift_words st1 (r, 0) (a, 0) (nat n) (b_width (s_bn st a)) = put st1 (r, 0) ws"
      "length ws = b_width (s_bn st a)" "lval ws = lval (words st1 (a, 0) (b_width (s_bn st a))) div 2 ^ nat n"
      by (rule bn_rshift_words_eq [OF rr ra(1) follows_0])
    have aw: "b_width (s_bn st1 h) = b_width (s_bn st h)" "b_neg (s_bn st1 h) = b_neg (s_bn st h)" for h using keptD(4,5) [OF k(1)] by simp_all
    show "\<exists>ws. length ws \<le> b_width (s_bn st a) \<and> lval ws = mag (s_bn st a) div 2 ^ nat n \<and> ?f st1 =
      (True, bn_set_minimal_width (set_width (put (set_neg st1 r (b_neg (s_bn st a))) (r, 0) ws) r (length ws)) r)"
      using ws aw ra(2) by (intro exI [of _ ws]) (simp add: Let_def put_set_neg)
  qed (rule refl)
qed

lemma bn_rshift1_words_eq:
  assumes "room st r num" and "room st a num" and "follows r a num"
  obtains ws where "bn_rshift1_words st r a num = put st r ws" and "length ws = num" and "lval ws = lval (words st a num) div 2"
proof (cases "num = 0")
  case True
  then show ?thesis using that [of "[]"] by (simp add: bn_rshift1_words_def words_def)
next
  case False
  let ?A = "words st a num" and ?n = "num - 1"
  let ?f = "\<lambda>st i. drop_bit 1 (rd st a i) OR push_bit 63 (rd st a (i + 1))"
  let ?g = "\<lambda>i. drop_bit 1 (?A ! i) OR push_bit 63 (?A ! Suc i)"
  have f: "?f (put st r us) j = ?g j" if "length us = j" "j < ?n" for us j
  proof -
    have rj: "room st r (length us)" using assms(1) that by (simp add: room_def)
    have "rd (put st r us) a i = ?A ! i" if "length us \<le> i" "i < num" for i
      using rd_behind [OF rj assms(3) that] rd_words [OF assms(2) that(2)] by simp
    then show ?thesis using that by simp
  qed
  have "foldl (\<lambda>st i. wr st r i (?f st i)) st [0..<?n] = put st r (map ?g [0..<?n])"
    using foldl_words [of ?n ?f st r ?g] f room_less [OF assms(1), of ?n] by simp
  moreover have "wr (put st r (map ?g [0..<?n])) r ?n (drop_bit 1 (rd (put st r (map ?g [0..<?n])) a ?n)) = put st r (shr 1 ?A)"
  proof -
    have rn: "room st r (length (map ?g [0..<?n]))" "room st r (Suc (length (map ?g [0..<?n])))" using assms(1) False by (auto simp: room_def)
    have "rd (put st r (map ?g [0..<?n])) a ?n = ?A ! ?n"
      using rd_behind [OF rn(1) assms(3), of ?n] rd_words [OF assms(2), of ?n] False by simp
    moreover have "length ?A = num" using assms(2) by simp
    moreover from this have "?A \<noteq> []" using False by auto
    ultimately show ?thesis using wr_snoc [OF rn(2)] shr_map [of ?A 1] by simp
  qed
  ultimately show ?thesis using that [of "shr 1 ?A"] False assms(2) lval_shr [of 1 ?A] by (simp add: bn_rshift1_words_def)
qed

lemma BN_rshift1_sets:
  assumes "bn_ok (s_bn st r)" and "bn_ok (s_bn st a)"
  shows "sets st r (b_width (s_bn st a)) (if b_neg (s_bn st a) then - int (mag (s_bn st a) div 2) else int (mag (s_bn st a) div 2))
    (BN_rshift1 st r a)"
  unfolding BN_rshift1_def
proof (rule sets_unary [OF assms(1,2), where v = "mag (s_bn st a) div 2"])
  fix st1 assume k: "kept r st st1" "b_width (s_bn st a) \<le> b_dmax (s_bn st1 r)"
  have rr: "room st1 (r, 0) (b_width (s_bn st a))" by (rule room_width [OF keptD(2) [OF k(1)] k(2)])
  note ra = kept_words [OF k(1) assms(2)]
  obtain ws where ws: "bn_rshift1_words st1 (r, 0) (a, 0) (b_width (s_bn st a)) = put st1 (r, 0) ws"
    "length ws = b_width (s_bn st a)" "lval ws = lval (words st1 (a, 0) (b_width (s_bn st a))) div 2"
    by (rule bn_rshift1_words_eq [OF rr ra(1) follows_0])
  have aw: "b_width (s_bn st1 h) = b_width (s_bn st h)" "b_neg (s_bn st1 h) = b_neg (s_bn st h)" for h using keptD(4,5) [OF k(1)] by simp_all
  show "\<exists>ws. length ws \<le> b_width (s_bn st a) \<and> lval ws = mag (s_bn st a) div 2 \<and>
    (let st = bn_rshift1_words st1 (r, 0) (a, 0) (b_width (s_bn st1 a)); st = set_width st r (b_width (s_bn st a));
       st = set_neg st r (b_neg (s_bn st a)) in (True, bn_set_minimal_width st r)) =
    (True, bn_set_minimal_width (set_width (put (set_neg st1 r (b_neg (s_bn st a))) (r, 0) ws) r (length ws)) r)"
    using ws aw ra(2) by (intro exI [of _ ws]) (simp add: Let_def put_set_neg set_width_neg)
qed (rule refl)

end
