(* ===== verification/BnSmallSpec.thy ===== *)
theory BnSmallSpec imports BnBitSpec begin

text \<open>
  Assignments, single bits and single words: the functions of \<open>bn.c\<close>, \<open>shift.c\<close> and \<open>add.c\<close> that change a
  \<open>BIGNUM\<close> in place.
\<close>

section \<open>Results\<close>

lemma written_value:
  assumes "bn_ok (s_bn st1 r)" and "length ws \<le> b_dmax (s_bn st1 r)"
  shows "bn_ok ((s_bn (put st1 (r, 0) ws) r)\<lparr>b_width := length ws\<rparr>)"
    and "mag ((s_bn (put st1 (r, 0) ws) r)\<lparr>b_width := length ws\<rparr>) = lval ws"
proof -
  have "room st1 (r, 0) (length ws)" using assms by (rule room_width)
  then show "bn_ok ((s_bn (put st1 (r, 0) ws) r)\<lparr>b_width := length ws\<rparr>)"
    and "mag ((s_bn (put st1 (r, 0) ws) r)\<lparr>b_width := length ws\<rparr>) = lval ws"
    using assms by (simp_all add: bn_ok_def mag_def limbs_def s_bn_put splice_def room_def)
qed

lemma gives_written:
  assumes "frame r st st1" and "bn_ok (s_bn st1 r)" and "length ws \<le> b_dmax (s_bn st1 r)"
    and "v = (if b_neg (s_bn st1 r) then - int (lval ws) else int (lval ws))"
    and "q \<Longrightarrow> b_neg (s_bn st1 r) \<Longrightarrow> lval ws \<noteq> 0"
  shows "gives st r n v q (True, set_width (put st1 (r, 0) ws) r (length ws))"
  using written_value [OF assms(2,3)] assms(4,5) frame_trans [OF assms(1) frame_trans [OF frame_set(4) frame_set(1)]]
  by (auto simp: gives_def bval_def canonical_def)

lemma gives_expand:
  assumes "bn_ok (s_bn st r)"
    and "\<And>st1. kept r st st1 \<Longrightarrow> able st r n \<Longrightarrow> n \<le> b_dmax (s_bn st1 r) \<Longrightarrow> gives st r n v q (f st1)"
  shows "gives st r n v q (chk (bn_wexpand st r n) f)"
proof -
  obtain st1 where e: "bn_wexpand st r n = (able st r n, st1)" "kept r st st1" "able st r n \<Longrightarrow> n \<le> b_dmax (s_bn st1 r)"
    using bn_wexpand_spec [OF assms(1), of n] by blast
  then show ?thesis using assms(2) [of st1] by (cases "able st r n") (auto simp: gives_def kept_def)
qed

lemma set_neg_same [simp]: "set_neg st r (b_neg (s_bn st r)) = st"
  by (simp add: set_neg_def upd_def)

lemma set_width_same [simp]: "set_width st r (b_width (s_bn st r)) = st"
  by (simp add: set_width_def upd_def)

lemma set_width_put: "set_width (put (set_width st r k) (r, 0) ws) r n = set_width (put st (r, 0) ws) r n"
  by (cases "s_bn st r") (simp add: put_def set_width_def upd_def)

lemma wr_set_width: "wr (set_width st r k) (r, 0) i w = set_width (wr st (r, 0) i w) r k"
  by (cases "s_bn st r") (simp add: wr_def set_width_def upd_def)

lemma set_width_width [simp]: "set_width (set_width st r k) r n = set_width st r n"
  by (cases "s_bn st r") (simp add: set_width_def upd_def)

section \<open>Assignments\<close>

lemma BN_zero_gives: "bn_ok (s_bn st r) \<Longrightarrow> gives st r 0 0 True (True, BN_zero st r)"
  by (auto simp: gives_def BN_zero_def bn_ok_def bval_def mag_def limbs_def canonical_def)

lemma BN_copy_gives:
  assumes "bn_ok (s_bn st r)" and "bn_ok (s_bn st a)"
  shows "gives st r (b_width (s_bn st a)) (bval (s_bn st a)) (canonical (s_bn st a)) (BN_copy st r a)"
proof (cases "a = r")
  case True
  then show ?thesis using assms by (simp add: gives_def BN_copy_def)
next
  case False
  show ?thesis unfolding BN_copy_def if_not_P [OF False]
  proof (rule gives_expand [OF assms(1)])
    fix st1 assume k: "kept r st st1" "b_width (s_bn st a) \<le> b_dmax (s_bn st1 r)"
    have a: "s_bn st1 a = s_bn st a" using k(1) False by (simp add: kept_def frame_def)
    let ?ws = "words st1 (a, 0) (b_width (s_bn st a))"
    have ws: "length ?ws = b_width (s_bn st a)" "lval ?ws = mag (s_bn st a)" using kept_words [OF k(1) assms(2)] by simp_all
    have e: "(let st = put st1 (r, 0) (words st1 (a, 0) (b_width (s_bn st1 a))); st = set_width st r (b_width (s_bn st a))
        in (True, set_neg st r (b_neg (s_bn st a)))) = (True, set_width (put (set_neg st1 r (b_neg (s_bn st a))) (r, 0) ?ws) r (length ?ws))"
      using False by (simp add: Let_def a ws(1) put_set_neg set_width_neg)
    have "gives st r (b_width (s_bn st a)) (bval (s_bn st a)) (canonical (s_bn st a))
        (True, set_width (put (set_neg st1 r (b_neg (s_bn st a))) (r, 0) ?ws) r (length ?ws))"
      by (rule gives_written) (use keptD(1,2) [OF k(1)] k(2) ws frame_trans [OF keptD(1) [OF k(1)] frame_set(2)] in
        \<open>auto simp: bval_def canonical_def\<close>)
    then show "gives st r (b_width (s_bn st a)) (bval (s_bn st a)) (canonical (s_bn st a))
      (let st = put st1 (r, 0) (words st1 (a, 0) (b_width (s_bn st1 a))); st = set_width st r (b_width (s_bn st a))
        in (True, set_neg st r (b_neg (s_bn st a))))" unfolding e [symmetric] using False a by (simp add: Let_def s_bn_put)
  qed
qed

lemma BN_set_word_gives:
  assumes "bn_ok (s_bn st r)"
  shows "gives st r (of_bool (w \<noteq> 0)) (uint w) True (BN_set_word st r w)"
proof (cases "w = 0")
  case True
  then show ?thesis using BN_zero_gives [OF assms] by (simp add: BN_set_word_def)
next
  case False
  have "gives st r 1 (uint w) True (chk (bn_wexpand st r 1) (\<lambda>st. (True, set_width (wr (set_neg st r False) (r, 0) 0 w) r 1)))"
  proof (rule gives_expand [OF assms])
    fix st1 assume k: "kept r st st1" "1 \<le> b_dmax (s_bn st1 r)"
    have "room (set_neg st1 r False) (r, 0) (Suc 0)" by (rule room_width) (use keptD(2) [OF k(1)] k(2) in auto)
    then have e: "wr (set_neg st1 r False) (r, 0) 0 w = put (set_neg st1 r False) (r, 0) [w]"
      using wr_put [of "set_neg st1 r False" "(r, 0)" 0 w] by (simp add: advance_def)
    have "gives st r 1 (uint w) True (True, set_width (put (set_neg st1 r False) (r, 0) [w]) r (length [w]))"
      by (rule gives_written) (use keptD(1,2) [OF k(1)] k(2) frame_trans [OF keptD(1) [OF k(1)] frame_set(2)] in auto)
    then show "gives st r 1 (uint w) True (True, set_width (wr (set_neg st1 r False) (r, 0) 0 w) r 1)" by (simp add: e)
  qed
  then show ?thesis using False by (simp add: BN_set_word_def)
qed

lemma BN_set_negative_gives:
  assumes "bn_ok (s_bn st r)"
  shows "gives st r 0 (if v then - int (mag (s_bn st r)) else int (mag (s_bn st r))) True (True, BN_set_negative st r v)"
  using assms BN_is_zero_iff [OF assms]
  by (auto simp: gives_def BN_set_negative_def bval_def canonical_def mag_def limbs_def)

section \<open>Twice a number\<close>

lemma double_step:
  fixes t c w c' :: limb
  assumes "unat c \<le> 1" and "(push_bit 1 t OR c, drop_bit 63 t) = (w, c')"
  shows "uint w + int size_mod * int (unat c') = int (2 * unat t) + int (unat c) \<and> unat c' \<le> 1"
proof -
  have c': "c' = drop_bit 63 t" and w: "w = push_bit 1 t OR c" using assms(2) by auto
  have "2 ^ 1 dvd unat (push_bit 1 t)" unfolding unat_push_bit by (simp add: dvd_mod)
  moreover have "unat c < 2 ^ 1" using assms(1) by simp
  ultimately have "unat w = unat (push_bit 1 t) + unat c" unfolding w by (rule unat_or_multiple)
  then have "unat w + size_mod * unat c' = 2 * unat t + unat c" unfolding c' using push_drop [of 1 t] by simp
  moreover have "unat c' \<le> 1"
  proof -
    have "unat t < 2 * 2 ^ 63" using unat_limb_lt [of t] by simp
    then have "unat t div 2 ^ 63 < 2" by (rule less_mult_imp_div_less)
    then show ?thesis unfolding c' unat_drop_bit by simp
  qed
  ultimately show ?thesis using uint_step by blast
qed

lemma BN_lshift1_gives:
  assumes "bn_ok (s_bn st r)" and "bn_ok (s_bn st a)"
  shows "gives st r (b_width (s_bn st a) + 1) (2 * bval (s_bn st a)) (canonical (s_bn st a)) (BN_lshift1 st r a)"
proof -
  let ?aw = "b_width (s_bn st a)" and ?ng = "b_neg (s_bn st a)"
  let ?f = "\<lambda>st i c. let t = rd st (a, 0) i in (push_bit 1 t OR c, drop_bit 63 t)"
  let ?F = "\<lambda>st. let st = set_width st r (b_width (s_bn st a)); aw = b_width (s_bn st a)
      in case (word_step ?f (r, 0) ^^ aw) (0, st, 0) of (_, st, c) \<Rightarrow>
        (True, if c \<noteq> 0 then set_width (wr st (r, 0) aw 1) r (b_width (s_bn st r) + 1) else st)"
  have st0: "(if r \<noteq> a then set_neg st r ?ng else st) = set_neg st r ?ng" by auto
  have run: "BN_lshift1 st r a = chk (bn_wexpand (set_neg st r ?ng) r (?aw + 1)) ?F"
  proof -
    have "(if r \<noteq> a then set_width st r (b_width (s_bn st a)) else st) = set_width st r (b_width (s_bn st a))" for st by auto
    moreover have "b_width (s_bn (set_neg st r ?ng) a) = ?aw" by simp
    ultimately show ?thesis unfolding BN_lshift1_def st0 by (simp only: Let_def)
  qed
  let ?st = "set_neg st r ?ng"
  have ok: "bn_ok (s_bn ?st r)" "bn_ok (s_bn ?st a)" using assms by simp_all
  have a0: "b_width (s_bn ?st a) = ?aw" "mag (s_bn ?st a) = mag (s_bn st a)" using kept_set_neg [OF assms(1)] by blast+
  have "gives ?st r (?aw + 1) (2 * bval (s_bn st a)) (canonical (s_bn st a)) (chk (bn_wexpand ?st r (?aw + 1)) ?F)"
  proof (rule gives_expand [OF ok(1)])
    fix st1 assume k: "kept r ?st st1" "?aw + 1 \<le> b_dmax (s_bn st1 r)"
    have aw: "b_width (s_bn st1 a) = ?aw" "b_width (s_bn (set_width st1 r ?aw) a) = ?aw" using keptD(4) [OF k(1), of a] a0 by simp_all
    have ng: "b_neg (s_bn st1 r) = ?ng" using keptD(5) [OF k(1), of r] by simp
    note kw = kept_words [OF k(1) ok(2), unfolded a0]
    have rr: "room st1 (r, 0) (?aw + 1)" using room_width [OF keptD(2) [OF k(1)] k(2)] .
    let ?st1 = "set_width st1 r ?aw"
    have ra: "room ?st1 (a, 0) ?aw" and rw: "room ?st1 (r, 0) ?aw" using kw(1) room_less [OF rr, of ?aw] by simp_all
    obtain ws c where s: "scan (?f ?st1) 0 ?aw 0 = (ws, c)" by fastforce
    have loop: "(word_step ?f (r, 0) ^^ ?aw) (0, ?st1, 0) = (?aw, put ?st1 (r, 0) ws, c)" using s ra rw
      by (subst word_steps [where g = "?f ?st1"]) (auto simp: rd_follows room_def s_bn_put length_splice)
    have len: "length ws = ?aw" using length_scan [of "?f ?st1" 0 ?aw 0] s by simp
    have "int (lval ws) + int size_mod ^ ?aw * int (unat c) = digits (\<lambda>j. int (2 * unat (rd ?st1 (a, 0) j))) 0 ?aw + int (unat (0 :: limb))
        \<and> unat c \<le> 1"
      by (rule scan_value [OF _ s]) (use double_step in \<open>auto simp: Let_def\<close>)
    then have "int (lval ws) + int size_mod ^ ?aw * uint c = int (2 * mag (s_bn st a))" and c: "unat c \<le> 1"
      unfolding digits_lval [OF ra] words_set_width kw(2) by simp_all
    then have v: "lval ws + size_mod ^ ?aw * unat c = 2 * mag (s_bn st a)" by (intro nat_sum)
    define us where "us = (if c \<noteq> 0 then ws @ [1] else ws)"
    have us: "lval us = 2 * mag (s_bn st a)" "length us \<le> ?aw + 1"
    proof -
      have "unat c = of_bool (c \<noteq> 0)" using c by (cases "c = 0") (auto simp: unat_eq_zero le_Suc_eq)
      then show "lval us = 2 * mag (s_bn st a)" "length us \<le> ?aw + 1" using v len by (auto simp: us_def lval_append)
    qed
    have "?F st1 = (True, set_width (put st1 (r, 0) us) r (length us))"
    proof -
      have "(if c \<noteq> 0 then set_width (wr (put ?st1 (r, 0) ws) (r, 0) ?aw 1) r (b_width (s_bn (put ?st1 (r, 0) ws) r) + 1) else put ?st1 (r, 0) ws) =
          set_width (put st1 (r, 0) us) r (length us)"
      proof (cases "c = 0")
        case True
        have "put ?st1 (r, 0) ws = set_width (put ?st1 (r, 0) ws) r ?aw"
          using set_width_same [of "put ?st1 (r, 0) ws" r] by simp
        then show ?thesis using True len by (simp add: us_def set_width_put)
      next
        case False
        have "room ?st1 (r, 0) (Suc (length ws))" using rr len by simp
        then have "wr (put ?st1 (r, 0) ws) (r, 0) ?aw 1 = put ?st1 (r, 0) (ws @ [1])" using wr_snoc [of ?st1 "(r, 0)" ws 1] len by simp
        then show ?thesis using False len by (simp add: us_def set_width_put)
      qed
      then show ?thesis unfolding aw Let_def loop [unfolded Let_def] by simp
    qed
    moreover have "gives ?st r (?aw + 1) (2 * bval (s_bn st a)) (canonical (s_bn st a)) (True, set_width (put st1 (r, 0) us) r (length us))"
      by (rule gives_written) (use keptD(1,2) [OF k(1)] k(2) us ng in \<open>auto simp: bval_def canonical_def\<close>)
    ultimately show "gives ?st r (?aw + 1) (2 * bval (s_bn st a)) (canonical (s_bn st a)) (?F st1)" by simp
  qed
  then show ?thesis unfolding run using frame_trans [OF frame_set(2) [of r st ?ng]] by (auto simp: gives_def)
qed

end
