(* ===== verification/BnDigitSpec.thy ===== *)
theory BnDigitSpec imports BnSmallSpec begin

text \<open>
  Single bits and single words of big numbers: the rest of \<open>shift.c\<close>, and \<open>BN_add_word\<close> and \<open>BN_sub_word\<close>.
\<close>

section \<open>Single bits\<close>

lemma lval_bit: "bit (lval ws) n \<longleftrightarrow> n div 64 < length ws \<and> bit (ws ! (n div 64)) (n mod 64)"
proof (cases "n div 64 < length ws")
  case True
  have p: "(2 :: nat) ^ n = size_mod ^ (n div 64) * 2 ^ (n mod 64)"
  proof -
    have "(2 :: nat) ^ n = 2 ^ (64 * (n div 64) + n mod 64)" by simp
    also have "\<dots> = (2 ^ 64) ^ (n div 64) * 2 ^ (n mod 64)" unfolding power_add power_mult ..
    finally show ?thesis by simp
  qed
  let ?v = "lval ws div size_mod ^ (n div 64)"
  have "unat (ws ! (n div 64)) = ?v mod 2 ^ 64" using lval_nth [OF True] by simp
  moreover have "bit (?v mod 2 ^ 64) (n mod 64) \<longleftrightarrow> bit ?v (n mod 64)" unfolding take_bit_eq_mod [symmetric] bit_take_bit_iff by simp
  moreover have "bit ?v (n mod 64) \<longleftrightarrow> bit (lval ws) n" unfolding bit_iff_odd p div_mult2_eq by simp
  moreover have "bit (ws ! (n div 64)) (n mod 64) \<longleftrightarrow> bit (unat (ws ! (n div 64))) (n mod 64)" by (simp add: bit_unsigned_iff)
  ultimately show ?thesis using True by simp
next
  case False
  have "lval ws < (2 ^ 64) ^ length ws" using lval_lt [of ws] by simp
  also have "\<dots> \<le> 2 ^ n" unfolding power_mult [symmetric] by (rule power_increasing) (use False in auto)
  finally show ?thesis using False by (simp add: bit_iff_odd)
qed

lemma mag_bit:
  "bn_ok b \<Longrightarrow> bit (mag b) n \<longleftrightarrow> n div 64 < b_width b \<and> bit (b_d b ! (n div 64)) (n mod 64)"
  by (auto simp: mag_def lval_bit limbs_def bn_ok_def)

lemma bn_is_bit_set_eq: "bn_ok b \<Longrightarrow> 0 \<le> n \<Longrightarrow> BN_is_bit_set b n \<longleftrightarrow> bit (mag b) (nat n)"
proof -
  have "drop_bit j w AND 1 = 1 \<longleftrightarrow> bit w j" for w :: limb and j
    by (simp add: and_one_eq bit_iff_odd_drop_bit mod_2_eq_odd)
  then show "bn_ok b \<Longrightarrow> 0 \<le> n \<Longrightarrow> BN_is_bit_set b n \<longleftrightarrow> bit (mag b) (nat n)"
    by (simp add: BN_is_bit_set_def bn_is_bit_set_words_def Let_def mag_bit)
qed

lemma wr_fields [simp]:
  "b_width (s_bn (wr st p i w) h) = b_width (s_bn st h)" "b_neg (s_bn (wr st p i w) h) = b_neg (s_bn st h)"
  "b_dmax (s_bn (wr st p i w) h) = b_dmax (s_bn st h)" "b_static (s_bn (wr st p i w) h) = b_static (s_bn st h)"
  by (simp_all add: wr_def upd_def)

lemma wr_limbs: "i < b_width (s_bn st r) \<Longrightarrow> limbs (s_bn (wr st (r, 0) i w) r) = (limbs (s_bn st r))[i := w]"
  by (simp add: wr_def limbs_def take_update_swap)

lemma bn_ok_wr [simp]: "bn_ok (s_bn (wr st (r, 0) i w) h) \<longleftrightarrow> bn_ok (s_bn st h)"
  by (simp add: bn_ok_def wr_def)

text \<open>One word changes, bit by bit.\<close>

lemma wr_mag:
  assumes "bn_ok (s_bn st r)" and "k div 64 < b_width (s_bn st r)"
    and "\<And>n. bit v n \<longleftrightarrow> (if n div 64 = k div 64 then bit w (n mod 64) else bit (mag (s_bn st r)) n)"
  shows "mag (s_bn (wr st (r, 0) (k div 64) w) r) = v"
proof (rule bit_eqI)
  fix n
  have "length (limbs (s_bn st r)) = b_width (s_bn st r)" using assms(1) by (simp add: limbs_def bn_ok_def)
  then show "bit (mag (s_bn (wr st (r, 0) (k div 64) w) r)) n \<longleftrightarrow> bit v n"
    unfolding mag_def wr_limbs [OF assms(2)] assms(3) lval_bit using assms(2)
    by (auto simp: nth_list_update mag_def lval_bit)
qed

lemma div_mod_64: "n div 64 = k div 64 \<Longrightarrow> n mod 64 = k mod 64 \<longleftrightarrow> n = k" for n k :: nat
  by (metis div_mult_mod_eq)

lemma bit_single: "bit (push_bit (k mod 64) 1 :: limb) (n mod 64) \<longleftrightarrow> n mod 64 = k mod 64"
proof -
  have "n mod 64 < LENGTH(64)" by simp
  then show ?thesis by (auto simp: push_bit_of_1 bit_exp_iff possible_bit_word)
qed

lemma set_bit_mag:
  assumes "bn_ok (s_bn st r)" and "k div 64 < b_width (s_bn st r)"
  shows "mag (s_bn (wr st (r, 0) (k div 64) (rd st (r, 0) (k div 64) OR push_bit (k mod 64) 1)) r) = set_bit k (mag (s_bn st r))"
proof (rule wr_mag [OF assms])
  fix n
  show "bit (set_bit k (mag (s_bn st r))) n \<longleftrightarrow> (if n div 64 = k div 64
      then bit (rd st (r, 0) (k div 64) OR push_bit (k mod 64) 1) (n mod 64) else bit (mag (s_bn st r)) n)"
  proof (cases "n div 64 = k div 64")
    case True
    then show ?thesis unfolding bit_or_iff bit_single
      using mag_bit [OF assms(1), of n] assms(2) div_mod_64 [OF True] by (auto simp: bit_set_bit_iff rd_def)
  qed (auto simp: bit_set_bit_iff)
qed

lemma clear_bit_mag:
  assumes "bn_ok (s_bn st r)" and "k div 64 < b_width (s_bn st r)"
  shows "mag (s_bn (wr st (r, 0) (k div 64) (rd st (r, 0) (k div 64) AND NOT (push_bit (k mod 64) 1))) r) = unset_bit k (mag (s_bn st r))"
proof (rule wr_mag [OF assms])
  fix n
  show "bit (unset_bit k (mag (s_bn st r))) n \<longleftrightarrow> (if n div 64 = k div 64
      then bit (rd st (r, 0) (k div 64) AND NOT (push_bit (k mod 64) 1)) (n mod 64) else bit (mag (s_bn st r)) n)"
  proof (cases "n div 64 = k div 64")
    case True
    then show ?thesis unfolding bit_and_iff bit_not_iff bit_single
      using mag_bit [OF assms(1), of n] assms(2) div_mod_64 [OF True] by (auto simp: bit_unset_bit_iff rd_def)
  qed (auto simp: bit_unset_bit_iff)
qed

lemma sets_minimal:
  assumes "frame r st st1" and "bn_ok (s_bn st1 r)" and "v = (if b_neg (s_bn st1 r) then - int (mag (s_bn st1 r)) else int (mag (s_bn st1 r)))"
  shows "sets st r n v (True, bn_set_minimal_width st1 r)"
  using bn_set_minimal_width_value [OF assms(2)] assms(1,3) frame_trans by (auto simp: sets_def canonical_def bval_def)

lemma BN_clear_bit_sets:
  assumes "bn_ok (s_bn st a)" and "0 \<le> n" and "nat n div 64 < b_width (s_bn st a)"
  shows "sets st a 0 (if b_neg (s_bn st a) then - int (unset_bit (nat n) (mag (s_bn st a))) else int (unset_bit (nat n) (mag (s_bn st a))))
    (BN_clear_bit st a n)"
proof -
  let ?st = "wr st (a, 0) (nat n div 64) (rd st (a, 0) (nat n div 64) AND NOT (push_bit (nat n mod 64) 1))"
  have "BN_clear_bit st a n = (True, bn_set_minimal_width ?st a)" using assms(2,3) by (simp add: BN_clear_bit_def Let_def)
  moreover have "sets st a 0 (if b_neg (s_bn st a) then - int (unset_bit (nat n) (mag (s_bn st a)))
      else int (unset_bit (nat n) (mag (s_bn st a)))) (True, bn_set_minimal_width ?st a)"
    by (rule sets_minimal) (use assms clear_bit_mag [OF assms(1,3)] in simp_all)
  ultimately show ?thesis by simp
qed

lemma zero_words:
  assumes "room st (r, 0) (w + n)"
  shows "foldl (\<lambda>st k. wr st (r, 0) k 0) st [w..<w + n] = put st (r, w) (replicate n 0)"
  using assms
proof (induction n)
  case (Suc n)
  have r: "room st (r, w) (Suc (length (replicate n (0 :: limb))))" using Suc(2) by (simp add: room_def)
  have "wr st' (r, 0) (w + n) 0 = wr st' (r, w) n 0" for st' by (simp add: wr_def)
  then show ?case using Suc room_less [OF Suc(2), of "w + n"] wr_snoc [OF r, of 0] by (simp flip: replicate_append_same)
qed simp

lemma BN_set_bit_gives:
  assumes "bn_ok (s_bn st a)" and "0 \<le> n"
  shows "gives st a (nat n div 64 + 1)
    (if b_neg (s_bn st a) then - int (set_bit (nat n) (mag (s_bn st a))) else int (set_bit (nat n) (mag (s_bn st a)))) True (BN_set_bit st a n)"
proof -
  let ?i = "nat n div 64" and ?j = "nat n mod 64" and ?w = "b_width (s_bn st a)" and ?m = "mag (s_bn st a)" and ?g = "b_neg (s_bn st a)"
  let ?v = "if ?g then - int (set_bit (nat n) ?m) else int (set_bit (nat n) ?m)"
  let ?F = "\<lambda>st. (True, wr st (a, 0) ?i (rd st (a, 0) ?i OR push_bit ?j 1))"
  have fin: "gives st a (?i + 1) ?v True (?F st1)"
    if "frame a st st1" "bn_ok (s_bn st1 a)" "?i < b_width (s_bn st1 a)" "mag (s_bn st1 a) = ?m" "b_neg (s_bn st1 a) = ?g" for st1
  proof -
    have m: "mag (s_bn (snd (?F st1)) a) = set_bit (nat n) ?m" using set_bit_mag [OF that(2,3)] that(4) by simp
    have "bit (set_bit (nat n) ?m) (nat n)" by (simp add: bit_set_bit_iff)
    then have "set_bit (nat n) ?m \<noteq> 0" by (metis bit_0_eq bot_apply bot_bool_def)
    then show ?thesis using m that(2,5) frame_trans [OF that(1) frame_set(3)] by (auto simp: gives_def bval_def canonical_def)
  qed
  show ?thesis
  proof (cases "?w \<le> ?i")
    case False
    then show ?thesis using fin [of st] assms by (simp add: BN_set_bit_def Let_def)
  next
    case True
    have "gives st a (?i + 1) ?v True (chk (bn_wexpand st a (?i + 1)) (\<lambda>st.
        let w = b_width (s_bn st a); st = foldl (\<lambda>st k. wr st (a, 0) k 0) st [w..<?i + 1] in ?F (set_width st a (?i + 1))))"
    proof (rule gives_expand [OF assms(1)])
      fix st1 assume k: "kept a st st1" "?i + 1 \<le> b_dmax (s_bn st1 a)"
      have w: "b_width (s_bn st1 a) = ?w" using keptD(4) [OF k(1)] .
      have r: "room st1 (a, 0) (?w + (?i + 1 - ?w))" using room_width [OF keptD(2) [OF k(1)] k(2)] True by simp
      have z: "foldl (\<lambda>st k. wr st (a, 0) k 0) st1 [?w..<?i + 1] = put st1 (a, ?w) (replicate (?i + 1 - ?w) 0)"
        using zero_words [OF r] True by simp
      let ?st = "set_width (put st1 (a, ?w) (replicate (?i + 1 - ?w) 0)) a (?i + 1)"
      have ok1: "bn_ok (s_bn st1 a)" using keptD(2) [OF k(1)] .
      have "limbs (s_bn ?st a) = limbs (s_bn st1 a) @ replicate (?i + 1 - ?w) 0" using r True w
        by (simp add: limbs_def s_bn_put splice_def room_def)
      then have m: "mag (s_bn ?st a) = ?m" using keptD(6) [OF k(1), of a] by (simp add: mag_def lval_append)
      have "bn_ok (s_bn ?st a)" using ok1 k(2) r by (simp add: bn_ok_def s_bn_put length_splice room_def)
      moreover have "frame a st ?st" by (rule frame_trans [OF keptD(1) [OF k(1)] frame_trans [OF frame_set(4) frame_set(1)]])
      moreover have "?i < b_width (s_bn ?st a)" "b_neg (s_bn ?st a) = ?g" using keptD(5) [OF k(1)] by simp_all
      ultimately have "gives st a (?i + 1) ?v True (?F ?st)" by (intro fin m)
      then show "gives st a (?i + 1) ?v True (let w = b_width (s_bn st1 a); st = foldl (\<lambda>st k. wr st (a, 0) k 0) st1 [w..<?i + 1]
          in ?F (set_width st a (?i + 1)))" unfolding Let_def w z .
    qed
    moreover have "BN_set_bit st a n = chk (bn_wexpand st a (?i + 1)) (\<lambda>st.
        let w = b_width (s_bn st a); st = foldl (\<lambda>st k. wr st (a, 0) k 0) st [w..<?i + 1] in ?F (set_width st a (?i + 1)))"
      using True assms(2) unfolding BN_set_bit_def by (simp only: Let_def if_True if_False not_less [symmetric] simp_thms)
    ultimately show ?thesis by simp
  qed
qed

lemma BN_mask_bits_gives:
  assumes "bn_ok (s_bn st a)" and "0 \<le> n"
  shows "gives st a 0 (if b_neg (s_bn st a) then - int (mag (s_bn st a) mod 2 ^ nat n) else int (mag (s_bn st a) mod 2 ^ nat n))
    (canonical (s_bn st a)) (BN_mask_bits st a n)"
proof -
  let ?w = "nat n div 64" and ?b = "nat n mod 64"
  have bits: "bit (mag (s_bn st a) mod 2 ^ nat n) k \<longleftrightarrow> k < nat n \<and> bit (mag (s_bn st a)) k" for k
    by (simp add: bit_take_bit_iff flip: take_bit_eq_mod)
  show ?thesis
  proof (cases "?w \<ge> b_width (s_bn st a)")
    case True
    have "mag (s_bn st a) mod 2 ^ nat n = mag (s_bn st a)"
    proof (rule bit_eqI)
      fix k
      have "bit (mag (s_bn st a)) k \<Longrightarrow> k < nat n" using True mag_bit [OF assms(1), of k] div_le_mono [of "nat n" k 64] by linarith
      then show "bit (mag (s_bn st a) mod 2 ^ nat n) k \<longleftrightarrow> bit (mag (s_bn st a)) k" unfolding bits by blast
    qed
    then show ?thesis using True assms by (simp add: BN_mask_bits_def Let_def gives_def bval_def)
  next
    case False
    define st2 where "st2 = (if ?b = 0 then set_width st a ?w
        else wr (set_width st a (?w + 1)) (a, 0) ?w (rd st (a, 0) ?w AND NOT (push_bit ?b (-1))))"
    have ok: "bn_ok (s_bn (set_width st a k) a)" if "k \<le> b_width (s_bn st a)" for k using assms(1) that by (simp add: bn_ok_def)
    have run: "BN_mask_bits st a n = (True, bn_set_minimal_width st2 a)"
      using False assms(2) by (simp add: BN_mask_bits_def Let_def st2_def not_le)
    have mb: "bit (mag (s_bn (set_width st a k) a)) j \<longleftrightarrow> j div 64 < k \<and> bit (mag (s_bn st a)) j"
      if "k \<le> b_width (s_bn st a)" for k j
      using mag_bit [OF ok [OF that], of j] mag_bit [OF assms(1), of j] that by auto
    have "mag (s_bn st2 a) = mag (s_bn st a) mod 2 ^ nat n"
    proof (cases "?b = 0")
      case True
      have "k div 64 < ?w \<longleftrightarrow> k < nat n" for k using True by (metis div_less_iff_less_mult div_mult_mod_eq add_0_right zero_less_numeral)
      then show ?thesis using True False mb [of ?w] by (intro bit_eqI) (simp add: st2_def bits)
    next
      case nz: False
      have "mag (s_bn (wr (set_width st a (?w + 1)) (a, 0) ?w (rd st (a, 0) ?w AND NOT (push_bit ?b (-1)))) a) = mag (s_bn st a) mod 2 ^ nat n"
      proof (rule wr_mag)
        fix k
        have lt: "k div 64 = ?w \<Longrightarrow> k mod 64 < ?b \<longleftrightarrow> k < nat n" by (metis div_mult_mod_eq nat_add_left_cancel_less)
        have lt': "k div 64 \<noteq> ?w \<Longrightarrow> k div 64 < ?w + 1 \<longleftrightarrow> k < nat n"
          using div_le_mono [of "nat n" k 64] div_le_mono [of k "nat n" 64] by linarith
        have m: "bit (push_bit ?b (-1) :: limb) (k mod 64) \<longleftrightarrow> ?b \<le> k mod 64"
        proof -
          have "k mod 64 < LENGTH(64)" by simp
          then show ?thesis by (auto simp: bit_push_bit_iff bit_minus_1_iff possible_bit_word bit_not_iff bit_mask_iff)
        qed
        show "bit (mag (s_bn st a) mod 2 ^ nat n) k \<longleftrightarrow> (if k div 64 = ?w then bit (rd st (a, 0) ?w AND NOT (push_bit ?b (-1))) (k mod 64)
            else bit (mag (s_bn (set_width st a (?w + 1)) a)) k)"
        proof (cases "k div 64 = ?w")
          case True
          then show ?thesis unfolding bits bit_and_iff bit_not_iff m using lt [OF True] False mag_bit [OF assms(1), of k]
            by (auto simp: rd_def possible_bit_word)
        next
          case ne: False
          then show ?thesis unfolding bits using lt' mb [of "?w + 1" k] False by auto
        qed
      qed (use ok [of "?w + 1"] False in simp_all)
      then show ?thesis using nz by (simp add: st2_def)
    qed
    moreover have "bn_ok (s_bn st2 a)" using ok False by (simp add: st2_def)
    moreover have "frame a st st2" using frame_trans [OF frame_set(1) frame_set(3)] by (auto simp: st2_def)
    moreover have "b_neg (s_bn st2 a) = b_neg (s_bn st a)" by (simp add: st2_def)
    ultimately show ?thesis unfolding run by (intro sets_gives sets_minimal) simp_all
  qed
qed

end
