(* ===== verification/BnSingleSpec.thy ===== *)
theory BnSingleSpec imports BnDigitSpec begin

text \<open>
  \<open>BN_add_word\<close> and \<open>BN_sub_word\<close>: they end, and add a word to an integer, or take it away, whatever the signs are.
\<close>

lemma wr_at: "room st (a, 0) (Suc i) \<Longrightarrow> wr st (a, 0) i w = put st (a, i) [w]"
  by (simp add: wr_put advance_def)

lemma put_words_same: "room st p n \<Longrightarrow> put st p (words st p n) = st"
proof -
  assume r: "room st p n"
  have "splice d pos (take n (drop pos d)) = d" if "pos + n \<le> length d" for d :: "limb list" and pos
    using that append_take_drop_id [of pos d] append_take_drop_id [of n "drop pos d"] by (simp add: splice_def min_absorb2 add.commute)
  then show ?thesis using r by (simp add: put_def words_def room_def upd_def)
qed

lemma put_Cons: "room st (a, i) (Suc (length us)) \<Longrightarrow> put (put st (a, i) [w]) (a, Suc i) us = put st (a, i) (w # us)"
  using put_put [of st "(a, i)" "[w]" us] by (simp add: advance_def)

lemma words_Cons: "room st (a, i) (Suc k) \<Longrightarrow> words st (a, i) (Suc k) = rd st (a, 0) i # words st (a, Suc i) k"
  using words_split [of st "(a, i)" 1 k] by (simp add: advance_def words_def rd_def room_def take_Suc hd_drop_conv_nth)

lemma words_behind: "room st (a, i) (Suc k) \<Longrightarrow> words (put st (a, i) [w]) (a, Suc i) k = words st (a, Suc i) k"
  by (rule words_put_apart) (auto simp: room_def apart_def)

lemma add_word_loop_sum:
  assumes "room st (a, i) k"
  shows "\<exists>j us c. add_word_loop k st a i w = (j, put st (a, i) us, c) \<and> length us = k \<and>
    lval us + size_mod ^ k * unat c = lval (words st (a, i) k) + unat w \<and> (c \<noteq> 0 \<longrightarrow> j = i + k)"
  using assms
proof (induction k arbitrary: st i w)
  case 0
  then show ?case by (intro exI [of _ i] exI [of _ "[]"] exI [of _ w]) (simp add: words_def)
next
  case (Suc k)
  show ?case
  proof (cases "w = 0")
    case True
    then show ?thesis using put_words_same [OF Suc(2)] Suc(2)
      by (intro exI [of _ i] exI [of _ "words st (a, i) (Suc k)"] exI [of _ 0]) simp
  next
    case False
    let ?x = "rd st (a, 0) i" and ?c = "if w > rd st (a, 0) i + w then 1 else 0 :: limb"
    let ?st = "put st (a, i) [?x + w]"
    have r1: "room st (a, i) (length [?x + w])" using Suc(2) by (simp add: room_def)
    have r: "room ?st (a, Suc i) k" unfolding room_put [OF r1] using Suc(2) by (simp add: room_def)
    obtain j us c where h: "add_word_loop k ?st a (Suc i) ?c = (j, put ?st (a, Suc i) us, c)" "length us = k"
      "lval us + size_mod ^ k * unat c = lval (words ?st (a, Suc i) k) + unat ?c" "c \<noteq> 0 \<longrightarrow> j = Suc i + k"
      using Suc.IH [OF r, of ?c] by blast
    have step: "unat (?x + w) + size_mod * unat ?c = unat ?x + unat w"
      using unat_limb_lt [of ?x] unat_limb_lt [of w] by (auto simp: unat_plus_if' word_less_nat_alt simp del: unat_u64_lt)
    have "wr st (a, 0) i (?x + w) = ?st" by (rule wr_at) (use Suc(2) in \<open>simp add: room_def\<close>)
    then have "add_word_loop (Suc k) st a i w = (j, put st (a, i) ((?x + w) # us), c)"
      using h(1,2) False put_Cons [of st a i us "?x + w"] Suc(2) by (simp add: Let_def)
    moreover have "lval ((?x + w) # us) + size_mod ^ Suc k * unat c = lval (words st (a, i) (Suc k)) + unat w"
    proof -
      have "lval ((?x + w) # us) + size_mod ^ Suc k * unat c = unat (?x + w) + size_mod * (lval us + size_mod ^ k * unat c)"
        by (simp add: algebra_simps)
      also have "\<dots> = unat (?x + w) + size_mod * (lval (words st (a, Suc i) k) + unat ?c)"
        unfolding h(3) words_behind [OF Suc(2)] ..
      also have "\<dots> = lval (words st (a, i) (Suc k)) + unat w"
        using step unfolding words_Cons [OF Suc(2)] lval.simps add_mult_distrib2 by linarith
      finally show ?thesis .
    qed
    ultimately show ?thesis using h(2,4) by (intro exI [of _ j] exI [of _ "(?x + w) # us"] exI [of _ c]) simp
  qed
qed

lemma sub_word_loop_difference:
  assumes "room st (a, i) k" and "unat w \<le> lval (words st (a, i) k)" and "w \<noteq> 0"
  shows "\<exists>j us. sub_word_loop k st a i w = Some (j, put st (a, i) us) \<and> length us = k \<and>
    lval us + unat w = lval (words st (a, i) k) \<and> j < i + k"
  using assms
proof (induction k arbitrary: st i w)
  case 0
  then have "lval (words st (a, i) 0) = 0" by (simp add: words_def)
  then show ?case using 0(2,3) by (simp add: unat_eq_zero)
next
  case (Suc k)
  let ?x = "rd st (a, 0) i" and ?rest = "lval (words st (a, Suc i) k)"
  let ?st = "put st (a, i) [?x - w]"
  have r1: "room st (a, i) (length [?x - w])" using Suc(2) by (simp add: room_def)
  have r: "room ?st (a, Suc i) k" unfolding room_put [OF r1] using Suc(2) by (simp add: room_def)
  have wr: "wr st (a, 0) i (?x - w) = ?st" by (rule wr_at) (use Suc(2) in \<open>simp add: room_def\<close>)
  note sp = words_Cons [OF Suc(2)]
  show ?case
  proof (cases "?x \<ge> w")
    case True
    have r2: "room st (a, Suc i) k" using Suc(2) by (simp add: room_def)
    have "put ?st (a, Suc i) (words ?st (a, Suc i) k) = ?st" by (rule put_words_same [OF r])
    then have "?st = put st (a, i) ((?x - w) # words st (a, Suc i) k)"
      using put_Cons [of st a i "words st (a, Suc i) k" "?x - w"] words_behind [OF Suc(2)] Suc(2) r2 by simp
    moreover have "unat (?x - w) + unat w = unat ?x" using True by (simp add: unat_sub word_le_nat_alt)
    ultimately show ?thesis using True wr r2 unfolding sp
      by (intro exI [of _ i] exI [of _ "(?x - w) # words st (a, Suc i) k"]) simp
  next
    case False
    then have lt: "unat ?x < unat w" by (simp add: word_le_nat_alt not_le)
    have step: "unat (?x - w) + unat w = unat ?x + size_mod"
      using lt unat_limb_lt [of w] by (auto simp: unat_sub_if' simp del: unat_u64_lt)
    have "?rest \<noteq> 0" using Suc(3) lt unfolding sp by auto
    then have "unat (1 :: limb) \<le> lval (words ?st (a, Suc i) k)" unfolding words_behind [OF Suc(2)] by simp
    then obtain j us where h: "sub_word_loop k ?st a (Suc i) 1 = Some (j, put ?st (a, Suc i) us)" "length us = k"
      "lval us + unat (1 :: limb) = lval (words ?st (a, Suc i) k)" "j < Suc i + k"
      using Suc.IH [OF r, of 1] by auto
    have "sub_word_loop (Suc k) st a i w = Some (j, put st (a, i) ((?x - w) # us))"
      using h(1,2) False put_Cons [of st a i us "?x - w"] Suc(2) wr by simp
    moreover have "lval ((?x - w) # us) + unat w = lval (words st (a, i) (Suc k))"
    proof -
      have "?rest = lval us + 1" using h(3) unfolding words_behind [OF Suc(2)] by simp
      then show ?thesis using step unfolding sp lval.simps by (simp add: algebra_simps)
    qed
    ultimately show ?thesis using h(2,4) by (intro exI [of _ j] exI [of _ "(?x - w) # us"]) simp
  qed
qed

section \<open>The two functions\<close>

lemma mag_neg [simp]: "mag (b\<lparr>b_neg := v\<rparr>) = mag b"
  by (simp add: mag_def limbs_def)

lemma mag_bval: "int (mag b) = \<bar>bval b\<bar>"
  by (simp add: bval_def)

text \<open>Words that replace those of \<open>a\<close>.\<close>

lemma put_limbs:
  assumes "bn_ok (s_bn st a)" and "length ws = b_width (s_bn st a)"
  shows "frame a st (put st (a, 0) ws)" and "bn_ok (s_bn (put st (a, 0) ws) a)" and "mag (s_bn (put st (a, 0) ws) a) = lval ws"
proof -
  have r: "room st (a, 0) (length ws)" using assms by (intro room_width) (auto simp: bn_ok_def)
  show "frame a st (put st (a, 0) ws)" by simp
  show "bn_ok (s_bn (put st (a, 0) ws) a)" unfolding bn_ok_put [OF r] by (rule assms(1))
  show "mag (s_bn (put st (a, 0) ws) a) = lval ws" unfolding mag_def limbs_put [OF r assms(2) [symmetric]] ..
qed

lemma able_put [simp]: "able (put st p ws) r n = able st r n"
proof -
  have "s_malloc (put st p ws) = s_malloc st" by (simp add: put_def)
  then show ?thesis by (simp add: able_def)
qed

lemma gives_frame: "frame r st st1 \<Longrightarrow> (able st r n \<Longrightarrow> able st1 r n) \<Longrightarrow> gives st1 r n v q res \<Longrightarrow> gives st r n v q res"
  using frame_trans by (fastforce simp: gives_def)

lemma add_word_abs_gives:
  assumes "bn_ok (s_bn st a)" and "\<not> b_neg (s_bn st a)"
  shows "gives st a (b_width (s_bn st a) + 1) (int (mag (s_bn st a)) + uint w) True (add_word_abs st a w)"
proof -
  let ?w = "b_width (s_bn st a)"
  have r: "room st (a, 0) ?w" using assms(1) by (intro room_width) (auto simp: bn_ok_def)
  have m: "lval (words st (a, 0) ?w) = mag (s_bn st a)" unfolding words_limbs [OF assms(1)] mag_def ..
  obtain j us c where l: "add_word_loop ?w st a 0 w = (j, put st (a, 0) us, c)" "length us = ?w"
    "lval us + size_mod ^ ?w * unat c = mag (s_bn st a) + unat w" "c \<noteq> 0 \<longrightarrow> j = ?w"
    using add_word_loop_sum [OF r, of w] m by auto
  let ?st = "put st (a, 0) us"
  note p = put_limbs [OF assms(1) l(2)]
  show ?thesis
  proof (cases "c = 0")
    case True
    then have "int (lval us) = int (mag (s_bn st a)) + uint w" using l(3) by simp
    then show ?thesis using l(1) True p assms(2) by (simp add: add_word_abs_def gives_def bval_def canonical_def)
  next
    case False
    let ?F = "\<lambda>st. (True, wr (set_width st a (b_width (s_bn st a) + 1)) (a, 0) ?w c)"
    have run: "add_word_abs st a w = chk (bn_wexpand ?st a (?w + 1)) ?F" using l False by (simp add: add_word_abs_def)
    have "gives ?st a (?w + 1) (int (mag (s_bn st a)) + uint w) True (chk (bn_wexpand ?st a (?w + 1)) ?F)"
    proof (rule gives_expand [OF p(2)])
      fix st1 assume k: "kept a ?st st1" "?w + 1 \<le> b_dmax (s_bn st1 a)"
      let ?ws = "words st1 (a, 0) ?w"
      have w: "b_width (s_bn st1 a) = ?w" using keptD(4) [OF k(1)] by simp
      note kw = kept_words [OF k(1) p(2), unfolded put_keeps]
      have r1: "room st1 (a, 0) (Suc (length ?ws))" using room_width [OF keptD(2) [OF k(1)] k(2)] kw(1) by simp
      have len: "length ?ws = ?w" using kw(1) by simp
      have "wr st1 (a, 0) ?w c = put st1 (a, 0) (?ws @ [c])"
        using wr_snoc [OF r1, of c] put_words_same [OF kw(1)] len by simp
      then have e: "?F st1 = (True, set_width (put st1 (a, 0) (?ws @ [c])) a (length (?ws @ [c])))"
        using len w by (simp add: wr_set_width)
      have "lval (?ws @ [c]) = mag (s_bn st a) + unat w" using l(3) kw(2) p(3) len by (simp add: lval_append)
      then show "gives ?st a (?w + 1) (int (mag (s_bn st a)) + uint w) True (?F st1)" unfolding e
        by (intro gives_written) (use keptD(1,2,5) [OF k(1)] k(2) len assms(2) in simp_all)
    qed
    then show ?thesis unfolding run by (rule gives_frame [rotated 2]) (use p in simp_all)
  qed
qed

lemma sub_word_abs_gives:
  assumes "bn_ok (s_bn st a)" and "\<not> b_neg (s_bn st a)" and "mag (s_bn st a) \<noteq> 0" and "w \<noteq> 0"
  shows "\<exists>res. sub_word_abs st a w = Some res \<and> gives st a 0 (int (mag (s_bn st a)) - uint w) True res"
proof -
  let ?w = "b_width (s_bn st a)"
  have r: "room st (a, 0) ?w" using assms(1) by (intro room_width) (auto simp: bn_ok_def)
  have m: "lval (words st (a, 0) ?w) = mag (s_bn st a)" unfolding words_limbs [OF assms(1)] mag_def ..
  have "?w \<noteq> 0" using assms(3) by (cases ?w) (auto simp: mag_def limbs_def)
  then obtain k where k: "?w = Suc k" using not0_implies_Suc by blast
  have sp: "mag (s_bn st a) = unat (rd st (a, 0) 0) + size_mod * lval (words st (a, Suc 0) k)"
    using m words_Cons [of st a 0 k] r unfolding k by simp
  note top = bn_minimal_width_top [OF assms(1)]
  show ?thesis
  proof (cases "bn_minimal_width (s_bn st a) = 1 \<and> rd st (a, 0) 0 < w")
    case True
    then have "mag (s_bn st a) < size_mod" using top(1) by simp
    then have v: "mag (s_bn st a) = unat (rd st (a, 0) 0)" using sp by (cases "lval (words st (a, Suc 0) k)") auto
    let ?x = "w - rd st (a, 0) 0" and ?us = "words st (a, Suc 0) k"
    have r1: "room st (a, 0) (Suc 0)" "room st (a, Suc 0) k" using r k by (simp_all add: room_def)
    have "put (put st (a, 0) [?x]) (a, Suc 0) ?us = put st (a, 0) (?x # ?us)" by (rule put_Cons) (use r k r1 in simp)
    moreover have "put (put st (a, 0) [?x]) (a, Suc 0) (words (put st (a, 0) [?x]) (a, Suc 0) k) = put st (a, 0) [?x]"
      by (rule put_words_same) (use r1 room_put [of st "(a, 0)" "[?x]"] in simp)
    ultimately have e: "wr st (a, 0) 0 ?x = put st (a, 0) (?x # ?us)"
      using wr_at [OF r1(1)] words_behind [of st a 0 k ?x] r k by simp
    have len: "length (?x # ?us) = ?w" using r1 k by simp
    have z: "lval ?us = 0" using v sp by simp
    have x: "uint ?x = uint w - int (mag (s_bn st a))" using True unfolding v by (simp add: uint_sub_if' word_less_def less_imp_le)
    have "unat ?x \<noteq> 0" using True by (auto simp: unat_eq_zero)
    have "gives st a 0 (int (mag (s_bn st a)) - uint w) True (True, set_neg (put st (a, 0) (?x # ?us)) a True)"
      using put_limbs [OF assms(1) len] z x \<open>unat ?x \<noteq> 0\<close> frame_trans [OF frame_set(4) frame_set(2)]
      by (simp add: gives_def bval_def canonical_def)
    then show ?thesis using True e by (simp add: sub_word_abs_def)
  next
    case False
    have "unat w \<le> mag (s_bn st a)"
    proof (cases "bn_minimal_width (s_bn st a) \<le> 1")
      case True
      then have mw: "bn_minimal_width (s_bn st a) = 1" using top(1) assms(3) by (cases "bn_minimal_width (s_bn st a)") auto
      then show ?thesis using False sp by (auto simp: word_le_nat_alt not_less)
    next
      case False
      have "size_mod ^ 1 \<le> size_mod ^ (bn_minimal_width (s_bn st a) - 1)" by (rule power_increasing) (use False in simp_all)
      then have "size_mod \<le> mag (s_bn st a)" using top(2) False by auto
      then show ?thesis using unat_limb_lt [of w] by linarith
    qed
    then obtain j us where l: "sub_word_loop ?w st a 0 w = Some (j, put st (a, 0) us)" "length us = ?w"
      "lval us + unat w = mag (s_bn st a)" "j < ?w"
      using sub_word_loop_difference [OF r _ assms(4)] m by auto
    let ?st = "put st (a, 0) us"
    note p = put_limbs [OF assms(1) l(2)]
    have "int (lval us + unat w) = int (mag (s_bn st a))" unfolding l(3) ..
    then have v: "int (lval us) = int (mag (s_bn st a)) - uint w" by simp
    have "gives st a 0 (int (mag (s_bn st a)) - uint w) True (True, ?st)"
      using p v assms(2) by (simp add: gives_def bval_def canonical_def)
    moreover have "gives st a 0 (int (mag (s_bn st a)) - uint w) True (True, set_width ?st a (?w - 1))" if z: "rd ?st (a, 0) (?w - 1) = 0"
    proof -
      have l1: "limbs (s_bn ?st a) = us" using p(2) r l(2) by (intro limbs_put) simp_all
      have len: "length (b_d (s_bn ?st a)) \<ge> ?w" using p(2) by (simp add: bn_ok_def)
      have "us ! (?w - 1) = 0" using z arg_cong [OF l1, of "\<lambda>ws. ws ! (?w - 1)"] k by (simp add: rd_def limbs_def)
      then have "us = take (?w - 1) us @ [0]" using l(2) k take_Suc_conv_app_nth [of "?w - 1" us] by simp
      then have "lval us = lval (take (?w - 1) us @ [0])" by (rule arg_cong)
      then have "lval us = lval (take (?w - 1) us)" by (simp add: lval_append)
      moreover have "limbs (s_bn (set_width ?st a (?w - 1)) a) = take (?w - 1) us"
        using arg_cong [OF l1, of "take (?w - 1)"] k by (simp add: limbs_def)
      moreover have "bn_ok (s_bn (set_width ?st a (?w - 1)) a)" using p(2) by (auto simp: bn_ok_def)
      ultimately show ?thesis using v assms(2) frame_trans [OF p(1) frame_set(1)]
        by (simp add: gives_def bval_def canonical_def mag_def)
    qed
    ultimately show ?thesis using False l(1) by (auto simp: sub_word_abs_def)
  qed
qed

text \<open>Neither function runs forever.\<close>

lemma BN_add_word_gives:
  assumes "bn_ok (s_bn st a)" and "q \<Longrightarrow> canonical (s_bn st a)"
  shows "\<exists>res. BN_add_word st a w = Some res \<and> gives st a (b_width (s_bn st a) + 1) (bval (s_bn st a) + uint w) q res"
proof -
  let ?w = "b_width (s_bn st a)"
  note z = BN_is_zero_iff [OF assms(1)]
  have zero: "gives st a (?w + 1) (uint w) True (BN_set_word st a w)" if "w \<noteq> 0"
    using BN_set_word_gives [OF assms(1), of w] that able_less [of st a "?w + 1" 1] by (auto simp: gives_def)
  show ?thesis
  proof (cases "w = 0 \<or> mag (s_bn st a) = 0 \<or> \<not> b_neg (s_bn st a)")
    case True
    consider "w = 0" | "w \<noteq> 0" "mag (s_bn st a) = 0" | "w \<noteq> 0" "mag (s_bn st a) \<noteq> 0" "\<not> b_neg (s_bn st a)" using True by argo
    then show ?thesis
    proof cases
      case 1
      then show ?thesis using assms by (simp add: BN_add_word_def gives_def)
    next
      case 2
      then have "bval (s_bn st a) = 0" by (simp add: bval_def)
      then show ?thesis using 2 z zero by (auto simp: BN_add_word_def gives_def)
    next
      case 3
      then show ?thesis using z add_word_abs_gives [OF assms(1) 3(3), of w] by (auto simp: BN_add_word_def gives_def bval_def [of "s_bn st a"])
    qed
  next
    case False
    let ?st = "set_neg st a False"
    have s: "bn_ok (s_bn ?st a)" "\<not> b_neg (s_bn ?st a)" "mag (s_bn ?st a) = mag (s_bn st a)" using assms(1) by simp_all
    obtain ok st' where r: "sub_word_abs ?st a w = Some (ok, st')" "gives ?st a 0 (int (mag (s_bn st a)) - uint w) True (ok, st')"
      using sub_word_abs_gives [OF s(1,2), of w] False s(3) by (metis surj_pair)
    then have g: "ok" "bn_ok (s_bn st' a)" "frame a ?st st'" "bval (s_bn st' a) = int (mag (s_bn st a)) - uint w" "canonical (s_bn st' a)"
      by (auto simp: gives_def)
    let ?st2 = "if \<not> BN_is_zero (s_bn st' a) then set_neg st' a (\<not> b_neg (s_bn st' a)) else st'"
    have "frame a st ?st2" using frame_trans [OF frame_trans [OF frame_set(2) g(3)] frame_set(2)] frame_trans [OF frame_set(2) g(3)] by simp
    moreover have "bval (s_bn ?st2 a) = uint w - int (mag (s_bn st a))" "canonical (s_bn ?st2 a)" "bn_ok (s_bn ?st2 a)"
      using g(2,4,5) BN_is_zero_iff [OF g(2)] by (auto simp: bval_def canonical_def split: if_splits)
    ultimately have "gives st a (?w + 1) (bval (s_bn st a) + uint w) q (ok, ?st2)" using False g(1) by (simp add: gives_def bval_def)
    then show ?thesis using False z r(1) by (simp add: BN_add_word_def)
  qed
qed

lemma BN_sub_word_gives:
  assumes "bn_ok (s_bn st a)" and "q \<Longrightarrow> canonical (s_bn st a)"
  shows "\<exists>res. BN_sub_word st a w = Some res \<and> gives st a (b_width (s_bn st a) + 1) (bval (s_bn st a) - uint w) q res"
proof -
  let ?w = "b_width (s_bn st a)"
  note z = BN_is_zero_iff [OF assms(1)]
  show ?thesis
  proof (cases "w = 0")
    case True
    then show ?thesis using assms by (auto simp: BN_sub_word_def gives_def)
  next
    case w: False
    show ?thesis
    proof (cases "mag (s_bn st a) = 0")
      case True
      obtain ok st' where r: "BN_set_word st a w = (ok, st')" by fastforce
      then have g: "able st a (?w + 1) \<longrightarrow> ok" "bn_ok (s_bn st' a)" "frame a st st'" "ok \<longrightarrow> bval (s_bn st' a) = uint w"
        using BN_set_word_gives [OF assms(1), of w] w able_less [of st a "?w + 1" 1] by (auto simp: gives_def)
      have "gives st' a 0 (- uint w) True (True, BN_set_negative st' a True)" if ok
      proof -
        have "int (mag (s_bn st' a)) = uint w" unfolding mag_bval using g(4) that by simp
        then show ?thesis using BN_set_negative_gives [OF g(2), of True] by simp
      qed
      then have "gives st a (?w + 1) (- uint w) q (ok, if ok then BN_set_negative st' a True else st')"
        using g frame_trans [OF g(3)] by (auto simp: gives_def)
      then show ?thesis using True w z r by (auto simp: BN_sub_word_def bval_def)
    next
      case nz: False
      show ?thesis
      proof (cases "b_neg (s_bn st a)")
        case False
        obtain res where r: "sub_word_abs st a w = Some res" "gives st a 0 (int (mag (s_bn st a)) - uint w) True res"
          using sub_word_abs_gives [OF assms(1) False nz w] by blast
        then have "gives st a (?w + 1) (bval (s_bn st a) - uint w) q res" using False by (auto simp: gives_def bval_def)
        then show ?thesis using False nz w z r(1) by (simp add: BN_sub_word_def)
      next
        case True
        let ?st = "set_neg st a False"
        have s: "bn_ok (s_bn ?st a)" "\<not> b_neg (s_bn ?st a)" "mag (s_bn ?st a) = mag (s_bn st a)" "b_width (s_bn ?st a) = ?w"
          using assms(1) by simp_all
        obtain ok st' where r: "add_word_abs ?st a w = (ok, st')" by fastforce
        then have g: "able st a (?w + 1) \<longrightarrow> ok" "bn_ok (s_bn st' a)" "frame a ?st st'" "ok \<longrightarrow> bval (s_bn st' a) = int (mag (s_bn st a)) + uint w"
          using add_word_abs_gives [OF s(1,2), of w] s(3,4) by (auto simp: gives_def)
        have "int (mag (s_bn st' a)) = int (mag (s_bn st a)) + uint w" if ok
          unfolding mag_bval [of "s_bn st' a"] using g(4) that by simp
        then have "ok \<longrightarrow> int (mag (s_bn st' a)) = int (mag (s_bn st a)) + uint w \<and> mag (s_bn st' a) \<noteq> 0"
          using nz uint_ge_0 [of w] by (metis add_nonneg_eq_0_iff of_nat_0_le_iff of_nat_eq_0_iff)
        then have "gives st a (?w + 1) (bval (s_bn st a) - uint w) q (ok, set_neg st' a True)"
          using g frame_trans [OF frame_trans [OF frame_set(2) g(3)] frame_set(2)] nz True
          by (auto simp: gives_def bval_def canonical_def)
        then show ?thesis using True nz w z r by (simp add: BN_sub_word_def)
      qed
    qed
  qed
qed

end
