(* ===== verification/BnAsn1.thy ===== *)
theory BnAsn1 imports BnBytesSpec CbbRoundtrip begin

text \<open>
  Big numbers as ASN.1 INTEGERs, \<open>crypto/bn_extra/bn_asn1.c\<close>, with \<open>BN_bn2cbb_padded\<close> of \<open>convert.c\<close>: the encoding
  is the DER of the number, and the parser accepts nothing else.
\<close>

text \<open>\<open>junk\<close> is what the new space holds when the number does not fit.\<close>

definition BN_bn2cbb_padded :: "(nat \<Rightarrow> u8) \<Rightarrow> nat \<Rightarrow> bignum \<Rightarrow> nat \<Rightarrow> cbb \<Rightarrow> bool \<times> cbb" where
  "BN_bn2cbb_padded junk len b d c =
     (case BN_bn2bin_padded len b of
        Some bs \<Rightarrow> CBB_add_space bs d c
      | None \<Rightarrow> (case CBB_add_space (map junk [0..<len]) d c of (_, c) \<Rightarrow> (False, c)))"

definition BN_marshal_asn1 :: "(nat \<Rightarrow> u8) \<Rightarrow> bignum \<Rightarrow> nat \<Rightarrow> cbb \<Rightarrow> bool \<times> cbb" where
  "BN_marshal_asn1 junk b d c =
     (if BN_is_negative b then (False, c)
      else
        chk (CBB_add_asn1 CBS_ASN1_INTEGER d c) (\<lambda>c.
          chk (chk (if BN_num_bits b mod 8 = 0 then CBB_add_u8 0 (Suc d) c else (True, c))
            (BN_bn2cbb_padded junk (BN_num_bytes b) b (Suc d))) (CBB_flush d)))"

definition BN_parse_asn1_unsigned :: "cbs \<Rightarrow> bns \<Rightarrow> nat \<Rightarrow> (bool \<times> bns) \<times> cbs" where
  "BN_parse_asn1_unsigned cbs st ret =
     (case CBS_get_asn1 CBS_ASN1_INTEGER cbs of
        (None, cbs) \<Rightarrow> ((False, st), cbs)
      | (Some child, cbs) \<Rightarrow>
          if length child = 0 then ((False, st), cbs)
          else if child ! 0 AND 0x80 \<noteq> 0 then ((False, st), cbs)
          else if child ! 0 = 0 \<and> length child > 1 \<and> child ! 1 AND 0x80 = 0 then ((False, st), cbs)
          else case BN_bin2bn st child (Some ret) of (r, st) \<Rightarrow> ((r \<noteq> None, st), cbs))"

text \<open>The leading zero byte is there when the top bit of the first byte would be set, or for zero.\<close>

lemma hd_be_bytes: "hd (be_bytes (Suc n) v) = word_of_nat (v div 256 ^ n)"
  by (simp add: be_bytes_hd)

lemma der_uint_bits:
  assumes "bit_length v n"
  shows "der_uint v = (if n mod 8 = 0 then [0] else []) @ be_bytes ((n + 7) div 8) v"
proof -
  let ?k = "(n + 7) div 8"
  note l = bit_length_bytes [OF assms]
  have be: "be_bytes ?k v = nat_be v" using l by (intro be_bytes_nat_be) auto
  show ?thesis
  proof (cases "n = 0")
    case True
    then show ?thesis using l(3) by (simp add: der_uint_def)
  next
    case False
    then obtain j where k: "?k = Suc j" by (cases ?k) (auto simp: div_eq_0_iff)
    have v: "2 ^ (n - 1) \<le> v" "v < 2 ^ n" "v \<noteq> 0" using assms False l(3) by (auto simp: bit_length_def k)
    have "n = 8 * j + (n - 8 * j)" "0 < n - 8 * j" "n - 8 * j \<le> 8" using k False by linarith+
    then obtain i where i: "n = 8 * j + i" "0 < i" "i \<le> 8" by blast
    have q: "v div 256 ^ j < 2 ^ i" "2 ^ (i - 1) \<le> v div 256 ^ j"
    proof -
      have p: "(256 :: nat) ^ j = 2 ^ (8 * j)" by (simp add: power_mult)
      show "v div 256 ^ j < 2 ^ i" unfolding p using v(2) i by (intro less_mult_imp_div_less) (simp add: power_add mult.commute)
      have "n - 1 = (i - 1) + 8 * j" using i by simp
      then have "2 ^ (i - 1) * 2 ^ (8 * j) \<le> v" using v(1) by (simp only: power_add)
      then show "2 ^ (i - 1) \<le> v div 256 ^ j" unfolding p by (simp add: less_eq_div_iff_mult_less_eq)
    qed
    have "(2 :: nat) ^ i \<le> 2 ^ 8" by (rule power_increasing) (use i in simp_all)
    then have "unat (hd (be_bytes ?k v)) = v div 256 ^ j" using q unfolding k by (simp add: hd_be_bytes unat_of_nat_u8)
    moreover have "128 \<le> v div 256 ^ j \<longleftrightarrow> i = 8"
    proof
      show "128 \<le> v div 256 ^ j" if "i = 8" using q(2) that by simp
      show "i = 8" if h: "128 \<le> v div 256 ^ j"
      proof (rule ccontr)
        assume "i \<noteq> 8"
        then have "(2 :: nat) ^ i \<le> 2 ^ 7" by (intro power_increasing) (use i in simp_all)
        then show False using q(1) h by simp
      qed
    qed
    moreover have "i = 8 \<longleftrightarrow> n mod 8 = 0" using i by presburger
    moreover have "be_bytes ?k v \<noteq> []" using k by (metis Zero_not_Suc length_be_bytes list.size(3))
    ultimately show ?thesis using v(3) by (simp add: der_uint_def Let_def flip: be)
  qed
qed

lemma length_der_uint_le: "v < 256 ^ k \<Longrightarrow> length (der_uint v) \<le> k + 1"
proof -
  have "v < 256 ^ k \<Longrightarrow> length (nat_be v) \<le> k"
  proof (induction k arbitrary: v)
    case (Suc k)
    then have "length (nat_be (v div 256)) \<le> k" by (simp add: less_mult_imp_div_less mult.commute)
    then show ?case by (cases "v = 0") (simp_all add: nat_be_step)
  qed simp
  then show "v < 256 ^ k \<Longrightarrow> length (der_uint v) \<le> k + 1" by (simp add: der_uint_def Let_def)
qed

lemma adds_space: "adds d bs (CBB_add_space bs d)"
  unfolding CBB_add_space_def by (rule adds_flush_first [OF adds_buffer])

lemma adds_marshal:
  assumes "bn_ok b" and "\<not> b_neg b" and "length (der_uint (mag b)) \<le> 0xFFFFFFFE"
  shows "adds d (der_element CBS_ASN1_INTEGER (der_uint (mag b))) (BN_marshal_asn1 junk b d)"
proof -
  let ?n = "BN_num_bits b"
  have l: "bit_length (mag b) ?n" by (rule BN_num_bits_length [OF assms(1)])
  have "BN_bn2cbb_padded junk (BN_num_bytes b) b d' = CBB_add_space (be_bytes (BN_num_bytes b) (mag b)) d'" for d'
    using bit_length_bytes(1) [OF l] by (intro ext) (simp add: BN_bn2cbb_padded_def BN_bn2bin_padded_eq [OF assms(1)] BN_num_bytes_def)
  then have p: "adds d' (be_bytes ((?n + 7) div 8) (mag b)) (BN_bn2cbb_padded junk (BN_num_bytes b) b d')" for d'
    using adds_space by (simp add: BN_num_bytes_def)
  have z: "adds d' (if ?n mod 8 = 0 then [0] else []) (\<lambda>c. if ?n mod 8 = 0 then CBB_add_u8 0 d' c else (True, c))" for d'
    using adds_u8 [of d' 0] adds_ret by (cases "?n mod 8 = 0") auto
  have "adds (Suc d) (der_uint (mag b)) (\<lambda>c. chk (if ?n mod 8 = 0 then CBB_add_u8 0 (Suc d) c else (True, c))
      (BN_bn2cbb_padded junk (BN_num_bytes b) b (Suc d)))"
    unfolding der_uint_bits [OF l] by (rule adds_chk [OF z p])
  from adds_asn1 [OF this assms(3), of CBS_ASN1_INTEGER] show ?thesis
    by (rule adds_cong) (use assms(2) in \<open>simp_all add: BN_marshal_asn1_def BN_is_negative_def\<close>)
qed

lemma marshal_bytes:
  assumes "bn_ok b" and "\<not> b_neg b"
  shows "build (\<lambda>_. True) 0 (BN_marshal_asn1 junk b 0) = Some (der_element CBS_ASN1_INTEGER (der_uint (mag b)))"
proof -
  have "mag b < 256 ^ (b_width b * 8)" by (rule padded_bytes(3) [OF assms(1)])
  then have l: "length (der_uint (mag b)) \<le> 0xFFFFFFFE"
    using length_der_uint_le [of "mag b" "b_width b * 8"] assms(1) by (simp add: bn_ok_def)
  then have "length (der_element CBS_ASN1_INTEGER (der_uint (mag b))) < size_mod"
    using length_der_element [of CBS_ASN1_INTEGER "der_uint (mag b)"] by simp
  then show ?thesis by (intro build_adds adds_marshal assms l) simp_all
qed

text \<open>What the parser does on any input.\<close>

lemma parse_unsigned:
  "BN_parse_asn1_unsigned cbs st h =
     (case CBS_get_asn1 CBS_ASN1_INTEGER cbs of
        (None, rest) \<Rightarrow> ((False, st), rest)
      | (Some data, rest) \<Rightarrow>
          if data = der_uint (be_val data) then (case BN_bin2bn st data (Some h) of (r, st') \<Rightarrow> ((r \<noteq> None, st'), rest))
          else ((False, st), rest))"
  unfolding BN_parse_asn1_unsigned_def der_uint_iff [symmetric]
  by (auto simp: word_bit7 split: option.splits prod.splits)

lemma der_uint_ne [simp]: "der_uint v \<noteq> []"
  by (simp add: der_uint_def Let_def)

lemma marshal_length:
  assumes "bn_ok b"
  shows "length (der_uint (mag b)) \<le> 0xFFFFFFFE"
  using length_der_uint_le [OF padded_bytes(3) [OF assms]] assms by (simp add: bn_ok_def)

text \<open>C29: \<open>BN_parse_asn1_unsigned\<close> and \<open>BN_marshal_asn1\<close> are inverse: an input is read as the number \<open>b\<close>
  exactly if it starts with the bytes that are written for \<open>b\<close>, and there is room for them; only the
  result is changed.\<close>

theorem bn_asn1_canonical:
  assumes "bn_ok (s_bn st h)" and "bn_ok b" and "\<not> b_neg b"
  shows "(\<exists>st'. BN_parse_asn1_unsigned cbs st h = ((True, st'), rest) \<and> bval (s_bn st' h) = bval b \<and> frame h st st') \<longleftrightarrow>
     (\<exists>bs. build (\<lambda>_. True) 0 (BN_marshal_asn1 junk b 0) = Some bs \<and> cbs = bs @ rest \<and> able st h (words_of (der_uint (mag b))))"
proof -
  have parse: "(\<exists>st'. BN_parse_asn1_unsigned cbs st h = ((True, st'), rest) \<and> bval (s_bn st' h) = bval b \<and> frame h st st') \<longleftrightarrow>
      (\<exists>data. CBS_get_asn1 CBS_ASN1_INTEGER cbs = (Some data, rest) \<and> data = der_uint (be_val data) \<and> able st h (words_of data) \<and>
        int (be_val data) = bval b)" (is "?l \<longleftrightarrow> ?r")
  proof
    assume ?l
    then obtain st' where st': "BN_parse_asn1_unsigned cbs st h = ((True, st'), rest)" "bval (s_bn st' h) = bval b" by blast
    then obtain data r where d: "CBS_get_asn1 CBS_ASN1_INTEGER cbs = (Some data, rest)" "data = der_uint (be_val data)"
      "BN_bin2bn st data (Some h) = (r, st')" "r \<noteq> None"
      unfolding parse_unsigned by (auto split: prod.splits option.splits if_splits)
    then show ?r using BN_bin2bn_stores [OF assms(1), of data] st'(2) der_uint_ne [of "be_val data"]
      by (auto simp: stores_def bval_def split: if_splits)
  next
    assume ?r
    then obtain data where d: "CBS_get_asn1 CBS_ASN1_INTEGER cbs = (Some data, rest)" "data = der_uint (be_val data)"
      "able st h (words_of data)" "int (be_val data) = bval b" by blast
    obtain r st' where b: "BN_bin2bn st data (Some h) = (r, st')" by fastforce
    have "data \<noteq> []" using d(2) der_uint_ne by metis
    then have "r = Some h" "bval (s_bn st' h) = int (be_val data)" "frame h st st'"
      using BN_bin2bn_stores [OF assms(1), of data] d(3) by (simp_all add: b stores_def bval_def)
    moreover have "BN_parse_asn1_unsigned cbs st h = ((r \<noteq> None, st'), rest)"
      unfolding parse_unsigned d(1) by (simp add: b if_P [OF d(2)])
    ultimately show ?l using d(4) by auto
  qed
  have v: "bval b = int (mag b)" using assms(3) by (simp add: bval_def)
  have "length (der_uint (mag b)) < 2 ^ 32" using marshal_length [OF assms(2)] by simp
  moreover have d: "data = der_uint (be_val data) \<and> able st h (words_of data) \<and> int (be_val data) = bval b \<longleftrightarrow>
      data = der_uint (mag b) \<and> able st h (words_of (der_uint (mag b)))" for data
    using be_val_der_uint [of "mag b"] unfolding v of_nat_eq_iff by metis
  ultimately show ?thesis unfolding parse marshal_bytes [OF assms(2,3)] CBS_get_asn1_Some d by simp
qed

theorem bn_asn1_canonical_witness:
  "\<exists>st'. BN_parse_asn1_unsigned [2, 1, 1, 9] start_bns 3 = ((True, st'), [9]) \<and> bval (s_bn st' 3) = 1 \<and> frame 3 start_bns st'"
proof -
  have b: "bn_ok BN_value_one" "\<not> b_neg BN_value_one" "mag BN_value_one = 1" "bval BN_value_one = 1"
    by (simp_all add: bn_ok_def BN_value_one_def mag_def limbs_def bval_def)
  have d: "der_uint (Suc 0) = [1]" by (simp add: der_uint_def nat_be.simps)
  have "able start_bns 3 1" by (simp add: able_def start_bns_def BN_init_def)
  moreover have "build (\<lambda>_. True) 0 (BN_marshal_asn1 (\<lambda>_. 0) BN_value_one 0) = Some [2, 1, 1]"
    using marshal_bytes [OF b(1,2), of "\<lambda>_. 0"] b(3) d
    by (simp add: der_element_def der_header_def der_tag_def der_len_def)
  ultimately show ?thesis
    using bn_asn1_canonical [OF bn_ok_init(2) b(1,2), where cbs = "[2, 1, 1, 9]" and rest = "[9]" and junk = "\<lambda>_. 0" and h = 3] b(3,4) d by (simp add: words_of_def)
qed

end
