(* ===== verification/BnCalc.thy ===== *)
theory BnCalc imports BnSingleSpec BnAsn1 begin

text \<open>
  The operations on big numbers together: any sequence of calls, with any addresses as arguments and results, and
  with allocations that may fail, is a calculation with integers.
\<close>

section \<open>Sequences of calls\<close>

datatype bn_call =
    C_copy nat nat | C_set_word nat limb | C_zero nat | C_set_negative nat bool
  | C_add nat nat nat | C_sub nat nat nat | C_add_word nat limb | C_sub_word nat limb
  | C_lshift nat nat int | C_lshift1 nat nat | C_rshift nat nat int | C_rshift1 nat nat
  | C_set_bit nat int | C_clear_bit nat int | C_mask_bits nat int | C_bin2bn nat "u8 list"

fun run_call :: "bns \<Rightarrow> bn_call \<Rightarrow> (bool \<times> bns) option" where
  "run_call st (C_copy r a) = Some (BN_copy st r a)"
| "run_call st (C_set_word r w) = Some (BN_set_word st r w)"
| "run_call st (C_zero r) = Some (True, BN_zero st r)"
| "run_call st (C_set_negative r v) = Some (True, BN_set_negative st r v)"
| "run_call st (C_add r a b) = Some (BN_add st r a b)"
| "run_call st (C_sub r a b) = Some (BN_sub st r a b)"
| "run_call st (C_add_word r w) = BN_add_word st r w"
| "run_call st (C_sub_word r w) = BN_sub_word st r w"
| "run_call st (C_lshift r a n) = Some (BN_lshift st r a n)"
| "run_call st (C_lshift1 r a) = Some (BN_lshift1 st r a)"
| "run_call st (C_rshift r a n) = Some (BN_rshift st r a n)"
| "run_call st (C_rshift1 r a) = Some (BN_rshift1 st r a)"
| "run_call st (C_set_bit r n) = Some (BN_set_bit st r n)"
| "run_call st (C_clear_bit r n) = Some (BN_clear_bit st r n)"
| "run_call st (C_mask_bits r n) = Some (BN_mask_bits st r n)"
| "run_call st (C_bin2bn r bs) = Some (case BN_bin2bn st bs (Some r) of (p, st) \<Rightarrow> (p \<noteq> None, st))"

text \<open>A caller that goes on after failures, and one that stops at the first.\<close>

fun run_all :: "('s \<Rightarrow> 'c \<Rightarrow> (bool \<times> 's) option) \<Rightarrow> 's \<Rightarrow> 'c list \<Rightarrow> 's option" where
  "run_all run st [] = Some st"
| "run_all run st (c # cs) = (case run st c of None \<Rightarrow> None | Some (_, st) \<Rightarrow> run_all run st cs)"

fun run_checked :: "('s \<Rightarrow> 'c \<Rightarrow> (bool \<times> 's) option) \<Rightarrow> 's \<Rightarrow> 'c list \<Rightarrow> (bool \<times> 's) option" where
  "run_checked run st [] = Some (True, st)"
| "run_checked run st (c # cs) =
     (case run st c of None \<Rightarrow> None
      | Some (ok, st) \<Rightarrow> if ok then run_checked run st cs else Some (False, st))"

text \<open>What a caller of many operations relies on: each one returns and keeps an invariant, changes one object only, and does
  what its specification says when it succeeds; some of them need, and most of them keep, a second property of all objects.\<close>

locale call_contract =
  fixes run :: "'s \<Rightarrow> 'c \<Rightarrow> (bool \<times> 's) option"
    and inv :: "'s \<Rightarrow> bool" and clean :: "'s \<Rightarrow> bool" and quiet :: "'c \<Rightarrow> bool"
    and at :: "'s \<Rightarrow> 'h \<Rightarrow> 'o" and result :: "'c \<Rightarrow> 'h"
    and abst :: "'s \<Rightarrow> 'a" and meaning :: "'c \<Rightarrow> 'a \<Rightarrow> 'a"
  assumes run_total: "inv st \<Longrightarrow> \<exists>ok st'. run st c = Some (ok, st') \<and> inv st' \<and> (\<forall>h. h \<noteq> result c \<longrightarrow> at st' h = at st h)"
    and run_meaning: "inv st \<Longrightarrow> clean st \<Longrightarrow> run st c = Some (True, st') \<Longrightarrow> abst st' = meaning c (abst st)"
    and run_clean: "inv st \<Longrightarrow> clean st \<Longrightarrow> run st c = Some (True, st') \<Longrightarrow> quiet c \<Longrightarrow> clean st'"
begin

lemma all_total: "inv st \<Longrightarrow> \<exists>st'. run_all run st cs = Some st' \<and> inv st' \<and> (\<forall>h. h \<notin> result ` set cs \<longrightarrow> at st' h = at st h)"
proof (induction cs arbitrary: st)
  case (Cons c cs)
  obtain ok st1 where r: "run st c = Some (ok, st1)" "inv st1" "\<forall>h. h \<noteq> result c \<longrightarrow> at st1 h = at st h"
    using run_total [OF Cons(2), of c] by blast
  then obtain st' where "run_all run st1 cs = Some st'" "inv st'" "\<forall>h. h \<notin> result ` set cs \<longrightarrow> at st' h = at st1 h"
    using Cons.IH [of st1] by blast
  then show ?case using r by simp
qed simp

lemma checked_meaning:
  assumes "inv st" and "clean st" and "list_all quiet cs" and "run_checked run st cs = Some (True, st')"
  shows "abst st' = fold meaning cs (abst st) \<and> inv st' \<and> clean st'"
  using assms
proof (induction cs arbitrary: st)
  case (Cons c cs)
  obtain st1 where r: "run st c = Some (True, st1)" "run_checked run st1 cs = Some (True, st')"
    using Cons(5) by (auto split: option.splits prod.splits if_splits)
  have "inv st1" using run_total [OF Cons(2), of c] r(1) by auto
  moreover have "abst st1 = meaning c (abst st)" "clean st1"
    using run_meaning [OF Cons(2,3) r(1)] run_clean [OF Cons(2,3) r(1)] Cons(4) by simp_all
  ultimately show ?case using Cons.IH [of st1] Cons(4) r(2) by simp
qed simp

end

fun target :: "bn_call \<Rightarrow> nat" where
  "target (C_copy r a) = r" | "target (C_set_word r w) = r" | "target (C_zero r) = r"
| "target (C_set_negative r v) = r" | "target (C_add r a b) = r" | "target (C_sub r a b) = r"
| "target (C_add_word r w) = r" | "target (C_sub_word r w) = r" | "target (C_lshift r a n) = r"
| "target (C_lshift1 r a) = r" | "target (C_rshift r a n) = r" | "target (C_rshift1 r a) = r"
| "target (C_set_bit r n) = r" | "target (C_clear_bit r n) = r" | "target (C_mask_bits r n) = r"
| "target (C_bin2bn r bs) = r"

section \<open>The calculator\<close>

text \<open>Functions of the absolute value that keep the sign.\<close>

definition signed :: "int \<Rightarrow> nat \<Rightarrow> int" where
  "signed v m = (if v < 0 then - int m else int m)"

text \<open>A negative zero may gain a bit, so what \<open>BN_set_bit\<close> does of it is a function of the sign too; the calculator
  assumes that there is none.\<close>

fun calc_value :: "(nat \<Rightarrow> int) \<Rightarrow> bn_call \<Rightarrow> int" where
  "calc_value s (C_copy r a) = s a"
| "calc_value s (C_set_word r w) = uint w"
| "calc_value s (C_zero r) = 0"
| "calc_value s (C_set_negative r v) = (if v then - \<bar>s r\<bar> else \<bar>s r\<bar>)"
| "calc_value s (C_add r a b) = s a + s b"
| "calc_value s (C_sub r a b) = s a - s b"
| "calc_value s (C_add_word r w) = s r + uint w"
| "calc_value s (C_sub_word r w) = s r - uint w"
| "calc_value s (C_lshift r a n) = s a * 2 ^ nat n"
| "calc_value s (C_lshift1 r a) = 2 * s a"
| "calc_value s (C_rshift r a n) = signed (s a) (nat \<bar>s a\<bar> div 2 ^ nat n)"
| "calc_value s (C_rshift1 r a) = signed (s a) (nat \<bar>s a\<bar> div 2)"
| "calc_value s (C_set_bit r n) = signed (s r) (set_bit (nat n) (nat \<bar>s r\<bar>))"
| "calc_value s (C_clear_bit r n) = signed (s r) (unset_bit (nat n) (nat \<bar>s r\<bar>))"
| "calc_value s (C_mask_bits r n) = signed (s r) (nat \<bar>s r\<bar> mod 2 ^ nat n)"
| "calc_value s (C_bin2bn r bs) = int (be_val bs)"

definition calc :: "bn_call \<Rightarrow> (nat \<Rightarrow> int) \<Rightarrow> nat \<Rightarrow> int" where
  "calc c s = s(target c := calc_value s c)"

text \<open>The words the result may need, and what is refused whatever memory there is.\<close>

fun needs :: "bns \<Rightarrow> bn_call \<Rightarrow> nat" where
  "needs st (C_copy r a) = b_width (s_bn st a)"
| "needs st (C_set_word r w) = of_bool (w \<noteq> 0)"
| "needs st (C_add r a b) = max (b_width (s_bn st a)) (b_width (s_bn st b)) + 1"
| "needs st (C_sub r a b) = max (b_width (s_bn st a)) (b_width (s_bn st b)) + 1"
| "needs st (C_add_word r w) = b_width (s_bn st r) + 1"
| "needs st (C_sub_word r w) = b_width (s_bn st r) + 1"
| "needs st (C_lshift r a n) = b_width (s_bn st a) + nat n div 64 + 1"
| "needs st (C_lshift1 r a) = b_width (s_bn st a) + 1"
| "needs st (C_rshift r a n) = b_width (s_bn st a)"
| "needs st (C_rshift1 r a) = b_width (s_bn st a)"
| "needs st (C_set_bit r n) = nat n div 64 + 1"
| "needs st (C_bin2bn r bs) = words_of bs"
| "needs st c = 0"

fun refused :: "bns \<Rightarrow> bn_call \<Rightarrow> bool" where
  "refused st (C_lshift r a n) = (n < 0)"
| "refused st (C_rshift r a n) = (n < 0)"
| "refused st (C_set_bit r n) = (n < 0)"
| "refused st (C_mask_bits r n) = (n < 0)"
| "refused st (C_clear_bit r n) = (n < 0 \<or> b_width (s_bn st r) \<le> nat n div 64)"
| "refused st c = False"

fun keeps_sign :: "bn_call \<Rightarrow> bool" where
  "keeps_sign (C_bin2bn r bs) = (bs = [])"
| "keeps_sign c = False"

definition vals :: "bns \<Rightarrow> nat \<Rightarrow> int" where
  "vals st = (\<lambda>h. bval (s_bn st h))"

text \<open>The value with the sign bit of the argument, whether or not that is zero.\<close>

definition with_sign :: "bignum \<Rightarrow> nat \<Rightarrow> int" where
  "with_sign b m = (if b_neg b then - int m else int m)"

fun outcome :: "bns \<Rightarrow> bn_call \<Rightarrow> int" where
  "outcome st (C_rshift r a n) = with_sign (s_bn st a) (mag (s_bn st a) div 2 ^ nat n)"
| "outcome st (C_rshift1 r a) = with_sign (s_bn st a) (mag (s_bn st a) div 2)"
| "outcome st (C_set_bit r n) = with_sign (s_bn st r) (set_bit (nat n) (mag (s_bn st r)))"
| "outcome st (C_clear_bit r n) = with_sign (s_bn st r) (unset_bit (nat n) (mag (s_bn st r)))"
| "outcome st (C_mask_bits r n) = with_sign (s_bn st r) (mag (s_bn st r) mod 2 ^ nat n)"
| "outcome st c = calc_value (vals st) c"

lemma nat_abs_bval [simp]: "nat \<bar>bval b\<bar> = mag b"
  by (simp add: bval_def)

lemma outcome_calc: "(\<And>h. canonical (s_bn st h)) \<Longrightarrow> outcome st c = calc_value (vals st) c"
proof -
  assume cn: "\<And>h. canonical (s_bn st h)"
  have "with_sign (s_bn st h) m = signed (bval (s_bn st h)) m" for h m
    using cn [of h] by (auto simp: with_sign_def signed_def bval_def canonical_def)
  then show ?thesis by (cases c) (simp_all add: vals_def)
qed

text \<open>Every call in one table.\<close>

lemma run_call_gives:
  assumes "\<And>h. bn_ok (s_bn st h)" and "\<not> refused st c"
  shows "\<exists>res. run_call st c = Some res \<and>
    gives st (target c) (needs st c) (outcome st c) ((\<forall>h. canonical (s_bn st h)) \<and> \<not> keeps_sign c) res"
proof -
  note ok = assms(1)
  let ?cn = "\<forall>h. canonical (s_bn st h)"
  have weaken: "gives st r n v q res \<Longrightarrow> (q' \<Longrightarrow> q) \<Longrightarrow> gives st r n v q' res" for r n v q q' res by (auto simp: gives_def)
  show ?thesis
  proof (cases c)
    case (C_copy r a)
    then show ?thesis using weaken [OF BN_copy_gives [OF ok ok, of r a], of ?cn] by (simp add: vals_def)
  next
    case (C_set_word r w)
    then show ?thesis using weaken [OF BN_set_word_gives [OF ok, of r w], of ?cn] by simp
  next
    case (C_zero r)
    then show ?thesis using weaken [OF BN_zero_gives [OF ok, of r], of ?cn] by simp
  next
    case (C_set_negative r v)
    then show ?thesis using weaken [OF BN_set_negative_gives [OF ok, of r v], of ?cn] by (cases v) (simp_all add: vals_def flip: mag_bval)
  next
    case (C_add r a b)
    then show ?thesis using weaken [OF BN_add_gives [OF ok ok ok, of r a b], of ?cn] by (simp add: vals_def)
  next
    case (C_sub r a b)
    then show ?thesis using weaken [OF BN_sub_gives [OF ok ok ok, of r a b], of ?cn] by (simp add: vals_def)
  next
    case (C_add_word r w)
    then show ?thesis using BN_add_word_gives [OF ok, of ?cn r w] by (simp add: vals_def)
  next
    case (C_sub_word r w)
    then show ?thesis using BN_sub_word_gives [OF ok, of ?cn r w] by (simp add: vals_def)
  next
    case (C_lshift r a n)
    then show ?thesis using sets_gives [OF BN_lshift_sets [OF ok ok, of n r a]] assms(2) by (simp add: vals_def)
  next
    case (C_lshift1 r a)
    then show ?thesis using weaken [OF BN_lshift1_gives [OF ok ok, of r a], of ?cn] by (simp add: vals_def)
  next
    case (C_rshift r a n)
    then show ?thesis using sets_gives [OF BN_rshift_sets [OF ok ok, of n r a]] assms(2) by (simp add: with_sign_def)
  next
    case (C_rshift1 r a)
    then show ?thesis using sets_gives [OF BN_rshift1_sets [OF ok ok, of r a]] by (simp add: with_sign_def)
  next
    case (C_set_bit r n)
    then show ?thesis using weaken [OF BN_set_bit_gives [OF ok, of n r], of ?cn] assms(2) by (simp add: with_sign_def)
  next
    case (C_clear_bit r n)
    then show ?thesis using sets_gives [OF BN_clear_bit_sets [OF ok, of n r]] assms(2) by (simp add: with_sign_def not_less)
  next
    case (C_mask_bits r n)
    then show ?thesis using weaken [OF BN_mask_bits_gives [OF ok, of n r], of ?cn] assms(2) by (simp add: with_sign_def)
  next
    case (C_bin2bn r bs)
    then show ?thesis using BN_bin2bn_stores [OF ok, of r bs]
      by (auto simp: stores_def gives_def bval_def canonical_def split: prod.splits if_splits)
  qed
qed

lemma run_call_refused: "refused st c \<Longrightarrow> run_call st c = Some (False, st)"
  by (cases c) (auto simp: BN_lshift_def BN_rshift_def BN_set_bit_def BN_clear_bit_def BN_mask_bits_def Let_def)

lemma run_call_frame:
  assumes "\<forall>h. bn_ok (s_bn st h)"
  shows "\<exists>ok st'. run_call st c = Some (ok, st') \<and> (\<forall>h. bn_ok (s_bn st' h)) \<and> (\<forall>h. h \<noteq> target c \<longrightarrow> s_bn st' h = s_bn st h)"
proof (cases "refused st c")
  case True
  then show ?thesis using run_call_refused [of st c] assms by (intro exI [of _ False] exI [of _ st]) simp
next
  case False
  obtain ok st' where r: "run_call st c = Some (ok, st')" and g: "frame (target c) st st'" "bn_ok (s_bn st' (target c))"
    using run_call_gives [of st c] assms False by (auto simp: gives_def)
  have "bn_ok (s_bn st' h)" for h using g assms by (cases "h = target c") (auto simp: frame_def)
  then show ?thesis using r g by (auto simp: frame_def)
qed

lemma run_call_calc:
  assumes "\<forall>h. bn_ok (s_bn st h)" and "\<forall>h. canonical (s_bn st h)" and "run_call st c = Some (True, st')"
  shows "vals st' = calc c (vals st)" and "\<not> keeps_sign c \<Longrightarrow> canonical (s_bn st' h)"
proof -
  have nr: "\<not> refused st c" using run_call_refused assms(3) by auto
  have g: "frame (target c) st st'" "bval (s_bn st' (target c)) = calc_value (vals st) c"
    "\<not> keeps_sign c \<Longrightarrow> canonical (s_bn st' (target c))"
    using run_call_gives [of st c] nr assms outcome_calc [of st c] by (auto simp: gives_def)
  then show "vals st' = calc c (vals st)" by (auto simp: vals_def calc_def frame_def fun_eq_iff)
  show "canonical (s_bn st' h)" if "\<not> keeps_sign c"
    using g(1) g(3) [OF that] assms(2) by (cases "h = target c") (auto simp: frame_def)
qed

interpretation bn: call_contract run_call "\<lambda>st. \<forall>h. bn_ok (s_bn st h)" "\<lambda>st. \<forall>h. canonical (s_bn st h)" "\<lambda>c. \<not> keeps_sign c"
  s_bn target vals calc
  by unfold_locales (use run_call_frame run_call_calc in blast)+

section \<open>Properties\<close>

text \<open>The definitions that run calls on concrete numbers.\<close>

lemmas run_defs = start_bns_def BN_init_def empty_ctx_def BN_set_word_def bn_wexpand_def next_malloc_def upd_def set_neg_def
  set_width_def wr_def rd_def BN_sub_def BN_ucmp_def bn_cmp_words_consttime_def BN_usub_def bn_usub_consttime_def
  bn_sub_words_def iter4.simps word_step_def usub_step_def bn_set_minimal_width_def bn_minimal_width_def splice_def put_def
  words_def or_words_def eq_w lt_w select_int Let_def

lemma run_example: "\<exists>st. run_checked run_call start_bns [C_set_word 0 5, C_set_word 1 9, C_sub 0 0 1] = Some (True, st)"
  by (simp add: run_defs)

lemma canonical_init [simp]: "canonical (s_bn start_bns h)"
  by (simp add: canonical_def start_bns_def BN_init_def)

lemma bval_init [simp]: "bval (s_bn start_bns h) = 0"
  by (simp add: bval_def mag_def limbs_def start_bns_def BN_init_def)

text \<open>C26: (type) Whatever calls a caller makes on \<open>BIGNUM\<close>s, with whatever arguments, results and aliases among them, and
  whether or not they succeed: every call returns (the loop of \<open>BN_sub_word\<close>, which has no bound in the code, ends), and every \<open>BIGNUM\<close> stays
  well formed: its words are an array of \<open>dmax\<close> words, of which \<open>width\<close> are in use, and not more than the code's
  limit. No operation touches a \<open>BIGNUM\<close> that is not the result of some call.\<close>
theorem bn_calls_type:
  assumes "\<forall>h. bn_ok (s_bn st h)"
  shows "\<exists>st'. run_all run_call st cs = Some st' \<and> (\<forall>h. bn_ok (s_bn st' h)) \<and> (\<forall>h. h \<notin> target ` set cs \<longrightarrow> s_bn st' h = s_bn st h)"
  by (rule bn.all_total [OF assms])

theorem bn_calls_type_witness:
  "\<exists>st'. run_all run_call start_bns [C_set_word 0 5, C_clear_bit 1 (-3), C_sub_word 0 7] = Some st' \<and> (\<forall>h. bn_ok (s_bn st' h)) \<and>
     (\<forall>h. h \<notin> target ` set [C_set_word 0 5, C_clear_bit 1 (-3), C_sub_word 0 7] \<longrightarrow> s_bn st' h = s_bn start_bns h)"
  by (rule bn_calls_type) simp

text \<open>C25: (refinement) Calls on \<open>BIGNUM\<close>s that all succeed compute what a calculator with one integer per address computes: the
  values of all \<open>BIGNUM\<close>s, arguments that are also results included, are those of the calculator. It is enough that no
  \<open>BIGNUM\<close> starts as a negative zero and that \<open>BN_bin2bn\<close> is not given an empty string, which makes a negative zero of a
  negative number; then comparing two of them with \<open>BN_cmp\<close> compares the integers.\<close>
theorem bn_calls_refine_calculator:
  assumes "\<forall>h. bn_ok (s_bn st h) \<and> canonical (s_bn st h)" and "list_all (\<lambda>c. \<not> keeps_sign c) cs"
    and "run_checked run_call st cs = Some (True, st')"
  shows "vals st' = fold calc cs (vals st) \<and>
    (\<forall>a b. BN_cmp (Some (s_bn st' a)) (Some (s_bn st' b)) = sgn (fold calc cs (vals st) a - fold calc cs (vals st) b))"
  using bn.checked_meaning [OF _ _ assms(2,3)] assms(1) BN_cmp_sgn by (metis vals_def)

theorem bn_calls_refine_calculator_witness:
  "\<exists>st'. run_checked run_call start_bns [C_set_word 0 5, C_set_word 1 9, C_sub 0 0 1] = Some (True, st') \<and>
     vals st' 0 = -4 \<and> vals st' 1 = 9 \<and> BN_cmp (Some (s_bn st' 0)) (Some (s_bn st' 1)) = -1"
proof -
  obtain st' where r: "run_checked run_call start_bns [C_set_word 0 5, C_set_word 1 9, C_sub 0 0 1] = Some (True, st')"
    using run_example by blast
  show ?thesis using bn_calls_refine_calculator [OF _ _ r] r by (intro exI [of _ st']) (simp add: calc_def vals_def)
qed

text \<open>C27: (error) A call on a \<open>BIGNUM\<close> fails for three reasons only: its bit number is negative (or \<open>BN_clear_bit\<close> has no such word), or
  the result needs more words than it has and the array is static, or too large for the code's limit, or \<open>malloc\<close> fails.\<close>
theorem bn_call_succeeds:
  assumes "\<forall>h. bn_ok (s_bn st h)" and "\<not> refused st c" and "able st (target c) (needs st c)"
  shows "\<exists>st'. run_call st c = Some (True, st')"
  using run_call_gives [of st c] assms by (auto simp: gives_def)

theorem bn_call_succeeds_witness: "\<exists>st'. run_call start_bns (C_set_bit 4 1000) = Some (True, st')"
proof -
  have "able start_bns 4 16" by (simp add: able_def start_bns_def BN_init_def)
  then show ?thesis using bn_call_succeeds [of start_bns "C_set_bit 4 1000"] by simp
qed

end
