(* ===== verification/Spec2Isabelle.thy ===== *)
theory Spec2Isabelle imports PbRoundtrip PbPointer BerConvert CbbInv OidText SetOf Base64Spec StackSpec BioSpec LhashSpec BnCalc begin

text \<open>
  The C core under the pods of the BookUp application.

  The repository is an iOS application, written in Swift, with the sources of its dependencies
  (directory \<open>src/BookUp/Pods\<close>). The C code in it that has a logic of its own is nanopb, the
  protocol buffer library that Firebase stores and sends its messages with, and BoringSSL, the
  cryptographic library under gRPC. This development models nanopb completely, and of BoringSSL the
  byte-string library, which every parser and printer of keys, certificates and handshake messages
  is written with, its containers, and the big numbers under its public-key code.

  \<^bold>\<open>nanopb\<close> (\<open>src/BookUp/Pods/nanopb\<close>). A message is a C structure that a table of
  \<open>pb_field_t\<close> entries describes. The encoder walks over the table and writes to an output stream,
  the decoder reads tags from an input stream, looks them up in the table and stores values. All
  calls share the streams; the decoder also shares the memory and, for pointer fields, the heap.

  \<^item> \<open>Prelude\<close>: machine types, a byte-addressed little-endian memory, byte-order conversions,
    \<open>splice\<close> (a write into the middle of a buffer), and the lemmas on them.
  \<^item> \<open>PbCommon\<close>: \<open>pb.h\<close> and \<open>pb_common.c\<close>, the descriptors and the iterator. The build defines
    \<open>PB_FIELD_32BIT\<close>, so \<open>pb_size_t\<close> is a \<open>u32\<close>.
  \<^item> \<open>PbOstream\<close>, \<open>PbEncode\<close>: \<open>pb_encode.c\<close>. A stream is a record; its callback, when it is not the
    buffer writer, is a function of the user's state. \<open>PbEncodeSpec\<close> says what an encoder should
    write (wire records computed from the message in memory) and proves that \<open>pb_encode\<close> writes
    exactly this, on every stream, sizing streams included.
  \<^item> \<open>PbIstream\<close>: the streams, varints, tags and skipping of \<open>pb_decode.c\<close>. \<open>PbWire\<close> proves that
    each value decoder inverts its encoder (locale \<open>wire_codec\<close>, six interpretations), and where the
    32-bit varint decoder does not do what it means to.
  \<^item> \<open>PbHeap\<close>, \<open>PbRelease\<close>, \<open>PbDecode\<close>: \<open>allocate_field\<close> and the heap (locale \<open>allocator\<close>), default
    values, \<open>pb_release\<close>, the field decoders and \<open>pb_decode\<close>. \<open>PbRegion\<close> has the two facts all
    operations share (they only consume the stream, never asking its callback for more than the bytes that are left,
    \<open>within\<close>, and they only write inside a region), \<open>PbSafe\<close> the termination of \<open>pb_decode\<close> and its memory safety on messages with static fields, \<open>PbPointer\<close>
    what the decoder does to pointer fields, and the two ways in which it corrupts the heap.
  \<^item> \<open>PbValue\<close>, \<open>PbPlain\<close>, \<open>PbFields\<close>, \<open>PbRoundtrip\<close>: encoder and decoder of whole messages are inverse:
    the decoder of each field type restores what the encoder wrote (\<open>PbValue\<close>), for the messages of \<open>PbPlain\<close>
    (static fields of every type, repeated and packed fields with a counter, submessages of any depth; no unions,
    pointer fields, callbacks, extensions and fixed-count arrays, and no submessages or fixed-length bytes
    without a flag, the SINGULAR ones of proto3), field by field (\<open>PbFields\<close>) and over the loop of the decoder with its seen
    bits (\<open>PbRoundtrip\<close>). Strings must be terminated inside their array: the encoder also sends a
    string that fills the array, and the decoder then refuses it.

  \<^bold>\<open>BoringSSL byte strings\<close> (\<open>src/BookUp/Pods/BoringSSL-GRPC/crypto/bytestring\<close>).

  \<^item> \<open>Cbs\<close>: \<open>cbs.c\<close>, the parser: a \<open>CBS\<close> is the list of the bytes that are left. \<open>Der\<close> states DER as
    functions from values to bytes and proves that the parser accepts exactly these bytes.
  \<^item> \<open>Cbb\<close>: \<open>cbb.c\<close> and \<open>asn1_compat.c\<close>, the builder: one shared buffer and the chain of open children.
    \<open>CbbSpec\<close> says which bytes an operation adds, \<open>CbbInv\<close> has the invariant of the builder over all
    its reachable states, \<open>CbbRoundtrip\<close> has builder against parser (locale \<open>der_codec\<close>, ten
    interpretations, and ASN.1 trees of any depth), \<open>OidText\<close> the dotted text of object identifiers,
    \<open>SetOf\<close> the sorted SET OF.
  \<^item> \<open>Ber\<close>: \<open>ber.c\<close>, the conversion of BER to DER. \<open>BerSpec\<close> is about the search for BER elements,
    \<open>BerConvert\<close> states BER values with minimal definite lengths as trees and proves what the conversion makes of them.

  \<^bold>\<open>BoringSSL utilities\<close> (\<open>src/BookUp/Pods/BoringSSL-GRPC/crypto\<close>).

  \<^item> \<open>Base64\<close>: \<open>base64/base64.c\<close>, with the constant-time primitives of \<open>internal.h\<close> it uses.
    \<open>Base64Spec\<close> proves that the primitives are comparisons and selections, that decoding inverts encoding,
    and that the streaming functions do not depend on how their input is cut.
  \<^item> \<open>Stack\<close>: \<open>stack/stack.c\<close>. \<open>StackSpec\<close> proves that a stack is a list (locale \<open>sequence\<close>, and a simulation over
    any sequence of calls, allocation failures included), that \<open>sk_find\<close> finds the first match, by order or by pointer,
    unless \<open>sk_set\<close> has been used, and that a deep copy has a copy of every element and leaks none.
  \<^item> \<open>Bio\<close>: \<open>bio/pair.c\<close> and the functions of \<open>bio/bio.c\<close> that work on a pair. \<open>BioSpec\<close> proves that a pair is two
    bounded queues, that no byte is lost or reordered, and that transfers complete (locale \<open>channel\<close>). The copying
    loops of the ring have the fuel 2, which is always enough.
  \<^item> \<open>Lhash\<close>: \<open>lhash/lhash.c\<close>. \<open>LhashSpec\<close> proves that a hash table is a dictionary (locale \<open>dictionary\<close>), whatever
    allocations fail, and bounds the length of its chains.

  \<^bold>\<open>BoringSSL big numbers\<close> (\<open>src/BookUp/Pods/BoringSSL-GRPC/crypto/fipsmodule/bn\<close> and \<open>crypto/bn_extra\<close>).

  \<^item> \<open>Bn\<close>: the store of \<open>BIGNUM\<close>s, where the arguments and the result of a call may be the same object; \<open>bn.c\<close>, \<open>cmp.c\<close> and
    \<open>ctx.c\<close>. \<open>BnWords\<close>: the functions on arrays of words (\<open>generic.c\<close> and parts of \<open>shift.c\<close>), where pointers may
    overlap. \<open>BnArith\<close>: \<open>add.c\<close>, \<open>shift.c\<close> and \<open>bytes.c\<close>.
  \<^item> \<open>BnWordsSpec\<close>: what the loops over words compute, with their carries (\<open>scan_value\<close>), and when overlapping pointers do no
    harm (\<open>follows\<close>). \<open>BnSpec\<close>: the value and the invariant of a \<open>BIGNUM\<close>, when more words can be had (\<open>able\<close>), what
    an operation owes its caller (\<open>sets\<close>, \<open>gives\<close>), and comparisons. \<open>BnAddSpec\<close>, \<open>BnShiftSpec\<close>, \<open>BnBitSpec\<close>, \<open>BnSmallSpec\<close>, \<open>BnDigitSpec\<close>,
    \<open>BnSingleSpec\<close>: the value each operation gives, for all aliases and signs.
  \<^item> \<open>BnBytesSpec\<close>: bit lengths and the conversions from and to bytes. \<open>BnAsn1\<close>: \<open>bn_asn1.c\<close>, with the byte-string parser and builder:
    the encodings are the DER integers.
  \<^item> \<open>BnCalc\<close>: sequences of calls (locale \<open>call_contract\<close>): every one returns and keeps the invariant, and those that
    succeed compute what a calculator with integers computes.

  \<^bold>\<open>Conventions.\<close> An operation returns the updated state with its result. An \<open>option\<close> around the
  result of a recursive nanopb function is fuel that ran out; \<open>PbSafe.pb_decode_terminates\<close> and the
  encoder's refinement show that this does not happen. The fuel of the decoder is the nesting depth
  of the descriptors for the recursion, \<open>bytes_left\<close> for the loops over the stream and the number of
  fields for the loops over a table; each pass of such a loop consumes a byte, or a field. The
  recursion of \<open>find_ber\<close> and \<open>convert_ber\<close> has the fuel \<open>kMaxDepth\<close> = 2048, which is the bound the
  code checks. \<open>size_t\<close> is 64 bits wide: a sum that the code checks for overflow is written with
  \<open>mod size_mod\<close>, and \<open>unat\<close> and \<open>mod\<close> are written where narrower types wrap.

  \<^bold>\<open>Parameters.\<close> User callbacks of streams and fields are arguments, functions of an arbitrary state.
  \<open>realloc\<close> and \<open>malloc\<close> are oracles: a function from the size to the block, or a flag;
  the code of comparison and hash functions, of element copying and freeing, and \<open>bsearch\<close> are arguments; \<open>qsort\<close> is any function that returns a sorted
  permutation.

  \<^bold>\<open>Not modelled.\<close> The ciphers, hashes, curves, X.509 and TLS code of BoringSSL; of its big numbers
  multiplication and division, the modular arithmetic, primes and the printing of numbers, and the functions that only
  give memory back; the generated tables
  of nanopb messages, which are data; the C++ (gRPC, leveldb, abseil, Firestore), the Objective-C and
  the Swift code. The \<open>PB_BUFFER_ONLY\<close>, \<open>PB_NO_ERRMSG\<close> and \<open>PB_OLD_CALLBACK_STYLE\<close> variants of nanopb are not
  part of the build.
\<close>

end
